(* ===== verification/Mes_Prelude.thy ===== *)
theory Mes_Prelude
  imports Main "HOL-Library.Word" "HOL-Library.Signed_Division"
begin

text \<open>
  What every component of the Mes development shares: C integers at their width, the faults a
  run of the interpreter can end with, and the state monad in which the C functions are
  written.

  A C function of type \<^verbatim>\<open>T f (...)\<close> becomes a HOL function into
  \<open>('s, 'a) m\<close>: it takes the state of the interpreter and gives either a value or a fault,
  together with the state in which it stopped. The outer \<open>option\<close> is for loops: \<open>None\<close> says
  that the C code does not return.
\<close>

section \<open>Automation\<close>

named_theorems monad_simps "equations of the state monad"
named_theorems cells "the addresses of the preallocated cells"
named_theorems width "integers that fit in their width"

section \<open>C integers\<close>

text \<open>
  Words of the machine are mathematical integers; the functions below bring the result of an
  operation back to the range of its C type on a 64-bit machine: \<^verbatim>\<open>long\<close>,
  \<^verbatim>\<open>size_t\<close>, \<^verbatim>\<open>int\<close>, \<^verbatim>\<open>unsigned\<close> and (signed) \<^verbatim>\<open>char\<close>.
\<close>

definition to_long :: "int \<Rightarrow> int" where
  "to_long n = signed_take_bit 63 n"

definition to_size :: "int \<Rightarrow> int" where
  "to_size n = take_bit 64 n"

definition to_int :: "int \<Rightarrow> int" where
  "to_int n = signed_take_bit 31 n"

definition to_unsigned :: "int \<Rightarrow> int" where
  "to_unsigned n = take_bit 32 n"

definition to_char :: "int \<Rightarrow> int" where
  "to_char n = signed_take_bit 7 n"

definition is_long :: "int \<Rightarrow> bool" where
  "is_long n \<longleftrightarrow> - (2 ^ 63) \<le> n \<and> n < 2 ^ 63"

definition is_int :: "int \<Rightarrow> bool" where
  "is_int n \<longleftrightarrow> - (2 ^ 31) \<le> n \<and> n < 2 ^ 31"

lemma to_long_id [width]: "is_long n \<Longrightarrow> to_long n = n"
  by (simp add: to_long_def is_long_def signed_take_bit_int_eq_self)

lemma to_int_id [width]: "is_int n \<Longrightarrow> to_int n = n"
  by (simp add: to_int_def is_int_def signed_take_bit_int_eq_self)

lemma to_size_id [width]: "0 \<le> n \<Longrightarrow> n < 2 ^ 64 \<Longrightarrow> to_size n = n"
  by (simp add: to_size_def take_bit_int_eq_self)

lemma to_unsigned_id [width]: "0 \<le> n \<Longrightarrow> n < 2 ^ 32 \<Longrightarrow> to_unsigned n = n"
  by (simp add: to_unsigned_def take_bit_int_eq_self)

lemma is_long_to_long: "is_long (to_long n)"
  unfolding to_long_def is_long_def
  using signed_take_bit_int_greater_eq_minus_exp [of 63 n] signed_take_bit_int_less_exp [of 63 n]
  by simp

lemma to_long_wraps: "to_long (n + 2 ^ 64 * k) = to_long n"
proof -
  have "(n + 2 ^ 64 * k + 2 ^ 63) mod 2 ^ 64 = (n + 2 ^ 63 + 2 ^ 64 * k) mod 2 ^ 64"
    by (simp add: algebra_simps)
  also have "\<dots> = (n + 2 ^ 63) mod 2 ^ 64"
    by simp
  finally show ?thesis
    by (simp add: to_long_def signed_take_bit_eq_take_bit_shift take_bit_eq_mod)
qed

lemma to_long_idem [simp]: "to_long (to_long n) = to_long n"
  by (rule to_long_id) (rule is_long_to_long)

lemma to_long_mod: "\<exists>k. to_long n = n + 2 ^ 64 * k"
proof -
  have "to_long n = (n + 2 ^ 63) mod 2 ^ 64 - 2 ^ 63"
    by (simp add: to_long_def signed_take_bit_eq_take_bit_shift take_bit_eq_mod)
  moreover have "(n + 2 ^ 63) mod 2 ^ 64 = (n + 2 ^ 63) - 2 ^ 64 * ((n + 2 ^ 63) div 2 ^ 64)"
    by (simp add: minus_mult_div_eq_mod)
  ultimately have "to_long n = n + 2 ^ 64 * (- ((n + 2 ^ 63) div 2 ^ 64))"
    by simp
  then show ?thesis ..
qed

lemma to_long_cong: "n mod 2 ^ 64 = m mod 2 ^ 64 \<Longrightarrow> to_long n = to_long m"
proof -
  have "to_long k = (k + 2 ^ 63) mod 2 ^ 64 - 2 ^ 63" for k
    by (simp add: to_long_def signed_take_bit_eq_take_bit_shift take_bit_eq_mod)
  then show "n mod 2 ^ 64 = m mod 2 ^ 64 \<Longrightarrow> to_long n = to_long m"
    using mod_add_cong [of n "2 ^ 64" m "2 ^ 63" "2 ^ 63"] by simp
qed

lemma to_long_mod_eq: "to_long n mod 2 ^ 64 = n mod 2 ^ 64"
proof -
  obtain k where "to_long n = n + 2 ^ 64 * k" using to_long_mod by blast
  then show ?thesis by simp
qed

text \<open>Remainders truncate towards zero; on natural operands that is the usual remainder.\<close>

lemma smod_nonneg: "0 \<le> a \<Longrightarrow> 0 < n \<Longrightarrow> a smod n = a mod n" for a n :: int
  by (cases "a = 0") (simp_all add: smod_int_alt_def)

section \<open>Faults\<close>

text \<open>
  \<open>Throw key x\<close> stands for a call of \<^verbatim>\<open>error (key, x)\<close> (core.c), which hands control to
  the Scheme procedure \<open>throw\<close>; \<open>Assert msg\<close> for a failed \<^verbatim>\<open>assert_msg\<close>, which ends the
  process; \<open>Segv\<close> for a load or store outside the arena; \<open>Exit n\<close> for
  \<^verbatim>\<open>exit (n)\<close>.
\<close>

type_synonym addr = int

datatype fault =
    Throw addr addr
  | Assert string
  | Segv
  | Exit int

section \<open>The state monad\<close>

type_synonym ('s, 'a) m = "'s \<Rightarrow> ((fault + 'a) \<times> 's) option"

definition ret :: "'a \<Rightarrow> ('s, 'a) m" where
  "ret a = (\<lambda>s. Some (Inr a, s))"

definition fail :: "fault \<Rightarrow> ('s, 'a) m" where
  "fail e = (\<lambda>s. Some (Inl e, s))"

definition gets :: "('s \<Rightarrow> 'a) \<Rightarrow> ('s, 'a) m" where
  "gets f = (\<lambda>s. Some (Inr (f s), s))"

definition modify :: "('s \<Rightarrow> 's) \<Rightarrow> ('s, unit) m" where
  "modify f = (\<lambda>s. Some (Inr (), f s))"

definition mbind :: "('s, 'a) m \<Rightarrow> ('a \<Rightarrow> ('s, 'b) m) \<Rightarrow> ('s, 'b) m" where
  "mbind p f = (\<lambda>s. Option.bind (p s) (\<lambda>r. case r of
       (Inl e, s') \<Rightarrow> Some (Inl e, s')
     | (Inr a, s') \<Rightarrow> f a s'))"

text \<open>\<open>p ;; q\<close> of the C code, where the value of \<open>p\<close> is not used.\<close>

definition mseq :: "('s, 'a) m \<Rightarrow> ('s, 'b) m \<Rightarrow> ('s, 'b) m" where
  "mseq p q = mbind p (\<lambda>_. q)"

definition mwhen :: "bool \<Rightarrow> ('s, unit) m \<Rightarrow> ('s, unit) m" where
  "mwhen b p = (if b then p else ret ())"

text \<open>\<^verbatim>\<open>assert_msg (check, msg)\<close> of lib/mes/assert_msg.c.\<close>

definition assert_msg :: "bool \<Rightarrow> string \<Rightarrow> ('s, unit) m" where
  "assert_msg check msg = (if check then ret () else fail (Assert msg))"

text \<open>A loop that runs a body for each element of a list of indices.\<close>

primrec mfor :: "'i list \<Rightarrow> ('i \<Rightarrow> ('s, unit) m) \<Rightarrow> ('s, unit) m" where
  "mfor [] body = ret ()"
| "mfor (i # is) body = mseq (body i) (mfor is body)"

text \<open>A loop over indices that stops at the first one for which the body says no.\<close>

primrec mall :: "'i list \<Rightarrow> ('i \<Rightarrow> ('s, bool) m) \<Rightarrow> ('s, bool) m" where
  "mall [] body = ret True"
| "mall (i # is) body = mbind (body i) (\<lambda>b. if b then mall is body else ret False)"

lemma ret_apply [simp, monad_simps]: "ret a s = Some (Inr a, s)"
  by (simp add: ret_def)

lemma fail_apply [simp, monad_simps]: "fail e s = Some (Inl e, s)"
  by (simp add: fail_def)

lemma gets_apply [simp, monad_simps]: "gets f s = Some (Inr (f s), s)"
  by (simp add: gets_def)

lemma modify_apply [simp, monad_simps]: "modify f s = Some (Inr (), f s)"
  by (simp add: modify_def)

lemma mbind_ret [simp, monad_simps]: "mbind (ret a) f = f a"
  by (rule ext) (simp add: mbind_def)

lemma mbind_fail [simp, monad_simps]: "mbind (fail e) f = fail e"
  by (rule ext) (simp add: mbind_def)

lemma mbind_gets [simp, monad_simps]: "mbind (gets g) f s = f (g s) s"
  by (simp add: mbind_def)

lemma mbind_modify [simp, monad_simps]: "mbind (modify g) f s = f () (g s)"
  by (simp add: mbind_def)

lemma mbind_assoc [simp, monad_simps]: "mbind (mbind p f) g = mbind p (\<lambda>a. mbind (f a) g)"
  by (rule ext) (auto simp: mbind_def split: option.splits sum.splits Option.bind_splits)

lemma mbind_Inr [simp, monad_simps]: "p s = Some (Inr a, s') \<Longrightarrow> mbind p f s = f a s'"
  by (simp add: mbind_def)

lemma mbind_Inl [simp, monad_simps]: "p s = Some (Inl e, s') \<Longrightarrow> mbind p f s = Some (Inl e, s')"
  by (simp add: mbind_def)

lemma mbind_None [simp, monad_simps]: "p s = None \<Longrightarrow> mbind p f s = None"
  by (simp add: mbind_def)

lemma mbind_if [simp, monad_simps]:
  "mbind (if b then p else q) f = (if b then mbind p f else mbind q f)"
  by simp

lemma if_apply [simp, monad_simps]: "(if b then p else q) s = (if b then p s else q s)"
  by simp

declare mseq_def [simp, monad_simps]

lemma mwhen_simps [simp, monad_simps]: "mwhen True p = p" "mwhen False p = ret ()"
  by (simp_all add: mwhen_def)

lemma assert_msg_simps [simp, monad_simps]:
  "assert_msg True msg = ret ()" "assert_msg False msg = fail (Assert msg)"
  by (simp_all add: assert_msg_def)

lemma mbind_eq_Inr:
  assumes "mbind p f s = Some (Inr b, t)"
  obtains a s' where "p s = Some (Inr a, s')" and "f a s' = Some (Inr b, t)"
  using assms by (auto simp: mbind_def bind_eq_Some_conv split: sum.splits prod.splits) (case_tac a; auto)

text \<open>The loops are least fixed points in the option type: \<open>mbind\<close> is monotone in both parts.\<close>

lemma mbind_mono [partial_function_mono]:
  assumes "\<And>s. monotone (fun_ord (flat_ord None)) (flat_ord None) (\<lambda>f. p f s)"
    and "\<And>a s. monotone (fun_ord (flat_ord None)) (flat_ord None) (\<lambda>f. q f a s)"
  shows "monotone (fun_ord (flat_ord None)) (flat_ord None) (\<lambda>f. mbind (p f) (q f) s)"
  unfolding mbind_def
proof (rule bind_mono)
  show "monotone (fun_ord (flat_ord None)) (flat_ord None) (\<lambda>f. p f s)"
    by (rule assms(1))
next
  fix r
  show "monotone (fun_ord (flat_ord None)) (flat_ord None)
    (\<lambda>f. case r of (Inl e, s') \<Rightarrow> Some (Inl e, s') | (Inr a, s') \<Rightarrow> q f a s')"
    by (cases r; cases "fst r") (auto intro: assms(2) monotoneI simp: flat_ord_def)
qed

lemma mseq_mono [partial_function_mono]:
  assumes "\<And>s. monotone (fun_ord (flat_ord None)) (flat_ord None) (\<lambda>f. p f s)"
    and "\<And>s. monotone (fun_ord (flat_ord None)) (flat_ord None) (\<lambda>f. q f s)"
  shows "monotone (fun_ord (flat_ord None)) (flat_ord None) (\<lambda>f. mseq (p f) (q f) s)"
  unfolding mseq_def by (rule mbind_mono) (rule assms)+

lemma if_apply_mono [partial_function_mono]:
  assumes "\<And>s. monotone (fun_ord (flat_ord None)) (flat_ord None) (\<lambda>f. p f s)"
    and "\<And>s. monotone (fun_ord (flat_ord None)) (flat_ord None) (\<lambda>f. q f s)"
  shows "monotone (fun_ord (flat_ord None)) (flat_ord None) (\<lambda>f. (if b then p f else q f) s)"
  by (cases b) (simp_all only: if_True if_False assms)

lemma let_apply_mono [partial_function_mono]:
  assumes "\<And>x s. monotone (fun_ord (flat_ord None)) (flat_ord None) (\<lambda>f. q f x s)"
  shows "monotone (fun_ord (flat_ord None)) (flat_ord None) (\<lambda>f. (let x = t in q f x) s)"
  unfolding Let_def by (rule assms)

lemma mfor_mono [partial_function_mono]:
  assumes "\<And>i s. monotone (fun_ord (flat_ord None)) (flat_ord None) (\<lambda>f. body f i s)"
  shows "monotone (fun_ord (flat_ord None)) (flat_ord None) (\<lambda>f. mfor is (body f) s)"
proof (induction "is" arbitrary: s)
  case Nil
  then show ?case by (simp add: monotone_def flat_ord_def)
next
  case (Cons i "is")
  then show ?case
    unfolding mfor.simps by (intro mseq_mono assms)
qed

lemma mall_mono [partial_function_mono]:
  assumes "\<And>i s. monotone (fun_ord (flat_ord None)) (flat_ord None) (\<lambda>f. body f i s)"
  shows "monotone (fun_ord (flat_ord None)) (flat_ord None) (\<lambda>f. mall is (body f) s)"
proof (induction "is" arbitrary: s)
  case Nil
  then show ?case by (simp add: monotone_def flat_ord_def)
next
  case (Cons i "is")
  have const: "monotone (fun_ord (flat_ord None)) (flat_ord None) (\<lambda>f. ret False t)" for t
    by (rule monotoneI) (simp add: flat_ord_def)
  have "monotone (fun_ord (flat_ord None)) (flat_ord None)
      (\<lambda>f. (if b then mall is (body f) else ret False) t)" for b t
    using Cons.IH [of t] const [of t] by (cases b) (simp_all only: if_True if_False)
  then show ?case
    unfolding mall.simps by (intro mbind_mono assms)
qed

text \<open>A body that keeps a property and never faults keeps it through the whole loop.\<close>

lemma mfor_invariant:
  assumes "P 0 s"
    and "\<And>k s. k < length is \<Longrightarrow> P k s \<Longrightarrow> \<exists>s'. body (is ! k) s = Some (Inr (), s') \<and> P (Suc k) s'"
  shows "\<exists>s'. mfor is body s = Some (Inr (), s') \<and> P (length is) s'"
  using assms
proof (induction "is" arbitrary: s P)
  case Nil
  then show ?case by simp
next
  case (Cons i "is")
  from Cons.prems(2) [of 0 s] Cons.prems(1) obtain t
    where t: "body i s = Some (Inr (), t)" "P (Suc 0) t"
    by auto
  have "\<exists>s'. mfor is body t = Some (Inr (), s') \<and> P (Suc (length is)) s'"
    using Cons.IH [of "\<lambda>k. P (Suc k)" t] t(2) Cons.prems(2) by force
  then show ?case using t(1) by auto
qed

end
