(* ===== verification/Mes_Cells.thy ===== *)
theory Mes_Cells
  imports Mes_Prelude
begin

text \<open>
  The memory of the interpreter: cells (include/mes/mes.h, include/mes/constants.h), the
  globals of mes.c and gc.c, loads and stores, and the allocating constructors of
  src/src/gc.c.

  An address counts cells, as C pointer arithmetic on \<^verbatim>\<open>struct scm *\<close> does with
  \<^verbatim>\<open>M2_CELL_SIZE\<close> 1; address 0 is the null pointer and the block that
  \<^verbatim>\<open>gc_init\<close> gets from \<^verbatim>\<open>malloc\<close> starts at address 1000000, so that a small
  number taken for a pointer is not the address of a cell. The two unions of a cell are two
  words, read as pointers or as \<^verbatim>\<open>long\<close>s. The payload of a \<^verbatim>\<open>TBYTES\<close> cell,
  which C keeps in the cells from the second word on, is the list of bytes
  \<open>bytes s x\<close>; the cells behind it are reserved all the same.
\<close>

section \<open>Cell types and cells\<close>

datatype tag =
    TCHAR
  | TBYTES
  | TCLOSURE
  | TCONTINUATION
  | TKEYWORD
  | TMACRO
  | TNUMBER
  | TPAIR
  | TPORT
  | TREF
  | TSPECIAL
  | TSTRING
  | TSTRUCT
  | TSYMBOL
  | TVALUES
  | TBINDING
  | TVECTOR
  | TBROKEN_HEART

text \<open>The numbers of include/mes/constants.h.\<close>

primrec tag_number :: "tag \<Rightarrow> int" where
  "tag_number TCHAR = 0"
| "tag_number TBYTES = 1"
| "tag_number TCLOSURE = 2"
| "tag_number TCONTINUATION = 3"
| "tag_number TKEYWORD = 4"
| "tag_number TMACRO = 5"
| "tag_number TNUMBER = 6"
| "tag_number TPAIR = 7"
| "tag_number TPORT = 8"
| "tag_number TREF = 9"
| "tag_number TSPECIAL = 10"
| "tag_number TSTRING = 11"
| "tag_number TSTRUCT = 12"
| "tag_number TSYMBOL = 13"
| "tag_number TVALUES = 14"
| "tag_number TBINDING = 15"
| "tag_number TVECTOR = 16"
| "tag_number TBROKEN_HEART = 17"

lemma tag_number_inj: "tag_number a = tag_number b \<Longrightarrow> a = b"
  by (cases a; cases b; simp)

record cell =
  ctype :: tag
  ccar :: int
  ccdr :: int

definition mk_cell :: "tag \<Rightarrow> int \<Rightarrow> int \<Rightarrow> cell" where
  "mk_cell t a d = \<lparr>ctype = t, ccar = a, ccdr = d\<rparr>"

lemma mk_cell_simps [simp]:
  "ctype (mk_cell t a d) = t" "ccar (mk_cell t a d) = a" "ccdr (mk_cell t a d) = d"
  "(mk_cell t a d)\<lparr>ctype := t'\<rparr> = mk_cell t' a d"
  "(mk_cell t a d)\<lparr>ccar := a'\<rparr> = mk_cell t a' d"
  "(mk_cell t a d)\<lparr>ccdr := d'\<rparr> = mk_cell t a d'"
  by (simp_all add: mk_cell_def)

lemma cell_update_all [simp]: "c\<lparr>ctype := t, ccar := a, ccdr := d\<rparr> = mk_cell t a d"
  for c :: cell
  by (cases c) (simp add: mk_cell_def)

lemma cell_update_two [simp]: "c\<lparr>ctype := t, ccar := a\<rparr> = mk_cell t a (ccdr c)"
  for c :: cell
  by (cases c) (simp add: mk_cell_def)

lemma cell_update_outer [simp]: "c\<lparr>ctype := t, ccdr := d\<rparr> = mk_cell t (ccar c) d"
  for c :: cell
  by (cases c) (simp add: mk_cell_def)

lemma mk_cell_eq_iff [simp]:
  "mk_cell t a d = mk_cell t' a' d' \<longleftrightarrow> t = t' \<and> a = a' \<and> d = d'"
  by (simp add: mk_cell_def)

lemma mk_cell_surjective [simp]: "mk_cell (ctype c) (ccar c) (ccdr c) = c"
  by (cases c) (simp add: mk_cell_def)

section \<open>The state\<close>

text \<open>
  The globals of include/mes/mes.h. \<open>stack\<close> is \<^verbatim>\<open>g_stack_array\<close>; \<open>infile fd\<close> is what is
  left to read on a file descriptor, \<open>ungetc_buf fd\<close> the pushed-back character (or a negative
  number), \<open>outlog\<close> the bytes written so far, newest first, each with its descriptor.
\<close>

type_synonym byte = "8 word"

record mst =
  heap :: "addr \<rightharpoonup> cell"
  bytes :: "addr \<Rightarrow> byte list"
  stack :: "int \<Rightarrow> addr"
  g_stack :: int
  g_free :: addr
  g_cells :: addr
  g_news :: addr
  g_arena :: addr
  cell_arena :: addr
  cell_zero :: addr
  g_symbols :: addr
  g_symbol :: addr
  g_symbol_max :: addr
  g_macros :: addr
  g_ports :: addr
  hash_table_type :: addr
  variable_type :: addr
  R0 :: addr
  R1 :: addr
  R2 :: addr
  R3 :: addr
  M0 :: addr
  M1 :: addr
  g_continuations :: int
  ARENA_SIZE :: int
  MAX_ARENA_SIZE :: int
  STACK_SIZE :: int
  JAM_SIZE :: int
  GC_SAFETY :: int
  MAX_STRING :: int
  gc_count :: int
  g_depth :: int
  infd :: int
  outfd :: int
  errfd :: int
  infile :: "int \<Rightarrow> byte list"
  ungetc_buf :: "int \<Rightarrow> int"
  outlog :: "(int \<times> byte) list"

type_synonym 'a mes = "(mst, 'a) m"

section \<open>The preallocated cells\<close>

text \<open>
  \<^verbatim>\<open>init_symbols_\<close> (symbol.c) lays the special cells and the symbols that the evaluator
  knows out one after the other from \<^verbatim>\<open>cell_nil\<close>; a global points to each. The arena
  starts at address 1000000 with \<^verbatim>\<open>cell_arena\<close>; \<^verbatim>\<open>g_cells\<close> and
  \<^verbatim>\<open>cell_zero\<close> are 1000001.
\<close>

definition cell_nil :: addr where [cells]: "cell_nil = 1000002"
definition cell_f :: addr where [cells]: "cell_f = 1000003"
definition cell_t :: addr where [cells]: "cell_t = 1000004"
definition cell_dot :: addr where [cells]: "cell_dot = 1000005"
definition cell_arrow :: addr where [cells]: "cell_arrow = 1000006"
definition cell_undefined :: addr where [cells]: "cell_undefined = 1000007"
definition cell_unspecified :: addr where [cells]: "cell_unspecified = 1000008"
definition cell_closure :: addr where [cells]: "cell_closure = 1000009"
definition cell_circular :: addr where [cells]: "cell_circular = 1000010"
definition cell_vm_apply :: addr where [cells]: "cell_vm_apply = 1000011"
definition cell_vm_apply2 :: addr where [cells]: "cell_vm_apply2 = 1000012"
definition cell_vm_begin :: addr where [cells]: "cell_vm_begin = 1000013"
definition cell_vm_begin_eval :: addr where [cells]: "cell_vm_begin_eval = 1000014"
definition cell_vm_begin_expand :: addr where [cells]: "cell_vm_begin_expand = 1000015"
definition cell_vm_begin_expand_eval :: addr where [cells]: "cell_vm_begin_expand_eval = 1000016"
definition cell_vm_begin_expand_macro :: addr where [cells]: "cell_vm_begin_expand_macro = 1000017"
definition cell_vm_begin_read_input_file :: addr where [cells]: "cell_vm_begin_read_input_file = 1000018"
definition cell_vm_call_with_current_continuation2 :: addr where [cells]: "cell_vm_call_with_current_continuation2 = 1000019"
definition cell_vm_call_with_values2 :: addr where [cells]: "cell_vm_call_with_values2 = 1000020"
definition cell_vm_eval :: addr where [cells]: "cell_vm_eval = 1000021"
definition cell_vm_eval2 :: addr where [cells]: "cell_vm_eval2 = 1000022"
definition cell_vm_eval_check_func :: addr where [cells]: "cell_vm_eval_check_func = 1000023"
definition cell_vm_eval_define :: addr where [cells]: "cell_vm_eval_define = 1000024"
definition cell_vm_eval_macro_expand_eval :: addr where [cells]: "cell_vm_eval_macro_expand_eval = 1000025"
definition cell_vm_eval_macro_expand_expand :: addr where [cells]: "cell_vm_eval_macro_expand_expand = 1000026"
definition cell_vm_eval_set_x :: addr where [cells]: "cell_vm_eval_set_x = 1000027"
definition cell_vm_evlis :: addr where [cells]: "cell_vm_evlis = 1000028"
definition cell_vm_evlis2 :: addr where [cells]: "cell_vm_evlis2 = 1000029"
definition cell_vm_evlis3 :: addr where [cells]: "cell_vm_evlis3 = 1000030"
definition cell_vm_if :: addr where [cells]: "cell_vm_if = 1000031"
definition cell_vm_if_expr :: addr where [cells]: "cell_vm_if_expr = 1000032"
definition cell_vm_macro_expand :: addr where [cells]: "cell_vm_macro_expand = 1000033"
definition cell_vm_macro_expand_car :: addr where [cells]: "cell_vm_macro_expand_car = 1000034"
definition cell_vm_macro_expand_cdr :: addr where [cells]: "cell_vm_macro_expand_cdr = 1000035"
definition cell_vm_macro_expand_define :: addr where [cells]: "cell_vm_macro_expand_define = 1000036"
definition cell_vm_macro_expand_define_macro :: addr where [cells]: "cell_vm_macro_expand_define_macro = 1000037"
definition cell_vm_macro_expand_lambda :: addr where [cells]: "cell_vm_macro_expand_lambda = 1000038"
definition cell_vm_macro_expand_set_x :: addr where [cells]: "cell_vm_macro_expand_set_x = 1000039"
definition cell_vm_return :: addr where [cells]: "cell_vm_return = 1000040"
definition cell_symbol_lambda :: addr where [cells]: "cell_symbol_lambda = 1000041"
definition cell_symbol_begin :: addr where [cells]: "cell_symbol_begin = 1000042"
definition cell_symbol_if :: addr where [cells]: "cell_symbol_if = 1000043"
definition cell_symbol_quote :: addr where [cells]: "cell_symbol_quote = 1000044"
definition cell_symbol_define :: addr where [cells]: "cell_symbol_define = 1000045"
definition cell_symbol_define_macro :: addr where [cells]: "cell_symbol_define_macro = 1000046"
definition cell_symbol_quasiquote :: addr where [cells]: "cell_symbol_quasiquote = 1000047"
definition cell_symbol_unquote :: addr where [cells]: "cell_symbol_unquote = 1000048"
definition cell_symbol_unquote_splicing :: addr where [cells]: "cell_symbol_unquote_splicing = 1000049"
definition cell_symbol_syntax :: addr where [cells]: "cell_symbol_syntax = 1000050"
definition cell_symbol_quasisyntax :: addr where [cells]: "cell_symbol_quasisyntax = 1000051"
definition cell_symbol_unsyntax :: addr where [cells]: "cell_symbol_unsyntax = 1000052"
definition cell_symbol_unsyntax_splicing :: addr where [cells]: "cell_symbol_unsyntax_splicing = 1000053"
definition cell_symbol_set_x :: addr where [cells]: "cell_symbol_set_x = 1000054"
definition cell_symbol_sc_expand :: addr where [cells]: "cell_symbol_sc_expand = 1000055"
definition cell_symbol_macro_expand :: addr where [cells]: "cell_symbol_macro_expand = 1000056"
definition cell_symbol_portable_macro_expand :: addr where [cells]: "cell_symbol_portable_macro_expand = 1000057"
definition cell_symbol_sc_expander_alist :: addr where [cells]: "cell_symbol_sc_expander_alist = 1000058"
definition cell_symbol_call_with_values :: addr where [cells]: "cell_symbol_call_with_values = 1000059"
definition cell_symbol_call_with_current_continuation :: addr where [cells]: "cell_symbol_call_with_current_continuation = 1000060"
definition cell_symbol_current_environment :: addr where [cells]: "cell_symbol_current_environment = 1000061"
definition cell_symbol_car :: addr where [cells]: "cell_symbol_car = 1000062"
definition cell_symbol_cdr :: addr where [cells]: "cell_symbol_cdr = 1000063"
definition cell_symbol_not_a_number :: addr where [cells]: "cell_symbol_not_a_number = 1000064"
definition cell_symbol_not_a_pair :: addr where [cells]: "cell_symbol_not_a_pair = 1000065"
definition cell_symbol_system_error :: addr where [cells]: "cell_symbol_system_error = 1000066"
definition cell_symbol_throw :: addr where [cells]: "cell_symbol_throw = 1000067"
definition cell_symbol_unbound_variable :: addr where [cells]: "cell_symbol_unbound_variable = 1000068"
definition cell_symbol_wrong_number_of_args :: addr where [cells]: "cell_symbol_wrong_number_of_args = 1000069"
definition cell_symbol_wrong_type_arg :: addr where [cells]: "cell_symbol_wrong_type_arg = 1000070"
definition cell_symbol_buckets :: addr where [cells]: "cell_symbol_buckets = 1000071"
definition cell_symbol_builtin :: addr where [cells]: "cell_symbol_builtin = 1000072"
definition cell_symbol_frame :: addr where [cells]: "cell_symbol_frame = 1000073"
definition cell_symbol_hashq_table :: addr where [cells]: "cell_symbol_hashq_table = 1000074"
definition cell_symbol_procedure :: addr where [cells]: "cell_symbol_procedure = 1000075"
definition cell_symbol_record_type :: addr where [cells]: "cell_symbol_record_type = 1000076"
definition cell_symbol_size :: addr where [cells]: "cell_symbol_size = 1000077"
definition cell_symbol_stack :: addr where [cells]: "cell_symbol_stack = 1000078"
definition cell_symbol_argv :: addr where [cells]: "cell_symbol_argv = 1000079"
definition cell_symbol_mes_datadir :: addr where [cells]: "cell_symbol_mes_datadir = 1000080"
definition cell_symbol_mes_version :: addr where [cells]: "cell_symbol_mes_version = 1000081"
definition cell_symbol_internal_time_units_per_second :: addr where [cells]: "cell_symbol_internal_time_units_per_second = 1000082"
definition cell_symbol_compiler :: addr where [cells]: "cell_symbol_compiler = 1000083"
definition cell_symbol_arch :: addr where [cells]: "cell_symbol_arch = 1000084"
definition cell_symbol_variable :: addr where [cells]: "cell_symbol_variable = 1000085"
definition cell_symbol_standard_eval_closure :: addr where [cells]: "cell_symbol_standard_eval_closure = 1000086"
definition cell_symbol_standard_interface_eval_closure :: addr where [cells]: "cell_symbol_standard_interface_eval_closure = 1000087"
definition cell_type_bytes :: addr where [cells]: "cell_type_bytes = 1000088"
definition cell_type_char :: addr where [cells]: "cell_type_char = 1000089"
definition cell_type_closure :: addr where [cells]: "cell_type_closure = 1000090"
definition cell_type_continuation :: addr where [cells]: "cell_type_continuation = 1000091"
definition cell_type_function :: addr where [cells]: "cell_type_function = 1000092"
definition cell_type_keyword :: addr where [cells]: "cell_type_keyword = 1000093"
definition cell_type_macro :: addr where [cells]: "cell_type_macro = 1000094"
definition cell_type_number :: addr where [cells]: "cell_type_number = 1000095"
definition cell_type_pair :: addr where [cells]: "cell_type_pair = 1000096"
definition cell_type_port :: addr where [cells]: "cell_type_port = 1000097"
definition cell_type_ref :: addr where [cells]: "cell_type_ref = 1000098"
definition cell_type_special :: addr where [cells]: "cell_type_special = 1000099"
definition cell_type_string :: addr where [cells]: "cell_type_string = 1000100"
definition cell_type_struct :: addr where [cells]: "cell_type_struct = 1000101"
definition cell_type_symbol :: addr where [cells]: "cell_type_symbol = 1000102"
definition cell_type_values :: addr where [cells]: "cell_type_values = 1000103"
definition cell_type_binding :: addr where [cells]: "cell_type_binding = 1000104"
definition cell_type_vector :: addr where [cells]: "cell_type_vector = 1000105"
definition cell_type_broken_heart :: addr where [cells]: "cell_type_broken_heart = 1000106"
definition cell_symbol_program :: addr where [cells]: "cell_symbol_program = 1000107"
definition cell_symbol_test :: addr where [cells]: "cell_symbol_test = 1000108"

text \<open>Type and name of each, in the order of the calls of \<^verbatim>\<open>init_symbol\<close>.\<close>

definition symbol_specs :: "(tag \<times> string) list" where
  "symbol_specs =
    [(TSPECIAL, ''()''), (TSPECIAL, ''#f''), (TSPECIAL, ''#t''), (TSPECIAL, ''.''),
     (TSPECIAL, ''=>''), (TSPECIAL, ''*undefined*''), (TSPECIAL, ''*unspecified*''),
     (TSPECIAL, ''*closure*''), (TSPECIAL, ''*circular*''), (TSPECIAL, ''core:apply''),
     (TSPECIAL, ''*vm-apply2*''), (TSPECIAL, ''*vm-begin*''), (TSPECIAL, ''*vm:begin-eval*''),
     (TSPECIAL, ''core:eval''), (TSPECIAL, ''*vm:begin-expand-eval*''),
     (TSPECIAL, ''*vm:begin-expand-macro*''), (TSPECIAL, ''*vm-begin-read-input-file*''),
     (TSPECIAL, ''*vm-call-with-current-continuation2*''),
     (TSPECIAL, ''*vm-call-with-values2*''), (TSPECIAL, ''core:eval-expanded''),
     (TSPECIAL, ''*vm-eval2*''), (TSPECIAL, ''*vm-eval-check-func*''),
     (TSPECIAL, ''*vm-eval-define*''), (TSPECIAL, ''*vm:eval-macro-expand-eval*''),
     (TSPECIAL, ''*vm:eval-macro-expand-expand*''), (TSPECIAL, ''*vm-eval-set!*''),
     (TSPECIAL, ''*vm-evlis*''), (TSPECIAL, ''*vm-evlis2*''), (TSPECIAL, ''*vm-evlis3*''),
     (TSPECIAL, ''*vm-if*''), (TSPECIAL, ''*vm-if-expr*''), (TSPECIAL, ''core:macro-expand''),
     (TSPECIAL, ''*vm:core:macro-expand-car*''), (TSPECIAL, ''*vm:macro-expand-cdr*''),
     (TSPECIAL, ''*vm:core:macro-expand-define*''),
     (TSPECIAL, ''*vm:core:macro-expand-define-macro*''),
     (TSPECIAL, ''*vm:core:macro-expand-lambda*''), (TSPECIAL, ''*vm:core:macro-expand-set!*''),
     (TSPECIAL, ''*vm-return*''), (TSYMBOL, ''lambda''), (TSYMBOL, ''begin''),
     (TSYMBOL, ''if''), (TSYMBOL, ''quote''), (TSYMBOL, ''define''),
     (TSYMBOL, ''define-macro''), (TSYMBOL, ''quasiquote''), (TSYMBOL, ''unquote''),
     (TSYMBOL, ''unquote-splicing''), (TSYMBOL, ''syntax''), (TSYMBOL, ''quasisyntax''),
     (TSYMBOL, ''unsyntax''), (TSYMBOL, ''unsyntax-splicing''), (TSYMBOL, ''set!''),
     (TSYMBOL, ''sc-expand''), (TSYMBOL, ''macro-expand''),
     (TSYMBOL, ''portable-macro-expand''), (TSYMBOL, ''*sc-expander-alist*''),
     (TSYMBOL, ''call-with-values''), (TSYMBOL, ''call-with-current-continuation''),
     (TSYMBOL, ''current-environment''), (TSYMBOL, ''car''), (TSYMBOL, ''cdr''),
     (TSYMBOL, ''not-a-number''), (TSYMBOL, ''not-a-pair''), (TSYMBOL, ''system-error''),
     (TSYMBOL, ''throw''), (TSYMBOL, ''unbound-variable''), (TSYMBOL, ''wrong-number-of-args''),
     (TSYMBOL, ''wrong-type-arg''), (TSYMBOL, ''buckets''), (TSYMBOL, ''<builtin>''),
     (TSYMBOL, ''<frame>''), (TSYMBOL, ''<hashq-table>''), (TSYMBOL, ''procedure''),
     (TSYMBOL, ''<record-type>''), (TSYMBOL, ''size''), (TSYMBOL, ''<stack>''),
     (TSYMBOL, ''%argv''), (TSYMBOL, ''%datadir''), (TSYMBOL, ''%version''),
     (TSYMBOL, ''internal-time-units-per-second''), (TSYMBOL, ''%compiler''),
     (TSYMBOL, ''%arch''), (TSYMBOL, ''<variable>''), (TSYMBOL, ''standard-eval-closure''),
     (TSYMBOL, ''standard-interface-eval-closure''), (TSYMBOL, ''<cell:bytes>''),
     (TSYMBOL, ''<cell:char>''), (TSYMBOL, ''<cell:closure>''),
     (TSYMBOL, ''<cell:continuation>''), (TSYMBOL, ''<cell:function>''),
     (TSYMBOL, ''<cell:keyword>''), (TSYMBOL, ''<cell:macro>''), (TSYMBOL, ''<cell:number>''),
     (TSYMBOL, ''<cell:pair>''), (TSYMBOL, ''<cell:port>''), (TSYMBOL, ''<cell:ref>''),
     (TSYMBOL, ''<cell:special>''), (TSYMBOL, ''<cell:string>''), (TSYMBOL, ''<cell:struct>''),
     (TSYMBOL, ''<cell:symbol>''), (TSYMBOL, ''<cell:values>''), (TSYMBOL, ''<cell:binding>''),
     (TSYMBOL, ''<cell:vector>''), (TSYMBOL, ''<cell:broken-heart>''), (TSYMBOL, ''%program''),
     (TSYMBOL, ''%%test'')]"
section \<open>Loads and stores\<close>

definition deref :: "addr \<Rightarrow> cell mes" where
  "deref x = (\<lambda>s. case heap s x of None \<Rightarrow> Some (Inl Segv, s) | Some c \<Rightarrow> Some (Inr c, s))"

definition store :: "addr \<Rightarrow> cell \<Rightarrow> unit mes" where
  "store x c = mseq (deref x) (modify (\<lambda>s. s\<lparr>heap := (heap s)(x \<mapsto> c)\<rparr>))"

definition get_type :: "addr \<Rightarrow> tag mes" where
  "get_type x = mbind (deref x) (\<lambda>c. ret (ctype c))"

definition get_car :: "addr \<Rightarrow> int mes" where
  "get_car x = mbind (deref x) (\<lambda>c. ret (ccar c))"

definition get_cdr :: "addr \<Rightarrow> int mes" where
  "get_cdr x = mbind (deref x) (\<lambda>c. ret (ccdr c))"

definition set_type :: "addr \<Rightarrow> tag \<Rightarrow> unit mes" where
  "set_type x t = mbind (deref x) (\<lambda>c. store x (c\<lparr>ctype := t\<rparr>))"

definition set_car :: "addr \<Rightarrow> int \<Rightarrow> unit mes" where
  "set_car x a = mbind (deref x) (\<lambda>c. store x (c\<lparr>ccar := a\<rparr>))"

definition set_cdr :: "addr \<Rightarrow> int \<Rightarrow> unit mes" where
  "set_cdr x d = mbind (deref x) (\<lambda>c. store x (c\<lparr>ccdr := d\<rparr>))"

text \<open>\<open>a_car (a_cdr p)\<close> is \<^verbatim>\<open>p->cdr->car\<close>.\<close>

definition a_car :: "int mes \<Rightarrow> int mes" where
  "a_car p = mbind p get_car"

definition a_cdr :: "int mes \<Rightarrow> int mes" where
  "a_cdr p = mbind p get_cdr"

definition a_type :: "int mes \<Rightarrow> tag mes" where
  "a_type p = mbind p get_type"

text \<open>The pointer \<^verbatim>\<open>cell_bytes (x)\<close>: the bytes it points to.\<close>

definition cell_bytes :: "addr \<Rightarrow> byte list mes" where
  "cell_bytes x = mseq (deref x) (gets (\<lambda>s. bytes s x))"

definition set_bytes :: "addr \<Rightarrow> byte list \<Rightarrow> unit mes" where
  "set_bytes x bs = mseq (deref x) (modify (\<lambda>s. s\<lparr>bytes := (bytes s)(x := bs)\<rparr>))"

lemma deref_Some [simp, monad_simps]: "heap s x = Some c \<Longrightarrow> deref x s = Some (Inr c, s)"
  by (simp add: deref_def)

lemma deref_None [simp, monad_simps]: "heap s x = None \<Longrightarrow> deref x s = Some (Inl Segv, s)"
  by (simp add: deref_def)

lemma store_Some [simp, monad_simps]:
  "heap s x = Some c \<Longrightarrow> store x d s = Some (Inr (), s\<lparr>heap := (heap s)(x \<mapsto> d)\<rparr>)"
  by (simp add: store_def)

lemma get_Some [simp, monad_simps]:
  assumes "heap s x = Some c"
  shows "get_type x s = Some (Inr (ctype c), s)"
    and "get_car x s = Some (Inr (ccar c), s)"
    and "get_cdr x s = Some (Inr (ccdr c), s)"
  using assms by (simp_all add: get_type_def get_car_def get_cdr_def)

lemma get_None [simp, monad_simps]:
  assumes "heap s x = None"
  shows "get_type x s = Some (Inl Segv, s)"
    and "get_car x s = Some (Inl Segv, s)"
    and "get_cdr x s = Some (Inl Segv, s)"
  using assms by (simp_all add: get_type_def get_car_def get_cdr_def)

lemma set_Some [simp, monad_simps]:
  assumes "heap s x = Some c"
  shows "set_type x t s = Some (Inr (), s\<lparr>heap := (heap s)(x \<mapsto> c\<lparr>ctype := t\<rparr>)\<rparr>)"
    and "set_car x a s = Some (Inr (), s\<lparr>heap := (heap s)(x \<mapsto> c\<lparr>ccar := a\<rparr>)\<rparr>)"
    and "set_cdr x d s = Some (Inr (), s\<lparr>heap := (heap s)(x \<mapsto> c\<lparr>ccdr := d\<rparr>)\<rparr>)"
  using assms by (simp_all add: set_type_def set_car_def set_cdr_def)

lemma a_simps [simp, monad_simps]:
  "a_car (ret x) = get_car x" "a_cdr (ret x) = get_cdr x" "a_type (ret x) = get_type x"
  by (simp_all add: a_car_def a_cdr_def a_type_def)

lemma a_Inr [simp, monad_simps]:
  assumes "p s = Some (Inr x, t)"
  shows "a_car p s = get_car x t" "a_cdr p s = get_cdr x t" "a_type p s = get_type x t"
  using assms by (simp_all add: a_car_def a_cdr_def a_type_def)

lemma bytes_Some [simp, monad_simps]:
  assumes "heap s x = Some c"
  shows "cell_bytes x s = Some (Inr (bytes s x), s)"
    and "set_bytes x bs s = Some (Inr (), s\<lparr>bytes := (bytes s)(x := bs)\<rparr>)"
  using assms by (simp_all add: cell_bytes_def set_bytes_def)

text \<open>Entries of \<^verbatim>\<open>g_stack_array\<close>: \<^verbatim>\<open>gc_init\<close> reserves the size of a cell for each.\<close>

definition stack_ok :: "mst \<Rightarrow> int \<Rightarrow> bool" where
  "stack_ok s i \<longleftrightarrow> 0 \<le> i \<and> i < 3 * STACK_SIZE s"

definition stack_get :: "int \<Rightarrow> addr mes" where
  "stack_get i = (\<lambda>s. if stack_ok s i then Some (Inr (stack s i), s) else Some (Inl Segv, s))"

definition stack_put :: "int \<Rightarrow> addr \<Rightarrow> unit mes" where
  "stack_put i x = (\<lambda>s. if stack_ok s i then Some (Inr (), s\<lparr>stack := (stack s)(i := x)\<rparr>)
                        else Some (Inl Segv, s))"

lemma stack_simps [simp, monad_simps]:
  assumes "stack_ok s i"
  shows "stack_get i s = Some (Inr (stack s i), s)"
    and "stack_put i x s = Some (Inr (), s\<lparr>stack := (stack s)(i := x)\<rparr>)"
  using assms by (simp_all add: stack_get_def stack_put_def)

section \<open>Allocation\<close>

definition alloc :: "int \<Rightarrow> addr mes" where
  "alloc n =
     mbind (gets g_free) (\<lambda>x.
     mseq (modify (\<lambda>s. s\<lparr>g_free := g_free s + n\<rparr>))
     (mbind (gets (\<lambda>s. g_free s - g_cells s)) (\<lambda>i.
      mbind (gets ARENA_SIZE) (\<lambda>size.
      mseq (assert_msg (\<not> i > size) ''alloc: out of memory'')
      (ret x)))))"

definition make_cell :: "tag \<Rightarrow> addr \<Rightarrow> addr \<Rightarrow> addr mes" where
  "make_cell type car cdr =
     mbind (gets g_free) (\<lambda>x.
     mseq (modify (\<lambda>s. s\<lparr>g_free := g_free s + 1\<rparr>))
     (mbind (gets (\<lambda>s. g_free s - g_cells s)) (\<lambda>i.
      mbind (gets ARENA_SIZE) (\<lambda>size.
      mseq (assert_msg (\<not> i > size) ''make_cell: out of memory'')
      (mseq (set_type x type)
      (mseq (set_car x car)
      (mseq (set_cdr x cdr)
      (ret x))))))))"

definition make_pointer_cell :: "tag \<Rightarrow> int \<Rightarrow> addr \<Rightarrow> addr mes" where
  "make_pointer_cell type car cdr =
     mbind (gets g_free) (\<lambda>x.
     mseq (modify (\<lambda>s. s\<lparr>g_free := g_free s + 1\<rparr>))
     (mbind (gets (\<lambda>s. g_free s - g_cells s)) (\<lambda>i.
      mbind (gets ARENA_SIZE) (\<lambda>size.
      mseq (assert_msg (\<not> i > size) ''make_pointer_cell: out of memory'')
      (mseq (set_type x type)
      (mseq (set_car x car)
      (mseq (set_cdr x cdr)
      (ret x))))))))"

definition make_value_cell :: "tag \<Rightarrow> int \<Rightarrow> int \<Rightarrow> addr mes" where
  "make_value_cell type car cdr =
     mbind (gets g_free) (\<lambda>x.
     mseq (modify (\<lambda>s. s\<lparr>g_free := g_free s + 1\<rparr>))
     (mbind (gets (\<lambda>s. g_free s - g_cells s)) (\<lambda>i.
      mbind (gets ARENA_SIZE) (\<lambda>size.
      mseq (assert_msg (\<not> i > size) ''make_value_cell: out of memory'')
      (mseq (set_type x type)
      (mseq (set_car x car)
      (mseq (set_cdr x cdr)
      (ret x))))))))"

definition copy_cell :: "addr \<Rightarrow> addr \<Rightarrow> unit mes" where
  "copy_cell to from =
     mseq (mbind (get_type from) (set_type to))
     (mseq (mbind (get_car from) (set_car to))
     (mbind (get_cdr from) (set_cdr to)))"

definition copy_stack :: "int \<Rightarrow> addr \<Rightarrow> unit mes" where
  "copy_stack index from = stack_put index from"

definition cell_ref :: "addr \<Rightarrow> int \<Rightarrow> addr" where
  "cell_ref cell index = cell + index"

definition cons :: "addr \<Rightarrow> addr \<Rightarrow> addr mes" where
  "cons x y = make_cell TPAIR x y"

text \<open>Sizes in \<^verbatim>\<open>size_t\<close> arithmetic, 8 bytes to a \<^verbatim>\<open>long\<close> and to a pointer.\<close>

definition bytes_cells :: "int \<Rightarrow> int" where
  "bytes_cells len = to_size (8 + 8 + len - 1 + 8) div 8"

text \<open>The payload of fresh bytes is what the memory held before.\<close>

definition make_bytes :: "int \<Rightarrow> addr mes" where
  "make_bytes len =
     mbind (alloc (bytes_cells len)) (\<lambda>x.
     mseq (set_type x TBYTES)
     (mseq (set_car x len)
     (mseq (mbind (cell_bytes x) (\<lambda>old. set_bytes x (take (nat len) (old @ replicate (nat len) 0))))
     (ret x))))"

definition make_char :: "int \<Rightarrow> addr mes" where
  "make_char n = make_value_cell TCHAR 0 n"

definition make_continuation :: "int \<Rightarrow> addr mes" where
  "make_continuation n = mbind (gets g_stack) (\<lambda>g. make_value_cell TCONTINUATION n g)"

definition make_macro :: "addr \<Rightarrow> addr \<Rightarrow> addr mes" where
  "make_macro name x = mbind (get_cdr name) (\<lambda>str. make_cell TMACRO x str)"

definition make_number :: "int \<Rightarrow> addr mes" where
  "make_number n = make_value_cell TNUMBER 0 n"

definition make_ref :: "addr \<Rightarrow> addr mes" where
  "make_ref x = make_cell TREF x 0"

text \<open>
  \<^verbatim>\<open>assert_max_string\<close> (string.c) calls \<^verbatim>\<open>error (cell_symbol_system_error, cell_f)\<close> after
  it has printed the string.
\<close>

definition assert_max_string :: "int \<Rightarrow> unit mes" where
  "assert_max_string i = mbind (gets MAX_STRING) (\<lambda>m.
     if i > m then fail (Throw cell_symbol_system_error cell_f) else ret ())"

text \<open>
  \<open>str\<close> is the memory that the \<^verbatim>\<open>char const *\<close> points to, at least \<open>len + 1\<close> bytes of it.
\<close>

definition make_string :: "byte list \<Rightarrow> int \<Rightarrow> addr mes" where
  "make_string str len =
     mseq (mbind (gets MAX_STRING) (\<lambda>m. mwhen (len > m) (assert_max_string len)))
     (mbind (make_pointer_cell TSTRING len 0) (\<lambda>x.
      mbind (make_bytes (len + 1)) (\<lambda>v.
      mseq (set_bytes v (take (nat (len + 1)) str))
      (mseq (set_cdr x v)
      (ret x)))))"

text \<open>C strings: the bytes up to the first null byte; a literal is stored with its null byte.\<close>

definition strlen :: "byte list \<Rightarrow> int" where
  "strlen str = int (length (takeWhile (\<lambda>c. c \<noteq> 0) str))"

definition cstring :: "string \<Rightarrow> byte list" where
  "cstring lit = map (\<lambda>c. of_char c) lit @ [0]"

definition make_string0 :: "byte list \<Rightarrow> addr mes" where
  "make_string0 str = make_string str (strlen str)"

end
