(* ===== verification/Mes_Heap.thy ===== *)
theory Mes_Heap
  imports Mes_Cells
begin

text \<open>
  Facts about the arena that the components share: what the allocating constructors of gc.c do
  when there is room (and that they end the process when there is none), and Scheme lists as
  paths of pairs through the heap.
\<close>

section \<open>Room in the arena\<close>

definition arena_ok :: "mst \<Rightarrow> bool" where
  "arena_ok s \<longleftrightarrow> g_cells s \<le> g_free s
     \<and> (\<forall>x. g_cells s \<le> x \<and> x < g_cells s + ARENA_SIZE s \<longrightarrow> heap s x \<noteq> None)"

definition room :: "int \<Rightarrow> mst \<Rightarrow> bool" where
  "room n s \<longleftrightarrow> g_free s + n \<le> g_cells s + ARENA_SIZE s"

lemma arena_okD: "arena_ok s \<Longrightarrow> g_cells s \<le> x \<Longrightarrow> x < g_cells s + ARENA_SIZE s \<Longrightarrow> \<exists>c. heap s x = Some c"
  by (auto simp: arena_ok_def)

lemma room_mono: "room n s \<Longrightarrow> m \<le> n \<Longrightarrow> room m s"
  by (simp add: room_def)

text \<open>The state after \<open>c\<close> has been put at the free pointer.\<close>

definition push_cell :: "cell \<Rightarrow> mst \<Rightarrow> mst" where
  "push_cell c s = s\<lparr>g_free := g_free s + 1, heap := (heap s)(g_free s \<mapsto> c)\<rparr>"

lemma push_cell_simps [simp]:
  "g_free (push_cell c s) = g_free s + 1"
  "heap (push_cell c s) = (heap s)(g_free s \<mapsto> c)"
  "bytes (push_cell c s) = bytes s"
  "stack (push_cell c s) = stack s" "g_stack (push_cell c s) = g_stack s"
  "g_cells (push_cell c s) = g_cells s" "g_news (push_cell c s) = g_news s"
  "g_symbols (push_cell c s) = g_symbols s"
  "R0 (push_cell c s) = R0 s" "R1 (push_cell c s) = R1 s"
  "R2 (push_cell c s) = R2 s" "R3 (push_cell c s) = R3 s"
  "M0 (push_cell c s) = M0 s" "M1 (push_cell c s) = M1 s"
  "g_macros (push_cell c s) = g_macros s" "g_ports (push_cell c s) = g_ports s"
  "ARENA_SIZE (push_cell c s) = ARENA_SIZE s" "STACK_SIZE (push_cell c s) = STACK_SIZE s"
  "MAX_STRING (push_cell c s) = MAX_STRING s" "GC_SAFETY (push_cell c s) = GC_SAFETY s"
  "hash_table_type (push_cell c s) = hash_table_type s"
  "variable_type (push_cell c s) = variable_type s"
  "g_continuations (push_cell c s) = g_continuations s"
  by (simp_all add: push_cell_def)

lemma push_cell_arena_ok [simp]: "arena_ok s \<Longrightarrow> arena_ok (push_cell c s)"
  by (auto simp: arena_ok_def)

lemma push_cell_room [simp]: "room n (push_cell c s) \<longleftrightarrow> room (n + 1) s"
  by (simp add: room_def algebra_simps)

lemma free_mapped:
  assumes "arena_ok s" "room n s" "0 < n"
  shows "\<exists>c. heap s (g_free s) = Some c"
  using assms by (auto simp: arena_ok_def room_def)

lemma make_cell_ok:
  assumes "arena_ok s" "room 1 s"
  shows "make_cell t a d s = Some (Inr (g_free s), push_cell (mk_cell t a d) s)"
proof -
  obtain c where "heap s (g_free s) = Some c"
    using free_mapped [OF assms] by auto
  moreover have "\<not> g_free s + 1 - g_cells s > ARENA_SIZE s"
    using assms(2) by (simp add: room_def)
  ultimately show ?thesis
    by (simp add: make_cell_def push_cell_def)
qed

lemma make_cell_full:
  assumes "\<not> room 1 s"
  shows "make_cell t a d s = Some (Inl (Assert ''make_cell: out of memory''), s\<lparr>g_free := g_free s + 1\<rparr>)"
  using assms by (simp add: make_cell_def room_def)

lemma make_pointer_cell_ok:
  assumes "arena_ok s" "room 1 s"
  shows "make_pointer_cell t a d s = Some (Inr (g_free s), push_cell (mk_cell t a d) s)"
proof -
  obtain c where "heap s (g_free s) = Some c"
    using free_mapped [OF assms] by auto
  moreover have "\<not> g_free s + 1 - g_cells s > ARENA_SIZE s"
    using assms(2) by (simp add: room_def)
  ultimately show ?thesis
    by (simp add: make_pointer_cell_def push_cell_def)
qed

lemma make_value_cell_ok:
  assumes "arena_ok s" "room 1 s"
  shows "make_value_cell t a d s = Some (Inr (g_free s), push_cell (mk_cell t a d) s)"
proof -
  obtain c where "heap s (g_free s) = Some c"
    using free_mapped [OF assms] by auto
  moreover have "\<not> g_free s + 1 - g_cells s > ARENA_SIZE s"
    using assms(2) by (simp add: room_def)
  ultimately show ?thesis
    by (simp add: make_value_cell_def push_cell_def)
qed

lemma alloc_ok:
  assumes "room n s"
  shows "alloc n s = Some (Inr (g_free s), s\<lparr>g_free := g_free s + n\<rparr>)"
  using assms by (simp add: alloc_def room_def)

lemma alloc_full:
  assumes "\<not> room n s"
  shows "alloc n s = Some (Inl (Assert ''alloc: out of memory''), s\<lparr>g_free := g_free s + n\<rparr>)"
  using assms by (simp add: alloc_def room_def)

lemma cons_ok [simp]:
  "arena_ok s \<Longrightarrow> room 1 s \<Longrightarrow> cons x y s = Some (Inr (g_free s), push_cell (mk_cell TPAIR x y) s)"
  by (simp add: cons_def make_cell_ok)

lemma make_number_ok [simp]:
  "arena_ok s \<Longrightarrow> room 1 s \<Longrightarrow>
   make_number n s = Some (Inr (g_free s), push_cell (mk_cell TNUMBER 0 n) s)"
  by (simp add: make_number_def make_value_cell_ok)

lemma make_char_ok [simp]:
  "arena_ok s \<Longrightarrow> room 1 s \<Longrightarrow>
   make_char n s = Some (Inr (g_free s), push_cell (mk_cell TCHAR 0 n) s)"
  by (simp add: make_char_def make_value_cell_ok)

lemma make_ref_ok [simp]:
  "arena_ok s \<Longrightarrow> room 1 s \<Longrightarrow>
   make_ref x s = Some (Inr (g_free s), push_cell (mk_cell TREF x 0) s)"
  by (simp add: make_ref_def make_cell_ok)

lemma copy_cell_ok [simp]:
  assumes "heap s from = Some c" "heap s to = Some d"
  shows "copy_cell to from s = Some (Inr (), s\<lparr>heap := (heap s)(to \<mapsto> c)\<rparr>)"
proof -
  have "c\<lparr>ctype := ctype c, ccar := ccar c\<rparr> = c" "c\<lparr>ccar := ccar c, ccdr := ccdr c\<rparr> = c"
    "c\<lparr>ctype := ctype c\<rparr> = c" "c\<lparr>ccdr := ccdr c\<rparr> = c" "c\<lparr>ccar := ccar c\<rparr> = c"
    by (cases c; simp)+
  then show ?thesis
    using assms by (cases "to = from") (simp_all add: copy_cell_def)
qed

section \<open>Bytes and strings\<close>

lemma bytes_cells_eq:
  assumes "0 \<le> len" "len < 2 ^ 63"
  shows "bytes_cells len = (len + 23) div 8"
  using assms by (simp add: bytes_cells_def width algebra_simps)

lemma bytes_cells_pos: "0 \<le> len \<Longrightarrow> len < 2 ^ 63 \<Longrightarrow> 2 \<le> bytes_cells len"
  by (simp add: bytes_cells_eq)

lemma bytes_cells_nonneg [simp]: "0 \<le> bytes_cells len"
  by (simp add: bytes_cells_def to_size_def pos_imp_zdiv_nonneg_iff)

lemma make_bytes_ok:
  assumes "arena_ok s" "room (bytes_cells len) s" "0 \<le> len" "len < 2 ^ 63"
  obtains c :: cell where
    "make_bytes len s = Some (Inr (g_free s),
       s\<lparr>g_free := g_free s + bytes_cells len,
         heap := (heap s)(g_free s \<mapsto> mk_cell TBYTES len (ccdr c)),
         bytes := (bytes s)(g_free s := take (nat len) (bytes s (g_free s) @ replicate (nat len) 0))\<rparr>)"
proof -
  have pos: "0 < bytes_cells len"
    using bytes_cells_pos [OF assms(3,4)] by simp
  obtain c where c: "heap s (g_free s) = Some c"
    using free_mapped [OF assms(1,2) pos] by auto
  then show ?thesis
    using that [of c] by (simp add: make_bytes_def alloc_ok [OF assms(2)])
qed

section \<open>Allocated cells\<close>

text \<open>
  \<open>lookup s\<close> is the part of the heap below the free pointer. \<open>extends s t\<close>: what was allocated
  in \<open>s\<close> is unchanged in \<open>t\<close>, which may have allocated more.
\<close>

definition lookup :: "mst \<Rightarrow> addr \<rightharpoonup> cell" where
  "lookup s x = (if x < g_free s then heap s x else None)"

definition extends :: "mst \<Rightarrow> mst \<Rightarrow> bool" where
  "extends s t \<longleftrightarrow> g_free s \<le> g_free t
     \<and> (\<forall>x < g_free s. heap t x = heap s x \<and> bytes t x = bytes s x)"

lemma lookup_Some [simp]: "lookup s x = Some c \<longleftrightarrow> x < g_free s \<and> heap s x = Some c"
  by (auto simp: lookup_def)

lemma lookup_below [simp]: "x < g_free s \<Longrightarrow> lookup s x = heap s x"
  by (simp add: lookup_def)

lemma lookup_push_cell: "lookup (push_cell c s) = (lookup s)(g_free s \<mapsto> c)"
  by (rule ext) (auto simp: lookup_def)

lemma extends_refl [simp]: "extends s s"
  by (simp add: extends_def)

lemma extends_trans [trans]: "extends s t \<Longrightarrow> extends t u \<Longrightarrow> extends s u"
  by (force simp: extends_def)

lemma extends_push_cell [simp]: "extends s (push_cell c s)"
  by (auto simp: extends_def)

lemma extends_lookup: "extends s t \<Longrightarrow> lookup s x = Some c \<Longrightarrow> lookup t x = Some c"
  by (force simp: extends_def)

lemma extends_bytes: "extends s t \<Longrightarrow> x < g_free s \<Longrightarrow> bytes t x = bytes s x"
  by (simp add: extends_def)

text \<open>The special cells are where \<^verbatim>\<open>init_symbols_\<close> has put them.\<close>

definition specials_ok :: "mst \<Rightarrow> bool" where
  "specials_ok s \<longleftrightarrow> (\<forall>x. cell_nil \<le> x \<and> x \<le> cell_vm_return \<longrightarrow>
     (\<exists>c. lookup s x = Some c \<and> ctype c = TSPECIAL))"

lemma specials_okD:
  assumes "specials_ok s" "cell_nil \<le> x" "x \<le> cell_vm_return"
  shows "\<exists>c. lookup s x = Some c \<and> ctype c = TSPECIAL"
  using assms by (simp add: specials_ok_def)

lemma specials_ok_extends: "extends s t \<Longrightarrow> specials_ok s \<Longrightarrow> specials_ok t"
  unfolding specials_ok_def using extends_lookup by blast

lemma specials_ok_f: "specials_ok s \<Longrightarrow> lookup s cell_f = Some c \<Longrightarrow> ctype c = TSPECIAL"
  using specials_okD [of s cell_f] by (auto simp: cells)

lemma specials_ok_nil: "specials_ok s \<Longrightarrow> cell_nil < g_free s"
  using specials_okD [of s cell_nil] by (auto simp: cells)

text \<open>
  \<open>grows n s t\<close>: going from \<open>s\<close> to \<open>t\<close> allocates at most \<open>n\<close> cells and changes neither what was
  allocated nor any register.
\<close>

definition grows :: "int \<Rightarrow> mst \<Rightarrow> mst \<Rightarrow> bool" where
  "grows n s t \<longleftrightarrow> extends s t \<and> arena_ok t \<and> g_free t \<le> g_free s + n
     \<and> t = s\<lparr>heap := heap t, bytes := bytes t, g_free := g_free t\<rparr>"

lemma growsD:
  assumes "grows n s t"
  shows "extends s t" "arena_ok t" "g_free s \<le> g_free t" "g_free t \<le> g_free s + n"
    "ARENA_SIZE t = ARENA_SIZE s" "g_cells t = g_cells s" "MAX_STRING t = MAX_STRING s"
    "g_symbols t = g_symbols s" "hash_table_type t = hash_table_type s"
    "variable_type t = variable_type s" "R0 t = R0 s" "R1 t = R1 s" "R2 t = R2 s" "R3 t = R3 s"
    "M0 t = M0 s" "M1 t = M1 s" "stack t = stack s" "g_stack t = g_stack s"
    "STACK_SIZE t = STACK_SIZE s" "GC_SAFETY t = GC_SAFETY s" "g_macros t = g_macros s"
proof -
  have eq: "t = s\<lparr>heap := heap t, bytes := bytes t, g_free := g_free t\<rparr>"
    using assms by (simp add: grows_def)
  show "extends s t" "arena_ok t" "g_free s \<le> g_free t" "g_free t \<le> g_free s + n"
    using assms by (simp_all add: grows_def extends_def)
  show "ARENA_SIZE t = ARENA_SIZE s" "g_cells t = g_cells s" "MAX_STRING t = MAX_STRING s"
    "g_symbols t = g_symbols s" "hash_table_type t = hash_table_type s"
    "variable_type t = variable_type s" "R0 t = R0 s" "R1 t = R1 s" "R2 t = R2 s" "R3 t = R3 s"
    "M0 t = M0 s" "M1 t = M1 s" "stack t = stack s" "g_stack t = g_stack s"
    "STACK_SIZE t = STACK_SIZE s" "GC_SAFETY t = GC_SAFETY s" "g_macros t = g_macros s"
    by (subst eq; simp)+
qed

lemma grows_refl [simp]: "arena_ok s \<Longrightarrow> 0 \<le> n \<Longrightarrow> grows n s s"
  by (simp add: grows_def)

lemma grows_trans:
  assumes "grows n s t" "grows m t u"
  shows "grows (n + m) s u"
proof -
  have "t = s\<lparr>heap := heap t, bytes := bytes t, g_free := g_free t\<rparr>"
    "u = t\<lparr>heap := heap u, bytes := bytes u, g_free := g_free u\<rparr>"
    using assms by (simp_all add: grows_def)
  then have "u = s\<lparr>heap := heap u, bytes := bytes u, g_free := g_free u\<rparr>"
    by (cases s; cases t; cases u) simp
  then show ?thesis
    using assms by (auto simp: grows_def intro: extends_trans)
qed

lemma grows_mono: "grows n s t \<Longrightarrow> n \<le> m \<Longrightarrow> grows m s t"
  by (auto simp: grows_def)

lemma grows_push_cell [simp]: "arena_ok s \<Longrightarrow> grows 1 s (push_cell c s)"
  by (simp add: grows_def) (simp add: push_cell_def)

lemma grows_room: "grows n s t \<Longrightarrow> room m s \<Longrightarrow> n + k \<le> m \<Longrightarrow> room k t"
  using growsD(4-6) [of n s t] by (simp add: room_def)

section \<open>Strings\<close>

definition string_cells :: "byte list \<Rightarrow> int" where
  "string_cells bs = 1 + bytes_cells (int (length bs) + 1)"

lemma make_string_ok:
  assumes "arena_ok s" "room (string_cells bs) s" "int (length bs) \<le> MAX_STRING s"
    and "int (length bs) < 2 ^ 62"
  obtains c :: cell where
    "make_string (bs @ [0]) (int (length bs)) s = Some (Inr (g_free s), s\<lparr>g_free := g_free s + string_cells bs,
         heap := (heap s)(g_free s \<mapsto> mk_cell TSTRING (int (length bs)) (g_free s + 1),
            g_free s + 1 \<mapsto> mk_cell TBYTES (int (length bs) + 1) (ccdr c)),
         bytes := (bytes s)(g_free s + 1 := bs @ [0])\<rparr>)"
proof -
  let ?n = "int (length bs)"
  let ?s1 = "push_cell (mk_cell TSTRING ?n 0) s"
  have r1: "room 1 s"
    using assms(2) by (simp add: room_def string_cells_def) (smt (verit) bytes_cells_nonneg)
  have r2: "room (bytes_cells (?n + 1)) ?s1"
    using assms(2) by (simp add: room_def string_cells_def)
  obtain c :: cell where c: "make_bytes (?n + 1) ?s1 = Some (Inr (g_free ?s1),
       ?s1\<lparr>g_free := g_free ?s1 + bytes_cells (?n + 1),
         heap := (heap ?s1)(g_free ?s1 \<mapsto> mk_cell TBYTES (?n + 1) (ccdr c)),
         bytes := (bytes ?s1)(g_free ?s1 := take (nat (?n + 1)) (bytes ?s1 (g_free ?s1) @ replicate (nat (?n + 1)) 0))\<rparr>)"
    by (rule make_bytes_ok [of ?s1 "?n + 1"]) (use assms r2 in simp_all)
  show ?thesis
    by (rule that [of c])
      (use assms(3) c in \<open>simp add: make_string_def make_pointer_cell_ok [OF assms(1) r1]
         string_cells_def nat_add_distrib push_cell_def fun_upd_twist algebra_simps\<close>)
qed

section \<open>Lists of pairs\<close>

text \<open>
  \<open>spine h p ps q\<close>: following \<^verbatim>\<open>cdr\<close> from \<open>p\<close> passes the pairs \<open>ps\<close> and arrives at \<open>q\<close>;
  none of them is the empty list. \<open>cars\<close> reads the elements off.
\<close>

primrec spine :: "(addr \<rightharpoonup> cell) \<Rightarrow> addr \<Rightarrow> addr list \<Rightarrow> addr \<Rightarrow> bool" where
  "spine h p [] q \<longleftrightarrow> p = q"
| "spine h p (a # as) q \<longleftrightarrow> p = a \<and> a \<noteq> cell_nil
     \<and> (\<exists>c. h a = Some c \<and> ctype c = TPAIR \<and> spine h (ccdr c) as q)"

definition cars :: "(addr \<rightharpoonup> cell) \<Rightarrow> addr list \<Rightarrow> addr list" where
  "cars h ps = map (\<lambda>p. ccar (the (h p))) ps"

text \<open>A proper list and its elements.\<close>

definition list_at :: "mst \<Rightarrow> addr \<Rightarrow> addr list \<Rightarrow> bool" where
  "list_at s p xs \<longleftrightarrow> (\<exists>ps. spine (lookup s) p ps cell_nil \<and> cars (lookup s) ps = xs)"

lemma cars_simps [simp]:
  "cars h [] = []" "cars h (p # ps) = ccar (the (h p)) # cars h ps"
  "cars h (ps @ qs) = cars h ps @ cars h qs" "length (cars h ps) = length ps"
  by (simp_all add: cars_def)

lemma spine_append [simp]:
  "spine h p (as @ bs) q \<longleftrightarrow> (\<exists>r. spine h p as r \<and> spine h r bs q)"
  by (induction as arbitrary: p) auto

lemma spine_mapped: "spine h p ps q \<Longrightarrow> set ps \<subseteq> dom h"
  by (induction ps arbitrary: p) auto

lemma spine_nil_end: "spine h cell_nil ps q \<longleftrightarrow> ps = [] \<and> q = cell_nil"
  by (cases ps) auto

lemma spine_frame:
  "(\<And>a. a \<in> set ps \<Longrightarrow> h' a = h a) \<Longrightarrow> spine h' p ps q \<longleftrightarrow> spine h p ps q"
  by (induction ps arbitrary: p) auto

lemma cars_frame: "(\<And>a. a \<in> set ps \<Longrightarrow> h' a = h a) \<Longrightarrow> cars h' ps = cars h ps"
  by (auto simp: cars_def)

lemma spine_upd [simp]: "x \<notin> set ps \<Longrightarrow> spine (h(x \<mapsto> c)) p ps q \<longleftrightarrow> spine h p ps q"
  by (rule spine_frame) auto

lemma cars_upd [simp]: "x \<notin> set ps \<Longrightarrow> cars (h(x \<mapsto> c)) ps = cars h ps"
  by (rule cars_frame) auto

lemma spine_unique: "spine h p ps cell_nil \<Longrightarrow> spine h p qs cell_nil \<Longrightarrow> ps = qs"
proof (induction ps arbitrary: p qs)
  case Nil
  then show ?case by (simp add: spine_nil_end)
next
  case (Cons a ps)
  then show ?case by (cases qs) auto
qed

lemma spine_distinct: "spine h p ps cell_nil \<Longrightarrow> distinct ps"
proof (induction ps arbitrary: p)
  case Nil
  then show ?case by simp
next
  case (Cons a ps)
  then obtain c where c: "h a = Some c" and sp: "spine h (ccdr c) ps cell_nil"
    and a: "spine h a (a # ps) cell_nil"
    by auto
  have "a \<notin> set ps"
  proof
    assume "a \<in> set ps"
    then obtain us vs where ps: "ps = us @ a # vs" by (auto simp: in_set_conv_decomp)
    with sp have "spine h a (a # vs) cell_nil" by auto
    with a have "a # ps = a # vs" by (rule spine_unique)
    with ps show False by (metis append_self_conv2 length_append length_Cons list.inject
          less_add_Suc2 less_irrefl list.size(4) nat_less_le not_add_less2)
  qed
  with Cons.IH [OF sp] show ?case by simp
qed

lemma list_at_Nil [simp]: "list_at s p [] \<longleftrightarrow> p = cell_nil"
  by (auto simp: list_at_def cars_def)

lemma list_at_nil [simp]: "list_at s cell_nil xs \<longleftrightarrow> xs = []"
  by (auto simp: list_at_def spine_nil_end)

lemma list_at_Cons:
  "list_at s p (x # xs) \<longleftrightarrow> p \<noteq> cell_nil
     \<and> (\<exists>c. lookup s p = Some c \<and> ctype c = TPAIR \<and> ccar c = x \<and> list_at s (ccdr c) xs)"
proof
  assume "list_at s p (x # xs)"
  then obtain ps where ps: "spine (lookup s) p ps cell_nil" "cars (lookup s) ps = x # xs"
    by (auto simp: list_at_def)
  then show "p \<noteq> cell_nil
     \<and> (\<exists>c. lookup s p = Some c \<and> ctype c = TPAIR \<and> ccar c = x \<and> list_at s (ccdr c) xs)"
    by (cases ps) (auto simp: list_at_def)
next
  assume "p \<noteq> cell_nil
     \<and> (\<exists>c. lookup s p = Some c \<and> ctype c = TPAIR \<and> ccar c = x \<and> list_at s (ccdr c) xs)"
  then obtain c ps where "p \<noteq> cell_nil" "lookup s p = Some c" "ctype c = TPAIR" "ccar c = x"
    "spine (lookup s) (ccdr c) ps cell_nil" "cars (lookup s) ps = xs"
    by (auto simp: list_at_def)
  then show "list_at s p (x # xs)"
    unfolding list_at_def by (intro exI [of _ "p # ps"]) simp
qed

lemma list_at_extends: "extends s t \<Longrightarrow> list_at s p xs \<Longrightarrow> list_at t p xs"
  by (induction xs arbitrary: p) (auto simp: list_at_Cons extends_def)

lemma list_at_push_cell [simp]: "list_at s p xs \<Longrightarrow> list_at (push_cell c s) p xs"
  by (rule list_at_extends [OF extends_push_cell])

lemma list_at_unique: "list_at s p xs \<Longrightarrow> list_at s p ys \<Longrightarrow> xs = ys"
  by (auto simp: list_at_def dest: spine_unique)

end
