(* ===== verification/Mes_Equal.thy ===== *)
theory Mes_Equal
  imports Mes_Heap
begin

text \<open>
  The predicates and the association lists of the evaluator: \<^verbatim>\<open>string_equal_p\<close>
  (src/src/string.c), \<^verbatim>\<open>car\<close>, \<^verbatim>\<open>cdr\<close>, \<^verbatim>\<open>null_p\<close>, \<^verbatim>\<open>eq_p\<close>, \<^verbatim>\<open>length__\<close>,
  \<^verbatim>\<open>assq\<close>, \<^verbatim>\<open>assoc\<close> (src/src/core.c), \<^verbatim>\<open>equal2_p\<close>, \<^verbatim>\<open>memq\<close>, \<^verbatim>\<open>xassq\<close>,
  \<^verbatim>\<open>last_pair\<close>, \<^verbatim>\<open>pair_p\<close> (src/src/lib.c). A loop over a list is a partial function: on a
  circular list it need not return.
\<close>

section \<open>Strings\<close>

text \<open>The test \<^verbatim>\<open>memcmp (p, q, n) == 0\<close>.\<close>

definition memcmp_eq :: "byte list \<Rightarrow> byte list \<Rightarrow> int \<Rightarrow> bool" where
  "memcmp_eq p q n \<longleftrightarrow> take (nat n) p = take (nat n) q"

definition string_equal_p :: "addr \<Rightarrow> addr \<Rightarrow> addr mes" where
  "string_equal_p a b =
     mbind (get_type a) (\<lambda>ta.
     mbind (get_type b) (\<lambda>tb.
     mseq (assert_msg ((ta = TSTRING \<and> tb = TSTRING) \<or> (ta = TKEYWORD \<or> tb = TKEYWORD))
       ''(a->type == TSTRING && b->type == TSTRING) || (a->type == TKEYWORD || b->type == TKEYWORD)'')
     (if a = b then ret cell_t
      else mbind (get_cdr a) (\<lambda>astr. mbind (get_cdr b) (\<lambda>bstr.
        if astr = bstr then ret cell_t
        else mbind (get_car a) (\<lambda>alen. mbind (get_car b) (\<lambda>blen.
          if alen = 0 \<and> blen = 0 then ret cell_t
          else if alen = blen
          then mbind (cell_bytes astr) (\<lambda>p. mbind (cell_bytes bstr) (\<lambda>q.
                 if memcmp_eq p q alen then ret cell_t else ret cell_f))
          else ret cell_f)))))))"

section \<open>Pairs and identity\<close>

definition car :: "addr \<Rightarrow> addr mes" where
  "car x =
     mbind (get_type x) (\<lambda>t.
     mseq (mwhen (t \<noteq> TPAIR)
       (mbind (cons x cell_symbol_car) (\<lambda>p. fail (Throw cell_symbol_not_a_pair p))))
     (get_car x))"

definition cdr :: "addr \<Rightarrow> addr mes" where
  "cdr x =
     mbind (get_type x) (\<lambda>t.
     mseq (mwhen (t \<noteq> TPAIR)
       (mbind (cons x cell_symbol_cdr) (\<lambda>p. fail (Throw cell_symbol_not_a_pair p))))
     (get_cdr x))"

definition null_p :: "addr \<Rightarrow> addr mes" where
  "null_p x = ret (if x = cell_nil then cell_t else cell_f)"

definition pair_p :: "addr \<Rightarrow> addr mes" where
  "pair_p x = mbind (get_type x) (\<lambda>t. ret (if t = TPAIR then cell_t else cell_f))"

definition eq_p :: "addr \<Rightarrow> addr \<Rightarrow> addr mes" where
  "eq_p x y =
     (if x = y then ret cell_t
      else mbind (get_type x) (\<lambda>t.
        if t = TKEYWORD
        then mbind (get_type y) (\<lambda>ty. if ty = TKEYWORD then string_equal_p x y else ret cell_f)
        else if t = TCHAR
        then mbind (get_type y) (\<lambda>ty. if ty \<noteq> TCHAR then ret cell_f
               else mbind (get_cdr x) (\<lambda>v. mbind (get_cdr y) (\<lambda>w.
                 if v = w then ret cell_t else ret cell_f)))
        else if t = TNUMBER
        then mbind (get_type y) (\<lambda>ty. if ty \<noteq> TNUMBER then ret cell_f
               else mbind (get_cdr x) (\<lambda>v. mbind (get_cdr y) (\<lambda>w.
                 if v = w then ret cell_t else ret cell_f)))
        else ret cell_f))"

section \<open>Structural equality\<close>

text \<open>An element of a vector: \<^verbatim>\<open>cell_ref (v, i)\<close>, through its \<^verbatim>\<open>TREF\<close> cell if it is one.\<close>

definition element_deref :: "addr \<Rightarrow> addr mes" where
  "element_deref e = mbind (get_type e) (\<lambda>t. if t = TREF then get_car e else ret e)"

partial_function (option) equal2_p :: "addr \<Rightarrow> addr \<Rightarrow> addr mes" where
  "equal2_p a b s =
     (if a = b then ret cell_t
      else mbind (get_type a) (\<lambda>ta. mbind (get_type b) (\<lambda>tb.
        if ta = TPAIR \<and> tb = TPAIR
        then mbind (get_car a) (\<lambda>aa. mbind (get_car b) (\<lambda>ba. mbind (equal2_p aa ba) (\<lambda>e.
               if e = cell_t
               then mbind (get_cdr a) (\<lambda>ad. mbind (get_cdr b) (\<lambda>bd. equal2_p ad bd))
               else ret cell_f)))
        else if ta = TSTRING \<and> tb = TSTRING then string_equal_p a b
        else if ta = TVECTOR \<and> tb = TVECTOR
        then mbind (get_car a) (\<lambda>alen. mbind (get_car b) (\<lambda>blen.
               if alen \<noteq> blen then ret cell_f
               else mbind (get_cdr a) (\<lambda>av. mbind (get_cdr b) (\<lambda>bv.
                 mbind (mall [0..alen - 1] (\<lambda>i.
                   mbind (element_deref (cell_ref av i)) (\<lambda>ai.
                   mbind (element_deref (cell_ref bv i)) (\<lambda>bi.
                   mbind (equal2_p ai bi) (\<lambda>e. ret (e \<noteq> cell_f))))))
                 (\<lambda>all. if all then ret cell_t else ret cell_f)))))
        else eq_p a b))) s"

section \<open>Length\<close>

partial_function (option) length_loop :: "int \<Rightarrow> addr \<Rightarrow> int mes" where
  "length_loop n x s =
     (if x \<noteq> cell_nil
      then mbind (get_type x) (\<lambda>t.
             if t \<noteq> TPAIR then ret (-1)
             else mbind (get_cdr x) (\<lambda>d. length_loop (n + 1) d))
      else ret n) s"

definition length_c :: "addr \<Rightarrow> int mes" where
  "length_c x = length_loop 0 x"

definition length_proc :: "addr \<Rightarrow> addr mes" where
  "length_proc x = mbind (length_c x) make_number"

section \<open>Association lists\<close>

partial_function (option) assq_pointer :: "addr \<Rightarrow> addr \<Rightarrow> addr mes" where
  "assq_pointer x a s =
     (if a \<noteq> cell_nil
      then mbind (a_car (get_car a)) (\<lambda>k.
             if x = k then get_car a
             else mbind (get_cdr a) (\<lambda>d. assq_pointer x d))
      else ret cell_f) s"

partial_function (option) assq_value :: "int \<Rightarrow> addr \<Rightarrow> addr mes" where
  "assq_value v a s =
     (if a \<noteq> cell_nil
      then mbind (a_cdr (a_car (get_car a))) (\<lambda>w.
             if v = w then get_car a
             else mbind (get_cdr a) (\<lambda>d. assq_value v d))
      else ret cell_f) s"

partial_function (option) assq_keyword :: "addr \<Rightarrow> addr \<Rightarrow> addr mes" where
  "assq_keyword x a s =
     (if a \<noteq> cell_nil
      then mbind (a_car (get_car a)) (\<lambda>k.
           mbind (string_equal_p x k) (\<lambda>e.
             if e = cell_t then get_car a
             else mbind (get_cdr a) (\<lambda>d. assq_keyword x d)))
      else ret cell_f) s"

definition assq :: "addr \<Rightarrow> addr \<Rightarrow> addr mes" where
  "assq x a =
     mbind (get_type a) (\<lambda>ta.
     if ta \<noteq> TPAIR then ret cell_f
     else mbind (get_type x) (\<lambda>t.
       if t = TSYMBOL \<or> t = TSPECIAL then assq_pointer x a
       else if t = TCHAR \<or> t = TNUMBER then mbind (get_cdr x) (\<lambda>v. assq_value v a)
       else if t = TKEYWORD then assq_keyword x a
       else assq_pointer x a))"

partial_function (option) assoc_string :: "addr \<Rightarrow> addr \<Rightarrow> addr mes" where
  "assoc_string x a s =
     (if a \<noteq> cell_nil
      then mbind (get_car a) (\<lambda>b.
           mbind (get_car b) (\<lambda>k.
           mbind (get_type k) (\<lambda>t.
             if t = TSTRING
             then mbind (string_equal_p x k) (\<lambda>e.
                    if e = cell_t then ret b
                    else mbind (get_cdr a) (\<lambda>d. assoc_string x d))
             else mbind (get_cdr a) (\<lambda>d. assoc_string x d))))
      else ret cell_f) s"

partial_function (option) assoc_loop :: "addr \<Rightarrow> addr \<Rightarrow> addr mes" where
  "assoc_loop x a s =
     (if a \<noteq> cell_nil
      then mbind (a_car (get_car a)) (\<lambda>k.
           mbind (equal2_p x k) (\<lambda>e.
             if e = cell_t then get_car a
             else mbind (get_cdr a) (\<lambda>d. assoc_loop x d)))
      else ret cell_f) s"

definition assoc :: "addr \<Rightarrow> addr \<Rightarrow> addr mes" where
  "assoc x a = mbind (get_type x) (\<lambda>t. if t = TSTRING then assoc_string x a else assoc_loop x a)"

partial_function (option) xassq :: "addr \<Rightarrow> addr \<Rightarrow> addr mes" where
  "xassq x a s =
     (if a \<noteq> cell_nil
      then mbind (a_cdr (get_car a)) (\<lambda>v.
             if x = v then get_car a
             else mbind (get_cdr a) (\<lambda>d. xassq x d))
      else ret cell_f) s"

section \<open>Membership, the last pair\<close>

partial_function (option) memq_value :: "int \<Rightarrow> addr \<Rightarrow> addr mes" where
  "memq_value v a s =
     (if a \<noteq> cell_nil
      then mbind (a_cdr (get_car a)) (\<lambda>w.
             if v = w then ret a
             else mbind (get_cdr a) (\<lambda>d. memq_value v d))
      else ret cell_f) s"

partial_function (option) memq_keyword :: "addr \<Rightarrow> addr \<Rightarrow> addr mes" where
  "memq_keyword x a s =
     (if a \<noteq> cell_nil
      then mbind (get_car a) (\<lambda>k.
           mbind (get_type k) (\<lambda>t.
             if t = TKEYWORD
             then mbind (string_equal_p x k) (\<lambda>e.
                    if e = cell_t then ret a
                    else mbind (get_cdr a) (\<lambda>d. memq_keyword x d))
             else mbind (get_cdr a) (\<lambda>d. memq_keyword x d)))
      else ret cell_f) s"

partial_function (option) memq_pointer :: "addr \<Rightarrow> addr \<Rightarrow> addr mes" where
  "memq_pointer x a s =
     (if a \<noteq> cell_nil
      then mbind (get_car a) (\<lambda>k.
             if x = k then ret a
             else mbind (get_cdr a) (\<lambda>d. memq_pointer x d))
      else ret cell_f) s"

definition memq :: "addr \<Rightarrow> addr \<Rightarrow> addr mes" where
  "memq x a =
     mbind (get_type x) (\<lambda>t.
     if t = TCHAR \<or> t = TNUMBER then mbind (get_cdr x) (\<lambda>v. memq_value v a)
     else if t = TKEYWORD then memq_keyword x a
     else memq_pointer x a)"

partial_function (option) last_pair :: "addr \<Rightarrow> addr mes" where
  "last_pair x s =
     (if x \<noteq> cell_nil
      then mbind (get_cdr x) (\<lambda>d.
             if d = cell_nil then ret x
             else mbind (get_cdr x) (\<lambda>d'. last_pair d'))
      else ret x) s"

end
