(* ===== verification/Mes_Data.thy ===== *)
theory Mes_Data
  imports Mes_Equal
begin

text \<open>
  Scheme data as values, their representation in the heap, and what the list and equality
  functions of core.c and lib.c compute on represented data: \<^verbatim>\<open>length__\<close>,
  \<^verbatim>\<open>assq\<close>, \<^verbatim>\<open>equal2_p\<close>.
\<close>

section \<open>Data and their representation\<close>

text \<open>
  A datum without sharing or cycles. \<open>DAtom a\<close> is an object compared by identity: a symbol, a
  special cell, a procedure.
\<close>

datatype datum =
    DNum int
  | DChar int
  | DStr "byte list"
  | DKey "byte list"
  | DAtom addr
  | DPair datum datum
  | DVec "datum list"

definition by_identity :: "tag \<Rightarrow> bool" where
  "by_identity t \<longleftrightarrow> t \<notin> {TNUMBER, TCHAR, TSTRING, TKEYWORD, TPAIR, TVECTOR}"

definition text_at :: "mst \<Rightarrow> tag \<Rightarrow> byte list \<Rightarrow> addr \<Rightarrow> bool" where
  "text_at s t bs p \<longleftrightarrow> (\<exists>c b. lookup s p = Some c \<and> ctype c = t \<and> ccar c = int (length bs)
     \<and> lookup s (ccdr c) = Some b \<and> ctype b = TBYTES \<and> int (length bs) < ccar b
     \<and> bytes s (ccdr c) = bs @ [0])"

text \<open>The address that the element cell at \<open>e\<close> stands for.\<close>

definition element_of :: "mst \<Rightarrow> addr \<Rightarrow> addr" where
  "element_of s e = (case heap s e of Some c \<Rightarrow> if ctype c = TREF then ccar c else e | None \<Rightarrow> e)"

fun repr :: "mst \<Rightarrow> datum \<Rightarrow> addr \<Rightarrow> bool"
  and reprs :: "mst \<Rightarrow> datum list \<Rightarrow> addr \<Rightarrow> bool" where
  "repr s (DNum n) p \<longleftrightarrow> (\<exists>c. lookup s p = Some c \<and> ctype c = TNUMBER \<and> ccdr c = n)"
| "repr s (DChar n) p \<longleftrightarrow> (\<exists>c. lookup s p = Some c \<and> ctype c = TCHAR \<and> ccdr c = n)"
| "repr s (DStr bs) p \<longleftrightarrow> text_at s TSTRING bs p"
| "repr s (DKey bs) p \<longleftrightarrow> text_at s TKEYWORD bs p"
| "repr s (DAtom a) p \<longleftrightarrow> p = a \<and> (\<exists>c. lookup s p = Some c \<and> by_identity (ctype c))"
| "repr s (DPair d e) p \<longleftrightarrow> (\<exists>c. lookup s p = Some c \<and> ctype c = TPAIR
     \<and> repr s d (ccar c) \<and> repr s e (ccdr c))"
| "repr s (DVec ds) p \<longleftrightarrow> (\<exists>c. lookup s p = Some c \<and> ctype c = TVECTOR
     \<and> ccar c = int (length ds) \<and> reprs s ds (ccdr c))"
| "reprs s [] e \<longleftrightarrow> True"
| "reprs s (d # ds) e \<longleftrightarrow> lookup s e \<noteq> None \<and> repr s d (element_of s e) \<and> reprs s ds (e + 1)"

lemma reprs_nth:
  "reprs s ds e \<longleftrightarrow> (\<forall>i < length ds. lookup s (e + int i) \<noteq> None \<and> repr s (ds ! i) (element_of s (e + int i)))"
proof (induction ds arbitrary: e)
  case Nil
  then show ?case by simp
next
  case (Cons d ds)
  then show ?case
    by (auto simp: All_less_Suc2 algebra_simps)
qed

lemma repr_mapped: "repr s d p \<Longrightarrow> \<exists>c. lookup s p = Some c"
  by (cases d) (auto simp: text_at_def)

lemma repr_unique:
  "repr s d p \<Longrightarrow> repr s e p \<Longrightarrow> d = e"
  "reprs s ds p \<Longrightarrow> reprs s es p \<Longrightarrow> length ds = length es \<Longrightarrow> ds = es"
proof (induction s d p and s ds p arbitrary: e and es rule: repr_reprs.induct)
  case (7 s ds p)
  then show ?case by (cases e) (auto simp: text_at_def by_identity_def)
next
  case (6 s d e p e')
  then show ?case by (cases e') (auto simp: text_at_def by_identity_def)
next
  case (9 s d ds e)
  then show ?case by (cases es) auto
qed (case_tac e; auto simp: text_at_def by_identity_def; fail | simp)+

lemma element_of_extends:
  "extends s t \<Longrightarrow> lookup s e \<noteq> None \<Longrightarrow> element_of t e = element_of s e"
  by (auto simp: element_of_def extends_def lookup_def split: if_splits)

lemma text_at_extends: "extends s t \<Longrightarrow> text_at s k bs p \<Longrightarrow> text_at t k bs p"
  by (force simp: text_at_def extends_def)

lemma repr_extends:
  "repr s d p \<Longrightarrow> extends s t \<Longrightarrow> repr t d p"
  "reprs s ds p \<Longrightarrow> extends s t \<Longrightarrow> reprs t ds p"
proof (induction s d p and s ds p rule: repr_reprs.induct)
  case (9 s d ds e)
  then have "lookup t e \<noteq> None"
    using extends_lookup [OF 9(4), of e] by auto
  with 9 show ?case by (simp add: element_of_extends del: lookup_Some)
qed (auto simp: text_at_extends extends_def)

section \<open>Equality\<close>

lemma text_at_type: "text_at s t bs p \<Longrightarrow> get_type p s = Some (Inr t, s)"
  by (auto simp: text_at_def)

lemma string_equal_p_correct:
  assumes "text_at s t bs a" "text_at s t cs b" "t = TSTRING \<or> t = TKEYWORD"
  shows "string_equal_p a b s = Some (Inr (if bs = cs then cell_t else cell_f), s)"
proof -
  from assms(1) obtain c u where a: "heap s a = Some c" "ctype c = t" "ccar c = int (length bs)"
    "heap s (ccdr c) = Some u" "bytes s (ccdr c) = bs @ [0]"
    by (auto simp: text_at_def)
  from assms(2) obtain d v where b: "heap s b = Some d" "ctype d = t" "ccar d = int (length cs)"
    "heap s (ccdr d) = Some v" "bytes s (ccdr d) = cs @ [0]"
    by (auto simp: text_at_def)
  have "a = b \<Longrightarrow> bs = cs" "ccdr c = ccdr d \<Longrightarrow> bs = cs"
    using a b by auto
  moreover have "length bs = length cs \<Longrightarrow> memcmp_eq (bs @ [0]) (cs @ [0]) (int (length cs)) \<longleftrightarrow> bs = cs"
    by (simp add: memcmp_eq_def)
  ultimately show ?thesis
    using a b assms(3) by (auto simp: string_equal_p_def)
qed

lemma element_deref_ok:
  "heap s e = Some c \<Longrightarrow> element_deref e s = Some (Inr (element_of s e), s)"
  by (simp add: element_deref_def element_of_def)

lemma mall_upto_correct:
  assumes "\<And>i. i < n \<Longrightarrow> body (k + int i) s = Some (Inr (P i), s)"
  shows "mall [k..k + int n - 1] body s = Some (Inr (\<forall>i < n. P i), s)"
  using assms
proof (induction n arbitrary: k P)
  case 0
  then show ?case by simp
next
  case (Suc n)
  have upto: "[k..k + int (Suc n) - 1] = k # [k + 1..(k + 1) + int n - 1]"
    by (simp add: upto_rec1)
  have "mall [k + 1..(k + 1) + int n - 1] body s = Some (Inr (\<forall>i < n. P (Suc i)), s)"
    by (rule Suc.IH) (use Suc.prems [of "Suc i" for i] in \<open>simp add: algebra_simps\<close>)
  moreover have "body k s = Some (Inr (P 0), s)"
    using Suc.prems [of 0] by simp
  ultimately show ?case
    unfolding upto by (auto simp: All_less_Suc2)
qed

text \<open>Two data of a different kind: \<^verbatim>\<open>equal2_p\<close> leaves them to \<^verbatim>\<open>eq_p\<close>.\<close>

lemma cell_t_neq_f [simp]: "cell_t \<noteq> cell_f" "cell_f \<noteq> cell_t"
  by (simp_all add: cells)

lemma eq_p_correct:
  assumes "repr s d p" "repr s e q" "\<not> (\<exists>a b. d = DPair a b)" "\<not> (\<exists>bs. d = DStr bs)"
    "\<not> (\<exists>ds. d = DVec ds)"
  shows "eq_p p q s = Some (Inr (if d = e then cell_t else cell_f), s)"
proof (cases "p = q")
  case True
  then have "d = e" using assms repr_unique(1) by blast
  with True show ?thesis by (simp add: eq_p_def)
next
  case False
  then show ?thesis
    using assms
    by (cases d; cases e)
       (auto simp: eq_p_def text_at_type by_identity_def string_equal_p_correct [where t = TKEYWORD]
          split: if_splits)
qed

lemma equal2_p_mixed:
  assumes "heap s p = Some c" "heap s q = Some d" "p \<noteq> q" "ctype c \<noteq> ctype d"
    and "ctype c = TPAIR \<or> ctype c = TSTRING \<or> ctype c = TVECTOR"
  shows "equal2_p p q s = Some (Inr cell_f, s)"
  using assms by (subst equal2_p.simps) (auto simp: eq_p_def)

lemma equal2_p_vectors:
  assumes "heap s p = Some c" "ctype c = TVECTOR" "heap s q = Some b" "ctype b = TVECTOR" "p \<noteq> q"
    and "ccar c = ccar b"
    and all: "mall [0..ccar b - 1] (\<lambda>i.
        mbind (element_deref (cell_ref (ccdr c) i)) (\<lambda>ai.
        mbind (element_deref (cell_ref (ccdr b) i)) (\<lambda>bi.
        mbind (equal2_p ai bi) (\<lambda>e. ret (e \<noteq> cell_f))))) s = Some (Inr r, s)"
  shows "equal2_p p q s = Some (Inr (if r then cell_t else cell_f), s)"
  apply (subst equal2_p.simps)
  using assms(1-6)
  apply (simp only: if_False if_True get_Some mbind_Inr refl if_apply tag.simps simp_thms)
  apply (subst mbind_Inr, rule all)
  apply simp
  done

lemma equal2_p_vectors_lengths:
  assumes "heap s p = Some c" "ctype c = TVECTOR" "heap s q = Some b" "ctype b = TVECTOR" "p \<noteq> q"
    and "ccar c \<noteq> ccar b"
  shows "equal2_p p q s = Some (Inr cell_f, s)"
  using assms by (subst equal2_p.simps) simp

lemma equal2_p_eq_p:
  assumes "heap s p = Some c" "heap s q = Some d" "ctype c \<notin> {TPAIR, TSTRING, TVECTOR}"
  shows "equal2_p p q s = eq_p p q s"
  using assms by (subst equal2_p.simps) (auto simp: eq_p_def)

lemma repr_other_type:
  assumes "repr s e q"
  obtains c where "heap s q = Some c"
    and "ctype c = TPAIR \<longleftrightarrow> (\<exists>a b. e = DPair a b)"
    and "ctype c = TSTRING \<longleftrightarrow> (\<exists>bs. e = DStr bs)"
    and "ctype c = TVECTOR \<longleftrightarrow> (\<exists>ds. e = DVec ds)"
  using assms by (cases e) (auto simp: text_at_def by_identity_def)

theorem equal2_p_repr:
  "repr s d p \<Longrightarrow> repr s e q \<Longrightarrow>
     equal2_p p q s = Some (Inr (if d = e then cell_t else cell_f), s)"
proof (induction d arbitrary: e p q)
  case (DPair d1 d2)
  from DPair.prems(1) obtain c where c: "heap s p = Some c" "ctype c = TPAIR"
    "repr s d1 (ccar c)" "repr s d2 (ccdr c)" by auto
  show ?case
  proof (cases "p = q")
    case True
    then have "e = DPair d1 d2" using DPair.prems repr_unique(1) by metis
    with True show ?thesis by (simp add: equal2_p.simps)
  next
    case neq: False
    show ?thesis
    proof (cases e)
      case (DPair e1 e2)
      then obtain b where b: "heap s q = Some b" "ctype b = TPAIR"
        "repr s e1 (ccar b)" "repr s e2 (ccdr b)" using DPair.prems(2) by auto
      have "equal2_p (ccar c) (ccar b) s = Some (Inr (if d1 = e1 then cell_t else cell_f), s)"
        "equal2_p (ccdr c) (ccdr b) s = Some (Inr (if d2 = e2 then cell_t else cell_f), s)"
        using DPair.IH c b by blast+
      then show ?thesis
        using neq c b DPair by (subst equal2_p.simps) (simp split: if_splits)
    qed (rule repr_other_type [OF DPair.prems(2)], use neq c equal2_p_mixed [of s p c q] in force)+
  qed
next
  case (DVec ds)
  from DVec.prems(1) obtain c where c: "heap s p = Some c" "ctype c = TVECTOR"
    "ccar c = int (length ds)" "reprs s ds (ccdr c)" by auto
  show ?case
  proof (cases "p = q")
    case True
    then have "e = DVec ds" using DVec.prems repr_unique(1) by metis
    with True show ?thesis by (simp add: equal2_p.simps)
  next
    case neq: False
    show ?thesis
    proof (cases e)
      case (DVec es)
      then obtain b where b: "heap s q = Some b" "ctype b = TVECTOR"
        "ccar b = int (length es)" "reprs s es (ccdr b)" using DVec.prems(2) by auto
      let ?body = "\<lambda>i. mbind (element_deref (cell_ref (ccdr c) i)) (\<lambda>ai.
                   mbind (element_deref (cell_ref (ccdr b) i)) (\<lambda>bi.
                   mbind (equal2_p ai bi) (\<lambda>e. ret (e \<noteq> cell_f))))"
      have "mall [0..0 + int (length ds) - 1] ?body s
          = Some (Inr (\<forall>i < length ds. ds ! i = es ! i), s)" if len: "length ds = length es"
      proof (rule mall_upto_correct)
        fix i assume i: "i < length ds"
        have "lookup s (ccdr c + int i) \<noteq> None" "lookup s (ccdr b + int i) \<noteq> None"
          using c(4) b(4) i len by (auto simp: reprs_nth)
        then obtain u v where u: "heap s (ccdr c + int i) = Some u" "heap s (ccdr b + int i) = Some v"
          by (auto simp: lookup_def split: if_splits)
        have "repr s (ds ! i) (element_of s (ccdr c + int i))"
          "repr s (es ! i) (element_of s (ccdr b + int i))"
          using c(4) b(4) i len by (auto simp: reprs_nth)
        then have "equal2_p (element_of s (ccdr c + int i)) (element_of s (ccdr b + int i)) s
            = Some (Inr (if ds ! i = es ! i then cell_t else cell_f), s)"
          using DVec.IH i by simp
        then show "?body (0 + int i) s = Some (Inr (ds ! i = es ! i), s)"
          using u by (simp add: cell_ref_def element_deref_ok)
      qed
      note all = this
      show ?thesis
      proof (cases "length ds = length es")
        case True
        have "(\<forall>i < length ds. ds ! i = es ! i) = (ds = es)"
          using True by (simp add: list_eq_iff_nth_eq)
        then have "mall [0..ccar b - 1] ?body s = Some (Inr (ds = es), s)"
          using all [OF True] True b(3) by (simp only: add_0)
        with equal2_p_vectors [OF c(1,2) b(1,2) neq] True b(3) c(3) show ?thesis
          by (simp only: DVec datum.inject)
      next
        case False
        with equal2_p_vectors_lengths [OF c(1,2) b(1,2) neq] b(3) c(3) show ?thesis
          by (auto simp: DVec)
      qed
    qed (rule repr_other_type [OF DVec.prems(2)], use neq c equal2_p_mixed [of s p c q] in force)+
  qed
next
  case (DStr bs)
  show ?case
  proof (cases "p = q")
    case True
    then have "e = DStr bs" using DStr.prems repr_unique(1) by metis
    with True show ?thesis by (simp add: equal2_p.simps)
  next
    case False
    then show ?thesis
    proof (cases e)
      case (DStr cs)
      then show ?thesis
        using \<open>p \<noteq> q\<close> \<open>repr s (datum.DStr bs) p\<close> \<open>repr s e q\<close>
        by (subst equal2_p.simps)
           (simp add: text_at_type string_equal_p_correct [where t = TSTRING])
    qed (rule repr_other_type [OF DStr.prems(2)], use False DStr.prems(1) equal2_p_mixed [of s p _ q]
           in \<open>force simp: text_at_def\<close>)+
  qed
next
  case (DNum n)
  then show ?case
    using eq_p_correct [of s "DNum n" p e q] equal2_p_eq_p repr_mapped
    by (fastforce simp: text_at_def by_identity_def)
next
  case (DChar n)
  then show ?case
    using eq_p_correct [of s "DChar n" p e q] equal2_p_eq_p repr_mapped
    by (fastforce simp: text_at_def by_identity_def)
next
  case (DKey bs)
  then show ?case
    using eq_p_correct [of s "DKey bs" p e q] equal2_p_eq_p repr_mapped
    by (fastforce simp: text_at_def by_identity_def)
next
  case (DAtom a)
  then show ?case
    using eq_p_correct [of s "DAtom a" p e q] equal2_p_eq_p repr_mapped
    by (fastforce simp: text_at_def by_identity_def)
qed

section \<open>Length\<close>

lemma length_loop_spine:
  "spine (lookup s) p ps q \<Longrightarrow> length_loop n p s = length_loop (n + int (length ps)) q s"
proof (induction ps arbitrary: p n)
  case Nil
  then show ?case by simp
next
  case (Cons a ps)
  then obtain c where "heap s a = Some c" "ctype c = TPAIR" "spine (lookup s) (ccdr c) ps q" "p = a"
    "a \<noteq> cell_nil" by auto
  then show ?case
    using Cons.IH [of "ccdr c" "n + 1"] by (subst length_loop.simps) (simp add: algebra_simps)
qed

lemma length_c_list [simp]:
  assumes "list_at s p xs"
  shows "length_c p s = Some (Inr (int (length xs)), s)"
proof -
  from assms obtain ps where "spine (lookup s) p ps cell_nil" "cars (lookup s) ps = xs"
    by (auto simp: list_at_def)
  moreover from this have "length ps = length xs" by (metis cars_simps(4))
  ultimately show ?thesis
    using length_loop_spine [of s p ps cell_nil 0] by (simp add: length_c_def length_loop.simps)
qed

lemma length_c_improper:
  assumes "spine (lookup s) p ps q" "heap s q = Some c" "ctype c \<noteq> TPAIR" "q \<noteq> cell_nil"
  shows "length_c p s = Some (Inr (-1), s)"
  using length_loop_spine [OF assms(1), of 0] assms(2-4)
  by (simp add: length_c_def length_loop.simps)

text \<open>On a circular list the loop does not end.\<close>

lemma length_loop_cycle:
  assumes "\<And>x. x \<in> C \<Longrightarrow> x \<noteq> cell_nil \<and> (\<exists>c. heap s x = Some c \<and> ctype c = TPAIR \<and> ccdr c \<in> C)"
    and "p \<in> C"
  shows "length_loop n p s = None"
proof (rule ccontr)
  assume "length_loop n p s \<noteq> None"
  then obtain r where r: "length_loop n p s = Some r" by auto
  have "case ((n, p), s) of ((k, x), t) \<Rightarrow> t = s \<longrightarrow> x \<in> C \<longrightarrow> False"
  proof -
    let ?P = "\<lambda>k x t (r :: (fault + int) \<times> mst). t = s \<longrightarrow> x \<in> C \<longrightarrow> False"
    have "?P n p s r"
    proof (rule length_loop.raw_induct [of ?P "((n, p), s)" r, simplified prod.case])
      fix f k x t r
      assume IH: "\<And>n x t r. f n x t = Some r \<Longrightarrow> ?P n x t r"
        and eq: "(if x \<noteq> cell_nil
          then mbind (get_type x) (\<lambda>t. if t \<noteq> TPAIR then ret (- 1)
                 else mbind (get_cdr x) (\<lambda>d. f (k + 1) d))
          else ret k) t = Some r"
      show "?P k x t r"
      proof (intro impI notI)
        assume t: "t = s" and x: "x \<in> C"
        then obtain c where c: "x \<noteq> cell_nil" "heap s x = Some c" "ctype c = TPAIR" "ccdr c \<in> C"
          using assms(1) by blast
        then have "f (k + 1) (ccdr c) s = Some r"
          using eq t by simp
        then show False using IH c(4) by blast
      qed
    qed (rule r)
    then show ?thesis by simp
  qed
  with assms(2) show False by simp
qed

section \<open>Association lists\<close>

text \<open>
  \<open>alist_at s p hs\<close>: a list of handles \<open>hs\<close>, each a mapped cell; \<open>key_of\<close> and \<open>value_of\<close> read a
  handle.
\<close>

definition alist_at :: "mst \<Rightarrow> addr \<Rightarrow> addr list \<Rightarrow> bool" where
  "alist_at s p hs \<longleftrightarrow> list_at s p hs \<and> (\<forall>h \<in> set hs. lookup s h \<noteq> None)"

definition key_of :: "mst \<Rightarrow> addr \<Rightarrow> addr" where
  "key_of s h = ccar (the (heap s h))"

definition value_of :: "mst \<Rightarrow> addr \<Rightarrow> addr" where
  "value_of s h = ccdr (the (heap s h))"

lemma alist_at_Nil [simp]: "alist_at s p [] \<longleftrightarrow> p = cell_nil"
  by (simp add: alist_at_def)

lemma alist_at_Cons:
  "alist_at s p (h # hs) \<longleftrightarrow> p \<noteq> cell_nil \<and> lookup s h \<noteq> None
     \<and> (\<exists>c. lookup s p = Some c \<and> ctype c = TPAIR \<and> ccar c = h \<and> alist_at s (ccdr c) hs)"
  by (auto simp: alist_at_def list_at_Cons)

lemma assq_pointer_correct:
  "alist_at s p hs \<Longrightarrow>
   assq_pointer x p s = Some (Inr (case find (\<lambda>h. key_of s h = x) hs of None \<Rightarrow> cell_f | Some h \<Rightarrow> h), s)"
proof (induction hs arbitrary: p)
  case Nil
  then show ?case by (simp add: assq_pointer.simps)
next
  case (Cons h hs)
  then obtain c d where "p \<noteq> cell_nil" "heap s p = Some c" "ctype c = TPAIR" "ccar c = h"
    "alist_at s (ccdr c) hs" "heap s h = Some d" by (auto simp: alist_at_Cons)
  with Cons.IH show ?case
    by (subst assq_pointer.simps) (auto simp: key_of_def)
qed

definition assq_symbol_result :: "mst \<Rightarrow> addr \<Rightarrow> addr list \<Rightarrow> addr" where
  "assq_symbol_result s x hs = (case find (\<lambda>h. key_of s h = x) hs of None \<Rightarrow> cell_f | Some h \<Rightarrow> h)"

lemma assq_symbol_correct:
  assumes "alist_at s p hs" "heap s p = Some n" "heap s x = Some c" "ctype c = TSYMBOL \<or> ctype c = TSPECIAL"
    and "p = cell_nil \<Longrightarrow> ctype n \<noteq> TPAIR"
  shows "assq x p s = Some (Inr (assq_symbol_result s x hs), s)"
proof (cases hs)
  case Nil
  with assms show ?thesis by (simp add: assq_def assq_symbol_result_def)
next
  case (Cons h hs')
  with assms(1,2) have "ctype n = TPAIR" by (auto simp: alist_at_Cons)
  then show ?thesis
    using assms assq_pointer_correct [OF assms(1)] by (auto simp: assq_def assq_symbol_result_def)
qed

end
