(* ===== verification/Mes_Vector.thy ===== *)
theory Mes_Vector
  imports Mes_Data
begin

text \<open>
  Vectors (src/src/vector.c), structs (src/src/struct.c) and the type assertions of
  src/src/lib.c and src/src/math.c that they use. A vector is a header cell and its elements
  in consecutive cells: a character or a number in place, anything else behind a
  \<^verbatim>\<open>TREF\<close> cell. A name of the C code that ends in an underscore ends in \<open>_c\<close> here.
\<close>

section \<open>Assertions\<close>

definition assert_number :: "addr \<Rightarrow> unit mes" where
  "assert_number x = mbind (get_type x) (\<lambda>t.
     if t \<noteq> TNUMBER then fail (Throw cell_symbol_not_a_number x) else ret ())"

definition assert_num :: "int \<Rightarrow> addr \<Rightarrow> unit mes" where
  "assert_num pos x = mbind (get_type x) (\<lambda>t.
     if t \<noteq> TNUMBER
     then mbind (make_number pos) (\<lambda>n. mbind (cons n x) (\<lambda>p. mbind (cons cell_type_number p) (\<lambda>q.
            fail (Throw cell_symbol_wrong_type_arg q))))
     else ret ())"

definition assert_struct :: "int \<Rightarrow> addr \<Rightarrow> unit mes" where
  "assert_struct pos x = mbind (get_type x) (\<lambda>t.
     if t \<noteq> TSTRUCT
     then mbind (make_number pos) (\<lambda>n. mbind (cons n x) (\<lambda>p. mbind (cons cell_type_struct p) (\<lambda>q.
            fail (Throw cell_symbol_wrong_type_arg q))))
     else ret ())"

definition assert_range :: "bool \<Rightarrow> int \<Rightarrow> unit mes" where
  "assert_range ok i = assert_msg ok ''value out of range''"

section \<open>Vectors\<close>

definition vector_entry :: "addr \<Rightarrow> addr mes" where
  "vector_entry x = mbind (get_type x) (\<lambda>t.
     if t \<noteq> TCHAR \<and> t \<noteq> TNUMBER then make_ref x else ret x)"

definition make_vector_c :: "int \<Rightarrow> addr \<Rightarrow> addr mes" where
  "make_vector_c k e =
     mbind (alloc 1) (\<lambda>x.
     mbind (alloc k) (\<lambda>v.
     mseq (set_type x TVECTOR)
     (mseq (set_car x k)
     (mseq (set_cdr x v)
     (mseq (mfor [0..k - 1] (\<lambda>i. mbind (vector_entry e) (\<lambda>r. copy_cell (cell_ref v i) r)))
     (ret x))))))"

definition make_vector :: "addr \<Rightarrow> addr mes" where
  "make_vector x =
     mbind (get_car x) (\<lambda>k.
     mseq (assert_number k)
     (mbind (get_cdr k) (\<lambda>n.
      mbind (get_cdr x) (\<lambda>rest.
      mbind (if rest \<noteq> cell_nil then get_car rest else ret cell_unspecified) (\<lambda>e.
      make_vector_c n e)))))"

definition vector_length :: "addr \<Rightarrow> addr mes" where
  "vector_length x =
     mbind (get_type x) (\<lambda>t.
     mseq (assert_msg (t = TVECTOR) ''x->type == TVECTOR'')
     (mbind (get_car x) make_number))"

text \<open>What a vector and a struct give for the element cell \<open>e\<close>.\<close>

definition fetch_entry :: "addr \<Rightarrow> addr mes" where
  "fetch_entry e0 =
     mbind (get_type e0) (\<lambda>t0.
     mbind (if t0 = TREF then get_car e0 else ret e0) (\<lambda>e1.
     mbind (get_type e1) (\<lambda>t1.
     mbind (if t1 = TCHAR then mbind (get_cdr e1) make_char else ret e1) (\<lambda>e2.
     mbind (get_type e2) (\<lambda>t2.
     if t2 = TNUMBER then mbind (get_cdr e2) make_number else ret e2)))))"

definition vector_ref_c :: "addr \<Rightarrow> int \<Rightarrow> addr mes" where
  "vector_ref_c x i =
     mbind (get_type x) (\<lambda>t.
     mseq (assert_msg (t = TVECTOR) ''x->type == TVECTOR'')
     (mbind (get_car x) (\<lambda>len.
      mseq (assert_msg (i < len) ''i < x->length'')
      (mbind (get_cdr x) (\<lambda>v. fetch_entry (cell_ref v i))))))"

definition vector_ref :: "addr \<Rightarrow> addr \<Rightarrow> addr mes" where
  "vector_ref x i = mbind (get_cdr i) (vector_ref_c x)"

definition vector_set_x_c :: "addr \<Rightarrow> int \<Rightarrow> addr \<Rightarrow> addr mes" where
  "vector_set_x_c x i e =
     mbind (get_type x) (\<lambda>t.
     mseq (assert_msg (t = TVECTOR) ''x->type == TVECTOR'')
     (mbind (get_car x) (\<lambda>len.
      mseq (assert_msg (i < len) ''i < x->length'')
      (mbind (vector_entry e) (\<lambda>r.
       mbind (get_cdr x) (\<lambda>v.
       mseq (copy_cell (cell_ref v i) r)
       (ret cell_unspecified)))))))"

definition vector_set_x :: "addr \<Rightarrow> addr \<Rightarrow> addr \<Rightarrow> addr mes" where
  "vector_set_x x i e = mbind (get_cdr i) (\<lambda>n. vector_set_x_c x n e)"

partial_function (option) list_to_vector_loop :: "addr \<Rightarrow> addr \<Rightarrow> unit mes" where
  "list_to_vector_loop p x s =
     (if x \<noteq> cell_nil
      then mbind (car x) (\<lambda>a. mbind (vector_entry a) (\<lambda>r.
           mseq (copy_cell p r)
           (mbind (cdr x) (\<lambda>d. list_to_vector_loop (p + 1) d))))
      else ret ()) s"

definition list_to_vector :: "addr \<Rightarrow> addr mes" where
  "list_to_vector x =
     mbind (length_c x) (\<lambda>n.
     mbind (make_vector_c n cell_unspecified) (\<lambda>v.
     mbind (get_cdr v) (\<lambda>p.
     mseq (list_to_vector_loop p x)
     (ret v))))"

partial_function (option) vector_to_list_loop :: "addr \<Rightarrow> int \<Rightarrow> addr \<Rightarrow> addr mes" where
  "vector_to_list_loop v i x s =
     (if i \<noteq> 0
      then mbind (element_deref (cell_ref v (i - 1))) (\<lambda>e.
           mbind (cons e x) (\<lambda>x'. vector_to_list_loop v (i - 1) x'))
      else ret x) s"

definition vector_to_list :: "addr \<Rightarrow> addr mes" where
  "vector_to_list v =
     mbind (get_car v) (\<lambda>n.
     mbind (get_cdr v) (\<lambda>elems. vector_to_list_loop elems n cell_nil))"

section \<open>Structs\<close>

fun fill_fields :: "int list \<Rightarrow> addr \<Rightarrow> addr \<Rightarrow> unit mes" where
  "fill_fields [] v flds = ret ()"
| "fill_fields (i # is) v flds =
     mbind (if flds \<noteq> cell_nil
            then mbind (get_car flds) (\<lambda>e. mbind (get_cdr flds) (\<lambda>flds'. ret (e, flds')))
            else ret (cell_unspecified, flds)) (\<lambda>(e, flds').
     mbind (vector_entry e) (\<lambda>r.
     mseq (copy_cell (cell_ref v i) r)
     (fill_fields is v flds')))"

definition make_struct :: "addr \<Rightarrow> addr \<Rightarrow> addr \<Rightarrow> addr mes" where
  "make_struct type flds printer =
     mbind (length_c flds) (\<lambda>n.
     let size = 2 + n in
     mbind (alloc 1) (\<lambda>x.
     mbind (alloc size) (\<lambda>v.
     mseq (set_type x TSTRUCT)
     (mseq (set_car x size)
     (mseq (set_cdr x v)
     (mseq (mbind (vector_entry type) (\<lambda>r. copy_cell v r))
     (mseq (mbind (vector_entry printer) (\<lambda>r. copy_cell (cell_ref v 1) r))
     (mseq (fill_fields [2..size - 1] v flds)
     (ret x)))))))))"

definition struct_length :: "addr \<Rightarrow> addr mes" where
  "struct_length x =
     mbind (get_type x) (\<lambda>t.
     mseq (assert_msg (t = TSTRUCT) ''x->type == TSTRUCT'')
     (mbind (get_car x) make_number))"

definition struct_ref_c :: "addr \<Rightarrow> int \<Rightarrow> addr mes" where
  "struct_ref_c x i =
     mseq (assert_struct 1 x)
     (mbind (get_car x) (\<lambda>len.
      mseq (assert_range (i < len) i)
      (mbind (get_cdr x) (\<lambda>v. fetch_entry (cell_ref v i)))))"

definition struct_set_x_c :: "addr \<Rightarrow> int \<Rightarrow> addr \<Rightarrow> addr mes" where
  "struct_set_x_c x i e =
     mbind (get_type x) (\<lambda>t.
     mseq (assert_msg (t = TSTRUCT) ''x->type == TSTRUCT'')
     (mbind (get_car x) (\<lambda>len.
      mseq (assert_msg (i < len) ''i < x->length'')
      (mbind (vector_entry e) (\<lambda>r.
       mbind (get_cdr x) (\<lambda>v.
       mseq (copy_cell (cell_ref v i) r)
       (ret cell_unspecified)))))))"

definition struct_ref :: "addr \<Rightarrow> addr \<Rightarrow> addr mes" where
  "struct_ref x i = mbind (get_cdr i) (struct_ref_c x)"

definition struct_set_x :: "addr \<Rightarrow> addr \<Rightarrow> addr \<Rightarrow> addr mes" where
  "struct_set_x x i e = mbind (get_cdr i) (\<lambda>n. struct_set_x_c x n e)"

section \<open>Entries\<close>

text \<open>
  The entry cell that \<^verbatim>\<open>vector_entry\<close> makes stands for the same datum, and fetching it
  gives the datum back: \<open>entry_for s e x\<close> says that the contents of an element cell are those
  of the entry for \<open>x\<close>.
\<close>

definition immediate :: "tag \<Rightarrow> bool" where
  "immediate t \<longleftrightarrow> t = TCHAR \<or> t = TNUMBER"

definition entry_cell :: "addr \<Rightarrow> cell \<Rightarrow> cell" where
  "entry_cell x c = (if immediate (ctype c) then c else mk_cell TREF x 0)"

definition entry_for :: "cell \<Rightarrow> addr \<Rightarrow> cell \<Rightarrow> bool" where
  "entry_for e x c \<longleftrightarrow> e = entry_cell x c"

lemma vector_entry_ok:
  assumes "lookup s x = Some c" "arena_ok s" "room 1 s"
  obtains r t e where "vector_entry x s = Some (Inr r, t)"
    and "t = s \<and> immediate (ctype c) \<or> t = push_cell (mk_cell TREF x 0) s \<and> \<not> immediate (ctype c)"
    and "heap t r = Some e" and "entry_for e x c"
  using assms by (cases "immediate (ctype c)")
    (auto simp: vector_entry_def immediate_def entry_for_def entry_cell_def push_cell_def intro: that)

lemma vector_entry_grows:
  assumes "lookup s x = Some c" "arena_ok s" "room 1 s"
  obtains r t where "vector_entry x s = Some (Inr r, t)" and "grows 1 s t"
    and "heap t r = Some (entry_cell x c)"
  using vector_entry_ok [OF assms] assms(2) grows_push_cell grows_refl
  by (metis entry_for_def zero_le_one)

lemma fetch_ref:
  assumes "heap s e = Some (mk_cell TREF x 0)" "heap s x = Some c" "\<not> immediate (ctype c)"
  shows "fetch_entry e s = Some (Inr x, s)"
  using assms by (simp add: fetch_entry_def immediate_def)

lemma fetch_immediate:
  assumes "heap s e = Some c" "immediate (ctype c)" "arena_ok s" "room 1 s"
  shows "fetch_entry e s = Some (Inr (g_free s), push_cell (mk_cell (ctype c) 0 (ccdr c)) s)"
  using assms by (auto simp: fetch_entry_def immediate_def push_cell_def)


section \<open>Objects with slots\<close>

text \<open>
  \<open>slots_at tg s x v es\<close>: the object at \<open>x\<close> has type \<open>tg\<close> and element cells \<open>es\<close> from address
  \<open>v\<close> on, all allocated, apart from its header.
\<close>

definition slots_at :: "tag \<Rightarrow> mst \<Rightarrow> addr \<Rightarrow> addr \<Rightarrow> cell list \<Rightarrow> bool" where
  "slots_at tg s x v es \<longleftrightarrow> lookup s x = Some (mk_cell tg (int (length es)) v)
     \<and> (\<forall>i < length es. lookup s (v + int i) = Some (es ! i))
     \<and> \<not> (v \<le> x \<and> x < v + int (length es))"

lemma slots_at_extends: "extends s t \<Longrightarrow> slots_at tg s x v es \<Longrightarrow> slots_at tg t x v es"
  by (auto simp: slots_at_def extends_def)

lemma slots_at_header: "slots_at tg s x v es \<Longrightarrow> heap s x = Some (mk_cell tg (int (length es)) v)"
  by (simp add: slots_at_def)

lemma slots_at_slot: "slots_at tg s x v es \<Longrightarrow> i < length es \<Longrightarrow> heap s (v + int i) = Some (es ! i)"
  by (simp add: slots_at_def)

lemma slots_at_update:
  assumes "slots_at tg s x v es" "i < length es"
    and t: "t = s\<lparr>heap := (heap s)(v + int i \<mapsto> e)\<rparr>"
  shows "slots_at tg t x v (es[i := e])"
proof -
  have "x \<noteq> v + int i"
    using assms(1,2) by (auto simp: slots_at_def)
  then show ?thesis
    using assms by (auto simp: slots_at_def nth_list_update)
qed

text \<open>
  The contract of an indexed reference and an indexed assignment on objects of one type: in
  bounds, they fetch and overwrite the element cell; the code differs in how it checks.
\<close>

locale slots =
  fixes tg :: tag
    and ref_op :: "addr \<Rightarrow> int \<Rightarrow> addr mes"
    and set_op :: "addr \<Rightarrow> int \<Rightarrow> addr \<Rightarrow> addr mes"
  assumes ref_in_bounds:
      "lookup s x = Some (mk_cell tg n v) \<Longrightarrow> i < n \<Longrightarrow> ref_op x i s = fetch_entry (v + i) s"
    and set_in_bounds:
      "lookup s x = Some (mk_cell tg n v) \<Longrightarrow> i < n \<Longrightarrow>
       set_op x i e s = mbind (vector_entry e) (\<lambda>r.
         mseq (copy_cell (v + i) r) (ret cell_unspecified)) s"
begin

lemma ref_object:
  assumes "slots_at tg s x v es" "i < length es" "entry_for (es ! i) y c" "lookup s y = Some c"
    and "\<not> immediate (ctype c)"
  shows "ref_op x (int i) s = Some (Inr y, s)"
proof -
  have "heap s (v + int i) = Some (mk_cell TREF y 0)"
    using assms by (simp add: slots_at_def entry_for_def entry_cell_def)
  then have "fetch_entry (v + int i) s = Some (Inr y, s)"
    using assms(4,5) by (intro fetch_ref) auto
  then show ?thesis
    using assms(1,2) ref_in_bounds [of s x "int (length es)" v "int i"] by (simp add: slots_at_def)
qed

lemma ref_immediate:
  assumes "slots_at tg s x v es" "i < length es" "entry_for (es ! i) y c" "immediate (ctype c)"
    and "arena_ok s" "room 1 s"
  shows "ref_op x (int i) s = Some (Inr (g_free s), push_cell (mk_cell (ctype c) 0 (ccdr c)) s)"
proof -
  have "heap s (v + int i) = Some c"
    using assms by (simp add: slots_at_def entry_for_def entry_cell_def)
  then have "fetch_entry (v + int i) s = Some (Inr (g_free s), push_cell (mk_cell (ctype c) 0 (ccdr c)) s)"
    using assms by (intro fetch_immediate)
  then show ?thesis
    using assms(1,2) ref_in_bounds [of s x "int (length es)" v "int i"] by (simp add: slots_at_def)
qed

lemma set_slot:
  assumes "slots_at tg s x v es" "i < length es" "lookup s y = Some c" "arena_ok s" "room 1 s"
  obtains t e where "set_op x (int i) y s = Some (Inr cell_unspecified, t)"
    and "entry_for e y c" and "slots_at tg t x v (es[i := e])"
    and "arena_ok t" and "g_free s \<le> g_free t" and "g_free t \<le> g_free s + 1"
    and "ARENA_SIZE t = ARENA_SIZE s" and "g_cells t = g_cells s"
    and "\<And>z. z < g_free s \<Longrightarrow> z \<noteq> v + int i \<Longrightarrow> heap t z = heap s z"
    and "bytes t = bytes s"
proof -
  obtain r u e where u: "vector_entry y s = Some (Inr r, u)"
    "u = s \<and> immediate (ctype c) \<or> u = push_cell (mk_cell TREF y 0) s \<and> \<not> immediate (ctype c)"
    "heap u r = Some e" "entry_for e y c"
    by (rule vector_entry_ok [OF assms(3-5)])
  have ext: "extends s u"
    using u(2) by auto
  have sl: "slots_at tg u x v es"
    by (rule slots_at_extends [OF ext assms(1)])
  let ?t = "u\<lparr>heap := (heap u)(v + int i \<mapsto> e)\<rparr>"
  have "set_op x (int i) y s = Some (Inr cell_unspecified, ?t)"
    using assms(1,2) set_in_bounds [of s x "int (length es)" v "int i" y] u(1,3)
      slots_at_slot [OF sl assms(2)]
    by (simp add: slots_at_def)
  moreover have "slots_at tg ?t x v (es[i := e])"
    by (rule slots_at_update [OF sl assms(2) refl])
  ultimately show ?thesis
    using that [of ?t e] u(2,4) assms(4,5) by (auto simp: arena_ok_def)
qed

text \<open>What was stored is what is read: an object itself, a number or a character a copy of it.\<close>

lemma set_then_ref:
  assumes "slots_at tg s x v es" "i < length es" "lookup s y = Some c" "arena_ok s" "room 2 s"
    and "y < v \<or> v + int (length es) \<le> y"
  shows "\<exists>t u z d. set_op x (int i) y s = Some (Inr cell_unspecified, t)
     \<and> ref_op x (int i) t = Some (Inr z, u)
     \<and> heap u z = Some d \<and> ctype d = ctype c \<and> ccdr d = ccdr c
     \<and> (\<not> immediate (ctype c) \<longrightarrow> z = y \<and> u = t)"
proof -
  have r1: "room 1 s" using assms(5) by (simp add: room_def)
  obtain t e where t: "set_op x (int i) y s = Some (Inr cell_unspecified, t)"
    "entry_for e y c" "slots_at tg t x v (es[i := e])" "arena_ok t" "g_free s \<le> g_free t"
    "g_free t \<le> g_free s + 1" "ARENA_SIZE t = ARENA_SIZE s" "g_cells t = g_cells s"
    "\<And>z. z < g_free s \<Longrightarrow> z \<noteq> v + int i \<Longrightarrow> heap t z = heap s z"
    by (rule set_slot [OF assms(1-4) r1]) blast
  have i: "i < length (es[i := e])" "(es[i := e]) ! i = e"
    using assms(2) by simp_all
  have y: "lookup t y = Some c"
    using t(5,9) assms(2,3,6) by auto
  show ?thesis
  proof (cases "immediate (ctype c)")
    case False
    have "ref_op x (int i) t = Some (Inr y, t)"
      by (rule ref_object [OF t(3) i(1) _ y False]) (use i t in simp)
    with t(1) y False show ?thesis by auto
  next
    case True
    have "room 1 t"
      using t(6-8) assms(5) by (simp add: room_def)
    have "ref_op x (int i) t = Some (Inr (g_free t), push_cell (mk_cell (ctype c) 0 (ccdr c)) t)"
      by (rule ref_immediate [OF t(3) i(1) _ True t(4) \<open>room 1 t\<close>]) (use i t in simp)
    with t(1) True show ?thesis by (auto simp: push_cell_def)
  qed
qed

end

lemma vector_entry_below:
  "vector_entry e s = Some (Inr r, t) \<Longrightarrow> x < g_free s \<Longrightarrow> heap t x = heap s x"
  by (auto simp: vector_entry_def make_ref_def make_cell_def get_type_def deref_def set_type_def
      set_car_def set_cdr_def store_def mbind_def assert_msg_def gets_def modify_def fail_def ret_def
      bind_eq_Some_conv split: option.splits if_splits sum.splits)

lemma mbind_cong_Inr:
  "(\<And>a t. p s = Some (Inr a, t) \<Longrightarrow> f a t = g a t) \<Longrightarrow> mbind p f s = mbind p g s"
  by (auto simp: mbind_def split: option.splits sum.splits Option.bind_splits)

interpretation vec: slots TVECTOR vector_ref_c vector_set_x_c
proof unfold_locales
  fix s x n v and i :: int
  assume "lookup s x = Some (mk_cell TVECTOR n v)" "i < n"
  then show "vector_ref_c x i s = fetch_entry (v + i) s"
    by (simp add: vector_ref_c_def cell_ref_def)
next
  fix s x n v e and i :: int
  assume x: "lookup s x = Some (mk_cell TVECTOR n v)" "i < n"
  have "mbind (vector_entry e) (\<lambda>r. mbind (get_cdr x) (\<lambda>v. mseq (copy_cell (cell_ref v i) r)
       (ret cell_unspecified))) s
     = mbind (vector_entry e) (\<lambda>r. mseq (copy_cell (v + i) r) (ret cell_unspecified)) s"
    by (rule mbind_cong_Inr) (use x vector_entry_below in \<open>simp add: cell_ref_def\<close>)
  then show "vector_set_x_c x i e s
     = mbind (vector_entry e) (\<lambda>r. mseq (copy_cell (v + i) r) (ret cell_unspecified)) s"
    using x by (simp add: vector_set_x_c_def)
qed

interpretation struct: slots TSTRUCT struct_ref_c struct_set_x_c
proof unfold_locales
  fix s x n v and i :: int
  assume "lookup s x = Some (mk_cell TSTRUCT n v)" "i < n"
  then show "struct_ref_c x i s = fetch_entry (v + i) s"
    by (simp add: struct_ref_c_def assert_struct_def assert_range_def cell_ref_def)
next
  fix s x n v e and i :: int
  assume x: "lookup s x = Some (mk_cell TSTRUCT n v)" "i < n"
  have "mbind (vector_entry e) (\<lambda>r. mbind (get_cdr x) (\<lambda>v. mseq (copy_cell (cell_ref v i) r)
       (ret cell_unspecified))) s
     = mbind (vector_entry e) (\<lambda>r. mseq (copy_cell (v + i) r) (ret cell_unspecified)) s"
    by (rule mbind_cong_Inr) (use x vector_entry_below in \<open>simp add: cell_ref_def\<close>)
  then show "struct_set_x_c x i e s
     = mbind (vector_entry e) (\<lambda>r. mseq (copy_cell (v + i) r) (ret cell_unspecified)) s"
    using x by (simp add: struct_set_x_c_def)
qed


section \<open>Making vectors\<close>

text \<open>Overwriting a cell that was not allocated when \<open>s\<close> was the state.\<close>

lemma grows_set_heap:
  assumes "grows n s t" "g_free s \<le> a" "heap t a \<noteq> None"
  shows "grows n s (t\<lparr>heap := (heap t)(a \<mapsto> c)\<rparr>)"
proof -
  have "t = s\<lparr>heap := heap t, bytes := bytes t, g_free := g_free t\<rparr>"
    using assms(1) by (simp add: grows_def)
  then have "t\<lparr>heap := (heap t)(a \<mapsto> c)\<rparr> = s\<lparr>heap := (heap t)(a \<mapsto> c), bytes := bytes t, g_free := g_free t\<rparr>"
    by (cases s; cases t) simp
  moreover have "arena_ok (t\<lparr>heap := (heap t)(a \<mapsto> c)\<rparr>)"
    using growsD(2) [OF assms(1)] by (auto simp: arena_ok_def)
  moreover have "extends s (t\<lparr>heap := (heap t)(a \<mapsto> c)\<rparr>)"
    using growsD(1) [OF assms(1)] assms(2) by (auto simp: extends_def)
  ultimately show ?thesis
    using growsD(4) [OF assms(1)] by (simp add: grows_def)
qed

lemma arena_cell:
  assumes "grows n s t" "g_cells s \<le> g_free s" "g_free s \<le> a" "a < g_cells s + ARENA_SIZE s"
  shows "\<exists>c. heap t a = Some c"
  using growsD(2,5,6) [OF assms(1)] assms(2-4) by (auto simp: arena_ok_def)

text \<open>
  An object with \<open>n\<close> elements under construction from \<open>s\<close> on: its header is at \<open>g_free s\<close>, and the
  elements \<open>es\<close> stand behind it already. Each entry may take a cell of its own besides.
\<close>

definition filled :: "mst \<Rightarrow> tag \<Rightarrow> nat \<Rightarrow> cell list \<Rightarrow> mst \<Rightarrow> bool" where
  "filled s tg n es t \<longleftrightarrow> grows (1 + int n + int (length es)) s t \<and> g_free s + 1 + int n \<le> g_free t
     \<and> heap t (g_free s) = Some (mk_cell tg (int n) (g_free s + 1))
     \<and> (\<forall>i < length es. heap t (g_free s + 1 + int i) = Some (es ! i))"

lemma filled_start:
  assumes "arena_ok s" "room (1 + int n + int n) s"
  shows "filled s tg n [] (s\<lparr>g_free := g_free s + 1 + int n, heap := (heap s)(g_free s \<mapsto> mk_cell tg (int n) (g_free s + 1))\<rparr>)"
  using assms(1) by (auto simp: filled_def grows_def extends_def arena_ok_def)

lemma filled_step:
  assumes "arena_ok s" "room (1 + int n + int n) s" "lookup s e = Some c" "length es < n" "filled s tg n es t"
  obtains r t' u where "vector_entry e t = Some (Inr r, t')" and "copy_cell (g_free s + 1 + int (length es)) r t' = Some (Inr (), u)"
    and "filled s tg n (es @ [entry_cell e c]) u"
proof -
  have g: "grows (1 + int n + int (length es)) s t"
    using assms(5) by (simp add: filled_def)
  have et: "lookup t e = Some c"
    using extends_lookup [OF growsD(1) [OF g]] assms(3) by blast
  have "room 1 t"
    by (rule grows_room [OF g assms(2)]) (use assms(4) in simp)
  then obtain r u where u: "vector_entry e t = Some (Inr r, u)" "grows 1 t u" "heap u r = Some (entry_cell e c)"
    by (rule vector_entry_grows [OF et growsD(2) [OF g]])
  have gu: "grows (1 + int n + int (length (es @ [entry_cell e c]))) s u"
    using grows_trans [OF g u(2)] by (simp add: algebra_simps)
  have keep: "heap u a = heap t a" if "a < g_free t" for a
    using growsD(1) [OF u(2)] that by (simp add: extends_def)
  have vn: "g_free s + 1 + int n \<le> g_free t"
    using assms(5) by (simp add: filled_def)
  let ?a = "g_free s + 1 + int (length es)"
  obtain d where d: "heap u ?a = Some d"
    using arena_cell [OF gu, of ?a] assms(1,2,4) by (auto simp: arena_ok_def room_def)
  let ?u = "u\<lparr>heap := (heap u)(?a \<mapsto> entry_cell e c)\<rparr>"
  have "copy_cell ?a r u = Some (Inr (), ?u)"
    using u d by simp
  moreover have "filled s tg n (es @ [entry_cell e c]) ?u"
    unfolding filled_def
  proof (intro conjI allI impI)
    show "grows (1 + int n + int (length (es @ [entry_cell e c]))) s ?u"
      by (rule grows_set_heap [OF gu]) (use d in simp_all)
    show "g_free s + 1 + int n \<le> g_free ?u"
      using vn growsD(3) [OF u(2)] by simp
    show "heap ?u (g_free s) = Some (mk_cell tg (int n) (g_free s + 1))"
      using assms(5) keep [of "g_free s"] vn by (simp add: filled_def)
    show "heap ?u (g_free s + 1 + int i) = Some ((es @ [entry_cell e c]) ! i)"
      if "i < length (es @ [entry_cell e c])" for i
      using assms(4,5) keep [of "g_free s + 1 + int i"] vn that
      by (auto simp: filled_def less_Suc_eq nth_append)
  qed
  ultimately show ?thesis using u(1) that by blast
qed

lemma filled_slots:
  assumes "filled s tg n es t" "length es = n"
  shows "grows (1 + int n + int n) s t" "slots_at tg t (g_free s) (g_free s + 1) es"
  using assms by (auto simp: filled_def slots_at_def)

lemma fill_vector_ok:
  assumes "arena_ok s" "room (1 + int k + int k) s" "lookup s e = Some c"
  shows "\<exists>t. mfor [0..int k - 1] (\<lambda>i. mbind (vector_entry e) (\<lambda>r. copy_cell (cell_ref (g_free s + 1) i) r))
         (s\<lparr>g_free := g_free s + 1 + int k, heap := (heap s)(g_free s \<mapsto> mk_cell TVECTOR (int k) (g_free s + 1))\<rparr>)
       = Some (Inr (), t) \<and> filled s TVECTOR k (replicate k (entry_cell e c)) t"
proof -
  let ?body = "\<lambda>i. mbind (vector_entry e) (\<lambda>r. copy_cell (cell_ref (g_free s + 1) i) r)"
  have "\<exists>u. ?body ([0..int k - 1] ! j) t = Some (Inr (), u)
      \<and> filled s TVECTOR k (replicate (Suc j) (entry_cell e c)) u"
    if j: "j < length [0..int k - 1]" and P: "filled s TVECTOR k (replicate j (entry_cell e c)) t" for j t
    by (rule filled_step [OF assms _ P]) (use j in \<open>auto simp: cell_ref_def replicate_append_same [symmetric]\<close>)
  then show ?thesis
    using mfor_invariant [of "\<lambda>j. filled s TVECTOR k (replicate j (entry_cell e c))" _ "[0..int k - 1]" ?body]
      filled_start [OF assms(1,2)] by simp
qed

lemma new_object:
  assumes "arena_ok s" "room (1 + int k + int k) s"
  obtains d where "heap s (g_free s) = Some d" and "alloc 1 s = Some (Inr (g_free s), s\<lparr>g_free := g_free s + 1\<rparr>)"
    and "alloc (int k) (s\<lparr>g_free := g_free s + 1\<rparr>)
      = Some (Inr (g_free s + 1), s\<lparr>g_free := g_free s + 1 + int k\<rparr>)"
proof -
  have "room 1 s" "room (int k) (s\<lparr>g_free := g_free s + 1\<rparr>)"
    using assms(2) by (simp_all add: room_def)
  then show ?thesis
    using free_mapped [OF assms(1,2)] that by (auto simp: alloc_ok)
qed

lemma make_vector_c_ok:
  assumes "arena_ok s" "room (1 + int k + int k) s" "lookup s e = Some c"
  obtains t where "make_vector_c (int k) e s = Some (Inr (g_free s), t)"
    and "grows (1 + int k + int k) s t"
    and "slots_at TVECTOR t (g_free s) (g_free s + 1) (replicate k (entry_cell e c))"
proof -
  obtain d where d: "heap s (g_free s) = Some d" "alloc 1 s = Some (Inr (g_free s), s\<lparr>g_free := g_free s + 1\<rparr>)"
    "alloc (int k) (s\<lparr>g_free := g_free s + 1\<rparr>) = Some (Inr (g_free s + 1), s\<lparr>g_free := g_free s + 1 + int k\<rparr>)"
    using new_object [OF assms(1,2)] .
  obtain t where t: "mfor [0..int k - 1] (\<lambda>i. mbind (vector_entry e) (\<lambda>r. copy_cell (cell_ref (g_free s + 1) i) r))
         (s\<lparr>g_free := g_free s + 1 + int k, heap := (heap s)(g_free s \<mapsto> mk_cell TVECTOR (int k) (g_free s + 1))\<rparr>)
       = Some (Inr (), t)" "filled s TVECTOR k (replicate k (entry_cell e c)) t"
    using fill_vector_ok [OF assms] by blast
  have "d\<lparr>ctype := TVECTOR, ccar := int k, ccdr := g_free s + 1\<rparr> = mk_cell TVECTOR (int k) (g_free s + 1)"
    by simp
  then show ?thesis
    using t(1) d filled_slots [OF t(2)] that by (auto simp: make_vector_c_def)
qed

lemma make_vector_c_full:
  assumes "\<not> room (1 + k) s" "0 \<le> k"
  shows "\<exists>t. make_vector_c k e s = Some (Inl (Assert ''alloc: out of memory''), t)"
  using assms
  by (cases "room 1 s") (auto simp: make_vector_c_def alloc_ok alloc_full room_def alloc_def)

section \<open>Making structs\<close>

lemma fill_fields_ok:
  assumes "arena_ok s" "room (1 + int n + int n) s"
  shows "list_at s p xs \<Longrightarrow> list_all2 (\<lambda>x c. lookup s x = Some c) xs cs \<Longrightarrow> filled s tg n es t
    \<Longrightarrow> length es + length xs = n
    \<Longrightarrow> \<exists>u. fill_fields [int (length es)..int n - 1] (g_free s + 1) p t = Some (Inr (), u)
      \<and> filled s tg n (es @ map2 entry_cell xs cs) u"
proof (induction xs arbitrary: cs es p t)
  case Nil
  then show ?case by simp
next
  case (Cons x xs)
  then obtain c cs' where c: "cs = c # cs'" "lookup s x = Some c" "list_all2 (\<lambda>x c. lookup s x = Some c) xs cs'"
    by (auto simp: list_all2_Cons1)
  obtain q where q: "p \<noteq> cell_nil" "lookup s p = Some q" "ctype q = TPAIR" "ccar q = x" "list_at s (ccdr q) xs"
    using Cons.prems(1) by (auto simp: list_at_Cons simp del: lookup_Some)
  have "extends s t"
    using Cons.prems(3) growsD(1) by (auto simp: filled_def)
  then have tp: "lookup t p = Some q"
    using extends_lookup q(2) by blast
  have len: "length es < n" "[int (length es)..int n - 1] = int (length es) # [int (length (es @ [entry_cell x c]))..int n - 1]"
    using Cons.prems(4) by (simp_all add: upto_rec1 add.commute)
  obtain r t' u where r: "vector_entry x t = Some (Inr r, t')" "copy_cell (g_free s + 1 + int (length es)) r t' = Some (Inr (), u)"
    and u: "filled s tg n (es @ [entry_cell x c]) u"
    by (rule filled_step [OF assms c(2) len(1) Cons.prems(3)])
  obtain w where w: "fill_fields [int (length (es @ [entry_cell x c]))..int n - 1] (g_free s + 1) (ccdr q) u = Some (Inr (), w)"
    "filled s tg n ((es @ [entry_cell x c]) @ map2 entry_cell xs cs') w"
    using Cons.IH [OF q(5) c(3) u] Cons.prems(4) by auto
  show ?case
    unfolding len(2) using q(1,3,4) tp r w c(1) by (intro exI [of _ w]) (simp add: cell_ref_def)
qed

text \<open>A struct has its type, its printer and its fields as elements.\<close>

lemma make_struct_ok:
  assumes "arena_ok s" "list_at s flds xs" "list_all2 (\<lambda>x c. lookup s x = Some c) (type # printer # xs) cs"
    and "room (1 + int (length cs) + int (length cs)) s"
  obtains t where "make_struct type flds printer s = Some (Inr (g_free s), t)"
    and "grows (1 + int (length cs) + int (length cs)) s t"
    and "slots_at TSTRUCT t (g_free s) (g_free s + 1) (map2 entry_cell (type # printer # xs) cs)"
proof -
  define n where "n = length cs"
  obtain c1 c2 cs' where c: "cs = c1 # c2 # cs'" "lookup s type = Some c1" "lookup s printer = Some c2"
    "list_all2 (\<lambda>x c. lookup s x = Some c) xs cs'"
    using assms(3) by (auto simp: list_all2_Cons1)
  have n: "n = 2 + length xs" "0 < n" "1 < n"
    using list_all2_lengthD [OF assms(3)] unfolding n_def by auto
  note room = assms(4) [folded n_def]
  obtain d where d: "heap s (g_free s) = Some d" "alloc 1 s = Some (Inr (g_free s), s\<lparr>g_free := g_free s + 1\<rparr>)"
    "alloc (int n) (s\<lparr>g_free := g_free s + 1\<rparr>) = Some (Inr (g_free s + 1), s\<lparr>g_free := g_free s + 1 + int n\<rparr>)"
    using new_object [OF assms(1) room] .
  obtain r1 u1 t1 where t1: "vector_entry type
        (s\<lparr>g_free := g_free s + 1 + int n, heap := (heap s)(g_free s \<mapsto> mk_cell TSTRUCT (int n) (g_free s + 1))\<rparr>) = Some (Inr r1, u1)"
      "copy_cell (g_free s + 1) r1 u1 = Some (Inr (), t1)" "filled s TSTRUCT n [entry_cell type c1] t1"
    by (rule filled_step [OF assms(1) room c(2) _ filled_start [OF assms(1) room]]) (use n(2) in simp_all)
  obtain r2 u2 t2 where t2: "vector_entry printer t1 = Some (Inr r2, u2)"
      "copy_cell (cell_ref (g_free s + 1) 1) r2 u2 = Some (Inr (), t2)"
      "filled s TSTRUCT n [entry_cell type c1, entry_cell printer c2] t2"
    by (rule filled_step [OF assms(1) room c(3) _ t1(3)]) (use n(3) in \<open>simp_all add: cell_ref_def\<close>)
  obtain t3 where t3: "fill_fields [2..int n - 1] (g_free s + 1) flds t2 = Some (Inr (), t3)"
      "filled s TSTRUCT n (map2 entry_cell (type # printer # xs) cs) t3"
    using fill_fields_ok [OF assms(1) room assms(2) c(4) t2(3)] n(1) c(1) by auto
  have "d\<lparr>ctype := TSTRUCT, ccar := int n, ccdr := g_free s + 1\<rparr> = mk_cell TSTRUCT (int n) (g_free s + 1)"
    by simp
  moreover have "length_c flds s = Some (Inr (int n - 2), s)"
    using length_c_list [OF assms(2)] n(1) by simp
  ultimately have "make_struct type flds printer s = Some (Inr (g_free s), t3)"
    using d t1(1,2) t2(1,2) t3(1) by (simp add: make_struct_def Let_def)
  moreover have "length (map2 entry_cell (type # printer # xs) cs) = n"
    using list_all2_lengthD [OF assms(3)] by (simp add: n_def)
  ultimately show ?thesis
    using filled_slots [OF t3(2)] that n_def by auto
qed

end
