(* ===== verification/Mes_Hash.thy ===== *)
theory Mes_Hash
  imports Mes_Vector
begin

text \<open>
  Hash tables (src/src/hash.c) and the symbol table (src/src/string.c, src/src/symbol.c). A
  table is a struct whose slot 3 is the number of buckets and whose slot 4 is a vector; a
  bucket is an association list, or the unspecified value as long as it is empty. The
  \<^verbatim>\<open>char\<close> of the hash function is signed, as it is on x86.
\<close>

section \<open>The hash function\<close>

definition char_at :: "byte list \<Rightarrow> nat \<Rightarrow> int" where
  "char_at str i = (if i < length str then sint (str ! i) else 0)"

definition hash_cstring :: "byte list \<Rightarrow> int \<Rightarrow> int mes" where
  "hash_cstring str sz =
     (let h0 = char_at str 0 * 37;
          h = (if char_at str 0 \<noteq> 0 \<and> char_at str 1 \<noteq> 0 then h0 + char_at str 1 * 43 else h0)
      in mseq (assert_msg (sz \<noteq> 0) ''size'') (ret (to_int (h smod sz))))"

definition hashq_c :: "addr \<Rightarrow> int \<Rightarrow> int mes" where
  "hashq_c x sz =
     mbind (get_type x) (\<lambda>t.
     if t = TSPECIAL \<or> t = TSYMBOL
     then mbind (get_cdr x) (\<lambda>str. mbind (cell_bytes str) (\<lambda>p. hash_cstring p sz))
     else mbind (make_string0 (cstring ''hashq_: not a symbol'')) (\<lambda>m. mbind (cons m x) (\<lambda>p.
            fail (Throw cell_symbol_system_error p))))"

definition hash_c :: "addr \<Rightarrow> int \<Rightarrow> int mes" where
  "hash_c x sz =
     mbind (get_type x) (\<lambda>t.
     if t = TSTRING
     then mbind (get_cdr x) (\<lambda>str. mbind (cell_bytes str) (\<lambda>p. hash_cstring p sz))
     else ret 0)"

definition hashq :: "addr \<Rightarrow> addr \<Rightarrow> addr mes" where
  "hashq x sz = fail (Assert ''0'')"

definition hash_proc :: "addr \<Rightarrow> addr \<Rightarrow> addr mes" where
  "hash_proc x sz = fail (Assert ''0'')"

section \<open>Reading a table\<close>

definition acons :: "addr \<Rightarrow> addr \<Rightarrow> addr \<Rightarrow> addr mes" where
  "acons key value alist = mbind (cons key value) (\<lambda>p. cons p alist)"

definition hashq_get_handle :: "addr \<Rightarrow> addr \<Rightarrow> addr mes" where
  "hashq_get_handle table key =
     mbind (struct_ref_c table 3) (\<lambda>n.
     mbind (get_cdr n) (\<lambda>sz.
     mbind (hashq_c key sz) (\<lambda>h.
     mbind (struct_ref_c table 4) (\<lambda>buckets.
     mbind (vector_ref_c buckets (to_unsigned h)) (\<lambda>bucket.
     mbind (get_type bucket) (\<lambda>t.
     if t = TPAIR then assq key bucket else ret cell_f))))))"

definition hashq_ref_c :: "addr \<Rightarrow> addr \<Rightarrow> addr \<Rightarrow> addr mes" where
  "hashq_ref_c table key dflt =
     mbind (hashq_get_handle table key) (\<lambda>x.
     if x \<noteq> cell_f then get_cdr x else ret dflt)"

definition hash_ref_c :: "addr \<Rightarrow> addr \<Rightarrow> addr \<Rightarrow> addr mes" where
  "hash_ref_c table key dflt =
     mbind (struct_ref_c table 3) (\<lambda>n.
     mbind (get_cdr n) (\<lambda>sz.
     mbind (hash_c key sz) (\<lambda>h.
     mbind (struct_ref_c table 4) (\<lambda>buckets.
     mbind (vector_ref_c buckets (to_unsigned h)) (\<lambda>bucket.
     mbind (get_type bucket) (\<lambda>t.
     if t = TPAIR
     then mbind (assoc key bucket) (\<lambda>x. if x \<noteq> cell_f then get_cdr x else ret dflt)
     else ret dflt))))))"

section \<open>Changing a table\<close>

definition hash_set_x_c :: "addr \<Rightarrow> int \<Rightarrow> addr \<Rightarrow> addr \<Rightarrow> addr mes" where
  "hash_set_x_c table h key value =
     mbind (struct_ref_c table 4) (\<lambda>buckets.
     mbind (vector_ref_c buckets h) (\<lambda>bucket0.
     mbind (get_type bucket0) (\<lambda>t.
     mbind (acons key value (if t \<noteq> TPAIR then cell_nil else bucket0)) (\<lambda>bucket.
     mseq (vector_set_x_c buckets h bucket)
     (ret value)))))"

definition hashq_set_x :: "addr \<Rightarrow> addr \<Rightarrow> addr \<Rightarrow> addr mes" where
  "hashq_set_x table key value =
     mbind (struct_ref_c table 3) (\<lambda>n.
     mbind (get_cdr n) (\<lambda>sz.
     mbind (hashq_c key sz) (\<lambda>h.
     hash_set_x_c table (to_unsigned h) key value)))"

definition create_handle_x :: "addr \<Rightarrow> addr \<Rightarrow> int \<Rightarrow> addr \<Rightarrow> addr mes" where
  "create_handle_x table key index init =
     mbind (struct_ref_c table 4) (\<lambda>buckets.
     mbind (vector_ref_c buckets index) (\<lambda>bucket0.
     mbind (get_type bucket0) (\<lambda>t.
     let bucket = (if t \<noteq> TPAIR then cell_nil else bucket0) in
     mbind (assq key bucket) (\<lambda>handle.
     if handle = cell_f
     then mbind (cons key init) (\<lambda>handle'.
          mbind (cons handle' bucket) (\<lambda>bucket'.
          mseq (vector_set_x_c buckets index bucket')
          (ret handle')))
     else ret handle))))"

definition hashq_create_handle_x :: "addr \<Rightarrow> addr \<Rightarrow> addr \<Rightarrow> addr mes" where
  "hashq_create_handle_x table key init =
     mbind (struct_ref_c table 3) (\<lambda>n.
     mbind (get_cdr n) (\<lambda>sz.
     mbind (hashq_c key sz) (\<lambda>h.
     create_handle_x table key (to_unsigned h) init)))"

definition hash_create_handle_x :: "addr \<Rightarrow> addr \<Rightarrow> addr \<Rightarrow> addr mes" where
  "hash_create_handle_x table key init =
     mbind (struct_ref_c table 3) (\<lambda>n.
     mbind (get_cdr n) (\<lambda>sz.
     mbind (hash_c key sz) (\<lambda>h.
     create_handle_x table key (to_unsigned h) init)))"

definition hash_set_x :: "addr \<Rightarrow> addr \<Rightarrow> addr \<Rightarrow> addr mes" where
  "hash_set_x table key value =
     mbind (struct_ref_c table 3) (\<lambda>n.
     mbind (get_cdr n) (\<lambda>sz.
     mbind (hash_c key sz) (\<lambda>h.
     hash_set_x_c table (to_unsigned h) key value)))"

text \<open>The two loops of \<^verbatim>\<open>hash_remove_x\<close>: skip matching handles in front, unlink the others.\<close>

partial_function (option) skip_matching :: "addr \<Rightarrow> addr \<Rightarrow> addr mes" where
  "skip_matching key bucket s =
     (if bucket \<noteq> cell_nil
      then mbind (a_car (get_car bucket)) (\<lambda>k. mbind (equal2_p key k) (\<lambda>e.
             if e = cell_t
             then mbind (get_cdr bucket) (\<lambda>d. skip_matching key d)
             else ret bucket))
      else ret bucket) s"

partial_function (option) unlink_matching :: "addr \<Rightarrow> addr \<Rightarrow> addr \<Rightarrow> unit mes" where
  "unlink_matching key p b s =
     (if b \<noteq> cell_nil
      then mbind (a_car (get_car b)) (\<lambda>k. mbind (equal2_p key k) (\<lambda>e.
             if e = cell_t
             then mseq (mbind (get_cdr b) (set_cdr p))
                    (mbind (get_cdr b) (\<lambda>d. unlink_matching key p d))
             else mbind (get_cdr b) (\<lambda>d. unlink_matching key b d)))
      else ret ()) s"

definition hash_remove_x :: "addr \<Rightarrow> addr \<Rightarrow> addr mes" where
  "hash_remove_x table key =
     mbind (struct_ref_c table 3) (\<lambda>n.
     mbind (get_cdr n) (\<lambda>sz.
     mbind (hash_c key sz) (\<lambda>h.
     mbind (struct_ref_c table 4) (\<lambda>buckets.
     mbind (vector_ref_c buckets (to_unsigned h)) (\<lambda>bucket0.
     mbind (skip_matching key bucket0) (\<lambda>bucket.
     mseq (if bucket \<noteq> cell_nil
           then mbind (get_cdr bucket) (\<lambda>b. unlink_matching key bucket b)
           else ret ())
     (mseq (vector_set_x_c buckets (to_unsigned h) bucket)
     (ret cell_unspecified))))))))"

section \<open>Making tables\<close>

definition make_hash_table_type :: "addr mes" where
  "make_hash_table_type =
     mbind (gets hash_table_type) (\<lambda>h.
     if h = 0
     then mbind (cons cell_symbol_buckets cell_nil) (\<lambda>f1.
          mbind (cons cell_symbol_size f1) (\<lambda>f2.
          mbind (cons f2 cell_nil) (\<lambda>f3.
          mbind (cons cell_symbol_hashq_table f3) (\<lambda>f4.
          mbind (make_struct cell_symbol_record_type f4 cell_unspecified) (\<lambda>t.
          mseq (modify (\<lambda>s. s\<lparr>hash_table_type := t\<rparr>))
          (gets hash_table_type))))))
     else gets hash_table_type)"

definition make_hash_table_c :: "int \<Rightarrow> addr mes" where
  "make_hash_table_c size0 =
     (let sz = (if size0 = 0 then 100 else size0) in
      mbind make_hash_table_type (\<lambda>type.
      mbind (make_vector_c sz cell_unspecified) (\<lambda>buckets.
      mbind (cons buckets cell_nil) (\<lambda>v1.
      mbind (make_number sz) (\<lambda>n.
      mbind (cons n v1) (\<lambda>v2.
      mbind (cons cell_symbol_hashq_table v2) (\<lambda>v3.
      make_struct type v3 cell_unspecified)))))))"

definition hash_table_p :: "addr \<Rightarrow> addr mes" where
  "hash_table_p table =
     mbind (get_type table) (\<lambda>t.
     if t = TSTRUCT
     then mbind (struct_ref_c table 0) (\<lambda>e. mbind (gets hash_table_type) (\<lambda>h.
            ret (if e = h then cell_t else cell_f)))
     else ret cell_f)"

definition make_hash_table :: "addr \<Rightarrow> addr mes" where
  "make_hash_table x =
     mbind (get_type x) (\<lambda>t.
     if t = TPAIR
     then mbind (get_car x) (\<lambda>n. mseq (assert_number n) (mbind (get_cdr n) make_hash_table_c))
     else make_hash_table_c 0)"

definition hash_buckets :: "addr \<Rightarrow> addr mes" where
  "hash_buckets table = struct_ref_c table 4"

definition hash_clear_x :: "addr \<Rightarrow> addr mes" where
  "hash_clear_x table =
     mbind (struct_ref_c table 3) (\<lambda>n.
     mbind (get_cdr n) (\<lambda>sz.
     mbind (make_vector_c sz cell_unspecified) (\<lambda>buckets.
     mseq (struct_set_x_c table 4 buckets)
     (ret cell_unspecified))))"

section \<open>The symbol table\<close>

definition make_symbol :: "addr \<Rightarrow> addr mes" where
  "make_symbol str =
     mbind (get_car str) (\<lambda>len. mbind (get_cdr str) (\<lambda>p.
     mbind (make_pointer_cell TSYMBOL len p) (\<lambda>x.
     mseq (mbind (gets g_symbols) (\<lambda>table. hash_set_x table str x))
     (ret x))))"

definition string_to_symbol :: "addr \<Rightarrow> addr mes" where
  "string_to_symbol str =
     mbind (gets g_symbols) (\<lambda>table.
     mbind (hash_ref_c table str cell_f) (\<lambda>x.
     if x = cell_f then make_symbol str else ret x))"

definition cstring_to_symbol :: "byte list \<Rightarrow> addr mes" where
  "cstring_to_symbol str = mbind (make_string0 str) string_to_symbol"

definition init_symbol :: "addr \<Rightarrow> tag \<Rightarrow> byte list \<Rightarrow> addr mes" where
  "init_symbol x type name =
     mseq (set_type x type)
     (mbind (gets g_symbols) (\<lambda>table.
      mseq (if table = 0 then modify (\<lambda>s. s\<lparr>g_free := g_free s + 1\<rparr>)
            else mbind (make_string name (strlen name)) (\<lambda>str.
                 mseq (set_car x (strlen name))
                 (mseq (mbind (get_cdr str) (set_cdr x))
                 (mbind (hash_set_x table str x) (\<lambda>_. ret ())))))
      (mseq (modify (\<lambda>s. s\<lparr>g_symbol := g_symbol s + 1\<rparr>))
      (ret x))))"

definition init_symbols_c :: "unit mes" where
  "init_symbols_c =
     mseq (modify (\<lambda>s. s\<lparr>g_symbol := cell_nil\<rparr>))
     (mfor symbol_specs (\<lambda>(type, name).
        mbind (gets g_symbol) (\<lambda>x. mbind (init_symbol x type (cstring name)) (\<lambda>_. ret ()))))"

end
