(* ===== verification/Mes_Table.thy ===== *)
theory Mes_Table
  imports Mes_Hash
begin

text \<open>
  What the hash tables of hash.c promise for symbol keys, as \<^verbatim>\<open>g_macros\<close> and the module
  obarrays use them: \<^verbatim>\<open>hashq_set_x\<close> updates a finite map from symbols to values, and
  \<^verbatim>\<open>hashq_ref_\<close> looks it up. The abstract map of a table is \<open>dict_of\<close>.
\<close>

section \<open>The hash of a name\<close>

definition ascii :: "byte list \<Rightarrow> bool" where
  "ascii bs \<longleftrightarrow> (\<forall>b \<in> set bs. 0 \<le> sint b)"

definition hash_value :: "byte list \<Rightarrow> int \<Rightarrow> int" where
  "hash_value str n =
     (let h0 = char_at str 0 * 37;
          h = (if char_at str 0 \<noteq> 0 \<and> char_at str 1 \<noteq> 0 then h0 + char_at str 1 * 43 else h0)
      in to_int (h smod n))"

lemma hash_cstring_value: "n \<noteq> 0 \<Longrightarrow> hash_cstring str n s = Some (Inr (hash_value str n), s)"
  by (simp add: hash_cstring_def hash_value_def Let_def)

lemma ascii_char_at: "ascii bs \<Longrightarrow> 0 \<le> char_at (bs @ [0]) i"
  by (auto simp: char_at_def ascii_def nth_append)

lemma hash_value_range:
  assumes "ascii bs" "0 < n" "n < 2 ^ 31"
  shows "0 \<le> hash_value (bs @ [0]) n" "hash_value (bs @ [0]) n < n"
proof -
  let ?h = "if char_at (bs @ [0]) 0 \<noteq> 0 \<and> char_at (bs @ [0]) 1 \<noteq> 0
    then char_at (bs @ [0]) 0 * 37 + char_at (bs @ [0]) 1 * 43 else char_at (bs @ [0]) 0 * 37"
  have "0 \<le> ?h"
    using ascii_char_at [OF assms(1), of 0] ascii_char_at [OF assms(1), of 1] by simp
  then have "?h smod n = ?h mod n"
    using assms(2) by (intro smod_nonneg)
  moreover have "0 \<le> ?h mod n" "?h mod n < n"
    using assms(2) by simp_all
  ultimately have "hash_value (bs @ [0]) n = ?h mod n"
    using assms(3) by (simp add: hash_value_def Let_def to_int_id is_int_def)
  then show "0 \<le> hash_value (bs @ [0]) n" "hash_value (bs @ [0]) n < n"
    using \<open>0 \<le> ?h mod n\<close> \<open>?h mod n < n\<close> by simp_all
qed

lemma hash_value_unsigned:
  assumes "ascii bs" "0 < n" "n < 2 ^ 31"
  shows "to_unsigned (hash_value (bs @ [0]) n) = hash_value (bs @ [0]) n"
  using hash_value_range [OF assms] assms(3) by (intro to_unsigned_id) simp_all

section \<open>Tables in the heap\<close>

definition symbol_at :: "mst \<Rightarrow> addr \<Rightarrow> byte list \<Rightarrow> bool" where
  "symbol_at s k bs \<longleftrightarrow> (\<exists>c b. lookup s k = Some c \<and> (ctype c = TSYMBOL \<or> ctype c = TSPECIAL)
     \<and> lookup s (ccdr c) = Some b \<and> bytes s (ccdr c) = bs @ [0] \<and> ctype b \<noteq> TREF)"

definition bucket_at :: "mst \<Rightarrow> addr \<Rightarrow> addr list \<Rightarrow> bool" where
  "bucket_at s q hs \<longleftrightarrow>
     (if hs = [] then q = cell_unspecified \<and> (\<exists>c. lookup s q = Some c \<and> ctype c = TSPECIAL)
      else alist_at s q hs \<and> (\<forall>h \<in> set hs. \<exists>c. lookup s h = Some c \<and> ctype c = TPAIR))"

definition table_at :: "mst \<Rightarrow> addr \<Rightarrow> addr list \<Rightarrow> addr \<Rightarrow> addr \<Rightarrow> bool" where
  "table_at s tb qs bv w \<longleftrightarrow> (\<exists>v es. slots_at TSTRUCT s tb v es \<and> length es = 5
     \<and> es ! 3 = mk_cell TNUMBER 0 (int (length qs)) \<and> es ! 4 = mk_cell TREF bv 0
     \<and> slots_at TVECTOR s bv w (map (\<lambda>q. mk_cell TREF q 0) qs)
     \<and> \<not> (w \<le> tb \<and> tb < w + int (length qs))
     \<and> (v + 5 \<le> w \<or> w + int (length qs) \<le> v))"

definition dict_at :: "mst \<Rightarrow> addr \<Rightarrow> addr list list \<Rightarrow> bool" where
  "dict_at s tb hss \<longleftrightarrow> (\<exists>qs bv w. table_at s tb qs bv w \<and> length qs = length hss
     \<and> (\<forall>i < length hss. bucket_at s (qs ! i) (hss ! i)))"

text \<open>The map that a table stands for, on symbols \<open>k\<close> with name \<open>bs\<close>.\<close>

definition bucket_of :: "addr list list \<Rightarrow> byte list \<Rightarrow> addr list" where
  "bucket_of hss bs = hss ! nat (hash_value (bs @ [0]) (int (length hss)))"

definition dict_of :: "mst \<Rightarrow> addr list list \<Rightarrow> addr \<Rightarrow> byte list \<Rightarrow> addr option" where
  "dict_of s hss k bs = map_option (value_of s) (find (\<lambda>h. key_of s h = k) (bucket_of hss bs))"

section \<open>Changes outside the table\<close>

text \<open>
  \<open>keeps a s t\<close>: what was allocated in \<open>s\<close> is unchanged in \<open>t\<close>, but for the \<^verbatim>\<open>TREF\<close> cell at
  \<open>a\<close>, whose new contents are a \<^verbatim>\<open>TREF\<close> again.
\<close>

definition keeps :: "addr \<Rightarrow> mst \<Rightarrow> mst \<Rightarrow> bool" where
  "keeps a s t \<longleftrightarrow> g_free s \<le> g_free t
     \<and> (\<forall>x < g_free s. x \<noteq> a \<longrightarrow> heap t x = heap s x) \<and> (\<forall>x < g_free s. bytes t x = bytes s x)
     \<and> (\<forall>c. lookup s a = Some c \<longrightarrow> ctype c = TREF)"

lemma keeps_lookup: "keeps a s t \<Longrightarrow> lookup s x = Some c \<Longrightarrow> ctype c \<noteq> TREF \<Longrightarrow> lookup t x = Some c"
  by (force simp: keeps_def)

lemma keeps_symbol_at: "keeps a s t \<Longrightarrow> symbol_at s k bs \<Longrightarrow> symbol_at t k bs"
  unfolding symbol_at_def
  by (elim exE conjE, intro exI conjI) (auto dest: keeps_lookup simp: keeps_def)

lemma keeps_list_at: "keeps a s t \<Longrightarrow> list_at s p xs \<Longrightarrow> list_at t p xs"
proof (induction xs arbitrary: p)
  case (Cons x xs)
  then obtain c where "p \<noteq> cell_nil" "lookup s p = Some c" "ctype c = TPAIR" "ccar c = x"
    "list_at s (ccdr c) xs" by (auto simp: list_at_Cons)
  with Cons keeps_lookup [OF Cons.prems(1), of p c] show ?case
    by (auto simp: list_at_Cons)
qed simp

lemma keeps_bucket_at:
  assumes "keeps a s t" "bucket_at s q hs"
  shows "bucket_at t q hs" "\<forall>h \<in> set hs. key_of t h = key_of s h \<and> value_of t h = value_of s h"
proof -
  have "\<exists>c. lookup s h = Some c \<and> lookup t h = Some c \<and> ctype c = TPAIR" if "h \<in> set hs" for h
    using assms that keeps_lookup [OF assms(1), of h]
    by (cases "hs = []") (fastforce simp: bucket_at_def simp del: lookup_Some)+
  note h = this
  then show "\<forall>h \<in> set hs. key_of t h = key_of s h \<and> value_of t h = value_of s h"
    by (fastforce simp: key_of_def value_of_def)
  show "bucket_at t q hs"
  proof (cases "hs = []")
    case True
    then show ?thesis
      using assms keeps_lookup [OF assms(1), of q] by (auto simp: bucket_at_def simp del: lookup_Some)
  next
    case False
    have "alist_at t q hs"
      using assms False h keeps_list_at [OF assms(1)]
      by (fastforce simp: bucket_at_def alist_at_def simp del: lookup_Some)
    with False h show ?thesis by (fastforce simp: bucket_at_def simp del: lookup_Some)
  qed
qed

lemma extends_keeps: "extends s t \<Longrightarrow> g_free s \<le> a \<Longrightarrow> keeps a s t"
  by (auto simp: keeps_def extends_def)

lemma extends_bucket_at:
  assumes "extends s t" "bucket_at s q hs"
  shows "bucket_at t q hs" "\<forall>h \<in> set hs. key_of t h = key_of s h \<and> value_of t h = value_of s h"
  using keeps_bucket_at [OF extends_keeps [OF assms(1) order_refl] assms(2)] by blast+

lemma extends_table_at: "extends s t \<Longrightarrow> table_at s tb qs bv w \<Longrightarrow> table_at t tb qs bv w"
  unfolding table_at_def using slots_at_extends by blast

lemma extends_symbol_at: "extends s t \<Longrightarrow> symbol_at s k bs \<Longrightarrow> symbol_at t k bs"
  by (rule keeps_symbol_at [OF extends_keeps [OF _ order_refl]])

lemma specials_ok_keeps:
  assumes "keeps a s t" "specials_ok s"
  shows "specials_ok t"
  unfolding specials_ok_def
proof (intro allI impI)
  fix x assume "cell_nil \<le> x \<and> x \<le> cell_vm_return"
  then obtain c where "lookup s x = Some c" "ctype c = TSPECIAL"
    using specials_okD [OF assms(2)] by blast
  then show "\<exists>c. lookup t x = Some c \<and> ctype c = TSPECIAL"
    using keeps_lookup [OF assms(1), of x c] by (auto simp del: lookup_Some)
qed

section \<open>Finding the bucket\<close>

lemma table_size:
  assumes "table_at s tb qs bv w" "arena_ok s" "room 1 s"
  obtains n t where "struct_ref_c tb 3 s = Some (Inr n, t)" and "grows 1 s t"
    and "get_cdr n t = Some (Inr (int (length qs)), t)"
proof -
  obtain v es where es: "slots_at TSTRUCT s tb v es" "length es = 5"
    "es ! 3 = mk_cell TNUMBER 0 (int (length qs))"
    using assms(1) by (auto simp: table_at_def)
  have "struct_ref_c tb (int 3) s = Some (Inr (g_free s), push_cell (mk_cell TNUMBER 0 (int (length qs))) s)"
    using struct.ref_immediate [OF es(1), of 3 0 "mk_cell TNUMBER 0 (int (length qs))"] es assms(2,3)
    by (simp add: entry_for_def entry_cell_def immediate_def)
  then show ?thesis
    using that [OF _ grows_push_cell [OF assms(2)]] by simp
qed

lemma table_buckets:
  assumes "table_at s tb qs bv w"
  shows "struct_ref_c tb 4 s = Some (Inr bv, s)"
proof -
  obtain v es where es: "slots_at TSTRUCT s tb v es" "length es = 5" "es ! 4 = mk_cell TREF bv 0"
    "slots_at TVECTOR s bv w (map (\<lambda>q. mk_cell TREF q 0) qs)"
    using assms by (auto simp: table_at_def)
  have "lookup s bv = Some (mk_cell TVECTOR (int (length qs)) w)"
    using es(4) by (simp add: slots_at_def)
  then show ?thesis
    using struct.ref_object [OF es(1), of 4 bv "mk_cell TVECTOR (int (length qs)) w"] es(2,3)
    by (simp add: entry_for_def entry_cell_def immediate_def)
qed

lemma bucket_type:
  assumes "bucket_at s q hs"
  obtains c where "lookup s q = Some c" and "hs = [] \<Longrightarrow> ctype c = TSPECIAL"
    and "hs \<noteq> [] \<Longrightarrow> ctype c = TPAIR"
  using assms by (cases hs) (auto simp: bucket_at_def alist_at_Cons)

lemma table_bucket:
  assumes "table_at s tb qs bv w" "i < length qs" "bucket_at s (qs ! i) hs"
  shows "vector_ref_c bv (int i) s = Some (Inr (qs ! i), s)"
proof -
  obtain c where c: "lookup s (qs ! i) = Some c" "ctype c = TSPECIAL \<or> ctype c = TPAIR"
    using assms(3) by (rule bucket_type) auto
  have "slots_at TVECTOR s bv w (map (\<lambda>q. mk_cell TREF q 0) qs)"
    using assms(1) by (auto simp: table_at_def)
  then show ?thesis
    using assms(2) c
    by (intro vec.ref_object [where c = c]) (auto simp: entry_for_def entry_cell_def immediate_def)
qed

lemma hashq_c_symbol:
  assumes "symbol_at s k bs" "n \<noteq> 0"
  shows "hashq_c k n s = Some (Inr (hash_value (bs @ [0]) n), s)"
  using assms by (auto simp: hashq_c_def symbol_at_def hash_cstring_value)

section \<open>Lookup\<close>

lemma hashq_get_handle_ok:
  assumes "dict_at s tb hss" "symbol_at s k bs" "ascii bs" "arena_ok s" "room 1 s"
    and "0 < length hss" "length hss < 2 ^ 31"
  obtains t where "hashq_get_handle tb k s
      = Some (Inr (case find (\<lambda>h. key_of s h = k) (bucket_of hss bs) of None \<Rightarrow> cell_f | Some h \<Rightarrow> h), t)"
    and "grows 1 s t"
proof -
  obtain qs bv w where q: "table_at s tb qs bv w" "length qs = length hss"
    "\<And>i. i < length hss \<Longrightarrow> bucket_at s (qs ! i) (hss ! i)"
    using assms(1) by (auto simp: dict_at_def)
  let ?n = "int (length hss)"
  let ?h = "hash_value (bs @ [0]) ?n"
  have h: "0 \<le> ?h" "?h < ?n" "to_unsigned ?h = ?h"
    using hash_value_range [OF assms(3), of ?n] hash_value_unsigned [OF assms(3), of ?n] assms(6,7)
    by auto
  define i where "i = nat ?h"
  have i: "i < length hss" "?h = int i"
    using h by (auto simp: i_def)
  obtain n t where n: "struct_ref_c tb 3 s = Some (Inr n, t)" "grows 1 s t"
    "get_cdr n t = Some (Inr (int (length qs)), t)"
    by (rule table_size [OF q(1) assms(4,5)])
  note ext = growsD(1) [OF n(2)]
  have bt: "bucket_at t (qs ! i) (hss ! i)"
    and keys: "\<forall>h \<in> set (hss ! i). key_of t h = key_of s h \<and> value_of t h = value_of s h"
    using extends_bucket_at [OF ext q(3) [OF i(1)]] by blast+
  obtain c where c: "lookup t (qs ! i) = Some c" "hss ! i = [] \<Longrightarrow> ctype c = TSPECIAL"
    "hss ! i \<noteq> [] \<Longrightarrow> ctype c = TPAIR"
    by (rule bucket_type [OF bt]) blast
  have "symbol_at t k bs"
    by (rule extends_symbol_at [OF ext assms(2)])
  then obtain ck where ck: "heap t k = Some ck" "ctype ck = TSYMBOL \<or> ctype ck = TSPECIAL"
    and hk: "hashq_c k ?n t = Some (Inr ?h, t)"
    using hashq_c_symbol [of t k bs ?n] assms(6) by (auto simp: symbol_at_def)
  have tt: "table_at t tb qs bv w"
    by (rule extends_table_at [OF ext q(1)])
  have find_eq: "find (\<lambda>h. key_of t h = k) (hss ! i) = find (\<lambda>h. key_of s h = k) (hss ! i)"
    using keys by (intro find_cong) auto
  have "hashq_get_handle tb k s = Some (Inr (case find (\<lambda>h. key_of s h = k) (hss ! i)
      of None \<Rightarrow> cell_f | Some h \<Rightarrow> h), t)"
  proof (cases "hss ! i = []")
    case True
    then show ?thesis
      using n c hk h(3) table_buckets [OF tt] table_bucket [OF tt _ bt] i q(2)
      by (simp add: hashq_get_handle_def)
  next
    case False
    then have "alist_at t (qs ! i) (hss ! i)"
      using bt by (simp add: bucket_at_def)
    then have "assq k (qs ! i) t = Some (Inr (assq_symbol_result t k (hss ! i)), t)"
      by (rule assq_symbol_correct [OF _ _ ck])
        (use c False \<open>alist_at t (qs ! i) (hss ! i)\<close> in \<open>auto simp: alist_at_def\<close>)
    then show ?thesis
      using False n c hk h(3) table_buckets [OF tt] table_bucket [OF tt _ bt] i q(2)
      by (simp add: hashq_get_handle_def assq_symbol_result_def find_eq)
  qed
  with that n(2) show ?thesis
    by (simp add: bucket_of_def i_def)
qed

lemma handle_not_f:
  assumes "bucket_at s q hs" "find P hs = Some h" "specials_ok s"
  shows "h \<noteq> cell_f" "\<exists>c. lookup s h = Some c"
proof -
  have "h \<in> set hs"
    using assms(2) by (auto simp: find_Some_iff)
  then obtain c where "lookup s h = Some c" "ctype c = TPAIR"
    using assms(1) by (cases "hs = []") (auto simp: bucket_at_def)
  then show "h \<noteq> cell_f" "\<exists>c. lookup s h = Some c"
    using specials_ok_f [OF assms(3)] by force+
qed

lemma hashq_ref_c_ok:
  assumes "dict_at s tb hss" "symbol_at s k bs" "ascii bs" "arena_ok s" "room 1 s"
    and "0 < length hss" "length hss < 2 ^ 31"
    and "specials_ok s"
  obtains t where "hashq_ref_c tb k dflt s
      = Some (Inr (case dict_of s hss k bs of None \<Rightarrow> dflt | Some v \<Rightarrow> v), t)"
    and "grows 1 s t"
proof -
  obtain t where t: "hashq_get_handle tb k s
      = Some (Inr (case find (\<lambda>h. key_of s h = k) (bucket_of hss bs) of None \<Rightarrow> cell_f | Some h \<Rightarrow> h), t)"
    "grows 1 s t"
    by (rule hashq_get_handle_ok [OF assms(1-7)])
  have "bucket_at s (q ! nat (hash_value (bs @ [0]) (int (length hss)))) (bucket_of hss bs)"
    if "\<forall>i < length hss. bucket_at s (q ! i) (hss ! i)" for q
    using that hash_value_range [OF assms(3), of "int (length hss)"] assms(6,7)
    by (auto simp: bucket_of_def nat_less_iff)
  then obtain q where q: "bucket_at s q (bucket_of hss bs)"
    using assms(1) by (auto simp: dict_at_def)
  have "hashq_ref_c tb k dflt s = Some (Inr (case dict_of s hss k bs of None \<Rightarrow> dflt | Some v \<Rightarrow> v), t)"
  proof (cases "find (\<lambda>h. key_of s h = k) (bucket_of hss bs)")
    case None
    then show ?thesis using t by (simp add: hashq_ref_c_def dict_of_def)
  next
    case (Some h)
    obtain c where "h \<noteq> cell_f" "lookup s h = Some c"
      using handle_not_f [OF q Some assms(8)] by blast
    moreover have "heap t h = heap s h"
      using growsD(1) [OF t(2)] \<open>lookup s h = Some c\<close> by (simp add: extends_def)
    ultimately show ?thesis
      using Some t by (simp add: hashq_ref_c_def dict_of_def value_of_def)
  qed
  with that t(2) show ?thesis by blast
qed


section \<open>Update\<close>

lemma acons_ok:
  assumes "arena_ok s" "room 2 s"
  shows "acons k v p s = Some (Inr (g_free s + 1),
    push_cell (mk_cell TPAIR (g_free s) p) (push_cell (mk_cell TPAIR k v) s))"
proof -
  have "room 1 s" using assms(2) by (simp add: room_def)
  then show ?thesis
    using assms by (simp add: acons_def)
qed

text \<open>Replacing one bucket of a table.\<close>

lemma table_at_put:
  assumes "table_at s tb qs bv w" "i < length qs" and t: "t = s\<lparr>heap := (heap s)(w + int i \<mapsto> mk_cell TREF q 0)\<rparr>"
  shows "table_at t tb (qs[i := q]) bv w"
proof -
  obtain v es where es: "slots_at TSTRUCT s tb v es" "length es = 5"
    "es ! 3 = mk_cell TNUMBER 0 (int (length qs))" "es ! 4 = mk_cell TREF bv 0"
    "slots_at TVECTOR s bv w (map (\<lambda>q. mk_cell TREF q 0) qs)"
    "\<not> (w \<le> tb \<and> tb < w + int (length qs))" "v + 5 \<le> w \<or> w + int (length qs) \<le> v"
    using assms(1) by (auto simp: table_at_def)
  have "slots_at TVECTOR t bv w ((map (\<lambda>q. mk_cell TREF q 0) qs)[i := mk_cell TREF q 0])"
    by (rule slots_at_update [OF es(5) _ t]) (use assms(2) in simp)
  moreover have "slots_at TSTRUCT t tb v es"
    using es(1,2,6,7) assms(2) t by (auto simp: slots_at_def)
  ultimately show ?thesis
    using es by (auto simp: table_at_def map_update)
qed

text \<open>\<open>hash_set_x_\<close> puts a new handle in front of a bucket.\<close>

lemma hash_set_x_c_ok:
  assumes d: "dict_at s tb hss" and i: "i < length hss" and ar: "arena_ok s" and rm: "room 3 s"
    and sp: "specials_ok s"
  obtains t h where "hash_set_x_c tb (int i) k v s = Some (Inr v, t)"
    and "dict_at t tb (hss[i := h # hss ! i])" and "key_of t h = k" and "value_of t h = v"
    and "\<forall>j < length hss. \<forall>g \<in> set (hss ! j). key_of t g = key_of s g \<and> value_of t g = value_of s g"
    and "\<exists>a. keeps a s t" and "arena_ok t" and "g_free t \<le> g_free s + 3"
    and "ARENA_SIZE t = ARENA_SIZE s" and "g_cells t = g_cells s"
    and "g_symbols t = g_symbols s" and "MAX_STRING t = MAX_STRING s"
proof -
  obtain qs bv w where q: "table_at s tb qs bv w" "length qs = length hss"
    "\<And>j. j < length hss \<Longrightarrow> bucket_at s (qs ! j) (hss ! j)"
    using d by (auto simp: dict_at_def)
  have bi: "bucket_at s (qs ! i) (hss ! i)"
    by (rule q(3) [OF i])
  obtain c where c: "lookup s (qs ! i) = Some c" "hss ! i = [] \<Longrightarrow> ctype c = TSPECIAL"
    "hss ! i \<noteq> [] \<Longrightarrow> ctype c = TPAIR"
    by (rule bucket_type [OF bi]) blast
  define p where "p = (if ctype c \<noteq> TPAIR then cell_nil else qs ! i)"
  have p: "alist_at s p (hss ! i)"
    using bi c by (cases "hss ! i = []") (auto simp: p_def bucket_at_def)
  define h where "h = g_free s"
  define u where "u = push_cell (mk_cell TPAIR h p) (push_cell (mk_cell TPAIR k v) s)"
  define b where "b = g_free s + 1"
  have rm2: "room 2 s" "room 1 u" using rm by (simp_all add: room_def u_def)
  have au: "arena_ok u" using ar by (simp add: u_def)
  have ext: "extends s u"
    unfolding u_def by (rule extends_trans [OF extends_push_cell extends_push_cell])
  have ac: "acons k v p s = Some (Inr b, u)"
    using acons_ok [OF ar rm2(1)] by (simp add: u_def h_def b_def)
  have bu: "lookup u b = Some (mk_cell TPAIR h p)" "lookup u h = Some (mk_cell TPAIR k v)"
    by (simp_all add: u_def b_def h_def)
  have tu: "table_at u tb qs bv w"
    by (rule extends_table_at [OF ext q(1)])
  then have sl: "slots_at TVECTOR u bv w (map (\<lambda>q. mk_cell TREF q 0) qs)"
    by (auto simp: table_at_def)
  define r where "r = g_free u"
  define u' where "u' = push_cell (mk_cell TREF b 0) u"
  have ve: "vector_entry b u = Some (Inr r, u')"
    using bu au rm2(2) by (auto simp: vector_entry_def r_def u'_def)
  define t where "t = u'\<lparr>heap := (heap u')(w + int i \<mapsto> mk_cell TREF b 0)\<rparr>"
  have iw: "lookup u (w + int i) = Some (mk_cell TREF (qs ! i) 0)"
    using sl i q(2) by (simp add: slots_at_def)
  have ext': "extends u u'" by (simp add: u'_def)
  have iw': "lookup u' (w + int i) = Some (mk_cell TREF (qs ! i) 0)"
    by (rule extends_lookup [OF ext' iw])
  have vs: "vector_set_x_c bv (int i) b u = Some (Inr cell_unspecified, t)"
    using vec.set_in_bounds [of u bv "int (length qs)" w "int i" b] sl i q(2) ve iw'
    by (simp add: slots_at_def t_def u'_def r_def)
  have run: "hash_set_x_c tb (int i) k v s = Some (Inr v, t)"
    using table_buckets [OF q(1)] table_bucket [OF q(1) _ bi] i q(2) c ac vs
    by (simp add: hash_set_x_c_def p_def)
  have k1: "keeps (w + int i) u' t"
    using iw' by (auto simp: keeps_def t_def)
  have bucket_u': "bucket_at u' (qs ! j) (hss ! j)" if "j < length hss" for j
    using extends_bucket_at(1) [OF extends_trans [OF ext ext'] q(3) [OF that]] .
  have bucket_t: "bucket_at t (qs ! j) (hss ! j)" if "j < length hss" for j
    using keeps_bucket_at(1) [OF k1 bucket_u' [OF that]] .
  have pair_t: "lookup t x = Some d" if "lookup u x = Some d" "ctype d \<noteq> TREF" for x d
    using keeps_lookup [OF k1 extends_lookup [OF ext' that(1)] that(2)] .
  have alist_t: "alist_at t p (hss ! i)"
  proof -
    have "list_at t p (hss ! i)"
      using keeps_list_at [OF k1 list_at_extends [OF extends_trans [OF ext ext']]] p
      by (simp add: alist_at_def)
    moreover have "\<forall>g \<in> set (hss ! i). lookup t g \<noteq> None"
      using bucket_t [OF i] by (cases "hss ! i = []") (fastforce simp: bucket_at_def)+
    ultimately show ?thesis by (simp add: alist_at_def)
  qed
  have hb: "lookup t b = Some (mk_cell TPAIR h p)" "lookup t h = Some (mk_cell TPAIR k v)"
    using pair_t bu by simp_all
  have "b \<noteq> cell_nil"
    using specials_ok_nil [OF sp] by (simp add: b_def)
  then have bucket_b: "bucket_at t b (h # hss ! i)"
    using hb alist_t bucket_t [OF i]
    by (cases "hss ! i = []") (auto simp: bucket_at_def alist_at_Cons)
  have "table_at t tb (qs[i := b]) bv w"
    by (rule table_at_put [OF extends_table_at [OF extends_trans [OF ext ext'] q(1)] _ t_def])
      (use i q(2) in simp)
  moreover have "bucket_at t (qs[i := b] ! j) (hss[i := h # hss ! i] ! j)" if "j < length hss" for j
    using that bucket_b bucket_t i q(2) by (cases "j = i") auto
  ultimately have dict: "dict_at t tb (hss[i := h # hss ! i])"
    unfolding dict_at_def using q(2) by (intro exI [of _ "qs[i := b]"] exI [of _ bv] exI [of _ w]) simp
  have keys: "\<forall>j < length hss. \<forall>g \<in> set (hss ! j). key_of t g = key_of s g \<and> value_of t g = value_of s g"
    using keeps_bucket_at(2) [OF k1 bucket_u'] extends_bucket_at(2) [OF extends_trans [OF ext ext'] q(3)]
    by simp
  have keep: "\<exists>a. keeps a s t"
  proof (intro exI [of _ "w + int i"])
    have "lookup s (w + int i) = Some (mk_cell TREF (qs ! i) 0)"
      using q(1,2) i by (auto simp: table_at_def slots_at_def)
    then show "keeps (w + int i) s t"
      by (auto simp: keeps_def t_def u'_def u_def)
  qed
  show ?thesis
  proof (rule that [OF run dict])
    show "key_of t h = k" "value_of t h = v"
      using hb by (simp_all add: key_of_def value_of_def)
    show "arena_ok t"
      using au iw' by (auto simp: t_def u'_def arena_ok_def)
    show "g_free t \<le> g_free s + 3"
      by (simp add: t_def u'_def u_def)
    show "ARENA_SIZE t = ARENA_SIZE s" "g_cells t = g_cells s" "g_symbols t = g_symbols s" "MAX_STRING t = MAX_STRING s"
      by (simp_all add: t_def u'_def u_def)
  qed (use keys keep in auto)
qed


section \<open>A dictionary\<close>

text \<open>
  \<open>ready n s\<close>: the arena has room for \<open>n\<close> more cells and the special cells are in place.
\<close>

definition ready :: "int \<Rightarrow> mst \<Rightarrow> bool" where
  "ready n s \<longleftrightarrow> arena_ok s \<and> specials_ok s \<and> room n s"

lemma ready_mono: "ready n s \<Longrightarrow> m \<le> n \<Longrightarrow> ready m s"
  by (auto simp: ready_def intro: room_mono)

lemma grows_ready: "grows n s t \<Longrightarrow> ready (n + m) s \<Longrightarrow> ready m t"
  by (auto simp: ready_def intro: growsD grows_room specials_ok_extends)

text \<open>
  The contract of a dictionary with symbols as keys, as the module system and the macro table
  rely on it: a reference gives what the map \<open>m\<close> says, an assignment updates it. \<open>names\<close> are
  the symbols in use and their names; each operation may use up some cells.
\<close>

locale dictionary =
  fixes inv :: "mst \<Rightarrow> addr \<Rightarrow> (addr \<rightharpoonup> byte list) \<Rightarrow> (addr \<rightharpoonup> addr) \<Rightarrow> bool"
    and ref_op :: "addr \<Rightarrow> addr \<Rightarrow> addr \<Rightarrow> addr mes"
    and set_op :: "addr \<Rightarrow> addr \<Rightarrow> addr \<Rightarrow> addr mes"
    and cost :: int
  assumes cost_nonneg: "0 \<le> cost"
    and ref_law: "inv s tb names m \<Longrightarrow> names k = Some bs \<Longrightarrow> ready (cost + n) s \<Longrightarrow> 0 \<le> n \<Longrightarrow>
      \<exists>t. ref_op tb k d s = Some (Inr (case m k of None \<Rightarrow> d | Some v \<Rightarrow> v), t)
        \<and> inv t tb names m \<and> ready n t"
    and set_law: "inv s tb names m \<Longrightarrow> names k = Some bs \<Longrightarrow> ready (cost + n) s \<Longrightarrow> 0 \<le> n \<Longrightarrow>
      \<exists>t. set_op tb k v s = Some (Inr v, t) \<and> inv t tb names (m(k \<mapsto> v)) \<and> ready n t"
begin

definition set_all :: "addr \<Rightarrow> (addr \<times> addr) list \<Rightarrow> unit mes" where
  "set_all tb kvs = mfor kvs (\<lambda>(k, v). mbind (set_op tb k v) (\<lambda>_. ret ()))"

lemma set_all_law:
  assumes "inv s tb names m" "\<forall>(k, v) \<in> set kvs. names k \<noteq> None"
    and "ready (cost * int (length kvs) + n) s" "0 \<le> n"
  shows "\<exists>t. set_all tb kvs s = Some (Inr (), t)
     \<and> inv t tb names (m ++ map_of (rev kvs)) \<and> ready n t"
  using assms
proof (induction kvs arbitrary: s m)
  case Nil
  then show ?case by (simp add: set_all_def)
next
  case (Cons kv kvs)
  obtain k v where kv: "kv = (k, v)" by force
  with Cons.prems(2) obtain bs where "names k = Some bs" by auto
  moreover have "ready (cost + (cost * int (length kvs) + n)) s"
    using Cons.prems(3) by (simp add: algebra_simps)
  ultimately obtain u where u: "set_op tb k v s = Some (Inr v, u)" "inv u tb names (m(k \<mapsto> v))"
    "ready (cost * int (length kvs) + n) u"
    using set_law [OF Cons.prems(1), of k bs "cost * int (length kvs) + n" v] Cons.prems(4) cost_nonneg
    by auto
  have "\<exists>t. set_all tb kvs u = Some (Inr (), t)
     \<and> inv t tb names (m(k \<mapsto> v) ++ map_of (rev kvs)) \<and> ready n t"
    by (rule Cons.IH [OF u(2) _ u(3) Cons.prems(4)]) (use Cons.prems(2) in simp)
  then obtain t where "set_all tb kvs u = Some (Inr (), t)"
    "inv t tb names (m(k \<mapsto> v) ++ map_of (rev kvs))" "ready n t"
    by blast
  moreover have "set_all tb (kv # kvs) s = set_all tb kvs u"
    using u(1) by (simp add: set_all_def kv)
  moreover have "m(k \<mapsto> v) ++ map_of (rev kvs) = m ++ map_of (rev (kv # kvs))"
    by (rule HOL.ext) (simp add: kv map_add_def map_of_append split: option.splits)
  ultimately show ?case
    by metis
qed

text \<open>After any sequence of assignments a reference gives the last value assigned to the key.\<close>

lemma last_assignment:
  assumes "inv s tb names m" "\<forall>(k, v) \<in> set kvs. names k \<noteq> None" "names k = Some bs"
    and "ready (cost * (int (length kvs) + 1)) s"
  shows "\<exists>t u. set_all tb kvs s = Some (Inr (), t)
     \<and> ref_op tb k d t = Some (Inr (case (m ++ map_of (rev kvs)) k of None \<Rightarrow> d | Some v \<Rightarrow> v), u)"
proof -
  have "ready (cost * int (length kvs) + cost) s"
    using assms(4) by (simp add: algebra_simps)
  then obtain t where "set_all tb kvs s = Some (Inr (), t)"
    "inv t tb names (m ++ map_of (rev kvs))" "ready (cost + 0) t"
    using set_all_law [OF assms(1,2), of cost] cost_nonneg by auto
  then show ?thesis
    using ref_law [of t tb names "m ++ map_of (rev kvs)" k bs 0 d] assms(3) by auto
qed

end

section \<open>Hash tables are dictionaries\<close>

definition hash_dict :: "mst \<Rightarrow> addr \<Rightarrow> (addr \<rightharpoonup> byte list) \<Rightarrow> (addr \<rightharpoonup> addr) \<Rightarrow> bool" where
  "hash_dict s tb names m \<longleftrightarrow> (\<exists>hss. dict_at s tb hss \<and> 0 < length hss \<and> length hss < 2 ^ 31
     \<and> (\<forall>k bs. names k = Some bs \<longrightarrow> symbol_at s k bs \<and> ascii bs \<and> dict_of s hss k bs = m k))"

lemma map_find_cong:
  "(\<And>x. x \<in> set xs \<Longrightarrow> f x = g x) \<Longrightarrow> map_option f (find P xs) = map_option g (find P xs)"
  by (induction xs) auto

lemma bucket_index:
  assumes "ascii bs" "0 < length hss" "length hss < 2 ^ 31"
  shows "nat (hash_value (bs @ [0]) (int (length hss))) < length hss"
  using hash_value_range [OF assms(1), of "int (length hss)"] assms(2,3) by auto

lemma dict_at_extends:
  assumes "extends s t" "dict_at s tb hss"
  shows "dict_at t tb hss"
proof -
  obtain qs bv w where q: "table_at s tb qs bv w" "length qs = length hss"
    "\<And>j. j < length hss \<Longrightarrow> bucket_at s (qs ! j) (hss ! j)"
    using assms(2) by (auto simp: dict_at_def)
  then show ?thesis
    unfolding dict_at_def
    using extends_table_at [OF assms(1) q(1)] extends_bucket_at(1) [OF assms(1) q(3)] by metis
qed

lemma dict_of_extends:
  assumes "extends s t" "dict_at s tb hss" "ascii bs" "0 < length hss" "length hss < 2 ^ 31"
  shows "dict_of t hss k bs = dict_of s hss k bs"
proof -
  obtain q where "bucket_at s q (bucket_of hss bs)"
    using assms(2) bucket_index [OF assms(3-5)] by (auto simp: dict_at_def bucket_of_def)
  then have keys: "\<forall>h \<in> set (bucket_of hss bs). key_of t h = key_of s h \<and> value_of t h = value_of s h"
    by (rule extends_bucket_at(2) [OF assms(1)])
  then have "find (\<lambda>h. key_of t h = k) (bucket_of hss bs) = find (\<lambda>h. key_of s h = k) (bucket_of hss bs)"
    by (intro find_cong) auto
  then show ?thesis
    using map_find_cong [of "bucket_of hss bs" "value_of t" "value_of s" "\<lambda>h. key_of s h = k"] keys
    by (simp add: dict_of_def)
qed

lemma hash_dict_extends:
  assumes "extends s t" "hash_dict s tb names m"
  shows "hash_dict t tb names m"
proof -
  obtain hss where h: "dict_at s tb hss" "0 < length hss" "length hss < 2 ^ 31"
    "\<And>k bs. names k = Some bs \<Longrightarrow> symbol_at s k bs \<and> ascii bs \<and> dict_of s hss k bs = m k"
    using assms(2) by (auto simp: hash_dict_def)
  then show ?thesis
    unfolding hash_dict_def
    by (intro exI [of _ hss]) (auto simp: dict_at_extends [OF assms(1)] extends_symbol_at [OF assms(1)]
        dict_of_extends [OF assms(1) h(1)])
qed

lemma hashq_ref_refines:
  assumes "hash_dict s tb names m" "names k = Some bs" "ready (1 + n) s" "0 \<le> n"
  shows "\<exists>t. hashq_ref_c tb k d s = Some (Inr (case m k of None \<Rightarrow> d | Some v \<Rightarrow> v), t)
     \<and> hash_dict t tb names m \<and> ready n t \<and> grows 1 s t"
proof -
  obtain hss where h: "dict_at s tb hss" "0 < length hss" "length hss < 2 ^ 31"
    "symbol_at s k bs" "ascii bs" "dict_of s hss k bs = m k"
    using assms(1,2) by (auto simp: hash_dict_def)
  have r: "arena_ok s" "room 1 s" "specials_ok s"
    using assms(3,4) by (auto simp: ready_def room_def)
  obtain t where "hashq_ref_c tb k d s = Some (Inr (case m k of None \<Rightarrow> d | Some v \<Rightarrow> v), t)" "grows 1 s t"
    using hashq_ref_c_ok [OF h(1,4,5) r(1,2) h(2,3) r(3), of d] h(6) by metis
  then show ?thesis
    using hash_dict_extends [OF growsD(1) assms(1)] grows_ready [OF _ assms(3)] by blast
qed

lemma hashq_set_refines:
  assumes "hash_dict s tb names m" "names k = Some bs" "ready (4 + n) s" "0 \<le> n"
  shows "\<exists>t. hashq_set_x tb k v s = Some (Inr v, t) \<and> hash_dict t tb names (m(k \<mapsto> v)) \<and> ready n t"
proof -
  obtain hss where h: "dict_at s tb hss" "0 < length hss" "length hss < 2 ^ 31"
    "symbol_at s k bs" "ascii bs"
    and all: "\<And>k bs. names k = Some bs \<Longrightarrow> symbol_at s k bs \<and> ascii bs \<and> dict_of s hss k bs = m k"
    using assms(1,2) by (auto simp: hash_dict_def)
  have r: "arena_ok s" "room 4 s" "room 1 s" "specials_ok s"
    using assms(3,4) by (auto simp: ready_def room_def)
  obtain qs bv w where q: "table_at s tb qs bv w" "length qs = length hss"
    using h(1) by (auto simp: dict_at_def)
  obtain c u where n: "struct_ref_c tb 3 s = Some (Inr c, u)" "grows 1 s u"
    "get_cdr c u = Some (Inr (int (length qs)), u)"
    by (rule table_size [OF q(1) r(1,3)])
  note ext = growsD(1) [OF n(2)]
  define i where "i = nat (hash_value (bs @ [0]) (int (length hss)))"
  have i: "i < length hss"
    unfolding i_def by (rule bucket_index [OF h(5,2,3)])
  have hv: "to_unsigned (hash_value (bs @ [0]) (int (length hss))) = int i"
    using hash_value_unsigned [OF h(5), of "int (length hss)"]
      hash_value_range [OF h(5), of "int (length hss)"] h(2,3)
    by (simp add: i_def)
  have du: "dict_at u tb hss" and ru: "room 3 u" and su: "specials_ok u"
    using dict_at_extends [OF ext h(1)] grows_room [OF n(2) r(2), of 3] specials_ok_extends [OF ext r(4)]
    by simp_all
  obtain t g where t: "hash_set_x_c tb (int i) k v u = Some (Inr v, t)"
    "dict_at t tb (hss[i := g # hss ! i])" "key_of t g = k" "value_of t g = v"
    "\<forall>j < length hss. \<forall>g \<in> set (hss ! j). key_of t g = key_of u g \<and> value_of t g = value_of u g"
    "\<exists>a. keeps a u t" "arena_ok t" "g_free t \<le> g_free u + 3"
    "ARENA_SIZE t = ARENA_SIZE u" "g_cells t = g_cells u"
    by (rule hash_set_x_c_ok [OF du i growsD(2) [OF n(2)] ru su])
  let ?hss = "hss[i := g # hss ! i]"
  have run: "hashq_set_x tb k v s = Some (Inr v, t)"
    using n q(2) hashq_c_symbol [OF extends_symbol_at [OF ext h(4)], of "int (length hss)"] h(2) hv t(1)
    by (simp add: hashq_set_x_def)
  obtain a where a: "keeps a u t" using t(6) by blast
  have names: "symbol_at t k' bs' \<and> ascii bs' \<and> dict_of t ?hss k' bs' = (m(k \<mapsto> v)) k'"
    if k': "names k' = Some bs'" for k' bs'
  proof (intro conjI)
    have s': "symbol_at s k' bs'" "ascii bs'" "dict_of s hss k' bs' = m k'"
      using all [OF k'] by auto
    show "symbol_at t k' bs'" "ascii bs'"
      using keeps_symbol_at [OF a extends_symbol_at [OF ext s'(1)]] s'(2) by auto
    define j where "j = nat (hash_value (bs' @ [0]) (int (length hss)))"
    have j: "j < length hss"
      unfolding j_def by (rule bucket_index [OF s'(2) h(2,3)])
    have du': "dict_of u hss k' bs' = m k'"
      using dict_of_extends [OF ext h(1) s'(2) h(2,3)] s'(3) by simp
    have keys: "\<forall>g \<in> set (hss ! j). key_of t g = key_of u g \<and> value_of t g = value_of u g"
      using t(5) j by blast
    then have find_eq: "find (\<lambda>h. key_of t h = k') (hss ! j) = find (\<lambda>h. key_of u h = k') (hss ! j)"
      by (intro find_cong) auto
    have old: "map_option (value_of t) (find (\<lambda>h. key_of t h = k') (hss ! j)) = m k'"
      using du' map_find_cong [of "hss ! j" "value_of t" "value_of u" "\<lambda>h. key_of u h = k'"] keys
      unfolding find_eq dict_of_def bucket_of_def j_def [symmetric] by simp
    show "dict_of t ?hss k' bs' = (m(k \<mapsto> v)) k'"
    proof (cases "k' = k")
      case True
      then have "bs' = bs" using k' assms(2) by simp
      with True show ?thesis
        using i t(3,4) by (simp add: dict_of_def bucket_of_def i_def [symmetric])
    next
      case False
      then show ?thesis
        using old t(3) i by (cases "j = i") (auto simp: dict_of_def bucket_of_def j_def [symmetric])
    qed
  qed
  have "hash_dict t tb names (m(k \<mapsto> v))"
    unfolding hash_dict_def using t(2) h(2,3) names by (intro exI [of _ ?hss]) auto
  moreover have "ready n t"
  proof -
    have "specials_ok t"
      using specials_ok_keeps [OF a su] .
    then show ?thesis
      using t(7-10) growsD(4-6) [OF n(2)] assms(3) by (auto simp: ready_def room_def)
  qed
  ultimately show ?thesis using run by blast
qed

interpretation hashq: dictionary hash_dict hashq_ref_c hashq_set_x 4
proof unfold_locales
  show "(0::int) \<le> 4" by simp
next
  fix s tb names m k bs d and n :: int
  assume "hash_dict s tb names m" "names k = Some bs" "ready (4 + n) s" "0 \<le> n"
  then show "\<exists>t. hashq_ref_c tb k d s = Some (Inr (case m k of None \<Rightarrow> d | Some v \<Rightarrow> v), t)
      \<and> hash_dict t tb names m \<and> ready n t"
    using hashq_ref_refines [of s tb names m k bs "3 + n" d]
    by (fastforce intro: ready_mono)
next
  fix s tb names m k bs v and n :: int
  assume "hash_dict s tb names m" "names k = Some bs" "ready (4 + n) s" "0 \<le> n"
  then show "\<exists>t. hashq_set_x tb k v s = Some (Inr v, t)
      \<and> hash_dict t tb names (m(k \<mapsto> v)) \<and> ready n t"
    by (rule hashq_set_refines)
qed

end
