(* ===== verification/Mes_Lists.thy ===== *)
theory Mes_Lists
  imports Mes_Hash
begin

text \<open>
  The list builders of src/src/core.c (\<^verbatim>\<open>list\<close>, \<^verbatim>\<open>values\<close>, \<^verbatim>\<open>append2\<close>, \<^verbatim>\<open>append_reverse\<close>,
  \<^verbatim>\<open>reverse_x_\<close>) and, of src/src/lib.c, the raw accessors \<^verbatim>\<open>type_\<close>, \<^verbatim>\<open>car_\<close>,
  \<^verbatim>\<open>cdr_\<close>, the character conversions and the byte vectors. The lemmas say what the builders
  do to a proper list, the destructive reversal included, and that a byte vector gives back what
  was put into it, although its bytes are signed characters.
\<close>

section \<open>Lists\<close>

definition list_proc :: "addr \<Rightarrow> addr mes" where
  "list_proc x = ret x"

definition values_proc :: "addr \<Rightarrow> addr mes" where
  "values_proc x = mbind (cons 0 x) (\<lambda>v. mseq (set_type v TVALUES) (ret v))"

partial_function (option) reverse_x_loop :: "addr \<Rightarrow> addr \<Rightarrow> addr mes" where
  "reverse_x_loop x r s =
     (if x \<noteq> cell_nil
      then mbind (get_cdr x) (\<lambda>t. mseq (set_cdr x r) (reverse_x_loop t x))
      else ret r) s"

definition reverse_x_c :: "addr \<Rightarrow> addr \<Rightarrow> addr mes" where
  "reverse_x_c x t =
     mseq (if x \<noteq> cell_nil
           then mbind (get_type x) (\<lambda>tx. mwhen (tx \<noteq> TPAIR)
                  (mbind (cstring_to_symbol (cstring ''core:reverse!'')) (\<lambda>n. mbind (cons x n) (\<lambda>e.
                     fail (Throw cell_symbol_not_a_pair e)))))
           else ret ())
     (reverse_x_loop x t)"

text \<open>The loop of \<^verbatim>\<open>append2\<close> and of \<^verbatim>\<open>append_reverse\<close>: the elements of \<open>x\<close> in front of \<open>r\<close>, last first.\<close>

partial_function (option) push_elements :: "addr \<Rightarrow> addr \<Rightarrow> addr mes" where
  "push_elements x r s =
     (if x \<noteq> cell_nil
      then mbind (get_car x) (\<lambda>a. mbind (cons a r) (\<lambda>r'. mbind (get_cdr x) (\<lambda>d. push_elements d r')))
      else ret r) s"

definition append2 :: "addr \<Rightarrow> addr \<Rightarrow> addr mes" where
  "append2 x y =
     (if x = cell_nil then ret y
      else mbind (get_type x) (\<lambda>t.
        mseq (mwhen (t \<noteq> TPAIR)
          (mbind (cstring_to_symbol (cstring ''append2'')) (\<lambda>n. mbind (cons x n) (\<lambda>e.
             fail (Throw cell_symbol_not_a_pair e)))))
        (mbind (push_elements x cell_nil) (\<lambda>r. reverse_x_c r y))))"

definition append_reverse :: "addr \<Rightarrow> addr \<Rightarrow> addr mes" where
  "append_reverse x y =
     (if x = cell_nil then ret y
      else mbind (get_type x) (\<lambda>t.
        mseq (mwhen (t \<noteq> TPAIR)
          (mbind (cstring_to_symbol (cstring ''append-reverse'')) (\<lambda>n. mbind (cons x n) (\<lambda>e.
             fail (Throw cell_symbol_not_a_pair e)))))
        (push_elements x y)))"

section \<open>Raw access and characters\<close>

definition type_c :: "addr \<Rightarrow> addr mes" where
  "type_c x = mbind (get_type x) (\<lambda>t. make_number (tag_number t))"

definition car_c :: "addr \<Rightarrow> addr mes" where
  "car_c x = mbind (get_car x) (\<lambda>a. mbind (get_type x) (\<lambda>t.
     if t = TPAIR \<or> t = TBINDING then ret a else make_number a))"

definition cdr_c :: "addr \<Rightarrow> addr mes" where
  "cdr_c x = mbind (get_cdr x) (\<lambda>d. mbind (get_type x) (\<lambda>t.
     if t = TPAIR \<or> t = TCLOSURE then ret d else make_number d))"

definition char_to_integer :: "addr \<Rightarrow> addr mes" where
  "char_to_integer x = mbind (get_cdr x) make_number"

definition integer_to_char :: "addr \<Rightarrow> addr mes" where
  "integer_to_char x = mbind (get_cdr x) (\<lambda>v. make_char (to_int v))"

section \<open>Byte vectors\<close>

text \<open>\<^verbatim>\<open>error (key, cons (x, cstring_to_symbol (name)))\<close>.\<close>

definition error_about :: "addr \<Rightarrow> addr \<Rightarrow> string \<Rightarrow> unit mes" where
  "error_about key x name = mbind (cstring_to_symbol (cstring name)) (\<lambda>n. mbind (cons x n) (\<lambda>e.
     fail (Throw key e)))"

text \<open>\<^verbatim>\<open>error (cell_symbol_system_error, cons (make_string0 (msg), x))\<close>.\<close>

definition system_error :: "string \<Rightarrow> addr \<Rightarrow> unit mes" where
  "system_error msg x = mbind (make_string0 (cstring msg)) (\<lambda>m. mbind (cons m x) (\<lambda>e.
     fail (Throw cell_symbol_system_error e)))"

definition make_bytevector :: "addr \<Rightarrow> addr mes" where
  "make_bytevector args =
     mbind (get_type args) (\<lambda>t0.
     mseq (mwhen (t0 \<noteq> TPAIR) (mbind (cstring_to_symbol (cstring ''make-bytevector'')) (\<lambda>n.
       fail (Throw cell_symbol_wrong_number_of_args n))))
     (mbind (get_car args) (\<lambda>size. mbind (get_cdr args) (\<lambda>args1.
      mbind (get_type size) (\<lambda>ts.
      mseq (mwhen (ts \<noteq> TNUMBER) (error_about cell_symbol_wrong_type_arg size ''make-bytevector''))
      (mbind (get_type args1) (\<lambda>t1.
       mbind (if t1 = TPAIR
              then mbind (get_car args1) (\<lambda>init. mbind (get_cdr args1) (\<lambda>args2.
                   mbind (get_type init) (\<lambda>ti.
                   mseq (mwhen (ti \<noteq> TNUMBER) (error_about cell_symbol_wrong_type_arg size ''make-bytevector''))
                   (mbind (get_cdr init) (\<lambda>v.
                   mseq (mwhen (v < 0 \<or> 256 \<le> v) (system_error ''make-bytevector: value out of range'' init))
                   (ret (Some v, args2)))))))
              else ret (None, args1)) (\<lambda>(init, args2).
       mseq (mwhen (args2 \<noteq> cell_nil) (mbind (cstring_to_symbol (cstring ''make-bytevector'')) (\<lambda>n.
         fail (Throw cell_symbol_wrong_number_of_args n))))
       (mbind (get_cdr size) (\<lambda>n.
        mbind (make_bytes n) (\<lambda>result.
        mseq (case init of
            None \<Rightarrow> ret ()
          | Some v \<Rightarrow> if n = 0 then ret ()
              else mfor [0..n - 1] (\<lambda>i. mbind (cell_bytes result) (\<lambda>p. set_bytes result (p[nat i := of_int v]))))
        (ret result))))))))))))"

definition bytevector_u8_ref :: "addr \<Rightarrow> addr \<Rightarrow> addr mes" where
  "bytevector_u8_ref bv k =
     mbind (get_type bv) (\<lambda>tb.
     mseq (mwhen (tb \<noteq> TBYTES) (error_about cell_symbol_wrong_type_arg bv ''bytevector-u8-ref''))
     (mbind (get_type k) (\<lambda>tk.
     mseq (mwhen (tk \<noteq> TNUMBER) (error_about cell_symbol_wrong_type_arg k ''bytevector-u8-ref''))
     (mbind (get_cdr k) (\<lambda>i. mbind (get_car bv) (\<lambda>len.
     mseq (mwhen (i < 0 \<or> len \<le> i) (system_error ''bytevector-u8-ref: index out of range'' k))
     (mbind (cell_bytes bv) (\<lambda>p.
      let v = char_at p (nat i) in
      if v < 0 then make_number (256 + v) else make_number v))))))))"

definition bytevector_u8_set_x :: "addr \<Rightarrow> addr \<Rightarrow> addr \<Rightarrow> addr mes" where
  "bytevector_u8_set_x bv k val =
     mbind (get_type bv) (\<lambda>tb.
     mseq (mwhen (tb \<noteq> TBYTES) (error_about cell_symbol_wrong_type_arg bv ''bytevector-u8-set!''))
     (mbind (get_type k) (\<lambda>tk.
     mseq (mwhen (tk \<noteq> TNUMBER) (error_about cell_symbol_wrong_type_arg k ''bytevector-u8-set!''))
     (mbind (get_cdr k) (\<lambda>i. mbind (get_car bv) (\<lambda>len.
     mseq (mwhen (i < 0 \<or> len \<le> i) (system_error ''bytevector-u8-set!: index out of range'' k))
     (mbind (get_type val) (\<lambda>tv.
     mseq (mwhen (tv \<noteq> TNUMBER) (error_about cell_symbol_wrong_type_arg val ''bytevector-u8-set!''))
     (mbind (get_cdr val) (\<lambda>v.
     mseq (mwhen (v < 0 \<or> 256 \<le> v) (system_error ''bytevector-u8-set!: value out of range'' val))
     (mbind (cell_bytes bv) (\<lambda>p.
      mseq (set_bytes bv (p[nat i := of_int (if v \<ge> 128 then v - 256 else v)]))
      (ret cell_unspecified)))))))))))))"

section \<open>What the list builders compute\<close>

lemma reverse_x_loop_spine:
  assumes "spine (heap s) x ps cell_nil" "distinct ps"
  shows "\<exists>h r'. reverse_x_loop x r s = Some (Inr r', s\<lparr>heap := h\<rparr>)
     \<and> spine h r' (rev ps) r \<and> cars h (rev ps) = rev (cars (heap s) ps)
     \<and> (\<forall>a. a \<notin> set ps \<longrightarrow> h a = heap s a)
     \<and> (\<forall>a \<in> set ps. \<exists>c d. heap s a = Some c \<and> h a = Some (c\<lparr>ccdr := d\<rparr>))"
  using assms
proof (induction ps arbitrary: x r s)
  case Nil
  then show ?case
    by (intro exI [of _ "heap s"] exI [of _ r]) (simp add: reverse_x_loop.simps)
next
  case (Cons p ps)
  then obtain c where c: "x = p" "p \<noteq> cell_nil" "heap s p = Some c" "ctype c = TPAIR"
    and tl: "spine (heap s) (ccdr c) ps cell_nil" and d: "p \<notin> set ps" "distinct ps"
    by auto
  let ?s = "s\<lparr>heap := (heap s)(p \<mapsto> c\<lparr>ccdr := r\<rparr>)\<rparr>"
  have tl': "spine (heap ?s) (ccdr c) ps cell_nil"
    using tl d(1) by simp
  from Cons.IH [OF tl' d(2), of p] obtain h r' where
    run: "reverse_x_loop (ccdr c) p ?s = Some (Inr r', ?s\<lparr>heap := h\<rparr>)"
    and sp: "spine h r' (rev ps) p" and cs: "cars h (rev ps) = rev (cars (heap ?s) ps)"
    and fr: "\<And>a. a \<notin> set ps \<Longrightarrow> h a = heap ?s a"
    and upd: "\<And>a. a \<in> set ps \<Longrightarrow> \<exists>c d. heap ?s a = Some c \<and> h a = Some (c\<lparr>ccdr := d\<rparr>)"
    by blast
  have hp: "h p = Some (c\<lparr>ccdr := r\<rparr>)"
    using fr [of p] d(1) by simp
  have "reverse_x_loop x r s = Some (Inr r', s\<lparr>heap := h\<rparr>)"
    using c run by (subst reverse_x_loop.simps) simp
  moreover have "spine h r' (rev (p # ps)) r"
    using sp hp c by simp
  moreover have "cars h (rev (p # ps)) = rev (cars (heap s) (p # ps))"
    using cs hp c d(1) by simp
  moreover have "\<forall>a. a \<notin> set (p # ps) \<longrightarrow> h a = heap s a"
    using fr by simp
  moreover have "\<forall>a \<in> set (p # ps). \<exists>c d. heap s a = Some c \<and> h a = Some (c\<lparr>ccdr := d\<rparr>)"
  proof
    fix a assume "a \<in> set (p # ps)"
    then consider "a = p" | "a \<in> set ps" "a \<noteq> p" using d(1) by auto
    then show "\<exists>c d. heap s a = Some c \<and> h a = Some (c\<lparr>ccdr := d\<rparr>)"
    proof cases
      case 1
      then show ?thesis using hp c by auto
    next
      case 2
      then show ?thesis using upd [of a] by simp
    qed
  qed
  ultimately show ?case by blast
qed

text \<open>\<^verbatim>\<open>push_elements\<close> copies the list in reverse onto \<open>r\<close>; everything that was there stays.\<close>

lemma push_elements_ok:
  assumes "list_at s x xs" "arena_ok s" "room (int (length xs)) s" "cell_nil < g_free s"
  shows "\<exists>t r' ps. push_elements x r s = Some (Inr r', t) \<and> grows (int (length xs)) s t
     \<and> spine (lookup t) r' ps r \<and> cars (lookup t) ps = rev xs \<and> (\<forall>a \<in> set ps. g_free s \<le> a)"
  using assms
proof (induction xs arbitrary: x r s)
  case Nil
  then show ?case
    by (intro exI [of _ s] exI [of _ r] exI [of _ "[]"]) (simp add: push_elements.simps)
next
  case (Cons a xs)
  then obtain c where x: "x \<noteq> cell_nil" "lookup s x = Some c" "ccar c = a" "list_at s (ccdr c) xs"
    by (auto simp: list_at_Cons)
  let ?c = "mk_cell TPAIR a r"
  let ?s = "push_cell ?c s"
  have room1: "room 1 s" and room2: "room (int (length xs)) ?s"
    using Cons.prems(3) by (auto simp: room_def)
  obtain t r' ps where
    run: "push_elements (ccdr c) (g_free s) ?s = Some (Inr r', t)" "grows (int (length xs)) ?s t"
    and sp: "spine (lookup t) r' ps (g_free s)" "cars (lookup t) ps = rev xs" "\<forall>a \<in> set ps. g_free ?s \<le> a"
    using Cons.IH [of ?s "ccdr c" "g_free s"] x(4) Cons.prems(2,4) room2 by auto
  have cell: "lookup t (g_free s) = Some ?c"
    by (rule extends_lookup [OF growsD(1) [OF run(2)]]) simp
  have "push_elements x r s = Some (Inr r', t)"
    using x Cons.prems(2) room1 run(1) by (subst push_elements.simps) simp
  moreover have "grows (int (length (a # xs))) s t"
    using grows_trans [OF grows_push_cell [OF Cons.prems(2)] run(2)] by simp
  moreover have "spine (lookup t) r' (ps @ [g_free s]) r"
    using sp(1) cell Cons.prems(4) by auto
  moreover have "cars (lookup t) (ps @ [g_free s]) = rev (a # xs)"
    using sp(2) cell by simp
  ultimately show ?case
    using sp(3) by (intro exI [of _ t] exI [of _ r'] exI [of _ "ps @ [g_free s]"]) auto
qed

text \<open>A list continued by another is the two in one.\<close>

lemma spine_list_at:
  "spine (lookup s) p ps q \<Longrightarrow> list_at s q ys \<Longrightarrow> list_at s p (cars (lookup s) ps @ ys)"
  by (induction ps arbitrary: p) (auto simp: list_at_Cons)

lemma append_reverse_ok:
  assumes "list_at s x xs" "list_at s y ys" "arena_ok s" "room (int (length xs)) s" "specials_ok s"
  shows "\<exists>t r. append_reverse x y s = Some (Inr r, t) \<and> grows (int (length xs)) s t
     \<and> list_at t r (rev xs @ ys)"
proof (cases xs)
  case Nil
  then show ?thesis using assms by (simp add: append_reverse_def)
next
  case (Cons a as)
  with assms(1) obtain c where x: "x \<noteq> cell_nil" "lookup s x = Some c" "ctype c = TPAIR"
    by (auto simp: list_at_Cons)
  obtain t r ps where run: "push_elements x y s = Some (Inr r, t)" "grows (int (length xs)) s t"
    and sp: "spine (lookup t) r ps y" "cars (lookup t) ps = rev xs"
    using push_elements_ok [OF assms(1,3,4) specials_ok_nil [OF assms(5)], of y] by blast
  have "list_at t r (rev xs @ ys)"
    using spine_list_at [OF sp(1) list_at_extends [OF growsD(1) [OF run(2)] assms(2)]] sp(2) by simp
  then show ?thesis
    using run x by (simp add: append_reverse_def)
qed

text \<open>
  \<^verbatim>\<open>reverse_x_\<close> turns the pairs of a list around in place, onto any \<open>y\<close>: no cell is allocated,
  no other cell changes.
\<close>

lemma reverse_x_c_ok:
  assumes "spine (heap s) x ps cell_nil"
  shows "\<exists>h r. reverse_x_c x y s = Some (Inr r, s\<lparr>heap := h\<rparr>)
     \<and> spine h r (rev ps) y \<and> cars h (rev ps) = rev (cars (heap s) ps)
     \<and> (\<forall>a. a \<notin> set ps \<longrightarrow> h a = heap s a)
     \<and> (\<forall>a \<in> set ps. \<exists>c d. heap s a = Some c \<and> h a = Some (c\<lparr>ccdr := d\<rparr>))"
proof -
  have "reverse_x_c x y s = reverse_x_loop x y s"
  proof (cases ps)
    case Nil
    then show ?thesis using assms by (simp add: reverse_x_c_def)
  next
    case (Cons p qs)
    then obtain c where "x \<noteq> cell_nil" "heap s x = Some c" "ctype c = TPAIR"
      using assms by auto
    then show ?thesis by (simp add: reverse_x_c_def)
  qed
  then show ?thesis
    using reverse_x_loop_spine [OF assms spine_distinct [OF assms], of y] by simp
qed

lemma append2_ok:
  assumes "list_at s x xs" "list_at s y ys" "arena_ok s" "room (int (length xs)) s" "specials_ok s"
  shows "\<exists>t r. append2 x y s = Some (Inr r, t) \<and> grows (int (length xs)) s t
     \<and> list_at t r (xs @ ys)"
proof (cases xs)
  case Nil
  then show ?thesis using assms by (simp add: append2_def)
next
  case (Cons a as)
  with assms(1) obtain c where x: "x \<noteq> cell_nil" "lookup s x = Some c" "ctype c = TPAIR"
    by (auto simp: list_at_Cons)
  obtain t r ps where run: "push_elements x cell_nil s = Some (Inr r, t)" "grows (int (length xs)) s t"
    and sp: "spine (lookup t) r ps cell_nil" "cars (lookup t) ps = rev xs" "\<forall>a \<in> set ps. g_free s \<le> a"
    using push_elements_ok [OF assms(1,3,4) specials_ok_nil [OF assms(5)], of cell_nil] by blast
  have lk: "\<And>a. a \<in> set ps \<Longrightarrow> lookup t a = heap t a"
    using spine_mapped [OF sp(1)] by (force simp: lookup_def split: if_splits)
  have hsp: "spine (heap t) r ps cell_nil" "cars (heap t) ps = rev xs"
    using sp(1,2) spine_frame [OF lk, of ps] cars_frame [OF lk, of ps] by auto
  obtain h q where rv: "reverse_x_c r y t = Some (Inr q, t\<lparr>heap := h\<rparr>)"
    and sq: "spine h q (rev ps) y" "cars h (rev ps) = rev (cars (heap t) ps)"
    and fr: "\<And>a. a \<notin> set ps \<Longrightarrow> h a = heap t a"
    and upd: "\<And>a. a \<in> set ps \<Longrightarrow> \<exists>c d. heap t a = Some c \<and> h a = Some (c\<lparr>ccdr := d\<rparr>)"
    using reverse_x_c_ok [OF hsp(1), of y] by blast
  let ?u = "t\<lparr>heap := h\<rparr>"
  have new: "\<And>a. a \<in> set ps \<Longrightarrow> a < g_free t"
    using spine_mapped [OF sp(1)] by (force simp: lookup_def split: if_splits)
  have ext: "extends s ?u"
    unfolding extends_def
  proof (intro conjI allI impI)
    show "g_free s \<le> g_free ?u"
      using growsD(3) [OF run(2)] by simp
    fix a assume a: "a < g_free s"
    then have "a \<notin> set ps" using sp(3) by auto
    then show "heap ?u a = heap s a" "bytes ?u a = bytes s a"
      using fr [of a] a growsD(1) [OF run(2)] by (simp_all add: extends_def)
  qed
  have ok: "arena_ok ?u"
    unfolding arena_ok_def
  proof (intro conjI allI impI)
    show "g_cells ?u \<le> g_free ?u"
      using growsD(2) [OF run(2)] by (simp add: arena_ok_def)
    fix a assume a: "g_cells ?u \<le> a \<and> a < g_cells ?u + ARENA_SIZE ?u"
    show "heap ?u a \<noteq> None"
      using arena_okD [OF growsD(2) [OF run(2)], of a] a fr [of a] upd [of a] by (cases "a \<in> set ps") auto
  qed
  have "t = s\<lparr>heap := heap t, bytes := bytes t, g_free := g_free t\<rparr>"
    using run(2) by (simp add: grows_def)
  then have "?u = s\<lparr>heap := heap ?u, bytes := bytes ?u, g_free := g_free ?u\<rparr>"
    by (cases s; cases t) simp
  then have gr: "grows (int (length xs)) s ?u"
    using ext ok growsD(4) [OF run(2)] by (simp add: grows_def)
  have lk': "\<And>a. a \<in> set (rev ps) \<Longrightarrow> lookup ?u a = h a"
    using new by (simp add: lookup_def)
  have "spine (lookup ?u) q (rev ps) y" "cars (lookup ?u) (rev ps) = xs"
    using sq hsp(2) spine_frame [OF lk', of "rev ps"] cars_frame [OF lk', of "rev ps"] by auto
  then have "list_at ?u q (xs @ ys)"
    using spine_list_at [OF _ list_at_extends [OF ext assms(2)]] by metis
  then show ?thesis
    using run rv gr x by (simp add: append2_def)
qed

section \<open>What byte vectors give back\<close>

text \<open>A byte vector of \<open>n\<close> bytes.\<close>

definition bytevector_at :: "mst \<Rightarrow> addr \<Rightarrow> byte list \<Rightarrow> bool" where
  "bytevector_at s bv bs \<longleftrightarrow> (\<exists>c. lookup s bv = Some c \<and> ctype c = TBYTES
     \<and> ccar c = int (length bs) \<and> bytes s bv = bs)"

lemma signed_byte:
  assumes "0 \<le> v" "v < 256"
  shows "(let w = sint (of_int (if v \<ge> 128 then v - 256 else v) :: byte) in if w < 0 then 256 + w else w) = v"
proof -
  have "sint (of_int (if v \<ge> 128 then v - 256 else v) :: byte) = (if v \<ge> 128 then v - 256 else v)"
    using assms by (simp add: sint_sbintrunc' signed_take_bit_int_eq_self del: of_int_diff)
  then show ?thesis
    using assms by (simp add: Let_def split: if_splits)
qed

lemma bytevector_u8_set_ref:
  assumes bv: "bytevector_at s bv bs" and ok: "arena_ok s" "room 1 s"
    and k: "lookup s k = Some ck" "ctype ck = TNUMBER" "0 \<le> ccdr ck" "ccdr ck < int (length bs)"
    and v: "lookup s val = Some cv" "ctype cv = TNUMBER" "0 \<le> ccdr cv" "ccdr cv < 256"
  shows "\<exists>t bs'. bytevector_u8_set_x bv k val s = Some (Inr cell_unspecified, t)
     \<and> bytevector_at t bv bs' \<and> length bs' = length bs
     \<and> (\<forall>i. i \<noteq> nat (ccdr ck) \<longrightarrow> i < length bs \<longrightarrow> bs' ! i = bs ! i)
     \<and> bytevector_u8_ref bv k t = Some (Inr (g_free s), push_cell (mk_cell TNUMBER 0 (ccdr cv)) t)"
proof -
  define b :: byte where "b = of_int (if ccdr cv \<ge> 128 then ccdr cv - 256 else ccdr cv)"
  let ?i = "nat (ccdr ck)" and ?v = "ccdr cv"
  let ?t = "s\<lparr>bytes := (bytes s)(bv := bs[?i := b])\<rparr>"
  obtain c where c: "bv < g_free s" "heap s bv = Some c" "ctype c = TBYTES" "ccar c = int (length bs)" "bytes s bv = bs"
    using bv by (auto simp: bytevector_at_def)
  have i: "?i < length bs"
    using k by simp
  have set: "bytevector_u8_set_x bv k val s = Some (Inr cell_unspecified, ?t)"
    using c k v unfolding bytevector_u8_set_x_def b_def by simp
  have t_ok: "arena_ok ?t" "room 1 ?t"
    using ok by (simp_all add: arena_ok_def room_def)
  have char: "char_at (bs[?i := b]) ?i = sint b"
    using i by (simp add: char_at_def)
  have signed: "(if sint b < 0 then 256 + sint b else sint b) = ?v"
    using signed_byte [OF v(3,4)] by (simp only: b_def Let_def)
  have "bytevector_u8_ref bv k ?t = Some (Inr (g_free s), push_cell (mk_cell TNUMBER 0 ?v) ?t)"
    using c k t_ok char signed by (cases "sint b < 0") (simp_all add: bytevector_u8_ref_def)
  then show ?thesis
    using set c by (intro exI [of _ ?t] exI [of _ "bs[?i := b]"]) (simp add: bytevector_at_def)
qed

end
