(* ===== verification/Mes_Libc.thy ===== *)
theory Mes_Libc
  imports Mes_Cells
begin

text \<open>
  The parts of the C library of lib/ that the interpreter calls for characters and numbers:
  lib/ctype, \<^verbatim>\<open>abtol\<close> and \<^verbatim>\<open>ntoab\<close> with their short forms. A \<^verbatim>\<open>char const *\<close> is the list
  of bytes from the pointer on; past the end of the list reads give the null byte.
\<close>

section \<open>Character classes\<close>

definition isdigit :: "int \<Rightarrow> bool" where
  "isdigit c \<longleftrightarrow> c \<ge> 48 \<and> c \<le> 57"

definition islower :: "int \<Rightarrow> bool" where
  "islower c \<longleftrightarrow> c \<ge> 97 \<and> c \<le> 122"

definition isupper :: "int \<Rightarrow> bool" where
  "isupper c \<longleftrightarrow> c \<ge> 65 \<and> c \<le> 90"

definition isalpha :: "int \<Rightarrow> bool" where
  "isalpha c \<longleftrightarrow> islower c \<or> isupper c"

definition isalnum :: "int \<Rightarrow> bool" where
  "isalnum c \<longleftrightarrow> isdigit c \<or> isalpha c"

definition isascii :: "int \<Rightarrow> bool" where
  "isascii c \<longleftrightarrow> c \<ge> 0 \<and> c \<le> 127"

definition iscntrl :: "int \<Rightarrow> bool" where
  "iscntrl c \<longleftrightarrow> c \<ge> 0 \<and> c < 32"

definition isgraph :: "int \<Rightarrow> bool" where
  "isgraph c \<longleftrightarrow> c > 32 \<and> c < 127"

definition isprint :: "int \<Rightarrow> bool" where
  "isprint c \<longleftrightarrow> c \<ge> 32 \<and> c < 127"

definition isspace :: "int \<Rightarrow> bool" where
  "isspace c \<longleftrightarrow> c = 9 \<or> c = 10 \<or> c = 11 \<or> c = 12 \<or> c = 13 \<or> c = 32"

definition ispunct :: "int \<Rightarrow> bool" where
  "ispunct c \<longleftrightarrow> isprint c \<and> \<not> isspace c \<and> \<not> isalnum c"

definition isxdigit :: "int \<Rightarrow> bool" where
  "isxdigit c \<longleftrightarrow> isdigit c \<or> (c \<ge> 97 \<and> c \<le> 102) \<or> (c \<ge> 65 \<and> c \<le> 70)"

text \<open>For another base the C function ends without a value; here the answer is no.\<close>

definition isnumber :: "int \<Rightarrow> int \<Rightarrow> bool" where
  "isnumber c base =
     (if base = 2 then c \<ge> 48 \<and> c \<le> 49
      else if base = 8 then c \<ge> 48 \<and> c \<le> 55
      else if base = 10 then isdigit c
      else if base = 16 then isxdigit c
      else False)"

definition tolower :: "int \<Rightarrow> int" where
  "tolower c = (if isupper c then c + (97 - 65) else c)"

definition toupper :: "int \<Rightarrow> int" where
  "toupper c = (if islower c then c - (97 - 65) else c)"

text \<open>The first byte as a (signed) \<^verbatim>\<open>char\<close>.\<close>

definition head_char :: "byte list \<Rightarrow> int" where
  "head_char str = (case str of [] \<Rightarrow> 0 | c # _ \<Rightarrow> sint c)"

section \<open>The environment\<close>

fun strncmp_loop :: "byte list \<Rightarrow> byte list \<Rightarrow> nat \<Rightarrow> int" where
  "strncmp_loop a b 0 = head_char a - head_char b"
| "strncmp_loop a b (Suc n) =
     (if head_char a \<noteq> 0 \<and> head_char b \<noteq> 0 \<and> head_char a = head_char b \<and> n > 0
      then strncmp_loop (tl a) (tl b) n
      else head_char a - head_char b)"

definition strncmp :: "byte list \<Rightarrow> byte list \<Rightarrow> nat \<Rightarrow> int" where
  "strncmp a b sz = (if sz = 0 then 0 else strncmp_loop a b sz)"

text \<open>\<open>environ\<close> is the list of the strings of the environment; the result is the text behind
  the equals sign, or \<open>None\<close> for the null pointer.\<close>

fun getenv :: "byte list list \<Rightarrow> byte list \<Rightarrow> byte list option" where
  "getenv [] str = None"
| "getenv (p # environ) str =
     (let len = nat (strlen str) in
      if strncmp str p len = 0 \<and> head_char (drop len p) = 61
      then Some (drop (len + 1) p)
      else getenv environ str)"

section \<open>Reading a number\<close>

fun skip_space :: "byte list \<Rightarrow> byte list" where
  "skip_space (c # cs) = (if isspace (sint c) then skip_space cs else c # cs)"
| "skip_space [] = []"

fun abtol_digits :: "int \<Rightarrow> int \<Rightarrow> byte list \<Rightarrow> int \<times> byte list" where
  "abtol_digits base i (c # cs) =
     (if isnumber (sint c) base
      then let m = (if sint c \<ge> 97 then 97 - 10 else if sint c \<ge> 65 then 65 - 10 else 48)
           in abtol_digits base (to_int (to_int (i * base) + sint c - m)) cs
      else (i, c # cs))"
| "abtol_digits base i [] = (i, [])"

definition abtol :: "byte list \<Rightarrow> int \<Rightarrow> int \<times> byte list" where
  "abtol str base0 =
     (let base = (if base0 = 0 then 10 else base0);
          s0 = skip_space str;
          s1 = (if head_char s0 = 43 then tl s0 else s0);
          sign_p = (head_char s1 = 45);
          s2 = (if sign_p then tl s1 else s1);
          (i, rest) = abtol_digits base 0 s2
      in (if sign_p then to_int (- i) else i, rest))"

definition atoi :: "byte list \<Rightarrow> int" where
  "atoi str = to_int (fst (abtol str 0))"

section \<open>Writing a number\<close>

definition digit_byte :: "int \<Rightarrow> byte" where
  "digit_byte i = word_of_int (if i > 9 then 97 + i - 10 else 48 + i)"

function ntoab_digits :: "int \<Rightarrow> int \<Rightarrow> byte list \<Rightarrow> byte list" where
  "ntoab_digits b u p =
     (let p' = digit_byte (u mod b) # p
      in if u div b \<noteq> 0 \<and> 1 < b \<and> 0 \<le> u then ntoab_digits b (u div b) p' else p')"
  by pat_completeness auto
termination
proof (relation "measure (\<lambda>(b, u, p). nat u)")
  fix b u :: int and p p' :: "byte list"
  assume "u div b \<noteq> 0 \<and> 1 < b \<and> 0 \<le> u"
  then have "1 < b" "0 < u"
    by (auto simp: order_less_le)
  then have "u div b < u"
    by (simp add: int_div_less_self)
  with \<open>0 < u\<close> show "((b, u div b, p'), (b, u, p)) \<in> measure (\<lambda>(b, u, p). nat u)"
    by simp
qed simp

declare ntoab_digits.simps [simp del]

text \<open>The result is the text without its null byte.\<close>

definition ntoab :: "int \<Rightarrow> int \<Rightarrow> bool \<Rightarrow> ('s, byte list) m" where
  "ntoab x base signed_p =
     mseq (assert_msg (base \<ge> 8) ''base >= 8'')
     (let sign_p = (signed_p \<and> x < 0);
          u = (if sign_p then to_size (to_size (- (x + 1)) + 1) else to_size x);
          p = ntoab_digits base u []
      in ret (if sign_p \<and> head_char p \<noteq> 48 then 45 # p else p))"

definition itoa :: "int \<Rightarrow> byte list mes" where
  "itoa x = ntoab x 10 True"

definition ltoa :: "int \<Rightarrow> byte list mes" where
  "ltoa x = ntoab x 10 True"

definition ltoab :: "int \<Rightarrow> int \<Rightarrow> byte list mes" where
  "ltoab x base = ntoab x base True"

definition utoa :: "int \<Rightarrow> byte list mes" where
  "utoa x = ntoab x 10 False"

definition ultoa :: "int \<Rightarrow> byte list mes" where
  "ultoa x = ntoab (to_long x) 10 True"

section \<open>Writing and reading\<close>

lemma to_int_eq_mod: "to_int n = (n + 2 ^ 31) mod 2 ^ 32 - 2 ^ 31"
  by (simp add: to_int_def signed_take_bit_eq_take_bit_shift take_bit_eq_mod)

lemma to_int_cong: "n mod 2 ^ 32 = m mod 2 ^ 32 \<Longrightarrow> to_int n = to_int m"
  unfolding to_int_eq_mod using mod_add_cong [of n "2 ^ 32" m "2 ^ 31" "2 ^ 31"] by simp

lemma to_int_mod: "to_int n mod 2 ^ 32 = n mod 2 ^ 32"
  unfolding to_int_eq_mod by (simp add: mod_diff_left_eq)

lemma to_int_digit: "to_int (to_int (to_int n * b) + d) = to_int (n * b + d)"
proof (rule to_int_cong)
  have "to_int (to_int n * b) mod 2 ^ 32 = n * b mod 2 ^ 32"
    by (metis to_int_mod mod_mult_left_eq)
  then show "(to_int (to_int n * b) + d) mod 2 ^ 32 = (n * b + d) mod 2 ^ 32"
    by (metis mod_add_left_eq)
qed

lemma to_int_neg: "to_int (- to_int n) = to_int (- n)"
  by (rule to_int_cong) (metis to_int_mod mod_minus_eq)

lemma digit_byte_sint:
  assumes "0 \<le> i" "i < 36"
  shows "sint (digit_byte i) = (if i > 9 then 87 + i else 48 + i)"
  using assms by (auto simp: digit_byte_def signed_take_bit_int_eq_self signed_of_int)

lemma ntoab_digits_append: "ntoab_digits b u (p @ q) = ntoab_digits b u p @ q"
proof (induction b u p rule: ntoab_digits.induct)
  case (1 b u p)
  then show ?case
    by (subst (1 2) ntoab_digits.simps) (simp add: Let_def)
qed

lemma ntoab_digits_step:
  assumes "8 \<le> b" "0 \<le> u"
  shows "ntoab_digits b u [] =
    (if u div b \<noteq> 0 then ntoab_digits b (u div b) [] else []) @ [digit_byte (u mod b)]"
  using assms ntoab_digits_append [of b "u div b" "[]" "[digit_byte (u mod b)]"]
  by (subst ntoab_digits.simps) (simp add: Let_def)

lemma digit_isnumber:
  assumes "b = 8 \<or> b = 10 \<or> b = 16" "0 \<le> d" "d < b"
  shows "isnumber (sint (digit_byte d)) b"
    and "sint (digit_byte d) - (if sint (digit_byte d) \<ge> 97 then 97 - 10
      else if sint (digit_byte d) \<ge> 65 then 65 - 10 else 48) = d"
  using assms by (auto simp: digit_byte_sint isnumber_def isdigit_def isxdigit_def split: if_splits)

lemma abtol_digits_ntoab:
  assumes "b = 8 \<or> b = 10 \<or> b = 16"
  shows "0 \<le> u \<Longrightarrow> abtol_digits b 0 (ntoab_digits b u [] @ rest) = abtol_digits b (to_int u) rest"
proof (induction "nat u" arbitrary: u rest rule: less_induct)
  case less
  have b: "8 \<le> b" using assms by auto
  have d: "0 \<le> u mod b" "u mod b < b" using b by simp_all
  have step: "abtol_digits b i (digit_byte (u mod b) # rest)
      = abtol_digits b (to_int (to_int (i * b) + u mod b)) rest" for i
  proof -
    let ?c = "sint (digit_byte (u mod b))"
    have "to_int (i * b) + ?c - (if ?c \<ge> 97 then 97 - 10 else if ?c \<ge> 65 then 65 - 10 else 48)
        = to_int (i * b) + u mod b"
      using digit_isnumber(2) [OF assms d] by linarith
    then show ?thesis
      using digit_isnumber(1) [OF assms d] by (simp only: abtol_digits.simps if_True Let_def)
  qed
  show ?case
  proof (cases "u div b = 0")
    case True
    then have "u mod b = u"
      using b by (metis add_0 mult_zero_left div_mult_mod_eq)
    with True show ?thesis
      using step [of 0] ntoab_digits_step [OF b less.prems] by (simp add: to_int_id is_int_def)
  next
    case False
    have "0 < u" using False less.prems by (simp add: order_less_le) auto
    then have "nat (u div b) < nat u"
      using b by (simp add: int_div_less_self)
    then have "abtol_digits b 0 (ntoab_digits b (u div b) [] @ digit_byte (u mod b) # rest)
        = abtol_digits b (to_int (u div b)) (digit_byte (u mod b) # rest)"
      using less.hyps [of "u div b"] b less.prems by (simp add: pos_imp_zdiv_nonneg_iff)
    also have "\<dots> = abtol_digits b (to_int u) rest"
      by (simp add: step to_int_digit del: abtol_digits.simps)
    finally show ?thesis
      using False ntoab_digits_step [OF b less.prems] by simp
  qed
qed

lemma ntoab_digits_head:
  assumes "b = 8 \<or> b = 10 \<or> b = 16" "0 \<le> u"
  shows "\<exists>d ds. ntoab_digits b u [] = digit_byte d # ds \<and> 0 \<le> d \<and> d < b \<and> (0 < u \<longrightarrow> 0 < d)"
  using assms(2)
proof (induction "nat u" arbitrary: u rule: less_induct)
  case less
  have b: "8 \<le> b" using assms by auto
  show ?case
  proof (cases "u div b = 0")
    case True
    then have "u mod b = u"
      using b by (metis add_0 mult_zero_left div_mult_mod_eq)
    moreover have "u < b"
      using True b less.prems by (metis div_mult_mod_eq add_0 mult_zero_left pos_mod_bound
          less_le_trans zero_less_numeral)
    ultimately show ?thesis
      using True ntoab_digits_step [OF b less.prems] less.prems by auto
  next
    case False
    have u: "0 < u" using False less.prems by (simp add: order_less_le) auto
    then have m: "nat (u div b) < nat u" "0 \<le> u div b"
      using b by (simp_all add: int_div_less_self pos_imp_zdiv_nonneg_iff)
    then have "0 < u div b" using False by simp
    then show ?thesis
      using less.hyps [OF m] False ntoab_digits_step [OF b less.prems] by auto
  qed
qed

lemma head_char_digit:
  assumes "b = 8 \<or> b = 10 \<or> b = 16" "0 \<le> u"
  shows "head_char (ntoab_digits b u [] @ q) > 47" "skip_space (ntoab_digits b u [] @ q) = ntoab_digits b u [] @ q"
    and "0 < u \<Longrightarrow> head_char (ntoab_digits b u [] @ q) \<noteq> 48"
  using ntoab_digits_head [OF assms] assms(1)
  by (auto simp: head_char_def digit_byte_sint isspace_def split: if_splits)

text \<open>Reading what \<^verbatim>\<open>itoa\<close> has written gives the number back, the least \<^verbatim>\<open>int\<close> included.\<close>

lemma atoi_itoa:
  assumes "is_int x"
  shows "\<exists>p. itoa x s = Some (Inr p, s) \<and> atoi (p @ [0]) = x"
proof -
  define u where "u = (if x < 0 then - x else x)"
  have u: "0 \<le> u" "u \<le> 2 ^ 31"
    using assms by (auto simp: u_def is_int_def)
  have size: "(if x < 0 then to_size (to_size (- (x + 1)) + 1) else to_size x) = u"
    using u by (auto simp: u_def width)
  let ?ds = "ntoab_digits 10 u []"
  note hd = head_char_digit [of 10 u, OF _ u(1), simplified]
  have val: "fst (abtol_digits 10 0 (?ds @ [0])) = to_int u"
    by (subst abtol_digits_ntoab) (use u in \<open>simp_all add: isnumber_def isdigit_def\<close>)
  show ?thesis
  proof (cases "x < 0")
    case True
    then have "0 < u" by (simp add: u_def)
    then have p: "itoa x s = Some (Inr (45 # ?ds), s)"
      using True size hd(3) [of "[]"] by (simp add: itoa_def ntoab_def Let_def)
    have "fst (abtol (45 # ?ds @ [0]) 0) = to_int (- u)"
      using val by (simp add: abtol_def Let_def isspace_def head_char_def split_beta to_int_neg)
    then have "atoi ((45 # ?ds) @ [0]) = x"
      using True assms by (simp add: atoi_def u_def to_int_id is_int_def)
    with p show ?thesis by blast
  next
    case False
    then have p: "itoa x s = Some (Inr ?ds, s)"
      using size by (simp add: itoa_def ntoab_def Let_def)
    have "fst (abtol (?ds @ [0]) 0) = to_int u"
      using val hd [of "[0]"] by (simp add: abtol_def Let_def split_beta)
    then have "atoi (?ds @ [0]) = x"
      using False assms by (simp add: atoi_def u_def to_int_id is_int_def)
    with p show ?thesis by blast
  qed
qed

text \<open>
  The text and its null byte fit in the 24 bytes of \<^verbatim>\<open>__itoa_buf\<close>, whatever the number and
  the base; base 8 needs them all.
\<close>

lemma ntoab_digits_length:
  assumes "8 \<le> b" "0 \<le> u" "u < 8 ^ n" "0 < n"
  shows "length (ntoab_digits b u []) \<le> n"
  using assms(2-4)
proof (induction n arbitrary: u)
  case 0
  then show ?case by simp
next
  case (Suc n)
  show ?case
  proof (cases "u div b = 0")
    case True
    then show ?thesis using ntoab_digits_step [OF assms(1) Suc.prems(1)] by simp
  next
    case False
    have "u div b \<le> u div 8"
      using assms(1) Suc.prems(1) by (intro zdiv_mono2) auto
    moreover have "u div 8 < 8 ^ n"
      using Suc.prems(2) by (simp add: div_less_iff_less_mult mult.commute)
    ultimately have lt: "u div b < 8 ^ n" by simp
    have ge: "0 \<le> u div b"
      using Suc.prems(1) assms(1) by (simp add: pos_imp_zdiv_nonneg_iff)
    have "0 < n"
      using False lt ge by (cases n) auto
    then show ?thesis
      using Suc.IH [OF ge lt] False ntoab_digits_step [OF assms(1) Suc.prems(1)] by simp
  qed
qed

lemma ntoab_fits:
  assumes "8 \<le> base" "is_long x"
  shows "\<exists>p. ntoab x base signed_p s = Some (Inr p, s) \<and> length p + 1 \<le> 24"
proof -
  define u where "u = (if signed_p \<and> x < 0 then to_size (to_size (- (x + 1)) + 1) else to_size x)"
  have neg: "signed_p \<and> x < 0 \<Longrightarrow> u \<le> 2 ^ 63"
    using assms(2) by (auto simp: u_def is_long_def width)
  have u: "0 \<le> u" "u < 2 ^ 64"
    using take_bit_int_less_exp [of 64] by (auto simp: u_def to_size_def simp del: take_bit_int_less_exp)
  have "length (ntoab_digits base u []) \<le> 22"
    by (rule ntoab_digits_length [OF assms(1) u(1)]) (use u in simp_all)
  moreover have "ntoab x base signed_p s = Some (Inr (if (signed_p \<and> x < 0)
      \<and> head_char (ntoab_digits base u []) \<noteq> 48 then 45 # ntoab_digits base u []
      else ntoab_digits base u []), s)"
    using assms(1) by (simp only: ntoab_def Let_def u_def assert_msg_simps mseq_def mbind_ret ret_apply)
  ultimately show ?thesis
    by simp
qed

end
