(* ===== verification/Mes_Gc.thy ===== *)
theory Mes_Gc
  imports Mes_Libc Mes_Heap
begin

text \<open>
  The garbage collector and the frames of the evaluator (src/src/gc.c). A collection copies
  what is reachable from the symbols, the globals and the stack behind the allocated cells
  (\<^verbatim>\<open>gc_copy\<close>, \<^verbatim>\<open>gc_loop\<close>) and then moves the copy back to the start of the arena
  (\<^verbatim>\<open>gc_cellcpy\<close>, \<^verbatim>\<open>gc_flip\<close>). What is printed when debugging is left out, as are the
  times that \<^verbatim>\<open>gc\<close> takes.
\<close>

section \<open>The arena\<close>

text \<open>
  \<open>environ\<close> is the environment of the process, \<open>mem\<close> what the block that \<^verbatim>\<open>malloc\<close> returns
  holds. The block starts at address 1000000.
\<close>

definition env_number :: "byte list list \<Rightarrow> string \<Rightarrow> int \<Rightarrow> int" where
  "env_number environ name dflt = (case getenv environ (cstring name) of
     None \<Rightarrow> dflt | Some p \<Rightarrow> to_size (atoi p))"

definition gc_init :: "byte list list \<Rightarrow> (addr \<Rightarrow> cell) \<Rightarrow> unit mes" where
  "gc_init environ mem = modify (\<lambda>s.
     let max_arena = env_number environ ''MES_MAX_ARENA'' 10000000;
         arena = env_number environ ''MES_ARENA'' 100000000;
         jam = env_number environ ''MES_JAM'' (arena div 10);
         safety = env_number environ ''MES_SAFETY'' (arena div 100);
         stck = env_number environ ''MES_STACK'' 20000;
         max_string = env_number environ ''MES_MAX_STRING'' 524288;
         block = 1000000;
         zero = block + 1
     in s\<lparr>ARENA_SIZE := arena, STACK_SIZE := stck, JAM_SIZE := jam, MAX_ARENA_SIZE := max_arena,
          GC_SAFETY := safety, MAX_STRING := max_string,
          g_arena := block, cell_arena := block, cell_zero := zero, g_cells := zero,
          heap := (\<lambda>x. if block \<le> x \<and> x < block + arena + jam then Some (mem x) else None)
             (block \<mapsto> mk_cell TVECTOR 1000 zero, zero \<mapsto> mk_cell TCHAR (ccar (mem zero)) 99),
          g_free := zero + 1\<rparr>)"

definition gc_free :: "int mes" where
  "gc_free = gets (\<lambda>s. g_free s - g_cells s)"

definition gc_init_news :: "unit mes" where
  "gc_init_news =
     mseq (modify (\<lambda>s. s\<lparr>g_news := g_free s\<rparr>))
     (mbind (gets g_news) (\<lambda>ncell_arena.
      let ncell_zero = ncell_arena + 1 in
      mseq (modify (\<lambda>s. s\<lparr>g_news := g_news s + 1\<rparr>))
      (mseq (set_type ncell_arena TVECTOR)
      (mseq (mbind (gets cell_arena) (\<lambda>a. mbind (get_car a) (set_car ncell_arena)))
      (mseq (mbind (gets g_news) (set_cdr ncell_arena))
      (mseq (set_type ncell_zero TCHAR)
      (set_cdr ncell_zero 110)))))))"

text \<open>
  \<open>realloc p n\<close> is what the C library's \<^verbatim>\<open>realloc\<close> returns for the block \<open>p\<close> and \<open>n\<close> cells
  (0 on failure); the new block holds what the old one held, then the cells \<open>mem\<close>.
\<close>

definition gc_up_arena :: "(addr \<Rightarrow> int \<Rightarrow> addr) \<Rightarrow> (addr \<Rightarrow> cell) \<Rightarrow> unit mes" where
  "gc_up_arena realloc mem =
     mseq (modify (\<lambda>s. if ARENA_SIZE s div 2 < MAX_ARENA_SIZE s div 4
       then s\<lparr>ARENA_SIZE := ARENA_SIZE s * 2, JAM_SIZE := JAM_SIZE s * 2, GC_SAFETY := GC_SAFETY s * 2\<rparr>
       else s\<lparr>ARENA_SIZE := to_size (MAX_ARENA_SIZE s - JAM_SIZE s)\<rparr>))
     (mbind (gets (\<lambda>s. (ARENA_SIZE s + JAM_SIZE s) * 2 + STACK_SIZE s)) (\<lambda>cells.
      mbind (gets (\<lambda>s. g_cells s - 1)) (\<lambda>old.
      let p = realloc old cells in
      mseq (assert_msg (p \<noteq> 0) ''0'')
      (modify (\<lambda>s. s\<lparr>
         heap := (\<lambda>x. if p \<le> x \<and> x < p + cells
                      then Some (case heap s (x - p + old) of Some c \<Rightarrow> c | None \<Rightarrow> mem x)
                      else None),
         bytes := (\<lambda>x. bytes s (x - p + old)),
         g_cells := p + 1\<rparr>)))))"

section \<open>Copying\<close>

text \<open>The types whose \<^verbatim>\<open>car\<close> and \<^verbatim>\<open>cdr\<close> are pointers, as the three loops list them.\<close>

definition pointer_car :: "tag \<Rightarrow> bool" where
  "pointer_car t \<longleftrightarrow> t = TMACRO \<or> t = TPAIR \<or> t = TREF \<or> t = TBINDING"

definition scanned_cdr :: "tag \<Rightarrow> bool" where
  "scanned_cdr t \<longleftrightarrow> t = TCLOSURE \<or> t = TCONTINUATION \<or> t = TKEYWORD \<or> t = TMACRO \<or> t = TPAIR
     \<or> t = TPORT \<or> t = TSPECIAL \<or> t = TSTRING \<or> t = TSYMBOL \<or> t = TVALUES"

definition shifted_cdr :: "tag \<Rightarrow> bool" where
  "shifted_cdr t \<longleftrightarrow> t = TBYTES \<or> t = TCLOSURE \<or> t = TCONTINUATION \<or> t = TKEYWORD \<or> t = TMACRO
     \<or> t = TPAIR \<or> t = TPORT \<or> t = TSPECIAL \<or> t = TSTRING \<or> t = TSTRUCT \<or> t = TSYMBOL
     \<or> t = TVALUES \<or> t = TVECTOR"

text \<open>\<^verbatim>\<open>memcpy (cell_bytes (dest), cell_bytes (src), n)\<close>.\<close>

definition copy_bytes :: "addr \<Rightarrow> addr \<Rightarrow> int \<Rightarrow> unit mes" where
  "copy_bytes dest src n = mbind (cell_bytes src) (\<lambda>p. set_bytes dest (take (nat n) p))"

definition gc_copy :: "addr \<Rightarrow> addr mes" where
  "gc_copy old =
     mbind (get_type old) (\<lambda>t.
     if t = TBROKEN_HEART then get_car old
     else mbind (gets g_free) (\<lambda>new.
       mseq (modify (\<lambda>s. s\<lparr>g_free := g_free s + 1\<rparr>))
       (mseq (copy_cell new old)
       (mseq (if t = TSTRUCT \<or> t = TVECTOR
              then mseq (mbind (gets g_free) (set_cdr new))
                (mbind (get_car old) (\<lambda>len.
                 mfor [0..len - 1] (\<lambda>i.
                   mbind (gets g_free) (\<lambda>to.
                   mbind (get_cdr old) (\<lambda>v.
                   mseq (copy_cell to (cell_ref v i))
                   (modify (\<lambda>s. s\<lparr>g_free := g_free s + 1\<rparr>)))))))
              else if t = TBYTES
              then mbind (get_car new) (\<lambda>len.
                mseq (copy_bytes new old len)
                (modify (\<lambda>s. s\<lparr>g_free := g_free s + (bytes_cells len - 1)\<rparr>)))
              else ret ())
       (mseq (set_type old TBROKEN_HEART)
       (mseq (set_car old new)
       (ret new)))))))"

definition gc_relocate_car :: "addr \<Rightarrow> addr \<Rightarrow> addr mes" where
  "gc_relocate_car new car = mseq (set_car new car) (ret cell_unspecified)"

definition gc_relocate_cdr :: "addr \<Rightarrow> addr \<Rightarrow> addr mes" where
  "gc_relocate_cdr new cdr = mseq (set_cdr new cdr) (ret cell_unspecified)"

section \<open>Moving the copy back\<close>

partial_function (option) gc_cellcpy_loop :: "int \<Rightarrow> addr \<Rightarrow> addr \<Rightarrow> int \<Rightarrow> unit mes" where
  "gc_cellcpy_loop dist dest src n s =
     (if n \<noteq> 0
      then mbind (get_type src) (\<lambda>t. mbind (get_car src) (\<lambda>a. mbind (get_cdr src) (\<lambda>d.
           mseq (set_type dest t)
           (mseq (assert_msg (t \<noteq> TBROKEN_HEART) ''gc_cellcpy: broken heart'')
           (mseq (set_car dest (if pointer_car t then a - dist else a))
           (mseq (set_cdr dest (if shifted_cdr t then d - dist else d))
           (if t = TBYTES
            then mseq (copy_bytes dest src a)
                 (let i = bytes_cells a in
                  gc_cellcpy_loop dist (dest + i) (src + i) (to_size (n - i)))
            else gc_cellcpy_loop dist (dest + 1) (src + 1) (n - 1))))))))
      else ret ()) s"

definition gc_cellcpy :: "addr \<Rightarrow> addr \<Rightarrow> int \<Rightarrow> unit mes" where
  "gc_cellcpy dest src n = gc_cellcpy_loop (src - dest) dest src n"

definition gc_flip :: "unit mes" where
  "gc_flip =
     mseq (modify (\<lambda>s. if g_free s - g_news s > JAM_SIZE s
       then s\<lparr>JAM_SIZE := ((g_free s - g_news s) * 3) div 2\<rparr> else s))
     (mseq (modify (\<lambda>s. s\<lparr>cell_arena := g_cells s - 1\<rparr>))
     (mbind (gets g_cells) (\<lambda>c. mbind (gets g_news) (\<lambda>nw. mbind (gets g_free) (\<lambda>f.
      mseq (gc_cellcpy c nw (f - nw))
      (let dist = nw - c in
       mseq (modify (\<lambda>s. s\<lparr>g_free := g_free s - dist, g_symbols := g_symbols s - dist,
          g_macros := g_macros s - dist, g_ports := g_ports s - dist,
          hash_table_type := hash_table_type s - dist,
          variable_type := variable_type s - dist, M0 := M0 s - dist, M1 := M1 s - dist\<rparr>))
       (mbind (gets g_stack) (\<lambda>st. mbind (gets STACK_SIZE) (\<lambda>n.
        mfor [st..n - 1] (\<lambda>i. mbind (stack_get i) (\<lambda>x. stack_put i (x - dist))))))))))))"

partial_function (option) gc_loop :: "addr \<Rightarrow> unit mes" where
  "gc_loop scan s =
     mbind (gets g_free) (\<lambda>f.
     if scan < f
     then mbind (get_type scan) (\<lambda>t.
          mseq (assert_msg (t \<noteq> TBROKEN_HEART) ''gc_loop: broken heart'')
          (mseq (if pointer_car t
                 then mbind (get_car scan) (\<lambda>x. mbind (gc_copy x) (\<lambda>car.
                      mbind (gc_relocate_car scan car) (\<lambda>_. ret ())))
                 else ret ())
          (mseq (if scanned_cdr t
                 then mbind (get_cdr scan) (\<lambda>x. mbind (gc_copy x) (\<lambda>cdr.
                      mbind (gc_relocate_cdr scan cdr) (\<lambda>_. ret ())))
                 else ret ())
          (if t = TBYTES
           then mbind (get_car scan) (\<lambda>len. gc_loop (scan + bytes_cells len))
           else gc_loop (scan + 1)))))
     else gc_flip) s"

section \<open>A collection\<close>

text \<open>The two addresses that \<^verbatim>\<open>gc_\<close> compares before it enlarges the arena, in bytes.\<close>

definition at_arena_start :: "mst \<Rightarrow> bool" where
  "at_arena_start s \<longleftrightarrow> g_cells s * 24 = g_arena s * 24 + 1"

definition gc_c :: "(addr \<Rightarrow> int \<Rightarrow> addr) \<Rightarrow> (addr \<Rightarrow> cell) \<Rightarrow> unit mes" where
  "gc_c realloc mem =
     mseq gc_init_news
     (mseq (modify (\<lambda>s. s\<lparr>g_free := g_news s + 1\<rparr>))
     (mseq (mbind (gets (\<lambda>s. ARENA_SIZE s < MAX_ARENA_SIZE s \<and> at_arena_start s)) (\<lambda>b.
            mwhen b (gc_up_arena realloc mem)))
     (mbind (gets g_free) (\<lambda>new_cell_nil.
      mseq (mbind (gets g_symbol_max) (\<lambda>max.
            mfor [cell_nil..max - 1] (\<lambda>x. mbind (gc_copy x) (\<lambda>_. ret ()))))
      (mseq (mbind (gets g_symbols) (\<lambda>x. mbind (gc_copy x) (\<lambda>y. modify (\<lambda>s. s\<lparr>g_symbols := y\<rparr>))))
      (mseq (mbind (gets g_macros) (\<lambda>x. mbind (gc_copy x) (\<lambda>y. modify (\<lambda>s. s\<lparr>g_macros := y\<rparr>))))
      (mseq (mbind (gets g_ports) (\<lambda>x. mbind (gc_copy x) (\<lambda>y. modify (\<lambda>s. s\<lparr>g_ports := y\<rparr>))))
      (mseq (mbind (gets hash_table_type) (\<lambda>x. mbind (gc_copy x) (\<lambda>y. modify (\<lambda>s. s\<lparr>hash_table_type := y\<rparr>))))
      (mseq (mbind (gets variable_type) (\<lambda>x. mbind (gc_copy x) (\<lambda>y. modify (\<lambda>s. s\<lparr>variable_type := y\<rparr>))))
      (mseq (mbind (gets M0) (\<lambda>x. mbind (gc_copy x) (\<lambda>y. modify (\<lambda>s. s\<lparr>M0 := y\<rparr>))))
      (mseq (mbind (gets M1) (\<lambda>x. mbind (gc_copy x) (\<lambda>y. modify (\<lambda>s. s\<lparr>M1 := y\<rparr>))))
      (mseq (mbind (gets g_stack) (\<lambda>st. mbind (gets STACK_SIZE) (\<lambda>n.
            mfor [st..n - 1] (\<lambda>i. mbind (stack_get i) (\<lambda>x. mbind (gc_copy x) (copy_stack i))))))
      (gc_loop new_cell_nil)))))))))))))"

definition GC_FRAME_SIZE :: int where "GC_FRAME_SIZE = 5"

definition GC_FRAME_PROCEDURE :: int where "GC_FRAME_PROCEDURE = 4"

definition gc_push_frame :: "unit mes" where
  "gc_push_frame =
     mbind (gets g_stack) (\<lambda>st.
     mseq (assert_msg (\<not> st < GC_FRAME_SIZE) ''STACK FULL'')
     (mseq (stack_put (st - 1) cell_f)
     (mseq (mbind (gets R0) (stack_put (st - 2)))
     (mseq (mbind (gets R1) (stack_put (st - 3)))
     (mseq (mbind (gets R2) (stack_put (st - 4)))
     (mseq (mbind (gets R3) (stack_put (st - 5)))
     (modify (\<lambda>s. s\<lparr>g_stack := g_stack s - GC_FRAME_SIZE\<rparr>))))))))"

text \<open>The last statement of the C code reads the fifth entry and does nothing with it.\<close>

definition gc_peek_frame :: "unit mes" where
  "gc_peek_frame =
     mbind (gets g_stack) (\<lambda>st.
     mseq (mbind (stack_get st) (\<lambda>x. modify (\<lambda>s. s\<lparr>R3 := x\<rparr>)))
     (mseq (mbind (stack_get (st + 1)) (\<lambda>x. modify (\<lambda>s. s\<lparr>R2 := x\<rparr>)))
     (mseq (mbind (stack_get (st + 2)) (\<lambda>x. modify (\<lambda>s. s\<lparr>R1 := x\<rparr>)))
     (mseq (mbind (stack_get (st + 3)) (\<lambda>x. modify (\<lambda>s. s\<lparr>R0 := x\<rparr>)))
     (mbind (stack_get (st + GC_FRAME_PROCEDURE)) (\<lambda>_. ret ()))))))"

definition gc_pop_frame :: "unit mes" where
  "gc_pop_frame = mseq gc_peek_frame (modify (\<lambda>s. s\<lparr>g_stack := g_stack s + GC_FRAME_SIZE\<rparr>))"

definition gc :: "(addr \<Rightarrow> int \<Rightarrow> addr) \<Rightarrow> (addr \<Rightarrow> cell) \<Rightarrow> addr mes" where
  "gc realloc mem =
     mseq gc_push_frame
     (mseq (gc_c realloc mem)
     (mseq gc_pop_frame
     (mseq (modify (\<lambda>s. s\<lparr>gc_count := gc_count s + 1\<rparr>))
     (ret cell_unspecified))))"

definition gc_check :: "(addr \<Rightarrow> int \<Rightarrow> addr) \<Rightarrow> (addr \<Rightarrow> cell) \<Rightarrow> addr mes" where
  "gc_check realloc mem =
     mbind (gets (\<lambda>s. (g_free s - g_cells s) + GC_SAFETY s)) (\<lambda>used.
     mbind (gets ARENA_SIZE) (\<lambda>sz.
     if used \<ge> sz then gc realloc mem else ret cell_unspecified))"

end
