(* ===== verification/Mes_Module.thy ===== *)
theory Mes_Module
  imports Mes_Table Mes_Lists Mes_Gc
begin

text \<open>
  Variables (src/src/variable.c), modules (src/src/module.c) and the stack objects of
  src/src/stack.c. \<^verbatim>\<open>current_module_variable\<close> may call back into the evaluator when the
  module has an eval closure of its own: the procedure \<^verbatim>\<open>apply\<close> of eval-apply.c is the
  parameter \<open>ap\<close> here, and the theory of the evaluator supplies it. The lemmas say that a
  variable gives back what was put into it and that \<^verbatim>\<open>module_variable\<close> searches the modules
  in use depth first, the module itself before the modules it uses.
\<close>

section \<open>Variables\<close>

definition make_variable_type :: "addr mes" where
  "make_variable_type =
     mbind (gets variable_type) (\<lambda>v.
     if v = 0
     then mbind (cstring_to_symbol (cstring ''value'')) (\<lambda>n.
          mbind (cons n cell_nil) (\<lambda>f1.
          mbind (cons f1 cell_nil) (\<lambda>f2.
          mbind (cons cell_symbol_variable f2) (\<lambda>f3.
          mbind (make_struct cell_symbol_record_type f3 cell_unspecified) (\<lambda>t.
          mseq (modify (\<lambda>s. s\<lparr>variable_type := t\<rparr>))
          (gets variable_type))))))
     else gets variable_type)"

definition make_variable :: "addr \<Rightarrow> addr mes" where
  "make_variable val =
     mbind make_variable_type (\<lambda>type.
     mbind (cons val cell_nil) (\<lambda>v1.
     mbind (cons cell_symbol_variable v1) (\<lambda>v2.
     mbind (cstring_to_symbol (cstring ''variable-printer'')) (\<lambda>p.
     make_struct type v2 p))))"

definition variable_p :: "addr \<Rightarrow> addr mes" where
  "variable_p x =
     mbind make_variable_type (\<lambda>type.
     mbind (get_type x) (\<lambda>t.
     if t = TSTRUCT
     then mbind (struct_ref_c x 0) (\<lambda>e. ret (if e = type then cell_t else cell_f))
     else ret cell_f))"

definition variable_ref :: "addr \<Rightarrow> addr mes" where
  "variable_ref var = struct_ref_c var 3"

definition variable_set_x :: "addr \<Rightarrow> addr \<Rightarrow> addr mes" where
  "variable_set_x var val = struct_set_x_c var 3 val"

section \<open>Modules\<close>

definition MODULE_OBARRAY :: int where "MODULE_OBARRAY = 3"

definition MODULE_USES :: int where "MODULE_USES = 4"

definition MODULE_EVAL_CLOSURE :: int where "MODULE_EVAL_CLOSURE = 6"

partial_function (option) make_initial_module_loop :: "addr \<Rightarrow> addr \<Rightarrow> addr mes" where
  "make_initial_module_loop module a s =
     mbind (get_type a) (\<lambda>t.
     if t = TPAIR
     then mbind (a_cdr (get_car a)) (\<lambda>v. mbind (make_variable v) (\<lambda>var.
          mbind (a_car (get_car a)) (\<lambda>name.
          mseq (hashq_set_x module name var)
          (mbind (get_cdr a) (make_initial_module_loop module)))))
     else ret module) s"

definition make_initial_module :: "addr \<Rightarrow> addr mes" where
  "make_initial_module a = mbind (make_hash_table_c 100) (\<lambda>module. make_initial_module_loop module a)"

definition initial_module :: "addr mes" where
  "initial_module = gets M0"

definition current_module :: "addr mes" where
  "current_module = gets M1"

definition set_current_module :: "addr \<Rightarrow> addr mes" where
  "set_current_module module =
     mbind (gets M1) (\<lambda>previous. mseq (modify (\<lambda>s. s\<lparr>M1 := module\<rparr>)) (ret previous))"

partial_function (option) module_search :: "addr \<Rightarrow> addr \<Rightarrow> addr mes" where
  "module_search modules name s =
     mbind (get_type modules) (\<lambda>t.
     if t = TPAIR
     then mbind (get_car modules) (\<lambda>module.
          mbind (struct_ref_c module MODULE_OBARRAY) (\<lambda>obarray.
          mbind (hashq_ref_c obarray name cell_f) (\<lambda>variable.
          if variable \<noteq> cell_f then ret variable
          else mbind (struct_ref_c module MODULE_USES) (\<lambda>uses.
               mbind (get_cdr modules) (\<lambda>rest.
               mbind (append2 uses rest) (\<lambda>modules'. module_search modules' name))))))
     else ret cell_f) s"

definition module_variable :: "addr \<Rightarrow> addr \<Rightarrow> addr mes" where
  "module_variable module name = mbind (cons module cell_nil) (\<lambda>modules. module_search modules name)"

definition module_make_local_var_x :: "addr \<Rightarrow> addr \<Rightarrow> addr mes" where
  "module_make_local_var_x module name =
     mbind (struct_ref_c module MODULE_OBARRAY) (\<lambda>obarray.
     mbind (make_variable cell_undefined) (\<lambda>variable.
     mbind (hashq_create_handle_x obarray name variable) (\<lambda>handle.
     get_cdr handle)))"

definition standard_eval_closure :: "addr \<Rightarrow> addr \<Rightarrow> addr mes" where
  "standard_eval_closure name define_p =
     mbind (gets M1) (\<lambda>m.
     if define_p \<noteq> cell_f then module_make_local_var_x m name else module_variable m name)"

definition standard_interface_eval_closure :: "addr \<Rightarrow> addr \<Rightarrow> addr mes" where
  "standard_interface_eval_closure name define_p =
     (if define_p \<noteq> cell_f then ret cell_f
      else mbind (gets M1) (\<lambda>m. module_variable m name))"

definition current_module_variable :: "(addr \<Rightarrow> addr \<Rightarrow> addr \<Rightarrow> addr mes) \<Rightarrow> addr \<Rightarrow> addr \<Rightarrow> addr mes" where
  "current_module_variable ap name define_p =
     mbind current_module (\<lambda>module.
     if module = cell_f
     then mbind initial_module (\<lambda>module.
          mbind (hashq_ref_c module name cell_f) (\<lambda>variable.
          if variable = cell_f \<and> define_p \<noteq> cell_f
          then mbind (make_variable cell_undefined) (\<lambda>v. hashq_set_x module name v)
          else ret variable))
     else mbind (struct_ref_c module MODULE_EVAL_CLOSURE) (\<lambda>eval_closure.
          if eval_closure = cell_symbol_standard_eval_closure then standard_eval_closure name define_p
          else if eval_closure = cell_symbol_standard_interface_eval_closure
          then standard_interface_eval_closure name define_p
          else mbind (cons define_p cell_nil) (\<lambda>args1. mbind (cons name args1) (\<lambda>args.
               mseq gc_push_frame
               (mbind (ap eval_closure args cell_nil) (\<lambda>result.
                mseq gc_pop_frame
                (ret result)))))))"

section \<open>Stack objects\<close>

definition make_frame_type :: "addr mes" where
  "make_frame_type =
     mbind (cons cell_symbol_procedure cell_nil) (\<lambda>f1.
     mbind (cons f1 cell_nil) (\<lambda>f2.
     mbind (cons cell_symbol_frame f2) (\<lambda>f3.
     make_struct cell_symbol_record_type f3 cell_unspecified)))"

definition make_frame :: "addr \<Rightarrow> int \<Rightarrow> addr mes" where
  "make_frame stk index =
     mbind make_frame_type (\<lambda>frame_type.
     mbind (gets STACK_SIZE) (\<lambda>size.
     mbind (if index \<noteq> 0 then stack_get (size - index * GC_FRAME_SIZE + GC_FRAME_PROCEDURE) else ret 0) (\<lambda>p.
     let procedure = (if p = 0 then cell_f else p) in
     mbind (cons procedure cell_nil) (\<lambda>v1.
     mbind (cons cell_symbol_frame v1) (\<lambda>v2.
     mbind (cstring_to_symbol (cstring ''frame-printer'')) (\<lambda>printer.
     make_struct frame_type v2 printer))))))"

definition make_stack_type :: "addr mes" where
  "make_stack_type =
     mbind (cstring_to_symbol (cstring ''frames'')) (\<lambda>n.
     mbind (cons n cell_nil) (\<lambda>f1.
     mbind (cons f1 cell_nil) (\<lambda>f2.
     mbind (cons cell_symbol_stack f2) (\<lambda>f3.
     make_struct cell_symbol_record_type f3 cell_unspecified))))"

definition make_stack :: "addr \<Rightarrow> addr mes" where
  "make_stack stk =
     mbind make_stack_type (\<lambda>stack_type.
     mbind (gets (\<lambda>s. (STACK_SIZE s - g_stack s) sdiv GC_FRAME_SIZE)) (\<lambda>size.
     mbind (make_vector_c size cell_unspecified) (\<lambda>frames.
     mseq (mfor [0..size - 1] (\<lambda>i. mbind (make_frame stk i) (\<lambda>frame.
             mbind (vector_set_x_c frames i frame) (\<lambda>_. ret ()))))
     (mbind (cons frames cell_nil) (\<lambda>v1.
      mbind (cons cell_symbol_stack v1) (\<lambda>v2.
      make_struct stack_type v2 cell_unspecified))))))"

definition stack_length :: "addr \<Rightarrow> addr mes" where
  "stack_length stk = mbind (struct_ref_c stk 3) vector_length"

definition stack_ref :: "addr \<Rightarrow> addr \<Rightarrow> addr mes" where
  "stack_ref stk index = mbind (struct_ref_c stk 3) (\<lambda>frames. vector_ref frames index)"

section \<open>Variables give back what was put into them\<close>

text \<open>\<open>var\<close> is a variable whose value is the object \<open>x\<close>.\<close>

definition variable_at :: "mst \<Rightarrow> addr \<Rightarrow> addr \<Rightarrow> bool" where
  "variable_at s var x \<longleftrightarrow> (\<exists>v es c. slots_at TSTRUCT s var v es \<and> length es = 4
     \<and> lookup s x = Some c \<and> \<not> immediate (ctype c) \<and> es ! 3 = mk_cell TREF x 0)"

lemma variable_ref_ok:
  assumes "variable_at s var x"
  shows "variable_ref var s = Some (Inr x, s)"
proof -
  obtain v es c where v: "slots_at TSTRUCT s var v es" "length es = 4"
    "lookup s x = Some c" "\<not> immediate (ctype c)" "es ! 3 = mk_cell TREF x 0"
    using assms by (auto simp: variable_at_def)
  have "entry_for (es ! 3) x c"
    using v(4,5) by (simp add: entry_for_def entry_cell_def)
  then have "struct_ref_c var (int 3) s = Some (Inr x, s)"
    using struct.ref_object [of s var v es 3 x c] v by simp
  then show ?thesis
    by (simp add: variable_ref_def)
qed

lemma variable_set_then_ref:
  assumes "slots_at TSTRUCT s var v es" "length es = 4" "lookup s y = Some c" "ready 2 s"
    and "y < v \<or> v + 4 \<le> y"
  shows "\<exists>t u z d. variable_set_x var y s = Some (Inr cell_unspecified, t)
     \<and> variable_ref var t = Some (Inr z, u)
     \<and> heap u z = Some d \<and> ctype d = ctype c \<and> ccdr d = ccdr c
     \<and> (\<not> immediate (ctype c) \<longrightarrow> z = y \<and> u = t)"
  using struct.set_then_ref [of s var v es 3 y c] assms
  by (simp add: variable_set_x_def variable_ref_def ready_def)

section \<open>The search for a variable\<close>

text \<open>
  What the module system means a name to be: a module binds names and uses other modules, and
  a name is resolved in the module itself, then in the modules it uses, from left to right,
  each with the modules it uses in turn.
\<close>

datatype scope = Scope "addr \<rightharpoonup> addr" "scope list"

fun first_some :: "'a option list \<Rightarrow> 'a option" where
  "first_some [] = None"
| "first_some (Some a # os) = Some a"
| "first_some (None # os) = first_some os"

fun resolve :: "scope \<Rightarrow> addr \<Rightarrow> addr option" where
  "resolve (Scope m us) k = (case m k of Some v \<Rightarrow> Some v | None \<Rightarrow> first_some (map (\<lambda>u. resolve u k) us))"

text \<open>The order in which the code visits modules, and the cells it allocates on the way.\<close>

function resolve_worklist :: "scope list \<Rightarrow> addr \<Rightarrow> addr option" where
  "resolve_worklist [] k = None"
| "resolve_worklist (Scope m us # ms) k =
     (case m k of Some v \<Rightarrow> Some v | None \<Rightarrow> resolve_worklist (us @ ms) k)"
  by pat_completeness auto
termination
  by (relation "measure (\<lambda>(ms, k). size_list size ms)") (auto simp: size_list_append)

function search_cells :: "scope list \<Rightarrow> int" where
  "search_cells [] = 0"
| "search_cells (Scope m us # ms) = 1 + int (length us) + search_cells (us @ ms)"
  by pat_completeness auto
termination
  by (relation "measure (size_list size)") (auto simp: size_list_append)

lemma search_cells_nonneg: "0 \<le> search_cells ms"
  by (induction ms rule: search_cells.induct) auto

lemma first_some_append: "first_some (xs @ ys) = (case first_some xs of Some a \<Rightarrow> Some a | None \<Rightarrow> first_some ys)"
  by (induction xs rule: first_some.induct) auto

lemma resolve_worklist_resolve: "resolve_worklist ms k = first_some (map (\<lambda>u. resolve u k) ms)"
proof (induction ms k rule: resolve_worklist.induct)
  case (1 k)
  then show ?case by simp
next
  case (2 m us ms k)
  then show ?case by (cases "m k") (auto simp: first_some_append split: option.split)
qed

text \<open>\<open>module_at s names x sc\<close>: the object \<open>x\<close> is a module that represents \<open>sc\<close>.\<close>

inductive module_at :: "mst \<Rightarrow> (addr \<rightharpoonup> byte list) \<Rightarrow> addr \<Rightarrow> scope \<Rightarrow> bool"
  for s names where
  module_at: "slots_at TSTRUCT s x v es \<Longrightarrow> 4 < length es
    \<Longrightarrow> es ! 3 = mk_cell TREF obarray 0 \<Longrightarrow> hash_dict s obarray names m \<Longrightarrow> (\<And>k. m k \<noteq> Some cell_f)
    \<Longrightarrow> es ! 4 = mk_cell TREF uses 0 \<Longrightarrow> list_at s uses xs \<Longrightarrow> list_all2 (module_at s names) xs us
    \<Longrightarrow> module_at s names x (Scope m us)"

lemma module_at_extends:
  assumes "module_at s names x sc" "extends s t"
  shows "module_at t names x sc"
  using assms(1)
proof (induction rule: module_at.induct)
  case (module_at x v es obarray m uses xs us)
  show ?case
  proof (rule module_at.module_at)
    show "slots_at TSTRUCT t x v es" "hash_dict t obarray names m" "list_at t uses xs"
      using module_at slots_at_extends [OF assms(2)] hash_dict_extends [OF assms(2)]
        list_at_extends [OF assms(2)] by auto
    show "list_all2 (module_at t names) xs us"
      using module_at.IH by (auto elim: list_all2_mono)
  qed (use module_at in auto)
qed

lemma hash_dict_struct: "hash_dict s tb names m \<Longrightarrow> \<exists>c. lookup s tb = Some c \<and> ctype c = TSTRUCT"
  by (auto simp: hash_dict_def dict_at_def table_at_def slots_at_def)

lemma list_at_object:
  assumes "list_at s p xs" "specials_ok s"
  shows "\<exists>c. lookup s p = Some c \<and> \<not> immediate (ctype c) \<and> (ctype c = TPAIR \<longleftrightarrow> xs \<noteq> [])"
proof (cases xs)
  case Nil
  then show ?thesis
    using assms specials_okD [OF assms(2), of cell_nil] by (auto simp: cells immediate_def)
next
  case (Cons x xs)
  then show ?thesis
    using assms by (auto simp: list_at_Cons immediate_def)
qed

lemma struct_object:
  assumes "slots_at TSTRUCT s x v es" "i < length es" "es ! i = mk_cell TREF y 0"
    and "lookup s y = Some c" "\<not> immediate (ctype c)"
  shows "struct_ref_c x (int i) s = Some (Inr y, s)"
  using struct.ref_object [of s x v es i y c] assms by (simp add: entry_for_def entry_cell_def)

lemma module_search_ok:
  assumes "list_at s p xs" "list_all2 (module_at s names) xs ms" "names k = Some bs"
    and "ready (search_cells ms) s"
  shows "\<exists>t. module_search p k s =
     Some (Inr (case resolve_worklist ms k of Some v \<Rightarrow> v | None \<Rightarrow> cell_f), t) \<and> extends s t"
  using assms
proof (induction ms arbitrary: p xs s rule: search_cells.induct)
  case 1
  then have "p = cell_nil" by simp
  then show ?case
    using list_at_object [of s p "[]"] 1 by (auto simp: module_search.simps ready_def)
next
  case (2 m us ms)
  from "2.prems"(2) obtain x xs' where xs: "xs = x # xs'" "module_at s names x (Scope m us)"
    "list_all2 (module_at s names) xs' ms"
    by (auto simp: list_all2_Cons2)
  from xs(2) obtain v es ob uses ys where x: "slots_at TSTRUCT s x v es" "4 < length es"
    "es ! 3 = mk_cell TREF ob 0" "hash_dict s ob names m" "\<And>k. m k \<noteq> Some cell_f"
    "es ! 4 = mk_cell TREF uses 0" "list_at s uses ys" "list_all2 (module_at s names) ys us"
    by (cases rule: module_at.cases) blast
  obtain c where c: "lookup s p = Some c" "ctype c = TPAIR" "ccar c = x" "list_at s (ccdr c) xs'"
    using "2.prems"(1) xs(1) by (auto simp: list_at_Cons)
  have ob: "struct_ref_c x MODULE_OBARRAY s = Some (Inr ob, s)"
    using struct_object [of s x v es 3 ob] x hash_dict_struct [OF x(4)]
    by (auto simp: MODULE_OBARRAY_def immediate_def)
  let ?r = "int (length us) + search_cells (us @ ms)"
  have r: "ready (1 + ?r) s" "0 \<le> ?r"
    using "2.prems"(4) search_cells_nonneg [of "us @ ms"] by (simp_all add: add.assoc)
  obtain t where t: "hashq_ref_c ob k cell_f s = Some (Inr (case m k of None \<Rightarrow> cell_f | Some v \<Rightarrow> v), t)"
    "ready ?r t" "grows 1 s t"
    using hashq_ref_refines [OF x(4) "2.prems"(3) r, of cell_f] by blast
  note ext = growsD(1) [OF t(3)]
  show ?case
  proof (cases "m k")
    case (Some w)
    then have "w \<noteq> cell_f" using x(5) [of k] by auto
    then show ?thesis
      using c ob t(1) Some ext by (subst module_search.simps) auto
  next
    case None
    have len: "length us = length ys"
      using x(8) by (simp add: list_all2_lengthD)
    have uses: "struct_ref_c x MODULE_USES t = Some (Inr uses, t)"
      using struct_object [OF slots_at_extends [OF ext x(1)], of 4 uses] x(2,6)
        list_at_object [OF list_at_extends [OF ext x(7)]] t(2)
      by (auto simp: MODULE_USES_def ready_def)
    have rt: "arena_ok t" "specials_ok t" "room (int (length ys)) t"
      using t(2) search_cells_nonneg [of "us @ ms"] len by (auto simp: ready_def intro: room_mono)
    obtain u q where u: "append2 uses (ccdr c) t = Some (Inr q, u)" "grows (int (length ys)) t u"
      "list_at u q (ys @ xs')"
      using append2_ok [OF list_at_extends [OF ext x(7)] list_at_extends [OF ext c(4)] rt(1,3,2)] by blast
    have ext2: "extends s u"
      using ext growsD(1) [OF u(2)] by (rule extends_trans)
    have "list_all2 (module_at u names) (ys @ xs') (us @ ms)"
      using x(8) xs(3) module_at_extends [OF _ ext2]
      by (auto intro!: list_all2_appendI elim!: list_all2_mono)
    moreover have "ready (search_cells (us @ ms)) u"
      using grows_ready [OF u(2), of "search_cells (us @ ms)"] t(2) len by simp
    ultimately obtain t' where t': "module_search q k u =
        Some (Inr (case resolve_worklist (us @ ms) k of Some v \<Rightarrow> v | None \<Rightarrow> cell_f), t')" "extends u t'"
      using "2.IH" [OF u(3)] "2.prems"(3) by blast
    have "module_search p k s =
        Some (Inr (case resolve_worklist (Scope m us # ms) k of Some v \<Rightarrow> v | None \<Rightarrow> cell_f), t')"
      using c ob t(1) None uses u(1) t'(1) extends_lookup [OF ext c(1)]
      by (subst module_search.simps) simp
    then show ?thesis
      using extends_trans [OF ext2 t'(2)] by blast
  qed
qed

lemma module_variable_resolves:
  assumes "module_at s names x sc" "names k = Some bs" "ready (1 + search_cells [sc]) s"
  shows "\<exists>t. module_variable x k s =
     Some (Inr (case resolve sc k of Some v \<Rightarrow> v | None \<Rightarrow> cell_f), t) \<and> extends s t"
proof -
  let ?t = "push_cell (mk_cell TPAIR x cell_nil) s"
  have r: "arena_ok s" "room 1 s" "specials_ok s"
    using assms(3) search_cells_nonneg [of "[sc]"] by (auto simp: ready_def intro: room_mono)
  have "list_at ?t (g_free s) [x]"
    using specials_ok_nil [OF r(3)] by (simp add: list_at_Cons)
  moreover have "list_all2 (module_at ?t names) [x] [sc]"
    using module_at_extends [OF assms(1)] by simp
  moreover have "ready (search_cells [sc]) ?t"
    using grows_ready [OF grows_push_cell [OF r(1)] assms(3)] .
  ultimately obtain t where "module_search (g_free s) k ?t =
      Some (Inr (case resolve_worklist [sc] k of Some v \<Rightarrow> v | None \<Rightarrow> cell_f), t)" "extends ?t t"
    using module_search_ok [of ?t _ _ names _ k bs] assms(2) by blast
  then show ?thesis
    using r extends_trans [OF extends_push_cell]
    by (auto simp: module_variable_def resolve_worklist_resolve split: option.splits)
qed

text \<open>Before the module system is booted, names are looked up in the initial module.\<close>

lemma current_module_variable_booting:
  assumes "M1 s = cell_f" "hash_dict s (M0 s) names m" "names k = Some bs" "ready 1 s"
  shows "\<exists>t. current_module_variable ap k cell_f s =
     Some (Inr (case m k of Some v \<Rightarrow> v | None \<Rightarrow> cell_f), t) \<and> grows 1 s t"
proof -
  obtain t where "hashq_ref_c (M0 s) k cell_f s = Some (Inr (case m k of None \<Rightarrow> cell_f | Some v \<Rightarrow> v), t)" "grows 1 s t"
    using hashq_ref_refines [OF assms(2,3), of 0 cell_f] assms(4) by auto
  then show ?thesis
    using assms(1) by (auto simp: current_module_variable_def current_module_def initial_module_def
        split: option.splits)
qed

end
