(* ===== verification/Mes_Strings.thy ===== *)
theory Mes_Strings
  imports Mes_Lists
begin

text \<open>
  The rest of src/src/string.c: conversions between strings, symbols, keywords and lists of
  characters, \<^verbatim>\<open>string-append\<close>, \<^verbatim>\<open>string-ref\<close> and \<^verbatim>\<open>string-set!\<close>. The scratch buffer
  \<^verbatim>\<open>g_buf\<close>, which \<^verbatim>\<open>gc_init\<close> gets from \<^verbatim>\<open>malloc (MAX_STRING)\<close>, is a list of the bytes
  written to it so far; a write behind its end is a fault. The lemmas say that going to a list
  and back gives the same text, and that \<^verbatim>\<open>string-append\<close> concatenates.
\<close>

section \<open>The operations\<close>

text \<open>The store \<^verbatim>\<open>g_buf[i] = c\<close> is in the buffer.\<close>

definition in_g_buf :: "int \<Rightarrow> unit mes" where
  "in_g_buf i = mbind (gets MAX_STRING) (\<lambda>m. if i < m then ret () else fail Segv)"

partial_function (option) list_to_cstring_loop :: "addr \<Rightarrow> byte list \<Rightarrow> byte list mes" where
  "list_to_cstring_loop list buf s =
     (if list \<noteq> cell_nil
      then mbind (gets MAX_STRING) (\<lambda>m.
           mseq (mwhen (int (length buf) > m) (assert_max_string (int (length buf))))
           (mbind (car list) (\<lambda>x. mbind (get_cdr x) (\<lambda>v.
           mseq (in_g_buf (int (length buf)))
           (mbind (cdr list) (\<lambda>d. list_to_cstring_loop d (buf @ [of_int v])))))))
      else mseq (in_g_buf (int (length buf))) (ret buf)) s"

definition list_to_cstring :: "addr \<Rightarrow> (byte list \<times> int) mes" where
  "list_to_cstring list = mbind (list_to_cstring_loop list []) (\<lambda>buf. ret (buf @ [0], int (length buf)))"

definition symbol_to_string :: "addr \<Rightarrow> addr mes" where
  "symbol_to_string symbol = mbind (get_car symbol) (\<lambda>a. mbind (get_cdr symbol) (\<lambda>d. make_cell TSTRING a d))"

definition symbol_to_keyword :: "addr \<Rightarrow> addr mes" where
  "symbol_to_keyword symbol = mbind (get_car symbol) (\<lambda>a. mbind (get_cdr symbol) (\<lambda>d. make_cell TKEYWORD a d))"

definition keyword_to_string :: "addr \<Rightarrow> addr mes" where
  "keyword_to_string keyword = mbind (get_car keyword) (\<lambda>a. mbind (get_cdr keyword) (\<lambda>d. make_cell TSTRING a d))"

fun bytes_to_list_loop :: "byte list \<Rightarrow> nat \<Rightarrow> addr \<Rightarrow> addr mes" where
  "bytes_to_list_loop str 0 p = ret p"
| "bytes_to_list_loop str (Suc i) p =
     mbind (make_char ((256 + char_at str i) smod 256)) (\<lambda>c.
     mbind (cons c p) (\<lambda>p'. bytes_to_list_loop str i p'))"

definition bytes_to_list :: "byte list \<Rightarrow> int \<Rightarrow> addr mes" where
  "bytes_to_list str i = bytes_to_list_loop str (nat i) cell_nil"

definition cstring_to_list :: "byte list \<Rightarrow> addr mes" where
  "cstring_to_list str = bytes_to_list str (strlen str)"

definition string_to_list :: "addr \<Rightarrow> addr mes" where
  "string_to_list str =
     mbind (get_cdr str) (\<lambda>v. mbind (cell_bytes v) (\<lambda>p. mbind (get_car str) (\<lambda>n. bytes_to_list p n)))"

definition list_to_string :: "addr \<Rightarrow> addr mes" where
  "list_to_string list = mbind (list_to_cstring list) (\<lambda>(str, size). make_string str size)"

partial_function (option) string_append_loop :: "addr \<Rightarrow> byte list \<Rightarrow> int \<Rightarrow> (byte list \<times> int) mes" where
  "string_append_loop x buf sz s =
     (if x \<noteq> cell_nil
      then mbind (get_car x) (\<lambda>str. mbind (get_type str) (\<lambda>t.
           mseq (assert_msg (t = TSTRING) ''string->type == TSTRING'')
           (mbind (get_cdr str) (\<lambda>v. mbind (cell_bytes v) (\<lambda>p. mbind (get_car str) (\<lambda>len.
           mseq (in_g_buf (sz + len))
           (mbind (gets MAX_STRING) (\<lambda>m.
           mseq (mwhen (sz + len > m) (assert_max_string (sz + len)))
           (mbind (get_cdr x) (\<lambda>d.
            string_append_loop d (take (nat sz) buf @ take (nat (len + 1)) p) (sz + len)))))))))))
      else ret (buf, sz)) s"

definition string_append :: "addr \<Rightarrow> addr mes" where
  "string_append x = mbind (string_append_loop x [0] 0) (\<lambda>(buf, sz). make_string buf sz)"

definition string_length :: "addr \<Rightarrow> addr mes" where
  "string_length str =
     mbind (get_type str) (\<lambda>t.
     mseq (assert_msg (t = TSTRING) ''string->type == TSTRING'')
     (mbind (get_car str) make_number))"

definition string_ref :: "addr \<Rightarrow> addr \<Rightarrow> addr mes" where
  "string_ref str k =
     mbind (get_type str) (\<lambda>t.
     mseq (assert_msg (t = TSTRING) ''str->type == TSTRING'')
     (mbind (get_type k) (\<lambda>tk.
     mseq (assert_msg (tk = TNUMBER) ''k->type == TNUMBER'')
     (mbind (get_car str) (\<lambda>len. mbind (get_cdr k) (\<lambda>v.
      let size = to_size len; i = to_size v in
      mseq (mwhen (i > size) (system_error ''value out of range'' k))
      (mbind (get_cdr str) (\<lambda>b. mbind (cell_bytes b) (\<lambda>p. make_char (char_at p (nat i)))))))))))"

definition string_set_x :: "addr \<Rightarrow> addr \<Rightarrow> addr \<Rightarrow> addr mes" where
  "string_set_x str k c =
     mbind (get_type str) (\<lambda>t.
     mseq (assert_msg (t = TSTRING) ''str->type == TSTRING'')
     (mbind (get_type k) (\<lambda>tk.
     mseq (assert_msg (tk = TNUMBER) ''k->type == TNUMBER'')
     (mbind (get_type c) (\<lambda>tc.
     mseq (assert_msg (tc = TCHAR) ''c->type == TCHAR'')
     (mbind (get_car str) (\<lambda>len. mbind (get_cdr k) (\<lambda>v.
      let size = to_size len; i = to_size v in
      mseq (mwhen (i > size) (system_error ''value out of range'' k))
      (mbind (get_cdr str) (\<lambda>b. mbind (cell_bytes b) (\<lambda>p. mbind (get_cdr c) (\<lambda>ch.
       mseq (set_bytes b (p[nat i := of_int ch]))
       (ret cell_unspecified)))))))))))))"

section \<open>Texts and lists of characters\<close>

text \<open>A list of characters whose values, taken as bytes, are \<open>bs\<close>.\<close>

definition char_list_at :: "mst \<Rightarrow> addr \<Rightarrow> byte list \<Rightarrow> bool" where
  "char_list_at s p bs \<longleftrightarrow> (\<exists>xs. list_at s p xs \<and> length xs = length bs
     \<and> (\<forall>i < length bs. \<exists>c. lookup s (xs ! i) = Some c \<and> ctype c = TCHAR \<and> of_int (ccdr c) = bs ! i))"

lemma char_list_at_Nil [simp]: "char_list_at s p [] \<longleftrightarrow> p = cell_nil"
  by (simp add: char_list_at_def)

lemma char_list_at_Cons:
  "char_list_at s p (b # bs) \<longleftrightarrow> p \<noteq> cell_nil \<and> (\<exists>c d. lookup s p = Some c \<and> ctype c = TPAIR
     \<and> lookup s (ccar c) = Some d \<and> ctype d = TCHAR \<and> of_int (ccdr d) = b \<and> char_list_at s (ccdr c) bs)"
proof
  assume "char_list_at s p (b # bs)"
  then obtain xs where xs: "list_at s p xs" "length xs = Suc (length bs)"
    "\<And>i. i < Suc (length bs) \<Longrightarrow> \<exists>c. lookup s (xs ! i) = Some c \<and> ctype c = TCHAR \<and> of_int (ccdr c) = (b # bs) ! i"
    by (auto simp: char_list_at_def)
  then obtain a ys where ys: "xs = a # ys" by (cases xs) auto
  from xs(3) [of 0] obtain d where d: "lookup s a = Some d" "ctype d = TCHAR" "of_int (ccdr d) = b"
    unfolding ys by auto
  have "\<exists>c. lookup s (ys ! i) = Some c \<and> ctype c = TCHAR \<and> of_int (ccdr c) = bs ! i" if "i < length bs" for i
    using xs(3) [of "Suc i"] that by (simp add: ys)
  then show "p \<noteq> cell_nil \<and> (\<exists>c d. lookup s p = Some c \<and> ctype c = TPAIR
     \<and> lookup s (ccar c) = Some d \<and> ctype d = TCHAR \<and> of_int (ccdr d) = b \<and> char_list_at s (ccdr c) bs)"
    using xs(1,2) d unfolding ys char_list_at_def list_at_Cons by fastforce
next
  assume "p \<noteq> cell_nil \<and> (\<exists>c d. lookup s p = Some c \<and> ctype c = TPAIR
     \<and> lookup s (ccar c) = Some d \<and> ctype d = TCHAR \<and> of_int (ccdr d) = b \<and> char_list_at s (ccdr c) bs)"
  then obtain c d xs where c: "p \<noteq> cell_nil" "lookup s p = Some c" "ctype c = TPAIR"
    "lookup s (ccar c) = Some d" "ctype d = TCHAR" "of_int (ccdr d) = b"
    and xs: "list_at s (ccdr c) xs" "length xs = length bs"
    "\<And>i. i < length bs \<Longrightarrow> \<exists>c. lookup s (xs ! i) = Some c \<and> ctype c = TCHAR \<and> of_int (ccdr c) = bs ! i"
    by (auto simp: char_list_at_def)
  have "\<exists>c'. lookup s ((ccar c # xs) ! i) = Some c' \<and> ctype c' = TCHAR \<and> of_int (ccdr c') = (b # bs) ! i"
    if "i < length (b # bs)" for i
    using c xs(3) that by (cases i) auto
  then show "char_list_at s p (b # bs)"
    unfolding char_list_at_def using c xs(1,2) by (intro exI [of _ "ccar c # xs"]) (auto simp: list_at_Cons)
qed

lemma char_list_at_extends: "extends s t \<Longrightarrow> char_list_at s p bs \<Longrightarrow> char_list_at t p bs"
  unfolding char_list_at_def by (meson extends_lookup list_at_extends)

lemma signed_char_byte: "of_int ((256 + sint b) smod 256) = (b :: byte)"
proof -
  have r: "- 128 \<le> sint b" "sint b < 128"
    using sint_range_size [of b] by (simp_all add: size_word_def)
  have "(256 + sint b) smod 256 = (256 + sint b) mod 256"
    using r by (intro smod_nonneg) auto
  then have "of_int ((256 + sint b) smod 256) = (of_int (sint b) :: byte)"
    by (simp only: word_of_int_eq_iff) (simp add: take_bit_eq_mod)
  then show ?thesis
    by simp
qed

lemma bytes_to_list_loop_ok:
  assumes "i \<le> length bs" "arena_ok s" "room (2 * int i) s" "char_list_at s p cs" "cell_nil < g_free s"
  shows "\<exists>t q. bytes_to_list_loop bs i p s = Some (Inr q, t) \<and> grows (2 * int i) s t
     \<and> char_list_at t q (take i bs @ cs)"
  using assms
proof (induction i arbitrary: p s cs)
  case 0
  then show ?case by auto
next
  case (Suc i)
  let ?c = "mk_cell TCHAR 0 ((256 + char_at bs i) smod 256)"
  let ?s1 = "push_cell ?c s"
  let ?s2 = "push_cell (mk_cell TPAIR (g_free s) p) ?s1"
  have r: "room 1 s" "room 1 ?s1" "room (2 * int i) ?s2"
    using Suc.prems(3) by (auto simp: room_def)
  have g2: "grows 2 s ?s2"
    using grows_trans [OF grows_push_cell [OF Suc.prems(2)] grows_push_cell [OF push_cell_arena_ok [OF Suc.prems(2)]]]
    by simp
  have b: "of_int ((256 + char_at bs i) smod 256) = bs ! i"
    using Suc.prems(1) signed_char_byte [of "bs ! i"] by (simp add: char_at_def)
  have "char_list_at ?s2 (g_free s + 1) (bs ! i # cs)"
    unfolding char_list_at_Cons
    using Suc.prems(5) b char_list_at_extends [OF growsD(1) [OF g2] Suc.prems(4)] by simp
  then obtain t q where t: "bytes_to_list_loop bs i (g_free s + 1) ?s2 = Some (Inr q, t)" "grows (2 * int i) ?s2 t"
    "char_list_at t q (take i bs @ bs ! i # cs)"
    using Suc.IH [of ?s2 "g_free s + 1" "bs ! i # cs"] Suc.prems(1,2,5) r(3) by auto
  have "bytes_to_list_loop bs (Suc i) p s = Some (Inr q, t)"
    using t(1) Suc.prems(2) r(1,2) by simp
  moreover have "grows (2 * int (Suc i)) s t"
    using grows_trans [OF g2 t(2)] by (simp add: algebra_simps)
  ultimately show ?case
    using t(3) Suc.prems(1) by (auto simp: take_Suc_conv_app_nth)
qed

lemma string_to_list_ok:
  assumes "text_at s TSTRING bs p" "arena_ok s" "room (2 * int (length bs)) s" "specials_ok s"
  shows "\<exists>t q. string_to_list p s = Some (Inr q, t) \<and> grows (2 * int (length bs)) s t
     \<and> char_list_at t q bs"
proof -
  obtain t q where "bytes_to_list_loop (bs @ [0]) (length bs) cell_nil s = Some (Inr q, t)"
    "grows (2 * int (length bs)) s t" "char_list_at t q (take (length bs) (bs @ [0]) @ [])"
    using bytes_to_list_loop_ok [of "length bs" "bs @ [0]" s cell_nil "[]"] assms(2,3)
      specials_ok_nil [OF assms(4)] by auto
  then show ?thesis
    using assms(1) by (auto simp: string_to_list_def bytes_to_list_def text_at_def)
qed

lemma list_to_cstring_loop_ok:
  assumes "char_list_at s p bs" "int (length buf + length bs) < MAX_STRING s"
  shows "list_to_cstring_loop p buf s = Some (Inr (buf @ bs), s)"
  using assms
proof (induction bs arbitrary: p buf)
  case Nil
  then show ?case by (simp add: list_to_cstring_loop.simps in_g_buf_def)
next
  case (Cons b bs)
  then obtain c d where c: "p \<noteq> cell_nil" "lookup s p = Some c" "ctype c = TPAIR" "lookup s (ccar c) = Some d"
    "of_int (ccdr d) = b" "char_list_at s (ccdr c) bs"
    by (auto simp: char_list_at_Cons)
  have "list_to_cstring_loop (ccdr c) (buf @ [b]) s = Some (Inr ((buf @ [b]) @ bs), s)"
    by (rule Cons.IH) (use c Cons.prems in auto)
  then show ?case
    using c Cons.prems(2) by (subst list_to_cstring_loop.simps) (simp add: in_g_buf_def car_def cdr_def)
qed

lemma make_string_text:
  assumes "arena_ok s" "room (string_cells bs) s" "int (length bs) \<le> MAX_STRING s" "int (length bs) < 2 ^ 62"
  shows "\<exists>t. make_string (bs @ [0]) (int (length bs)) s = Some (Inr (g_free s), t)
     \<and> grows (string_cells bs) s t \<and> text_at t TSTRING bs (g_free s)"
proof -
  obtain c :: cell where c: "make_string (bs @ [0]) (int (length bs)) s = Some (Inr (g_free s),
       s\<lparr>g_free := g_free s + string_cells bs,
         heap := (heap s)(g_free s \<mapsto> mk_cell TSTRING (int (length bs)) (g_free s + 1),
            g_free s + 1 \<mapsto> mk_cell TBYTES (int (length bs) + 1) (ccdr c)),
         bytes := (bytes s)(g_free s + 1 := bs @ [0])\<rparr>)"
    by (rule make_string_ok [OF assms])
  have pos: "2 \<le> bytes_cells (int (length bs) + 1)"
    using assms(4) by (intro bytes_cells_pos) auto
  then show ?thesis
    using c assms(1) by (auto simp: grows_def extends_def arena_ok_def text_at_def string_cells_def)
qed

lemma list_to_string_ok:
  assumes "char_list_at s p bs" "arena_ok s" "room (string_cells bs) s" "int (length bs) < MAX_STRING s"
    and "int (length bs) < 2 ^ 62"
  shows "\<exists>t. list_to_string p s = Some (Inr (g_free s), t) \<and> grows (string_cells bs) s t
     \<and> text_at t TSTRING bs (g_free s)"
  using list_to_cstring_loop_ok [OF assms(1), of "[]"] make_string_text [OF assms(2,3) _ assms(5)] assms(4)
  by (simp add: list_to_string_def list_to_cstring_def)

text \<open>A list that fills the buffer: the terminating null byte is written behind its end.\<close>

lemma list_to_string_overflow:
  assumes "char_list_at s p bs" "int (length bs) = MAX_STRING s"
  shows "list_to_string p s = Some (Inl Segv, s)"
proof -
  have loop: "list_to_cstring_loop p buf s = Some (Inl Segv, s)"
    if "char_list_at s p bs" "int (length buf + length bs) = MAX_STRING s" for p buf
    using that
  proof (induction bs arbitrary: p buf)
    case Nil
    then show ?case by (simp add: list_to_cstring_loop.simps in_g_buf_def)
  next
    case (Cons b bs)
    then obtain c d where c: "p \<noteq> cell_nil" "lookup s p = Some c" "ctype c = TPAIR" "lookup s (ccar c) = Some d"
      "of_int (ccdr d) = b" "char_list_at s (ccdr c) bs"
      by (auto simp: char_list_at_Cons)
    have "list_to_cstring_loop (ccdr c) (buf @ [b]) s = Some (Inl Segv, s)"
      by (rule Cons.IH) (use c Cons.prems in auto)
    then show ?case
      using c Cons.prems(2) by (subst list_to_cstring_loop.simps) (simp add: in_g_buf_def car_def cdr_def)
  qed
  show ?thesis
    using loop [OF assms(1), of "[]"] assms(2) by (simp add: list_to_string_def list_to_cstring_def)
qed

text \<open>To a list and back: the same text in a fresh string.\<close>

lemma string_list_string:
  assumes "text_at s TSTRING bs p" "arena_ok s" "specials_ok s"
    and "room (2 * int (length bs) + string_cells bs) s"
    and "int (length bs) < MAX_STRING s" "int (length bs) < 2 ^ 62"
  shows "\<exists>t q. mbind (string_to_list p) list_to_string s = Some (Inr q, t) \<and> text_at t TSTRING bs q
     \<and> extends s t"
proof -
  have r: "room (2 * int (length bs)) s"
    by (rule room_mono [OF assms(4)]) (simp add: string_cells_def)
  obtain t q where t: "string_to_list p s = Some (Inr q, t)" "grows (2 * int (length bs)) s t" "char_list_at t q bs"
    using string_to_list_ok [OF assms(1,2) r assms(3)] by blast
  have "room (string_cells bs) t" "int (length bs) < MAX_STRING t"
    using grows_room [OF t(2) assms(4)] assms(5) growsD(7) [OF t(2)] by simp_all
  then obtain u where u: "list_to_string q t = Some (Inr (g_free t), u)" "grows (string_cells bs) t u"
    "text_at u TSTRING bs (g_free t)"
    using list_to_string_ok [OF t(3) growsD(2) [OF t(2)]] assms(6) by blast
  then show ?thesis
    using t(1) extends_trans [OF growsD(1) [OF t(2)] growsD(1) [OF u(2)]] by auto
qed

section \<open>Concatenation\<close>

definition texts_at :: "mst \<Rightarrow> addr \<Rightarrow> byte list list \<Rightarrow> bool" where
  "texts_at s p bss \<longleftrightarrow> (\<exists>xs. list_at s p xs \<and> list_all2 (\<lambda>x bs. text_at s TSTRING bs x) xs bss)"

lemma texts_at_Nil [simp]: "texts_at s p [] \<longleftrightarrow> p = cell_nil"
  by (simp add: texts_at_def)

lemma texts_at_Cons:
  "texts_at s p (bs # bss) \<longleftrightarrow> p \<noteq> cell_nil \<and> (\<exists>c. lookup s p = Some c \<and> ctype c = TPAIR
     \<and> text_at s TSTRING bs (ccar c) \<and> texts_at s (ccdr c) bss)"
proof
  assume "texts_at s p (bs # bss)"
  then obtain x xs where "list_at s p (x # xs)" "text_at s TSTRING bs x"
    "list_all2 (\<lambda>x bs. text_at s TSTRING bs x) xs bss"
    by (auto simp: texts_at_def list_all2_Cons2)
  then show "p \<noteq> cell_nil \<and> (\<exists>c. lookup s p = Some c \<and> ctype c = TPAIR
     \<and> text_at s TSTRING bs (ccar c) \<and> texts_at s (ccdr c) bss)"
    by (auto simp: texts_at_def list_at_Cons)
next
  assume "p \<noteq> cell_nil \<and> (\<exists>c. lookup s p = Some c \<and> ctype c = TPAIR
     \<and> text_at s TSTRING bs (ccar c) \<and> texts_at s (ccdr c) bss)"
  then obtain c xs where "p \<noteq> cell_nil" "lookup s p = Some c" "ctype c = TPAIR"
    "text_at s TSTRING bs (ccar c)" "list_at s (ccdr c) xs"
    "list_all2 (\<lambda>x bs. text_at s TSTRING bs x) xs bss"
    by (auto simp: texts_at_def)
  then show "texts_at s p (bs # bss)"
    unfolding texts_at_def by (intro exI [of _ "ccar c # xs"]) (simp add: list_at_Cons)
qed

lemma string_append_loop_ok:
  assumes "texts_at s p bss" "length buf = Suc n" "last buf = 0" "int (n + length (concat bss)) < MAX_STRING s"
  shows "string_append_loop p buf (int n) s
     = Some (Inr (butlast buf @ concat bss @ [0], int (n + length (concat bss))), s)"
  using assms
proof (induction bss arbitrary: p buf n)
  case Nil
  then have "butlast buf @ [0] = buf"
    using append_butlast_last_id [of buf] by (cases "buf = []") auto
  then show ?case
    using Nil by (simp add: string_append_loop.simps)
next
  case (Cons bs bss)
  then obtain c where c: "p \<noteq> cell_nil" "lookup s p = Some c" "text_at s TSTRING bs (ccar c)" "texts_at s (ccdr c) bss"
    by (auto simp: texts_at_Cons)
  obtain d b where d: "lookup s (ccar c) = Some d" "ctype d = TSTRING" "ccar d = int (length bs)"
    "lookup s (ccdr d) = Some b" "bytes s (ccdr d) = bs @ [0]"
    using c(3) by (auto simp: text_at_def)
  let ?buf = "take n buf @ bs @ [0]"
  have tk: "take n buf = butlast buf"
    using Cons.prems(2) by (simp add: butlast_conv_take)
  have nn: "nat (int (length bs) + 1) = Suc (length bs)"
    by simp
  have "string_append_loop (ccdr c) ?buf (int (n + length bs)) s
     = Some (Inr (butlast ?buf @ concat bss @ [0], int (n + length bs + length (concat bss))), s)"
    by (rule Cons.IH) (use c Cons.prems in auto)
  then show ?case
    using c d Cons.prems(4) nn
    by (subst string_append_loop.simps) (simp add: in_g_buf_def tk butlast_append add.assoc)
qed

lemma string_append_ok:
  assumes "texts_at s p bss" "arena_ok s" "room (string_cells (concat bss)) s"
    and "int (length (concat bss)) < MAX_STRING s" "int (length (concat bss)) < 2 ^ 62"
  shows "\<exists>t. string_append p s = Some (Inr (g_free s), t) \<and> text_at t TSTRING (concat bss) (g_free s)
     \<and> extends s t"
  using string_append_loop_ok [OF assms(1), of "[0]" 0] make_string_text [OF assms(2,3) _ assms(5)] assms(4)
  by (auto simp: string_append_def intro: growsD)

end
