(* ===== verification/Mes_Builtins.thy ===== *)
theory Mes_Builtins
  imports Mes_Module Mes_Strings
begin

text \<open>
  The primitive procedures (src/src/builtins.c, src/src/mescc-builtins.c, src/src/cc.c), the
  symbols and variables an interpreter starts with (\<^verbatim>\<open>init_symbols\<close> of src/src/symbol.c,
  \<^verbatim>\<open>mes_g_stack\<close> and \<^verbatim>\<open>mes_environment\<close> of src/src/mes.c). A primitive is a struct with a
  name, an arity and the address of a C function, kept in a number cell; the addresses are the
  linker's choice, so the definitions take the map from C names to addresses as an argument, and
  where a procedure is called they take what is at an address. The version and the data
  directory are fixed when the program is built and started.
\<close>

section \<open>Primitive procedures\<close>

definition make_builtin_type :: "addr mes" where
  "make_builtin_type =
     mbind (cstring_to_symbol (cstring ''address'')) (\<lambda>n1. mbind (cons n1 cell_nil) (\<lambda>f1.
     mbind (cstring_to_symbol (cstring ''arity'')) (\<lambda>n2. mbind (cons n2 f1) (\<lambda>f2.
     mbind (cstring_to_symbol (cstring ''name'')) (\<lambda>n3. mbind (cons n3 f2) (\<lambda>f3.
     mbind (cons f3 cell_nil) (\<lambda>f4.
     mbind (cons cell_symbol_builtin f4) (\<lambda>f5.
     make_struct cell_symbol_record_type f5 cell_unspecified))))))))"

definition make_builtin :: "addr \<Rightarrow> addr \<Rightarrow> addr \<Rightarrow> addr \<Rightarrow> addr mes" where
  "make_builtin builtin_type name arity function =
     mbind (cons function cell_nil) (\<lambda>v1.
     mbind (cons arity v1) (\<lambda>v2.
     mbind (cons name v2) (\<lambda>v3.
     mbind (cons cell_symbol_builtin v3) (\<lambda>v4.
     mbind (cstring_to_symbol (cstring ''builtin-printer'')) (\<lambda>printer.
     make_struct builtin_type v4 printer)))))"

definition builtin_name :: "addr \<Rightarrow> addr mes" where
  "builtin_name builtin = struct_ref_c builtin 3"

definition builtin_arity :: "addr \<Rightarrow> addr mes" where
  "builtin_arity builtin = struct_ref_c builtin 4"

definition builtin_function :: "addr \<Rightarrow> int mes" where
  "builtin_function builtin = mbind (struct_ref_c builtin 5) get_cdr"

definition builtin_p :: "addr \<Rightarrow> addr mes" where
  "builtin_p x =
     mbind (get_type x) (\<lambda>t.
     if t = TSTRUCT
     then mbind (struct_ref_c x 2) (\<lambda>k. ret (if k = cell_symbol_builtin then cell_t else cell_f))
     else ret cell_f)"

text \<open>
  \<open>call f args\<close> is what the C function at address \<open>f\<close> does with \<open>args\<close>.
\<close>

definition apply_builtin0 :: "(int \<Rightarrow> addr list \<Rightarrow> addr mes) \<Rightarrow> addr \<Rightarrow> addr mes" where
  "apply_builtin0 call fn = mbind (builtin_function fn) (\<lambda>f. call f [])"

definition apply_builtin1 :: "(int \<Rightarrow> addr list \<Rightarrow> addr mes) \<Rightarrow> addr \<Rightarrow> addr \<Rightarrow> addr mes" where
  "apply_builtin1 call fn x = mbind (builtin_function fn) (\<lambda>f. call f [x])"

definition apply_builtin2 :: "(int \<Rightarrow> addr list \<Rightarrow> addr mes) \<Rightarrow> addr \<Rightarrow> addr \<Rightarrow> addr \<Rightarrow> addr mes" where
  "apply_builtin2 call fn x y = mbind (builtin_function fn) (\<lambda>f. call f [x, y])"

definition apply_builtin3 :: "(int \<Rightarrow> addr list \<Rightarrow> addr mes) \<Rightarrow> addr \<Rightarrow> addr \<Rightarrow> addr \<Rightarrow> addr \<Rightarrow> addr mes" where
  "apply_builtin3 call fn x y z = mbind (builtin_function fn) (\<lambda>f. call f [x, y, z])"

section \<open>The table of primitives\<close>

text \<open>Name, arity and C function of each primitive, in the order of the calls of \<^verbatim>\<open>init_builtin\<close>.\<close>

definition builtin_specs_mini :: "(string \<times> int \<times> string) list" where
  "builtin_specs_mini =
    [(''cons'', 2, ''cons''), (''car'', 1, ''car''), (''list'', -1, ''list''),
     (''eq?'', 2, ''eq_p''), (''-'', -1, ''minus''), (''+'', -1, ''plus''),
     (''core:display'', 1, ''display_''), (''core:write'', 1, ''write_''),
     (''core:display-error'', 1, ''display_error_''), (''getenv'', 1, ''getenv_''),
     (''gc'', 0, ''gc''), (''>'', -1, ''greater_p''), (''<'', -1, ''less_p''),
     (''make-vector'', -1, ''make_vector'')]"

definition builtin_specs :: "(string \<times> int \<times> string) list" where
  "builtin_specs =
    [(''make-builtin'', 4, ''make_builtin''), (''builtin-name'', 1, ''builtin_name''),
     (''builtin-arity'', 1, ''builtin_arity''), (''builtin?'', 1, ''builtin_p''),
     (''builtin-printer'', 1, ''builtin_printer''), (''car'', 1, ''car''),
     (''cdr'', 1, ''cdr''), (''list'', -1, ''list''), (''null?'', 1, ''null_p''),
     (''eq?'', 2, ''eq_p''), (''values'', -1, ''values''), (''acons'', 3, ''acons''),
     (''length'', 1, ''length''), (''error'', 2, ''error''), (''append2'', 2, ''append2''),
     (''append-reverse'', 2, ''append_reverse''), (''core:reverse!'', 2, ''reverse_x_''),
     (''assq'', 2, ''assq''), (''assoc'', 2, ''assoc''),
     (''core:display'', 1, ''display_''), (''core:display-error'', 1, ''display_error_''),
     (''core:display-port'', 2, ''display_port_''), (''core:write'', 1, ''write_''),
     (''core:write-error'', 1, ''write_error_''),
     (''core:write-port'', 2, ''write_port_''), (''pairlis'', 3, ''pairlis''),
     (''set-car!'', 2, ''set_car_x''), (''set-cdr!'', 2, ''set_cdr_x''),
     (''add-formals'', 2, ''add_formals''), (''eval-apply'', 0, ''eval_apply''),
     (''primitive-load'', 1, ''primitive_load''), (''make-binding'', 2, ''make_binding''),
     (''gc-stats'', 0, ''gc_stats''), (''cons'', 2, ''cons''),
     (''gc-check'', 0, ''gc_check''), (''gc'', 0, ''gc''), (''hashq'', 2, ''hashq''),
     (''hash'', 2, ''hash''), (''hashq-get-handle'', 2, ''hashq_get_handle''),
     (''core:hashq-ref'', 3, ''hashq_ref_''), (''core:hash-ref'', 3, ''hash_ref_''),
     (''hashq-create-handle!'', 3, ''hashq_create_handle_x''),
     (''hash-create-handle!'', 3, ''hash_create_handle_x''),
     (''hashq-set!'', 3, ''hashq_set_x''), (''hash-set!'', 3, ''hash_set_x''),
     (''hash-remove!'', 2, ''hash_remove_x''),
     (''hash-table-printer'', 1, ''hash_table_printer''),
     (''hash-table?'', 1, ''hash_table_p''),
     (''make-hash-table'', -1, ''make_hash_table''),
     (''hash-buckets'', 1, ''hash_buckets''), (''hash-clear!'', 1, ''hash_clear_x''),
     (''core:type'', 1, ''type_''), (''core:car'', 1, ''car_''),
     (''core:cdr'', 1, ''cdr_''), (''xassq'', 2, ''xassq''), (''memq'', 2, ''memq''),
     (''equal2?'', 2, ''equal2_p''), (''last-pair'', 1, ''last_pair''),
     (''pair?'', 1, ''pair_p''), (''char->integer'', 1, ''char_to_integer''),
     (''integer->char'', 1, ''integer_to_char''),
     (''make-bytevector'', -1, ''make_bytevector''),
     (''bytevector-u8-ref'', 2, ''bytevector_u8_ref''),
     (''bytevector-u8-set!'', 3, ''bytevector_u8_set_x''), (''>'', -1, ''greater_p''),
     (''<'', -1, ''less_p''), (''='', -1, ''is_p''), (''-'', -1, ''minus''),
     (''+'', -1, ''plus''), (''/'', -1, ''divide''), (''modulo'', 2, ''modulo''),
     (''*'', -1, ''multiply''), (''logand'', -1, ''logand''), (''logior'', -1, ''logior''),
     (''lognot'', 1, ''lognot''), (''logxor'', -1, ''logxor''), (''ash'', 2, ''ash''),
     (''initial-module'', 0, ''initial_module''),
     (''current-module'', 0, ''current_module''),
     (''set-current-module'', 1, ''set_current_module''), (''abort'', 0, ''abort_''),
     (''exit'', 1, ''exit_''), (''peek-byte'', 0, ''peek_byte''),
     (''read-byte'', 0, ''read_byte''), (''unread-byte'', 1, ''unread_byte''),
     (''peek-char'', 0, ''peek_char''), (''read-char'', -1, ''read_char''),
     (''unread-char'', 1, ''unread_char''), (''write-char'', -1, ''write_char''),
     (''write-byte'', -1, ''write_byte''), (''getenv'', 1, ''getenv_''),
     (''setenv'', 2, ''setenv_''), (''access?'', 2, ''access_p''),
     (''current-input-port'', 0, ''current_input_port''), (''open'', 2, ''open_''),
     (''open-input-file'', 1, ''open_input_file''),
     (''open-input-string'', 1, ''open_input_string''),
     (''set-current-input-port'', 1, ''set_current_input_port''),
     (''current-output-port'', 0, ''current_output_port''),
     (''current-error-port'', 0, ''current_error_port''),
     (''open-output-file'', -1, ''open_output_file''),
     (''set-current-output-port'', 1, ''set_current_output_port''),
     (''set-current-error-port'', 1, ''set_current_error_port''),
     (''chmod'', 2, ''chmod_''), (''isatty?'', 1, ''isatty_p''),
     (''primitive-fork'', 0, ''primitive_fork''),
     (''primitive-exit'', 1, ''primitive_exit''), (''core:execl'', 2, ''execl_''),
     (''core:execle'', 3, ''execle_''), (''core:waitpid'', 2, ''waitpid_''),
     (''current-time'', 0, ''current_time''), (''gettimeofday'', 0, ''gettimeofday_''),
     (''get-internal-run-time'', 0, ''get_internal_run_time''),
     (''getcwd'', 0, ''getcwd_''), (''dup'', 1, ''dup_''), (''dup2'', 2, ''dup2_''),
     (''delete-file'', 1, ''delete_file''), (''uname'', 0, ''uname_'')]"

definition reader_specs :: "(string \<times> int \<times> string) list" where
  "reader_specs =
    [(''core:read-input-file-env'', 2, ''read_input_file_env_''),
     (''read-input-file-env'', 1, ''read_input_file_env''),
     (''read-env'', 1, ''read_env''), (''reader-read-sexp'', 3, ''reader_read_sexp''),
     (''reader-read-character'', 0, ''reader_read_character''),
     (''reader-read-binary'', 0, ''reader_read_binary''),
     (''reader-read-octal'', 0, ''reader_read_octal''),
     (''reader-read-hex'', 0, ''reader_read_hex''),
     (''reader-read-string'', 0, ''reader_read_string''),
     (''frame-printer'', 1, ''frame_printer''), (''make-stack'', -1, ''make_stack''),
     (''stack-length'', 1, ''stack_length''), (''stack-ref'', 2, ''stack_ref''),
     (''string=?'', 2, ''string_equal_p''), (''symbol->string'', 1, ''symbol_to_string''),
     (''symbol->keyword'', 1, ''symbol_to_keyword''),
     (''keyword->string'', 1, ''keyword_to_string''),
     (''string->symbol'', 1, ''string_to_symbol''), (''make-symbol'', 1, ''make_symbol''),
     (''string->list'', 1, ''string_to_list''), (''list->string'', 1, ''list_to_string''),
     (''read-string'', -1, ''read_string''), (''string-append'', -1, ''string_append''),
     (''string-length'', 1, ''string_length''), (''string-ref'', 2, ''string_ref''),
     (''string-set!'', 3, ''string_set_x''), (''make-struct'', 3, ''make_struct''),
     (''struct-length'', 1, ''struct_length''), (''struct-ref'', 2, ''struct_ref''),
     (''struct-set!'', 3, ''struct_set_x''), (''make-variable'', 1, ''make_variable''),
     (''variable?'', 1, ''variable_p''), (''variable-ref'', 1, ''variable_ref''),
     (''variable-set!'', 2, ''variable_set_x''),
     (''variable-printer'', 1, ''variable_printer''),
     (''make-vector'', -1, ''make_vector''), (''vector-length'', 1, ''vector_length''),
     (''vector-ref'', 2, ''vector_ref''), (''vector-entry'', 1, ''vector_entry''),
     (''vector-set!'', 3, ''vector_set_x''), (''list->vector'', 1, ''list_to_vector''),
     (''vector->list'', 1, ''vector_to_list'')]"

definition mescc_specs :: "(string \<times> int \<times> string) list" where
  "mescc_specs =
    [(''getpid'', 0, ''getpid_''), (''environ'', -1, ''environ_''),
     (''opendir'', 1, ''opendir_''), (''closedir'', 1, ''closedir_''),
     (''readdir'', 1, ''readdir_''), (''pipe'', 0, ''pipe_''),
     (''close-port'', 1, ''close_port''), (''seek'', 3, ''seek''),
     (''chdir'', 1, ''chdir_''), (''stat'', -1, ''stat_''), (''lstat'', -1, ''lstat_''),
     (''rename-file'', 2, ''rename_file''), (''mkdir'', 1, ''mkdir_''),
     (''rmdir'', 1, ''rmdir_''), (''link'', 2, ''link_''), (''symlink'', 2, ''symlink_''),
     (''umask'', -1, ''umask_''), (''utime'', 3, ''utime_''), (''sleep'', 1, ''sleep_'')]"

definition open_constants :: "(string \<times> int) list" where
  "open_constants = [(''O_RDONLY'', 0), (''O_WRONLY'', 1), (''O_CREAT'', 64), (''O_TRUNC'', 512)]"

definition mescc_constants :: "(string \<times> int) list" where
  "mescc_constants = [(''O_RDWR'', 2), (''O_EXCL'', 128), (''O_APPEND'', 1024),
     (''SEEK_SET'', 0), (''SEEK_CUR'', 1), (''SEEK_END'', 2), (''WNOHANG'', 1)]"

definition init_builtin :: "addr \<Rightarrow> string \<Rightarrow> int \<Rightarrow> int \<Rightarrow> addr \<Rightarrow> addr mes" where
  "init_builtin builtin_type name arity function a =
     mbind (cstring_to_symbol (cstring name)) (\<lambda>sym.
     mbind (symbol_to_string sym) (\<lambda>str.
     mbind (make_number arity) (\<lambda>n.
     mbind (make_number function) (\<lambda>f.
     mbind (make_builtin builtin_type str n f) (\<lambda>b.
     acons sym b a)))))"

primrec init_builtins :: "(string \<Rightarrow> int) \<Rightarrow> addr \<Rightarrow> (string \<times> int \<times> string) list \<Rightarrow> addr \<Rightarrow> addr mes" where
  "init_builtins address builtin_type [] a = ret a"
| "init_builtins address builtin_type (spec # specs) a =
     (case spec of (name, arity, function) \<Rightarrow>
        mbind (init_builtin builtin_type name arity (address function) a)
          (init_builtins address builtin_type specs))"

primrec init_constants :: "(string \<times> int) list \<Rightarrow> addr \<Rightarrow> addr mes" where
  "init_constants [] a = ret a"
| "init_constants (c # cs) a =
     mbind (cstring_to_symbol (cstring (fst c))) (\<lambda>sym.
     mbind (make_number (snd c)) (\<lambda>n.
     mbind (acons sym n a) (init_constants cs)))"

definition mes_builtins :: "bool \<Rightarrow> (string \<Rightarrow> int) \<Rightarrow> addr \<Rightarrow> addr mes" where
  "mes_builtins mini address a =
     mbind make_builtin_type (\<lambda>builtin_type.
     if mini then init_builtins address builtin_type builtin_specs_mini a
     else mbind (init_builtins address builtin_type builtin_specs a) (\<lambda>a.
          mbind (init_constants open_constants a) (\<lambda>a.
          mbind (init_builtins address builtin_type reader_specs a) (\<lambda>a.
          mbind (init_builtins address builtin_type mescc_specs a) (\<lambda>a.
          init_constants mescc_constants a)))))"

section \<open>The first environment\<close>

definition type_constants :: "(addr \<times> tag) list" where
  "type_constants =
    [(cell_type_bytes, TBYTES), (cell_type_char, TCHAR), (cell_type_closure, TCLOSURE),
     (cell_type_continuation, TCONTINUATION), (cell_type_keyword, TKEYWORD),
     (cell_type_macro, TMACRO), (cell_type_number, TNUMBER), (cell_type_pair, TPAIR),
     (cell_type_port, TPORT), (cell_type_ref, TREF), (cell_type_special, TSPECIAL),
     (cell_type_string, TSTRING), (cell_type_struct, TSTRUCT), (cell_type_symbol, TSYMBOL),
     (cell_type_values, TVALUES), (cell_type_binding, TBINDING), (cell_type_vector, TVECTOR),
     (cell_type_broken_heart, TBROKEN_HEART)]"

primrec bind_types :: "(addr \<times> tag) list \<Rightarrow> addr \<Rightarrow> addr mes" where
  "bind_types [] a = ret a"
| "bind_types (c # cs) a =
     mbind (make_number (tag_number (snd c))) (\<lambda>n. mbind (acons (fst c) n a) (bind_types cs))"

text \<open>Symbols bound to themselves.\<close>

primrec bind_self :: "addr list \<Rightarrow> addr \<Rightarrow> addr mes" where
  "bind_self [] a = ret a"
| "bind_self (k # ks) a = mbind (acons k k a) (bind_self ks)"

definition init_symbols :: "byte list \<Rightarrow> byte list \<Rightarrow> addr mes" where
  "init_symbols version datadir =
     mseq (modify (\<lambda>s. s\<lparr>g_free := g_cells s + 1, g_symbols := 0\<rparr>))
     (mseq init_symbols_c
     (mseq (modify (\<lambda>s. s\<lparr>g_symbol_max := g_symbol s\<rparr>))
     (mbind (make_hash_table_c 500) (\<lambda>table.
      mseq (modify (\<lambda>s. s\<lparr>g_symbols := table\<rparr>))
      (mseq init_symbols_c
      (mseq (modify (\<lambda>s. s\<lparr>g_ports := cell_nil\<rparr>))
      (mbind (bind_self [cell_symbol_call_with_values, cell_symbol_current_environment] cell_nil) (\<lambda>a.
       mbind (make_string0 version) (\<lambda>v. mbind (acons cell_symbol_mes_version v a) (\<lambda>a.
       mbind (make_string0 datadir) (\<lambda>d. mbind (acons cell_symbol_mes_datadir d a) (\<lambda>a.
       mbind (bind_types type_constants a) (\<lambda>a.
       mbind (cstring_to_symbol (cstring ''hash-table-type'')) (\<lambda>n.
       mbind (gets hash_table_type) (\<lambda>t. mbind (acons n t a) (\<lambda>a.
       acons cell_closure a a))))))))))))))))"

definition mes_g_stack :: "addr \<Rightarrow> addr mes" where
  "mes_g_stack a =
     mseq (modify (\<lambda>s. s\<lparr>g_stack := STACK_SIZE s, R0 := a\<rparr>))
     (mbind (make_char 0) (\<lambda>c1. mseq (modify (\<lambda>s. s\<lparr>R1 := c1\<rparr>))
     (mbind (make_char 0) (\<lambda>c2. mseq (modify (\<lambda>s. s\<lparr>R2 := c2\<rparr>))
     (mbind (make_char 0) (\<lambda>c3. mseq (modify (\<lambda>s. s\<lparr>R3 := c3\<rparr>))
     (gets R0)))))))"

text \<open>The arguments of the command line, the last one first.\<close>

primrec argv_list :: "byte list list \<Rightarrow> addr \<Rightarrow> addr mes" where
  "argv_list [] lst = ret lst"
| "argv_list (arg # args) lst =
     mbind (make_string0 arg) (\<lambda>str. mbind (cons str lst) (argv_list args))"

definition mes_environment :: "byte list \<Rightarrow> byte list \<Rightarrow> byte list list \<Rightarrow> addr mes" where
  "mes_environment version datadir argv =
     mbind (init_symbols version datadir) (\<lambda>a.
     mbind (bind_self [cell_symbol_call_with_current_continuation, cell_symbol_call_with_values,
        cell_symbol_current_environment, cell_symbol_lambda, cell_symbol_quote, cell_symbol_begin,
        cell_symbol_if, cell_symbol_set_x, cell_symbol_define, cell_symbol_define_macro] a) (\<lambda>a.
     mbind (make_string0 (cstring ''gnuc'')) (\<lambda>c. mbind (acons cell_symbol_compiler c a) (\<lambda>a.
     mbind (make_string0 (cstring ''x86_64'')) (\<lambda>c. mbind (acons cell_symbol_arch c a) (\<lambda>a.
     mbind (argv_list (rev argv) cell_nil) (\<lambda>lst. mbind (acons cell_symbol_argv lst a) (\<lambda>a.
     mes_g_stack a))))))))"

end
