(* ===== verification/Mes_Eval.thy ===== *)
theory Mes_Eval
  imports Mes_Builtins
begin

text \<open>
  The evaluator, src/src/eval-apply.c, and \<^verbatim>\<open>error\<close> of src/src/core.c. \<^verbatim>\<open>eval_apply\<close> is one
  C function whose labels are the states of a machine: a label is a value of type \<open>label\<close>, the
  code between two jumps a step, and \<^verbatim>\<open>vm_return\<close> jumps to the label that the popped frame
  has in \<^verbatim>\<open>R3\<close>. The C locals that live across a jump, \<^verbatim>\<open>x\<close> in the loops of \<^verbatim>\<open>begin\<close>
  and \<^verbatim>\<open>begin_expand\<close>, are arguments of the label of the loop head.

  The record \<open>world\<close> holds what the evaluator calls and does not define: the C functions behind
  the primitives, the memory that the collector gets from \<^verbatim>\<open>realloc\<close>, and the evaluator
  itself, called again (by \<^verbatim>\<open>error\<close> and by an eval closure written in Scheme). The end of
  the theory ties that knot: \<open>evaluator n\<close> allows \<open>n\<close> nested calls.

  \<^verbatim>\<open>error\<close> calls the Scheme procedure \<^verbatim>\<open>throw\<close>; an error that a primitive raises makes what
  that call returns the value of the primitive. Messages on the error port are left out.
\<close>

section \<open>What the evaluator is given\<close>

record world =
  nested :: "addr \<Rightarrow> addr \<Rightarrow> addr \<Rightarrow> addr mes"
  call_function :: "int \<Rightarrow> addr list \<Rightarrow> addr mes"
  realloc :: "addr \<Rightarrow> int \<Rightarrow> addr"
  memory :: "addr \<Rightarrow> cell"

definition set_R0 :: "addr \<Rightarrow> unit mes" where
  "set_R0 x = modify (\<lambda>s. s\<lparr>R0 := x\<rparr>)"

definition set_R1 :: "addr \<Rightarrow> unit mes" where
  "set_R1 x = modify (\<lambda>s. s\<lparr>R1 := x\<rparr>)"

definition set_R2 :: "addr \<Rightarrow> unit mes" where
  "set_R2 x = modify (\<lambda>s. s\<lparr>R2 := x\<rparr>)"

definition set_R3 :: "addr \<Rightarrow> unit mes" where
  "set_R3 x = modify (\<lambda>s. s\<lparr>R3 := x\<rparr>)"

lemma set_R_apply [simp, monad_simps]:
  "set_R0 x s = Some (Inr (), s\<lparr>R0 := x\<rparr>)" "set_R1 x s = Some (Inr (), s\<lparr>R1 := x\<rparr>)"
  "set_R2 x s = Some (Inr (), s\<lparr>R2 := x\<rparr>)" "set_R3 x s = Some (Inr (), s\<lparr>R3 := x\<rparr>)"
  by (simp_all add: set_R0_def set_R1_def set_R2_def set_R3_def)

section \<open>Bindings, lookup and errors\<close>

text \<open>The handle of a binding is its first word, \<^verbatim>\<open>lexical_p\<close> its second.\<close>

definition make_binding_c :: "addr \<Rightarrow> int \<Rightarrow> addr mes" where
  "make_binding_c handle lexical_p =
     mbind (make_cell TBINDING handle 0) (\<lambda>binding.
     mseq (set_cdr binding lexical_p)
     (ret binding))"

definition make_binding :: "addr \<Rightarrow> addr \<Rightarrow> addr mes" where
  "make_binding name variable = mbind (cons name variable) (\<lambda>p. make_binding_c p 0)"

definition lookup_binding :: "world \<Rightarrow> addr \<Rightarrow> addr \<Rightarrow> addr mes" where
  "lookup_binding W name define_p =
     mbind (gets R0) (\<lambda>r0. mbind (assq name r0) (\<lambda>handle.
     if handle \<noteq> cell_f then make_binding_c handle 1
     else mbind (current_module_variable (nested W) name define_p) (\<lambda>variable.
       if variable \<noteq> cell_f
       then mbind (cons name variable) (\<lambda>p. make_binding_c p 0)
       else ret cell_f)))"

definition lookup_value :: "world \<Rightarrow> addr \<Rightarrow> addr mes" where
  "lookup_value W name =
     mbind (lookup_binding W name cell_f) (\<lambda>binding.
     if binding \<noteq> cell_f
     then mbind (get_cdr binding) (\<lambda>lexical_p.
          if lexical_p \<noteq> 0 then a_cdr (get_car binding)
          else mbind (a_cdr (get_car binding)) variable_ref)
     else ret cell_undefined)"

definition error :: "world \<Rightarrow> addr \<Rightarrow> addr \<Rightarrow> addr mes" where
  "error W key x =
     mbind (lookup_value W cell_symbol_throw) (\<lambda>throw.
     if throw \<noteq> cell_undefined
     then mbind (cons x cell_nil) (\<lambda>l. mbind (cons key l) (\<lambda>args. mbind (gets R0) (\<lambda>r0.
            nested W throw args r0)))
     else fail (Assert ''ERROR''))"

text \<open>A primitive that ends in a call of \<^verbatim>\<open>error\<close>.\<close>

definition with_error :: "world \<Rightarrow> addr mes \<Rightarrow> addr mes" where
  "with_error W p = (\<lambda>s. case p s of
       Some (Inl (Throw key x), s') \<Rightarrow> error W key x s'
     | r \<Rightarrow> r)"

definition assert_defined :: "world \<Rightarrow> addr \<Rightarrow> addr \<Rightarrow> addr mes" where
  "assert_defined W x e = (if e = cell_undefined then error W cell_symbol_unbound_variable x else ret e)"

definition check_formals :: "world \<Rightarrow> addr \<Rightarrow> addr \<Rightarrow> addr \<Rightarrow> addr mes" where
  "check_formals W f formals args =
     mbind (get_type formals) (\<lambda>t.
     mbind (if t = TNUMBER then get_cdr formals else length_c formals) (\<lambda>flen.
     mbind (length_c args) (\<lambda>alen.
     if alen \<noteq> flen \<and> alen \<noteq> -1 \<and> flen \<noteq> -1
     then mbind (make_string0 (cstring ''apply: wrong number of arguments; expected: '')) (\<lambda>e.
          mbind (cons e f) (\<lambda>p. error W cell_symbol_wrong_number_of_args p))
     else ret cell_unspecified)))"

text \<open>The test of \<^verbatim>\<open>check_apply\<close>: \<open>f\<close> is of a type that cannot be applied.\<close>

definition not_applicable :: "addr \<Rightarrow> bool mes" where
  "not_applicable f =
     mbind (get_type f) (\<lambda>t.
     mbind (if t = TSTRUCT then mbind (builtin_p f) (\<lambda>b. ret (b = cell_f)) else ret False) (\<lambda>opaque.
     ret (f \<in> {cell_f, cell_t, cell_nil, cell_unspecified, cell_undefined}
       \<or> t \<in> {TCHAR, TNUMBER, TSTRING, TBROKEN_HEART} \<or> opaque)))"

definition check_apply :: "world \<Rightarrow> addr \<Rightarrow> addr \<Rightarrow> addr mes" where
  "check_apply W f e =
     mbind (not_applicable f) (\<lambda>bad.
     if bad
     then mbind (make_string0 (cstring ''cannot apply: '')) (\<lambda>m.
          mbind (cons m f) (\<lambda>p. error W cell_symbol_wrong_type_arg p))
     else ret cell_unspecified)"

section \<open>Environments and assignment\<close>

partial_function (option) pairlis :: "addr \<Rightarrow> addr \<Rightarrow> addr \<Rightarrow> addr mes" where
  "pairlis x y a s =
     (if x = cell_nil then ret a
      else mbind (get_type x) (\<lambda>t.
        if t \<noteq> TPAIR then mbind (cons x y) (\<lambda>p. cons p a)
        else mbind (car x) (\<lambda>ax. mbind (car y) (\<lambda>ay. mbind (cons ax ay) (\<lambda>p.
             mbind (cdr x) (\<lambda>dx. mbind (cdr y) (\<lambda>dy. mbind (pairlis dx dy a) (\<lambda>rest.
             cons p rest)))))))) s"

definition set_car_x :: "world \<Rightarrow> addr \<Rightarrow> addr \<Rightarrow> addr mes" where
  "set_car_x W x e =
     mbind (get_type x) (\<lambda>t.
     mseq (mwhen (t \<noteq> TPAIR) (mbind (cstring_to_symbol (cstring ''set-car!'')) (\<lambda>n.
       mbind (cons x n) (\<lambda>p. mbind (error W cell_symbol_not_a_pair p) (\<lambda>_. ret ())))))
     (mseq (set_car x e)
     (ret cell_unspecified)))"

definition set_cdr_x :: "world \<Rightarrow> addr \<Rightarrow> addr \<Rightarrow> addr mes" where
  "set_cdr_x W x e =
     mbind (get_type x) (\<lambda>t.
     mseq (mwhen (t \<noteq> TPAIR) (mbind (cstring_to_symbol (cstring ''set-cdr!'')) (\<lambda>n.
       mbind (cons x n) (\<lambda>p. mbind (error W cell_symbol_not_a_pair p) (\<lambda>_. ret ())))))
     (mseq (set_cdr x e)
     (ret cell_unspecified)))"

definition set_x :: "world \<Rightarrow> addr \<Rightarrow> addr \<Rightarrow> bool \<Rightarrow> addr mes" where
  "set_x W x e define_p =
     mbind (get_type x) (\<lambda>t.
     mbind (if t = TBINDING then ret x else lookup_binding W x cell_f) (\<lambda>binding.
     if binding = cell_f then error W cell_symbol_unbound_variable x
     else mbind (get_cdr binding) (\<lambda>lexical_p.
       if lexical_p \<noteq> 0
       then mseq (mbind (get_car binding) (\<lambda>h. set_cdr_x W h e)) (ret cell_unspecified)
       else mbind (a_cdr (get_car binding)) (\<lambda>variable.
            mbind (if define_p then ret False else mbind (variable_ref variable) (\<lambda>v. ret (v = cell_undefined)))
            (\<lambda>unbound.
            if unbound then mbind (a_car (get_car binding)) (error W cell_symbol_unbound_variable)
            else mseq (mbind (a_cdr (get_car binding)) (\<lambda>var. variable_set_x var e))
                 (ret cell_unspecified))))))"

definition call_lambda :: "addr \<Rightarrow> addr \<Rightarrow> addr \<Rightarrow> addr mes" where
  "call_lambda e x aa =
     mbind (cons cell_closure x) (\<lambda>p. mbind (cons p x) (\<lambda>cl.
     mseq (set_R1 e) (mseq (set_R0 cl) (ret cell_unspecified))))"

definition make_closure_c :: "addr \<Rightarrow> addr \<Rightarrow> addr \<Rightarrow> addr mes" where
  "make_closure_c args body a =
     mbind (cons cell_circular a) (\<lambda>p. mbind (cons args body) (\<lambda>q. mbind (cons p q) (\<lambda>cl.
     make_cell TCLOSURE cell_f cl)))"

definition macro_get_handle :: "addr \<Rightarrow> addr mes" where
  "macro_get_handle name =
     mbind (get_type name) (\<lambda>t.
     if t = TSYMBOL then mbind (gets g_macros) (\<lambda>table. hashq_get_handle table name) else ret cell_f)"

definition get_macro :: "addr \<Rightarrow> addr mes" where
  "get_macro name =
     mbind (macro_get_handle name) (\<lambda>m.
     if m \<noteq> cell_f then mbind (get_cdr m) get_car else ret cell_f)"

definition macro_set_x :: "addr \<Rightarrow> addr \<Rightarrow> addr mes" where
  "macro_set_x name val = mbind (gets g_macros) (\<lambda>table. hashq_set_x table name val)"

definition push_cc :: "addr \<Rightarrow> addr \<Rightarrow> addr \<Rightarrow> addr \<Rightarrow> addr mes" where
  "push_cc p1 p2 a c =
     mbind (gets R3) (\<lambda>x.
     mseq (set_R3 c)
     (mseq (set_R2 p2)
     (mseq gc_push_frame
     (mseq (set_R1 p1)
     (mseq (set_R0 a)
     (mseq (set_R3 x)
     (ret cell_unspecified)))))))"

section \<open>Expansion of variables\<close>

partial_function (option) add_formals :: "addr \<Rightarrow> addr \<Rightarrow> addr mes" where
  "add_formals formals x s =
     mbind (get_type x) (\<lambda>t.
     if t = TPAIR
     then mbind (get_car x) (\<lambda>a. mbind (cons a formals) (\<lambda>formals'.
          mbind (get_cdr x) (\<lambda>d. add_formals formals' d)))
     else if t = TSYMBOL then cons x formals
     else ret formals) s"

partial_function (option) formal_p_loop :: "addr \<Rightarrow> addr \<Rightarrow> bool mes" where
  "formal_p_loop x formals s =
     mbind (get_type formals) (\<lambda>t.
     if t = TPAIR
     then mbind (get_car formals) (\<lambda>a.
          if a = x then ret True else mbind (get_cdr formals) (\<lambda>d. formal_p_loop x d))
     else if t = TSYMBOL then ret (formals = x)
     else ret False) s"

definition formal_p :: "addr \<Rightarrow> addr \<Rightarrow> bool mes" where
  "formal_p x formals =
     mbind (get_type formals) (\<lambda>t.
     if t = TSYMBOL then ret (x = formals) else formal_p_loop x formals)"

text \<open>The first loop of \<^verbatim>\<open>expand_variable_\<close>: the names of internal definitions.\<close>

partial_function (option) collect_defines :: "addr \<Rightarrow> unit mes" where
  "collect_defines v s =
     mbind (get_type v) (\<lambda>t.
     if t = TPAIR
     then mbind (get_car v) (\<lambda>a.
          if a = cell_symbol_quote then ret ()
          else mbind (get_type a) (\<lambda>ta.
            mseq (if ta = TPAIR
                  then mbind (get_car a) (\<lambda>aa.
                    mwhen (aa = cell_symbol_define \<or> aa = cell_symbol_define_macro)
                      (mbind (a_car (get_cdr a)) (\<lambda>f. mbind (get_type f) (\<lambda>tf.
                       mbind (if tf = TPAIR then get_car f else ret f) (\<lambda>name.
                       mbind (gets R2) (\<lambda>r2. mbind (cons name r2) set_R2))))))
                  else ret ())
            (mbind (get_cdr v) collect_defines)))
     else ret ()) s"

text \<open>The second: a symbol that is no formal is replaced by what it is bound to.\<close>

partial_function (option) expand_loop :: "world \<Rightarrow> bool \<Rightarrow> unit mes" where
  "expand_loop W top_p s =
     mbind (gets R1) (\<lambda>r1. mbind (get_type r1) (\<lambda>t1.
     if t1 = TPAIR
     then mbind (get_car r1) (\<lambda>a. mbind (get_type a) (\<lambda>ta.
          if ta = TPAIR
          then mseq (mbind (gets R2) (\<lambda>r2. mbind (cons a r2) (\<lambda>p. mbind (gets R3) (\<lambda>r3.
                 mbind (cons p r3) set_R3))))
               (mseq (mbind (a_cdr (gets R1)) set_R1) (expand_loop W False))
          else if a = cell_symbol_lambda
          then mbind (a_car (get_cdr r1)) (\<lambda>f.
               mseq (mbind (gets R2) (\<lambda>r2. mbind (add_formals r2 f) set_R2))
               (mseq (mbind (a_cdr (gets R1)) set_R1)
               (mseq (mbind (a_cdr (gets R1)) set_R1) (expand_loop W False))))
          else if a = cell_symbol_define \<or> a = cell_symbol_define_macro
          then mbind (a_car (get_cdr r1)) (\<lambda>f.
               mbind (if top_p then mbind (get_type f) (\<lambda>tf. if tf = TPAIR then get_cdr f else ret cell_nil)
                      else ret f) (\<lambda>f.
               mseq (mbind (gets R2) (\<lambda>r2. mbind (add_formals r2 f) set_R2))
               (mseq (mbind (a_cdr (gets R1)) set_R1)
               (mseq (mbind (a_cdr (gets R1)) set_R1) (expand_loop W False)))))
          else if a = cell_symbol_quote then ret ()
          else mseq (if ta = TSYMBOL \<and> a \<noteq> cell_symbol_current_environment
                     then mbind (gets R2) (\<lambda>r2. mbind (formal_p a r2) (\<lambda>formal.
                       mwhen (\<not> formal)
                         (mbind (lookup_binding W a cell_f) (\<lambda>v.
                          mbind (if v \<noteq> cell_f then ret v else lookup_binding W a cell_t) (\<lambda>w.
                          mbind (gets R1) (\<lambda>r1. set_car r1 w))))))
                     else ret ())
               (mseq (mbind (a_cdr (gets R1)) set_R1) (expand_loop W False))))
     else ret ())) s"

definition expand_variable_c :: "world \<Rightarrow> bool \<Rightarrow> unit mes" where
  "expand_variable_c W top_p = mseq (mbind (gets R1) collect_defines) (expand_loop W top_p)"

partial_function (option) expand_rest :: "world \<Rightarrow> unit mes" where
  "expand_rest W s =
     mbind (gets R3) (\<lambda>r3. mbind (get_type r3) (\<lambda>t.
     if t = TPAIR
     then mseq (mbind (a_car (a_car (gets R3))) set_R1)
          (mseq (mbind (a_cdr (a_car (gets R3))) set_R2)
          (mseq (mbind (a_cdr (gets R3)) set_R3)
          (mseq (expand_variable_c W False)
          (expand_rest W))))
     else ret ())) s"

definition expand_variable :: "world \<Rightarrow> addr \<Rightarrow> addr \<Rightarrow> addr mes" where
  "expand_variable W x formals =
     mseq gc_push_frame
     (mseq (set_R1 x)
     (mseq (set_R2 formals)
     (mseq (set_R3 cell_nil)
     (mseq (expand_variable_c W True)
     (mseq (expand_rest W)
     (mseq gc_pop_frame
     (ret cell_unspecified)))))))"

section \<open>Primitives\<close>

text \<open>
  A multiple value as first or second argument is replaced by its first value; for the second
  the C code keeps the replaced argument as the third element of the list.
\<close>

definition first_value :: "int \<Rightarrow> addr \<Rightarrow> addr mes" where
  "first_value arity x =
     (if (arity > 0 \<or> arity = -1) \<and> x \<noteq> cell_nil
      then mbind (get_car x) (\<lambda>a. mbind (get_type a) (\<lambda>t.
           if t = TVALUES
           then mbind (a_car (get_cdr a)) (\<lambda>v. mbind (get_cdr x) (\<lambda>d. cons v d))
           else ret x))
      else ret x)"

definition second_value :: "int \<Rightarrow> addr \<Rightarrow> addr mes" where
  "second_value arity x =
     (if (arity > 1 \<or> arity = -1) \<and> x \<noteq> cell_nil
      then mbind (get_car x) (\<lambda>a. mbind (get_cdr x) (\<lambda>d. mbind (get_type d) (\<lambda>t.
           if t = TPAIR
           then mbind (get_car d) (\<lambda>b. mbind (get_type b) (\<lambda>tb.
                if tb = TVALUES
                then mbind (a_car (get_cdr b)) (\<lambda>v. mbind (cons v d) (\<lambda>d'. cons a d'))
                else ret x))
           else ret x)))
      else ret x)"

definition apply_builtin :: "world \<Rightarrow> addr \<Rightarrow> addr \<Rightarrow> addr mes" where
  "apply_builtin W fn x =
     mbind (builtin_arity fn) (\<lambda>a. mbind (get_cdr a) (\<lambda>n.
     let arity = to_int n; call = call_function W in
     mbind (first_value arity x) (\<lambda>x. mbind (second_value arity x) (\<lambda>x.
     with_error W
      (if arity = 0 then apply_builtin0 call fn
       else if arity = 1 then mbind (get_car x) (apply_builtin1 call fn)
       else if arity = 2
       then mbind (get_car x) (\<lambda>a. mbind (a_car (get_cdr x)) (\<lambda>b. apply_builtin2 call fn a b))
       else if arity = 3
       then mbind (get_car x) (\<lambda>a. mbind (a_car (get_cdr x)) (\<lambda>b. mbind (a_car (a_cdr (get_cdr x))) (\<lambda>c.
            apply_builtin3 call fn a b c)))
       else if arity = -1 then apply_builtin1 call fn x
       else ret cell_unspecified)))))"

section \<open>The machine\<close>

datatype label =
    Dispatch
  | Evlis | Evlis2 | Evlis3
  | Apply | Apply2
  | Eval | Eval_set_x | Eval_macro_expand_eval | Eval_macro_expand_expand | Eval_define
  | Eval_check_func | Eval2
  | Macro_expand | Macro_expand_lambda | Macro_expand_define | Macro_expand_define_macro
  | Macro_expand_set_x | Macro_expand_car | Macro_expand_cdr
  | Begin | Begin_while addr | Begin_eval
  | Begin_expand | Begin_expand_test addr | Begin_expand_while | Begin_expand_macro | Begin_expand_eval
  | Vm_if | If_expr
  | Call_with_current_continuation | Call_with_current_continuation2
  | Call_with_values | Call_with_values2
  | Vm_return

text \<open>A step ends in a jump or in a \<^verbatim>\<open>return\<close>.\<close>

datatype next_step = Goto label | Return addr

text \<open>The continuations that can be in \<^verbatim>\<open>R3\<close>, in the order in which the code compares them.\<close>

definition continuations :: "(addr \<times> label) list" where
  "continuations =
    [(cell_vm_evlis2, Evlis2), (cell_vm_evlis3, Evlis3), (cell_vm_eval_check_func, Eval_check_func),
     (cell_vm_eval2, Eval2), (cell_vm_apply2, Apply2), (cell_vm_if_expr, If_expr),
     (cell_vm_begin_eval, Begin_eval), (cell_vm_eval_set_x, Eval_set_x),
     (cell_vm_macro_expand_car, Macro_expand_car), (cell_vm_return, Vm_return),
     (cell_vm_macro_expand_cdr, Macro_expand_cdr), (cell_vm_eval_define, Eval_define),
     (cell_vm_macro_expand, Macro_expand), (cell_vm_macro_expand_lambda, Macro_expand_lambda),
     (cell_vm_begin_expand_macro, Begin_expand_macro),
     (cell_vm_macro_expand_define, Macro_expand_define), (cell_vm_begin_expand_eval, Begin_expand_eval),
     (cell_vm_call_with_current_continuation2, Call_with_current_continuation2),
     (cell_vm_macro_expand_set_x, Macro_expand_set_x),
     (cell_vm_macro_expand_define_macro, Macro_expand_define_macro), (cell_vm_evlis, Evlis),
     (cell_vm_apply, Apply), (cell_vm_eval, Eval),
     (cell_vm_eval_macro_expand_eval, Eval_macro_expand_eval),
     (cell_vm_eval_macro_expand_expand, Eval_macro_expand_expand), (cell_vm_begin, Begin),
     (cell_vm_begin_expand, Begin_expand), (cell_vm_if, Vm_if),
     (cell_vm_call_with_values2, Call_with_values2)]"

definition dispatch :: "next_step mes" where
  "dispatch =
     mbind (gets R3) (\<lambda>r3.
     case map_of continuations r3 of
       Some l \<Rightarrow> ret (Goto l)
     | None \<Rightarrow> if r3 = cell_unspecified then mbind (gets R1) (\<lambda>r1. ret (Return r1))
               else fail (Assert ''eval/apply unknown continuation''))"

text \<open>\<^verbatim>\<open>push_cc (p1, p2, R0, c); goto l;\<close>\<close>

definition push_goto :: "addr \<Rightarrow> addr \<Rightarrow> addr \<Rightarrow> addr \<Rightarrow> label \<Rightarrow> next_step mes" where
  "push_goto p1 p2 a c l = mseq (push_cc p1 p2 a c) (ret (Goto l))"

text \<open>\<^verbatim>\<open>R1 = x; goto vm_return;\<close>\<close>

definition give :: "addr \<Rightarrow> next_step mes" where
  "give x = mseq (set_R1 x) (ret (Goto Vm_return))"

subsection \<open>Arguments\<close>

definition step_evlis :: "next_step mes" where
  "step_evlis =
     mbind (gets R1) (\<lambda>r1.
     if r1 = cell_nil then ret (Goto Vm_return)
     else mbind (get_type r1) (\<lambda>t.
       if t \<noteq> TPAIR then ret (Goto Eval)
       else mbind (get_car r1) (\<lambda>a. mbind (gets R0) (\<lambda>r0. push_goto a r1 r0 cell_vm_evlis2 Eval))))"

definition step_evlis2 :: "next_step mes" where
  "step_evlis2 =
     mbind (a_cdr (gets R2)) (\<lambda>d. mbind (gets R1) (\<lambda>r1. mbind (gets R0) (\<lambda>r0.
     push_goto d r1 r0 cell_vm_evlis3 Evlis)))"

definition step_evlis3 :: "next_step mes" where
  "step_evlis3 = mbind (gets R2) (\<lambda>r2. mbind (gets R1) (\<lambda>r1. mbind (cons r2 r1) give))"

subsection \<open>Application\<close>

definition apply_closure :: "world \<Rightarrow> next_step mes" where
  "apply_closure W =
     mbind (gets R1) (\<lambda>r1. mbind (get_car r1) (\<lambda>f. mbind (get_cdr f) (\<lambda>cl.
     mbind (a_cdr (get_cdr cl)) (\<lambda>body.
     mbind (a_car (get_cdr cl)) (\<lambda>formals.
     mbind (get_cdr r1) (\<lambda>args.
     mbind (a_cdr (a_cdr (get_car cl))) (\<lambda>aa.
     mseq (check_formals W f formals args)
     (mbind (pairlis formals args aa) (\<lambda>p.
      mseq (call_lambda body p aa)
      (ret (Goto Begin)))))))))))"

text \<open>A continuation: its vector is put back on the stack.\<close>

definition restore_stack :: "addr \<Rightarrow> unit mes" where
  "restore_stack v =
     mbind (get_car v) (\<lambda>len.
     if len \<noteq> 0
     then mbind (gets STACK_SIZE) (\<lambda>size.
          mseq (mfor [0..len - 1] (\<lambda>i. mbind (vector_ref_c v i) (\<lambda>x. stack_put (size - len + i) x)))
          (modify (\<lambda>s. s\<lparr>g_stack := size - len\<rparr>)))
     else ret ())"

definition apply_continuation :: "next_step mes" where
  "apply_continuation =
     mbind (a_car (gets R1)) (\<lambda>a. mbind (get_cdr a) (\<lambda>v.
     mseq (restore_stack v)
     (mbind (a_car (a_cdr (gets R1))) give)))"

text \<open>The end of the code at \<^verbatim>\<open>apply\<close>: the operator is an expression to evaluate.\<close>

definition apply_operator :: "next_step mes" where
  "apply_operator =
     mbind (gets R1) (\<lambda>r1. mbind (get_car r1) (\<lambda>f. mbind (gets R0) (\<lambda>r0.
     push_goto f r1 r0 cell_vm_apply2 Eval)))"

definition apply_special :: "world \<Rightarrow> addr \<Rightarrow> next_step mes" where
  "apply_special W c =
     mbind (gets R1) (\<lambda>r1. mbind (gets R0) (\<lambda>r0.
     if c = cell_vm_apply
     then mbind (a_car (get_cdr r1)) (\<lambda>f. mbind (a_car (a_cdr (get_cdr r1))) (\<lambda>args.
          mbind (cons f args) (\<lambda>p. push_goto p r1 r0 cell_vm_return Apply)))
     else if c = cell_vm_eval
     then mbind (a_car (get_cdr r1)) (\<lambda>e. mbind (a_car (a_cdr (get_cdr r1))) (\<lambda>env.
          push_goto e r1 env cell_vm_return Eval))
     else if c = cell_vm_begin_expand
     then mbind (a_car (get_cdr r1)) (\<lambda>e. mbind (cons e cell_nil) (\<lambda>p.
          mbind (a_car (a_cdr (get_cdr r1))) (\<lambda>env. push_goto p r1 env cell_vm_return Begin_expand)))
     else mseq (check_apply W cell_f c) apply_operator))"

definition apply_lambda :: "world \<Rightarrow> next_step mes" where
  "apply_lambda W =
     mbind (gets R1) (\<lambda>r1. mbind (get_car r1) (\<lambda>f.
     mbind (a_car (get_cdr f)) (\<lambda>formals.
     mbind (get_cdr r1) (\<lambda>args.
     mbind (a_cdr (get_cdr f)) (\<lambda>body.
     mbind (gets R0) (\<lambda>r0. mbind (pairlis formals args r0) (\<lambda>p.
     mseq (check_formals W r1 formals args)
     (mseq (call_lambda body p p)
     (ret (Goto Begin))))))))))"

definition step_apply :: "world \<Rightarrow> next_step mes" where
  "step_apply W =
     mbind (gets R1) (\<lambda>r1. mbind (get_car r1) (\<lambda>a.
     mseq (mbind (gets g_stack) (\<lambda>st. stack_put (st + GC_FRAME_PROCEDURE) a))
     (mbind (get_type a) (\<lambda>t.
      mbind (if t = TSTRUCT then mbind (builtin_p a) (\<lambda>b. ret (b = cell_t)) else ret False) (\<lambda>builtin.
      if builtin
      then mbind (get_cdr r1) (\<lambda>args.
           mseq (mbind (builtin_arity a) (\<lambda>n. check_formals W a n args))
           (mbind (a_car (gets R1)) (\<lambda>f. mbind (a_cdr (gets R1)) (\<lambda>args.
            mbind (apply_builtin W f args) give))))
      else if t = TCLOSURE then apply_closure W
      else if t = TCONTINUATION then apply_continuation
      else if t = TSPECIAL then apply_special W a
      else if t = TSYMBOL \<and> a = cell_symbol_call_with_current_continuation
      then mseq (mbind (get_cdr r1) set_R1) (ret (Goto Call_with_current_continuation))
      else if t = TSYMBOL \<and> a = cell_symbol_call_with_values
      then mseq (mbind (get_cdr r1) set_R1) (ret (Goto Call_with_values))
      else if t = TSYMBOL \<and> a = cell_symbol_current_environment
      then mbind (gets R0) give
      else if t = TPAIR
      then mbind (get_car a) (\<lambda>aa. if aa = cell_symbol_lambda then apply_lambda W else apply_operator)
      else apply_operator)))))"

definition step_apply2 :: "world \<Rightarrow> next_step mes" where
  "step_apply2 W =
     mbind (gets R1) (\<lambda>r1.
     mseq (mbind (a_car (gets R2)) (check_apply W r1))
     (mbind (gets R1) (\<lambda>r1. mbind (a_cdr (gets R2)) (\<lambda>args. mbind (cons r1 args) (\<lambda>p.
      mseq (set_R1 p) (ret (Goto Apply)))))))"

subsection \<open>Evaluation\<close>

text \<open>What a \<^verbatim>\<open>TBINDING\<close> cell is bound to.\<close>

definition binding_value :: "addr \<Rightarrow> addr mes" where
  "binding_value b =
     mbind (get_cdr b) (\<lambda>lexical_p.
     if lexical_p \<noteq> 0 then a_cdr (get_car b) else mbind (a_cdr (get_car b)) variable_ref)"

text \<open>Whether a definition is at top level: \<^verbatim>\<open>R0->car->car != cell_closure\<close>.\<close>

definition global_p :: "bool mes" where
  "global_p = mbind (a_car (a_car (gets R0))) (\<lambda>k. ret (k \<noteq> cell_closure))"

text \<open>The name in a definition, of a value or of a procedure.\<close>

definition defined_name :: "addr \<Rightarrow> addr mes" where
  "defined_name e =
     mbind (a_car (get_cdr e)) (\<lambda>aa. mbind (get_type aa) (\<lambda>t.
     if t = TPAIR then get_car aa else ret aa))"

definition eval_define_form :: "world \<Rightarrow> next_step mes" where
  "eval_define_form W =
     mbind global_p (\<lambda>global.
     mbind (a_car (gets R1)) (\<lambda>key. let macro = (key = cell_symbol_define_macro) in
     mseq (if global
           then mbind (gets R1) (\<lambda>r1. mbind (defined_name r1) (\<lambda>name.
             if macro
             then mbind (macro_get_handle name) (\<lambda>entry.
                  mwhen (entry = cell_f) (mseq (macro_set_x name cell_f) (ret ())))
             else mseq (lookup_binding W name cell_t) (ret ())))
           else ret ())
     (mseq (mbind (gets R1) set_R2)
     (mbind (gets R1) (\<lambda>r1. mbind (a_car (get_cdr r1)) (\<lambda>aa. mbind (get_type aa) (\<lambda>t.
      if t \<noteq> TPAIR
      then mbind (a_car (a_cdr (get_cdr r1))) (\<lambda>e. mbind (gets R2) (\<lambda>r2.
           mbind (cons aa aa) (\<lambda>p. mbind (gets R0) (\<lambda>r0. mbind (cons p r0) (\<lambda>env.
           push_goto e r2 env cell_vm_eval_define Eval)))))
      else mseq (if macro \<or> global
                 then mbind (a_cdr (get_cdr r1)) (\<lambda>body. mbind (get_cdr aa) (\<lambda>formals.
                      mseq (expand_variable W body formals) (ret ())))
                 else ret ())
           (mbind (gets R1) (\<lambda>r1. mbind (a_car (get_cdr r1)) (\<lambda>aa.
            mbind (get_cdr aa) (\<lambda>formals. mbind (a_cdr (get_cdr r1)) (\<lambda>body.
            mbind (gets R0) (\<lambda>r0. mbind (pairlis aa aa r0) (\<lambda>p.
            mbind (cons formals body) (\<lambda>q. mbind (cons cell_symbol_lambda q) (\<lambda>l.
            mseq (set_R1 l)
            (mbind (gets R2) (\<lambda>r2. push_goto l r2 p cell_vm_eval_define Eval))))))))))))))))))"

definition step_eval_define :: "world \<Rightarrow> next_step mes" where
  "step_eval_define W =
     mbind global_p (\<lambda>global.
     mbind (a_car (gets R2)) (\<lambda>key. let macro = (key = cell_symbol_define_macro) in
     mbind (gets R2) (\<lambda>r2. mbind (defined_name r2) (\<lambda>name.
     mseq (if macro
           then mbind (macro_get_handle name) (\<lambda>entry.
                mseq (mbind (gets R1) (\<lambda>r1. mbind (make_macro name r1) set_R1))
                (mbind (gets R1) (\<lambda>r1. mseq (set_cdr_x W entry r1) (ret ()))))
           else if global
           then mbind (gets R1) (\<lambda>r1. mseq (set_x W name r1 True) (ret ()))
           else mbind (gets R1) (\<lambda>r1. mbind (cons name r1) (\<lambda>entry. mbind (cons entry cell_nil) (\<lambda>aa.
                mseq (mbind (gets R0) (\<lambda>r0. mbind (cdr r0) (set_cdr_x W aa)))
                (mseq (mbind (gets R0) (\<lambda>r0. set_cdr_x W r0 aa))
                (mseq (mbind (gets R0) (\<lambda>r0. mbind (car r0) (\<lambda>c. set_cdr_x W c aa)))
                (ret ())))))))
     (give cell_unspecified)))))"

text \<open>A call: operator first, then the operands.\<close>

definition eval_call :: "world \<Rightarrow> next_step mes" where
  "eval_call W =
     mbind (gets R1) (\<lambda>r1. mbind (get_car r1) (\<lambda>f. mbind (gets R0) (\<lambda>r0.
     mseq (push_cc f r1 r0 cell_vm_eval_check_func)
     (mseq (gc_check (realloc W) (memory W))
     (ret (Goto Eval))))))"

definition eval_form :: "world \<Rightarrow> next_step mes" where
  "eval_form W =
     mbind (gets R1) (\<lambda>r1. mbind (get_car r1) (\<lambda>c. mbind (gets R0) (\<lambda>r0.
     if c = cell_symbol_quote then mbind (a_car (get_cdr r1)) give
     else if c = cell_symbol_begin then ret (Goto Begin)
     else if c = cell_symbol_lambda
     then mbind (a_car (get_cdr r1)) (\<lambda>args. mbind (a_cdr (get_cdr r1)) (\<lambda>body.
          mbind (make_closure_c args body r0) give))
     else if c = cell_symbol_if then mseq (mbind (get_cdr r1) set_R1) (ret (Goto Vm_if))
     else if c = cell_symbol_set_x
     then mbind (a_car (a_cdr (get_cdr r1))) (\<lambda>e. push_goto e r1 r0 cell_vm_eval_set_x Eval)
     else if c = cell_vm_macro_expand
     then mbind (a_car (get_cdr r1)) (\<lambda>e. push_goto e r1 r0 cell_vm_eval_macro_expand_eval Eval)
     else if c = cell_symbol_define \<or> c = cell_symbol_define_macro then eval_define_form W
     else eval_call W)))"

definition eval_pair :: "world \<Rightarrow> next_step mes" where
  "eval_pair W =
     mbind (gets R1) (\<lambda>r1. mbind (get_car r1) (\<lambda>c. mbind (get_type c) (\<lambda>tc.
     if tc = TBINDING
     then mseq (mbind (binding_value c) (set_car r1))
          (mbind (get_car r1) (\<lambda>v.
           if v = cell_undefined
           then mbind (a_car (get_car c)) (\<lambda>name. mbind (error W cell_symbol_unbound_variable name) (\<lambda>r. ret (Return r)))
           else eval_form W))
     else eval_form W)))"

definition step_eval :: "world \<Rightarrow> next_step mes" where
  "step_eval W =
     mbind (gets R1) (\<lambda>r1. mbind (get_type r1) (\<lambda>t.
     if t = TPAIR then eval_pair W
     else if t = TSYMBOL
     then if r1 = cell_symbol_current_environment \<or> r1 = cell_symbol_begin
            \<or> r1 = cell_symbol_call_with_current_continuation
          then ret (Goto Vm_return)
          else mbind (lookup_value W r1) (\<lambda>v. mbind (assert_defined W r1 v) give)
     else if t = TBINDING
     then mbind (a_car (get_car r1)) (\<lambda>name.
          mseq (mbind (binding_value r1) set_R1)
          (mbind (gets R1) (\<lambda>v.
           if v = cell_undefined
           then mbind (error W cell_symbol_unbound_variable name) (\<lambda>r. ret (Return r))
           else ret (Goto Vm_return))))
     else if t = TBROKEN_HEART
     then mseq (error W cell_symbol_system_error r1) (ret (Goto Macro_expand))
     else ret (Goto Vm_return)))"

definition step_eval_set_x :: "world \<Rightarrow> next_step mes" where
  "step_eval_set_x W =
     mbind (a_car (a_cdr (gets R2))) (\<lambda>name. mbind (gets R1) (\<lambda>v.
     mbind (set_x W name v False) give))"

definition step_eval_macro_expand_eval :: "next_step mes" where
  "step_eval_macro_expand_eval =
     mbind (gets R1) (\<lambda>r1. mbind (gets R2) (\<lambda>r2. mbind (gets R0) (\<lambda>r0.
     push_goto r1 r2 r0 cell_vm_eval_macro_expand_expand Macro_expand)))"

definition step_eval_check_func :: "next_step mes" where
  "step_eval_check_func =
     mbind (gets R2) (\<lambda>r2. mbind (get_cdr r2) (\<lambda>d. mbind (gets R0) (\<lambda>r0.
     push_goto d r2 r0 cell_vm_eval2 Evlis)))"

definition step_eval2 :: "next_step mes" where
  "step_eval2 =
     mbind (a_car (gets R2)) (\<lambda>f. mbind (gets R1) (\<lambda>r1. mbind (cons f r1) (\<lambda>p.
     mseq (set_R1 p) (ret (Goto Apply)))))"

subsection \<open>Macro expansion\<close>

text \<open>\<^verbatim>\<open>push_cc (R1->cdr->cdr, R1, R0, c); goto macro_expand;\<close>\<close>

definition expand_body :: "addr \<Rightarrow> next_step mes" where
  "expand_body c =
     mbind (gets R1) (\<lambda>r1. mbind (a_cdr (get_cdr r1)) (\<lambda>body. mbind (gets R0) (\<lambda>r0.
     push_goto body r1 r0 c Macro_expand)))"

text \<open>\<^verbatim>\<open>R2->cdr->cdr = R1; R1 = R2;\<close>\<close>

definition replace_body :: "unit mes" where
  "replace_body =
     mseq (mbind (a_cdr (gets R2)) (\<lambda>d. mbind (gets R1) (set_cdr d)))
     (mbind (gets R2) set_R1)"

definition expand_operator :: "next_step mes" where
  "expand_operator =
     mbind (gets R1) (\<lambda>r1. mbind (get_car r1) (\<lambda>a. mbind (gets R0) (\<lambda>r0.
     push_goto a r1 r0 cell_vm_macro_expand_car Macro_expand)))"

text \<open>Whether the expander written in Scheme is to be called; if so \<^verbatim>\<open>R2\<close> and \<^verbatim>\<open>R1\<close> are set.\<close>

definition portable_expansion :: "world \<Rightarrow> bool mes" where
  "portable_expansion W =
     mbind (macro_get_handle cell_symbol_portable_macro_expand) (\<lambda>macro.
     if macro = cell_f then ret False
     else mbind (lookup_value W cell_symbol_sc_expander_alist) (\<lambda>expanders.
       if expanders = cell_undefined then ret False
       else mbind (a_car (gets R1)) (\<lambda>k. mbind (assq k expanders) (\<lambda>macro.
         if macro = cell_f then ret False
         else mbind (lookup_value W cell_symbol_macro_expand) (\<lambda>sc_expand.
           mseq (mbind (gets R1) set_R2)
           (if sc_expand \<noteq> cell_undefined \<and> sc_expand \<noteq> cell_f
            then mbind (gets R1) (\<lambda>r1. mbind (cons r1 cell_nil) (\<lambda>l. mbind (cons sc_expand l) (\<lambda>p.
                 mseq (set_R1 p) (ret True))))
            else ret False))))))"

definition macro_expand_call :: "world \<Rightarrow> next_step mes" where
  "macro_expand_call W =
     mbind (a_car (gets R1)) (\<lambda>k. mbind (get_macro k) (\<lambda>macro.
     if macro \<noteq> cell_f
     then mbind (a_cdr (gets R1)) (\<lambda>args. mbind (cons macro args) (\<lambda>p.
          mseq (set_R1 p)
          (mbind (gets R0) (\<lambda>r0. push_goto p cell_nil r0 cell_vm_macro_expand Apply))))
     else mbind (a_car (gets R1)) (\<lambda>a. mbind (get_type a) (\<lambda>ta.
       mbind (if ta = TSYMBOL \<and> a \<noteq> cell_symbol_begin then portable_expansion W else ret False) (\<lambda>portable.
       if portable then ret (Goto Apply) else expand_operator)))))"

definition step_macro_expand :: "world \<Rightarrow> next_step mes" where
  "step_macro_expand W =
     mbind (gets R1) (\<lambda>r1. mbind (get_type r1) (\<lambda>t.
     if t \<noteq> TPAIR then ret (Goto Vm_return)
     else mbind (get_car r1) (\<lambda>c.
       if c = cell_symbol_quote then ret (Goto Vm_return)
       else if c = cell_symbol_lambda then expand_body cell_vm_macro_expand_lambda
       else if c = cell_symbol_define \<or> c = cell_symbol_define_macro then expand_body cell_vm_macro_expand_define
       else if c = cell_symbol_set_x then expand_body cell_vm_macro_expand_set_x
       else macro_expand_call W)))"

definition step_macro_expand_define :: "next_step mes" where
  "step_macro_expand_define =
     mseq replace_body
     (mbind (gets R1) (\<lambda>r1. mbind (get_car r1) (\<lambda>c.
      if c = cell_symbol_define_macro
      then mbind (gets R0) (\<lambda>r0. push_goto r1 r1 r0 cell_vm_macro_expand_define_macro Eval)
      else ret (Goto Vm_return))))"

definition step_macro_expand_car :: "next_step mes" where
  "step_macro_expand_car =
     mseq (mbind (gets R2) (\<lambda>r2. mbind (gets R1) (set_car r2)))
     (mseq (mbind (gets R2) set_R1)
     (mbind (gets R1) (\<lambda>r1. mbind (get_cdr r1) (\<lambda>d.
      if d = cell_nil then ret (Goto Vm_return)
      else mbind (gets R0) (\<lambda>r0. push_goto d r1 r0 cell_vm_macro_expand_cdr Macro_expand)))))"

definition step_macro_expand_cdr :: "next_step mes" where
  "step_macro_expand_cdr =
     mseq (mbind (gets R2) (\<lambda>r2. mbind (gets R1) (set_cdr r2)))
     (mseq (mbind (gets R2) set_R1)
     (ret (Goto Vm_return)))"

subsection \<open>Bodies\<close>

text \<open>A \<^verbatim>\<open>begin\<close> form at the head of a body is spliced into it.\<close>

definition splice_begin :: "world \<Rightarrow> unit mes" where
  "splice_begin W =
     mbind (gets R1) (\<lambda>r1. mbind (get_type r1) (\<lambda>t.
     if t = TPAIR
     then mbind (get_car r1) (\<lambda>a. mbind (get_type a) (\<lambda>ta.
          if ta = TPAIR
          then mbind (get_car a) (\<lambda>aa.
               mwhen (aa = cell_symbol_begin)
                 (mbind (get_cdr a) (\<lambda>x. mbind (get_cdr r1) (\<lambda>y.
                  mbind (with_error W (append2 x y)) set_R1))))
          else ret ()))
     else ret ()))"

definition step_begin_while :: "world \<Rightarrow> addr \<Rightarrow> next_step mes" where
  "step_begin_while W x =
     mbind (gets R1) (\<lambda>r1.
     if r1 = cell_nil then give x
     else mseq (gc_check (realloc W) (memory W))
       (mseq (splice_begin W)
       (mbind (gets R1) (\<lambda>r1. mbind (get_cdr r1) (\<lambda>d. mbind (get_car r1) (\<lambda>a.
        if d = cell_nil then mseq (set_R1 a) (ret (Goto Eval))
        else mbind (gets R0) (\<lambda>r0. push_goto a r1 r0 cell_vm_begin_eval Eval)))))))"

text \<open>\<^verbatim>\<open>x = R1; R1 = R2->cdr;\<close> and back to the head of the loop.\<close>

definition next_form :: "(addr \<Rightarrow> label) \<Rightarrow> next_step mes" where
  "next_form loop = mbind (gets R1) (\<lambda>x. mseq (mbind (a_cdr (gets R2)) set_R1) (ret (Goto (loop x))))"

definition step_begin_expand_test :: "addr \<Rightarrow> next_step mes" where
  "step_begin_expand_test x =
     mbind (gets R1) (\<lambda>r1. if r1 = cell_nil then give x else ret (Goto Begin_expand_while))"

definition step_begin_expand_while :: "world \<Rightarrow> next_step mes" where
  "step_begin_expand_while W =
     mseq (gc_check (realloc W) (memory W))
     (mseq (splice_begin W)
     (mbind (gets R1) (\<lambda>r1. mbind (get_car r1) (\<lambda>a. mbind (gets R0) (\<lambda>r0.
      push_goto a r1 r0 cell_vm_begin_expand_macro Macro_expand)))))"

text \<open>The name of a procedure that is about to be defined is bound in the current module.\<close>

definition bind_defined :: "world \<Rightarrow> unit mes" where
  "bind_defined W =
     mbind (gets R1) (\<lambda>r1. mbind (get_type r1) (\<lambda>t.
     if t = TPAIR
     then mbind (get_car r1) (\<lambda>a. mbind (get_type a) (\<lambda>ta.
          if ta = TPAIR
          then mbind (get_car a) (\<lambda>aa.
               if aa = cell_symbol_define
               then mbind (get_cdr a) (\<lambda>d. mbind (get_type d) (\<lambda>td.
                    if td = TPAIR
                    then mbind (get_car d) (\<lambda>da. mbind (get_type da) (\<lambda>tda.
                         mwhen (tda = TPAIR) (mbind (get_car da) (\<lambda>name.
                           mseq (lookup_binding W name cell_t) (ret ())))))
                    else ret ()))
               else ret ())
          else ret ()))
     else ret ()))"

definition step_begin_expand_macro :: "world \<Rightarrow> next_step mes" where
  "step_begin_expand_macro W =
     mbind (gets R1) (\<lambda>r1. mbind (a_car (gets R2)) (\<lambda>form.
     if r1 \<noteq> form
     then mseq (mbind (gets R2) (\<lambda>r2. set_car r2 r1))
          (mseq (mbind (gets R2) set_R1)
          (ret (Goto Begin_expand_while)))
     else mseq (mbind (gets R2) set_R1)
          (mseq (bind_defined W)
          (mseq (mbind (a_car (gets R1)) (\<lambda>a. mseq (expand_variable W a cell_nil) (ret ())))
          (mbind (gets R1) (\<lambda>r1. mbind (get_car r1) (\<lambda>a. mbind (gets R0) (\<lambda>r0.
           push_goto a r1 r0 cell_vm_begin_expand_eval Eval))))))))"

subsection \<open>Conditionals, continuations and multiple values\<close>

definition step_vm_if :: "next_step mes" where
  "step_vm_if =
     mbind (gets R1) (\<lambda>r1. mbind (get_car r1) (\<lambda>test. mbind (gets R0) (\<lambda>r0.
     push_goto test r1 r0 cell_vm_if_expr Eval)))"

definition step_if_expr :: "next_step mes" where
  "step_if_expr =
     mbind (gets R1) (\<lambda>x.
     mseq (mbind (gets R2) set_R1)
     (mbind (gets R1) (\<lambda>r1.
      if x \<noteq> cell_f then mseq (mbind (a_car (get_cdr r1)) set_R1) (ret (Goto Eval))
      else mbind (a_cdr (get_cdr r1)) (\<lambda>d.
        if d \<noteq> cell_nil then mseq (mbind (get_car d) set_R1) (ret (Goto Eval))
        else give cell_unspecified))))"

text \<open>The stack from \<^verbatim>\<open>g_stack\<close> on, in a fresh vector.\<close>

definition save_stack :: "addr mes" where
  "save_stack =
     mbind (gets STACK_SIZE) (\<lambda>size. mbind (gets g_stack) (\<lambda>st.
     mbind (make_vector_c (size - st) cell_unspecified) (\<lambda>v.
     mseq (mfor [st..size - 1] (\<lambda>i. mbind (stack_get i) (\<lambda>x.
        mbind (vector_set_x_c v (i - st) x) (\<lambda>_. ret ()))))
     (ret v))))"

definition step_call_cc :: "next_step mes" where
  "step_call_cc =
     mbind (gets g_continuations) (\<lambda>n. mbind (make_continuation n) (\<lambda>x.
     mseq (modify (\<lambda>s. s\<lparr>g_continuations := g_continuations s + 1\<rparr>))
     (mbind save_stack (\<lambda>v.
      mseq (set_cdr x v)
      (mbind (a_car (gets R1)) (\<lambda>f. mbind (cons x cell_nil) (\<lambda>l. mbind (cons f l) (\<lambda>p.
       mbind (gets R0) (\<lambda>r0. push_goto p x r0 cell_vm_call_with_current_continuation2 Apply)))))))))"

definition step_call_cc2 :: "next_step mes" where
  "step_call_cc2 =
     mbind save_stack (\<lambda>v.
     mseq (mbind (gets R2) (\<lambda>r2. set_cdr r2 v))
     (ret (Goto Vm_return)))"

definition step_call_with_values :: "next_step mes" where
  "step_call_with_values =
     mbind (gets R1) (\<lambda>r1. mbind (get_car r1) (\<lambda>f. mbind (cons f cell_nil) (\<lambda>p. mbind (gets R0) (\<lambda>r0.
     push_goto p r1 r0 cell_vm_call_with_values2 Apply))))"

definition step_call_with_values2 :: "next_step mes" where
  "step_call_with_values2 =
     mbind (gets R1) (\<lambda>r1. mbind (get_type r1) (\<lambda>t.
     mseq (if t = TVALUES then mbind (get_cdr r1) set_R1 else mbind (cons r1 cell_nil) set_R1)
     (mbind (a_car (a_cdr (gets R2))) (\<lambda>f. mbind (gets R1) (\<lambda>args. mbind (cons f args) (\<lambda>p.
      mseq (set_R1 p) (ret (Goto Apply))))))))"

definition step_vm_return :: "next_step mes" where
  "step_vm_return =
     mbind (gets R1) (\<lambda>x.
     mseq gc_pop_frame
     (mseq (set_R1 x)
     (ret (Goto Dispatch))))"

subsection \<open>The steps together\<close>

fun eval_step :: "world \<Rightarrow> label \<Rightarrow> next_step mes" where
  "eval_step W Dispatch = dispatch"
| "eval_step W Evlis = step_evlis"
| "eval_step W Evlis2 = step_evlis2"
| "eval_step W Evlis3 = step_evlis3"
| "eval_step W Apply = step_apply W"
| "eval_step W Apply2 = step_apply2 W"
| "eval_step W Eval = step_eval W"
| "eval_step W Eval_set_x = step_eval_set_x W"
| "eval_step W Eval_macro_expand_eval = step_eval_macro_expand_eval"
| "eval_step W Eval_macro_expand_expand = ret (Goto Vm_return)"
| "eval_step W Eval_define = step_eval_define W"
| "eval_step W Eval_check_func = step_eval_check_func"
| "eval_step W Eval2 = step_eval2"
| "eval_step W Macro_expand = step_macro_expand W"
| "eval_step W Macro_expand_lambda = mseq replace_body (ret (Goto Vm_return))"
| "eval_step W Macro_expand_define = step_macro_expand_define"
| "eval_step W Macro_expand_define_macro = mseq (mbind (gets R2) set_R1) (ret (Goto Vm_return))"
| "eval_step W Macro_expand_set_x = mseq replace_body (ret (Goto Vm_return))"
| "eval_step W Macro_expand_car = step_macro_expand_car"
| "eval_step W Macro_expand_cdr = step_macro_expand_cdr"
| "eval_step W Begin = ret (Goto (Begin_while cell_unspecified))"
| "eval_step W (Begin_while x) = step_begin_while W x"
| "eval_step W Begin_eval = next_form Begin_while"
| "eval_step W Begin_expand = ret (Goto (Begin_expand_test cell_unspecified))"
| "eval_step W (Begin_expand_test x) = step_begin_expand_test x"
| "eval_step W Begin_expand_while = step_begin_expand_while W"
| "eval_step W Begin_expand_macro = step_begin_expand_macro W"
| "eval_step W Begin_expand_eval = next_form Begin_expand_test"
| "eval_step W Vm_if = step_vm_if"
| "eval_step W If_expr = step_if_expr"
| "eval_step W Call_with_current_continuation = step_call_cc"
| "eval_step W Call_with_current_continuation2 = step_call_cc2"
| "eval_step W Call_with_values = step_call_with_values"
| "eval_step W Call_with_values2 = step_call_with_values2"
| "eval_step W Vm_return = step_vm_return"

partial_function (option) run_from :: "world \<Rightarrow> label \<Rightarrow> addr mes" where
  "run_from W l s =
     mbind (eval_step W l) (\<lambda>r s'. case r of Goto l' \<Rightarrow> run_from W l' s' | Return v \<Rightarrow> ret v s') s"

definition eval_apply :: "world \<Rightarrow> addr mes" where
  "eval_apply W = run_from W Dispatch"

definition apply_proc :: "world \<Rightarrow> addr \<Rightarrow> addr \<Rightarrow> addr \<Rightarrow> addr mes" where
  "apply_proc W f x a =
     mbind (cons f x) (\<lambda>p.
     mseq (push_cc p cell_unspecified a cell_unspecified)
     (mseq (set_R3 cell_vm_apply)
     (eval_apply W)))"

text \<open>
  The evaluator with at most \<open>n\<close> nested calls; one more gives no result. \<open>call W f\<close> is the C
  function at address \<open>f\<close>, which may use the evaluator.
\<close>

primrec evaluator :: "(world \<Rightarrow> int \<Rightarrow> addr list \<Rightarrow> addr mes) \<Rightarrow> (addr \<Rightarrow> int \<Rightarrow> addr) \<Rightarrow> (addr \<Rightarrow> cell)
    \<Rightarrow> nat \<Rightarrow> world" where
  "evaluator call rea mem 0 = \<lparr>nested = (\<lambda>f x a s. None),
     call_function = (\<lambda>f xs s. None), realloc = rea, memory = mem\<rparr>"
| "evaluator call rea mem (Suc n) = \<lparr>nested = apply_proc (evaluator call rea mem n),
     call_function = call (evaluator call rea mem n), realloc = rea, memory = mem\<rparr>"

end
