(* ===== verification/Mes_Copy.thy ===== *)
theory Mes_Copy
  imports Mes_Gc Mes_Data
begin

text \<open>
  The copying phase of the collector. The proof follows the list \<open>os\<close> of the objects copied so
  far, in the order of their copies: it determines where each copy lies (\<open>fwd\<close>), and the
  invariant \<open>copied\<close> says what the arena holds before and behind the scan pointer.
\<close>

section \<open>Objects\<close>

definition is_vec :: "tag \<Rightarrow> bool" where
  "is_vec t \<longleftrightarrow> t = TSTRUCT \<or> t = TVECTOR"

text \<open>The cells that an object takes, those of them that hold pointers or values, and what
  the elements of a vector can be.\<close>

definition osize :: "cell \<Rightarrow> int" where
  "osize c = (if is_vec (ctype c) then 1 + ccar c
     else if ctype c = TBYTES then bytes_cells (ccar c) else 1)"

definition nslots :: "cell \<Rightarrow> int" where
  "nslots c = (if is_vec (ctype c) then 1 + ccar c else 1)"

definition plain :: "tag \<Rightarrow> bool" where
  "plain t \<longleftrightarrow> t = TREF \<or> t = TCHAR \<or> t = TNUMBER"

lemma plain_simps [simp]:
  "\<not> plain TBROKEN_HEART" "\<not> plain TBYTES" "\<not> plain TVECTOR" "\<not> plain TSTRUCT"
  "plain TREF" "plain TCHAR" "plain TNUMBER"
  by (simp_all add: plain_def)

lemma plain_not: "plain t \<Longrightarrow> t \<noteq> TBROKEN_HEART \<and> t \<noteq> TBYTES \<and> \<not> is_vec t"
  by (auto simp: plain_def is_vec_def)

text \<open>The copy of a header at \<open>k\<close>: the elements of a vector follow it.\<close>

definition shape :: "addr \<Rightarrow> cell \<Rightarrow> cell" where
  "shape k c = (if is_vec (ctype c) then c\<lparr>ccdr := k + 1\<rparr> else c)"

lemma shape_simps [simp]:
  "ctype (shape k c) = ctype c" "ccar (shape k c) = ccar c"
  "\<not> is_vec (ctype c) \<Longrightarrow> shape k c = c"
  by (simp_all add: shape_def)

definition size_ok :: "cell \<Rightarrow> bool" where
  "size_ok c \<longleftrightarrow> (is_vec (ctype c) \<or> ctype c = TBYTES \<longrightarrow> 0 \<le> ccar c \<and> ccar c < 2 ^ 62)"

lemma nslots_le_osize: "size_ok c \<Longrightarrow> 1 \<le> nslots c \<and> nslots c \<le> osize c"
  using bytes_cells_pos [of "ccar c"] by (auto simp: nslots_def osize_def size_ok_def is_vec_def)

lemma osize_pos: "size_ok c \<Longrightarrow> 1 \<le> osize c"
  using nslots_le_osize [of c] by simp

lemma cell_update_fields [simp]:
  "ctype (c\<lparr>ctype := t\<rparr>) = t" "ccar (c\<lparr>ctype := t\<rparr>) = ccar c" "ccdr (c\<lparr>ctype := t\<rparr>) = ccdr c"
  for c :: cell
  by simp_all

text \<open>\<open>t\<close> differs from \<open>s\<close> in memory and in the free pointer only.\<close>

definition same_regs :: "mst \<Rightarrow> mst \<Rightarrow> bool" where
  "same_regs s t \<longleftrightarrow> t = s\<lparr>heap := heap t, bytes := bytes t, g_free := g_free t\<rparr>"

lemma same_regs_refl [simp]: "same_regs s s"
  by (simp add: same_regs_def)

lemma same_regs_trans [trans]: "same_regs s t \<Longrightarrow> same_regs t u \<Longrightarrow> same_regs s u"
  unfolding same_regs_def by (cases s; cases t; cases u) simp

lemma same_regs_upd [simp]:
  "same_regs s (t\<lparr>heap := h\<rparr>) \<longleftrightarrow> same_regs s t"
  "same_regs s (t\<lparr>bytes := b\<rparr>) \<longleftrightarrow> same_regs s t"
  "same_regs s (t\<lparr>g_free := f\<rparr>) \<longleftrightarrow> same_regs s t"
  unfolding same_regs_def by (cases s; cases t; simp; blast)+

lemma same_regsD:
  assumes "same_regs s t"
  shows "stack t = stack s" "g_stack t = g_stack s" "g_cells t = g_cells s" "g_news t = g_news s"
    "g_arena t = g_arena s" "cell_arena t = cell_arena s" "g_symbols t = g_symbols s"
    "g_symbol_max t = g_symbol_max s" "g_macros t = g_macros s" "g_ports t = g_ports s"
    "hash_table_type t = hash_table_type s" "variable_type t = variable_type s"
    "R0 t = R0 s" "R1 t = R1 s" "R2 t = R2 s" "R3 t = R3 s" "M0 t = M0 s" "M1 t = M1 s"
    "ARENA_SIZE t = ARENA_SIZE s" "MAX_ARENA_SIZE t = MAX_ARENA_SIZE s"
    "STACK_SIZE t = STACK_SIZE s" "JAM_SIZE t = JAM_SIZE s" "gc_count t = gc_count s"
proof -
  have eq: "t = s\<lparr>heap := heap t, bytes := bytes t, g_free := g_free t\<rparr>"
    using assms by (simp add: same_regs_def)
  show "stack t = stack s" "g_stack t = g_stack s" "g_cells t = g_cells s" "g_news t = g_news s"
    "g_arena t = g_arena s" "cell_arena t = cell_arena s" "g_symbols t = g_symbols s"
    "g_symbol_max t = g_symbol_max s" "g_macros t = g_macros s" "g_ports t = g_ports s"
    "hash_table_type t = hash_table_type s" "variable_type t = variable_type s"
    "R0 t = R0 s" "R1 t = R1 s" "R2 t = R2 s" "R3 t = R3 s" "M0 t = M0 s" "M1 t = M1 s"
    "ARENA_SIZE t = ARENA_SIZE s" "MAX_ARENA_SIZE t = MAX_ARENA_SIZE s"
    "STACK_SIZE t = STACK_SIZE s" "JAM_SIZE t = JAM_SIZE s" "gc_count t = gc_count s"
    by (subst eq; simp)+
qed

section \<open>Copying one object\<close>

lemma copy_elements:
  assumes "\<And>i. 0 \<le> i \<Longrightarrow> i < len \<Longrightarrow> heap s (v + i) \<noteq> None \<and> v + i < f"
    and "\<And>i. 0 \<le> i \<Longrightarrow> i < len \<Longrightarrow> heap s (f + i) \<noteq> None"
    and "heap s old = Some c" "old < f" "ccdr c = v" "g_free s = f" "0 \<le> len"
  shows "\<exists>t. mfor [0..len - 1] (\<lambda>i. mbind (gets g_free) (\<lambda>to. mbind (get_cdr old) (\<lambda>v.
           mseq (copy_cell to (cell_ref v i)) (modify (\<lambda>s. s\<lparr>g_free := g_free s + 1\<rparr>))))) s
       = Some (Inr (), t)
     \<and> same_regs s t \<and> bytes t = bytes s \<and> g_free t = f + len
     \<and> (\<forall>j. 0 \<le> j \<and> j < len \<longrightarrow> heap t (f + j) = heap s (v + j))
     \<and> (\<forall>x. \<not> (f \<le> x \<and> x < f + len) \<longrightarrow> heap t x = heap s x)"
    (is "\<exists>t. mfor ?is ?body s = _ \<and> _")
proof -
  define P where "P k t \<longleftrightarrow> same_regs s t \<and> bytes t = bytes s \<and> g_free t = f + int k
     \<and> (\<forall>j. 0 \<le> j \<and> j < int k \<longrightarrow> heap t (f + j) = heap s (v + j))
     \<and> (\<forall>x. \<not> (f \<le> x \<and> x < f + int k) \<longrightarrow> heap t x = heap s x)" for k t
  have "P 0 s"
    using assms(6) by (auto simp: P_def)
  moreover have "\<exists>u. ?body (?is ! k) t = Some (Inr (), u) \<and> P (Suc k) u"
    if k: "k < length ?is" and P: "P k t" for k t
  proof -
    have i: "?is ! k = int k" "int k < len"
      using k assms(7) by auto
    have h: "heap t old = Some c" "heap t (v + int k) = heap s (v + int k)"
      "heap t (f + int k) = heap s (f + int k)"
      using P assms(1) [of "int k"] assms(3,4) i by (auto simp: P_def)
    obtain d e where d: "heap s (v + int k) = Some d" "heap s (f + int k) = Some e"
      using assms(1,2) [of "int k"] i by auto
    let ?u = "t\<lparr>heap := (heap t)(f + int k \<mapsto> d), g_free := f + int k + 1\<rparr>"
    have "?body (?is ! k) t = Some (Inr (), ?u)"
      using h d i P assms(5) by (simp add: cell_ref_def P_def)
    moreover have "P (Suc k) ?u"
      using P d unfolding P_def by (auto simp: algebra_simps le_less)
    ultimately show ?thesis by blast
  qed
  ultimately obtain t where "mfor ?is ?body s = Some (Inr (), t)" "P (length ?is) t"
    using mfor_invariant [of P s ?is ?body] by blast
  moreover have "int (length ?is) = len"
    using assms(7) by simp
  ultimately show ?thesis
    unfolding P_def by (intro exI [of _ t]) simp
qed

text \<open>\<open>copy_of s o f t\<close>: \<open>t\<close> is \<open>s\<close> with the object \<open>o\<close> copied to \<open>f\<close>.\<close>

definition copy_of :: "mst \<Rightarrow> addr \<Rightarrow> cell \<Rightarrow> addr \<Rightarrow> mst \<Rightarrow> bool" where
  "copy_of s x c f t \<longleftrightarrow> same_regs s t \<and> g_free t = f + osize c
     \<and> bytes t = (if ctype c = TBYTES then (bytes s)(f := take (nat (ccar c)) (bytes s x)) else bytes s)
     \<and> heap t x = Some (c\<lparr>ctype := TBROKEN_HEART, ccar := f\<rparr>)
     \<and> heap t f = Some (shape f c)
     \<and> (\<forall>j. 1 \<le> j \<and> j < nslots c \<longrightarrow> heap t (f + j) = heap s (ccdr c + (j - 1)))
     \<and> (\<forall>y. y \<noteq> x \<longrightarrow> \<not> (f \<le> y \<and> y < f + nslots c) \<longrightarrow> heap t y = heap s y)"

lemma gc_copy_fresh:
  assumes c: "heap s x = Some c" "ctype c \<noteq> TBROKEN_HEART" "size_ok c" "x < f"
    and f: "g_free s = f" "\<And>y. f \<le> y \<Longrightarrow> y < f + osize c \<Longrightarrow> heap s y \<noteq> None"
    and elems: "\<And>j. is_vec (ctype c) \<Longrightarrow> 0 \<le> j \<Longrightarrow> j < ccar c \<Longrightarrow>
      heap s (ccdr c + j) \<noteq> None \<and> ccdr c + j < f \<and> ccdr c + j \<noteq> x"
  shows "\<exists>t. gc_copy x s = Some (Inr f, t) \<and> copy_of s x c f t"
proof -
  obtain d where d: "heap s f = Some d"
    using f(2) [of f] osize_pos [OF c(3)] by auto
  let ?s1 = "s\<lparr>g_free := f + 1, heap := (heap s)(f \<mapsto> c)\<rparr>"
  show ?thesis
  proof (cases "is_vec (ctype c)")
    case vec: True
    let ?s2 = "s\<lparr>g_free := f + 1, heap := (heap s)(f \<mapsto> c\<lparr>ccdr := f + 1\<rparr>)\<rparr>"
    have len: "0 \<le> ccar c" "nslots c = 1 + ccar c" "osize c = 1 + ccar c"
      using vec c(3) by (auto simp: size_ok_def nslots_def osize_def)
    have "\<exists>t. mfor [0..ccar c - 1] (\<lambda>i. mbind (gets g_free) (\<lambda>to. mbind (get_cdr x) (\<lambda>v.
           mseq (copy_cell to (cell_ref v i)) (modify (\<lambda>s. s\<lparr>g_free := g_free s + 1\<rparr>))))) ?s2
       = Some (Inr (), t)
     \<and> same_regs ?s2 t \<and> bytes t = bytes ?s2 \<and> g_free t = f + 1 + ccar c
     \<and> (\<forall>j. 0 \<le> j \<and> j < ccar c \<longrightarrow> heap t (f + 1 + j) = heap ?s2 (ccdr c + j))
     \<and> (\<forall>y. \<not> (f + 1 \<le> y \<and> y < f + 1 + ccar c) \<longrightarrow> heap t y = heap ?s2 y)"
      by (rule copy_elements [where c = c]) (use vec elems f(2) len c in \<open>fastforce+\<close>)
    then obtain t where t: "mfor [0..ccar c - 1] (\<lambda>i. mbind (gets g_free) (\<lambda>to. mbind (get_cdr x) (\<lambda>v.
           mseq (copy_cell to (cell_ref v i)) (modify (\<lambda>s. s\<lparr>g_free := g_free s + 1\<rparr>))))) ?s2
       = Some (Inr (), t)" "same_regs ?s2 t" "bytes t = bytes s" "g_free t = f + 1 + ccar c"
      "\<And>j. 0 \<le> j \<Longrightarrow> j < ccar c \<Longrightarrow> heap t (f + 1 + j) = heap ?s2 (ccdr c + j)"
      "\<And>y. \<not> (f + 1 \<le> y \<and> y < f + 1 + ccar c) \<Longrightarrow> heap t y = heap ?s2 y"
      by auto
    let ?t = "t\<lparr>heap := (heap t)(x \<mapsto> c\<lparr>ctype := TBROKEN_HEART, ccar := f\<rparr>)\<rparr>"
    have hx: "heap t x = Some c" "heap t f = Some (c\<lparr>ccdr := f + 1\<rparr>)"
      using t(6) [of x] t(6) [of f] c(1,4) by auto
    have "ctype c = TSTRUCT \<or> ctype c = TVECTOR"
      using vec by (simp add: is_vec_def)
    then have run: "gc_copy x s = Some (Inr f, ?t)"
      using c d f(1) t(1) hx(1) by (simp add: gc_copy_def)
    have same: "same_regs s ?t"
      using same_regs_trans [of s ?s2 t] t(2) by simp
    have "copy_of s x c f ?t"
      unfolding copy_of_def
    proof (intro conjI allI impI)
      fix j assume j: "1 \<le> j \<and> j < nslots c"
      then have "heap t (f + 1 + (j - 1)) = heap ?s2 (ccdr c + (j - 1))"
        using len by (intro t(5)) auto
      then show "heap ?t (f + j) = heap s (ccdr c + (j - 1))"
        using elems [of "j - 1"] j len c(4) vec by auto
    next
      fix y assume "y \<noteq> x" "\<not> (f \<le> y \<and> y < f + nslots c)"
      then show "heap ?t y = heap s y"
        using t(6) [of y] len by auto
    qed (use same t(3,4) hx len vec c(4) in \<open>auto simp: shape_def is_vec_def\<close>)
    with run show ?thesis by blast
  next
    case nonvec: False
    then have nv: "ctype c \<noteq> TSTRUCT" "ctype c \<noteq> TVECTOR"
      by (simp_all add: is_vec_def)
    show ?thesis
    proof (cases "ctype c = TBYTES")
      case True
      let ?t = "s\<lparr>g_free := f + bytes_cells (ccar c),
        heap := (heap s)(f \<mapsto> c, x \<mapsto> c\<lparr>ctype := TBROKEN_HEART, ccar := f\<rparr>),
        bytes := (bytes s)(f := take (nat (ccar c)) (bytes s x))\<rparr>"
      have "gc_copy x s = Some (Inr f, ?t)"
        using c d f(1) nv True by (simp add: gc_copy_def copy_bytes_def)
      moreover have "copy_of s x c f ?t"
        using nonvec c(4) True by (auto simp: copy_of_def osize_def nslots_def)
      ultimately show ?thesis by blast
    next
      case False
      let ?t = "s\<lparr>g_free := f + 1,
        heap := (heap s)(f \<mapsto> c, x \<mapsto> c\<lparr>ctype := TBROKEN_HEART, ccar := f\<rparr>)\<rparr>"
      have "gc_copy x s = Some (Inr f, ?t)"
        using c d f(1) nv False by (simp add: gc_copy_def)
      moreover have "copy_of s x c f ?t"
        using nonvec c(4) False by (auto simp: copy_of_def osize_def nslots_def)
      ultimately show ?thesis by blast
    qed
  qed
qed

lemma gc_copy_again:
  assumes "heap s x = Some c" "ctype c = TBROKEN_HEART"
  shows "gc_copy x s = Some (Inr (ccar c), s)"
  using assms by (simp add: gc_copy_def)

section \<open>Where the copies lie\<close>

primrec extent :: "(addr \<rightharpoonup> cell) \<Rightarrow> addr list \<Rightarrow> int" where
  "extent h [] = 0"
| "extent h (x # xs) = osize (the (h x)) + extent h xs"

text \<open>The address of the copy of \<open>x\<close>, when the copies of \<open>os\<close> are laid out from \<open>n\<close> on.\<close>

primrec fwd :: "(addr \<rightharpoonup> cell) \<Rightarrow> addr \<Rightarrow> addr list \<Rightarrow> addr \<Rightarrow> addr" where
  "fwd h n [] x = n"
| "fwd h n (y # ys) x = (if x = y then n else fwd h (n + osize (the (h y))) ys x)"

definition sizes_ok :: "(addr \<rightharpoonup> cell) \<Rightarrow> addr set \<Rightarrow> bool" where
  "sizes_ok h A \<longleftrightarrow> (\<forall>x \<in> A. size_ok (the (h x)))"

lemma extent_append [simp]: "extent h (xs @ ys) = extent h xs + extent h ys"
  by (induction xs) auto

lemma extent_nonneg: "sizes_ok h (set xs) \<Longrightarrow> 0 \<le> extent h xs"
  using osize_pos by (induction xs) (force simp: sizes_ok_def)+

lemma fwd_notin: "x \<notin> set os \<Longrightarrow> fwd h n os x = n + extent h os"
  by (induction os arbitrary: n) auto

lemma fwd_append: "x \<in> set os \<Longrightarrow> fwd h n (os @ qs) x = fwd h n os x"
  by (induction os arbitrary: n) auto

lemma fwd_last: "x \<notin> set os \<Longrightarrow> fwd h n (os @ x # qs) x = n + extent h os"
  by (induction os arbitrary: n) auto

lemma fwd_shift: "fwd h (n + d) os x = fwd h n os x + d"
proof (induction os arbitrary: n)
  case (Cons y ys)
  then show ?case
    using Cons.IH [of "n + osize (the (h y))"] by (simp add: algebra_simps)
qed simp

lemma fwd_range:
  assumes "x \<in> set os" "sizes_ok h (set os)"
  shows "n \<le> fwd h n os x" "fwd h n os x + osize (the (h x)) \<le> n + extent h os"
proof -
  have "n \<le> fwd h n os x \<and> fwd h n os x + osize (the (h x)) \<le> n + extent h os"
    using assms
  proof (induction os arbitrary: n)
    case (Cons y ys)
    have "1 \<le> osize (the (h y))" "0 \<le> extent h ys"
      using Cons.prems(2) osize_pos extent_nonneg [of h ys] by (auto simp: sizes_ok_def)
    moreover have "sizes_ok h (set ys)"
      using Cons.prems(2) by (simp add: sizes_ok_def)
    ultimately show ?case
      using Cons.IH [of "n + osize (the (h y))"] Cons.prems(1) by (cases "x = y") auto
  qed simp
  then show "n \<le> fwd h n os x" "fwd h n os x + osize (the (h x)) \<le> n + extent h os"
    by simp_all
qed

lemma fwd_disjoint:
  assumes "x \<in> set os" "y \<in> set os" "x \<noteq> y" "sizes_ok h (set os)"
  shows "fwd h n os x + osize (the (h x)) \<le> fwd h n os y
    \<or> fwd h n os y + osize (the (h y)) \<le> fwd h n os x"
  using assms
proof (induction os arbitrary: n)
  case (Cons z zs)
  have ok: "sizes_ok h (set zs)" using Cons.prems(4) by (simp add: sizes_ok_def)
  show ?case
    using Cons ok fwd_range(1) [of _ zs h "n + osize (the (h z))"]
    by (cases "x = z"; cases "y = z") auto
qed simp

lemma fwd_slot_unique:
  assumes "x \<in> set os" "y \<in> set os" "sizes_ok h (set os)"
    and "0 \<le> i" "i < nslots (the (h x))" "0 \<le> j" "j < nslots (the (h y))"
    and "fwd h n os x + i = fwd h n os y + j"
  shows "x = y \<and> i = j"
proof -
  have "nslots (the (h x)) \<le> osize (the (h x))" "nslots (the (h y)) \<le> osize (the (h y))"
    using assms(1-3) nslots_le_osize by (auto simp: sizes_ok_def)
  then show ?thesis
    using fwd_disjoint [of x os y h n] assms by (cases "x = y") auto
qed

text \<open>A position between two slots of the copies: where a scan may stand.\<close>

definition at_slot :: "(addr \<rightharpoonup> cell) \<Rightarrow> addr \<Rightarrow> addr list \<Rightarrow> addr \<Rightarrow> bool" where
  "at_slot h n os a \<longleftrightarrow> a = n + extent h os
     \<or> (\<exists>x \<in> set os. \<exists>j. 0 \<le> j \<and> j < nslots (the (h x)) \<and> a = fwd h n os x + j)"

lemma at_slot_start: "distinct os \<Longrightarrow> sizes_ok h (set os) \<Longrightarrow> at_slot h n os n"
proof (cases os)
  case (Cons y ys)
  then show "distinct os \<Longrightarrow> sizes_ok h (set os) \<Longrightarrow> ?thesis"
    using nslots_le_osize [of "the (h y)"] by (force simp: at_slot_def sizes_ok_def)
qed (simp add: at_slot_def)

lemma at_slot_append:
  assumes "at_slot h n os a" "distinct (os @ qs)" "sizes_ok h (set (os @ qs))"
  shows "at_slot h n (os @ qs) a"
proof (cases "a = n + extent h os")
  case True
  show ?thesis
  proof (cases qs)
    case Nil
    then show ?thesis using True by (simp add: at_slot_def)
  next
    case (Cons y ys)
    have "fwd h n (os @ qs) y = a"
      using Cons True assms(2) by (simp add: fwd_last)
    moreover have "1 \<le> nslots (the (h y))"
      using Cons assms(3) nslots_le_osize [of "the (h y)"] by (simp add: sizes_ok_def)
    ultimately show ?thesis
      using Cons unfolding at_slot_def
      by (intro disjI2 bexI [of _ y] exI [of _ 0]) auto
  qed
next
  case False
  then obtain x j where x: "x \<in> set os" "0 \<le> j" "j < nslots (the (h x))" "a = fwd h n os x + j"
    using assms(1) by (auto simp: at_slot_def)
  then show ?thesis
    unfolding at_slot_def
    by (intro disjI2 bexI [of _ x] exI [of _ j]) (simp_all add: fwd_append)
qed

text \<open>Behind an object comes the next one, or the end.\<close>

lemma at_slot_end:
  assumes "x \<in> set os" "distinct os" "sizes_ok h (set os)"
  shows "at_slot h n os (fwd h n os x + osize (the (h x)))"
proof -
  obtain us vs where os: "os = (us @ [x]) @ vs" "x \<notin> set us"
    using assms(1) by (metis append.assoc append_Cons append_Nil split_list_first)
  have "at_slot h n (us @ [x]) (fwd h n os x + osize (the (h x)))"
    using os by (simp add: at_slot_def fwd_last)
  then show ?thesis
    unfolding os(1) by (rule at_slot_append) (use assms os(1) in simp_all)
qed

lemma at_slot_next:
  assumes "x \<in> set os" "distinct os" "sizes_ok h (set os)" "0 \<le> j" "j < nslots (the (h x))"
    and "ctype (the (h x)) \<noteq> TBYTES"
  shows "at_slot h n os (fwd h n os x + j + 1)"
proof (cases "j + 1 < nslots (the (h x))")
  case True
  then show ?thesis
    unfolding at_slot_def using assms(1,4)
    by (intro disjI2 bexI [of _ x] exI [of _ "j + 1"]) simp_all
next
  case False
  then have "j + 1 = osize (the (h x))"
    using assms(4-6) by (auto simp: nslots_def osize_def split: if_splits)
  then show ?thesis
    using at_slot_end [OF assms(1-3), of n] by (metis add.assoc)
qed

section \<open>The invariant of the copying phase\<close>

definition car_in :: "addr set \<Rightarrow> cell \<Rightarrow> bool" where
  "car_in A r \<longleftrightarrow> (pointer_car (ctype r) \<longrightarrow> ccar r \<in> A)"

definition cdr_in :: "addr set \<Rightarrow> cell \<Rightarrow> bool" where
  "cdr_in A r \<longleftrightarrow> (scanned_cdr (ctype r) \<longrightarrow> ccdr r \<in> A)"

definition relocate_car :: "(addr \<Rightarrow> addr) \<Rightarrow> cell \<Rightarrow> cell" where
  "relocate_car f r = (if pointer_car (ctype r) then r\<lparr>ccar := f (ccar r)\<rparr> else r)"

definition relocate_cdr :: "(addr \<Rightarrow> addr) \<Rightarrow> cell \<Rightarrow> cell" where
  "relocate_cdr f r = (if scanned_cdr (ctype r) then r\<lparr>ccdr := f (ccdr r)\<rparr> else r)"

definition relocate :: "(addr \<Rightarrow> addr) \<Rightarrow> cell \<Rightarrow> cell" where
  "relocate f r = relocate_cdr f (relocate_car f r)"

lemma relocate_simps [simp]:
  "ctype (relocate_car f r) = ctype r" "ctype (relocate_cdr f r) = ctype r"
  "ccdr (relocate_car f r) = ccdr r" "ctype (relocate f r) = ctype r"
  by (simp_all add: relocate_car_def relocate_cdr_def relocate_def)

text \<open>The cell of the copy at \<open>k\<close> of \<open>x\<close> with number \<open>j\<close>, before its pointers are relocated.\<close>

definition slot_of :: "(addr \<rightharpoonup> cell) \<Rightarrow> addr \<Rightarrow> addr \<Rightarrow> int \<Rightarrow> cell" where
  "slot_of h k x j = (if j = 0 then shape k (the (h x)) else the (h (ccdr (the (h x)) + (j - 1))))"

definition is_slot :: "(addr \<rightharpoonup> cell) \<Rightarrow> addr list \<Rightarrow> addr \<Rightarrow> int \<Rightarrow> bool" where
  "is_slot h os x j \<longleftrightarrow> x \<in> set os \<and> 0 \<le> j \<and> j < nslots (the (h x))"

text \<open>
  \<open>object_ok h L A x\<close>: a whole object below \<open>L\<close>; the elements of a vector are no objects in
  their own right. \<open>source h L n A\<close>: the objects \<open>A\<close> are closed under the pointers that the
  collector follows, and their copies from \<open>n\<close> on fit in the memory.
\<close>

definition object_ok :: "(addr \<rightharpoonup> cell) \<Rightarrow> addr \<Rightarrow> addr set \<Rightarrow> addr \<Rightarrow> bool" where
  "object_ok h L A x \<longleftrightarrow> x < L \<and> (\<exists>c. h x = Some c \<and> ctype c \<noteq> TBROKEN_HEART \<and> size_ok c
     \<and> (is_vec (ctype c) \<longrightarrow> (\<forall>j. 0 \<le> j \<and> j < ccar c \<longrightarrow> ccdr c + j < L \<and> ccdr c + j \<notin> A
          \<and> (\<exists>d. h (ccdr c + j) = Some d \<and> plain (ctype d)))))"

definition source :: "(addr \<rightharpoonup> cell) \<Rightarrow> addr \<Rightarrow> addr \<Rightarrow> addr set \<Rightarrow> bool" where
  "source h L n A \<longleftrightarrow> finite A \<and> L \<le> n \<and> (\<forall>x \<in> A. object_ok h L A x)
     \<and> (\<forall>x \<in> A. \<forall>j k. 0 \<le> j \<and> j < nslots (the (h x)) \<longrightarrow>
          car_in A (slot_of h k x j) \<and> cdr_in A (slot_of h k x j))
     \<and> (\<forall>y. n \<le> y \<and> y < n + (\<Sum>x\<in>A. osize (the (h x))) \<longrightarrow> h y \<noteq> None)"

definition seen :: "(addr \<Rightarrow> addr) \<Rightarrow> addr \<Rightarrow> bool \<Rightarrow> addr \<Rightarrow> cell \<Rightarrow> cell" where
  "seen f scan m a r = (if a < scan then relocate f r
     else if a = scan \<and> m then relocate_car f r else r)"

definition copied :: "(addr \<rightharpoonup> cell) \<Rightarrow> (addr \<Rightarrow> byte list) \<Rightarrow> addr \<Rightarrow> addr \<Rightarrow> addr list \<Rightarrow> addr \<Rightarrow> bool \<Rightarrow> mst \<Rightarrow> bool" where
  "copied h b L n os scan m s \<longleftrightarrow> g_free s = n + extent h os
     \<and> (\<forall>x < L. heap s x = (if x \<in> set os
          then Some ((the (h x))\<lparr>ctype := TBROKEN_HEART, ccar := fwd h n os x\<rparr>) else h x))
     \<and> (\<forall>x < L. bytes s x = b x)
     \<and> (\<forall>x j. is_slot h os x j \<longrightarrow> heap s (fwd h n os x + j)
          = Some (seen (fwd h n os) scan m (fwd h n os x + j) (slot_of h (fwd h n os x) x j)))
     \<and> (\<forall>x \<in> set os. ctype (the (h x)) = TBYTES \<longrightarrow>
          bytes s (fwd h n os x) = take (nat (ccar (the (h x)))) (b x))
     \<and> (\<forall>x. heap s x = None \<longleftrightarrow> h x = None)
     \<and> (\<forall>x j. is_slot h os x j \<longrightarrow>
          (fwd h n os x + j < scan \<longrightarrow> car_in (set os) (slot_of h (fwd h n os x) x j)
             \<and> cdr_in (set os) (slot_of h (fwd h n os x) x j))
          \<and> (fwd h n os x + j = scan \<and> m \<longrightarrow> car_in (set os) (slot_of h (fwd h n os x) x j)))"

lemma object_okD:
  assumes "object_ok h L A x"
  obtains c where "x < L" "h x = Some c" "ctype c \<noteq> TBROKEN_HEART" "size_ok c"
    and "\<And>j. is_vec (ctype c) \<Longrightarrow> 0 \<le> j \<Longrightarrow> j < ccar c \<Longrightarrow> ccdr c + j < L \<and> ccdr c + j \<notin> A
      \<and> (\<exists>d. h (ccdr c + j) = Some d \<and> plain (ctype d))"
  using assms unfolding object_ok_def by blast

lemma source_sizes_ok: "source h L n A \<Longrightarrow> B \<subseteq> A \<Longrightarrow> sizes_ok h B"
  by (force simp: source_def sizes_ok_def elim: object_okD)

lemma extent_sum: "distinct os \<Longrightarrow> extent h os = (\<Sum>x\<in>set os. osize (the (h x)))"
  by (induction os) auto

lemma extent_le:
  assumes "source h L n A" "distinct os" "set os \<subseteq> A"
  shows "extent h os \<le> (\<Sum>x\<in>A. osize (the (h x)))"
proof -
  have "sizes_ok h A" by (rule source_sizes_ok [OF assms(1) order_refl])
  then have "0 \<le> osize (the (h x))" if "x \<in> A" for x
    using that osize_pos [of "the (h x)"] by (simp add: sizes_ok_def)
  then have "(\<Sum>x\<in>set os. osize (the (h x))) \<le> (\<Sum>x\<in>A. osize (the (h x)))"
    using assms(1,3) by (intro sum_mono2) (auto simp: source_def)
  then show ?thesis
    by (simp add: extent_sum [OF assms(2)])
qed

lemma relocate_cong:
  assumes "car_in A r" "\<And>x. x \<in> A \<Longrightarrow> f x = g x"
  shows "relocate_car f r = relocate_car g r"
    and "cdr_in A r \<Longrightarrow> relocate f r = relocate g r"
  using assms by (auto simp: relocate_def relocate_car_def relocate_cdr_def car_in_def cdr_in_def)

lemma slot_of_type:
  assumes "source h L n A" "x \<in> A" "0 \<le> j" "j < nslots (the (h x))"
  shows "ctype (slot_of h k x j) \<noteq> TBROKEN_HEART"
    and "ctype (slot_of h k x j) = TBYTES \<longleftrightarrow> j = 0 \<and> ctype (the (h x)) = TBYTES"
proof -
  obtain c where c: "h x = Some c" "ctype c \<noteq> TBROKEN_HEART"
    "\<And>j. is_vec (ctype c) \<Longrightarrow> 0 \<le> j \<Longrightarrow> j < ccar c \<Longrightarrow> \<exists>d. h (ccdr c + j) = Some d \<and> plain (ctype d)"
    using assms(1,2) by (auto simp: source_def elim!: object_okD)
  then have vec: "\<exists>d. h (ccdr c + (j - 1)) = Some d \<and> plain (ctype d)" if "j \<noteq> 0"
    using c(3) [of "j - 1"] assms(3,4) that by (auto simp: nslots_def split: if_splits)
  show "ctype (slot_of h k x j) \<noteq> TBROKEN_HEART"
    using vec c(1,2) by (auto simp: slot_of_def dest: plain_not)
  show "ctype (slot_of h k x j) = TBYTES \<longleftrightarrow> j = 0 \<and> ctype (the (h x)) = TBYTES"
    using vec c(1) by (auto simp: slot_of_def dest: plain_not)
qed

end
