(* ===== verification/Mes_Scan.thy ===== *)
theory Mes_Scan
  imports Mes_Copy
begin

text \<open>
  \<^verbatim>\<open>gc_copy\<close> keeps the invariant of the copying phase, and \<^verbatim>\<open>gc_loop\<close> ends with every
  pointer of every copy relocated.
\<close>

section \<open>The copier keeps the invariant\<close>

lemma copiedD:
  assumes "copied h b L n os scan m s"
  shows "g_free s = n + extent h os"
    and "x < L \<Longrightarrow> heap s x = (if x \<in> set os
          then Some ((the (h x))\<lparr>ctype := TBROKEN_HEART, ccar := fwd h n os x\<rparr>) else h x)"
    and "x < L \<Longrightarrow> bytes s x = b x"
    and "is_slot h os x j \<Longrightarrow> heap s (fwd h n os x + j)
          = Some (seen (fwd h n os) scan m (fwd h n os x + j) (slot_of h (fwd h n os x) x j))"
    and "x \<in> set os \<Longrightarrow> ctype (the (h x)) = TBYTES \<Longrightarrow>
          bytes s (fwd h n os x) = take (nat (ccar (the (h x)))) (b x)"
    and "heap s x = None \<longleftrightarrow> h x = None"
    and "is_slot h os x j \<Longrightarrow> fwd h n os x + j < scan \<Longrightarrow> car_in (set os) (slot_of h (fwd h n os x) x j)
          \<and> cdr_in (set os) (slot_of h (fwd h n os x) x j)"
    and "is_slot h os x j \<Longrightarrow> fwd h n os x + j = scan \<Longrightarrow> m \<Longrightarrow> car_in (set os) (slot_of h (fwd h n os x) x j)"
  using assms unfolding copied_def by blast+

lemma is_slot_range:
  assumes "is_slot h os x j" "sizes_ok h (set os)"
  shows "n \<le> fwd h n os x + j" "fwd h n os x + j < n + extent h os"
proof -
  have x: "x \<in> set os" "0 \<le> j" "j < nslots (the (h x))"
    using assms(1) by (auto simp: is_slot_def)
  then have "nslots (the (h x)) \<le> osize (the (h x))"
    using assms(2) nslots_le_osize by (auto simp: sizes_ok_def)
  then show "n \<le> fwd h n os x + j" "fwd h n os x + j < n + extent h os"
    using fwd_range [OF x(1) assms(2), of n] x by auto
qed

lemma car_in_mono: "A \<subseteq> B \<Longrightarrow> car_in A r \<Longrightarrow> car_in B r"
  by (auto simp: car_in_def)

lemma cdr_in_mono: "A \<subseteq> B \<Longrightarrow> cdr_in A r \<Longrightarrow> cdr_in B r"
  by (auto simp: cdr_in_def)

lemma seen_cong:
  assumes "\<And>x. x \<in> A \<Longrightarrow> f x = g x" "a < scan \<Longrightarrow> car_in A r \<and> cdr_in A r"
    and "a = scan \<Longrightarrow> m \<Longrightarrow> car_in A r"
  shows "seen f scan m a r = seen g scan m a r"
  using assms relocate_cong [of A r f g] unfolding seen_def by auto

lemma copied_copy_of:
  assumes src: "source h L n A" and os: "distinct os" "set os \<subseteq> A" and cop: "copied h b L n os scan m s"
    and x: "x \<in> A" "x \<notin> set os" and c: "h x = Some c"
    and scan: "scan \<le> g_free s" "m \<Longrightarrow> scan < g_free s"
    and t: "copy_of s x c (g_free s) t"
  shows "copied h b L n (os @ [x]) scan m t"
proof -
  let ?f = "g_free s"
  have f: "?f = n + extent h os"
    using cop by (rule copiedD)
  have sizes: "sizes_ok h (set os)"
    by (rule source_sizes_ok [OF src os(2)])
  have ok: "object_ok h L A x" and Ln: "L \<le> n" and fin: "finite A"
    using src x(1) by (auto simp: source_def)
  have cok: "x < L" "ctype c \<noteq> TBROKEN_HEART" "size_ok c"
    "\<And>j. is_vec (ctype c) \<Longrightarrow> 0 \<le> j \<Longrightarrow> j < ccar c \<Longrightarrow> ccdr c + j < L \<and> ccdr c + j \<notin> A
      \<and> (\<exists>d. h (ccdr c + j) = Some d)"
    using ok c by (auto elim!: object_okD)
  have ext: "0 \<le> extent h os"
    by (rule extent_nonneg [OF sizes])
  have xf: "x < ?f"
    using cok(1) Ln ext f by simp
  have fx: "fwd h n (os @ [x]) x = ?f"
    using x(2) f by (simp add: fwd_last)
  have fo: "fwd h n (os @ [x]) y = fwd h n os y" if "y \<in> set os" for y
    by (rule fwd_append [OF that])
  have T: "g_free t = ?f + osize c" "heap t x = Some (c\<lparr>ctype := TBROKEN_HEART, ccar := ?f\<rparr>)"
    "heap t ?f = Some (shape ?f c)"
    "\<And>j. 1 \<le> j \<Longrightarrow> j < nslots c \<Longrightarrow> heap t (?f + j) = heap s (ccdr c + (j - 1))"
    "\<And>y. y \<noteq> x \<Longrightarrow> \<not> (?f \<le> y \<and> y < ?f + nslots c) \<Longrightarrow> heap t y = heap s y"
    "bytes t = (if ctype c = TBYTES then (bytes s)(?f := take (nat (ccar c)) (bytes s x)) else bytes s)"
    using t by (auto simp: copy_of_def)
  have fresh: "heap t (?f + j) = Some (slot_of h ?f x j)" if j: "0 \<le> j" "j < nslots c" for j
  proof (cases "j = 0")
    case True
    then show ?thesis using T(3) c by (simp add: slot_of_def)
  next
    case False
    then have v: "is_vec (ctype c)" "j - 1 < ccar c" "0 \<le> j - 1"
      using j by (auto simp: nslots_def split: if_splits)
    note e = cok(4) [OF v(1,3,2)]
    have "heap s (ccdr c + (j - 1)) = h (ccdr c + (j - 1))"
      using copiedD(2) [OF cop, of "ccdr c + (j - 1)"] e os(2) by auto
    then show ?thesis
      using T(4) [of j] j False c e by (auto simp: slot_of_def)
  qed
  have old: "heap t (fwd h n os y + j) = heap s (fwd h n os y + j)" if "is_slot h os y j" for y j
    using is_slot_range [OF that sizes, of n] T(5) [of "fwd h n os y + j"] f cok(1) Ln by auto
  have slot: "is_slot h (os @ [x]) y j \<longleftrightarrow> is_slot h os y j \<or> y = x \<and> 0 \<le> j \<and> j < nslots c" for y j
    using c by (auto simp: is_slot_def)
  show ?thesis
    unfolding copied_def
  proof (intro conjI allI impI ballI)
    show "g_free t = n + extent h (os @ [x])"
      using T(1) f c by simp
  next
    fix y assume y: "y < L"
    have "\<not> (?f \<le> y \<and> y < ?f + nslots c)"
      using y Ln ext f by auto
    then show "heap t y = (if y \<in> set (os @ [x])
        then Some ((the (h y))\<lparr>ctype := TBROKEN_HEART, ccar := fwd h n (os @ [x]) y\<rparr>) else h y)"
      using T(2) T(5) [of y] copiedD(2) [OF cop y] c fx fo by (cases "y = x") auto
  next
    fix y assume y: "y < L"
    then have "y \<noteq> ?f" using Ln ext f by auto
    then show "bytes t y = b y"
      using T(6) copiedD(3) [OF cop y] by auto
  next
    fix y j assume "is_slot h (os @ [x]) y j"
    then consider "is_slot h os y j" | "y = x" "0 \<le> j" "j < nslots c" "y \<notin> set os"
      using slot x(2) by blast
    then show "heap t (fwd h n (os @ [x]) y + j) = Some (seen (fwd h n (os @ [x])) scan m
        (fwd h n (os @ [x]) y + j) (slot_of h (fwd h n (os @ [x]) y) y j))"
    proof cases
      case 1
      then have y: "y \<in> set os" by (simp add: is_slot_def)
      have "seen (fwd h n os) scan m (fwd h n os y + j) (slot_of h (fwd h n os y) y j)
        = seen (fwd h n (os @ [x])) scan m (fwd h n os y + j) (slot_of h (fwd h n os y) y j)"
        by (rule seen_cong [where A = "set os"])
          (use fo copiedD(7,8) [OF cop 1] in auto)
      then show ?thesis
        using old [OF 1] copiedD(4) [OF cop 1] fo [OF y] by simp
    next
      case 2
      have "seen g scan m (?f + j) r = r" for g r
        using scan 2(2) by (auto simp: seen_def)
      then show ?thesis
        using fresh [OF 2(2,3)] fx 2(1) by simp
    qed
  next
    fix y assume y: "y \<in> set (os @ [x])" "ctype (the (h y)) = TBYTES"
    show "bytes t (fwd h n (os @ [x]) y) = take (nat (ccar (the (h y)))) (b y)"
    proof (cases "y = x")
      case True
      then show ?thesis
        using T(6) y(2) c fx copiedD(3) [OF cop cok(1)] by simp
    next
      case False
      then have yos: "y \<in> set os" using y(1) by simp
      then have "fwd h n os y \<noteq> ?f"
        using fwd_range(2) [OF yos sizes, of n] f osize_pos [of "the (h y)"] sizes
        by (force simp: sizes_ok_def)
      then show ?thesis
        using T(6) copiedD(5) [OF cop yos y(2)] fo [OF yos] by simp
    qed
  next
    fix y
    have "y = x \<or> (\<exists>j. y = ?f + j \<and> 0 \<le> j \<and> j < nslots c) \<or> heap t y = heap s y"
    proof (cases "y \<noteq> x \<and> \<not> (?f \<le> y \<and> y < ?f + nslots c)")
      case False
      then show ?thesis by (auto intro!: exI [of _ "y - ?f"])
    qed (use T(5) in auto)
    moreover have "h (?f + j) \<noteq> None" if j: "0 \<le> j" "j < nslots c" for j
    proof -
      have "extent h (os @ [x]) \<le> (\<Sum>z\<in>A. osize (the (h z)))"
        by (rule extent_le [OF src]) (use os x in auto)
      then have "?f + j < n + (\<Sum>z\<in>A. osize (the (h z)))"
        using f c j nslots_le_osize [OF cok(3)] by simp
      moreover have "n \<le> ?f + j" using f ext j by simp
      ultimately show ?thesis using src unfolding source_def by blast
    qed
    ultimately show "heap t y = None \<longleftrightarrow> h y = None"
      using fresh copiedD(6) [OF cop, of y] T(2) c by (metis option.distinct(1))
  next
    fix y j assume sl: "is_slot h (os @ [x]) y j" and lt: "fwd h n (os @ [x]) y + j < scan"
    have "is_slot h os y j"
      using sl lt fx scan(1) unfolding slot by auto
    moreover from this have "y \<in> set os" by (simp add: is_slot_def)
    ultimately have "car_in (set os) (slot_of h (fwd h n os y) y j) \<and> cdr_in (set os) (slot_of h (fwd h n os y) y j)"
      "fwd h n (os @ [x]) y = fwd h n os y"
      using copiedD(7) [OF cop, of y j] fo [of y] lt by auto
    then show "car_in (set (os @ [x])) (slot_of h (fwd h n (os @ [x]) y) y j)"
      "cdr_in (set (os @ [x])) (slot_of h (fwd h n (os @ [x]) y) y j)"
      by (auto intro: car_in_mono [of "set os"] cdr_in_mono [of "set os"])
  next
    fix y j assume sl: "is_slot h (os @ [x]) y j" and eq: "fwd h n (os @ [x]) y + j = scan \<and> m"
    have "is_slot h os y j"
      using sl eq fx scan(2) unfolding slot by auto
    moreover from this have "y \<in> set os" by (simp add: is_slot_def)
    ultimately have "car_in (set os) (slot_of h (fwd h n os y) y j)"
      "fwd h n (os @ [x]) y = fwd h n os y"
      using copiedD(8) [OF cop, of y j] fo [of y] eq by auto
    then show "car_in (set (os @ [x])) (slot_of h (fwd h n (os @ [x]) y) y j)"
      by (auto intro: car_in_mono [of "set os"])
  qed
qed

lemma gc_copy_copied:
  assumes src: "source h L n A" and os: "distinct os" "set os \<subseteq> A" and cop: "copied h b L n os scan m s"
    and x: "x \<in> A" and scan: "scan \<le> g_free s" "m \<Longrightarrow> scan < g_free s"
  shows "\<exists>qs t. gc_copy x s = Some (Inr (fwd h n (os @ qs) x), t) \<and> x \<in> set (os @ qs)
    \<and> distinct (os @ qs) \<and> set (os @ qs) \<subseteq> A \<and> copied h b L n (os @ qs) scan m t \<and> same_regs s t
    \<and> (if x \<in> set os then qs = [] else qs = [x])"
proof -
  have ok: "object_ok h L A x" and Ln: "L \<le> n"
    using src x by (auto simp: source_def)
  obtain c where c: "x < L" "h x = Some c" "ctype c \<noteq> TBROKEN_HEART" "size_ok c"
    "\<And>j. is_vec (ctype c) \<Longrightarrow> 0 \<le> j \<Longrightarrow> j < ccar c \<Longrightarrow> ccdr c + j < L \<and> ccdr c + j \<notin> A
      \<and> (\<exists>d. h (ccdr c + j) = Some d \<and> plain (ctype d))"
    using object_okD [OF ok] by blast
  show ?thesis
  proof (cases "x \<in> set os")
    case True
    then have "gc_copy x s = Some (Inr (fwd h n os x), s)"
      using copiedD(2) [OF cop c(1)] by (simp add: gc_copy_again)
    then show ?thesis
      using True os cop by (intro exI [of _ "[]"] exI [of _ s]) simp
  next
    case False
    let ?f = "g_free s"
    have f: "?f = n + extent h os"
      using cop by (rule copiedD)
    have ext: "0 \<le> extent h os"
      by (rule extent_nonneg [OF source_sizes_ok [OF src os(2)]])
    have "extent h (os @ [x]) \<le> (\<Sum>z\<in>A. osize (the (h z)))"
      by (rule extent_le [OF src]) (use os x False in auto)
    then have region: "heap s y \<noteq> None" if "?f \<le> y" "y < ?f + osize c" for y
      using that f ext c(2) src copiedD(6) [OF cop, of y] unfolding source_def by auto
    have "\<exists>t. gc_copy x s = Some (Inr ?f, t) \<and> copy_of s x c ?f t"
    proof (rule gc_copy_fresh)
      show "heap s x = Some c"
        using copiedD(2) [OF cop c(1)] False c(2) by simp
      show "x < ?f" using c(1) Ln ext f by simp
      show "heap s (ccdr c + j) \<noteq> None \<and> ccdr c + j < ?f \<and> ccdr c + j \<noteq> x"
        if "is_vec (ctype c)" "0 \<le> j" "j < ccar c" for j
        using c(5) [OF that] copiedD(6) [OF cop, of "ccdr c + j"] Ln ext f x by auto
    qed (use c region in auto)
    then obtain t where t: "gc_copy x s = Some (Inr ?f, t)" "copy_of s x c ?f t" by blast
    have "copied h b L n (os @ [x]) scan m t"
      by (rule copied_copy_of [OF src os cop x False c(2) scan t(2)])
    moreover have "fwd h n (os @ [x]) x = ?f"
      using False f by (simp add: fwd_last)
    ultimately show ?thesis
      using t False os x by (intro exI [of _ "[x]"] exI [of _ t]) (auto simp: copy_of_def)
  qed
qed

section \<open>Relocating one cell\<close>

lemma slot_at_scan:
  assumes "source h L n A" "distinct os" "set os \<subseteq> A" "at_slot h n os scan" "scan < n + extent h os"
  obtains x j where "is_slot h os x j" and "scan = fwd h n os x + j"
    and "\<And>y i. is_slot h os y i \<Longrightarrow> fwd h n os y + i = scan \<Longrightarrow> y = x \<and> i = j"
proof -
  obtain x j where x: "is_slot h os x j" "scan = fwd h n os x + j"
    using assms(4,5) by (auto simp: at_slot_def is_slot_def)
  have "y = x \<and> i = j" if "is_slot h os y i" "fwd h n os y + i = scan" for y i
    using that x fwd_slot_unique [OF _ _ source_sizes_ok [OF assms(1,3)], of y x i j n]
    by (auto simp: is_slot_def)
  with x show ?thesis using that by blast
qed

lemma copied_set_car:
  assumes src: "source h L n A" and os: "distinct os" "set os \<subseteq> A" and cop: "copied h b L n os scan False s"
    and x: "is_slot h os x j" "scan = fwd h n os x + j"
    and only: "\<And>y i. is_slot h os y i \<Longrightarrow> fwd h n os y + i = scan \<Longrightarrow> y = x \<and> i = j"
    and car: "car_in (set os) (slot_of h (fwd h n os x) x j)"
  shows "copied h b L n os scan True
    (s\<lparr>heap := (heap s)(scan \<mapsto> relocate_car (fwd h n os) (slot_of h (fwd h n os x) x j))\<rparr>)"
proof -
  have n: "L \<le> n" using src by (simp add: source_def)
  have sc: "n \<le> scan"
    using is_slot_range(1) [OF x(1) source_sizes_ok [OF src os(2)]] x(2) by simp
  show ?thesis
    unfolding copied_def
  proof (intro conjI allI impI ballI)
    fix y i assume y: "is_slot h os y i"
    show "heap (s\<lparr>heap := (heap s)(scan \<mapsto> relocate_car (fwd h n os) (slot_of h (fwd h n os x) x j))\<rparr>)
        (fwd h n os y + i) = Some (seen (fwd h n os) scan True (fwd h n os y + i) (slot_of h (fwd h n os y) y i))"
      using only [OF y] copiedD(4) [OF cop y] by (cases "fwd h n os y + i = scan") (auto simp: seen_def)
  next
    fix y
    show "heap (s\<lparr>heap := (heap s)(scan \<mapsto> relocate_car (fwd h n os) (slot_of h (fwd h n os x) x j))\<rparr>) y = None
        \<longleftrightarrow> h y = None"
      using copiedD(4) [OF cop x(1)] copiedD(6) [OF cop] x(2) by (metis fun_upd_apply mst.select_convs(1)
          mst.surjective mst.update_convs(1) option.distinct(1))
  next
    fix y i assume "is_slot h os y i" "fwd h n os y + i = scan \<and> True"
    then show "car_in (set os) (slot_of h (fwd h n os y) y i)"
      using only car by blast
  qed (use cop sc n in \<open>auto simp: copied_def\<close>)
qed

lemma copied_set_cdr:
  assumes src: "source h L n A" and os: "distinct os" "set os \<subseteq> A" and cop: "copied h b L n os scan True s"
    and x: "is_slot h os x j" "scan = fwd h n os x + j"
    and only: "\<And>y i. is_slot h os y i \<Longrightarrow> fwd h n os y + i = scan \<Longrightarrow> y = x \<and> i = j"
    and cdr: "cdr_in (set os) (slot_of h (fwd h n os x) x j)"
    and scan': "\<And>y i. is_slot h os y i \<Longrightarrow> fwd h n os y + i < scan' \<longleftrightarrow> fwd h n os y + i \<le> scan"
  shows "copied h b L n os scan' False
    (s\<lparr>heap := (heap s)(scan \<mapsto> relocate (fwd h n os) (slot_of h (fwd h n os x) x j))\<rparr>)"
proof -
  have n: "L \<le> n" using src by (simp add: source_def)
  have sc: "n \<le> scan"
    using is_slot_range(1) [OF x(1) source_sizes_ok [OF src os(2)]] x(2) by simp
  have car: "car_in (set os) (slot_of h (fwd h n os x) x j)"
    using copiedD(8) [OF cop x(1)] x(2) by simp
  show ?thesis
    unfolding copied_def
  proof (intro conjI allI impI ballI)
    fix y i assume y: "is_slot h os y i"
    show "heap (s\<lparr>heap := (heap s)(scan \<mapsto> relocate (fwd h n os) (slot_of h (fwd h n os x) x j))\<rparr>)
        (fwd h n os y + i) = Some (seen (fwd h n os) scan' False (fwd h n os y + i) (slot_of h (fwd h n os y) y i))"
      using only [OF y] copiedD(4) [OF cop y] scan' [OF y]
      by (cases "fwd h n os y + i = scan") (auto simp: seen_def)
  next
    fix y
    show "heap (s\<lparr>heap := (heap s)(scan \<mapsto> relocate (fwd h n os) (slot_of h (fwd h n os x) x j))\<rparr>) y = None
        \<longleftrightarrow> h y = None"
      using copiedD(4) [OF cop x(1)] copiedD(6) [OF cop] x(2) by (metis fun_upd_apply mst.select_convs(1)
          mst.surjective mst.update_convs(1) option.distinct(1))
  next
    fix y i assume y: "is_slot h os y i" "fwd h n os y + i < scan'"
    then show "car_in (set os) (slot_of h (fwd h n os y) y i)" "cdr_in (set os) (slot_of h (fwd h n os y) y i)"
      using only [OF y(1)] car cdr copiedD(7) [OF cop y(1)] scan' [OF y(1)] by force+
  qed (use cop sc n in \<open>auto simp: copied_def\<close>)
qed

text \<open>The first half of a turn of \<^verbatim>\<open>gc_loop\<close>: the cell at \<open>scan\<close> gets its \<^verbatim>\<open>car\<close> relocated.\<close>

definition scan_car :: "addr \<Rightarrow> tag \<Rightarrow> unit mes" where
  "scan_car scan t = (if pointer_car t
     then mbind (get_car scan) (\<lambda>x. mbind (gc_copy x) (\<lambda>car.
          mbind (gc_relocate_car scan car) (\<lambda>_. ret ())))
     else ret ())"

definition scan_cdr :: "addr \<Rightarrow> tag \<Rightarrow> unit mes" where
  "scan_cdr scan t = (if scanned_cdr t
     then mbind (get_cdr scan) (\<lambda>x. mbind (gc_copy x) (\<lambda>cdr.
          mbind (gc_relocate_cdr scan cdr) (\<lambda>_. ret ())))
     else ret ())"

lemma is_slot_append: "is_slot h os x j \<Longrightarrow> is_slot h (os @ qs) x j"
  by (simp add: is_slot_def)

lemma slot_only:
  assumes "source h L n A" "set os \<subseteq> A" "is_slot h os x j"
  shows "is_slot h os y i \<Longrightarrow> fwd h n os y + i = fwd h n os x + j \<Longrightarrow> y = x \<and> i = j"
  using assms(3) fwd_slot_unique [OF _ _ source_sizes_ok [OF assms(1,2)], of y x i j n]
  by (auto simp: is_slot_def)

lemma scan_car_copied:
  assumes src: "source h L n A" and os: "distinct os" "set os \<subseteq> A" and cop: "copied h b L n os scan False s"
    and x: "is_slot h os x j" "scan = fwd h n os x + j"
  shows "\<exists>qs t. scan_car scan (ctype (slot_of h (fwd h n os x) x j)) s = Some (Inr (), t)
    \<and> distinct (os @ qs) \<and> set (os @ qs) \<subseteq> A \<and> copied h b L n (os @ qs) scan True t \<and> same_regs s t"
proof -
  let ?r = "slot_of h (fwd h n os x) x j"
  have xA: "x \<in> A" "0 \<le> j" "j < nslots (the (h x))"
    using x(1) os(2) by (auto simp: is_slot_def)
  have inA: "car_in A ?r"
    using src xA unfolding source_def by blast
  have sz: "sizes_ok h (set os)" by (rule source_sizes_ok [OF src os(2)])
  have lt: "scan < g_free s"
    using is_slot_range(2) [OF x(1) sz, of n] copiedD(1) [OF cop] x(2) by simp
  have cell: "heap s scan = Some ?r"
    using copiedD(4) [OF cop x(1)] x(2) by (simp add: seen_def)
  show ?thesis
  proof (cases "pointer_car (ctype ?r)")
    case True
    then have "ccar ?r \<in> A" using inA by (simp add: car_in_def)
    then obtain qs t where t: "gc_copy (ccar ?r) s = Some (Inr (fwd h n (os @ qs) (ccar ?r)), t)"
      "ccar ?r \<in> set (os @ qs)" "distinct (os @ qs)" "set (os @ qs) \<subseteq> A"
      "copied h b L n (os @ qs) scan False t" "same_regs s t"
      using gc_copy_copied [OF src os cop, of "ccar ?r"] lt by auto
    have fx: "fwd h n (os @ qs) x = fwd h n os x"
      using x(1) by (simp add: fwd_append is_slot_def)
    have xq: "is_slot h (os @ qs) x j" "scan = fwd h n (os @ qs) x + j"
      using is_slot_append [OF x(1)] x(2) fx by auto
    have cellt: "heap t scan = Some ?r"
      using copiedD(4) [OF t(5) xq(1)] xq(2) fx by (simp add: seen_def)
    have "copied h b L n (os @ qs) scan True (t\<lparr>heap := (heap t)(scan \<mapsto> relocate_car (fwd h n (os @ qs)) ?r)\<rparr>)"
      unfolding fx [symmetric]
      by (rule copied_set_car [OF src t(3,4,5) xq])
        (use slot_only [OF src t(4) xq(1)] xq(2) t(2) fx in \<open>auto simp: car_in_def\<close>)
    moreover have "scan_car scan (ctype ?r) s
        = Some (Inr (), t\<lparr>heap := (heap t)(scan \<mapsto> relocate_car (fwd h n (os @ qs)) ?r)\<rparr>)"
      using True cell cellt t(1) by (simp add: scan_car_def gc_relocate_car_def relocate_car_def)
    ultimately show ?thesis using t by auto
  next
    case False
    have "copied h b L n os scan True (s\<lparr>heap := (heap s)(scan \<mapsto> relocate_car (fwd h n os) ?r)\<rparr>)"
      by (rule copied_set_car [OF src os cop x])
        (use slot_only [OF src os(2) x(1)] x(2) False in \<open>auto simp: car_in_def\<close>)
    moreover have "(heap s)(scan \<mapsto> relocate_car (fwd h n os) ?r) = heap s"
      using False cell by (simp add: relocate_car_def fun_upd_idem)
    ultimately have "copied h b L n os scan True s" by simp
    then show ?thesis
      using False os by (intro exI [of _ "[]"] exI [of _ s]) (simp add: scan_car_def)
  qed
qed

lemma scan_cdr_copied:
  assumes src: "source h L n A" and os: "distinct os" "set os \<subseteq> A" and cop: "copied h b L n os scan True s"
    and x: "is_slot h os x j" "scan = fwd h n os x + j"
  shows "\<exists>qs t. scan_cdr scan (ctype (slot_of h (fwd h n os x) x j)) s = Some (Inr (), t)
    \<and> distinct (os @ qs) \<and> set (os @ qs) \<subseteq> A \<and> same_regs s t
    \<and> heap t scan = Some (relocate (fwd h n (os @ qs)) (slot_of h (fwd h n os x) x j))
    \<and> (\<forall>scan'. (\<forall>y i. is_slot h (os @ qs) y i \<longrightarrow> (fwd h n (os @ qs) y + i < scan' \<longleftrightarrow> fwd h n (os @ qs) y + i \<le> scan))
         \<longrightarrow> copied h b L n (os @ qs) scan' False t)"
proof -
  let ?r = "slot_of h (fwd h n os x) x j"
  have xA: "x \<in> A" "0 \<le> j" "j < nslots (the (h x))"
    using x(1) os(2) by (auto simp: is_slot_def)
  have inA: "cdr_in A ?r"
    using src xA unfolding source_def by blast
  have sz: "sizes_ok h (set os)" by (rule source_sizes_ok [OF src os(2)])
  have lt: "scan < g_free s"
    using is_slot_range(2) [OF x(1) sz, of n] copiedD(1) [OF cop] x(2) by simp
  have cell: "heap s scan = Some (relocate_car (fwd h n os) ?r)"
    using copiedD(4) [OF cop x(1)] x(2) by (simp add: seen_def)
  show ?thesis
  proof (cases "scanned_cdr (ctype ?r)")
    case True
    then have "ccdr ?r \<in> A" using inA by (simp add: cdr_in_def)
    then obtain qs t where t: "gc_copy (ccdr ?r) s = Some (Inr (fwd h n (os @ qs) (ccdr ?r)), t)"
      "ccdr ?r \<in> set (os @ qs)" "distinct (os @ qs)" "set (os @ qs) \<subseteq> A"
      "copied h b L n (os @ qs) scan True t" "same_regs s t"
      using gc_copy_copied [OF src os cop, of "ccdr ?r"] lt by auto
    have fx: "fwd h n (os @ qs) x = fwd h n os x"
      using x(1) by (simp add: fwd_append is_slot_def)
    have xq: "is_slot h (os @ qs) x j" "scan = fwd h n (os @ qs) x + j"
      using is_slot_append [OF x(1)] x(2) fx by auto
    have cellt: "heap t scan = Some (relocate_car (fwd h n (os @ qs)) ?r)"
      using copiedD(4) [OF t(5) xq(1)] xq(2) fx by (simp add: seen_def)
    let ?t = "t\<lparr>heap := (heap t)(scan \<mapsto> relocate (fwd h n (os @ qs)) ?r)\<rparr>"
    have "copied h b L n (os @ qs) scan' False ?t"
      if "\<forall>y i. is_slot h (os @ qs) y i \<longrightarrow> (fwd h n (os @ qs) y + i < scan' \<longleftrightarrow> fwd h n (os @ qs) y + i \<le> scan)" for scan'
      unfolding fx [symmetric]
      by (rule copied_set_cdr [OF src t(3,4,5) xq])
        (use slot_only [OF src t(4) xq(1)] xq(2) t(2) fx that in \<open>auto simp: cdr_in_def\<close>)
    moreover have "scan_cdr scan (ctype ?r) s = Some (Inr (), ?t)"
      using True cell cellt t(1) by (simp add: scan_cdr_def gc_relocate_cdr_def relocate_def relocate_cdr_def)
    ultimately show ?thesis using t
      by (intro exI [of _ qs] exI [of _ ?t]) auto
  next
    case False
    have heq: "(heap s)(scan \<mapsto> relocate (fwd h n os) ?r) = heap s"
      using False cell by (simp add: relocate_def relocate_cdr_def fun_upd_idem)
    have "copied h b L n os scan' False s"
      if "\<forall>y i. is_slot h os y i \<longrightarrow> (fwd h n os y + i < scan' \<longleftrightarrow> fwd h n os y + i \<le> scan)" for scan'
    proof -
      have "copied h b L n os scan' False (s\<lparr>heap := (heap s)(scan \<mapsto> relocate (fwd h n os) ?r)\<rparr>)"
        by (rule copied_set_cdr [OF src os cop x])
          (use slot_only [OF src os(2) x(1)] x(2) False that in \<open>auto simp: cdr_in_def\<close>)
      then show ?thesis by (simp add: heq)
    qed
    moreover have "heap s scan = Some (relocate (fwd h n os) ?r)"
      using False cell by (simp add: relocate_def relocate_cdr_def)
    ultimately show ?thesis
      using False os by (intro exI [of _ "[]"] exI [of _ s]) (simp add: scan_cdr_def)
  qed
qed

section \<open>The scan\<close>

lemma gc_loop_step:
  assumes "scan < g_free s" "heap s scan = Some c" "ctype c \<noteq> TBROKEN_HEART"
  shows "gc_loop scan s = mbind (scan_car scan (ctype c)) (\<lambda>_. mbind (scan_cdr scan (ctype c)) (\<lambda>_.
     if ctype c = TBYTES then mbind (get_car scan) (\<lambda>len. gc_loop (scan + bytes_cells len))
     else gc_loop (scan + 1))) s"
  using assms by (subst gc_loop.simps) (simp add: scan_car_def scan_cdr_def)

lemma next_slot:
  assumes src: "source h L n A" and os: "distinct os" "set os \<subseteq> A" and x: "is_slot h os x j"
    and r: "r = slot_of h k x j"
    and nxt: "nxt = (if ctype r = TBYTES then fwd h n os x + j + bytes_cells (ccar (the (h x))) else fwd h n os x + j + 1)"
  shows "at_slot h n os nxt" "fwd h n os x + j < nxt"
    and "is_slot h os y i \<Longrightarrow> fwd h n os y + i < nxt \<longleftrightarrow> fwd h n os y + i \<le> fwd h n os x + j"
proof -
  have sz: "sizes_ok h (set os)" by (rule source_sizes_ok [OF src os(2)])
  have xA: "x \<in> set os" "x \<in> A" "0 \<le> j" "j < nslots (the (h x))"
    using x os(2) by (auto simp: is_slot_def)
  have tb: "ctype r = TBYTES \<longleftrightarrow> j = 0 \<and> ctype (the (h x)) = TBYTES"
    unfolding r by (rule slot_of_type(2) [OF src xA(2,3,4)])
  have so: "size_ok (the (h x))" using sz xA(1) by (simp add: sizes_ok_def)
  have "at_slot h n os nxt \<and> fwd h n os x + j < nxt
    \<and> (is_slot h os y i \<longrightarrow> (fwd h n os y + i < nxt \<longleftrightarrow> fwd h n os y + i \<le> fwd h n os x + j))"
  proof (cases "ctype r = TBYTES")
    case True
    then have b: "j = 0" "ctype (the (h x)) = TBYTES" using tb by auto
    then have size: "osize (the (h x)) = bytes_cells (ccar (the (h x)))" "nslots (the (h x)) = 1"
      by (auto simp: osize_def nslots_def is_vec_def)
    have nx: "nxt = fwd h n os x + osize (the (h x))"
      using nxt True b size by simp
    have "fwd h n os y + i \<le> fwd h n os x" if y: "is_slot h os y i" "fwd h n os y + i < nxt"
    proof (cases "y = x")
      case True
      then show ?thesis using y(1) size(2) by (simp add: is_slot_def)
    next
      case False
      have yi: "y \<in> set os" "0 \<le> i" "i < nslots (the (h y))" using y(1) by (auto simp: is_slot_def)
      then have "nslots (the (h y)) \<le> osize (the (h y))"
        using sz nslots_le_osize by (auto simp: sizes_ok_def)
      with fwd_disjoint [OF yi(1) xA(1) False sz, of n] y(2) yi nx show ?thesis by auto
    qed
    then show ?thesis
      using at_slot_end [OF xA(1) os(1) sz, of n] nx osize_pos [OF so] b(1) by auto
  next
    case False
    then have nx: "nxt = fwd h n os x + j + 1" using nxt by simp
    have "at_slot h n os (fwd h n os x + j + 1)"
    proof (cases "ctype (the (h x)) = TBYTES")
      case True
      then have "nslots (the (h x)) = 1" by (simp add: nslots_def is_vec_def)
      then show ?thesis using tb False True xA by simp
    next
      case False
      then show ?thesis by (rule at_slot_next [OF xA(1) os(1) sz xA(3,4)])
    qed
    then show ?thesis using nx by auto
  qed
  then show "at_slot h n os nxt" "fwd h n os x + j < nxt"
    and "is_slot h os y i \<Longrightarrow> fwd h n os y + i < nxt \<longleftrightarrow> fwd h n os y + i \<le> fwd h n os x + j"
    by auto
qed

lemma gc_loop_copied:
  assumes src: "source h L n A"
  shows "distinct os \<Longrightarrow> set os \<subseteq> A \<Longrightarrow> copied h b L n os scan False s \<Longrightarrow> at_slot h n os scan \<Longrightarrow>
    \<exists>qs t. gc_loop scan s = gc_flip t \<and> distinct (os @ qs) \<and> set (os @ qs) \<subseteq> A
      \<and> copied h b L n (os @ qs) (g_free t) False t \<and> same_regs s t"
proof (induction "nat (n + (\<Sum>x\<in>A. osize (the (h x))) - scan)" arbitrary: os scan s rule: less_induct)
  case less
  note os = less.prems(1,2) and cop = less.prems(3)
  have free: "g_free s = n + extent h os" by (rule copiedD(1) [OF cop])
  show ?case
  proof (cases "scan < g_free s")
    case False
    then have "scan = g_free s"
      using less.prems(4) free is_slot_range(2) [OF _ source_sizes_ok [OF src os(2)], of _ _ n]
      by (fastforce simp: at_slot_def is_slot_def)
    moreover have "gc_loop scan s = gc_flip s"
      using False by (subst gc_loop.simps) simp
    ultimately show ?thesis
      using os cop by (intro exI [of _ "[]"] exI [of _ s]) simp
  next
    case True
    then obtain x j where x: "is_slot h os x j" "scan = fwd h n os x + j"
      using slot_at_scan [OF src os less.prems(4)] free by metis
    let ?r = "slot_of h (fwd h n os x) x j"
    have xA: "x \<in> set os" "x \<in> A" "0 \<le> j" "j < nslots (the (h x))"
      using x(1) os(2) by (auto simp: is_slot_def)
    have cell: "heap s scan = Some ?r"
      using copiedD(4) [OF cop x(1)] x(2) by (simp add: seen_def)
    have bh: "ctype ?r \<noteq> TBROKEN_HEART"
      by (rule slot_of_type(1) [OF src xA(2,3,4)])
    obtain qs t where t: "scan_car scan (ctype ?r) s = Some (Inr (), t)" "distinct (os @ qs)"
      "set (os @ qs) \<subseteq> A" "copied h b L n (os @ qs) scan True t" "same_regs s t"
      using scan_car_copied [OF src os cop x] by blast
    have fx: "fwd h n (os @ qs) x = fwd h n os x"
      using xA(1) by (simp add: fwd_append)
    have xq: "is_slot h (os @ qs) x j" "scan = fwd h n (os @ qs) x + j"
      using is_slot_append [OF x(1)] x(2) fx by auto
    obtain ps u where u: "scan_cdr scan (ctype ?r) t = Some (Inr (), u)" "distinct (os @ qs @ ps)"
      "set (os @ qs @ ps) \<subseteq> A" "same_regs t u"
      "heap u scan = Some (relocate (fwd h n (os @ qs @ ps)) ?r)"
      "\<And>scan'. (\<forall>y i. is_slot h (os @ qs @ ps) y i \<longrightarrow>
         (fwd h n (os @ qs @ ps) y + i < scan' \<longleftrightarrow> fwd h n (os @ qs @ ps) y + i \<le> scan))
         \<Longrightarrow> copied h b L n (os @ qs @ ps) scan' False u"
      using scan_cdr_copied [OF src t(2,3,4) xq] unfolding fx append_assoc by blast
    let ?os = "os @ qs @ ps"
    have fy: "fwd h n ?os x = fwd h n os x"
      using xA(1) by (simp add: fwd_append)
    have xy: "is_slot h ?os x j"
      by (rule is_slot_append [OF x(1)])
    define scan' where "scan' = (if ctype ?r = TBYTES then scan + bytes_cells (ccar (the (h x))) else scan + 1)"
    note nx = next_slot [OF src u(2,3) xy refl, of scan' "fwd h n os x", unfolded fy, folded x(2), OF scan'_def]
    have cu: "copied h b L n ?os scan' False u"
      by (rule u(6)) (use nx(3) in blast)
    have "ccar (relocate f ?r) = ccar (the (h x))" if "ctype ?r = TBYTES" for f
      using that slot_of_type(2) [OF src xA(2,3,4)]
      by (auto simp: relocate_def relocate_car_def relocate_cdr_def pointer_car_def slot_of_def)
    then have loop: "gc_loop scan s = gc_loop scan' u"
      using gc_loop_step [OF True cell bh] t(1) u(1,5) by (simp add: scan'_def)
    have "scan < n + extent h os" using True free by simp
    also have "\<dots> \<le> n + (\<Sum>x\<in>A. osize (the (h x)))"
      using extent_le [OF src os] by simp
    finally have "nat (n + (\<Sum>x\<in>A. osize (the (h x))) - scan') < nat (n + (\<Sum>x\<in>A. osize (the (h x))) - scan)"
      using nx(2) by simp
    from less.hyps [OF this u(2,3) cu nx(1)] obtain rs v where
      "gc_loop scan' u = gc_flip v" "distinct (?os @ rs)" "set (?os @ rs) \<subseteq> A"
      "copied h b L n (?os @ rs) (g_free v) False v" "same_regs u v"
      by auto
    then show ?thesis
      using loop same_regs_trans [OF t(5) same_regs_trans [OF u(4)]]
      by (intro exI [of _ "qs @ ps @ rs"] exI [of _ v]) simp
  qed
qed

end
