(* ===== verification/Mes_Flip.thy ===== *)
theory Mes_Flip
  imports Mes_Scan
begin

text \<open>
  The second phase of a collection: \<^verbatim>\<open>gc_cellcpy\<close> moves the finished copy back to the start
  of the arena, object by object, and shifts its pointers.
\<close>

definition shift :: "int \<Rightarrow> cell \<Rightarrow> cell" where
  "shift d c = mk_cell (ctype c) (if pointer_car (ctype c) then ccar c - d else ccar c)
     (if shifted_cdr (ctype c) then ccdr c - d else ccdr c)"

lemma shift_simps [simp]: "ctype (shift d c) = ctype c"
  by (simp add: shift_def)

lemma cellcpy_step:
  assumes "k \<noteq> 0" "heap u src = Some c" "ctype c \<noteq> TBROKEN_HEART" "heap u dest \<noteq> None" "dest \<noteq> src"
  shows "gc_cellcpy_loop d dest src k u =
    (let u' = u\<lparr>heap := (heap u)(dest \<mapsto> shift d c)\<rparr> in
     if ctype c = TBYTES
     then gc_cellcpy_loop d (dest + bytes_cells (ccar c)) (src + bytes_cells (ccar c))
            (to_size (k - bytes_cells (ccar c)))
            (u'\<lparr>bytes := (bytes u)(dest := take (nat (ccar c)) (bytes u src))\<rparr>)
     else gc_cellcpy_loop d (dest + 1) (src + 1) (k - 1) u')"
proof -
  obtain e where e: "heap u dest = Some e" using assms(4) by auto
  show ?thesis
    using assms(1-3,5) e
    by (subst gc_cellcpy_loop.simps) (simp add: copy_bytes_def shift_def Let_def)
qed

text \<open>How far the move has come: the slots before \<open>src\<close> are in place, the others untouched.\<close>

definition sliding :: "(addr \<rightharpoonup> cell) \<Rightarrow> addr \<Rightarrow> addr list \<Rightarrow> int \<Rightarrow> mst \<Rightarrow> addr \<Rightarrow> mst \<Rightarrow> bool" where
  "sliding h n os d t src u \<longleftrightarrow> same_regs t u \<and> g_free u = g_free t
     \<and> (\<forall>x j. is_slot h os x j \<longrightarrow>
          (if fwd h n os x + j < src
           then heap u (fwd h n os x + j - d) = Some (shift d (the (heap t (fwd h n os x + j))))
           else heap u (fwd h n os x + j) = heap t (fwd h n os x + j)))
     \<and> (\<forall>x \<in> set os. ctype (the (h x)) = TBYTES \<longrightarrow>
          (if fwd h n os x < src
           then bytes u (fwd h n os x - d) = take (nat (ccar (the (h x)))) (bytes t (fwd h n os x))
           else bytes u (fwd h n os x) = bytes t (fwd h n os x)))
     \<and> (\<forall>y. heap u y = None \<longleftrightarrow> heap t y = None)"

lemma slidingD:
  assumes "sliding h n os d t src u"
  shows "same_regs t u" "g_free u = g_free t" "heap u y = None \<longleftrightarrow> heap t y = None"
    and "is_slot h os x j \<Longrightarrow> fwd h n os x + j < src \<Longrightarrow>
      heap u (fwd h n os x + j - d) = Some (shift d (the (heap t (fwd h n os x + j))))"
    and "is_slot h os x j \<Longrightarrow> \<not> fwd h n os x + j < src \<Longrightarrow> heap u (fwd h n os x + j) = heap t (fwd h n os x + j)"
    and "x \<in> set os \<Longrightarrow> ctype (the (h x)) = TBYTES \<Longrightarrow> fwd h n os x < src \<Longrightarrow>
      bytes u (fwd h n os x - d) = take (nat (ccar (the (h x)))) (bytes t (fwd h n os x))"
    and "x \<in> set os \<Longrightarrow> ctype (the (h x)) = TBYTES \<Longrightarrow> \<not> fwd h n os x < src \<Longrightarrow>
      bytes u (fwd h n os x) = bytes t (fwd h n os x)"
  using assms unfolding sliding_def by auto

lemma cellcpy_from:
  assumes src: "source h L n A" and os: "distinct os" "set os \<subseteq> A"
    and cop: "copied h b L n os (n + extent h os) False t"
    and d: "0 < d" and dest: "\<And>y. n \<le> y \<Longrightarrow> y < n + extent h os \<Longrightarrow> heap t (y - d) \<noteq> None"
    and ext: "extent h os < 2 ^ 62"
  shows "at_slot h n os a \<Longrightarrow> n \<le> a \<Longrightarrow> a \<le> n + extent h os \<Longrightarrow> sliding h n os d t a u \<Longrightarrow>
    \<exists>v. gc_cellcpy_loop d (a - d) a (n + extent h os - a) u = Some (Inr (), v)
      \<and> sliding h n os d t (n + extent h os) v"
proof (induction "nat (n + extent h os - a)" arbitrary: a u rule: less_induct)
  case less
  let ?e = "n + extent h os"
  have sz: "sizes_ok h (set os)" by (rule source_sizes_ok [OF src os(2)])
  show ?case
  proof (cases "a = ?e")
    case True
    then show ?thesis
      using less.prems by (subst gc_cellcpy_loop.simps) simp
  next
    case False
    then have lt: "a < ?e" using less.prems(3) by simp
    obtain x j where x: "is_slot h os x j" "a = fwd h n os x + j"
      using slot_at_scan [OF src os less.prems(1) lt] by metis
    have xA: "x \<in> set os" "x \<in> A" "0 \<le> j" "j < nslots (the (h x))"
      using x(1) os(2) by (auto simp: is_slot_def)
    let ?r = "slot_of h (fwd h n os x) x j"
    let ?c = "relocate (fwd h n os) ?r"
    have ct: "heap t a = Some ?c"
      using copiedD(4) [OF cop x(1)] x(2) lt by (simp add: seen_def)
    have cu: "heap u a = Some ?c"
      using slidingD(5) [OF less.prems(4) x(1)] x(2) ct by simp
    have bh: "ctype ?c \<noteq> TBROKEN_HEART"
      using slot_of_type(1) [OF src xA(2,3,4)] by simp
    have tb: "ctype ?c = TBYTES \<longleftrightarrow> j = 0 \<and> ctype (the (h x)) = TBYTES"
      using slot_of_type(2) [OF src xA(2,3,4)] by simp
    have car: "ccar ?c = ccar (the (h x))" if "ctype ?c = TBYTES"
      using that tb by (auto simp: relocate_def relocate_car_def relocate_cdr_def pointer_car_def slot_of_def)
    have du: "heap u (a - d) \<noteq> None"
      using dest [of a] less.prems(2) lt slidingD(3) [OF less.prems(4)] by auto
    define a' where "a' = (if ctype ?r = TBYTES then a + bytes_cells (ccar (the (h x))) else a + 1)"
    note nx = next_slot [OF src os x(1) refl, of a' "fwd h n os x", folded x(2), OF a'_def]
    have a': "a' \<le> ?e"
      using nx(1) is_slot_range(2) [OF _ sz, of _ _ n] by (fastforce simp: at_slot_def is_slot_def)
    define u' where "u' = (if ctype ?c = TBYTES
      then u\<lparr>heap := (heap u)(a - d \<mapsto> shift d ?c),
             bytes := (bytes u)(a - d := take (nat (ccar ?c)) (bytes u a))\<rparr>
      else u\<lparr>heap := (heap u)(a - d \<mapsto> shift d ?c)\<rparr>)"
    have size: "to_size (?e - a - bytes_cells (ccar ?c)) = ?e - a'"
      and pos: "a + bytes_cells (ccar ?c) = a'" "a - d + bytes_cells (ccar ?c) = a' - d"
      if "ctype ?c = TBYTES"
    proof -
      show pos: "a + bytes_cells (ccar ?c) = a'" "a - d + bytes_cells (ccar ?c) = a' - d"
        using that car [OF that] by (simp_all add: a'_def)
      have "to_size (?e - a') = ?e - a'"
        using a' nx(2) ext less.prems(2) by (intro to_size_id) simp_all
      moreover have "?e - a - bytes_cells (ccar ?c) = ?e - a'"
        using pos(1) by linarith
      ultimately show "to_size (?e - a - bytes_cells (ccar ?c)) = ?e - a'"
        by (simp only:)
    qed
    have ne: "?e - a \<noteq> 0" "a - d \<noteq> a" using lt d by simp_all
    note st = cellcpy_step [OF ne(1) cu bh du ne(2), of d]
    have step: "gc_cellcpy_loop d (a - d) a (?e - a) u = gc_cellcpy_loop d (a' - d) a' (?e - a') u'"
    proof (cases "ctype ?c = TBYTES")
      case True
      have "u' = u\<lparr>heap := (heap u)(a - d \<mapsto> shift d ?c),
             bytes := (bytes u)(a - d := take (nat (ccar ?c)) (bytes u a))\<rparr>"
        unfolding u'_def by (rule if_P [OF True])
      then show ?thesis
        using st by (simp only: True refl if_True Let_def size [OF True] pos [OF True])
    next
      case False
      have "u' = u\<lparr>heap := (heap u)(a - d \<mapsto> shift d ?c)\<rparr>" "a' = a + 1"
        using False by (simp_all add: u'_def a'_def)
      moreover have "a - d + 1 = a + 1 - d" "?e - a - 1 = ?e - (a + 1)" by simp_all
      ultimately show ?thesis
        using st by (simp only: False if_False Let_def)
    qed
    have "sliding h n os d t a' u'"
      unfolding sliding_def
    proof (intro conjI allI impI ballI)
      show "same_regs t u'" "g_free u' = g_free t"
        using slidingD(1,2) [OF less.prems(4)] by (simp_all add: u'_def)
    next
      fix y i assume y: "is_slot h os y i"
      have heap: "heap u' = (heap u)(a - d \<mapsto> shift d ?c)"
        by (simp add: u'_def)
      consider "fwd h n os y + i = a" | "fwd h n os y + i < a" | "a < fwd h n os y + i" by linarith
      then show "if fwd h n os y + i < a'
           then heap u' (fwd h n os y + i - d) = Some (shift d (the (heap t (fwd h n os y + i))))
           else heap u' (fwd h n os y + i) = heap t (fwd h n os y + i)"
      proof cases
        case 1
        then show ?thesis using nx(2) ct heap by auto
      next
        case 2
        then show ?thesis using slidingD(4) [OF less.prems(4) y] nx(2) heap by auto
      next
        case 3
        then show ?thesis
          using slidingD(5) [OF less.prems(4) y] nx(3) [OF y] d heap by auto
      qed
    next
      fix y assume y: "y \<in> set os" "ctype (the (h y)) = TBYTES"
      have ys: "is_slot h os y 0"
        using y by (simp add: is_slot_def nslots_def is_vec_def)
      have a_bytes: "y = x \<and> j = 0" if "fwd h n os y = a"
        using slot_only [OF src os(2) x(1) ys] that x(2) by simp
      consider "fwd h n os y = a" | "fwd h n os y < a" | "a < fwd h n os y" by linarith
      then show "if fwd h n os y < a'
           then bytes u' (fwd h n os y - d) = take (nat (ccar (the (h y)))) (bytes t (fwd h n os y))
           else bytes u' (fwd h n os y) = bytes t (fwd h n os y)"
      proof cases
        case 1
        then have "ctype ?c = TBYTES" using a_bytes [OF 1] y(2) tb by simp
        then show ?thesis
          using 1 a_bytes [OF 1] nx(2) car slidingD(7) [OF less.prems(4) y] by (simp add: u'_def)
      next
        case 2
        then show ?thesis using slidingD(6) [OF less.prems(4) y] nx(2) by (simp add: u'_def)
      next
        case 3
        then show ?thesis
          using slidingD(7) [OF less.prems(4) y] nx(3) [OF ys] d by (simp add: u'_def)
      qed
    next
      fix y show "heap u' y = None \<longleftrightarrow> heap t y = None"
        using slidingD(3) [OF less.prems(4), of y] du by (auto simp: u'_def)
    qed
    moreover have "nat (?e - a') < nat (?e - a)" using nx(2) lt by simp
    ultimately show ?thesis
      using less.hyps [of a' u'] nx(1,2) less.prems(2) a' step by simp
  qed
qed

text \<open>
  \<open>moved h b g t x\<close>: the object \<open>x\<close> of the old heap is found at \<open>g x\<close>, its pointers mapped by
  \<open>g\<close>, the payload of bytes the same.
\<close>

definition moved :: "(addr \<rightharpoonup> cell) \<Rightarrow> (addr \<Rightarrow> byte list) \<Rightarrow> (addr \<Rightarrow> addr) \<Rightarrow> mst \<Rightarrow> addr \<Rightarrow> bool" where
  "moved h b g t x \<longleftrightarrow>
     (if ctype (the (h x)) = TBYTES
      then (\<exists>e. heap t (g x) = Some (mk_cell TBYTES (ccar (the (h x))) e))
         \<and> bytes t (g x) = take (nat (ccar (the (h x)))) (b x)
      else \<forall>j. 0 \<le> j \<and> j < nslots (the (h x)) \<longrightarrow>
        heap t (g x + j) = Some (relocate g (slot_of h (g x) x j)))"

lemma shift_relocate:
  assumes "ctype r \<noteq> TBYTES" "is_vec (ctype r) \<Longrightarrow> ccdr r' = ccdr r - d"
    and "ctype r' = ctype r" "ccar r' = ccar r" "\<not> is_vec (ctype r) \<Longrightarrow> r' = r"
    and "\<And>x. g x = f x - d"
  shows "shift d (relocate f r) = relocate g r'"
proof (cases "is_vec (ctype r)")
  case True
  then have "\<not> pointer_car (ctype r)" "\<not> scanned_cdr (ctype r)" "shifted_cdr (ctype r)"
    by (auto simp: is_vec_def pointer_car_def scanned_cdr_def shifted_cdr_def)
  then show ?thesis
    using assms True by (cases r') (auto simp: shift_def relocate_def relocate_car_def relocate_cdr_def mk_cell_def)
next
  case False
  then have "shifted_cdr (ctype r) \<longleftrightarrow> scanned_cdr (ctype r)"
    using assms(1) by (auto simp: is_vec_def scanned_cdr_def shifted_cdr_def)
  then show ?thesis
    using assms False by (cases r) (auto simp: shift_def relocate_def relocate_car_def relocate_cdr_def mk_cell_def)
qed

lemma sliding_moved:
  assumes src: "source h L n A" and os: "distinct os" "set os \<subseteq> A"
    and cop: "copied h b L n os (n + extent h os) False t"
    and u: "sliding h n os d t (n + extent h os) u" and x: "x \<in> set os"
  shows "moved h b (\<lambda>y. fwd h n os y - d) u x"
proof -
  let ?k = "fwd h n os x"
  have sz: "sizes_ok h (set os)" by (rule source_sizes_ok [OF src os(2)])
  have cell: "heap u (?k + j - d) = Some (shift d (relocate (fwd h n os) (slot_of h ?k x j)))"
    if "0 \<le> j" "j < nslots (the (h x))" for j
  proof -
    have s: "is_slot h os x j" using x that by (simp add: is_slot_def)
    have lt: "?k + j < n + extent h os" by (rule is_slot_range(2) [OF s sz])
    then show ?thesis
      using slidingD(4) [OF u s lt] copiedD(4) [OF cop s] by (simp add: seen_def)
  qed
  show ?thesis
  proof (cases "ctype (the (h x)) = TBYTES")
    case True
    then have ns: "nslots (the (h x)) = 1" by (simp add: nslots_def is_vec_def)
    have "ctype (slot_of h ?k x 0) = TBYTES" "ccar (slot_of h ?k x 0) = ccar (the (h x))"
      using True by (simp_all add: slot_of_def)
    then have "\<exists>e. shift d (relocate (fwd h n os) (slot_of h ?k x 0)) = mk_cell TBYTES (ccar (the (h x))) e"
      by (simp add: shift_def relocate_def relocate_car_def relocate_cdr_def pointer_car_def)
    moreover have "?k < n + extent h os"
      using is_slot_range(2) [of h os x 0 n] sz x ns by (simp add: is_slot_def)
    then have "bytes u (?k - d) = take (nat (ccar (the (h x)))) (b x)"
      using slidingD(6) [OF u x True] copiedD(5) [OF cop x True] by simp
    ultimately show ?thesis
      using True cell [of 0] ns by (simp add: moved_def)
  next
    case False
    have "heap u (?k - d + j) = Some (relocate (\<lambda>y. fwd h n os y - d) (slot_of h (?k - d) x j))"
      if j: "0 \<le> j" "j < nslots (the (h x))" for j
    proof -
      have nb: "ctype (slot_of h ?k x j) \<noteq> TBYTES"
        using slot_of_type(2) [OF src _ j, of "fwd h n os x"] x os(2) False by auto
      have "\<not> is_vec (ctype (slot_of h ?k x j))" if "j \<noteq> 0"
      proof -
        have "object_ok h L A x" using src x os(2) by (auto simp: source_def)
        then show ?thesis
          using that j by (auto elim!: object_okD simp: nslots_def slot_of_def split: if_splits)
            (metis plain_not diff_ge_0_iff_ge diff_less_eq int_one_le_iff_zero_less add.commute order_le_less option.sel)
      qed
      then have "shift d (relocate (fwd h n os) (slot_of h ?k x j))
          = relocate (\<lambda>y. fwd h n os y - d) (slot_of h (?k - d) x j)"
        by (intro shift_relocate nb) (cases "j = 0"; auto simp: slot_of_def shape_def)+
      then show ?thesis
        using cell [OF j] by (simp add: algebra_simps)
    qed
    then show ?thesis using False by (simp add: moved_def)
  qed
qed

end
