(* ===== verification/Mes_Collect.thy ===== *)
theory Mes_Collect
  imports Mes_Flip
begin

text \<open>
  A whole collection: \<^verbatim>\<open>gc_\<close> and \<^verbatim>\<open>gc\<close> keep the graph that the registers, the stack and the
  globals reach, and give back everything else.
\<close>

section \<open>Roots and what they reach\<close>

definition gc_roots :: "mst \<Rightarrow> addr set" where
  "gc_roots s = {x. cell_nil \<le> x \<and> x < g_symbol_max s}
     \<union> {g_symbols s, g_macros s, g_ports s, hash_table_type s, variable_type s, M0 s, M1 s}
     \<union> stack s ` {i. g_stack s \<le> i \<and> i < STACK_SIZE s}"

inductive_set reach :: "mst \<Rightarrow> addr set" for s :: mst where
  root: "x \<in> gc_roots s \<Longrightarrow> x \<in> reach s"
| car: "x \<in> reach s \<Longrightarrow> 0 \<le> j \<Longrightarrow> j < nslots (the (heap s x)) \<Longrightarrow>
    pointer_car (ctype (slot_of (heap s) 0 x j)) \<Longrightarrow> ccar (slot_of (heap s) 0 x j) \<in> reach s"
| cdr: "x \<in> reach s \<Longrightarrow> 0 \<le> j \<Longrightarrow> j < nslots (the (heap s x)) \<Longrightarrow>
    scanned_cdr (ctype (slot_of (heap s) 0 x j)) \<Longrightarrow> ccdr (slot_of (heap s) 0 x j) \<in> reach s"

text \<open>The cells that a collection will keep.\<close>

definition live :: "mst \<Rightarrow> int" where
  "live s = (\<Sum>x\<in>reach s. osize (the (heap s x)))"

text \<open>
  A state in which a collection can run: everything reachable is a whole object below the free
  pointer, the symbols are one cell each, and behind the free pointer there is memory for the
  copies (\<^verbatim>\<open>gc_init\<close> reserves \<^verbatim>\<open>JAM_SIZE\<close> cells for it).
\<close>

definition collectable :: "mst \<Rightarrow> bool" where
  "collectable s \<longleftrightarrow> finite (reach s) \<and> (\<forall>x \<in> reach s. object_ok (heap s) (g_free s) (reach s) x)
     \<and> (\<forall>x. cell_nil \<le> x \<and> x < g_symbol_max s \<longrightarrow> osize (the (heap s x)) = 1)
     \<and> (\<forall>y. g_cells s \<le> y \<and> y < g_free s + 2 + live s \<longrightarrow> heap s y \<noteq> None)
     \<and> cell_arena s < g_cells s \<and> heap s (cell_arena s) \<noteq> None \<and> live s < 2 ^ 62
     \<and> g_cells s + 1 = cell_nil \<and> cell_nil \<le> g_free s \<and> 0 \<le> g_stack s"

lemma not_at_arena_start [simp]: "\<not> at_arena_start s"
  unfolding at_arena_start_def by presburger

text \<open>So a collection is the same whatever \<^verbatim>\<open>realloc\<close> does.\<close>

lemma gc_c_fixed_arena: "gc_c realloc mem = gc_c realloc' mem'"
proof -
  have "mbind (gets (\<lambda>s. ARENA_SIZE s < MAX_ARENA_SIZE s \<and> at_arena_start s)) (\<lambda>b. mwhen b (gc_up_arena r m)) = ret ()" for r m
    by (rule ext) simp
  then show ?thesis
    by (simp add: gc_c_def)
qed

section \<open>Before copying\<close>

definition news :: "mst \<Rightarrow> cell \<Rightarrow> cell \<Rightarrow> cell \<Rightarrow> mst" where
  "news s a c d = s\<lparr>g_news := g_free s + 1, g_free := g_free s + 2,
     heap := (heap s)(g_free s \<mapsto> mk_cell TVECTOR (ccar a) (g_free s + 1),
                      g_free s + 1 \<mapsto> mk_cell TCHAR (ccar d) 110)\<rparr>"

lemma gc_init_news_ok:
  assumes "heap s (cell_arena s) = Some a" "heap s (g_free s) = Some c" "heap s (g_free s + 1) = Some d"
    and "cell_arena s \<noteq> g_free s"
  shows "mseq gc_init_news (modify (\<lambda>s. s\<lparr>g_free := g_news s + 1\<rparr>)) s = Some (Inr (), news s a c d)"
  using assms by (simp add: gc_init_news_def news_def Let_def add.commute)

lemma news_simps [simp]:
  "g_free (news s a c d) = g_free s + 2" "g_news (news s a c d) = g_free s + 1"
  "bytes (news s a c d) = bytes s" "stack (news s a c d) = stack s" "g_stack (news s a c d) = g_stack s"
  "STACK_SIZE (news s a c d) = STACK_SIZE s" "g_symbol_max (news s a c d) = g_symbol_max s"
  "g_symbols (news s a c d) = g_symbols s" "g_macros (news s a c d) = g_macros s"
  "g_ports (news s a c d) = g_ports s" "hash_table_type (news s a c d) = hash_table_type s"
  "variable_type (news s a c d) = variable_type s" "M0 (news s a c d) = M0 s" "M1 (news s a c d) = M1 s"
  "R0 (news s a c d) = R0 s" "R1 (news s a c d) = R1 s" "R2 (news s a c d) = R2 s" "R3 (news s a c d) = R3 s"
  "g_cells (news s a c d) = g_cells s" "ARENA_SIZE (news s a c d) = ARENA_SIZE s"
  "gc_count (news s a c d) = gc_count s" "x < g_free s \<Longrightarrow> heap (news s a c d) x = heap s x"
  by (simp_all add: news_def)

lemma vec_header_pointers:
  "is_vec t \<Longrightarrow> \<not> pointer_car t \<and> \<not> scanned_cdr t"
  by (auto simp: is_vec_def pointer_car_def scanned_cdr_def)

lemma slot_of_base:
  "ctype (slot_of h k x j) = ctype (slot_of h 0 x j)"
  "ccar (slot_of h k x j) = ccar (slot_of h 0 x j)"
  "scanned_cdr (ctype (slot_of h k x j)) \<Longrightarrow> ccdr (slot_of h k x j) = ccdr (slot_of h 0 x j)"
proof -
  assume s: "scanned_cdr (ctype (slot_of h k x j))"
  then have "\<not> (j = 0 \<and> is_vec (ctype (the (h x))))"
    using vec_header_pointers by (auto simp: slot_of_def)
  then show "ccdr (slot_of h k x j) = ccdr (slot_of h 0 x j)"
    by (cases "j = 0") (simp_all add: slot_of_def)
qed (simp_all add: slot_of_def)

lemma element_below:
  assumes "object_ok h L A x" "1 \<le> j" "j < nslots (the (h x))"
  shows "ccdr (the (h x)) + (j - 1) < L"
proof -
  obtain e where e: "h x = Some e" "\<And>i. is_vec (ctype e) \<Longrightarrow> 0 \<le> i \<Longrightarrow> i < ccar e \<Longrightarrow> ccdr e + i < L"
    using assms(1) unfolding object_ok_def by fastforce
  have "is_vec (ctype e)" "j - 1 < ccar e"
    using assms(2,3) e(1) by (auto simp: nslots_def split: if_splits)
  then show ?thesis
    using e assms(2) by simp
qed

lemma slot_of_cong:
  assumes "object_ok h L A x" "0 \<le> j" "j < nslots (the (h x))" "\<And>y. y < L \<Longrightarrow> h' y = h y"
  shows "slot_of h' k x j = slot_of h k x j"
proof -
  have "x < L" using assms(1) by (simp add: object_ok_def)
  then show ?thesis
    using assms element_below [OF assms(1), of j] by (cases "j = 0") (simp_all add: slot_of_def)
qed

lemma collectable_source:
  assumes "collectable s"
  shows "source (heap (news s a c d)) (g_free s + 2) (g_free s + 2) (reach s)"
proof -
  have ok: "\<And>x. x \<in> reach s \<Longrightarrow> object_ok (heap s) (g_free s) (reach s) x"
    and fin: "finite (reach s)"
    using assms by (auto simp: collectable_def)
  have heq: "heap (news s a c d) x = heap s x" if "x \<in> reach s" for x
    using ok [OF that] by (auto elim!: object_okD)
  have ok': "object_ok (heap (news s a c d)) (g_free s + 2) (reach s) x" if x: "x \<in> reach s" for x
  proof -
    obtain e where e: "x < g_free s" "heap s x = Some e" "ctype e \<noteq> TBROKEN_HEART" "size_ok e"
      "\<And>j. is_vec (ctype e) \<Longrightarrow> 0 \<le> j \<Longrightarrow> j < ccar e \<Longrightarrow> ccdr e + j < g_free s \<and> ccdr e + j \<notin> reach s
        \<and> (\<exists>d. heap s (ccdr e + j) = Some d \<and> plain (ctype d))"
      using object_okD [OF ok [OF x]] by blast
    then show ?thesis
      unfolding object_ok_def by (auto intro!: exI [of _ e]) (fastforce+)
  qed
  have closed: "car_in (reach s) (slot_of (heap (news s a c d)) k x j)
      \<and> cdr_in (reach s) (slot_of (heap (news s a c d)) k x j)"
    if x: "x \<in> reach s" and j: "0 \<le> j" "j < nslots (the (heap (news s a c d) x))" for x j k
  proof -
    have j': "j < nslots (the (heap s x))" using j heq [OF x] by simp
    let ?r = "slot_of (heap s) k x j"
    have "slot_of (heap (news s a c d)) k x j = ?r"
      by (rule slot_of_cong [OF ok [OF x] j(1) j']) simp
    moreover have "pointer_car (ctype ?r) \<Longrightarrow> ccar ?r \<in> reach s"
      using reach.car [OF x j(1) j'] slot_of_base(1,2) [of "heap s" k x j] by simp
    moreover have "scanned_cdr (ctype ?r) \<Longrightarrow> ccdr ?r \<in> reach s"
      using reach.cdr [OF x j(1) j'] slot_of_base(1,3) [of "heap s" k x j] by simp
    ultimately show ?thesis
      by (simp add: car_in_def cdr_in_def)
  qed
  have sum: "(\<Sum>x\<in>reach s. osize (the (heap (news s a c d) x))) = live s"
    unfolding live_def by (rule sum.cong) (simp_all add: heq)
  show ?thesis
    unfolding source_def sum
    using fin ok' closed assms unfolding collectable_def by (auto simp: news_def)
qed

section \<open>Copying the roots\<close>

text \<open>While the roots are copied, nothing is scanned yet.\<close>

definition phase :: "(addr \<rightharpoonup> cell) \<Rightarrow> (addr \<Rightarrow> byte list) \<Rightarrow> addr \<Rightarrow> addr set \<Rightarrow> addr list \<Rightarrow> mst \<Rightarrow> bool" where
  "phase h b n A os t \<longleftrightarrow> distinct os \<and> set os \<subseteq> A \<and> copied h b n n os n False t"

lemma phase_regs [simp]:
  "phase h b n A os (t\<lparr>g_symbols := x\<rparr>) = phase h b n A os t"
  "phase h b n A os (t\<lparr>g_macros := x\<rparr>) = phase h b n A os t"
  "phase h b n A os (t\<lparr>g_ports := x\<rparr>) = phase h b n A os t"
  "phase h b n A os (t\<lparr>hash_table_type := x\<rparr>) = phase h b n A os t"
  "phase h b n A os (t\<lparr>variable_type := x\<rparr>) = phase h b n A os t"
  "phase h b n A os (t\<lparr>M0 := x\<rparr>) = phase h b n A os t"
  "phase h b n A os (t\<lparr>M1 := x\<rparr>) = phase h b n A os t"
  "phase h b n A os (t\<lparr>stack := st\<rparr>) = phase h b n A os t"
  by (simp_all add: phase_def copied_def)

lemma phase_copy:
  assumes "source h n n A" "phase h b n A os t" "x \<in> A"
  shows "\<exists>qs u. gc_copy x t = Some (Inr (fwd h n (os @ qs) x), u) \<and> x \<in> set (os @ qs)
    \<and> phase h b n A (os @ qs) u \<and> same_regs t u \<and> (if x \<in> set os then qs = [] else qs = [x])"
proof -
  have "n \<le> g_free t"
    using assms(2) copiedD(1) [of h b n n os n False t] extent_nonneg
      source_sizes_ok [OF assms(1), of "set os"] by (auto simp: phase_def)
  then show ?thesis
    using gc_copy_copied [OF assms(1) _ _ _ assms(3), of os b n False t] assms(2)
    unfolding phase_def by blast
qed

text \<open>What the copying of the roots leaves alone.\<close>

definition same_core :: "mst \<Rightarrow> mst \<Rightarrow> bool" where
  "same_core s t \<longleftrightarrow> g_stack t = g_stack s \<and> STACK_SIZE t = STACK_SIZE s \<and> g_cells t = g_cells s
     \<and> g_news t = g_news s \<and> R0 t = R0 s \<and> R1 t = R1 s \<and> R2 t = R2 s \<and> R3 t = R3 s
     \<and> gc_count t = gc_count s \<and> ARENA_SIZE t = ARENA_SIZE s \<and> MAX_ARENA_SIZE t = MAX_ARENA_SIZE s
     \<and> g_symbol_max t = g_symbol_max s"

text \<open>The registers and globals whose objects are copied, in the order of \<^verbatim>\<open>gc_\<close>.\<close>

definition globals :: "mst \<Rightarrow> addr list" where
  "globals s = [g_symbols s, g_macros s, g_ports s, hash_table_type s, variable_type s, M0 s, M1 s]"

lemma same_regs_core: "same_regs s t \<Longrightarrow> same_core s t \<and> stack t = stack s \<and> globals t = globals s"
  by (simp add: same_core_def globals_def same_regsD)

lemma same_core_trans: "same_core s t \<Longrightarrow> same_core t u \<Longrightarrow> same_core s u"
  by (simp add: same_core_def)

lemma same_core_refl [simp]: "same_core s s"
  by (simp add: same_core_def)

lemma root_step:
  assumes "source h n n A" "phase h b n A os t" "get t \<in> A"
  shows "\<exists>qs u. mbind (gets get) (\<lambda>x. mbind (gc_copy x) (\<lambda>y. modify (upd y))) t
      = Some (Inr (), upd (fwd h n (os @ qs) (get t)) u)
    \<and> phase h b n A (os @ qs) u \<and> same_regs t u \<and> get t \<in> set (os @ qs)"
proof -
  obtain qs u where "gc_copy (get t) t = Some (Inr (fwd h n (os @ qs) (get t)), u)"
    "get t \<in> set (os @ qs)" "phase h b n A (os @ qs) u" "same_regs t u"
    using phase_copy [OF assms] by blast
  then show ?thesis
    by (intro exI [of _ qs] exI [of _ u]) simp
qed

definition copy_globals :: "unit mes" where
  "copy_globals =
     mseq (mbind (gets g_symbols) (\<lambda>x. mbind (gc_copy x) (\<lambda>y. modify (\<lambda>s. s\<lparr>g_symbols := y\<rparr>))))
     (mseq (mbind (gets g_macros) (\<lambda>x. mbind (gc_copy x) (\<lambda>y. modify (\<lambda>s. s\<lparr>g_macros := y\<rparr>))))
     (mseq (mbind (gets g_ports) (\<lambda>x. mbind (gc_copy x) (\<lambda>y. modify (\<lambda>s. s\<lparr>g_ports := y\<rparr>))))
     (mseq (mbind (gets hash_table_type) (\<lambda>x. mbind (gc_copy x) (\<lambda>y. modify (\<lambda>s. s\<lparr>hash_table_type := y\<rparr>))))
     (mseq (mbind (gets variable_type) (\<lambda>x. mbind (gc_copy x) (\<lambda>y. modify (\<lambda>s. s\<lparr>variable_type := y\<rparr>))))
     (mseq (mbind (gets M0) (\<lambda>x. mbind (gc_copy x) (\<lambda>y. modify (\<lambda>s. s\<lparr>M0 := y\<rparr>))))
     (mbind (gets M1) (\<lambda>x. mbind (gc_copy x) (\<lambda>y. modify (\<lambda>s. s\<lparr>M1 := y\<rparr>)))))))))"

lemma in_append: "x \<in> set xs \<Longrightarrow> x \<in> set (xs @ ys)"
  by simp

lemma copy_globals_ok:
  assumes src: "source h n n A" and ph: "phase h b n A os t" and "set (globals t) \<subseteq> A"
  shows "\<exists>qs u. copy_globals t = Some (Inr (), u) \<and> phase h b n A (os @ qs) u
    \<and> set (globals t) \<subseteq> set (os @ qs) \<and> globals u = map (fwd h n (os @ qs)) (globals t)
    \<and> stack u = stack t \<and> same_core t u"
proof -
  have A: "g_symbols t \<in> A" "g_macros t \<in> A" "g_ports t \<in> A" "hash_table_type t \<in> A"
    "variable_type t \<in> A" "M0 t \<in> A" "M1 t \<in> A"
    using assms(3) by (simp_all add: globals_def)
  obtain q1 u1 where 1: "mbind (gets g_symbols) (\<lambda>x. mbind (gc_copy x) (\<lambda>y. modify (\<lambda>s. s\<lparr>g_symbols := y\<rparr>))) t
      = Some (Inr (), u1\<lparr>g_symbols := fwd h n (os @ q1) (g_symbols t)\<rparr>)"
    "phase h b n A (os @ q1) u1" "same_regs t u1" "g_symbols t \<in> set (os @ q1)"
    using root_step [where get = g_symbols and upd = "\<lambda>y s. s\<lparr>g_symbols := y\<rparr>", OF src ph A(1)] by blast
  let ?t1 = "u1\<lparr>g_symbols := fwd h n (os @ q1) (g_symbols t)\<rparr>"
  note r1 = same_regsD [OF 1(3)]
  obtain q2 u2 where 2: "mbind (gets g_macros) (\<lambda>x. mbind (gc_copy x) (\<lambda>y. modify (\<lambda>s. s\<lparr>g_macros := y\<rparr>))) ?t1
      = Some (Inr (), u2\<lparr>g_macros := fwd h n (os @ q1 @ q2) (g_macros t)\<rparr>)"
    "phase h b n A (os @ q1 @ q2) u2" "same_regs ?t1 u2" "g_macros t \<in> set (os @ q1 @ q2)"
    using root_step [OF src, of b "os @ q1" ?t1 g_macros "\<lambda>y s. s\<lparr>g_macros := y\<rparr>"] 1(2) A by (auto simp: r1)
  let ?t2 = "u2\<lparr>g_macros := fwd h n (os @ q1 @ q2) (g_macros t)\<rparr>"
  note r2 = same_regsD [OF 2(3)] r1
  obtain q3 u3 where 3: "mbind (gets g_ports) (\<lambda>x. mbind (gc_copy x) (\<lambda>y. modify (\<lambda>s. s\<lparr>g_ports := y\<rparr>))) ?t2
      = Some (Inr (), u3\<lparr>g_ports := fwd h n (os @ q1 @ q2 @ q3) (g_ports t)\<rparr>)"
    "phase h b n A (os @ q1 @ q2 @ q3) u3" "same_regs ?t2 u3" "g_ports t \<in> set (os @ q1 @ q2 @ q3)"
    using root_step [OF src, of b "os @ q1 @ q2" ?t2 g_ports "\<lambda>y s. s\<lparr>g_ports := y\<rparr>"] 2(2) A by (auto simp: r2)
  let ?t3 = "u3\<lparr>g_ports := fwd h n (os @ q1 @ q2 @ q3) (g_ports t)\<rparr>"
  note r3 = same_regsD [OF 3(3)] r2
  obtain q4 u4 where 4: "mbind (gets hash_table_type) (\<lambda>x. mbind (gc_copy x) (\<lambda>y. modify (\<lambda>s. s\<lparr>hash_table_type := y\<rparr>))) ?t3
      = Some (Inr (), u4\<lparr>hash_table_type := fwd h n (os @ q1 @ q2 @ q3 @ q4) (hash_table_type t)\<rparr>)"
    "phase h b n A (os @ q1 @ q2 @ q3 @ q4) u4" "same_regs ?t3 u4" "hash_table_type t \<in> set (os @ q1 @ q2 @ q3 @ q4)"
    using root_step [OF src, of b "os @ q1 @ q2 @ q3" ?t3 hash_table_type "\<lambda>y s. s\<lparr>hash_table_type := y\<rparr>"] 3(2) A by (auto simp: r3)
  let ?t4 = "u4\<lparr>hash_table_type := fwd h n (os @ q1 @ q2 @ q3 @ q4) (hash_table_type t)\<rparr>"
  note r4 = same_regsD [OF 4(3)] r3
  obtain q5 u5 where 5: "mbind (gets variable_type) (\<lambda>x. mbind (gc_copy x) (\<lambda>y. modify (\<lambda>s. s\<lparr>variable_type := y\<rparr>))) ?t4
      = Some (Inr (), u5\<lparr>variable_type := fwd h n (os @ q1 @ q2 @ q3 @ q4 @ q5) (variable_type t)\<rparr>)"
    "phase h b n A (os @ q1 @ q2 @ q3 @ q4 @ q5) u5" "same_regs ?t4 u5" "variable_type t \<in> set (os @ q1 @ q2 @ q3 @ q4 @ q5)"
    using root_step [OF src, of b "os @ q1 @ q2 @ q3 @ q4" ?t4 variable_type "\<lambda>y s. s\<lparr>variable_type := y\<rparr>"] 4(2) A by (auto simp: r4)
  let ?t5 = "u5\<lparr>variable_type := fwd h n (os @ q1 @ q2 @ q3 @ q4 @ q5) (variable_type t)\<rparr>"
  note r5 = same_regsD [OF 5(3)] r4
  obtain q6 u6 where 6: "mbind (gets M0) (\<lambda>x. mbind (gc_copy x) (\<lambda>y. modify (\<lambda>s. s\<lparr>M0 := y\<rparr>))) ?t5
      = Some (Inr (), u6\<lparr>M0 := fwd h n (os @ q1 @ q2 @ q3 @ q4 @ q5 @ q6) (M0 t)\<rparr>)"
    "phase h b n A (os @ q1 @ q2 @ q3 @ q4 @ q5 @ q6) u6" "same_regs ?t5 u6" "M0 t \<in> set (os @ q1 @ q2 @ q3 @ q4 @ q5 @ q6)"
    using root_step [OF src, of b "os @ q1 @ q2 @ q3 @ q4 @ q5" ?t5 M0 "\<lambda>y s. s\<lparr>M0 := y\<rparr>"] 5(2) A by (auto simp: r5)
  let ?t6 = "u6\<lparr>M0 := fwd h n (os @ q1 @ q2 @ q3 @ q4 @ q5 @ q6) (M0 t)\<rparr>"
  note r6 = same_regsD [OF 6(3)] r5
  obtain q7 u7 where 7: "mbind (gets M1) (\<lambda>x. mbind (gc_copy x) (\<lambda>y. modify (\<lambda>s. s\<lparr>M1 := y\<rparr>))) ?t6
      = Some (Inr (), u7\<lparr>M1 := fwd h n (os @ q1 @ q2 @ q3 @ q4 @ q5 @ q6 @ q7) (M1 t)\<rparr>)"
    "phase h b n A (os @ q1 @ q2 @ q3 @ q4 @ q5 @ q6 @ q7) u7" "same_regs ?t6 u7" "M1 t \<in> set (os @ q1 @ q2 @ q3 @ q4 @ q5 @ q6 @ q7)"
    using root_step [OF src, of b "os @ q1 @ q2 @ q3 @ q4 @ q5 @ q6" ?t6 M1 "\<lambda>y s. s\<lparr>M1 := y\<rparr>"] 6(2) A by (auto simp: r6)
  note r7 = same_regsD [OF 7(3)] r6
  let ?u = "u7\<lparr>M1 := fwd h n (os @ q1 @ q2 @ q3 @ q4 @ q5 @ q6 @ q7) (M1 t)\<rparr>"
  have "copy_globals t = Some (Inr (), ?u)"
    unfolding copy_globals_def mseq_def
    by (subst mbind_Inr, rule 1(1), subst mbind_Inr, rule 2(1), subst mbind_Inr, rule 3(1),
        subst mbind_Inr, rule 4(1), subst mbind_Inr, rule 5(1), subst mbind_Inr, rule 6(1), rule 7(1))
  moreover have "globals ?u = map (fwd h n (os @ q1 @ q2 @ q3 @ q4 @ q5 @ q6 @ q7)) (globals t)"
    unfolding globals_def list.map
    using fwd_append [OF 1(4), of h n "q2 @ q3 @ q4 @ q5 @ q6 @ q7"]
      fwd_append [OF 2(4), of h n "q3 @ q4 @ q5 @ q6 @ q7"] fwd_append [OF 3(4), of h n "q4 @ q5 @ q6 @ q7"]
      fwd_append [OF 4(4), of h n "q5 @ q6 @ q7"] fwd_append [OF 5(4), of h n "q6 @ q7"]
      fwd_append [OF 6(4), of h n q7]
    by (simp add: r7 del: fwd.simps)
  moreover have "set (globals t) \<subseteq> set (os @ q1 @ q2 @ q3 @ q4 @ q5 @ q6 @ q7)"
    using in_append [OF 1(4), of "q2 @ q3 @ q4 @ q5 @ q6 @ q7"] in_append [OF 2(4), of "q3 @ q4 @ q5 @ q6 @ q7"]
      in_append [OF 3(4), of "q4 @ q5 @ q6 @ q7"] in_append [OF 4(4), of "q5 @ q6 @ q7"]
      in_append [OF 5(4), of "q6 @ q7"] in_append [OF 6(4), of q7] 7(4)
    unfolding append_assoc by (simp only: globals_def list.set insert_subset empty_subsetI simp_thms)
  moreover have "same_core t ?u" "stack ?u = stack t"
    by (simp_all add: same_core_def r7)
  ultimately show ?thesis
    using 7(2) by (intro exI [of _ "q1 @ q2 @ q3 @ q4 @ q5 @ q6 @ q7"] exI [of _ ?u]) simp
qed

text \<open>The symbols come first, in order, so that their copies keep their distances.\<close>

lemma extent_upto:
  assumes "\<And>x. c \<le> x \<Longrightarrow> x < c + int k \<Longrightarrow> osize (the (h x)) = 1"
  shows "extent h [c..c + int k - 1] = int k"
  using assms
proof (induction k)
  case (Suc k)
  have "[c..c + int (Suc k) - 1] = [c..c + int k - 1] @ [c + int k]"
    by (simp add: upto_rec2)
  then show ?case using Suc by simp
qed simp

lemma fwd_upto:
  assumes "\<And>x. c \<le> x \<Longrightarrow> x < c + int k \<Longrightarrow> osize (the (h x)) = 1"
  shows "c \<le> x \<Longrightarrow> x < c + int k \<Longrightarrow> fwd h n [c..c + int k - 1] x = n + (x - c)"
  using assms
proof (induction k)
  case (Suc k)
  have upto: "[c..c + int (Suc k) - 1] = [c..c + int k - 1] @ [c + int k]"
    by (simp add: upto_rec2)
  show ?case
  proof (cases "x = c + int k")
    case True
    then have "x \<notin> set [c..c + int k - 1]" by simp
    then show ?thesis
      unfolding upto using True extent_upto [of c k h] Suc.prems(3) by (simp add: fwd_last)
  next
    case False
    then have "x \<in> set [c..c + int k - 1]" "x < c + int k" using Suc.prems(1,2) by auto
    then show ?thesis
      unfolding upto using Suc by (simp add: fwd_append)
  qed
qed simp

lemma copy_symbols_ok:
  assumes src: "source h n n A" and ph: "phase h b n A [] t"
    and "\<And>x. c \<le> x \<Longrightarrow> x < lim \<Longrightarrow> x \<in> A"
  shows "\<exists>u. mfor [c..lim - 1] (\<lambda>x. mbind (gc_copy x) (\<lambda>_. ret ())) t = Some (Inr (), u)
    \<and> phase h b n A [c..lim - 1] u \<and> same_regs t u"
proof (cases "c \<le> lim")
  case True
  define P where "P k u \<longleftrightarrow> phase h b n A [c..c + int k - 1] u \<and> same_regs t u" for k u
  have "\<exists>v. mbind (gc_copy ([c..lim - 1] ! k)) (\<lambda>_. ret ()) u = Some (Inr (), v) \<and> P (Suc k) v"
    if k: "k < length [c..lim - 1]" and P: "P k u" for k u
  proof -
    have i: "[c..lim - 1] ! k = c + int k" "c + int k < lim" using k by auto
    then have A: "c + int k \<in> A" using assms(3) by simp
    obtain qs v where v: "gc_copy (c + int k) u = Some (Inr (fwd h n ([c..c + int k - 1] @ qs) (c + int k)), v)"
      "phase h b n A ([c..c + int k - 1] @ qs) v" "same_regs u v"
      "if c + int k \<in> set [c..c + int k - 1] then qs = [] else qs = [c + int k]"
      using phase_copy [OF src _ A] P unfolding P_def by blast
    have "[c..c + int (Suc k) - 1] = [c..c + int k - 1] @ qs"
      using v(4) by (simp add: upto_rec2)
    then show ?thesis
      using v i same_regs_trans [of t u v] P by (intro exI [of _ v]) (simp add: P_def)
  qed
  moreover have "P 0 t" using ph by (simp add: P_def)
  ultimately obtain u where "mfor [c..lim - 1] (\<lambda>x. mbind (gc_copy x) (\<lambda>_. ret ())) t = Some (Inr (), u)"
    "P (length [c..lim - 1]) u"
    using mfor_invariant [of P t "[c..lim - 1]" "\<lambda>x. mbind (gc_copy x) (\<lambda>_. ret ())"] by blast
  moreover have "c + int (length [c..lim - 1]) - 1 = lim - 1" using True by simp
  ultimately show ?thesis by (auto simp: P_def simp del: length_upto)
next
  case False
  then have "[c..lim - 1] = []" by simp
  then show ?thesis using ph by (intro exI [of _ t]) simp
qed

lemma stack_core [simp]:
  "same_core s (t\<lparr>stack := st\<rparr>) = same_core s t" "globals (t\<lparr>stack := st\<rparr>) = globals t"
  by (simp_all add: same_core_def globals_def)

lemma copy_stack_ok:
  assumes src: "source h n n A" and ph: "phase h b n A os t"
    and "\<And>i. st \<le> i \<Longrightarrow> i < m \<Longrightarrow> stack t i \<in> A" and "0 \<le> st" "m \<le> STACK_SIZE t"
  shows "\<exists>qs u. mfor [st..m - 1] (\<lambda>i. mbind (stack_get i) (\<lambda>x. mbind (gc_copy x) (copy_stack i))) t = Some (Inr (), u)
    \<and> phase h b n A (os @ qs) u \<and> same_core t u \<and> globals u = globals t
    \<and> (\<forall>i. st \<le> i \<and> i < m \<longrightarrow> stack t i \<in> set (os @ qs) \<and> stack u i = fwd h n (os @ qs) (stack t i))
    \<and> (\<forall>i. \<not> (st \<le> i \<and> i < m) \<longrightarrow> stack u i = stack t i)"
proof -
  define P where "P k u \<longleftrightarrow> (\<exists>qs. phase h b n A (os @ qs) u \<and> same_core t u \<and> globals u = globals t
    \<and> (\<forall>i. st \<le> i \<and> i < st + int k \<longrightarrow> stack t i \<in> set (os @ qs) \<and> stack u i = fwd h n (os @ qs) (stack t i))
    \<and> (\<forall>i. \<not> (st \<le> i \<and> i < st + int k) \<longrightarrow> stack u i = stack t i))" for k u
  have "\<exists>v. mbind (stack_get ([st..m - 1] ! k)) (\<lambda>x. mbind (gc_copy x) (copy_stack ([st..m - 1] ! k))) u
      = Some (Inr (), v) \<and> P (Suc k) v"
    if k: "k < length [st..m - 1]" and P: "P k u" for k u
  proof -
    let ?i = "st + int k"
    have i: "[st..m - 1] ! k = ?i" "?i < m" using k by auto
    obtain qs where qs: "phase h b n A (os @ qs) u" "same_core t u" "globals u = globals t"
      "\<And>i. st \<le> i \<Longrightarrow> i < ?i \<Longrightarrow> stack t i \<in> set (os @ qs) \<and> stack u i = fwd h n (os @ qs) (stack t i)"
      "\<And>i. \<not> (st \<le> i \<and> i < ?i) \<Longrightarrow> stack u i = stack t i"
      using P unfolding P_def by blast
    have x: "stack u ?i = stack t ?i" "stack t ?i \<in> A"
      using qs(5) assms(3) i(2) by auto
    obtain ps v where v: "gc_copy (stack t ?i) u = Some (Inr (fwd h n ((os @ qs) @ ps) (stack t ?i)), v)"
      "stack t ?i \<in> set ((os @ qs) @ ps)" "phase h b n A ((os @ qs) @ ps) v" "same_regs u v"
      using phase_copy [OF src qs(1) x(2)] by blast
    note rv = same_regs_core [OF v(4)]
    have ok: "stack_ok u ?i" "stack_ok v ?i"
      using i(2) assms(4,5) qs(2) rv by (auto simp: stack_ok_def same_core_def)
    let ?v = "v\<lparr>stack := (stack v)(?i := fwd h n ((os @ qs) @ ps) (stack t ?i))\<rparr>"
    have "mbind (stack_get ([st..m - 1] ! k)) (\<lambda>x. mbind (gc_copy x) (copy_stack ([st..m - 1] ! k))) u = Some (Inr (), ?v)"
      using ok v(1) x(1) by (simp add: i(1) copy_stack_def)
    moreover have "P (Suc k) ?v"
      unfolding P_def
    proof (intro exI [of _ "qs @ ps"] conjI allI impI)
      fix j assume j: "st \<le> j \<and> j < st + int (Suc k)"
      show "stack t j \<in> set (os @ qs @ ps)" "stack ?v j = fwd h n (os @ qs @ ps) (stack t j)"
        using qs(4) [of j] v(2) j rv fwd_append [of "stack t j" "os @ qs" h n ps] by (cases "j = ?i"; auto)+
    next
      show "phase h b n A (os @ qs @ ps) ?v" using v(3) by simp
      show "same_core t ?v" using same_core_trans [OF qs(2)] rv by simp
      show "globals ?v = globals t" using qs(3) rv by simp
    next
      fix j assume "\<not> (st \<le> j \<and> j < st + int (Suc k))"
      then show "stack ?v j = stack t j"
        using qs(5) [of j] rv by auto
    qed
    ultimately show ?thesis by blast
  qed
  moreover have "P 0 t" using ph unfolding P_def by (intro exI [of _ "[]"]) auto
  ultimately obtain u where u: "mfor [st..m - 1] (\<lambda>i. mbind (stack_get i) (\<lambda>x. mbind (gc_copy x) (copy_stack i))) t = Some (Inr (), u)"
    "P (length [st..m - 1]) u"
    using mfor_invariant [of P t "[st..m - 1]" "\<lambda>i. mbind (stack_get i) (\<lambda>x. mbind (gc_copy x) (copy_stack i))"] by blast
  have "st \<le> i \<and> i < st + int (length [st..m - 1]) \<longleftrightarrow> st \<le> i \<and> i < m" for i by auto
  then show ?thesis
    using u unfolding P_def by blast
qed

lemma shift_stack_ok:
  assumes "0 \<le> st" "m \<le> STACK_SIZE t"
  shows "mfor [st..m - 1] (\<lambda>i. mbind (stack_get i) (\<lambda>x. stack_put i (x - d))) t
    = Some (Inr (), t\<lparr>stack := (\<lambda>i. if st \<le> i \<and> i < m then stack t i - d else stack t i)\<rparr>)"
proof -
  define P where "P k u \<longleftrightarrow> u = t\<lparr>stack := (\<lambda>i. if st \<le> i \<and> i < st + int k then stack t i - d else stack t i)\<rparr>" for k u
  have "\<exists>v. mbind (stack_get ([st..m - 1] ! k)) (\<lambda>x. stack_put ([st..m - 1] ! k) (x - d)) u
      = Some (Inr (), v) \<and> P (Suc k) v"
    if k: "k < length [st..m - 1]" and P: "P k u" for k u
  proof -
    have i: "[st..m - 1] ! k = st + int k" "st + int k < m" using k by auto
    have "stack_ok u (st + int k)"
      using P i(2) assms by (simp add: P_def stack_ok_def)
    moreover have "(stack u)(st + int k := stack u (st + int k) - d)
        = (\<lambda>i. if st \<le> i \<and> i < st + int (Suc k) then stack t i - d else stack t i)"
      using P by (auto simp: P_def fun_eq_iff)
    ultimately show ?thesis
      using P by (auto simp: i(1) P_def)
  qed
  moreover have "P 0 t" by (simp add: P_def) (cases t, simp add: fun_eq_iff)
  ultimately obtain u where u: "mfor [st..m - 1] (\<lambda>i. mbind (stack_get i) (\<lambda>x. stack_put i (x - d))) t = Some (Inr (), u)"
    "P (length [st..m - 1]) u"
    using mfor_invariant [of P t "[st..m - 1]" "\<lambda>i. mbind (stack_get i) (\<lambda>x. stack_put i (x - d))"] by blast
  have "st \<le> i \<and> i < st + int (length [st..m - 1]) \<longleftrightarrow> st \<le> i \<and> i < m" for i by auto
  then show ?thesis
    using u unfolding P_def by simp
qed

section \<open>Moving the copy back\<close>

lemma copied_regs:
  "copied h b L n os scan m (t\<lparr>JAM_SIZE := x\<rparr>) = copied h b L n os scan m t"
  "copied h b L n os scan m (t\<lparr>cell_arena := x\<rparr>) = copied h b L n os scan m t"
  by (simp_all add: copied_def)

lemma gc_cellcpy_ok:
  assumes src: "source h n n A" and os: "distinct os" "set os \<subseteq> A"
    and cop: "copied h b n n os (n + extent h os) False t"
    and zero: "h (n - 1) = Some z" "ctype z = TCHAR" "n - 1 \<notin> A" and d: "0 < d"
    and dest: "\<And>y. n - 1 \<le> y \<Longrightarrow> y < n + extent h os \<Longrightarrow> heap t (y - d) \<noteq> None"
    and ext: "extent h os < 2 ^ 62"
  shows "\<exists>u. gc_cellcpy (n - 1 - d) (n - 1) (extent h os + 1) t = Some (Inr (), u)
    \<and> sliding h n os d t (n + extent h os) u"
proof -
  have sz: "sizes_ok h (set os)" by (rule source_sizes_ok [OF src os(2)])
  have ext0: "0 \<le> extent h os" by (rule extent_nonneg [OF sz])
  have z: "heap t (n - 1) = Some z"
    using copiedD(2) [OF cop, of "n - 1"] zero(1,3) os(2) by auto
  let ?u = "t\<lparr>heap := (heap t)(n - 1 - d \<mapsto> shift d z)\<rparr>"
  have m: "heap t (n - 1 - d) \<noteq> None" using dest [of "n - 1"] ext0 by simp
  have step: "gc_cellcpy (n - 1 - d) (n - 1) (extent h os + 1) t
      = gc_cellcpy_loop d (n - d) n (n + extent h os - n) ?u"
    using cellcpy_step [of "extent h os + 1" t "n - 1" z "n - 1 - d" d] z zero(2) m d ext0
    by (simp add: gc_cellcpy_def Let_def algebra_simps)
  have "sliding h n os d t n ?u"
    unfolding sliding_def
  proof (intro conjI allI impI ballI)
    fix x j assume "is_slot h os x j"
    then have "n \<le> fwd h n os x + j" by (rule is_slot_range(1) [OF _ sz])
    then show "if fwd h n os x + j < n
        then heap ?u (fwd h n os x + j - d) = Some (shift d (the (heap t (fwd h n os x + j))))
        else heap ?u (fwd h n os x + j) = heap t (fwd h n os x + j)"
      using d by simp
  next
    fix x assume "x \<in> set os" "ctype (the (h x)) = TBYTES"
    then have "n \<le> fwd h n os x" using fwd_range(1) [OF _ sz, of x n] by simp
    then show "if fwd h n os x < n
        then bytes ?u (fwd h n os x - d) = take (nat (ccar (the (h x)))) (bytes t (fwd h n os x))
        else bytes ?u (fwd h n os x) = bytes t (fwd h n os x)"
      by simp
  qed (use m in auto)
  then show ?thesis
    unfolding step
    by (intro cellcpy_from [OF src os cop d _ ext] at_slot_start os sz)
      (use dest ext0 in auto)
qed

definition shifted :: "int \<Rightarrow> mst \<Rightarrow> mst" where
  "shifted d t = t\<lparr>g_free := g_free t - d, g_symbols := g_symbols t - d, g_macros := g_macros t - d,
     g_ports := g_ports t - d, hash_table_type := hash_table_type t - d,
     variable_type := variable_type t - d, M0 := M0 t - d, M1 := M1 t - d,
     stack := (\<lambda>i. if g_stack t \<le> i \<and> i < STACK_SIZE t then stack t i - d else stack t i)\<rparr>"

lemma gc_flip_ok:
  assumes src: "source h n n A" and os: "distinct os" "set os \<subseteq> A"
    and cop: "copied h b n n os (g_free t) False t"
    and zero: "h (n - 1) = Some z" "ctype z = TCHAR" "n - 1 \<notin> A"
    and dest: "\<And>y. g_cells t \<le> y \<Longrightarrow> y < g_cells t + 1 + extent h os \<Longrightarrow> h y \<noteq> None"
    and ext: "extent h os < 2 ^ 62"
    and g: "g_news t = n - 1" "g_cells t < n - 1" "0 \<le> g_stack t"
  defines "d \<equiv> g_news t - g_cells t"
  shows "\<exists>t' u. gc_flip t = Some (Inr (), shifted d u) \<and> sliding h n os d t' (n + extent h os) u
     \<and> copied h b n n os (n + extent h os) False t'
     \<and> same_core t u \<and> globals u = globals t \<and> stack u = stack t \<and> g_free u = g_free t"
proof -
  have free: "g_free t = n + extent h os" by (rule copiedD(1) [OF cop])
  define t' where "t' = (if g_free t - g_news t > JAM_SIZE t
      then t\<lparr>JAM_SIZE := ((g_free t - g_news t) * 3) div 2\<rparr> else t)\<lparr>cell_arena := g_cells t - 1\<rparr>"
  have t': "g_cells t' = g_cells t" "g_news t' = g_news t" "g_free t' = g_free t" "heap t' = heap t"
    "same_core t t'" "globals t' = globals t" "stack t' = stack t"
    by (simp_all add: t'_def same_core_def globals_def)
  have cop': "copied h b n n os (n + extent h os) False t'"
    using cop free by (simp add: t'_def copied_regs)
  have "\<exists>u. gc_cellcpy (n - 1 - d) (n - 1) (extent h os + 1) t' = Some (Inr (), u)
      \<and> sliding h n os d t' (n + extent h os) u"
  proof (rule gc_cellcpy_ok [OF src os cop' zero])
    show "0 < d" using g(1,2) by (simp add: d_def)
    show "heap t' (y - d) \<noteq> None" if "n - 1 \<le> y" "y < n + extent h os" for y
      using dest [of "y - d"] that g(1,2) copiedD(6) [OF cop, of "y - d"] t'(4) by (auto simp: d_def)
  qed (rule ext)
  then obtain u where u: "gc_cellcpy (g_cells t) (g_news t) (g_free t - g_news t) t' = Some (Inr (), u)"
    "sliding h n os d t' (n + extent h os) u"
    using free g(1) by (auto simp: d_def)
  note ru = slidingD(1,2) [OF u(2)]
  note ru' = same_regs_core [OF ru(1)]
  let ?v = "u\<lparr>g_free := g_free u - d, g_symbols := g_symbols u - d,
          g_macros := g_macros u - d, g_ports := g_ports u - d,
          hash_table_type := hash_table_type u - d,
          variable_type := variable_type u - d, M0 := M0 u - d, M1 := M1 u - d\<rparr>"
  have st: "g_stack u = g_stack t" "STACK_SIZE u = STACK_SIZE t"
    using ru' t'(5) by (simp_all add: same_core_def)
  have sv: "stack ?v = stack u" by simp
  have loop: "mfor [g_stack u..STACK_SIZE u - 1] (\<lambda>i. mbind (stack_get i) (\<lambda>x. stack_put i (x - d))) ?v
      = Some (Inr (), shifted d u)"
    using shift_stack_ok [of "g_stack u" "STACK_SIZE u" ?v d, unfolded sv] st g(3)
    by (simp add: shifted_def)
  have "gc_flip t = Some (Inr (), shifted d u)"
    using u(1) loop t'(1-3) by (simp add: gc_flip_def t'_def d_def Let_def split: if_splits)
  then show ?thesis
    using u(2) cop' ru ru' t' same_core_trans [of t t' u]
    by (intro exI [of _ t'] exI [of _ u]) simp
qed

section \<open>A collection\<close>

text \<open>
  \<open>collected s g t\<close>: \<open>t\<close> is \<open>s\<close> after a collection that has moved each reachable object \<open>x\<close> to
  \<open>g x\<close>. The graph is the same, the symbols have kept their addresses, and only what is
  reachable takes cells.
\<close>

definition collected :: "mst \<Rightarrow> (addr \<Rightarrow> addr) \<Rightarrow> mst \<Rightarrow> bool" where
  "collected s g t \<longleftrightarrow> (\<forall>x \<in> reach s. moved (heap s) (bytes s) g t x) \<and> inj_on g (reach s)
     \<and> (\<forall>x. cell_nil \<le> x \<and> x < g_symbol_max s \<longrightarrow> g x = x)
     \<and> globals t = map g (globals s)
     \<and> (\<forall>i. stack t i = (if g_stack s \<le> i \<and> i < STACK_SIZE s then g (stack s i) else stack s i))
     \<and> (\<forall>x \<in> reach s. g_cells s + 1 \<le> g x \<and> g x + osize (the (heap s x)) \<le> g_free t)
     \<and> g_free t = g_cells s + 1 + live s
     \<and> g_stack t = g_stack s \<and> STACK_SIZE t = STACK_SIZE s \<and> g_cells t = g_cells s
     \<and> ARENA_SIZE t = ARENA_SIZE s \<and> R0 t = R0 s \<and> R1 t = R1 s \<and> R2 t = R2 s \<and> R3 t = R3 s"

lemma moved_cong:
  assumes "object_ok h L A x" "\<And>y. y < L \<Longrightarrow> h' y = h y" "moved h' b g t x"
    "\<And>y. y \<in> A' \<Longrightarrow> g' y = g y" "x \<in> A'"
    "\<And>j k. 0 \<le> j \<Longrightarrow> j < nslots (the (h x)) \<Longrightarrow> car_in A' (slot_of h k x j) \<and> cdr_in A' (slot_of h k x j)"
  shows "moved h b g' t x"
proof -
  have x: "h' x = h x"
    using assms(1,2) by (simp add: object_ok_def)
  have "relocate g (slot_of h' (g x) x j) = relocate g' (slot_of h (g x) x j)"
    if j: "0 \<le> j" "j < nslots (the (h x))" for j
  proof -
    have "slot_of h' (g x) x j = slot_of h (g x) x j"
      by (rule slot_of_cong [OF assms(1) j assms(2)])
    then show ?thesis
      using relocate_cong(2) [of A' "slot_of h (g x) x j" g g'] assms(4,6) j by auto
  qed
  then show ?thesis
    using assms(3,4,5) x by (cases "ctype (the (h x)) = TBYTES") (auto simp: moved_def)
qed

lemma reach_copied:
  assumes "collectable s" "source (heap (news s a c d)) n n (reach s)"
    and "set os \<subseteq> reach s" "copied (heap (news s a c d)) b n n os (n + extent (heap (news s a c d)) os) False t"
    and "gc_roots s \<subseteq> set os"
  shows "set os = reach s"
proof
  let ?h = "heap (news s a c d)"
  have sz: "sizes_ok ?h (set os)" by (rule source_sizes_ok [OF assms(2,3)])
  have in_os: "car_in (set os) (slot_of (heap s) k x j) \<and> cdr_in (set os) (slot_of (heap s) k x j)"
    if x: "x \<in> set os" and j: "0 \<le> j" "j < nslots (the (heap s x))" and k: "k = fwd ?h n os x" for x j k
  proof -
    have ok: "object_ok (heap s) (g_free s) (reach s) x"
      using assms(1,3) x by (auto simp: collectable_def)
    then have hx: "?h x = heap s x" by (simp add: object_ok_def)
    have "slot_of ?h k x j = slot_of (heap s) k x j"
      by (rule slot_of_cong [OF ok j]) simp
    moreover have "is_slot ?h os x j" using x j hx by (simp add: is_slot_def)
    ultimately show ?thesis
      using copiedD(7) [OF assms(4), of x j] is_slot_range(2) [OF _ sz, of x j n] k by simp
  qed
  show "reach s \<subseteq> set os"
  proof
    fix x assume "x \<in> reach s"
    then show "x \<in> set os"
    proof induction
      case (root x)
      then show ?case using assms(5) by blast
    next
      case (car x j)
      then show ?case
        using in_os [OF car(5,2,3) refl] slot_of_base(1,2) by (metis car_in_def)
    next
      case (cdr x j)
      then show ?case
        using in_os [OF cdr(5,2,3) refl] slot_of_base(1,3) by (metis cdr_in_def)
    qed
  qed
qed (rule assms(3))

lemma roots_globals: "set (globals s) \<subseteq> gc_roots s"
  by (auto simp: globals_def gc_roots_def)

lemma gc_c_steps:
  assumes "mseq gc_init_news (modify (\<lambda>s. s\<lparr>g_free := g_news s + 1\<rparr>)) s = Some (Inr (), s1)"
    and "mfor [cell_nil..g_symbol_max s1 - 1] (\<lambda>x. mbind (gc_copy x) (\<lambda>_. ret ())) s1 = Some (Inr (), s2)"
    and "copy_globals s2 = Some (Inr (), s3)"
    and "mfor [g_stack s3..STACK_SIZE s3 - 1] (\<lambda>i. mbind (stack_get i) (\<lambda>x. mbind (gc_copy x) (copy_stack i))) s3
      = Some (Inr (), s4)"
  shows "gc_c realloc mem s = gc_loop (g_free s1) s4"
proof -
  have "gc_c realloc mem = mbind (mseq gc_init_news (modify (\<lambda>s. s\<lparr>g_free := g_news s + 1\<rparr>))) (\<lambda>_.
     mbind (mbind (gets (\<lambda>s. ARENA_SIZE s < MAX_ARENA_SIZE s \<and> at_arena_start s)) (\<lambda>b.
            mwhen b (gc_up_arena realloc mem))) (\<lambda>_.
     mbind (gets g_free) (\<lambda>new_cell_nil.
     mbind (mbind (gets g_symbol_max) (\<lambda>max.
            mfor [cell_nil..max - 1] (\<lambda>x. mbind (gc_copy x) (\<lambda>_. ret ())))) (\<lambda>_.
     mbind copy_globals (\<lambda>_.
     mbind (mbind (gets g_stack) (\<lambda>st. mbind (gets STACK_SIZE) (\<lambda>n.
            mfor [st..n - 1] (\<lambda>i. mbind (stack_get i) (\<lambda>x. mbind (gc_copy x) (copy_stack i)))))) (\<lambda>_.
     gc_loop new_cell_nil))))))"
    by (simp only: gc_c_def copy_globals_def mseq_def mbind_assoc)
  moreover have "mbind (gets (\<lambda>s. ARENA_SIZE s < MAX_ARENA_SIZE s \<and> at_arena_start s)) (\<lambda>b.
            mwhen b (gc_up_arena realloc mem)) s1 = Some (Inr (), s1)"
    by simp
  moreover have "mbind (gets g_symbol_max) (\<lambda>max.
      mfor [cell_nil..max - 1] (\<lambda>x. mbind (gc_copy x) (\<lambda>_. ret ()))) s1 = Some (Inr (), s2)"
    "mbind (gets g_stack) (\<lambda>st. mbind (gets STACK_SIZE) (\<lambda>n.
      mfor [st..n - 1] (\<lambda>i. mbind (stack_get i) (\<lambda>x. mbind (gc_copy x) (copy_stack i))))) s3 = Some (Inr (), s4)"
    using assms(2,4) by simp_all
  ultimately show ?thesis
    using assms(1,3) by (simp only: mbind_Inr mbind_gets)
qed

lemma live_nonneg: "collectable s \<Longrightarrow> 0 \<le> live s"
proof -
  assume "collectable s"
  then have "0 \<le> osize (the (heap s x))" if "x \<in> reach s" for x
    using that osize_pos [of "the (heap s x)"] by (force simp: collectable_def object_ok_def)
  then show ?thesis
    unfolding live_def by (rule sum_nonneg)
qed

lemma phase_start: "phase h (bytes s) n A [] s \<longleftrightarrow> copied h (bytes s) n n [] n False s"
  by (simp add: phase_def)

lemma gc_roots_copied:
  assumes col: "collectable s" and acd: "heap s (cell_arena s) = Some a" "heap s (g_free s) = Some c" "heap s (g_free s + 1) = Some d"
  defines "h \<equiv> heap (news s a c d)" and "n \<equiv> g_free s + 2"
  shows "\<exists>os s4. gc_c realloc mem s = gc_loop n s4 \<and> phase h (bytes s) n (reach s) os s4 \<and> gc_roots s \<subseteq> set os
    \<and> (\<forall>x. cell_nil \<le> x \<and> x < g_symbol_max s \<longrightarrow> fwd h n os x = n + (x - cell_nil))
    \<and> globals s4 = map (fwd h n os) (globals s) \<and> same_core (news s a c d) s4
    \<and> (\<forall>i. stack s4 i = (if g_stack s \<le> i \<and> i < STACK_SIZE s then fwd h n os (stack s i) else stack s i))"
proof -
  let ?s1 = "news s a c d" and ?A = "reach s" and ?b = "bytes s"
  have src: "source h n n ?A"
    unfolding h_def n_def by (rule collectable_source [OF col])
  have init: "mseq gc_init_news (modify (\<lambda>s. s\<lparr>g_free := g_news s + 1\<rparr>)) s = Some (Inr (), ?s1)"
    using col acd by (intro gc_init_news_ok) (auto simp: collectable_def)
  have roots: "x \<in> ?A" if "x \<in> gc_roots s" for x
    using that by (rule reach.root)
  have sym: "osize (the (h x)) = 1" "x \<in> ?A" if "cell_nil \<le> x" "x < g_symbol_max s" for x
  proof -
    show A: "x \<in> ?A" using that roots by (simp add: gc_roots_def)
    have "x < g_free s" using A col by (auto simp: collectable_def object_ok_def)
    then show "osize (the (h x)) = 1"
      using col that by (simp add: h_def collectable_def)
  qed
  have "phase h ?b n ?A [] ?s1"
    by (simp add: phase_def copied_def is_slot_def h_def n_def)
  then obtain s2 where s2: "mfor [cell_nil..g_symbol_max ?s1 - 1] (\<lambda>x. mbind (gc_copy x) (\<lambda>_. ret ())) ?s1 = Some (Inr (), s2)"
    "phase h ?b n ?A [cell_nil..g_symbol_max ?s1 - 1] s2" "same_regs ?s1 s2"
    using copy_symbols_ok [OF src, of ?b ?s1 cell_nil "g_symbol_max ?s1"] sym(2) by auto
  note r2 = same_regs_core [OF s2(3)]
  have g2: "globals s2 = globals s" "stack s2 = stack s"
    using r2 by (simp_all add: globals_def)
  let ?syms = "[cell_nil..g_symbol_max ?s1 - 1]"
  have glA: "set (globals s2) \<subseteq> ?A"
    using roots_globals [of s] roots unfolding g2(1) by blast
  obtain q3 s3 where s3: "copy_globals s2 = Some (Inr (), s3)" "phase h ?b n ?A (?syms @ q3) s3"
    "set (globals s2) \<subseteq> set (?syms @ q3)" "globals s3 = map (fwd h n (?syms @ q3)) (globals s2)"
    "stack s3 = stack s2" "same_core s2 s3"
    using copy_globals_ok [OF src s2(2) glA] by blast
  have core3: "same_core ?s1 s3"
    using same_core_trans r2 s3(6) by blast
  have st: "g_stack s3 = g_stack s" "STACK_SIZE s3 = STACK_SIZE s"
    using core3 by (simp_all add: same_core_def)
  have stA: "stack s3 i \<in> ?A" if "g_stack s3 \<le> i" "i < STACK_SIZE s3" for i
    using that st s3(5) g2(2) roots by (auto simp: gc_roots_def)
  have "0 \<le> g_stack s3" using col st(1) by (simp add: collectable_def)
  then obtain q4 s4 where s4: "mfor [g_stack s3..STACK_SIZE s3 - 1] (\<lambda>i. mbind (stack_get i) (\<lambda>x. mbind (gc_copy x) (copy_stack i))) s3
      = Some (Inr (), s4)" "phase h ?b n ?A ((?syms @ q3) @ q4) s4" "same_core s3 s4" "globals s4 = globals s3"
    "\<And>i. g_stack s3 \<le> i \<Longrightarrow> i < STACK_SIZE s3 \<Longrightarrow> stack s3 i \<in> set ((?syms @ q3) @ q4)
      \<and> stack s4 i = fwd h n ((?syms @ q3) @ q4) (stack s3 i)"
    "\<And>i. \<not> (g_stack s3 \<le> i \<and> i < STACK_SIZE s3) \<Longrightarrow> stack s4 i = stack s3 i"
    using copy_stack_ok [OF src s3(2) stA _ order_refl] by blast
  let ?os = "(?syms @ q3) @ q4"
  have "gc_c realloc mem s = gc_loop n s4"
    using gc_c_steps [OF init s2(1) s3(1) s4(1)] by (simp add: n_def)
  moreover have "gc_roots s \<subseteq> set ?os"
  proof
    fix x assume "x \<in> gc_roots s"
    then consider "cell_nil \<le> x" "x < g_symbol_max s" | "x \<in> set (globals s)"
      | i where "x = stack s i" "g_stack s \<le> i" "i < STACK_SIZE s"
      by (auto simp: gc_roots_def globals_def)
    then show "x \<in> set ?os"
    proof cases
      case 1
      then have "x \<in> set ?syms" by simp
      then show ?thesis by (intro in_append)
    next
      case 2
      then have "x \<in> set (?syms @ q3)" by (rule subsetD [OF s3(3) [unfolded g2(1)]])
      then show ?thesis by (rule in_append)
    next
      case 3
      then show ?thesis using s4(5) [of i] st s3(5) g2(2) by simp
    qed
  qed
  moreover have "fwd h n ?os x = n + (x - cell_nil)" if x: "cell_nil \<le> x" "x < g_symbol_max s" for x
  proof -
    have le: "cell_nil + int (nat (g_symbol_max s - cell_nil)) = g_symbol_max s" using x by simp
    have "fwd h n ?syms x = n + (x - cell_nil)"
      using fwd_upto [of cell_nil "nat (g_symbol_max s - cell_nil)" h x n] sym(1) x le by simp
    moreover have "x \<in> set ?syms" using x by simp
    ultimately show ?thesis
      by (simp only: append_assoc fwd_append)
  qed
  moreover have "globals s4 = map (fwd h n ?os) (globals s)"
    using s4(4) s3(3,4) g2(1) fwd_append [of _ "?syms @ q3" h n q4] by (auto simp: map_eq_conv)
  moreover have "stack s4 i = (if g_stack s \<le> i \<and> i < STACK_SIZE s then fwd h n ?os (stack s i) else stack s i)" for i
    using s4(5,6) [of i] st s3(5) g2(2) by simp
  moreover have "same_core ?s1 s4"
    using same_core_trans [OF core3 s4(3)] .
  ultimately show ?thesis
    using s4(2) by blast
qed

lemma moved_same_heap: "heap t' = heap t \<Longrightarrow> bytes t' = bytes t \<Longrightarrow> moved h b g t' x = moved h b g t x"
  by (simp add: moved_def)

lemma gc_c_collects:
  assumes col: "collectable s"
  shows "\<exists>t g. gc_c realloc mem s = Some (Inr (), t) \<and> collected s g t \<and> gc_count t = gc_count s"
proof -
  have low: "g_cells s + 1 = cell_nil" "cell_nil \<le> g_free s" "0 \<le> g_stack s" "live s < 2 ^ 62"
    "cell_arena s < g_cells s" "heap s (cell_arena s) \<noteq> None"
    and mapped: "\<And>y. g_cells s \<le> y \<Longrightarrow> y < g_free s + 2 + live s \<Longrightarrow> heap s y \<noteq> None"
    and ok: "\<And>x. x \<in> reach s \<Longrightarrow> object_ok (heap s) (g_free s) (reach s) x"
    using col by (auto simp: collectable_def)
  note live0 = live_nonneg [OF col]
  obtain a c d where acd: "heap s (cell_arena s) = Some a" "heap s (g_free s) = Some c" "heap s (g_free s + 1) = Some d"
    using low mapped [of "g_free s"] mapped [of "g_free s + 1"] live0 by auto
  define h where "h = heap (news s a c d)"
  define n where "n = g_free s + 2"
  have src: "source h n n (reach s)"
    unfolding h_def n_def by (rule collectable_source [OF col])
  obtain os s4 where s4: "gc_c realloc mem s = gc_loop n s4" "phase h (bytes s) n (reach s) os s4"
    "gc_roots s \<subseteq> set os"
    "\<And>x. cell_nil \<le> x \<Longrightarrow> x < g_symbol_max s \<Longrightarrow> fwd h n os x = n + (x - cell_nil)"
    "globals s4 = map (fwd h n os) (globals s)" "same_core (news s a c d) s4"
    "\<And>i. stack s4 i = (if g_stack s \<le> i \<and> i < STACK_SIZE s then fwd h n os (stack s i) else stack s i)"
    using gc_roots_copied [OF col acd, of realloc mem] unfolding h_def n_def by blast
  have os: "distinct os" "set os \<subseteq> reach s" "copied h (bytes s) n n os n False s4"
    using s4(2) by (auto simp: phase_def)
  obtain qs t where t: "gc_loop n s4 = gc_flip t" "distinct (os @ qs)" "set (os @ qs) \<subseteq> reach s"
    "copied h (bytes s) n n (os @ qs) (g_free t) False t" "same_regs s4 t"
    using gc_loop_copied [OF src os at_slot_start [OF os(1) source_sizes_ok [OF src os(2)]]] by blast
  let ?os = "os @ qs"
  have free: "g_free t = n + extent h ?os" by (rule copiedD(1) [OF t(4)])
  have all: "set ?os = reach s"
    using reach_copied [OF col, of a c d n ?os "bytes s" t] src t(3,4) s4(3) free
    unfolding h_def by auto
  have heq: "h x = heap s x" if "x \<in> reach s" for x
    using ok [OF that] by (simp add: h_def object_ok_def)
  have ext: "extent h ?os = live s"
    unfolding extent_sum [OF t(2)] all live_def by (rule sum.cong) (simp_all add: heq)
  note rt = same_regs_core [OF t(5)]
  have core: "g_news t = n - 1" "g_cells t = g_cells s" "g_stack t = g_stack s" "STACK_SIZE t = STACK_SIZE s"
    using rt s4(6) by (simp_all add: same_core_def n_def)
  have zero: "h (n - 1) = Some (mk_cell TCHAR (ccar d) 110)" "n - 1 \<notin> reach s"
    using ok [of "n - 1"] by (auto simp: h_def n_def news_def object_ok_def)
  define k where "k = g_news t - g_cells t"
  have k: "k = n - 1 - g_cells s" by (simp add: k_def core)
  have "\<exists>t' u. gc_flip t = Some (Inr (), shifted k u) \<and> sliding h n ?os k t' (n + extent h ?os) u
     \<and> copied h (bytes s) n n ?os (n + extent h ?os) False t'
     \<and> same_core t u \<and> globals u = globals t \<and> stack u = stack t \<and> g_free u = g_free t"
    unfolding k_def
  proof (rule gc_flip_ok [OF src t(2,3,4) zero(1) _ zero(2)])
    show "h y \<noteq> None" if "g_cells t \<le> y" "y < g_cells t + 1 + extent h ?os" for y
      using mapped [of y] that low core ext by (auto simp: h_def news_def)
  qed (use ext low core in \<open>auto simp: n_def\<close>)
  then obtain t' u where u: "gc_flip t = Some (Inr (), shifted k u)" "sliding h n ?os k t' (n + extent h ?os) u"
    "copied h (bytes s) n n ?os (n + extent h ?os) False t'" "same_core t u" "globals u = globals t"
    "stack u = stack t" "g_free u = g_free t"
    by blast
  define g where "g = (\<lambda>y. fwd h n ?os y - k)"
  have sz: "sizes_ok h (set ?os)" by (rule source_sizes_ok [OF src t(3)])
  have keep: "fwd h n ?os x = fwd h n os x" if "x \<in> gc_roots s" for x
    using that s4(3) by (auto intro: fwd_append)
  have run: "gc_c realloc mem s = Some (Inr (), shifted k u)"
    using s4(1) t(1) u(1) by simp
  have "collected s g (shifted k u)"
    unfolding collected_def
  proof (intro conjI ballI allI impI)
    fix x assume x: "x \<in> reach s"
    have mv: "moved h (bytes s) g u x"
      using sliding_moved [OF src t(2,3) u(3,2)] x all unfolding g_def by blast
    have "moved (heap s) (bytes s) g u x"
    proof (rule moved_cong [OF ok [OF x] _ mv])
      show "h y = heap s y" if "y < g_free s" for y using that by (simp add: h_def)
      show "car_in (reach s) (slot_of (heap s) k x j) \<and> cdr_in (reach s) (slot_of (heap s) k x j)"
        if "0 \<le> j" "j < nslots (the (heap s x))" for j k
        using reach.car [OF x that] reach.cdr [OF x that] slot_of_base [of "heap s" k x j]
        unfolding car_in_def cdr_in_def by (metis)
    qed (use x in auto)
    then show "moved (heap s) (bytes s) g (shifted k u) x"
      by (rule moved_same_heap [THEN iffD2, rotated 2]) (simp_all add: shifted_def)
  next
    show "inj_on g (reach s)"
    proof (rule inj_onI)
      fix x y assume xy: "x \<in> reach s" "y \<in> reach s" "g x = g y"
      have "1 \<le> nslots (the (h z))" if "z \<in> reach s" for z
        using that sz nslots_le_osize unfolding all sizes_ok_def by blast
      then show "x = y"
        using fwd_slot_unique [of x ?os y h 0 0 n] sz xy unfolding all g_def by fastforce
    qed
  next
    fix x assume "cell_nil \<le> x \<and> x < g_symbol_max s"
    then show "g x = x"
      using s4(4) [of x] keep [of x] low(1) by (simp add: g_def k gc_roots_def)
  next
    have "globals (shifted k u) = map (\<lambda>y. y - k) (globals t)"
      using u(5) by (simp add: shifted_def globals_def)
    also have "\<dots> = map g (globals s)"
      using rt s4(5) keep roots_globals [of s] by (auto simp: g_def)
    finally show "globals (shifted k u) = map g (globals s)" .
  next
    fix i
    have "g_stack u = g_stack s" "STACK_SIZE u = STACK_SIZE s"
      using u(4) core by (simp_all add: same_core_def)
    then show "stack (shifted k u) i = (if g_stack s \<le> i \<and> i < STACK_SIZE s then g (stack s i) else stack s i)"
      using u(6) rt s4(7) [of i] keep [of "stack s i"] by (auto simp: shifted_def g_def gc_roots_def)
  next
    fix x assume x: "x \<in> reach s"
    show "g_cells s + 1 \<le> g x"
      using fwd_range(1) [of x ?os h n] sz x unfolding all g_def k by simp
    show "g x + osize (the (heap s x)) \<le> g_free (shifted k u)"
      using fwd_range(2) [of x ?os h n] sz x heq [OF x] u(7) free unfolding all g_def by (simp add: shifted_def)
  qed (use u(4,7) rt s4(6) free ext k in \<open>auto simp: shifted_def same_core_def\<close>)
  moreover have "gc_count (shifted k u) = gc_count s"
    using u(4) rt s4(6) by (simp add: shifted_def same_core_def)
  ultimately show ?thesis
    using run by blast
qed

section \<open>Frames\<close>

definition frame_pushed :: "mst \<Rightarrow> mst" where
  "frame_pushed s = s\<lparr>stack := (stack s)(g_stack s - 1 := cell_f, g_stack s - 2 := R0 s,
     g_stack s - 3 := R1 s, g_stack s - 4 := R2 s, g_stack s - 5 := R3 s), g_stack := g_stack s - 5\<rparr>"

definition stack_room :: "mst \<Rightarrow> bool" where
  "stack_room s \<longleftrightarrow> 5 \<le> g_stack s \<and> g_stack s \<le> STACK_SIZE s"

lemma gc_push_frame_ok:
  assumes "stack_room s"
  shows "gc_push_frame s = Some (Inr (), frame_pushed s)"
proof -
  have ok: "stack_ok t (g_stack s - i)" if "1 \<le> i" "i \<le> 5" "STACK_SIZE t = STACK_SIZE s" for i t
    using that assms by (simp add: stack_ok_def stack_room_def)
  show ?thesis
    using assms by (simp add: gc_push_frame_def GC_FRAME_SIZE_def frame_pushed_def stack_room_def ok)
qed

lemma gc_push_frame_full:
  assumes "g_stack s < 5"
  shows "gc_push_frame s = Some (Inl (Assert ''STACK FULL''), s)"
  using assms by (simp add: gc_push_frame_def GC_FRAME_SIZE_def)

lemma gc_pop_frame_ok:
  assumes "0 \<le> g_stack s" "g_stack s + 5 \<le> STACK_SIZE s"
  shows "gc_pop_frame s = Some (Inr (), s\<lparr>R3 := stack s (g_stack s), R2 := stack s (g_stack s + 1),
    R1 := stack s (g_stack s + 2), R0 := stack s (g_stack s + 3), g_stack := g_stack s + 5\<rparr>)"
proof -
  have ok: "stack_ok t (g_stack s + i)" if "0 \<le> i" "i < 5" "STACK_SIZE t = STACK_SIZE s" for i t
    using that assms by (simp add: stack_ok_def)
  have ok0: "stack_ok t (g_stack s)" if "STACK_SIZE t = STACK_SIZE s" for t
    using ok [of 0 t] that by simp
  show ?thesis
    using assms by (simp add: gc_pop_frame_def gc_peek_frame_def GC_FRAME_PROCEDURE_def GC_FRAME_SIZE_def ok ok0)
qed

text \<open>A frame that is pushed and popped gives the registers and the stack pointer back.\<close>

lemma push_pop_frame:
  assumes "stack_room s"
  shows "\<exists>t. mseq gc_push_frame gc_pop_frame s = Some (Inr (), t)
     \<and> R0 t = R0 s \<and> R1 t = R1 s \<and> R2 t = R2 s \<and> R3 t = R3 s \<and> g_stack t = g_stack s
     \<and> (\<forall>i \<ge> g_stack s. stack t i = stack s i) \<and> heap t = heap s"
proof -
  have "0 \<le> g_stack (frame_pushed s)" "g_stack (frame_pushed s) + 5 \<le> STACK_SIZE (frame_pushed s)"
    using assms by (simp_all add: frame_pushed_def stack_room_def)
  then show ?thesis
    using gc_push_frame_ok [OF assms] gc_pop_frame_ok [of "frame_pushed s"]
    by (simp add: frame_pushed_def)
qed

text \<open>A collection called from the evaluator: the registers are roots as well.\<close>

lemma gc_collects:
  assumes room: "stack_room s" and col: "collectable (frame_pushed s)"
  shows "\<exists>t g. gc realloc mem s = Some (Inr cell_unspecified, t)
    \<and> (\<forall>x \<in> reach (frame_pushed s). moved (heap s) (bytes s) g t x)
    \<and> inj_on g (reach (frame_pushed s))
    \<and> (\<forall>x. cell_nil \<le> x \<and> x < g_symbol_max s \<longrightarrow> g x = x)
    \<and> globals t = map g (globals s)
    \<and> R0 t = g (R0 s) \<and> R1 t = g (R1 s) \<and> R2 t = g (R2 s) \<and> R3 t = g (R3 s)
    \<and> g_stack t = g_stack s \<and> (\<forall>i. g_stack s \<le> i \<and> i < STACK_SIZE s \<longrightarrow> stack t i = g (stack s i))
    \<and> (\<forall>x \<in> reach (frame_pushed s). g_cells s + 1 \<le> g x \<and> g x + osize (the (heap s x)) \<le> g_free t)
    \<and> g_free t = g_cells s + 1 + live (frame_pushed s) \<and> gc_count t = gc_count s + 1"
proof -
  let ?p = "frame_pushed s"
  obtain t g where t: "gc_c realloc mem ?p = Some (Inr (), t)" "collected ?p g t" "gc_count t = gc_count ?p"
    using gc_c_collects [OF col] by blast
  have p: "heap ?p = heap s" "bytes ?p = bytes s" "g_stack ?p = g_stack s - 5" "STACK_SIZE ?p = STACK_SIZE s"
    "g_symbol_max ?p = g_symbol_max s" "globals ?p = globals s" "g_cells ?p = g_cells s" "gc_count ?p = gc_count s"
    by (simp_all add: frame_pushed_def globals_def)
  have st: "stack t i = g (stack ?p i)" if "g_stack s - 5 \<le> i" "i < STACK_SIZE s" for i
    using t(2) that p by (simp add: collected_def)
  have c: "g_stack t = g_stack s - 5" "STACK_SIZE t = STACK_SIZE s"
    using t(2) p by (simp_all add: collected_def)
  let ?u = "t\<lparr>R3 := stack t (g_stack t), R2 := stack t (g_stack t + 1),
    R1 := stack t (g_stack t + 2), R0 := stack t (g_stack t + 3), g_stack := g_stack t + 5\<rparr>"
  have "gc_pop_frame t = Some (Inr (), ?u)"
    by (rule gc_pop_frame_ok) (use c room in \<open>auto simp: stack_room_def\<close>)
  then have run: "gc realloc mem s = Some (Inr cell_unspecified, ?u\<lparr>gc_count := gc_count s + 1\<rparr>)"
    using gc_push_frame_ok [OF room] t(1,3) p(8) by (simp add: gc_def)
  let ?v = "?u\<lparr>gc_count := gc_count s + 1\<rparr>"
  have mv: "moved (heap s) (bytes s) g ?v x \<longleftrightarrow> moved (heap s) (bytes s) g t x" for x
    by (simp add: moved_def)
  have gl: "globals ?v = globals t" by (simp add: globals_def)
  have regs: "stack t (g_stack t) = g (R3 s)" "stack t (g_stack t + 1) = g (R2 s)"
    "stack t (g_stack t + 2) = g (R1 s)" "stack t (g_stack t + 3) = g (R0 s)"
    using st [of "g_stack t"] st [of "g_stack t + 1"] st [of "g_stack t + 2"] st [of "g_stack t + 3"] c room
    by (simp_all add: frame_pushed_def stack_room_def)
  have above: "stack ?p i = stack s i" if "g_stack s \<le> i" for i
    using that by (simp add: frame_pushed_def)
  show ?thesis
  proof (intro exI [of _ ?v] exI [of _ g] conjI)
    show "\<forall>x \<in> reach ?p. moved (heap s) (bytes s) g ?v x"
      unfolding mv using t(2) p(1,2) by (simp add: collected_def)
    show "globals ?v = map g (globals s)"
      unfolding gl using t(2) p(6) by (simp add: collected_def)
    show "\<forall>i. g_stack s \<le> i \<and> i < STACK_SIZE s \<longrightarrow> stack ?v i = g (stack s i)"
      using st above by simp
  next
    have "\<forall>x \<in> reach ?p. g_cells s + 1 \<le> g x \<and> g x + osize (the (heap s x)) \<le> g_free t"
      using t(2) unfolding collected_def p by blast
    then show "\<forall>x \<in> reach ?p. g_cells s + 1 \<le> g x \<and> g x + osize (the (heap s x)) \<le> g_free ?v"
      by simp
  qed (use run t(2) p c regs in \<open>simp_all add: collected_def\<close>)
qed

section \<open>Data survive a collection\<close>

primrec map_atoms :: "(addr \<Rightarrow> addr) \<Rightarrow> datum \<Rightarrow> datum" where
  "map_atoms g (DNum n) = DNum n"
| "map_atoms g (DChar n) = DChar n"
| "map_atoms g (DStr bs) = DStr bs"
| "map_atoms g (DKey bs) = DKey bs"
| "map_atoms g (DAtom a) = DAtom (g a)"
| "map_atoms g (DPair d e) = DPair (map_atoms g d) (map_atoms g e)"
| "map_atoms g (DVec ds) = DVec (map (map_atoms g) ds)"

text \<open>\<open>kept A s g t\<close>: the objects \<open>A\<close> of \<open>s\<close> are in \<open>t\<close>, moved by \<open>g\<close>.\<close>

definition kept :: "addr set \<Rightarrow> mst \<Rightarrow> (addr \<Rightarrow> addr) \<Rightarrow> mst \<Rightarrow> bool" where
  "kept A s g t \<longleftrightarrow> (\<forall>x \<in> A. object_ok (heap s) (g_free s) A x \<and> moved (heap s) (bytes s) g t x
       \<and> g x + osize (the (heap s x)) \<le> g_free t
       \<and> (\<forall>j. 0 \<le> j \<and> j < nslots (the (heap s x)) \<longrightarrow>
            car_in A (slot_of (heap s) 0 x j) \<and> cdr_in A (slot_of (heap s) 0 x j)))"

lemma kept_header:
  assumes "kept A s g t" "x \<in> A" "heap s x = Some c"
  shows "g x < g_free t" "\<exists>c'. heap t (g x) = Some c' \<and> ctype c' = ctype c"
    and "\<not> is_vec (ctype c) \<Longrightarrow> ctype c \<noteq> TBYTES \<Longrightarrow> heap t (g x) = Some (relocate g c) \<and> car_in A c \<and> cdr_in A c"
proof -
  have ok: "object_ok (heap s) (g_free s) A x" and mv: "moved (heap s) (bytes s) g t x"
    and sz: "g x + osize c \<le> g_free t"
    and cl: "\<And>j. 0 \<le> j \<Longrightarrow> j < nslots c \<Longrightarrow> car_in A (slot_of (heap s) 0 x j) \<and> cdr_in A (slot_of (heap s) 0 x j)"
    using assms by (auto simp: kept_def)
  have so: "size_ok c" using ok assms(3) by (auto simp: object_ok_def)
  then show "g x < g_free t" using sz osize_pos [of c] by simp
  have ns: "0 < nslots c" using nslots_le_osize [OF so] by simp
  show "\<exists>c'. heap t (g x) = Some c' \<and> ctype c' = ctype c"
  proof (cases "ctype c = TBYTES")
    case False
    then have "heap t (g x + 0) = Some (relocate g (slot_of (heap s) (g x) x 0))"
      using mv ns assms(3) unfolding moved_def by (auto split: if_splits)
    then show ?thesis using assms(3) by (simp add: slot_of_def)
  qed (use mv assms(3) in \<open>auto simp: moved_def\<close>)
  assume v: "\<not> is_vec (ctype c)" "ctype c \<noteq> TBYTES"
  then have "heap t (g x + 0) = Some (relocate g (slot_of (heap s) (g x) x 0))"
    using mv ns assms(3) unfolding moved_def by (auto split: if_splits)
  then show "heap t (g x) = Some (relocate g c) \<and> car_in A c \<and> cdr_in A c"
    using assms(3) v cl [of 0] ns by (simp add: slot_of_def)
qed

lemma kept_text:
  assumes "kept A s g t" "text_at s k bs p" "p \<in> A" "k = TSTRING \<or> k = TKEYWORD"
  shows "text_at t k bs (g p)"
proof -
  obtain c b where c: "heap s p = Some c" "ctype c = k" "ccar c = int (length bs)"
    "heap s (ccdr c) = Some b" "ctype b = TBYTES" "int (length bs) < ccar b" "bytes s (ccdr c) = bs @ [0]"
    using assms(2) by (auto simp: text_at_def)
  have nv: "\<not> is_vec (ctype c)" "ctype c \<noteq> TBYTES" "\<not> pointer_car (ctype c)" "scanned_cdr (ctype c)"
    using assms(4) c(2) by (auto simp: is_vec_def pointer_car_def scanned_cdr_def)
  note hp = kept_header [OF assms(1,3) c(1)]
  have b: "ccdr c \<in> A" using hp(3) nv by (simp add: cdr_in_def)
  have "moved (heap s) (bytes s) g t (ccdr c)" using assms(1) b by (simp add: kept_def)
  then obtain e where e: "heap t (g (ccdr c)) = Some (mk_cell TBYTES (ccar b) e)"
    "bytes t (g (ccdr c)) = take (nat (ccar b)) (bs @ [0])"
    using c(4,5,7) by (auto simp: moved_def)
  have "take (nat (ccar b)) (bs @ [0]) = bs @ [0]"
    using c(6) by (intro take_all) simp
  moreover have "heap t (g p) = Some (mk_cell k (int (length bs)) (g (ccdr c)))"
    using hp(3) nv c(2,3) by (cases c) (simp add: relocate_def relocate_car_def relocate_cdr_def mk_cell_def)
  ultimately show ?thesis
    using hp(1) kept_header(1) [OF assms(1) b c(4)] e c(6) by (simp add: text_at_def)
qed

lemma kept_repr:
  assumes k: "kept A s g t"
  shows "repr s d p \<Longrightarrow> p \<in> A \<Longrightarrow> repr t (map_atoms g d) (g p)"
proof (induction d arbitrary: p)
  case (DNum n)
  then obtain c where c: "heap s p = Some c" "ctype c = TNUMBER" "ccdr c = n" by auto
  then show ?case
    using kept_header [OF k DNum(2) c(1)]
    by (simp add: is_vec_def relocate_def relocate_car_def relocate_cdr_def pointer_car_def scanned_cdr_def)
next
  case (DChar n)
  then obtain c where c: "heap s p = Some c" "ctype c = TCHAR" "ccdr c = n" by auto
  then show ?case
    using kept_header [OF k DChar(2) c(1)]
    by (simp add: is_vec_def relocate_def relocate_car_def relocate_cdr_def pointer_car_def scanned_cdr_def)
next
  case (DStr bs)
  then show ?case using kept_text [OF k] by simp
next
  case (DKey bs)
  then show ?case using kept_text [OF k] by simp
next
  case (DAtom a)
  then obtain c where c: "heap s p = Some c" "by_identity (ctype c)" "p = a" by auto
  then show ?case
    using kept_header(1,2) [OF k DAtom(2) c(1)] by auto
next
  case (DPair d e)
  then obtain c where c: "heap s p = Some c" "ctype c = TPAIR" "repr s d (ccar c)" "repr s e (ccdr c)"
    by auto
  note hp = kept_header [OF k DPair(4) c(1)]
  have A: "ccar c \<in> A" "ccdr c \<in> A"
    using hp(3) c(2) by (simp_all add: is_vec_def car_in_def cdr_in_def pointer_car_def scanned_cdr_def)
  have "heap t (g p) = Some (mk_cell TPAIR (g (ccar c)) (g (ccdr c)))"
    using hp(3) c(2) by (cases c) (simp add: is_vec_def relocate_def relocate_car_def relocate_cdr_def
        pointer_car_def scanned_cdr_def mk_cell_def)
  then show ?case
    using hp(1) DPair(1) [OF c(3) A(1)] DPair(2) [OF c(4) A(2)] by simp
next
  case (DVec ds)
  then obtain c where c: "heap s p = Some c" "ctype c = TVECTOR" "ccar c = int (length ds)" "reprs s ds (ccdr c)"
    by auto
  have ok: "object_ok (heap s) (g_free s) A p" and mv: "moved (heap s) (bytes s) g t p"
    and sz: "g p + osize c \<le> g_free t"
    and cl: "\<And>j. 0 \<le> j \<Longrightarrow> j < nslots c \<Longrightarrow> car_in A (slot_of (heap s) 0 p j)"
    using k DVec(3) c(1) by (auto simp: kept_def)
  have ns: "nslots c = 1 + int (length ds)" "osize c = 1 + int (length ds)"
    using c(2,3) by (simp_all add: nslots_def osize_def is_vec_def)
  have cell: "heap t (g p + j) = Some (relocate g (slot_of (heap s) (g p) p j))"
    if "0 \<le> j" "j < nslots c" for j
    using mv that c(1,2) by (simp add: moved_def)
  have head: "heap t (g p) = Some (mk_cell TVECTOR (int (length ds)) (g p + 1))"
    using cell [of 0] ns c by (cases c) (simp add: slot_of_def shape_def is_vec_def relocate_def
        relocate_car_def relocate_cdr_def pointer_car_def scanned_cdr_def mk_cell_def)
  have elem: "lookup t (g p + 1 + int i) \<noteq> None \<and> repr t (map_atoms g (ds ! i)) (element_of t (g p + 1 + int i))"
    if i: "i < length ds" for i
  proof -
    have r: "repr s (ds ! i) (element_of s (ccdr c + int i))"
      using c(4) i by (simp add: reprs_nth)
    obtain e where e: "heap s (ccdr c + int i) = Some e" "plain (ctype e)"
    proof -
      have "\<forall>j. 0 \<le> j \<and> j < ccar c \<longrightarrow> (\<exists>d. heap s (ccdr c + j) = Some d \<and> plain (ctype d))"
        using ok c(1,2) by (auto simp: object_ok_def is_vec_def)
      then have "\<exists>d. heap s (ccdr c + int i) = Some d \<and> plain (ctype d)"
        using c(3) i by simp
      then show ?thesis using that by blast
    qed
    have slot: "slot_of (heap s) k p (1 + int i) = e" for k
      using e(1) c(1) by (simp add: slot_of_def)
    have te: "heap t (g p + 1 + int i) = Some (relocate g e)"
      using cell [of "1 + int i"] ns i slot by (simp add: algebra_simps)
    have lk: "lookup t (g p + 1 + int i) = Some (relocate g e)"
      using te sz ns i by simp
    show ?thesis
    proof (cases "ctype e = TREF")
      case True
      have "ccar e \<in> A"
        using cl [of "1 + int i"] ns i slot [of 0] True by (simp add: car_in_def pointer_car_def)
      then have "repr t (map_atoms g (ds ! i)) (g (ccar e))"
        using DVec(1) [of "ds ! i" "ccar e"] r e(1) True i by (simp add: element_of_def)
      moreover have "element_of t (g p + 1 + int i) = g (ccar e)"
        using te True by (simp add: element_of_def relocate_def relocate_car_def relocate_cdr_def
            pointer_car_def scanned_cdr_def)
      ultimately show ?thesis using lk by simp
    next
      case False
      then have imm: "ctype e = TCHAR \<or> ctype e = TNUMBER" using e(2) by (simp add: plain_def)
      then have re: "relocate g e = e"
        by (auto simp: relocate_def relocate_car_def relocate_cdr_def pointer_car_def scanned_cdr_def)
      have "element_of t (g p + 1 + int i) = g p + 1 + int i" "element_of s (ccdr c + int i) = ccdr c + int i"
        using te e(1) False re by (simp_all add: element_of_def)
      then show ?thesis
        using r lk re e(1) imm by (cases "ds ! i") (auto simp: text_at_def by_identity_def)
    qed
  qed
  show ?case
    using head kept_header(1) [OF k DVec(3) c(1)] elem by (simp add: reprs_nth)
qed

lemma repr_state_cong:
  assumes "heap t = heap s" "bytes t = bytes s" "g_free t = g_free s"
  shows "repr t d p = repr s d p"
proof -
  have l: "lookup t = lookup s" using assms by (simp add: lookup_def fun_eq_iff)
  have e: "element_of t = element_of s" using assms by (simp add: element_of_def fun_eq_iff)
  show ?thesis
  proof (induction d arbitrary: p)
    case (DVec ds)
    have "reprs t ds q = reprs s ds q" for q
      using DVec by (simp add: reprs_nth l e del: lookup_Some)
    then show ?case by (simp add: l del: lookup_Some)
  qed (simp_all add: l text_at_def assms del: lookup_Some)
qed

text \<open>A datum in \<^verbatim>\<open>R1\<close> is the same datum after \<^verbatim>\<open>gc\<close>, its symbols at their addresses.\<close>

lemma gc_keeps_data:
  assumes room: "stack_room s" and col: "collectable (frame_pushed s)" and d: "repr s d (R1 s)"
  shows "\<exists>t g. gc realloc mem s = Some (Inr cell_unspecified, t) \<and> repr t (map_atoms g d) (R1 t)
    \<and> (\<forall>x. cell_nil \<le> x \<and> x < g_symbol_max s \<longrightarrow> g x = x)"
proof -
  let ?p = "frame_pushed s"
  obtain t g where t: "gc realloc mem s = Some (Inr cell_unspecified, t)"
    "\<forall>x \<in> reach ?p. moved (heap s) (bytes s) g t x"
    "\<forall>x. cell_nil \<le> x \<and> x < g_symbol_max s \<longrightarrow> g x = x" "R1 t = g (R1 s)"
    "\<forall>x \<in> reach ?p. g x + osize (the (heap s x)) \<le> g_free t"
    using gc_collects [OF room col] by blast
  have p: "heap ?p = heap s" "bytes ?p = bytes s" "g_free ?p = g_free s"
    by (simp_all add: frame_pushed_def)
  have "R1 s \<in> gc_roots ?p"
    using room by (auto simp: gc_roots_def frame_pushed_def stack_room_def intro!: image_eqI [of _ _ "g_stack s - 3"])
  then have r: "R1 s \<in> reach ?p" by (rule reach.root)
  have "kept (reach ?p) ?p g t"
    unfolding kept_def
  proof (intro ballI conjI allI impI)
    fix x assume x: "x \<in> reach ?p"
    then show "object_ok (heap ?p) (g_free ?p) (reach ?p) x" "moved (heap ?p) (bytes ?p) g t x"
      "g x + osize (the (heap ?p x)) \<le> g_free t"
      using col t(2,5) p by (auto simp: collectable_def)
    fix j assume "0 \<le> j \<and> j < nslots (the (heap ?p x))"
    then show "car_in (reach ?p) (slot_of (heap ?p) 0 x j)" "cdr_in (reach ?p) (slot_of (heap ?p) 0 x j)"
      using reach.car [OF x, of j] reach.cdr [OF x, of j] by (auto simp: car_in_def cdr_in_def)
  qed
  moreover have "repr ?p d (R1 s)"
    using d repr_state_cong [OF p] by simp
  ultimately show ?thesis
    using kept_repr [of "reach ?p" ?p g t d "R1 s"] t r by auto
qed

end
