(* ===== verification/Mes_Machine.thy ===== *)
theory Mes_Machine
  imports Mes_Eval Mes_Collect
begin

text \<open>
  How the evaluator of eval-apply.c runs: the steps between labels as a relation, and
  \<^verbatim>\<open>eval_apply\<close> as the runs of that relation; the discipline of the stack (what
  \<^verbatim>\<open>push_cc\<close> saves comes back at \<^verbatim>\<open>vm_return\<close>); and, on top of it, rules that compose
  the evaluation of a form from the evaluation of its parts.
\<close>

section \<open>Runs\<close>

inductive eval_steps :: "world \<Rightarrow> label \<Rightarrow> mst \<Rightarrow> label \<Rightarrow> mst \<Rightarrow> bool" for W where
  stay: "eval_steps W l s l s"
| go: "eval_step W l s = Some (Inr (Goto l'), t) \<Longrightarrow> eval_steps W l' t l'' u \<Longrightarrow> eval_steps W l s l'' u"

inductive_cases eval_stepsE: "eval_steps W l s l' t"

lemma eval_steps_trans [trans]:
  "eval_steps W l s l' t \<Longrightarrow> eval_steps W l' t l'' u \<Longrightarrow> eval_steps W l s l'' u"
  by (induction rule: eval_steps.induct) (auto intro: eval_steps.intros)

lemma eval_steps_one: "eval_step W l s = Some (Inr (Goto l'), t) \<Longrightarrow> eval_steps W l s l' t"
  by (auto intro: eval_steps.intros)

text \<open>The run from a label, one step unfolded.\<close>

lemma run_from_step:
  "run_from W l s = (case eval_step W l s of
      None \<Rightarrow> None
    | Some (Inl e, t) \<Rightarrow> Some (Inl e, t)
    | Some (Inr (Goto l'), t) \<Rightarrow> run_from W l' t
    | Some (Inr (Return v), t) \<Rightarrow> Some (Inr v, t))"
  by (subst run_from.simps)
    (auto simp: mbind_def split: option.splits sum.splits next_step.splits)

lemma eval_steps_run: "eval_steps W l s l' t \<Longrightarrow> run_from W l s = run_from W l' t"
  by (induction rule: eval_steps.induct) (auto simp: run_from_step [of W l s for l s])

text \<open>A result of the run is reached by steps, be it a value or a fault.\<close>

definition run_ends :: "world \<Rightarrow> label \<Rightarrow> mst \<Rightarrow> (fault + addr) \<times> mst \<Rightarrow> bool" where
  "run_ends W l s rt \<longleftrightarrow> (\<exists>l' u. eval_steps W l s l' u \<and> (case rt of
       (Inr v, t) \<Rightarrow> eval_step W l' u = Some (Inr (Return v), t)
     | (Inl e, t) \<Rightarrow> eval_step W l' u = Some (Inl e, t)))"

lemma run_from_reaches:
  assumes "run_from W l s = Some rt"
  shows "run_ends W l s rt"
proof (rule run_from.raw_induct [of run_ends W l s rt])
  fix rec W l s rt
  assume IH: "\<And>W l s rt. rec W l s = Some rt \<Longrightarrow> run_ends W l s rt"
    and eq: "mbind (eval_step W l) (\<lambda>r s'. case r of Goto l' \<Rightarrow> rec W l' s' | Return v \<Rightarrow> ret v s') s = Some rt"
  consider (inl) e t where "eval_step W l s = Some (Inl e, t)" "rt = (Inl e, t)"
    | (ret) v t where "eval_step W l s = Some (Inr (Return v), t)" "rt = (Inr v, t)"
    | (goto) l' u where "eval_step W l s = Some (Inr (Goto l'), u)" "rec W l' u = Some rt"
    using eq
    by (cases "eval_step W l s")
      (auto simp: mbind_def split: sum.splits next_step.splits prod.splits)
  then show "run_ends W l s rt"
  proof cases
    case inl
    then show ?thesis unfolding run_ends_def by (auto intro: stay)
  next
    case ret
    then show ?thesis unfolding run_ends_def by (auto intro: stay)
  next
    case goto
    then show ?thesis
      using IH [OF goto(2)] unfolding run_ends_def by (blast intro: go)
  qed
qed (rule assms)

lemma run_from_value:
  "run_from W l s = Some (Inr v, t) \<longleftrightarrow>
   (\<exists>l' u. eval_steps W l s l' u \<and> eval_step W l' u = Some (Inr (Return v), t))"
  using run_from_reaches [of W l s "(Inr v, t)"] unfolding run_ends_def
  by (auto dest: eval_steps_run simp: run_from_step)

lemma run_from_fault:
  "run_from W l s = Some (Inl e, t) \<longleftrightarrow>
   (\<exists>l' u. eval_steps W l s l' u \<and> eval_step W l' u = Some (Inl e, t))"
  using run_from_reaches [of W l s "(Inl e, t)"] unfolding run_ends_def
  by (auto dest: eval_steps_run simp: run_from_step)

section \<open>Frames\<close>

text \<open>The state after \<^verbatim>\<open>push_cc (p1, p2, a, c)\<close>.\<close>

definition cc_pushed :: "addr \<Rightarrow> addr \<Rightarrow> addr \<Rightarrow> addr \<Rightarrow> mst \<Rightarrow> mst" where
  "cc_pushed p1 p2 a c s = (frame_pushed (s\<lparr>R3 := c, R2 := p2\<rparr>))\<lparr>R1 := p1, R0 := a, R3 := R3 s\<rparr>"

lemma push_cc_ok [simp]:
  assumes "stack_room s"
  shows "push_cc p1 p2 a c s = Some (Inr cell_unspecified, cc_pushed p1 p2 a c s)"
proof -
  have "stack_room (s\<lparr>R3 := c, R2 := p2\<rparr>)"
    using assms by (simp add: stack_room_def)
  then show ?thesis
    by (simp add: push_cc_def gc_push_frame_ok cc_pushed_def)
qed

lemma push_cc_full:
  "g_stack s < 5 \<Longrightarrow> push_cc p1 p2 a c s = Some (Inl (Assert ''STACK FULL''), s\<lparr>R3 := c, R2 := p2\<rparr>)"
  using gc_push_frame_full [of "s\<lparr>R3 := c, R2 := p2\<rparr>"] by (simp add: push_cc_def)

lemma cc_pushed_simps [simp]:
  "heap (cc_pushed p1 p2 a c s) = heap s" "bytes (cc_pushed p1 p2 a c s) = bytes s"
  "g_free (cc_pushed p1 p2 a c s) = g_free s" "g_cells (cc_pushed p1 p2 a c s) = g_cells s"
  "ARENA_SIZE (cc_pushed p1 p2 a c s) = ARENA_SIZE s" "STACK_SIZE (cc_pushed p1 p2 a c s) = STACK_SIZE s"
  "GC_SAFETY (cc_pushed p1 p2 a c s) = GC_SAFETY s"
  "g_stack (cc_pushed p1 p2 a c s) = g_stack s - 5"
  "R0 (cc_pushed p1 p2 a c s) = a" "R1 (cc_pushed p1 p2 a c s) = p1"
  "R2 (cc_pushed p1 p2 a c s) = p2" "R3 (cc_pushed p1 p2 a c s) = R3 s"
  "M0 (cc_pushed p1 p2 a c s) = M0 s" "M1 (cc_pushed p1 p2 a c s) = M1 s"
  by (simp_all add: cc_pushed_def frame_pushed_def)

lemma cc_pushed_stack:
  "stack (cc_pushed p1 p2 a c s) i = (if i = g_stack s - 1 then cell_f else if i = g_stack s - 2 then R0 s
     else if i = g_stack s - 3 then R1 s else if i = g_stack s - 4 then p2
     else if i = g_stack s - 5 then c else stack s i)"
  by (simp add: cc_pushed_def frame_pushed_def)

text \<open>
  \<open>below s t\<close>: the frames that \<open>s\<close> has on the stack are there in \<open>t\<close>, and they are all of it.
  The entry for the procedure in the top frame is overwritten at each \<^verbatim>\<open>apply\<close> and is not
  counted.
\<close>

definition below :: "mst \<Rightarrow> mst \<Rightarrow> bool" where
  "below s t \<longleftrightarrow> g_stack t = g_stack s \<and> STACK_SIZE t = STACK_SIZE s
     \<and> (\<forall>i \<ge> g_stack s. i \<noteq> g_stack s + 4 \<longrightarrow> stack t i = stack s i)"

lemma below_refl [simp]: "below s s"
  by (simp add: below_def)

lemma below_trans [trans]: "below s t \<Longrightarrow> below t u \<Longrightarrow> below s u"
  by (simp add: below_def)

text \<open>
  \<open>gives W l s v t\<close>: started at label \<open>l\<close> in \<open>s\<close>, the machine comes to \<^verbatim>\<open>vm_return\<close> with the
  value \<open>v\<close> in \<^verbatim>\<open>R1\<close> and the stack as it was.
\<close>

definition gives :: "world \<Rightarrow> label \<Rightarrow> mst \<Rightarrow> addr \<Rightarrow> mst \<Rightarrow> bool" where
  "gives W l s v t \<longleftrightarrow> eval_steps W l s Vm_return t \<and> R1 t = v \<and> below s t"

lemma gives_Vm_return: "gives W Vm_return s (R1 s) s"
  by (simp add: gives_def stay)

lemma gives_go:
  assumes "eval_step W l s = Some (Inr (Goto l'), t)" "below s t" "gives W l' t v u"
  shows "gives W l s v u"
  using assms below_trans unfolding gives_def by (blast intro: go)

text \<open>The registers and the stack when the value \<open>v\<close> has been returned to the frame of \<open>push_cc p1 p2 a c s\<close>.\<close>

definition resumed :: "mst \<Rightarrow> addr \<Rightarrow> addr \<Rightarrow> addr \<Rightarrow> mst \<Rightarrow> mst" where
  "resumed s p2 c v t = t\<lparr>R3 := c, R2 := p2, R1 := v, R0 := R0 s, g_stack := g_stack s\<rparr>"

lemma resumed_simps [simp]:
  "heap (resumed s p2 c v t) = heap t" "bytes (resumed s p2 c v t) = bytes t"
  "g_free (resumed s p2 c v t) = g_free t" "g_cells (resumed s p2 c v t) = g_cells t"
  "ARENA_SIZE (resumed s p2 c v t) = ARENA_SIZE t" "STACK_SIZE (resumed s p2 c v t) = STACK_SIZE t"
  "stack (resumed s p2 c v t) = stack t" "GC_SAFETY (resumed s p2 c v t) = GC_SAFETY t" "g_stack (resumed s p2 c v t) = g_stack s"
  "R0 (resumed s p2 c v t) = R0 s" "R1 (resumed s p2 c v t) = v"
  "R2 (resumed s p2 c v t) = p2" "R3 (resumed s p2 c v t) = c"
  "M0 (resumed s p2 c v t) = M0 t" "M1 (resumed s p2 c v t) = M1 t"
  by (simp_all add: resumed_def)

lemma resumed_R1 [simp]: "(resumed s p2 c v t)\<lparr>R1 := x\<rparr> = resumed s p2 c x t"
  by (cases t) (simp add: resumed_def)

text \<open>
  \<^verbatim>\<open>vm_return\<close> pops the frame that \<^verbatim>\<open>push_cc\<close> has pushed, whatever has happened above it, if
  the four registers that are saved in it are still there.
\<close>

lemma vm_return_pops:
  assumes "stack_room s" "g_stack t = g_stack s - 5" "STACK_SIZE t = STACK_SIZE s"
    and frame: "\<And>i. g_stack s - 5 \<le> i \<Longrightarrow> i < g_stack s - 1 \<Longrightarrow> stack t i = stack (cc_pushed p1 p2 a c s) i"
  shows "eval_step W Vm_return t = Some (Inr (Goto Dispatch), resumed s p2 c (R1 t) t)"
proof -
  have "stack t (g_stack s - 5) = c" "stack t (g_stack s - 4) = p2" "stack t (g_stack s - 2) = R0 s"
    using frame [of "g_stack s - 5"] frame [of "g_stack s - 4"] frame [of "g_stack s - 2"]
    by (simp_all add: cc_pushed_stack)
  moreover have "0 \<le> g_stack t" "g_stack t + 5 \<le> STACK_SIZE t"
    using assms(1-3) by (simp_all add: stack_room_def)
  ultimately show ?thesis
    using gc_pop_frame_ok [of t] assms(2)
    by (simp add: step_vm_return_def resumed_def algebra_simps)
qed

lemma dispatch_continues:
  "map_of continuations c = Some k \<Longrightarrow> eval_step W Dispatch (resumed s p2 c v t) = Some (Inr (Goto k), resumed s p2 c v t)"
  by (simp add: dispatch_def)

lemma frame_popped:
  assumes "stack_room s" "gives W l (cc_pushed p1 p2 a c s) v t"
  shows "eval_steps W l (cc_pushed p1 p2 a c s) Dispatch (resumed s p2 c v t)" "below s (resumed s p2 c v t)"
proof -
  have t: "eval_steps W l (cc_pushed p1 p2 a c s) Vm_return t" "R1 t = v"
    "g_stack t = g_stack s - 5" "STACK_SIZE t = STACK_SIZE s"
    and frame: "\<And>i. i \<ge> g_stack s - 5 \<Longrightarrow> i \<noteq> g_stack s - 1 \<Longrightarrow> stack t i = stack (cc_pushed p1 p2 a c s) i"
    using assms(2) by (auto simp: gives_def below_def)
  have "eval_step W Vm_return t = Some (Inr (Goto Dispatch), resumed s p2 c v t)"
    using vm_return_pops [OF assms(1) t(3,4)] frame t(2) by simp
  with t(1) show "eval_steps W l (cc_pushed p1 p2 a c s) Dispatch (resumed s p2 c v t)"
    using eval_steps_trans eval_steps_one by blast
  show "below s (resumed s p2 c v t)"
    unfolding below_def using t(4) frame by (auto simp: cc_pushed_stack)
qed

text \<open>What \<^verbatim>\<open>push_cc\<close> itself leaves, and the way back from any state with that frame on top.\<close>

lemma push_cc_returns:
  assumes "stack_room s" "map_of continuations c = Some k"
  shows "\<exists>u. push_cc p1 p2 a c s = Some (Inr cell_unspecified, u)
     \<and> R0 u = a \<and> R1 u = p1 \<and> R2 u = p2 \<and> R3 u = R3 s \<and> heap u = heap s \<and> (\<forall>i \<ge> g_stack s. stack u i = stack s i)
     \<and> (\<forall>t :: mst. g_stack t = g_stack u \<and> STACK_SIZE t = STACK_SIZE u
             \<and> (\<forall>i. g_stack u \<le> i \<and> i < g_stack s - 1 \<longrightarrow> stack t i = stack u i)
          \<longrightarrow> eval_steps W Vm_return t k (t\<lparr>R0 := R0 s, R2 := p2, R3 := c, g_stack := g_stack s\<rparr>))"
proof (intro exI [of _ "cc_pushed p1 p2 a c s"] conjI allI impI; (elim conjE)?)
  fix t :: mst assume t: "g_stack t = g_stack (cc_pushed p1 p2 a c s)" "STACK_SIZE t = STACK_SIZE (cc_pushed p1 p2 a c s)"
    "\<forall>i. g_stack (cc_pushed p1 p2 a c s) \<le> i \<and> i < g_stack s - 1 \<longrightarrow> stack t i = stack (cc_pushed p1 p2 a c s) i"
  have "eval_step W Vm_return t = Some (Inr (Goto Dispatch), resumed s p2 c (R1 t) t)"
    by (rule vm_return_pops [OF assms(1)]) (use t in auto)
  then have "eval_steps W Vm_return t k (resumed s p2 c (R1 t) t)"
    using dispatch_continues [OF assms(2)] by (blast intro: go stay)
  moreover have "resumed s p2 c (R1 t) t = t\<lparr>R0 := R0 s, R2 := p2, R3 := c, g_stack := g_stack s\<rparr>"
    by (simp add: resumed_def)
  ultimately show "eval_steps W Vm_return t k (t\<lparr>R0 := R0 s, R2 := p2, R3 := c, g_stack := g_stack s\<rparr>)"
    by simp
qed (use assms(1) in \<open>simp_all add: cc_pushed_stack\<close>)

text \<open>
  What \<^verbatim>\<open>push_cc\<close> has saved comes back: when the evaluation above the frame has given \<open>v\<close>,
  the machine goes on at the continuation \<open>c\<close>, with the saved \<^verbatim>\<open>R0\<close> and \<^verbatim>\<open>R2\<close>.
\<close>

lemma returns_to_frame:
  assumes "stack_room s" "gives W l (cc_pushed p1 p2 a c s) v t" "map_of continuations c = Some k"
  shows "eval_steps W l (cc_pushed p1 p2 a c s) k (resumed s p2 c v t)" "below s (resumed s p2 c v t)"
proof -
  have "eval_step W Dispatch (resumed s p2 c v t) = Some (Inr (Goto k), resumed s p2 c v t)"
    by (rule dispatch_continues [OF assms(3)])
  then show "eval_steps W l (cc_pushed p1 p2 a c s) k (resumed s p2 c v t)"
    using eval_steps_trans [OF frame_popped(1) [OF assms(1,2)]] eval_steps_one by blast
qed (rule frame_popped(2) [OF assms(1,2)])

text \<open>Under the continuation \<^verbatim>\<open>cell_unspecified\<close> the run ends with the value.\<close>

lemma returns_value:
  assumes "stack_room s" "gives W l (cc_pushed p1 p2 a cell_unspecified s) v t"
  shows "run_from W l (cc_pushed p1 p2 a cell_unspecified s) = Some (Inr v, resumed s p2 cell_unspecified v t)"
    "below s (resumed s p2 cell_unspecified v t)"
proof -
  let ?r = "resumed s p2 cell_unspecified v t"
  have "eval_step W Dispatch ?r = Some (Inr (Return v), ?r)"
    by (simp add: dispatch_def continuations_def cells)
  then show "run_from W l (cc_pushed p1 p2 a cell_unspecified s) = Some (Inr v, ?r)"
    using eval_steps_run [OF frame_popped(1) [OF assms]] by (simp add: run_from_step)
qed (rule frame_popped(2) [OF assms])

text \<open>The same for a step that ends in a \<^verbatim>\<open>push_cc\<close> and a jump.\<close>

lemma gives_through_frame:
  assumes "eval_step W l0 s = Some (Inr (Goto l), cc_pushed p1 p2 a c u)" "stack_room u" "below s u"
    and "gives W l (cc_pushed p1 p2 a c u) v t" "map_of continuations c = Some k"
    and "gives W k (resumed u p2 c v t) w t'"
  shows "gives W l0 s w t'"
proof -
  note r = returns_to_frame [OF assms(2,4,5)]
  have "eval_steps W l0 s k (resumed u p2 c v t)"
    by (rule go [OF assms(1) r(1)])
  moreover have "below s t'"
    using assms(3,6) r(2) below_trans unfolding gives_def by blast
  ultimately show ?thesis
    using assms(6) eval_steps_trans unfolding gives_def by blast
qed

lemma push_goto_ok: "stack_room s \<Longrightarrow> push_goto p1 p2 a c l s = Some (Inr (Goto l), cc_pushed p1 p2 a c s)"
  by (simp add: push_goto_def)

text \<open>The continuations are distinct cells.\<close>

lemma continuation_of:
  "map_of continuations cell_vm_evlis2 = Some Evlis2" "map_of continuations cell_vm_evlis3 = Some Evlis3"
  "map_of continuations cell_vm_if_expr = Some If_expr" "map_of continuations cell_vm_begin_eval = Some Begin_eval"
  "map_of continuations cell_vm_eval2 = Some Eval2"
  "map_of continuations cell_vm_eval_check_func = Some Eval_check_func"
  "map_of continuations cell_vm_return = Some Vm_return"
  "map_of continuations cell_vm_apply = Some Apply"
  "map_of continuations cell_unspecified = None"
  by (simp_all add: continuations_def cells)

section \<open>Forms\<close>

text \<open>A pair of the heap.\<close>

definition pair_at :: "mst \<Rightarrow> addr \<Rightarrow> addr \<Rightarrow> addr \<Rightarrow> bool" where
  "pair_at s p a d \<longleftrightarrow> heap s p = Some (mk_cell TPAIR a d)"

lemma pair_at_get [simp]:
  assumes "pair_at s p a d"
  shows "get_type p s = Some (Inr TPAIR, s)" "get_car p s = Some (Inr a, s)" "get_cdr p s = Some (Inr d, s)"
  using assms by (simp_all add: pair_at_def)

text \<open>Types that evaluate to themselves.\<close>

definition self_evaluating :: "tag \<Rightarrow> bool" where
  "self_evaluating t \<longleftrightarrow> t \<notin> {TPAIR, TSYMBOL, TBINDING, TBROKEN_HEART}"

lemma eval_constant:
  assumes "heap s (R1 s) = Some c" "self_evaluating (ctype c)"
  shows "gives W Eval s (R1 s) s"
proof -
  have "eval_step W Eval s = Some (Inr (Goto Vm_return), s)"
    using assms by (auto simp: step_eval_def self_evaluating_def)
  then show ?thesis
    by (rule gives_go [OF _ below_refl gives_Vm_return])
qed

lemma eval_pair_form:
  assumes "pair_at s (R1 s) c d" "heap s c = Some k" "ctype k \<noteq> TBINDING"
  shows "eval_step W Eval s = eval_form W s"
  using assms by (simp add: step_eval_def eval_pair_def)

lemma eval_quote:
  assumes "pair_at s (R1 s) cell_symbol_quote p" "pair_at s p x q"
    and "heap s cell_symbol_quote = Some k" "ctype k \<noteq> TBINDING"
  shows "gives W Eval s x (s\<lparr>R1 := x\<rparr>)"
proof -
  have "eval_step W Eval s = eval_form W s"
    by (rule eval_pair_form [OF assms(1,3,4)])
  also have "\<dots> = Some (Inr (Goto Vm_return), s\<lparr>R1 := x\<rparr>)"
    using assms(1,2) by (simp add: eval_form_def give_def)
  finally have "eval_step W Eval s = Some (Inr (Goto Vm_return), s\<lparr>R1 := x\<rparr>)" .
  then show ?thesis
    by (rule gives_go) (simp_all add: below_def gives_def stay)
qed

text \<open>
  A conditional: after the test has given \<open>v\<close>, the branch that it selects is evaluated in the
  environment of the form, and its value is that of the form.
\<close>

lemma vm_if_test:
  assumes "pair_at s (R1 s) test rest" "stack_room s"
  shows "eval_step W Vm_if s = Some (Inr (Goto Eval), cc_pushed test (R1 s) (R0 s) cell_vm_if_expr s)"
  using assms by (simp add: step_vm_if_def push_goto_ok)

lemma if_true:
  assumes "pair_at s (R1 s) test rest" "stack_room s"
    and test: "gives W Eval (cc_pushed test (R1 s) (R0 s) cell_vm_if_expr s) v t" and v: "v \<noteq> cell_f"
    and form: "pair_at t (R1 s) test' rest'" "pair_at t rest' thn els"
    and branch: "gives W Eval (resumed s (R1 s) cell_vm_if_expr thn t) w u"
  shows "gives W Vm_if s w u"
proof -
  let ?r = "resumed s (R1 s) cell_vm_if_expr v t"
  have "pair_at ?r (R1 s) test' rest'" "pair_at ?r rest' thn els"
    using form by (simp_all add: pair_at_def)
  then have "eval_step W If_expr ?r = Some (Inr (Goto Eval), ?r\<lparr>R1 := thn\<rparr>)"
    using v by (simp add: step_if_expr_def pair_at_def)
  moreover have "gives W Eval (?r\<lparr>R1 := thn\<rparr>) w u"
    using branch by simp
  ultimately have "gives W If_expr ?r w u"
    by (intro gives_go [of W If_expr ?r Eval "?r\<lparr>R1 := thn\<rparr>"]) (simp_all add: below_def)
  then show ?thesis
    by (rule gives_through_frame [OF vm_if_test [OF assms(1,2)] assms(2) below_refl test continuation_of(3)])
qed

lemma if_false:
  assumes "pair_at s (R1 s) test rest" "stack_room s"
    and test: "gives W Eval (cc_pushed test (R1 s) (R0 s) cell_vm_if_expr s) cell_f t"
    and form: "pair_at t (R1 s) test' rest'" "pair_at t rest' thn els" "pair_at t els alt q"
    and els: "els \<noteq> cell_nil"
    and branch: "gives W Eval (resumed s (R1 s) cell_vm_if_expr alt t) w u"
  shows "gives W Vm_if s w u"
proof -
  let ?r = "resumed s (R1 s) cell_vm_if_expr cell_f t"
  have "pair_at ?r (R1 s) test' rest'" "pair_at ?r rest' thn els" "pair_at ?r els alt q"
    using form by (simp_all add: pair_at_def)
  then have "eval_step W If_expr ?r = Some (Inr (Goto Eval), ?r\<lparr>R1 := alt\<rparr>)"
    using els by (simp add: step_if_expr_def pair_at_def)
  moreover have "gives W Eval (?r\<lparr>R1 := alt\<rparr>) w u"
    using branch by simp
  ultimately have "gives W If_expr ?r w u"
    by (intro gives_go [of W If_expr ?r Eval "?r\<lparr>R1 := alt\<rparr>"]) (simp_all add: below_def)
  then show ?thesis
    by (rule gives_through_frame [OF vm_if_test [OF assms(1,2)] assms(2) below_refl test continuation_of(3)])
qed

lemma if_no_else:
  assumes "pair_at s (R1 s) test rest" "stack_room s"
    and test: "gives W Eval (cc_pushed test (R1 s) (R0 s) cell_vm_if_expr s) cell_f t"
    and form: "pair_at t (R1 s) test' rest'" "pair_at t rest' thn cell_nil"
  shows "\<exists>u. gives W Vm_if s cell_unspecified u"
proof -
  let ?r = "resumed s (R1 s) cell_vm_if_expr cell_f t"
  let ?u = "?r\<lparr>R1 := cell_unspecified\<rparr>"
  have "pair_at ?r (R1 s) test' rest'" "pair_at ?r rest' thn cell_nil"
    using form by (simp_all add: pair_at_def)
  then have "eval_step W If_expr ?r = Some (Inr (Goto Vm_return), ?u)"
    by (simp add: step_if_expr_def give_def pair_at_def)
  then have "gives W If_expr ?r cell_unspecified ?u"
    by (rule gives_go) (simp_all add: below_def gives_def stay)
  then show ?thesis
    using gives_through_frame [OF vm_if_test [OF assms(1,2)] assms(2) below_refl test continuation_of(3)] by blast
qed

end
