(* ===== verification/Mes_Env.thy ===== *)
theory Mes_Env
  imports Mes_Machine
begin

text \<open>
  Environments of the evaluator: what \<^verbatim>\<open>pairlis\<close> builds, what \<^verbatim>\<open>lookup_value\<close> finds in it,
  and the application of closures, which joins the two. An environment is an association list;
  \<open>frame_at s a kvs\<close> reads it as the list of its bindings, the innermost first.
\<close>

section \<open>Environments\<close>

definition frame_at :: "mst \<Rightarrow> addr \<Rightarrow> (addr \<times> addr) list \<Rightarrow> bool" where
  "frame_at s a kvs \<longleftrightarrow> (\<exists>hs. list_at s a hs
     \<and> list_all2 (\<lambda>h (k, v). lookup s h = Some (mk_cell TPAIR k v)) hs kvs)"

lemma frame_at_Nil [simp]: "frame_at s a [] \<longleftrightarrow> a = cell_nil"
  by (simp add: frame_at_def)

lemma frame_at_Cons:
  "frame_at s a ((k, v) # kvs) \<longleftrightarrow> a \<noteq> cell_nil
     \<and> (\<exists>c. lookup s a = Some c \<and> ctype c = TPAIR \<and> lookup s (ccar c) = Some (mk_cell TPAIR k v)
        \<and> frame_at s (ccdr c) kvs)"
proof
  assume "frame_at s a ((k, v) # kvs)"
  then obtain h hs where "list_at s a (h # hs)" "lookup s h = Some (mk_cell TPAIR k v)"
    "list_all2 (\<lambda>h (k, v). lookup s h = Some (mk_cell TPAIR k v)) hs kvs"
    by (auto simp: frame_at_def list_all2_Cons2)
  then show "a \<noteq> cell_nil \<and> (\<exists>c. lookup s a = Some c \<and> ctype c = TPAIR
        \<and> lookup s (ccar c) = Some (mk_cell TPAIR k v) \<and> frame_at s (ccdr c) kvs)"
    unfolding frame_at_def list_at_Cons by blast
next
  assume "a \<noteq> cell_nil \<and> (\<exists>c. lookup s a = Some c \<and> ctype c = TPAIR
        \<and> lookup s (ccar c) = Some (mk_cell TPAIR k v) \<and> frame_at s (ccdr c) kvs)"
  then obtain c hs where c: "a \<noteq> cell_nil" "lookup s a = Some c" "ctype c = TPAIR"
    "lookup s (ccar c) = Some (mk_cell TPAIR k v)" "list_at s (ccdr c) hs"
    "list_all2 (\<lambda>h (k, v). lookup s h = Some (mk_cell TPAIR k v)) hs kvs"
    by (auto simp: frame_at_def)
  then show "frame_at s a ((k, v) # kvs)"
    unfolding frame_at_def
    by (intro exI [of _ "ccar c # hs"]) (auto simp: list_at_Cons)
qed

lemma frame_at_extends:
  assumes "extends s t" "frame_at s a kvs"
  shows "frame_at t a kvs"
proof -
  obtain hs where "list_at s a hs" "list_all2 (\<lambda>h (k, v). lookup s h = Some (mk_cell TPAIR k v)) hs kvs"
    using assms(2) by (auto simp: frame_at_def)
  then show ?thesis
    unfolding frame_at_def
    using list_at_extends [OF assms(1)] extends_lookup [OF assms(1)]
    by (intro exI [of _ hs]) (auto elim!: list_all2_mono)
qed

lemma frame_at_push:
  assumes "frame_at s a kvs" "arena_ok s" "room 2 s" "cell_nil < g_free s"
  shows "frame_at (push_cell (mk_cell TPAIR (g_free s) a) (push_cell (mk_cell TPAIR k v) s))
    (g_free s + 1) ((k, v) # kvs)"
  using assms frame_at_extends [OF extends_trans [OF extends_push_cell extends_push_cell] assms(1)]
  by (simp add: frame_at_Cons)

lemma spine_extends:
  assumes "extends s t" "spine (lookup s) p ps q"
  shows "spine (lookup t) p ps q" "cars (lookup t) ps = cars (lookup s) ps"
proof -
  have "lookup t a = lookup s a" if "a \<in> set ps" for a
    using spine_mapped [OF assms(2)] extends_lookup [OF assms(1)] that by fastforce
  then show "spine (lookup t) p ps q" "cars (lookup t) ps = cars (lookup s) ps"
    using assms(2) spine_frame [of ps "lookup t" "lookup s"] cars_frame [of ps "lookup t" "lookup s"] by auto
qed

section \<open>Binding the formals\<close>

text \<open>
  \<open>formals_at s x ks r\<close>: formals \<open>ks\<close>, and after them, if \<open>r\<close> is not empty, the name \<open>r\<close> for the
  list of the rest.
\<close>

definition formals_at :: "mst \<Rightarrow> addr \<Rightarrow> addr list \<Rightarrow> addr option \<Rightarrow> bool" where
  "formals_at s x ks r \<longleftrightarrow> (\<exists>ps q. spine (lookup s) x ps q \<and> cars (lookup s) ps = ks
     \<and> (case r of None \<Rightarrow> q = cell_nil
        | Some n \<Rightarrow> q = n \<and> n \<noteq> cell_nil \<and> (\<exists>c. lookup s n = Some c \<and> ctype c = TSYMBOL)))"

lemma formals_at_extends: "extends s t \<Longrightarrow> formals_at s x ks r \<Longrightarrow> formals_at t x ks r"
proof -
  assume e: "extends s t" and f: "formals_at s x ks r"
  obtain ps q where ps: "spine (lookup s) x ps q" "cars (lookup s) ps = ks"
    and q: "case r of None \<Rightarrow> q = cell_nil
        | Some n \<Rightarrow> q = n \<and> n \<noteq> cell_nil \<and> (\<exists>c. lookup s n = Some c \<and> ctype c = TSYMBOL)"
    using f by (auto simp: formals_at_def)
  have "spine (lookup t) x ps q" "cars (lookup t) ps = ks"
    using spine_extends [OF e ps(1)] ps(2) by simp_all
  moreover have "case r of None \<Rightarrow> q = cell_nil
        | Some n \<Rightarrow> q = n \<and> n \<noteq> cell_nil \<and> (\<exists>c. lookup t n = Some c \<and> ctype c = TSYMBOL)"
    using q extends_lookup [OF e] by (cases r) auto
  ultimately show ?thesis
    unfolding formals_at_def by blast
qed

lemma formals_at_Nil:
  "formals_at s x [] r \<longleftrightarrow> (case r of None \<Rightarrow> x = cell_nil
        | Some n \<Rightarrow> x = n \<and> n \<noteq> cell_nil \<and> (\<exists>c. lookup s n = Some c \<and> ctype c = TSYMBOL))"
  by (auto simp: formals_at_def cars_def split: option.splits)

lemma formals_at_Cons:
  "formals_at s x (k # ks) r \<longleftrightarrow> x \<noteq> cell_nil
     \<and> (\<exists>c. lookup s x = Some c \<and> ctype c = TPAIR \<and> ccar c = k \<and> formals_at s (ccdr c) ks r)"
proof
  assume "formals_at s x (k # ks) r"
  then obtain ps q where ps: "spine (lookup s) x ps q" "cars (lookup s) ps = k # ks"
    "case r of None \<Rightarrow> q = cell_nil
        | Some n \<Rightarrow> q = n \<and> n \<noteq> cell_nil \<and> (\<exists>c. lookup s n = Some c \<and> ctype c = TSYMBOL)"
    by (auto simp: formals_at_def)
  then obtain p ps' where p: "ps = p # ps'" by (cases ps) auto
  with ps obtain c where "x = p" "x \<noteq> cell_nil" "lookup s x = Some c" "ctype c = TPAIR" "ccar c = k"
    "spine (lookup s) (ccdr c) ps' q" "cars (lookup s) ps' = ks"
    by auto
  with ps(3) show "x \<noteq> cell_nil
     \<and> (\<exists>c. lookup s x = Some c \<and> ctype c = TPAIR \<and> ccar c = k \<and> formals_at s (ccdr c) ks r)"
    unfolding formals_at_def by blast
next
  assume "x \<noteq> cell_nil
     \<and> (\<exists>c. lookup s x = Some c \<and> ctype c = TPAIR \<and> ccar c = k \<and> formals_at s (ccdr c) ks r)"
  then obtain c ps q where "x \<noteq> cell_nil" "lookup s x = Some c" "ctype c = TPAIR" "ccar c = k"
    "spine (lookup s) (ccdr c) ps q" "cars (lookup s) ps = ks"
    "case r of None \<Rightarrow> q = cell_nil
        | Some n \<Rightarrow> q = n \<and> n \<noteq> cell_nil \<and> (\<exists>c. lookup s n = Some c \<and> ctype c = TSYMBOL)"
    by (auto simp: formals_at_def)
  then show "formals_at s x (k # ks) r"
    unfolding formals_at_def by (intro exI [of _ "x # ps"] exI [of _ q]) auto
qed

text \<open>Arguments: a list of \<open>vs\<close> that goes on with \<open>q\<close>.\<close>

definition args_at :: "mst \<Rightarrow> addr \<Rightarrow> addr list \<Rightarrow> addr \<Rightarrow> bool" where
  "args_at s y vs q \<longleftrightarrow> (\<exists>ps. spine (lookup s) y ps q \<and> cars (lookup s) ps = vs)"

lemma args_at_extends: "extends s t \<Longrightarrow> args_at s y vs q \<Longrightarrow> args_at t y vs q"
  unfolding args_at_def using spine_extends by metis

lemma args_at_Nil [simp]: "args_at s y [] q \<longleftrightarrow> y = q"
  by (auto simp: args_at_def cars_def)

lemma args_at_Cons:
  "args_at s y (v # vs) q \<longleftrightarrow> y \<noteq> cell_nil
     \<and> (\<exists>c. lookup s y = Some c \<and> ctype c = TPAIR \<and> ccar c = v \<and> args_at s (ccdr c) vs q)"
proof
  assume "args_at s y (v # vs) q"
  then obtain ps where "spine (lookup s) y ps q" "cars (lookup s) ps = v # vs"
    by (auto simp: args_at_def)
  then show "y \<noteq> cell_nil
     \<and> (\<exists>c. lookup s y = Some c \<and> ctype c = TPAIR \<and> ccar c = v \<and> args_at s (ccdr c) vs q)"
    unfolding args_at_def by (cases ps) auto
next
  assume "y \<noteq> cell_nil
     \<and> (\<exists>c. lookup s y = Some c \<and> ctype c = TPAIR \<and> ccar c = v \<and> args_at s (ccdr c) vs q)"
  then obtain c ps where "y \<noteq> cell_nil" "lookup s y = Some c" "ctype c = TPAIR" "ccar c = v"
    "spine (lookup s) (ccdr c) ps q" "cars (lookup s) ps = vs"
    by (auto simp: args_at_def)
  then show "args_at s y (v # vs) q"
    unfolding args_at_def by (intro exI [of _ "y # ps"]) auto
qed

lemma list_args: "list_at s y vs \<longleftrightarrow> args_at s y vs cell_nil"
  by (simp add: list_at_def args_at_def)

definition bindings :: "addr list \<Rightarrow> addr option \<Rightarrow> addr list \<Rightarrow> addr \<Rightarrow> (addr \<times> addr) list" where
  "bindings ks r vs q = zip ks vs @ (case r of None \<Rightarrow> [] | Some n \<Rightarrow> [(n, q)])"

lemma pairlis_ok:
  assumes "formals_at s x ks r" "args_at s y vs q" "length vs = length ks"
    and "frame_at s a kvs" "ready (2 * int (length ks) + 2) s"
  shows "\<exists>t e. pairlis x y a s = Some (Inr e, t) \<and> grows (2 * int (length ks) + 2) s t
     \<and> frame_at t e (bindings ks r vs q @ kvs)"
  using assms
proof (induction ks arbitrary: x y vs s)
  case Nil
  have ok: "arena_ok s" "room 2 s" "room 1 s" "cell_nil < g_free s"
    using Nil.prems(5) specials_ok_nil by (auto simp: ready_def room_def)
  show ?case
  proof (cases r)
    case None
    then show ?thesis
      using Nil ok by (auto simp: formals_at_Nil pairlis.simps bindings_def)
  next
    case (Some n)
    then obtain c where n: "x = n" "n \<noteq> cell_nil" "lookup s n = Some c" "ctype c = TSYMBOL" "y = q" "vs = []"
      using Nil.prems(1-3) by (auto simp: formals_at_Nil)
    let ?s = "push_cell (mk_cell TPAIR n q) s"
    let ?t = "push_cell (mk_cell TPAIR (g_free s) a) ?s"
    have "pairlis x y a s = Some (Inr (g_free s + 1), ?t)"
      using n ok by (subst pairlis.simps) simp
    moreover have "grows 2 s ?t"
      using grows_trans [OF grows_push_cell grows_push_cell] ok(1) push_cell_arena_ok
      by (metis one_add_one)
    ultimately show ?thesis
      using frame_at_push [OF Nil.prems(4) ok(1,2,4)] Some n by (auto simp: bindings_def)
  qed
next
  case (Cons k ks)
  obtain c where x: "x \<noteq> cell_nil" "lookup s x = Some c" "ctype c = TPAIR" "ccar c = k"
    "formals_at s (ccdr c) ks r"
    using Cons.prems(1) by (auto simp: formals_at_Cons)
  obtain v vs' where vs: "vs = v # vs'" "length vs' = length ks"
    using Cons.prems(3) by (cases vs) auto
  obtain d where y: "y \<noteq> cell_nil" "lookup s y = Some d" "ctype d = TPAIR" "ccar d = v"
    "args_at s (ccdr d) vs' q"
    using Cons.prems(2) by (auto simp: vs args_at_Cons)
  let ?s = "push_cell (mk_cell TPAIR k v) s"
  have ok: "arena_ok s" "room 1 s" "specials_ok s" "cell_nil < g_free s"
    using Cons.prems(5) specials_ok_nil by (auto simp: ready_def room_def)
  have g1: "grows 1 s ?s" and ext: "extends s ?s"
    using ok by simp_all
  have r1: "ready (2 * int (length ks) + 2 + 1) ?s"
    using grows_ready [OF g1, of "2 * int (length ks) + 2 + 1"] Cons.prems(5) by (simp add: algebra_simps)
  have "formals_at ?s (ccdr c) ks r" "args_at ?s (ccdr d) vs' q"
    by (rule formals_at_extends [OF ext x(5)]) (rule args_at_extends [OF ext y(5)])
  then obtain t e where t: "pairlis (ccdr c) (ccdr d) a ?s = Some (Inr e, t)"
    "grows (2 * int (length ks) + 2) ?s t" "frame_at t e (bindings ks r vs' q @ kvs)"
    using Cons.IH [of ?s "ccdr c" "ccdr d" vs'] vs(2) frame_at_extends [OF ext Cons.prems(4)]
      ready_mono [OF r1] by auto
  let ?t = "push_cell (mk_cell TPAIR (g_free s) e) t"
  have g2: "grows (2 * int (length ks) + 3) s t"
    using grows_trans [OF g1 t(2)] by (simp add: algebra_simps)
  have rt: "arena_ok t" "room 1 t" "cell_nil < g_free t"
    using growsD(2,3) [OF t(2)] grows_room [OF t(2), of "2 * int (length ks) + 3" 1] r1 ok(4)
    by (auto simp: ready_def add.commute)
  have cell: "lookup t (g_free s) = Some (mk_cell TPAIR k v)"
    by (rule extends_lookup [OF growsD(1) [OF t(2)]]) simp
  have nil: "x \<noteq> cell_nil" "heap s x = Some c" "heap s y = Some d"
    using x y by auto
  have xy: "lookup ?s x = Some c" "lookup ?s y = Some d"
    using extends_lookup [OF ext] x(2) y(2) by blast+
  have "pairlis x y a s = Some (Inr (g_free t), ?t)"
    using x y vs ok(1,2) xy t(1) rt by (subst pairlis.simps) (simp add: car_def cdr_def)
  moreover have "grows (2 * int (length (k # ks)) + 2) s ?t"
    using grows_trans [OF g2 grows_push_cell [OF rt(1)]] by (simp add: algebra_simps)
  moreover have "frame_at ?t (g_free t) (bindings (k # ks) r vs q @ kvs)"
    using frame_at_extends [OF extends_push_cell t(3), of "mk_cell TPAIR (g_free s) e"]
      cell rt(3)
    by (auto simp: vs(1) bindings_def frame_at_Cons)
  ultimately show ?case by blast
qed

section \<open>Resources\<close>

text \<open>\<open>spends n s t\<close>: from \<open>s\<close> to \<open>t\<close> at most \<open>n\<close> cells were allocated, no allocated cell has changed
  and neither have the sizes and the modules; the registers and the stack are left open.\<close>

definition spends :: "int \<Rightarrow> mst \<Rightarrow> mst \<Rightarrow> bool" where
  "spends n s t \<longleftrightarrow> extends s t \<and> arena_ok t \<and> g_free t \<le> g_free s + n \<and> ARENA_SIZE t = ARENA_SIZE s
     \<and> g_cells t = g_cells s \<and> GC_SAFETY t = GC_SAFETY s \<and> STACK_SIZE t = STACK_SIZE s
     \<and> M0 t = M0 s \<and> M1 t = M1 s"

lemma spends_extends: "spends n s t \<Longrightarrow> extends s t"
  by (simp add: spends_def)

lemma spends_refl: "arena_ok s \<Longrightarrow> 0 \<le> n \<Longrightarrow> spends n s s"
  by (simp add: spends_def)

lemma spends_trans: "spends n s t \<Longrightarrow> spends m t u \<Longrightarrow> spends (n + m) s u"
  using extends_trans by (auto simp: spends_def)

lemma spends_mono: "spends n s t \<Longrightarrow> n \<le> m \<Longrightarrow> spends m s t"
  by (auto simp: spends_def)

lemma grows_spends: "grows n s t \<Longrightarrow> spends n s t"
  using growsD [of n s t] by (simp add: spends_def)

lemma extends_from_registers [simp]:
  "extends (s\<lparr>R0 := x\<rparr>) t = extends s t" "extends (s\<lparr>R1 := x\<rparr>) t = extends s t"
  "extends (s\<lparr>stack := f\<rparr>) t = extends s t"
  "extends (cc_pushed p1 p2 a c s) t = extends s t" "extends (resumed s' p2 c v s) t = extends s t"
  by (simp_all add: extends_def)

lemma extends_to_registers [simp]:
  "extends s (t\<lparr>R0 := x\<rparr>) = extends s t" "extends s (t\<lparr>R1 := x\<rparr>) = extends s t"
  "extends s (t\<lparr>stack := f\<rparr>) = extends s t"
  "extends s (cc_pushed p1 p2 a c t) = extends s t" "extends s (resumed s' p2 c v t) = extends s t"
  by (simp_all add: extends_def)

lemma spends_registers [simp]:
  "spends n s (t\<lparr>R0 := x\<rparr>) = spends n s t" "spends n s (t\<lparr>R1 := x\<rparr>) = spends n s t"
  "spends n s (t\<lparr>stack := f\<rparr>) = spends n s t"
  "spends n s (cc_pushed p1 p2 a c t) = spends n s t" "spends n s (resumed s' p2 c v t) = spends n s t"
  "spends n (s\<lparr>R1 := x\<rparr>) t = spends n s t" "spends n (s\<lparr>stack := f\<rparr>) t = spends n s t"
  "spends n (cc_pushed p1 p2 a c s) t = spends n s t" "spends n (resumed s' p2 c v s) t = spends n s t"
  by (simp_all add: spends_def arena_ok_def)

section \<open>Looking names up\<close>

definition symbol_cell :: "mst \<Rightarrow> addr \<Rightarrow> bool" where
  "symbol_cell s k \<longleftrightarrow> (\<exists>c. lookup s k = Some c \<and> ctype c = TSYMBOL)"

lemma symbol_cell_extends: "extends s t \<Longrightarrow> symbol_cell s k \<Longrightarrow> symbol_cell t k"
  unfolding symbol_cell_def using extends_lookup by blast

lemma assq_pointer_frame:
  "frame_at s a kvs \<Longrightarrow> (case map_of kvs k of
      None \<Rightarrow> assq_pointer k a s = Some (Inr cell_f, s)
    | Some v \<Rightarrow> \<exists>h. assq_pointer k a s = Some (Inr h, s) \<and> lookup s h = Some (mk_cell TPAIR k v))"
proof (induction kvs arbitrary: a)
  case Nil
  then show ?case by (simp add: assq_pointer.simps)
next
  case (Cons kv kvs)
  obtain k' v' where kv: "kv = (k', v')" by force
  then obtain c where c: "a \<noteq> cell_nil" "lookup s a = Some c" "ctype c = TPAIR"
    "lookup s (ccar c) = Some (mk_cell TPAIR k' v')" "frame_at s (ccdr c) kvs"
    using Cons.prems by (auto simp: frame_at_Cons)
  show ?case
  proof (cases "k = k'")
    case True
    have "assq_pointer k a s = Some (Inr (ccar c), s)"
      using c True by (subst assq_pointer.simps) simp
    then show ?thesis
      using c(4) True by (simp add: kv)
  next
    case False
    have "assq_pointer k a s = assq_pointer k (ccdr c) s"
      using c False by (subst assq_pointer.simps) simp
    then show ?thesis
      using Cons.IH [OF c(5)] False by (auto simp: kv split: option.splits)
  qed
qed

lemma assq_frame:
  assumes "frame_at s a kvs" "symbol_cell s k" "specials_ok s"
  shows "case map_of kvs k of
      None \<Rightarrow> assq k a s = Some (Inr cell_f, s)
    | Some v \<Rightarrow> \<exists>h. assq k a s = Some (Inr h, s) \<and> lookup s h = Some (mk_cell TPAIR k v)"
proof -
  obtain hs where hs: "list_at s a hs" "list_all2 (\<lambda>h (k, v). lookup s h = Some (mk_cell TPAIR k v)) hs kvs"
    using assms(1) by (auto simp: frame_at_def)
  obtain c where c: "lookup s a = Some c" "ctype c = TPAIR \<longleftrightarrow> hs \<noteq> []"
    using list_at_object [OF hs(1) assms(3)] by auto
  obtain d where d: "lookup s k = Some d" "ctype d = TSYMBOL"
    using assms(2) by (auto simp: symbol_cell_def)
  show ?thesis
  proof (cases "hs = []")
    case True
    with hs(2) c show ?thesis by (simp add: assq_def)
  next
    case False
    with c d have "assq k a s = assq_pointer k a s" by (simp add: assq_def)
    with assq_pointer_frame [OF assms(1), of k] show ?thesis
      by (auto split: option.splits)
  qed
qed

lemma lookup_value_lexical:
  assumes "frame_at s (R0 s) kvs" "map_of kvs k = Some v" "symbol_cell s k" "ready 1 s"
  shows "\<exists>t. lookup_value W k s = Some (Inr v, t) \<and> grows 1 s t"
proof -
  have ok: "arena_ok s" "room 1 s" "specials_ok s"
    using assms(4) by (auto simp: ready_def)
  obtain h where h: "assq k (R0 s) s = Some (Inr h, s)" "lookup s h = Some (mk_cell TPAIR k v)"
    using assq_frame [OF assms(1,3) ok(3)] assms(2) by auto
  have "h \<noteq> cell_f"
    using h(2) specials_ok_f [OF ok(3)] by fastforce
  let ?t = "push_cell (mk_cell TBINDING h 1) s"
  have "push_cell (mk_cell TBINDING h 0) s\<lparr>heap := (heap s)(g_free s \<mapsto> mk_cell TBINDING h 1)\<rparr> = ?t"
    by (simp add: push_cell_def)
  have free: "g_free s \<noteq> cell_f"
    using specials_okD [OF ok(3), of cell_f] by (auto simp: cells)
  have "lookup_binding W k cell_f s = Some (Inr (g_free s), ?t)"
    using h \<open>h \<noteq> cell_f\<close> ok
    by (simp add: lookup_binding_def make_binding_c_def make_cell_ok) (simp add: push_cell_def)
  moreover have "heap ?t h = Some (mk_cell TPAIR k v)"
    using h(2) by simp
  ultimately have "lookup_value W k s = Some (Inr v, ?t)"
    using free by (simp add: lookup_value_def)
  then show ?thesis
    using ok by auto
qed

lemma eval_symbol:
  assumes "symbol_cell s (R1 s)" "frame_at s (R0 s) kvs" "map_of kvs (R1 s) = Some v" "ready 1 s"
    and "v \<noteq> cell_undefined"
    and "R1 s \<notin> {cell_symbol_current_environment, cell_symbol_begin, cell_symbol_call_with_current_continuation}"
  shows "\<exists>t. gives W Eval s v t \<and> spends 1 s t"
proof -
  obtain c where c: "lookup s (R1 s) = Some c" "ctype c = TSYMBOL"
    using assms(1) by (auto simp: symbol_cell_def)
  obtain t where t: "lookup_value W (R1 s) s = Some (Inr v, t)" "grows 1 s t"
    using lookup_value_lexical [OF assms(2,3,1,4)] by blast
  have "eval_step W Eval s = Some (Inr (Goto Vm_return), t\<lparr>R1 := v\<rparr>)"
    using c t(1) assms(5,6) by (simp add: step_eval_def assert_defined_def give_def)
  moreover have "below s (t\<lparr>R1 := v\<rparr>)" "spends 1 s (t\<lparr>R1 := v\<rparr>)"
    using growsD(17-19) [OF t(2)] grows_spends [OF t(2)] by (auto simp: below_def)
  moreover have "gives W Vm_return (t\<lparr>R1 := v\<rparr>) v (t\<lparr>R1 := v\<rparr>)"
    using gives_Vm_return [of W "t\<lparr>R1 := v\<rparr>"] by simp
  ultimately show ?thesis
    using gives_go by blast
qed

section \<open>Applying a closure\<close>

lemma formals_length:
  assumes "formals_at s x ks r"
  shows "length_c x s = Some (Inr (case r of None \<Rightarrow> int (length ks) | Some _ \<Rightarrow> -1), s)"
proof -
  obtain ps q where ps: "spine (lookup s) x ps q" "cars (lookup s) ps = ks"
    "case r of None \<Rightarrow> q = cell_nil
        | Some n \<Rightarrow> q = n \<and> n \<noteq> cell_nil \<and> (\<exists>c. lookup s n = Some c \<and> ctype c = TSYMBOL)"
    using assms by (auto simp: formals_at_def)
  show ?thesis
  proof (cases r)
    case None
    then have "list_at s x ks"
      using ps by (auto simp: list_at_def)
    with None show ?thesis by simp
  next
    case (Some n)
    with ps show ?thesis
      using length_c_improper [OF ps(1)] by auto
  qed
qed

lemma formals_type:
  assumes "formals_at s x ks r" "specials_ok s"
  shows "\<exists>t. get_type x s = Some (Inr t, s) \<and> t \<noteq> TNUMBER"
proof (cases ks)
  case Nil
  then show ?thesis
    using assms specials_okD [OF assms(2), of cell_nil]
    by (auto simp: formals_at_Nil cells split: option.splits)
next
  case (Cons k ks)
  then show ?thesis
    using assms(1) by (auto simp: formals_at_Cons)
qed

text \<open>\<^verbatim>\<open>check_formals\<close> accepts as many arguments as formals, and any number above a rest name.\<close>

lemma check_formals_ok:
  assumes "formals_at s x ks r" "list_at s y vs" "specials_ok s"
    and "r = None \<Longrightarrow> length vs = length ks"
  shows "check_formals W f x y s = Some (Inr cell_unspecified, s)"
proof -
  obtain t where t: "get_type x s = Some (Inr t, s)" "t \<noteq> TNUMBER"
    using formals_type [OF assms(1,3)] by blast
  show ?thesis
    using t formals_length [OF assms(1)] assms(2,4)
    by (cases r) (simp_all add: check_formals_def)
qed

lemma check_formals_wrong:
  assumes "formals_at s x ks None" "list_at s y vs" "specials_ok s" "length vs \<noteq> length ks"
  shows "check_formals W f x y s
     = mbind (make_string0 (cstring ''apply: wrong number of arguments; expected: ''))
         (\<lambda>e. mbind (cons e f) (error W cell_symbol_wrong_number_of_args)) s"
proof -
  obtain t where t: "get_type x s = Some (Inr t, s)" "t \<noteq> TNUMBER"
    using formals_type [OF assms(1,3)] by blast
  show ?thesis
    using t formals_length [OF assms(1)] assms(2,4) by (simp add: check_formals_def)
qed

text \<open>A closure: its formals, its body and the environment it was made in.\<close>

definition closure_at :: "mst \<Rightarrow> addr \<Rightarrow> addr \<Rightarrow> addr \<Rightarrow> addr \<Rightarrow> bool" where
  "closure_at s f formals body aa \<longleftrightarrow> (\<exists>z cl p q e x w.
     lookup s f = Some (mk_cell TCLOSURE z cl) \<and> lookup s cl = Some (mk_cell TPAIR p q)
     \<and> lookup s q = Some (mk_cell TPAIR formals body) \<and> lookup s p = Some (mk_cell TPAIR x e)
     \<and> lookup s e = Some (mk_cell TPAIR w aa))"

text \<open>\<^verbatim>\<open>call_lambda\<close> enters a body: the entry \<^verbatim>\<open>*closure*\<close> goes in front of the environment.\<close>

lemma call_lambda_ok:
  assumes "frame_at s e kvs" "ready 2 s"
  shows "\<exists>t. call_lambda body e aa s = Some (Inr cell_unspecified, t) \<and> R1 t = body
     \<and> frame_at t (R0 t) ((cell_closure, e) # kvs) \<and> spends 2 s t
     \<and> stack t = stack s \<and> g_stack t = g_stack s"
proof -
  have ok: "arena_ok s" "room 2 s" "room 1 s" "cell_nil < g_free s"
    using assms(2) specials_ok_nil by (auto simp: ready_def room_def)
  let ?t1 = "push_cell (mk_cell TPAIR cell_closure e) s"
  let ?t2 = "push_cell (mk_cell TPAIR (g_free s) e) ?t1"
  let ?u = "?t2\<lparr>R1 := body, R0 := g_free s + 1\<rparr>"
  have "call_lambda body e aa s = Some (Inr cell_unspecified, ?u)"
    using ok by (simp add: call_lambda_def)
  moreover have "frame_at ?t2 (g_free s + 1) ((cell_closure, e) # kvs)"
    by (rule frame_at_push [OF assms(1) ok(1,2,4)])
  then have "frame_at ?u (R0 ?u) ((cell_closure, e) # kvs)"
    using frame_at_extends [of ?t2 ?u] by simp
  moreover have "grows (1 + 1) s ?t2"
    by (rule grows_trans [of 1 s ?t1 1 ?t2]) (use ok in simp_all)
  then have "spends 2 s ?u"
    using grows_spends by simp
  ultimately show ?thesis
    by (intro exI [of _ ?u]) simp
qed

text \<open>The entry for the procedure in the top frame is set when it is applied.\<close>

definition procedure_noted :: "addr \<Rightarrow> mst \<Rightarrow> mst" where
  "procedure_noted f s = s\<lparr>stack := (stack s)(g_stack s + 4 := f)\<rparr>"

lemma procedure_noted_simps [simp]:
  "lookup (procedure_noted f s) = lookup s" "heap (procedure_noted f s) = heap s"
  "R1 (procedure_noted f s) = R1 s" "R0 (procedure_noted f s) = R0 s" "g_stack (procedure_noted f s) = g_stack s"
  "ready n (procedure_noted f s) = ready n s" "extends s (procedure_noted f s)"
  "spends n (procedure_noted f s) t = spends n s t" "below s (procedure_noted f s)"
  by (auto simp: procedure_noted_def lookup_def fun_eq_iff ready_def arena_ok_def room_def specials_ok_def
      below_def)

lemma entered_below:
  assumes "grows n (procedure_noted f s) t" "stack u = stack t" "g_stack u = g_stack t" "spends m t u"
  shows "below s u" "spends (n + m) s u"
  using growsD(17-19) [OF assms(1)] assms(2-4) spends_trans [OF grows_spends [OF assms(1)] assms(4)]
  by (simp_all add: below_def procedure_noted_def spends_def)

text \<open>
  Applying a closure to arguments: the machine goes on at \<^verbatim>\<open>begin\<close> with the body, in the
  environment of the closure extended by the formals, each bound to its argument.
\<close>

lemma apply_closure_binds:
  assumes "pair_at s (R1 s) f args" "closure_at s f formals body aa"
    and "formals_at s formals ks r" "args_at s args vs q" "length vs = length ks"
    and "list_at s args ws" "r = None \<Longrightarrow> q = cell_nil"
    and "frame_at s aa kvs" "stack_room s" "ready (2 * int (length ks) + 4) s"
  shows "\<exists>t e. eval_step W Apply s = Some (Inr (Goto Begin), t) \<and> R1 t = body
     \<and> frame_at t (R0 t) ((cell_closure, e) # bindings ks r vs q @ kvs)
     \<and> below s t \<and> spends (2 * int (length ks) + 4) s t"
proof -
  let ?n = "2 * int (length ks) + 2"
  let ?s = "procedure_noted f s"
  obtain z cl p qq e0 x w where c: "lookup s f = Some (mk_cell TCLOSURE z cl)" "lookup s cl = Some (mk_cell TPAIR p qq)"
    "lookup s qq = Some (mk_cell TPAIR formals body)" "lookup s p = Some (mk_cell TPAIR x e0)"
    "lookup s e0 = Some (mk_cell TPAIR w aa)"
    using assms(2) by (auto simp: closure_at_def)
  have same: "extends s ?s" by simp
  note at = frame_at_extends [OF same assms(8)] formals_at_extends [OF same assms(3)]
    args_at_extends [OF same assms(4)] list_at_extends [OF same assms(6)]
  have "ready (?n + 2) s"
    using assms(10) by (simp add: add.commute)
  then have rs: "ready (?n + 2) ?s" "specials_ok ?s"
    using ready_def [of _ ?s] by simp_all
  have len: "r = None \<Longrightarrow> length ws = length ks"
    using assms(4-7) list_at_unique by (metis list_args)
  have check: "check_formals W f formals args ?s = Some (Inr cell_unspecified, ?s)"
    by (rule check_formals_ok [OF at(2,4) rs(2) len])
  obtain t e where t: "pairlis formals args aa ?s = Some (Inr e, t)" "grows ?n ?s t"
    "frame_at t e (bindings ks r vs q @ kvs)"
    using pairlis_ok [OF at(2,3) assms(5) at(1) ready_mono [OF rs(1)]] by auto
  obtain u where u: "call_lambda body e aa t = Some (Inr cell_unspecified, u)" "R1 u = body"
    "frame_at u (R0 u) ((cell_closure, e) # bindings ks r vs q @ kvs)" "spends 2 t u"
    "stack u = stack t" "g_stack u = g_stack t"
    using call_lambda_ok [OF t(3) grows_ready [OF t(2) rs(1)]] by blast
  have "eval_step W Apply s = Some (Inr (Goto Begin), u)"
    using assms(1,9) c check t(1) u(1)
    by (simp add: step_apply_def GC_FRAME_PROCEDURE_def stack_ok_def stack_room_def pair_at_def
        apply_closure_def procedure_noted_def)
  then show ?thesis
    using u(2,3) entered_below [OF t(2) u(5,6,4)] by (auto simp: add.assoc)
qed

text \<open>Applying a \<^verbatim>\<open>lambda\<close> form that has not been evaluated: the same, in the current environment.\<close>

lemma apply_lambda_binds:
  assumes "pair_at s (R1 s) f args" "lookup s f = Some (mk_cell TPAIR cell_symbol_lambda l)"
    and "lookup s l = Some (mk_cell TPAIR formals body)"
    and "formals_at s formals ks r" "args_at s args vs q" "length vs = length ks"
    and "list_at s args ws" "r = None \<Longrightarrow> q = cell_nil"
    and "frame_at s (R0 s) kvs" "stack_room s" "ready (2 * int (length ks) + 4) s"
  shows "\<exists>t e. eval_step W Apply s = Some (Inr (Goto Begin), t) \<and> R1 t = body
     \<and> frame_at t (R0 t) ((cell_closure, e) # bindings ks r vs q @ kvs)
     \<and> below s t \<and> spends (2 * int (length ks) + 4) s t"
proof -
  let ?n = "2 * int (length ks) + 2"
  let ?s = "procedure_noted f s"
  have same: "extends s ?s" by simp
  note at = frame_at_extends [OF same assms(9)] formals_at_extends [OF same assms(4)]
    args_at_extends [OF same assms(5)] list_at_extends [OF same assms(7)]
  have "ready (?n + 2) s"
    using assms(11) by (simp add: add.commute)
  then have rs: "ready (?n + 2) ?s" "specials_ok ?s"
    using ready_def [of _ ?s] by simp_all
  obtain t e where t: "pairlis formals args (R0 s) ?s = Some (Inr e, t)" "grows ?n ?s t"
    "frame_at t e (bindings ks r vs q @ kvs)"
    using pairlis_ok [OF at(2,3) assms(6) at(1) ready_mono [OF rs(1)]] by auto
  note gt = growsD(1) [OF t(2)]
  have len: "r = None \<Longrightarrow> length ws = length ks"
    using assms(5-8) list_at_unique by (metis list_args)
  have check: "check_formals W (R1 s) formals args t = Some (Inr cell_unspecified, t)"
    by (rule check_formals_ok [OF formals_at_extends [OF gt at(2)] list_at_extends [OF gt at(4)]
        specials_ok_extends [OF gt rs(2)] len])
  obtain u where u: "call_lambda body e e t = Some (Inr cell_unspecified, u)" "R1 u = body"
    "frame_at u (R0 u) ((cell_closure, e) # bindings ks r vs q @ kvs)" "spends 2 t u"
    "stack u = stack t" "g_stack u = g_stack t"
    using call_lambda_ok [OF t(3) grows_ready [OF t(2) rs(1)]] by blast
  have "eval_step W Apply s = Some (Inr (Goto Begin), u)"
    using assms(1-3,10) check t(1) u(1)
    by (simp add: step_apply_def GC_FRAME_PROCEDURE_def stack_ok_def stack_room_def pair_at_def
        apply_lambda_def procedure_noted_def)
  then show ?thesis
    using u(2,3) entered_below [OF t(2) u(5,6,4)] by (auto simp: add.assoc)
qed

end
