(* ===== verification/Mes_Math.thy ===== *)
theory Mes_Math
  imports Mes_Hash
begin

text \<open>
  Arithmetic (src/src/math.c). The value of a number is a \<^verbatim>\<open>long\<close>; sums, products and
  differences wrap, division works on \<^verbatim>\<open>size_t\<close> and puts the sign back.
\<close>

section \<open>Comparison\<close>

text \<open>The loop of \<^verbatim>\<open>greater_p\<close> and \<^verbatim>\<open>less_p\<close>: \<open>stop v n\<close> is the test that ends it.\<close>

partial_function (option) compare_loop :: "(int \<Rightarrow> int \<Rightarrow> bool) \<Rightarrow> int \<Rightarrow> addr \<Rightarrow> addr mes" where
  "compare_loop stop n x s =
     (if x \<noteq> cell_nil
      then mbind (get_car x) (\<lambda>e. mseq (assert_number e)
           (mbind (car x) (\<lambda>i. mbind (get_cdr i) (\<lambda>v.
             if stop v n then ret cell_f
             else mbind (cdr x) (\<lambda>x'. compare_loop stop v x')))))
      else ret cell_t) s"

definition greater_p :: "addr \<Rightarrow> addr mes" where
  "greater_p x =
     (if x = cell_nil then ret cell_t
      else mbind (get_car x) (\<lambda>e. mseq (assert_number e)
           (mbind (get_cdr e) (\<lambda>n. mbind (get_cdr x) (\<lambda>x'. compare_loop (\<lambda>v n. v \<ge> n) n x')))))"

definition less_p :: "addr \<Rightarrow> addr mes" where
  "less_p x =
     (if x = cell_nil then ret cell_t
      else mbind (get_car x) (\<lambda>e. mseq (assert_number e)
           (mbind (get_cdr e) (\<lambda>n. mbind (get_cdr x) (\<lambda>x'. compare_loop (\<lambda>v n. v \<le> n) n x')))))"

partial_function (option) is_p_loop :: "int \<Rightarrow> addr \<Rightarrow> addr mes" where
  "is_p_loop n x s =
     (if x \<noteq> cell_nil
      then mbind (car x) (\<lambda>i. mbind (get_cdr i) (\<lambda>v.
             if v \<noteq> n then ret cell_f
             else mbind (cdr x) (\<lambda>x'. is_p_loop n x')))
      else ret cell_t) s"

definition is_p :: "addr \<Rightarrow> addr mes" where
  "is_p x =
     (if x = cell_nil then ret cell_t
      else mbind (get_car x) (\<lambda>e. mseq (assert_number e)
           (mbind (get_cdr e) (\<lambda>n. mbind (cdr x) (\<lambda>x'. is_p_loop n x')))))"

section \<open>Sums, products and bits\<close>

text \<open>The loop that these procedures share: every element is checked, then \<open>n = f n v\<close>.\<close>

partial_function (option) fold_numbers :: "(int \<Rightarrow> int \<Rightarrow> int) \<Rightarrow> int \<Rightarrow> addr \<Rightarrow> int mes" where
  "fold_numbers f n x s =
     (if x \<noteq> cell_nil
      then mbind (car x) (\<lambda>i. mseq (assert_number i)
           (mbind (get_cdr i) (\<lambda>v. mbind (cdr x) (\<lambda>x'. fold_numbers f (f n v) x'))))
      else ret n) s"

definition minus :: "addr \<Rightarrow> addr mes" where
  "minus x =
     mbind (get_car x) (\<lambda>e. mseq (assert_number e)
     (mbind (get_cdr e) (\<lambda>n.
      mbind (cdr x) (\<lambda>x'.
      mbind (fold_numbers (\<lambda>n v. to_long (n - v)) (if x' = cell_nil then to_long (- n) else n) x') make_number))))"

definition plus :: "addr \<Rightarrow> addr mes" where
  "plus x = mbind (fold_numbers (\<lambda>n v. to_long (n + v)) 0 x) make_number"

definition multiply :: "addr \<Rightarrow> addr mes" where
  "multiply x = mbind (fold_numbers (\<lambda>n v. to_long (n * v)) 1 x) make_number"

definition logand :: "addr \<Rightarrow> addr mes" where
  "logand x = mbind (fold_numbers (\<lambda>n v. and n v) (-1) x) make_number"

definition logior :: "addr \<Rightarrow> addr mes" where
  "logior x = mbind (fold_numbers (\<lambda>n v. or n v) 0 x) make_number"

definition logxor :: "addr \<Rightarrow> addr mes" where
  "logxor x = mbind (fold_numbers (\<lambda>n v. xor n v) 0 x) make_number"

definition lognot :: "addr \<Rightarrow> addr mes" where
  "lognot x = mseq (assert_number x) (mbind (get_cdr x) (\<lambda>v. make_number (not v)))"

text \<open>
  C leaves a shift by 64 or more undefined; the machine uses the six low bits of the count.
\<close>

definition ash :: "addr \<Rightarrow> addr \<Rightarrow> addr mes" where
  "ash n count =
     mseq (assert_number n)
     (mseq (assert_number count)
     (mbind (get_cdr n) (\<lambda>cn. mbind (get_cdr count) (\<lambda>ccount.
      make_number (if ccount < 0
        then drop_bit (nat (to_long (- ccount) mod 64)) cn
        else to_long (push_bit (nat (ccount mod 64)) cn))))))"

section \<open>Division\<close>

definition divide_by_zero :: "addr \<Rightarrow> 'a mes" where
  "divide_by_zero x = mbind (cstring_to_symbol (cstring ''divide-by-zero'')) (\<lambda>k. fail (Throw k x))"

partial_function (option) divide_loop :: "bool \<Rightarrow> int \<Rightarrow> addr \<Rightarrow> (bool \<times> int) mes" where
  "divide_loop sign_p u x s =
     (if x \<noteq> cell_nil
      then mbind (car x) (\<lambda>i. mseq (assert_number i)
           (mbind (get_cdr i) (\<lambda>v.
            let sign_p' = (sign_p \<and> v > 0 \<or> \<not> sign_p \<and> v < 0); w = to_size v in
            if v = 0 then divide_by_zero x
            else if u = 0 then ret (sign_p', u)
            else mbind (cdr x) (\<lambda>x'. divide_loop sign_p' (if w \<noteq> 1 then u div w else u) x'))))
      else ret (sign_p, u)) s"

definition divide :: "addr \<Rightarrow> addr mes" where
  "divide x =
     mbind (if x \<noteq> cell_nil
            then mbind (car x) (\<lambda>i. mseq (assert_number i)
                 (mbind (get_cdr i) (\<lambda>v. mbind (cdr x) (\<lambda>x'. ret (v, x')))))
            else ret (1, x)) (\<lambda>(n, x').
     mbind (divide_loop (n < 0) (if n < 0 then to_size (- n) else to_size n) x') (\<lambda>(sign_p, u).
     make_number (if sign_p then to_long (- to_long u) else to_long u)))"

partial_function (option) modulo_loop :: "int \<Rightarrow> int \<Rightarrow> int mes" where
  "modulo_loop w n s = (if n < 0 then modulo_loop w (to_long (n + w)) else ret n) s"

definition modulo :: "addr \<Rightarrow> addr \<Rightarrow> addr mes" where
  "modulo a b =
     mseq (assert_number a)
     (mseq (assert_number b)
     (mbind (get_cdr a) (\<lambda>n. mbind (get_cdr b) (\<lambda>v.
      if v = 0 then divide_by_zero a
      else let sign_p = v < 0; w = (if sign_p then to_size (- v) else to_size v) in
      mbind (modulo_loop w n) (\<lambda>n'.
      let u = to_size n'; r = to_long (if u \<noteq> 0 then u mod w else u) in
      make_number (if sign_p then to_long (- r) else r))))))"

section \<open>Lists of numbers\<close>

definition number_at :: "mst \<Rightarrow> addr \<Rightarrow> int \<Rightarrow> bool" where
  "number_at s x v \<longleftrightarrow> (\<exists>c. lookup s x = Some c \<and> ctype c = TNUMBER \<and> ccdr c = v \<and> is_long v)"

definition numbers_at :: "mst \<Rightarrow> addr \<Rightarrow> int list \<Rightarrow> bool" where
  "numbers_at s p vs \<longleftrightarrow> (\<exists>xs. list_at s p xs \<and> list_all2 (number_at s) xs vs)"

lemma numbers_at_Nil [simp]: "numbers_at s p [] \<longleftrightarrow> p = cell_nil"
  by (auto simp: numbers_at_def)

lemma numbers_at_Cons:
  "numbers_at s p (v # vs) \<longleftrightarrow> p \<noteq> cell_nil \<and> (\<exists>c x. lookup s p = Some c \<and> ctype c = TPAIR \<and> ccar c = x
     \<and> number_at s x v \<and> numbers_at s (ccdr c) vs)"
proof
  assume "numbers_at s p (v # vs)"
  then show "p \<noteq> cell_nil \<and> (\<exists>c x. lookup s p = Some c \<and> ctype c = TPAIR \<and> ccar c = x
     \<and> number_at s x v \<and> numbers_at s (ccdr c) vs)"
    unfolding numbers_at_def by (fastforce simp: list_all2_Cons2 list_at_Cons)
next
  assume "p \<noteq> cell_nil \<and> (\<exists>c x. lookup s p = Some c \<and> ctype c = TPAIR \<and> ccar c = x
     \<and> number_at s x v \<and> numbers_at s (ccdr c) vs)"
  then obtain c xs where "p \<noteq> cell_nil" "lookup s p = Some c" "ctype c = TPAIR" "number_at s (ccar c) v"
    "list_at s (ccdr c) xs" "list_all2 (number_at s) xs vs"
    by (auto simp: numbers_at_def)
  then show "numbers_at s p (v # vs)"
    unfolding numbers_at_def by (intro exI [of _ "ccar c # xs"]) (simp add: list_at_Cons)
qed

lemma number_steps:
  assumes "lookup s p = Some c" "ctype c = TPAIR" "number_at s (ccar c) v"
  shows "car p s = Some (Inr (ccar c), s)" "cdr p s = Some (Inr (ccdr c), s)"
    "get_car p s = Some (Inr (ccar c), s)" "get_cdr p s = Some (Inr (ccdr c), s)"
    "assert_number (ccar c) s = Some (Inr (), s)" "get_cdr (ccar c) s = Some (Inr v, s)"
  using assms by (auto simp: car_def cdr_def number_at_def assert_number_def)

lemma fold_numbers_ok:
  "numbers_at s p vs \<Longrightarrow> fold_numbers f n p s = Some (Inr (foldl f n vs), s)"
proof (induction vs arbitrary: p n)
  case Nil
  then show ?case by (subst fold_numbers.simps) simp
next
  case (Cons v vs)
  then obtain c where "p \<noteq> cell_nil" "lookup s p = Some c" "ctype c = TPAIR" "number_at s (ccar c) v"
    "numbers_at s (ccdr c) vs" by (auto simp: numbers_at_Cons)
  then show ?case
    using Cons.IH number_steps [of s p c v] by (subst fold_numbers.simps) simp
qed

lemma foldl_to_long_add: "foldl (\<lambda>n v. to_long (n + v)) (to_long n) vs = to_long (n + sum_list vs)"
proof (induction vs arbitrary: n)
  case (Cons v vs)
  have "to_long (to_long n + v) = to_long (n + v)"
    by (rule to_long_cong) (metis mod_add_left_eq to_long_mod_eq)
  then show ?case using Cons.IH [of "n + v"] by (simp add: add.assoc)
qed simp

lemma foldl_to_long_mult: "foldl (\<lambda>n v. to_long (n * v)) (to_long n) vs = to_long (n * prod_list vs)"
proof (induction vs arbitrary: n)
  case (Cons v vs)
  have "to_long (to_long n * v) = to_long (n * v)"
    by (rule to_long_cong) (metis mod_mult_left_eq to_long_mod_eq)
  then show ?case using Cons.IH [of "n * v"] by (simp add: mult.assoc)
qed simp

text \<open>Sums and products are right modulo \<open>2 ^ 64\<close>.\<close>

lemma to_long_01 [simp]: "to_long 0 = 0" "to_long 1 = 1"
  by (simp_all add: to_long_id is_long_def)

lemma plus_ok:
  assumes "numbers_at s p vs" "arena_ok s" "room 1 s"
  shows "plus p s = Some (Inr (g_free s), push_cell (mk_cell TNUMBER 0 (to_long (sum_list vs))) s)"
  using fold_numbers_ok [OF assms(1)] foldl_to_long_add [of 0 vs] assms(2,3) by (simp add: plus_def)

lemma multiply_ok:
  assumes "numbers_at s p vs" "arena_ok s" "room 1 s"
  shows "multiply p s = Some (Inr (g_free s), push_cell (mk_cell TNUMBER 0 (to_long (prod_list vs))) s)"
  using fold_numbers_ok [OF assms(1)] foldl_to_long_mult [of 1 vs] assms(2,3) by (simp add: multiply_def)

text \<open>The comparisons hold of a chain.\<close>

lemma compare_loop_ok:
  assumes "\<And>v n. R n v \<longleftrightarrow> \<not> stop v n" "transp R"
  shows "numbers_at s p vs \<Longrightarrow>
    compare_loop stop n p s = Some (Inr (if sorted_wrt R (n # vs) then cell_t else cell_f), s)"
proof (induction vs arbitrary: p n)
  case Nil
  then show ?case by (subst compare_loop.simps) simp
next
  case (Cons v vs)
  then obtain c where c: "p \<noteq> cell_nil" "lookup s p = Some c" "ctype c = TPAIR" "number_at s (ccar c) v"
    "numbers_at s (ccdr c) vs" by (auto simp: numbers_at_Cons)
  have "sorted_wrt R (n # v # vs) \<longleftrightarrow> R n v \<and> sorted_wrt R (v # vs)"
    using assms(2) by (auto dest: transpD)
  moreover have "stop v n \<longleftrightarrow> \<not> R n v" using assms(1) by simp
  ultimately show ?case
    using Cons.IH [OF c(5), of v] number_steps [OF c(2,3,4)] c(1)
    by (subst compare_loop.simps) (simp del: sorted_wrt.simps)
qed

lemma less_p_ok:
  assumes "numbers_at s p vs"
  shows "less_p p s = Some (Inr (if sorted_wrt (<) vs then cell_t else cell_f), s)"
proof (cases vs)
  case Nil
  with assms show ?thesis by (simp add: less_p_def)
next
  case (Cons v us)
  with assms obtain c where c: "p \<noteq> cell_nil" "lookup s p = Some c" "ctype c = TPAIR" "number_at s (ccar c) v"
    "numbers_at s (ccdr c) us" by (auto simp: numbers_at_Cons)
  have "compare_loop (\<lambda>v n. v \<le> n) v (ccdr c) s
      = Some (Inr (if sorted_wrt (<) (v # us) then cell_t else cell_f), s)"
    by (rule compare_loop_ok [OF _ _ c(5)]) (auto simp: transp_def)
  then show ?thesis
    using number_steps [OF c(2,3,4)] c(1) Cons by (simp add: less_p_def del: sorted_wrt.simps)
qed

lemma greater_p_ok:
  assumes "numbers_at s p vs"
  shows "greater_p p s = Some (Inr (if sorted_wrt (>) vs then cell_t else cell_f), s)"
proof (cases vs)
  case Nil
  with assms show ?thesis by (simp add: greater_p_def)
next
  case (Cons v us)
  with assms obtain c where c: "p \<noteq> cell_nil" "lookup s p = Some c" "ctype c = TPAIR" "number_at s (ccar c) v"
    "numbers_at s (ccdr c) us" by (auto simp: numbers_at_Cons)
  have "compare_loop (\<lambda>v n. v \<ge> n) v (ccdr c) s
      = Some (Inr (if sorted_wrt (>) (v # us) then cell_t else cell_f), s)"
    by (rule compare_loop_ok [OF _ _ c(5)]) (auto simp: transp_def)
  then show ?thesis
    using number_steps [OF c(2,3,4)] c(1) Cons by (simp add: greater_p_def del: sorted_wrt.simps)
qed

section \<open>Quotients and remainders\<close>

lemma to_long_minus: "to_long (- to_long u) = to_long (- u)"
proof (rule to_long_cong)
  show "- to_long u mod 2 ^ 64 = - u mod 2 ^ 64"
    by (metis mod_minus_eq to_long_mod_eq)
qed

lemma divide_loop_ok:
  "numbers_at s p ds \<Longrightarrow> \<forall>d \<in> set ds. 0 < d \<Longrightarrow> 0 \<le> u \<Longrightarrow>
   \<exists>b. divide_loop sign_p u p s = Some (Inr (b, u div prod_list ds), s) \<and> (u \<noteq> 0 \<longrightarrow> u div prod_list ds \<noteq> 0 \<longrightarrow> b = sign_p)"
proof (induction ds arbitrary: p u)
  case Nil
  then show ?case by (subst divide_loop.simps) simp
next
  case (Cons d ds)
  then obtain c where c: "p \<noteq> cell_nil" "lookup s p = Some c" "ctype c = TPAIR" "number_at s (ccar c) d"
    "numbers_at s (ccdr c) ds" by (auto simp: numbers_at_Cons)
  have d: "0 < d" "d < 2 ^ 63" using Cons.prems(2) c(4) by (auto simp: number_at_def is_long_def)
  then have w: "to_size d = d" by (simp add: width)
  have "(if d \<noteq> 1 then u div d else u) = u div d" by simp
  then have step: "divide_loop sign_p u p s = (if u = 0 then Some (Inr (sign_p, 0), s)
      else divide_loop sign_p (u div d) (ccdr c) s)"
    using number_steps [OF c(2,3,4)] c(1) d w by (subst divide_loop.simps) (simp add: Let_def)
  have q: "u div prod_list (d # ds) = u div d div prod_list ds"
    using d(1) Cons.prems(2) by (simp add: zdiv_zmult2_eq prod_list_nonneg less_imp_le)
  show ?case
  proof (cases "u = 0")
    case True
    then show ?thesis using step by simp
  next
    case False
    obtain b where "divide_loop sign_p (u div d) (ccdr c) s = Some (Inr (b, u div d div prod_list ds), s)"
      "u div d \<noteq> 0 \<longrightarrow> u div d div prod_list ds \<noteq> 0 \<longrightarrow> b = sign_p"
      using Cons.IH [OF c(5), of "u div d"] Cons.prems(2,3) d(1) by (auto simp: pos_imp_zdiv_nonneg_iff)
    then show ?thesis using step False q by auto
  qed
qed

text \<open>With positive divisors, \<^verbatim>\<open>divide\<close> truncates towards zero.\<close>

lemma divide_ok:
  assumes "numbers_at s p (n # ds)" "\<forall>d \<in> set ds. 0 < d" "arena_ok s" "room 1 s"
  shows "divide p s = Some (Inr (g_free s),
    push_cell (mk_cell TNUMBER 0 (sgn n * (\<bar>n\<bar> div prod_list ds))) s)"
proof -
  obtain c where c: "p \<noteq> cell_nil" "lookup s p = Some c" "ctype c = TPAIR" "number_at s (ccar c) n"
    "numbers_at s (ccdr c) ds" using assms(1) by (auto simp: numbers_at_Cons)
  have n: "is_long n" using c(4) by (auto simp: number_at_def)
  have u: "(if n < 0 then to_size (- n) else to_size n) = \<bar>n\<bar>"
    using n by (simp add: is_long_def width)
  let ?q = "\<bar>n\<bar> div prod_list ds"
  have pos: "1 \<le> prod_list ds" using assms(2) by (induction ds) (auto simp: int_one_le_iff_zero_less)
  obtain b where b: "divide_loop (n < 0) \<bar>n\<bar> (ccdr c) s = Some (Inr (b, ?q), s)"
    "n \<noteq> 0 \<longrightarrow> ?q \<noteq> 0 \<longrightarrow> b = (n < 0)"
    using divide_loop_ok [OF c(5) assms(2), of "\<bar>n\<bar>" "n < 0"] by auto
  have q: "0 \<le> ?q" "?q \<le> \<bar>n\<bar>"
    using pos zdiv_mono2 [of "\<bar>n\<bar>" 1 "prod_list ds"] by (simp_all add: pos_imp_zdiv_nonneg_iff)
  have "(if b then to_long (- to_long ?q) else to_long ?q) = sgn n * ?q"
  proof (cases "?q = 0")
    case False
    then have b': "b = (n < 0)" "n \<noteq> 0" using b(2) by auto
    show ?thesis
    proof (cases "n < 0")
      case True
      have "to_long (- to_long ?q) = - ?q"
        unfolding to_long_minus using q n True by (simp add: to_long_id is_long_def)
      with True b' show ?thesis by simp
    next
      case False
      have "to_long ?q = ?q" using q n False by (simp add: to_long_id is_long_def)
      with False b' show ?thesis by (simp add: sgn_if)
    qed
  qed simp
  then show ?thesis
    using number_steps [OF c(2,3,4)] c(1) b(1) u assms(3,4) by (simp add: divide_def)
qed

lemma modulo_loop_ok:
  assumes "0 < w" "w < 2 ^ 63"
  shows "is_long n \<Longrightarrow> \<exists>r. modulo_loop w n s = Some (Inr r, s) \<and> 0 \<le> r \<and> r < 2 ^ 63 \<and> r mod w = n mod w"
proof (induction "nat (- n)" arbitrary: n rule: less_induct)
  case less
  show ?case
  proof (cases "n < 0")
    case True
    then have r: "is_long (n + w)" using less.prems assms by (simp add: is_long_def)
    moreover have "nat (- (n + w)) < nat (- n)" using True assms(1) by simp
    ultimately obtain r where "modulo_loop w (n + w) s = Some (Inr r, s)" "0 \<le> r" "r < 2 ^ 63"
      "r mod w = (n + w) mod w"
      using less.hyps by blast
    then show ?thesis
      using True r by (subst modulo_loop.simps) (simp add: to_long_id)
  next
    case False
    then show ?thesis
      using less.prems by (subst modulo_loop.simps) (simp add: is_long_def)
  qed
qed

text \<open>For a positive divisor \<^verbatim>\<open>modulo\<close> is the remainder; for a negative one it is minus the
  remainder by its absolute value.\<close>

lemma modulo_ok:
  assumes "number_at s a n" "number_at s b v" "v \<noteq> 0" "v \<noteq> - (2 ^ 63)" "arena_ok s" "room 1 s"
  shows "modulo a b s = Some (Inr (g_free s),
    push_cell (mk_cell TNUMBER 0 (if 0 < v then n mod v else - (n mod (- v)))) s)"
proof -
  have l: "is_long n" "is_long v" using assms(1,2) by (auto simp: number_at_def)
  define w where "w = \<bar>v\<bar>"
  have w: "0 < w" "w < 2 ^ 63" using assms(3,4) l(2) by (auto simp: w_def is_long_def)
  have size: "(if v < 0 then to_size (- v) else to_size v) = w"
    using w by (auto simp: w_def width)
  obtain r where r: "modulo_loop w n s = Some (Inr r, s)" "0 \<le> r" "r < 2 ^ 63" "r mod w = n mod w"
    using modulo_loop_ok [OF w l(1)] by blast
  have m: "0 \<le> n mod w" "n mod w < w" using w by simp_all
  have "to_long (if to_size r \<noteq> 0 then to_size r mod w else to_size r) = n mod w"
  proof -
    have "is_long (n mod w)" unfolding is_long_def using m w by linarith
    moreover have "to_size r = r" using r(2,3) by (simp add: width)
    ultimately show ?thesis using r(4) by (cases "r = 0") (simp_all add: to_long_id)
  qed
  moreover have "to_long (- (n mod w)) = - (n mod w)"
    using m w by (intro to_long_id) (unfold is_long_def, linarith)
  ultimately show ?thesis
    using assms(1-3,5,6) r(1) size
    by (auto simp: modulo_def number_at_def assert_number_def Let_def w_def split: if_splits)
qed

end
