(* ===== verification/Mes_Prims.thy ===== *)
theory Mes_Prims
  imports Mes_Env Mes_Lists Mes_Math
begin

text \<open>
  The primitive procedures of the core language: what each computes on data, that the C function
  behind it does so on their representations, and what \<^verbatim>\<open>apply\<close> makes of a primitive in
  operator position.
\<close>

section \<open>Primitives on data\<close>

datatype prim = PCons | PCar | PCdr | PList | PNull | PPair | PEq | PEqual | PLength | PAppend
  | PPlus | PTimes | PMinus | PLess | PGreater

text \<open>The entry in the table of builtins.c: name, arity, C function.\<close>

fun prim_spec :: "prim \<Rightarrow> string \<times> int \<times> string" where
  "prim_spec PCons = (''cons'', 2, ''cons'')"
| "prim_spec PCar = (''car'', 1, ''car'')"
| "prim_spec PCdr = (''cdr'', 1, ''cdr'')"
| "prim_spec PList = (''list'', -1, ''list'')"
| "prim_spec PNull = (''null?'', 1, ''null_p'')"
| "prim_spec PPair = (''pair?'', 1, ''pair_p'')"
| "prim_spec PEq = (''eq?'', 2, ''eq_p'')"
| "prim_spec PEqual = (''equal2?'', 2, ''equal2_p'')"
| "prim_spec PLength = (''length'', 1, ''length'')"
| "prim_spec PAppend = (''append2'', 2, ''append2'')"
| "prim_spec PPlus = (''+'', -1, ''plus'')"
| "prim_spec PTimes = (''*'', -1, ''multiply'')"
| "prim_spec PMinus = (''-'', -1, ''minus'')"
| "prim_spec PLess = (''<'', -1, ''less_p'')"
| "prim_spec PGreater = (''>'', -1, ''greater_p'')"

definition prim_arity :: "prim \<Rightarrow> int" where
  "prim_arity p = fst (snd (prim_spec p))"

definition prim_function :: "prim \<Rightarrow> string" where
  "prim_function p = snd (snd (prim_spec p))"

lemma prim_spec_builtin: "prim_spec p \<in> set builtin_specs"
  by (cases p) (simp_all add: builtin_specs_def)

definition truth :: "bool \<Rightarrow> datum" where
  "truth b = DAtom (if b then cell_t else cell_f)"

fun elements :: "datum \<Rightarrow> datum list option" where
  "elements (DAtom a) = (if a = cell_nil then Some [] else None)"
| "elements (DPair d e) = map_option ((#) d) (elements e)"
| "elements _ = None"

definition list_datum :: "datum list \<Rightarrow> datum" where
  "list_datum ds = foldr DPair ds (DAtom cell_nil)"

fun number_of :: "datum \<Rightarrow> int option" where
  "number_of (DNum n) = Some n"
| "number_of _ = None"

definition numbers :: "datum list \<Rightarrow> int list option" where
  "numbers ds = those (map number_of ds)"

fun is_pair :: "datum \<Rightarrow> bool" where
  "is_pair (DPair d e) = True"
| "is_pair _ = False"

text \<open>What \<^verbatim>\<open>eq?\<close> is defined for: what has no identity of its own.\<close>

fun comparable :: "datum \<Rightarrow> bool" where
  "comparable (DPair d e) = False"
| "comparable (DStr bs) = False"
| "comparable (DVec ds) = False"
| "comparable _ = True"

text \<open>The value and the cells that it takes.\<close>

fun prim_value :: "prim \<Rightarrow> datum list \<Rightarrow> (datum \<times> int) option" where
  "prim_value PCons ds = (case ds of [a, b] \<Rightarrow> Some (DPair a b, 1) | _ \<Rightarrow> None)"
| "prim_value PCar ds = (case ds of [DPair a b] \<Rightarrow> Some (a, 0) | _ \<Rightarrow> None)"
| "prim_value PCdr ds = (case ds of [DPair a b] \<Rightarrow> Some (b, 0) | _ \<Rightarrow> None)"
| "prim_value PList ds = Some (list_datum ds, 0)"
| "prim_value PNull ds = (case ds of [a] \<Rightarrow> Some (truth (a = DAtom cell_nil), 0) | _ \<Rightarrow> None)"
| "prim_value PPair ds = (case ds of [a] \<Rightarrow> Some (truth (is_pair a), 0) | _ \<Rightarrow> None)"
| "prim_value PEq ds = (case ds of [a, b] \<Rightarrow>
     if comparable a \<and> comparable b then Some (truth (a = b), 0) else None | _ \<Rightarrow> None)"
| "prim_value PEqual ds = (case ds of [a, b] \<Rightarrow> Some (truth (a = b), 0) | _ \<Rightarrow> None)"
| "prim_value PLength ds = (case ds of [a] \<Rightarrow>
     (case elements a of Some es \<Rightarrow>
        if int (length es) < 2 ^ 63 then Some (DNum (int (length es)), 1) else None | None \<Rightarrow> None) | _ \<Rightarrow> None)"
| "prim_value PAppend ds = (case ds of [a, b] \<Rightarrow> (case (elements a, elements b) of
     (Some es, Some fs) \<Rightarrow> Some (list_datum (es @ fs), int (length es)) | _ \<Rightarrow> None) | _ \<Rightarrow> None)"
| "prim_value PPlus ds = map_option (\<lambda>ns. (DNum (to_long (sum_list ns)), 1)) (numbers ds)"
| "prim_value PTimes ds = map_option (\<lambda>ns. (DNum (to_long (prod_list ns)), 1)) (numbers ds)"
| "prim_value PMinus ds = (case numbers ds of Some (n # ns) \<Rightarrow>
     Some (DNum (to_long (if ns = [] then - n else n - sum_list ns)), 1) | _ \<Rightarrow> None)"
| "prim_value PLess ds = map_option (\<lambda>ns. (truth (sorted_wrt (<) ns), 0)) (numbers ds)"
| "prim_value PGreater ds = map_option (\<lambda>ns. (truth (sorted_wrt (>) ns), 0)) (numbers ds)"

text \<open>
  Data whose atoms are symbols and special objects. \<^verbatim>\<open>*undefined*\<close> is no value.
\<close>

fun proper :: "mst \<Rightarrow> datum \<Rightarrow> bool" where
  "proper s (DNum n) = is_long n"
| "proper s (DAtom a) = (a \<noteq> cell_undefined \<and> (\<exists>c. lookup s a = Some c \<and> (ctype c = TSPECIAL \<or> ctype c = TSYMBOL)))"
| "proper s (DPair d e) = (proper s d \<and> proper s e)"
| "proper s (DVec ds) = list_all (proper s) ds"
| "proper s _ = True"

definition datum_at :: "mst \<Rightarrow> datum \<Rightarrow> addr \<Rightarrow> bool" where
  "datum_at s d a \<longleftrightarrow> repr s d a \<and> proper s d"

lemma proper_extends: "extends s t \<Longrightarrow> proper s d \<Longrightarrow> proper t d"
proof (induction s d rule: proper.induct)
  case (2 s a)
  then show ?case
    using extends_lookup [OF 2(1)] by (fastforce simp del: lookup_Some)
qed (auto simp: list_all_iff)

lemma datum_at_extends: "extends s t \<Longrightarrow> datum_at s d a \<Longrightarrow> datum_at t d a"
  unfolding datum_at_def using repr_extends(1) proper_extends by blast

lemma list_datum_at_extends: "extends s t \<Longrightarrow> list_all2 (datum_at s) ds as \<Longrightarrow> list_all2 (datum_at t) ds as"
  by (auto elim: list_all2_mono intro: datum_at_extends)

lemma datum_at_pair [simp]:
  "datum_at s (DPair d e) p \<longleftrightarrow> (\<exists>c. lookup s p = Some c \<and> ctype c = TPAIR \<and> datum_at s d (ccar c) \<and> datum_at s e (ccdr c))"
  by (auto simp: datum_at_def)

lemma datum_at_type:
  assumes "datum_at s d a"
  shows "\<exists>c. lookup s a = Some c \<and> ctype c \<notin> {TCLOSURE, TVALUES, TSTRUCT, TBINDING, TBROKEN_HEART} \<and> (ctype c = TPAIR \<longleftrightarrow> (\<exists>d' e. d = DPair d' e))"
  using assms by (cases d) (auto simp: datum_at_def text_at_def)

lemma special_datum:
  assumes "specials_ok s" "cell_nil \<le> a" "a \<le> cell_vm_return" "a \<noteq> cell_undefined"
  shows "datum_at s (DAtom a) a"
  using specials_okD [OF assms(1-3)] assms(4) by (auto simp: datum_at_def by_identity_def)

lemma truth_at: "specials_ok s \<Longrightarrow> datum_at s (truth b) (if b then cell_t else cell_f)"
  using special_datum [of s cell_t] special_datum [of s cell_f] by (auto simp: truth_def cells)

lemma elements_at:
  assumes "specials_ok s"
  shows "elements d = Some ds \<Longrightarrow> datum_at s d a \<Longrightarrow> \<exists>xs. list_at s a xs \<and> list_all2 (datum_at s) ds xs"
proof (induction d arbitrary: ds a)
  case (DAtom b)
  then show ?case by (auto simp: datum_at_def split: if_splits)
next
  case (DPair d e)
  then obtain es where es: "elements e = Some es" "ds = d # es" by auto
  obtain c where c: "lookup s a = Some c" "ctype c = TPAIR" "datum_at s d (ccar c)" "datum_at s e (ccdr c)"
    using DPair.prems(2) by auto
  obtain xs where "list_at s (ccdr c) xs" "list_all2 (datum_at s) es xs"
    using DPair.IH(2) [OF es(1) c(4)] by blast
  moreover have "a \<noteq> cell_nil"
    using specials_okD [OF assms, of cell_nil] c by (auto simp: cells)
  ultimately show ?case
    using c es(2) by (intro exI [of _ "ccar c # xs"]) (auto simp: list_at_Cons)
qed auto

lemma list_datum_at:
  assumes "specials_ok s"
  shows "list_at s a xs \<Longrightarrow> list_all2 (datum_at s) ds xs \<Longrightarrow> datum_at s (list_datum ds) a"
proof (induction ds arbitrary: a xs)
  case Nil
  then show ?case
    using special_datum [OF assms, of cell_nil] by (simp add: list_datum_def cells)
next
  case (Cons d ds)
  then obtain x xs' where "xs = x # xs'" "datum_at s d x" "list_all2 (datum_at s) ds xs'"
    by (auto simp: list_all2_Cons1)
  with Cons show ?case by (auto simp: list_datum_def list_at_Cons)
qed

lemma numbers_at_list:
  "list_at s p as \<Longrightarrow> list_all2 (datum_at s) ds as \<Longrightarrow> numbers ds = Some ns \<Longrightarrow> numbers_at s p ns"
proof (induction ds arbitrary: p as ns)
  case Nil
  then show ?case by (simp add: numbers_def)
next
  case (Cons d ds)
  then obtain a as' where a: "as = a # as'" "datum_at s d a" "list_all2 (datum_at s) ds as'"
    by (auto simp: list_all2_Cons1)
  obtain n ns' where n: "d = DNum n" "numbers ds = Some ns'" "ns = n # ns'"
    using Cons.prems(3) by (cases d) (auto simp: numbers_def)
  have "number_at s a n"
    using a(2) n(1) by (auto simp: datum_at_def number_at_def)
  with Cons.IH [OF _ a(3) n(2)] Cons.prems(1) a(1) n(3) show ?case
    by (auto simp: numbers_at_Cons list_at_Cons)
qed

lemma fresh_number:
  assumes "ready 1 s"
  shows "grows 1 s (push_cell (mk_cell TNUMBER 0 (to_long n)) s)"
    "datum_at (push_cell (mk_cell TNUMBER 0 (to_long n)) s) (DNum (to_long n)) (g_free s)"
  using assms by (simp_all add: ready_def datum_at_def is_long_to_long)

lemma minus_ok:
  assumes "numbers_at s p (n # ns)" "ready 1 s"
  shows "minus p s = Some (Inr (g_free s),
    push_cell (mk_cell TNUMBER 0 (to_long (if ns = [] then - n else n - sum_list ns))) s)"
proof -
  obtain c where c: "p \<noteq> cell_nil" "lookup s p = Some c" "ctype c = TPAIR" "number_at s (ccar c) n"
    "numbers_at s (ccdr c) ns" using assms(1) by (auto simp: numbers_at_Cons)
  have n: "is_long n" using c(4) by (auto simp: number_at_def)
  have "foldl (\<lambda>n v. to_long (n - v)) (to_long k) vs = to_long (k - sum_list vs)" for k vs
  proof (induction vs arbitrary: k)
    case (Cons v vs)
    have "to_long (to_long k - v) = to_long (k - v)"
      by (rule to_long_cong) (metis mod_diff_left_eq to_long_mod_eq)
    then show ?case using Cons.IH [of "k - v"] by (simp add: algebra_simps)
  qed simp
  from this [of n ns] have "foldl (\<lambda>n v. to_long (n - v)) n ns = to_long (n - sum_list ns)"
    using n by (simp add: to_long_id)
  moreover have "ccdr c = cell_nil \<longleftrightarrow> ns = []"
    using c(5) by (cases ns) (auto simp: numbers_at_Cons)
  ultimately show ?thesis
    using number_steps [OF c(2-4)] fold_numbers_ok [OF c(5)] assms(2)
    by (auto simp: minus_def ready_def)
qed

section \<open>The C functions behind them\<close>

text \<open>How the arguments are handed over: a function of arity -1 takes the list itself.\<close>

definition prim_args :: "prim \<Rightarrow> addr \<Rightarrow> addr list \<Rightarrow> addr list" where
  "prim_args p args as = (if prim_arity p = -1 then [args] else as)"

definition implements :: "(addr list \<Rightarrow> addr mes) \<Rightarrow> prim \<Rightarrow> bool" where
  "implements f p \<longleftrightarrow> (\<forall>ds as d n args s. prim_value p ds = Some (d, n) \<longrightarrow> list_at s args as
     \<longrightarrow> list_all2 (datum_at s) ds as \<longrightarrow> ready n s
     \<longrightarrow> (\<exists>a t. f (prim_args p args as) s = Some (Inr a, t) \<and> grows n s t \<and> datum_at t d a))"

lemma implementsI:
  assumes "\<And>ds as d n args s. prim_value p ds = Some (d, n) \<Longrightarrow> list_at s args as
     \<Longrightarrow> list_all2 (datum_at s) ds as \<Longrightarrow> ready n s
     \<Longrightarrow> \<exists>a t. f (prim_args p args as) s = Some (Inr a, t) \<and> grows n s t \<and> datum_at t d a"
  shows "implements f p"
  using assms unfolding implements_def by blast

lemma one_arg: "list_all2 P [d] as \<Longrightarrow> \<exists>a. as = [a] \<and> P d a"
  by (auto simp: list_all2_Cons1)

lemma two_args: "list_all2 P [d, e] as \<Longrightarrow> \<exists>a b. as = [a, b] \<and> P d a \<and> P e b"
  by (auto simp: list_all2_Cons1)

lemmas prim_call = prim_args_def prim_arity_def

text \<open>A test of its arguments allocates nothing.\<close>

lemma implements_test:
  assumes "\<And>ds d n. prim_value p ds = Some (d, n) \<Longrightarrow> n = 0 \<and> d = truth (test ds)"
    and "\<And>ds as args s. prim_value p ds = Some (truth (test ds), 0) \<Longrightarrow> list_at s args as \<Longrightarrow> list_all2 (datum_at s) ds as \<Longrightarrow> specials_ok s
      \<Longrightarrow> f (prim_args p args as) s = Some (Inr (if test ds then cell_t else cell_f), s)"
  shows "implements f p"
proof (rule implementsI)
  fix ds as d n args s
  assume a: "prim_value p ds = Some (d, n)" "list_at s args as" "list_all2 (datum_at s) ds as" "ready n s"
  have d: "d = truth (test ds)" "n = 0"
    using assms(1) [OF a(1)] by simp_all
  then show "\<exists>a t. f (prim_args p args as) s = Some (Inr a, t) \<and> grows n s t \<and> datum_at t d a"
    using assms(2) [of ds s args as] a truth_at [of s "test ds"] grows_refl [of s 0]
    by (intro exI [of _ "if test ds then cell_t else cell_f"] exI [of _ s]) (auto simp: ready_def)
qed

text \<open>An arithmetic operation gives a fresh number.\<close>

lemma implements_number:
  assumes "\<And>ds d n. prim_value p ds = Some (d, n) \<Longrightarrow> \<exists>v. n = 1 \<and> d = DNum (to_long v)
      \<and> (\<forall>as args s. list_at s args as \<longrightarrow> list_all2 (datum_at s) ds as \<longrightarrow> ready 1 s
          \<longrightarrow> f (prim_args p args as) s = Some (Inr (g_free s), push_cell (mk_cell TNUMBER 0 (to_long v)) s))"
  shows "implements f p"
proof (rule implementsI)
  fix ds as d n args s
  assume a: "prim_value p ds = Some (d, n)" "list_at s args as" "list_all2 (datum_at s) ds as" "ready n s"
  obtain v where v: "n = 1" "d = DNum (to_long v)"
    "f (prim_args p args as) s = Some (Inr (g_free s), push_cell (mk_cell TNUMBER 0 (to_long v)) s)"
    using assms [OF a(1)] a(2-4) by blast
  then show "\<exists>a t. f (prim_args p args as) s = Some (Inr a, t) \<and> grows n s t \<and> datum_at t d a"
    using fresh_number [of s v] a(4) by blast
qed

definition fun1 :: "(addr \<Rightarrow> addr mes) \<Rightarrow> addr list \<Rightarrow> addr mes" where
  "fun1 f as = f (as ! 0)"

definition fun2 :: "(addr \<Rightarrow> addr \<Rightarrow> addr mes) \<Rightarrow> addr list \<Rightarrow> addr mes" where
  "fun2 f as = f (as ! 0) (as ! 1)"

lemma cons_implements: "implements (fun2 cons) PCons"
proof (rule implementsI)
  fix ds as d n args s
  assume a: "prim_value PCons ds = Some (d, n)" "list_all2 (datum_at s) ds as" "ready n s"
  obtain x y where d: "ds = [x, y]" "d = DPair x y" "n = 1"
    using a(1) by (auto split: list.splits)
  obtain u v where u: "as = [u, v]" "datum_at s x u" "datum_at s y v"
    using two_args [of "datum_at s" x y as] a(2) d(1) by auto
  let ?t = "push_cell (mk_cell TPAIR u v) s"
  have "fun2 cons (prim_args PCons args as) s = Some (Inr (g_free s), ?t)" "grows n s ?t"
    using a(3) d u by (simp_all add: fun2_def prim_call ready_def)
  moreover have "datum_at ?t d (g_free s)"
    using datum_at_extends [OF extends_push_cell] u(2,3) d(2) by simp
  ultimately show "\<exists>a t. fun2 cons (prim_args PCons args as) s = Some (Inr a, t) \<and> grows n s t \<and> datum_at t d a"
    by blast
qed

lemma car_implements: "implements (fun1 car) PCar"
proof (rule implementsI)
  fix ds as d n args s
  assume a: "prim_value PCar ds = Some (d, n)" "list_all2 (datum_at s) ds as" "ready n s"
  obtain y where d: "ds = [DPair d y]" "n = 0"
    using a(1) by (auto split: list.splits datum.splits)
  then obtain u c where u: "as = [u]" "lookup s u = Some c" "ctype c = TPAIR" "datum_at s d (ccar c)"
    using one_arg [of "datum_at s" "DPair d y" as] a(2) by auto
  then show "\<exists>a t. fun1 car (prim_args PCar args as) s = Some (Inr a, t) \<and> grows n s t \<and> datum_at t d a"
    using d a(3) by (intro exI [of _ "ccar c"] exI [of _ s]) (auto simp: fun1_def prim_call car_def ready_def)
qed

lemma cdr_implements: "implements (fun1 cdr) PCdr"
proof (rule implementsI)
  fix ds as d n args s
  assume a: "prim_value PCdr ds = Some (d, n)" "list_all2 (datum_at s) ds as" "ready n s"
  obtain x where d: "ds = [DPair x d]" "n = 0"
    using a(1) by (auto split: list.splits datum.splits)
  then obtain u c where u: "as = [u]" "lookup s u = Some c" "ctype c = TPAIR" "datum_at s d (ccdr c)"
    using one_arg [of "datum_at s" "DPair x d" as] a(2) by auto
  then show "\<exists>a t. fun1 cdr (prim_args PCdr args as) s = Some (Inr a, t) \<and> grows n s t \<and> datum_at t d a"
    using d a(3) by (intro exI [of _ "ccdr c"] exI [of _ s]) (auto simp: fun1_def prim_call cdr_def ready_def)
qed

lemma list_implements: "implements (fun1 list_proc) PList"
proof (rule implementsI)
  fix ds as d n args s
  assume a: "prim_value PList ds = Some (d, n)" "list_at s args as" "list_all2 (datum_at s) ds as" "ready n s"
  then show "\<exists>a t. fun1 list_proc (prim_args PList args as) s = Some (Inr a, t) \<and> grows n s t \<and> datum_at t d a"
    using list_datum_at [of s args as ds]
    by (intro exI [of _ args] exI [of _ s]) (auto simp: fun1_def prim_call list_proc_def ready_def)
qed

lemma null_implements: "implements (fun1 null_p) PNull"
proof (rule implements_test [where test = "\<lambda>ds. hd ds = DAtom cell_nil"])
  fix ds as args s
  assume a: "prim_value PNull ds = Some (truth (hd ds = DAtom cell_nil), 0)" "list_all2 (datum_at s) ds as" "specials_ok s"
  obtain x where d: "ds = [x]"
    using a(1) by (auto split: list.splits)
  then obtain u where u: "as = [u]" "datum_at s x u"
    using one_arg [of "datum_at s" x as] a(2) by auto
  have "u = cell_nil \<longleftrightarrow> x = DAtom cell_nil"
  proof
    assume "u = cell_nil"
    then show "x = DAtom cell_nil"
      using u(2) special_datum [OF a(3), of cell_nil] repr_unique(1) [of s x u] by (simp add: datum_at_def cells)
  next
    assume "x = DAtom cell_nil"
    then show "u = cell_nil"
      using u(2) by (simp add: datum_at_def)
  qed
  then show "fun1 null_p (prim_args PNull args as) s = Some (Inr (if hd ds = DAtom cell_nil then cell_t else cell_f), s)"
    using d u(1) by (simp add: fun1_def prim_call null_p_def)
qed (auto split: list.splits)

lemma pair_implements: "implements (fun1 pair_p) PPair"
proof (rule implements_test [where test = "\<lambda>ds. is_pair (hd ds)"])
  fix ds as args s
  assume a: "prim_value PPair ds = Some (truth (is_pair (hd ds)), 0)" "list_all2 (datum_at s) ds as"
  obtain x where d: "ds = [x]"
    using a(1) by (auto split: list.splits)
  then obtain u where u: "as = [u]" "datum_at s x u"
    using one_arg [of "datum_at s" x as] a(2) by auto
  obtain c where "lookup s u = Some c" "ctype c = TPAIR \<longleftrightarrow> is_pair x"
    using datum_at_type [OF u(2)] by (cases x) auto
  then show "fun1 pair_p (prim_args PPair args as) s = Some (Inr (if is_pair (hd ds) then cell_t else cell_f), s)"
    using d u by (simp add: fun1_def prim_call pair_p_def)
qed (auto split: list.splits)

lemma eq_implements: "implements (fun2 eq_p) PEq"
proof (rule implements_test [where test = "\<lambda>ds. hd ds = hd (tl ds)"])
  fix ds as args s
  assume a: "prim_value PEq ds = Some (truth (hd ds = hd (tl ds)), 0)" "list_all2 (datum_at s) ds as"
  obtain x y where d: "ds = [x, y]" "comparable x"
    using a(1) by (auto split: list.splits if_splits)
  then obtain u v where u: "as = [u, v]" "datum_at s x u" "datum_at s y v"
    using two_args [of "datum_at s" x y as] a(2) by auto
  show "fun2 eq_p (prim_args PEq args as) s = Some (Inr (if hd ds = hd (tl ds) then cell_t else cell_f), s)"
  proof -
    have "\<not> (\<exists>a b. x = DPair a b)" "\<not> (\<exists>bs. x = DStr bs)" "\<not> (\<exists>ds. x = DVec ds)"
      using d(2) by auto
    then show ?thesis
      using eq_p_correct [of s x u y v] d(1) u by (simp add: fun2_def prim_call datum_at_def)
  qed
qed (auto split: list.splits if_splits)

lemma equal_implements: "implements (fun2 equal2_p) PEqual"
proof (rule implements_test [where test = "\<lambda>ds. hd ds = hd (tl ds)"])
  fix ds as args s
  assume a: "prim_value PEqual ds = Some (truth (hd ds = hd (tl ds)), 0)" "list_all2 (datum_at s) ds as"
  obtain x y where d: "ds = [x, y]"
    using a(1) by (auto split: list.splits)
  then obtain u v where u: "as = [u, v]" "datum_at s x u" "datum_at s y v"
    using two_args [of "datum_at s" x y as] a(2) by auto
  show "fun2 equal2_p (prim_args PEqual args as) s = Some (Inr (if hd ds = hd (tl ds) then cell_t else cell_f), s)"
    using equal2_p_repr [of s x u y v] d u by (simp add: fun2_def prim_call datum_at_def)
qed (auto split: list.splits)

lemma length_implements: "implements (fun1 length_proc) PLength"
proof (rule implements_number)
  fix ds d n
  assume p: "prim_value PLength ds = Some (d, n)"
  then obtain x es where d: "ds = [x]" "elements x = Some es" "d = DNum (to_long (int (length es)))" "n = 1"
    "to_long (int (length es)) = int (length es)"
    by (auto simp: to_long_id is_long_def split: list.splits option.splits if_splits)
  have "fun1 length_proc (prim_args PLength args as) s
      = Some (Inr (g_free s), push_cell (mk_cell TNUMBER 0 (to_long (int (length es)))) s)"
    if l: "list_all2 (datum_at s) ds as" and r: "ready 1 s" for as args s
  proof -
    obtain u where u: "as = [u]" "datum_at s x u"
      using one_arg [of "datum_at s" x as] l d(1) by auto
    obtain xs where "list_at s u xs" "list_all2 (datum_at s) es xs"
      using elements_at [OF _ d(2) u(2)] r by (auto simp: ready_def)
    then show ?thesis
      using u(1) r list_all2_lengthD [of "datum_at s" es xs] d(5)
      by (simp add: fun1_def prim_call length_proc_def ready_def)
  qed
  then show "\<exists>v. n = 1 \<and> d = DNum (to_long v) \<and> (\<forall>as args s. list_at s args as \<longrightarrow> list_all2 (datum_at s) ds as \<longrightarrow> ready 1 s
      \<longrightarrow> fun1 length_proc (prim_args PLength args as) s = Some (Inr (g_free s), push_cell (mk_cell TNUMBER 0 (to_long v)) s))"
    using d(3,4) by blast
qed

lemma append_implements: "implements (fun2 append2) PAppend"
proof (rule implementsI)
  fix ds as d n args s
  assume a: "prim_value PAppend ds = Some (d, n)" "list_all2 (datum_at s) ds as" "ready n s"
  obtain x y es fs where d: "ds = [x, y]" "elements x = Some es" "elements y = Some fs"
    "d = list_datum (es @ fs)" "n = int (length es)"
    using a(1) by (auto split: list.splits option.splits)
  then obtain u v where u: "as = [u, v]" "datum_at s x u" "datum_at s y v"
    using two_args [of "datum_at s" x y as] a(2) by auto
  have ok: "specials_ok s" "arena_ok s" "room (int (length es)) s"
    using a(3) d(5) by (simp_all add: ready_def)
  obtain xs where xs: "list_at s u xs" "list_all2 (datum_at s) es xs"
    using elements_at [OF ok(1) d(2) u(2)] by blast
  obtain ys where ys: "list_at s v ys" "list_all2 (datum_at s) fs ys"
    using elements_at [OF ok(1) d(3) u(3)] by blast
  have len: "length xs = length es"
    using list_all2_lengthD [OF xs(2)] by simp
  obtain t r where t: "append2 u v s = Some (Inr r, t)" "grows n s t" "list_at t r (xs @ ys)"
    using append2_ok [OF xs(1) ys(1) ok(2) _ ok(1)] ok(3) len d(5) by auto
  have "list_all2 (datum_at t) (es @ fs) (xs @ ys)"
    using xs(2) ys(2) list_datum_at_extends [OF growsD(1) [OF t(2)]] by (auto intro: list_all2_appendI)
  moreover have "specials_ok t"
    using specials_ok_extends [OF growsD(1) [OF t(2)] ok(1)] .
  ultimately have "datum_at t d r"
    using list_datum_at [OF _ t(3)] d(4) by simp
  then show "\<exists>a t. fun2 append2 (prim_args PAppend args as) s = Some (Inr a, t) \<and> grows n s t \<and> datum_at t d a"
    using t(1,2) u(1) by (auto simp: fun2_def prim_call)
qed

text \<open>The operations on lists of numbers.\<close>

lemma implements_arithmetic:
  assumes "prim_arity p = -1"
    and "\<And>ds d n. prim_value p ds = Some (d, n) \<Longrightarrow> \<exists>ns v. numbers ds = Some ns \<and> g ns = Some v \<and> n = 1 \<and> d = DNum (to_long v)"
    and "\<And>ns v args s. g ns = Some v \<Longrightarrow> numbers_at s args ns \<Longrightarrow> ready 1 s
      \<Longrightarrow> f args s = Some (Inr (g_free s), push_cell (mk_cell TNUMBER 0 (to_long v)) s)"
  shows "implements (fun1 f) p"
proof (rule implements_number)
  fix ds d n
  assume "prim_value p ds = Some (d, n)"
  then obtain ns v where v: "numbers ds = Some ns" "g ns = Some v" "n = 1" "d = DNum (to_long v)"
    using assms(2) by blast
  have "fun1 f (prim_args p args as) s = Some (Inr (g_free s), push_cell (mk_cell TNUMBER 0 (to_long v)) s)"
    if "list_at s args as" "list_all2 (datum_at s) ds as" "ready 1 s" for as args s
    using assms(1) assms(3) [OF v(2) numbers_at_list [OF that(1,2) v(1)] that(3)] by (simp add: fun1_def prim_args_def)
  then show "\<exists>v. n = 1 \<and> d = DNum (to_long v) \<and> (\<forall>as args s. list_at s args as \<longrightarrow> list_all2 (datum_at s) ds as \<longrightarrow> ready 1 s
      \<longrightarrow> fun1 f (prim_args p args as) s = Some (Inr (g_free s), push_cell (mk_cell TNUMBER 0 (to_long v)) s))"
    using v(3,4) by blast
qed

lemma plus_implements: "implements (fun1 plus) PPlus"
  by (rule implements_arithmetic [where g = "\<lambda>ns. Some (sum_list ns)"])
    (auto simp: prim_arity_def ready_def plus_ok)

lemma times_implements: "implements (fun1 multiply) PTimes"
  by (rule implements_arithmetic [where g = "\<lambda>ns. Some (prod_list ns)"])
    (auto simp: prim_arity_def ready_def multiply_ok)

lemma minus_implements: "implements (fun1 minus) PMinus"
proof (rule implements_arithmetic [where g = "\<lambda>ns. case ns of [] \<Rightarrow> None | n # ms \<Rightarrow> Some (if ms = [] then - n else n - sum_list ms)"])
  fix ns :: "int list" and v args s
  assume a: "(case ns of [] \<Rightarrow> None | n # ms \<Rightarrow> Some (if ms = [] then - n else n - sum_list ms)) = Some v"
    "numbers_at s args ns" "ready 1 s"
  then show "minus args s = Some (Inr (g_free s), push_cell (mk_cell TNUMBER 0 (to_long v)) s)"
    using minus_ok [of s args "hd ns" "tl ns"] by (cases ns) auto
qed (auto simp: prim_arity_def split: option.splits list.splits)

text \<open>The comparisons.\<close>

lemma implements_comparison:
  assumes "prim_arity p = -1" "\<And>ds. prim_value p ds = map_option (\<lambda>ns. (truth (g ns), 0)) (numbers ds)"
    and "\<And>ns args s. numbers_at s args ns \<Longrightarrow> f args s = Some (Inr (if g ns then cell_t else cell_f), s)"
  shows "implements (fun1 f) p"
proof (rule implements_test [where test = "\<lambda>ds. g (the (numbers ds))"])
  fix ds as args s
  assume a: "prim_value p ds = Some (truth (g (the (numbers ds))), 0)" "list_at s args as" "list_all2 (datum_at s) ds as"
  then obtain ns where n: "numbers ds = Some ns"
    by (auto simp: assms(2))
  show "fun1 f (prim_args p args as) s = Some (Inr (if g (the (numbers ds)) then cell_t else cell_f), s)"
    using assms(1) assms(3) [OF numbers_at_list [OF a(2,3) n]] n by (simp add: fun1_def prim_args_def)
qed (auto simp: assms(2))

lemma less_implements: "implements (fun1 less_p) PLess"
  by (rule implements_comparison [where g = "sorted_wrt (<)"]) (simp_all add: prim_arity_def less_p_ok)

lemma greater_implements: "implements (fun1 greater_p) PGreater"
  by (rule implements_comparison [where g = "sorted_wrt (>)"]) (simp_all add: prim_arity_def greater_p_ok)

section \<open>Applying a primitive\<close>

lemma list_pair:
  assumes "list_at s p (x # xs)"
  shows "\<exists>d. lookup s p = Some (mk_cell TPAIR x d) \<and> p \<noteq> cell_nil \<and> list_at s d xs"
proof -
  obtain c where c: "p \<noteq> cell_nil" "lookup s p = Some c" "ctype c = TPAIR" "ccar c = x" "list_at s (ccdr c) xs"
    using assms by (auto simp: list_at_Cons)
  have "mk_cell TPAIR x (ccdr c) = c"
    using mk_cell_surjective [of c] c(3,4) by simp
  with c show ?thesis by metis
qed

text \<open>A primitive object with its arity and the address of its C function.\<close>

definition builtin_at :: "mst \<Rightarrow> addr \<Rightarrow> int \<Rightarrow> int \<Rightarrow> bool" where
  "builtin_at s b arity f \<longleftrightarrow> symbol_cell s cell_symbol_builtin \<and> (\<exists>v es. slots_at TSTRUCT s b v es \<and> length es = 6
     \<and> es ! 2 = mk_cell TREF cell_symbol_builtin 0 \<and> ctype (es ! 4) = TNUMBER \<and> ccdr (es ! 4) = arity
     \<and> ctype (es ! 5) = TNUMBER \<and> ccdr (es ! 5) = f)"

lemma builtin_at_extends: "extends s t \<Longrightarrow> builtin_at s b n f \<Longrightarrow> builtin_at t b n f"
proof -
  assume e: "extends s t" and "builtin_at s b n f"
  then obtain v es where v: "symbol_cell s cell_symbol_builtin" "slots_at TSTRUCT s b v es" "length es = 6"
    "es ! 2 = mk_cell TREF cell_symbol_builtin 0" "ctype (es ! 4) = TNUMBER" "ccdr (es ! 4) = n"
    "ctype (es ! 5) = TNUMBER" "ccdr (es ! 5) = f"
    by (auto simp: builtin_at_def)
  then show "builtin_at t b n f"
    unfolding builtin_at_def
    by (intro conjI exI [of _ v] exI [of _ es] symbol_cell_extends [OF e] slots_at_extends [OF e])
qed

lemma builtin_at_type: "builtin_at s b n f \<Longrightarrow> \<exists>c. lookup s b = Some c \<and> ctype c = TSTRUCT"
  by (auto simp: builtin_at_def slots_at_def)

lemma builtin_p_ok:
  assumes "builtin_at s b n f"
  shows "builtin_p b s = Some (Inr cell_t, s)"
proof -
  obtain v es c where v: "slots_at TSTRUCT s b v es" "length es = 6" "es ! 2 = mk_cell TREF cell_symbol_builtin 0"
    "lookup s cell_symbol_builtin = Some c" "ctype c = TSYMBOL"
    using assms by (auto simp: builtin_at_def symbol_cell_def)
  have "struct_ref_c b (int 2) s = Some (Inr cell_symbol_builtin, s)"
    by (rule struct.ref_object [OF v(1) _ _ v(4)]) (simp_all add: v entry_for_def entry_cell_def immediate_def)
  then show ?thesis
    using builtin_at_type [OF assms] by (auto simp: builtin_p_def)
qed

lemma builtin_number:
  assumes "slots_at TSTRUCT s b v es" "i < length es" "ctype (es ! i) = TNUMBER" "ready 1 s"
  shows "struct_ref_c b (int i) s = Some (Inr (g_free s), push_cell (mk_cell TNUMBER 0 (ccdr (es ! i))) s)"
  using struct.ref_immediate [OF assms(1,2), of 0 "es ! i"] assms(3,4)
  by (simp add: entry_for_def entry_cell_def immediate_def ready_def)

lemma builtin_arity_ok:
  assumes "builtin_at s b n f" "ready 1 s"
  shows "builtin_arity b s = Some (Inr (g_free s), push_cell (mk_cell TNUMBER 0 n) s)"
proof -
  obtain v es where v: "slots_at TSTRUCT s b v es" "length es = 6" "ctype (es ! 4) = TNUMBER" "ccdr (es ! 4) = n"
    using assms(1) by (auto simp: builtin_at_def)
  show ?thesis
    using builtin_number [OF v(1) _ v(3) assms(2)] v(2,4) by (simp add: builtin_arity_def)
qed

lemma builtin_function_ok:
  assumes "builtin_at s b n f" "ready 1 s"
  shows "builtin_function b s = Some (Inr f, push_cell (mk_cell TNUMBER 0 f) s)"
proof -
  obtain v es where v: "slots_at TSTRUCT s b v es" "length es = 6" "ctype (es ! 5) = TNUMBER" "ccdr (es ! 5) = f"
    using assms(1) by (auto simp: builtin_at_def)
  show ?thesis
    using builtin_number [OF v(1) _ v(3) assms(2)] v(2,4) by (simp add: builtin_function_def)
qed

text \<open>No argument is a multiple value.\<close>

lemma first_value_ok:
  assumes "list_at s args as" "list_all2 (datum_at s) ds as"
  shows "first_value n args s = Some (Inr args, s)"
proof (cases as)
  case Nil
  with assms show ?thesis by (simp add: first_value_def)
next
  case (Cons a as')
  then obtain d where "lookup s args = Some (mk_cell TPAIR a d)"
    using list_pair assms(1) by blast
  moreover obtain e c where "datum_at s e a" "lookup s a = Some c" "ctype c \<noteq> TVALUES"
    using assms(2) Cons datum_at_type by (fastforce simp: list_all2_Cons2)
  ultimately show ?thesis by (simp add: first_value_def)
qed

lemma second_value_ok:
  assumes "list_at s args as" "list_all2 (datum_at s) ds as" "specials_ok s"
  shows "second_value n args s = Some (Inr args, s)"
proof (cases as)
  case Nil
  with assms show ?thesis by (simp add: second_value_def)
next
  case (Cons a as')
  then obtain d where d: "lookup s args = Some (mk_cell TPAIR a d)" "list_at s d as'"
    using list_pair assms(1) by blast
  show ?thesis
  proof (cases as')
    case Nil
    then have "d = cell_nil" using d(2) by simp
    moreover obtain c where "heap s cell_nil = Some c" "ctype c = TSPECIAL"
      using specials_okD [OF assms(3), of cell_nil] by (auto simp: cells)
    ultimately show ?thesis using d(1) by (simp add: second_value_def)
  next
    case (Cons b as'')
    then obtain d' where "lookup s d = Some (mk_cell TPAIR b d')"
      using list_pair d(2) by blast
    moreover obtain e c where "datum_at s e b" "lookup s b = Some c" "ctype c \<noteq> TVALUES"
      using assms(2) \<open>as = a # as'\<close> Cons datum_at_type by (fastforce simp: list_all2_Cons2)
    ultimately show ?thesis using d(1) by (simp add: second_value_def)
  qed
qed

lemma with_error_ok: "p s = Some (Inr a, t) \<Longrightarrow> with_error W p s = Some (Inr a, t)"
  by (simp add: with_error_def)

text \<open>The number of arguments of a primitive with a value.\<close>

lemma prim_arity_args:
  assumes "prim_value p ds = Some (d, n)"
  shows "prim_arity p = -1 \<or> prim_arity p = int (length ds) \<and> (length ds = 1 \<or> length ds = 2)"
  using assms by (cases p) (auto simp: prim_arity_def split: list.splits datum.splits)

lemma apply_builtin_ok:
  assumes "builtin_at s b (prim_arity p) f" "implements (call_function W f) p" "prim_value p ds = Some (d, n)"
    and "list_at s args as" "list_all2 (datum_at s) ds as" "ready (2 + n) s" "0 \<le> n"
  shows "\<exists>a t. apply_builtin W b args s = Some (Inr a, t) \<and> grows (2 + n) s t \<and> datum_at t d a"
proof -
  let ?s1 = "push_cell (mk_cell TNUMBER 0 (prim_arity p)) s"
  let ?s2 = "push_cell (mk_cell TNUMBER 0 f) ?s1"
  have r: "ready 1 s" "specials_ok s" "arena_ok s"
    using assms(6,7) by (auto simp: ready_def room_def)
  have g1: "grows 1 s ?s1" using r(3) by simp
  have r1: "ready (1 + n) ?s1" by (rule grows_ready [OF g1]) (use assms(6) in simp)
  then have r1': "ready 1 ?s1" "specials_ok ?s1" "arena_ok ?s1" using assms(7) by (auto simp: ready_def room_def)
  have g2: "grows 1 ?s1 ?s2" using r1'(3) by simp
  have r2: "ready n ?s2" by (rule grows_ready [OF g2 r1])
  note e1 = growsD(1) [OF g1] and e2 = growsD(1) [OF g2]
  note l1 = list_at_extends [OF e1 assms(4)] and d1 = list_datum_at_extends [OF e1 assms(5)]
  obtain a t where t: "call_function W f (prim_args p args as) ?s2 = Some (Inr a, t)" "grows n ?s2 t" "datum_at t d a"
    using assms(2,3) r2 list_at_extends [OF e2 l1] list_datum_at_extends [OF e2 d1] unfolding implements_def by blast
  have len: "length as = length ds"
    using list_all2_lengthD [OF assms(5)] by simp
  have fn: "builtin_function b ?s1 = Some (Inr f, ?s2)"
    by (rule builtin_function_ok [OF builtin_at_extends [OF e1 assms(1)] r1'(1)])
  have call: "mbind (builtin_function b) (\<lambda>f. call_function W f (prim_args p args as)) ?s1 = Some (Inr a, t)"
    using fn t(1) by simp
  have vals: "first_value k args ?s1 = Some (Inr args, ?s1)" "second_value k args ?s1 = Some (Inr args, ?s1)" for k
    using first_value_ok [OF l1 d1] second_value_ok [OF l1 d1 r1'(2)] by simp_all
  have ar: "builtin_arity b s = Some (Inr (g_free s), ?s1)"
    by (rule builtin_arity_ok [OF assms(1) r(1)])
  have ints: "to_int (- 1) = - 1" "to_int 1 = 1" "to_int 2 = 2"
    by (simp_all add: to_int_id is_int_def)
  consider "prim_arity p = -1" | x where "prim_arity p = 1" "as = [x]" | x y where "prim_arity p = 2" "as = [x, y]"
    using prim_arity_args [OF assms(3)] len by (cases as; cases "tl as") auto
  then have "apply_builtin W b args s = Some (Inr a, t)"
  proof cases
    case 1
    then show ?thesis
      using ar vals with_error_ok [of "apply_builtin1 (call_function W) b args" ?s1 a t W] call unfolding apply_builtin_def
      by (simp add: Let_def ints apply_builtin1_def prim_args_def)
  next
    case 2
    then obtain d' where "lookup ?s1 args = Some (mk_cell TPAIR x d')"
      using list_pair l1 by blast
    then show ?thesis
      using 2 ar vals with_error_ok [of "mbind (get_car args) (apply_builtin1 (call_function W) b)" ?s1 a t W] call unfolding apply_builtin_def
      by (simp add: Let_def ints apply_builtin1_def prim_args_def)
  next
    case 3
    then obtain d' where d': "lookup ?s1 args = Some (mk_cell TPAIR x d')" "list_at ?s1 d' [y]"
      using list_pair l1 by blast
    then obtain d'' where "lookup ?s1 d' = Some (mk_cell TPAIR y d'')"
      using list_pair by blast
    then have "mbind (get_car args) (\<lambda>a. mbind (a_car (get_cdr args)) (apply_builtin2 (call_function W) b a)) ?s1 = Some (Inr a, t)"
      using 3 d'(1) call by (simp add: apply_builtin2_def prim_args_def)
    from with_error_ok [of "mbind (get_car args) (\<lambda>a. mbind (a_car (get_cdr args)) (apply_builtin2 (call_function W) b a))" ?s1 a t W, OF this]
    show ?thesis
      using 3 ar vals unfolding apply_builtin_def by (simp add: Let_def ints)
  qed
  moreover have "grows (1 + 1 + n) s t"
    by (rule grows_trans [OF grows_trans [OF g1 g2] t(2)])
  ultimately show ?thesis
    using t(3) by auto
qed

lemma prim_value_nonneg: "prim_value p ds = Some (d, n) \<Longrightarrow> 0 \<le> n"
  by (cases p) (auto split: list.splits option.splits datum.splits if_splits)

text \<open>A primitive in operator position gives its value.\<close>

lemma apply_builtin_step:
  assumes "lookup s (R1 s) = Some (mk_cell TPAIR b args)" "heap s b = Some c" "ctype c = TSTRUCT" "stack_ok s (g_stack s + 4)"
    and "builtin_p b (procedure_noted b s) = Some (Inr cell_t, procedure_noted b s)"
    and "builtin_arity b (procedure_noted b s) = Some (Inr n, t)" "check_formals W b n args t = Some (Inr cell_unspecified, t)"
    and "heap t (R1 t) = Some (mk_cell TPAIR b args)" "apply_builtin W b args t = Some (Inr a, u)"
  shows "eval_step W Apply s = Some (Inr (Goto Vm_return), u\<lparr>R1 := a\<rparr>)"
  using assms by (simp add: step_apply_def GC_FRAME_PROCEDURE_def give_def procedure_noted_def)

lemma apply_prim_ok:
  assumes form: "lookup s (R1 s) = Some (mk_cell TPAIR b args)"
    and prim: "builtin_at s b (prim_arity p) f" "implements (call_function W f) p" "prim_value p ds = Some (d, n)"
    and args: "list_at s args as" "list_all2 (datum_at s) ds as" and room: "stack_room s" "ready (3 + n) s"
  shows "\<exists>a t. gives W Apply s a t \<and> spends (3 + n) s t \<and> datum_at t d a"
proof -
  let ?s = "procedure_noted b s"
  let ?t = "push_cell (mk_cell TNUMBER 0 (prim_arity p)) ?s"
  have n: "0 \<le> n" by (rule prim_value_nonneg [OF prim(3)])
  have e: "extends s ?s" by simp
  have b: "builtin_at ?s b (prim_arity p) f"
    by (rule builtin_at_extends [OF e prim(1)])
  have r: "ready 1 ?s" "arena_ok ?s"
    using room(2) n by (auto simp: ready_def room_def arena_ok_def procedure_noted_def specials_ok_def lookup_def)
  have g: "grows 1 ?s ?t" using r(2) by simp
  have "ready (3 + n) ?s"
    using room(2) by simp
  then have rt: "ready (2 + n) ?t"
    using grows_ready [OF g, of "2 + n"] by (simp add: algebra_simps)
  have et: "extends s ?t"
    by (rule extends_trans [OF e growsD(1) [OF g]])
  have at: "list_at ?t args as"
    by (rule list_at_extends [OF et args(1)])
  obtain a u where u: "apply_builtin W b args ?t = Some (Inr a, u)" "grows (2 + n) ?t u" "datum_at u d a"
    using apply_builtin_ok [OF builtin_at_extends [OF et prim(1)] prim(2,3) at list_datum_at_extends [OF et args(2)] rt n] by blast
  have len: "length as = length ds"
    using list_all2_lengthD [OF args(2)] by simp
  have "check_formals W b (g_free ?s) args ?t = Some (Inr cell_unspecified, ?t)"
    using length_c_list [OF at] prim_arity_args [OF prim(3)] len by (auto simp: check_formals_def)
  moreover obtain c where c: "heap s b = Some c" "ctype c = TSTRUCT"
    using builtin_at_type [OF prim(1)] by auto
  moreover have "stack_ok s (g_stack s + 4)"
    using room(1) by (simp add: stack_room_def stack_ok_def)
  moreover have "heap ?t (R1 s) = Some (mk_cell TPAIR b args)"
    using extends_lookup [OF et form] by simp
  then have "heap ?t (R1 ?t) = Some (mk_cell TPAIR b args)" by simp
  ultimately have step: "eval_step W Apply s = Some (Inr (Goto Vm_return), u\<lparr>R1 := a\<rparr>)"
    using apply_builtin_step [OF form _ _ _ builtin_p_ok [OF b] builtin_arity_ok [OF b r(1)] _ _ u(1)] by blast
  have "spends (1 + (2 + n)) ?s u"
    by (rule spends_trans [OF grows_spends [OF g] grows_spends [OF u(2)]])
  then have "spends (3 + n) s u"
    by (simp add: algebra_simps)
  moreover have "below s (u\<lparr>R1 := a\<rparr>)"
    using growsD(17-19) [OF u(2)] by (simp add: below_def procedure_noted_def)
  moreover have "gives W Vm_return (u\<lparr>R1 := a\<rparr>) a (u\<lparr>R1 := a\<rparr>)"
    using gives_Vm_return [of W "u\<lparr>R1 := a\<rparr>"] by simp
  moreover have "datum_at (u\<lparr>R1 := a\<rparr>) d a"
    by (rule datum_at_extends [OF _ u(3)]) simp
  ultimately show ?thesis
    using gives_go [OF step] by (intro exI [of _ a] exI [of _ "u\<lparr>R1 := a\<rparr>"]) simp
qed

section \<open>Global variables\<close>

lemma variable_at_extends:
  assumes e: "extends s t" and "variable_at s var a"
  shows "variable_at t var a"
proof -
  obtain v es c where v: "slots_at TSTRUCT s var v es" "length es = 4" "lookup s a = Some c" "\<not> immediate (ctype c)"
    "es ! 3 = mk_cell TREF a 0"
    using assms(2) by (auto simp: variable_at_def simp del: lookup_Some)
  then show ?thesis
    unfolding variable_at_def
    by (intro exI [of _ v] exI [of _ es] exI [of _ c] conjI slots_at_extends [OF e] extends_lookup [OF e])
qed

lemma lookup_value_global:
  assumes "frame_at s (R0 s) kvs" "map_of kvs k = None" "symbol_cell s k" "ready 3 s"
    and "M1 s = cell_f" "hash_dict s (M0 s) names m" "names k = Some bs" "m k = Some var" "variable_at s var a"
  shows "\<exists>t. lookup_value W k s = Some (Inr a, t) \<and> grows 3 s t"
proof -
  have ok: "arena_ok s" "specials_ok s" "ready 1 s"
    using assms(4) by (auto simp: ready_def room_def)
  have assq: "assq k (R0 s) s = Some (Inr cell_f, s)"
    using assq_frame [OF assms(1,3) ok(2)] assms(2) by simp
  obtain t where t: "current_module_variable (nested W) k cell_f s = Some (Inr var, t)" "grows 1 s t"
    using current_module_variable_booting [OF assms(5,6,7) ok(3)] assms(8) by auto
  obtain c where "lookup s var = Some c" "ctype c = TSTRUCT"
    using assms(9) by (auto simp: variable_at_def slots_at_def)
  then have var: "var \<noteq> cell_f"
    using specials_ok_f [OF ok(2)] by fastforce
  have rt: "ready 2 t"
    by (rule grows_ready [OF t(2)]) (use assms(4) in simp)
  let ?p = "push_cell (mk_cell TPAIR k var) t"
  let ?u = "push_cell (mk_cell TBINDING (g_free t) 0) ?p"
  have rp: "arena_ok t" "room 1 t" "arena_ok ?p" "room 1 ?p"
    using rt by (auto simp: ready_def room_def)
  have store: "?u\<lparr>heap := (heap ?u)(g_free t + 1 \<mapsto> mk_cell TBINDING (g_free t) 0)\<rparr> = ?u"
    by (simp add: push_cell_def fun_upd_idem)
  have "lookup_binding W k cell_f s = Some (Inr (g_free t + 1), ?u)"
    using assq t(1) var rp store by (simp add: lookup_binding_def make_binding_c_def make_cell_ok)
  moreover have free: "g_free t + 1 \<noteq> cell_f"
    using specials_okD [of t cell_f] rt by (auto simp: ready_def cells)
  moreover have "extends s ?u"
    by (rule extends_trans [OF growsD(1) [OF t(2)] extends_trans [OF extends_push_cell extends_push_cell]])
  then have "variable_at ?u var a"
    using assms(9) by (rule variable_at_extends)
  then have "variable_ref var ?u = Some (Inr a, ?u)"
    by (rule variable_ref_ok)
  ultimately have "lookup_value W k s = Some (Inr a, ?u)"
    by (simp add: lookup_value_def)
  moreover have "grows (1 + 1 + 1) s ?u"
    by (rule grows_trans [OF grows_trans [OF t(2), of 1 ?p]]) (use rp in simp_all)
  ultimately show ?thesis by auto
qed

lemma eval_global:
  assumes "symbol_cell s (R1 s)" "lookup_value W (R1 s) s = Some (Inr v, t)" "grows n s t" "v \<noteq> cell_undefined"
    and "R1 s \<notin> {cell_symbol_current_environment, cell_symbol_begin, cell_symbol_call_with_current_continuation}"
  shows "\<exists>t. gives W Eval s v t \<and> spends n s t"
proof -
  obtain c where c: "lookup s (R1 s) = Some c" "ctype c = TSYMBOL"
    using assms(1) by (auto simp: symbol_cell_def)
  have "eval_step W Eval s = Some (Inr (Goto Vm_return), t\<lparr>R1 := v\<rparr>)"
    using c assms(2,4,5) by (simp add: step_eval_def assert_defined_def give_def)
  moreover have "below s (t\<lparr>R1 := v\<rparr>)" "spends n s (t\<lparr>R1 := v\<rparr>)"
    using growsD(17-19) [OF assms(3)] grows_spends [OF assms(3)] by (auto simp: below_def)
  moreover have "gives W Vm_return (t\<lparr>R1 := v\<rparr>) v (t\<lparr>R1 := v\<rparr>)"
    using gives_Vm_return [of W "t\<lparr>R1 := v\<rparr>"] by simp
  ultimately show ?thesis
    using gives_go by blast
qed

end
