(* ===== verification/Mes_Core.thy ===== *)
theory Mes_Core
  imports Mes_Prims
begin

text \<open>
  A definitional interpreter of the core language (constants, quotation, variables, conditionals,
  \<^verbatim>\<open>lambda\<close> and calls of closures), with its cost in cells and in frames, and the proof that
  the evaluator of eval-apply.c refines it: on the representation of an expression, in a state
  with the cells and the stack that the interpreter asks for, the machine comes back with a
  representation of the value.
\<close>

section \<open>The interpreter\<close>

datatype exp =
    Const datum
  | Quote datum
  | Var addr
  | If exp exp exp
  | Lam "addr list" "exp list"
  | Call exp "exp list"

datatype val = Obj datum | Prim prim | Clo "addr list" "exp list" "(addr \<times> val) list"

text \<open>A result: the value, the cells that are allocated and the frames that are stacked at most.\<close>

type_synonym outcome = "(val \<times> int \<times> int) option"

primrec evals :: "(exp \<Rightarrow> outcome) \<Rightarrow> exp list \<Rightarrow> (val list \<times> int \<times> int) option" where
  "evals f [] = Some ([], 0, 0)"
| "evals f (e # es) = (case f e of None \<Rightarrow> None | Some (v, n, d) \<Rightarrow>
     (case evals f es of None \<Rightarrow> None | Some (vs, n', d') \<Rightarrow> Some (v # vs, n + n' + 1, 1 + max d d')))"

fun bodies :: "(exp \<Rightarrow> outcome) \<Rightarrow> exp list \<Rightarrow> outcome" where
  "bodies f [] = None"
| "bodies f [e] = f e"
| "bodies f (e # es) = (case f e of None \<Rightarrow> None | Some (v, n, d) \<Rightarrow>
     (case bodies f es of None \<Rightarrow> None | Some (w, n', d') \<Rightarrow> Some (w, n + n', max (1 + d) d')))"

fun datum_of :: "val \<Rightarrow> datum option" where
  "datum_of (Obj d) = Some d"
| "datum_of _ = None"

text \<open>
  Application, given what evaluates a body: a primitive takes data, a closure any values. A
  primitive allocates its arity and the address of its function before it is called.
\<close>

fun applied :: "((addr \<times> val) list \<Rightarrow> exp \<Rightarrow> outcome) \<Rightarrow> val \<Rightarrow> val list \<Rightarrow> outcome" where
  "applied f (Obj d) vs = None"
| "applied f (Prim p) vs = (case those (map datum_of vs) of None \<Rightarrow> None | Some ds \<Rightarrow>
     (case prim_value p ds of None \<Rightarrow> None | Some (d, n) \<Rightarrow> Some (Obj d, 3 + n, 0)))"
| "applied f (Clo ks b \<rho>) vs = (if length vs \<noteq> length ks then None
     else (case bodies (f (zip ks vs @ \<rho>)) b of None \<Rightarrow> None | Some (w, n, d) \<Rightarrow>
       Some (w, 2 * int (length ks) + 4 + n, d)))"

text \<open>
  The map \<open>\<gamma>\<close> has the global variables. The evaluator evaluates an operator twice, once before the
  operands and once more to apply it, which the cost of a call shows.
\<close>

primrec interp :: "(addr \<rightharpoonup> val) \<Rightarrow> nat \<Rightarrow> (addr \<times> val) list \<Rightarrow> exp \<Rightarrow> outcome" where
  "interp \<gamma> 0 \<rho> e = None"
| "interp \<gamma> (Suc m) \<rho> e = (case e of
     Const d \<Rightarrow> Some (Obj d, 0, 0)
   | Quote d \<Rightarrow> Some (Obj d, 0, 0)
   | Var k \<Rightarrow> (case map_of \<rho> k of Some v \<Rightarrow> Some (v, 1, 0)
       | None \<Rightarrow> (case \<gamma> k of None \<Rightarrow> None | Some v \<Rightarrow> Some (v, 3, 0)))
   | Lam ks b \<Rightarrow> Some (Clo ks b \<rho>, 4, 0)
   | If c x y \<Rightarrow> (case interp \<gamma> m \<rho> c of None \<Rightarrow> None | Some (v, n, d) \<Rightarrow>
       (case interp \<gamma> m \<rho> (if v = Obj (DAtom cell_f) then y else x) of None \<Rightarrow> None
        | Some (w, n', d') \<Rightarrow> Some (w, n + n', max (1 + d) d')))
   | Call f es \<Rightarrow> (case interp \<gamma> m \<rho> f of None \<Rightarrow> None | Some (fv, n0, d0) \<Rightarrow>
       (case evals (interp \<gamma> m \<rho>) es of None \<Rightarrow> None | Some (vs, n1, d1) \<Rightarrow>
       (case applied (interp \<gamma> m) fv vs of None \<Rightarrow> None | Some (w, n2, d2) \<Rightarrow>
          Some (w, 2 * n0 + n1 + 2 + n2, max (1 + d0) (max (1 + d1) d2))))))"

lemma evals_nonneg:
  assumes "\<And>e v n d. f e = Some (v, n, d) \<Longrightarrow> 0 \<le> n \<and> 0 \<le> d"
  shows "evals f es = Some (vs, n, d) \<Longrightarrow> 0 \<le> n \<and> 0 \<le> d"
  using assms by (induction es arbitrary: vs n d) (fastforce split: option.splits)+

lemma bodies_nonneg:
  assumes "\<And>e v n d. f e = Some (v, n, d) \<Longrightarrow> 0 \<le> n \<and> 0 \<le> d"
  shows "bodies f es = Some (v, n, d) \<Longrightarrow> 0 \<le> n \<and> 0 \<le> d"
  using assms by (induction f es arbitrary: v n d rule: bodies.induct) (fastforce split: option.splits)+

lemma applied_nonneg:
  assumes "\<And>\<rho> e v n d. f \<rho> e = Some (v, n, d) \<Longrightarrow> 0 \<le> n \<and> 0 \<le> d"
  shows "applied f fv vs = Some (v, n, d) \<Longrightarrow> 0 \<le> n \<and> 0 \<le> d"
  using bodies_nonneg [OF assms] prim_value_nonneg
  by (cases fv) (fastforce split: option.splits if_splits)+

lemma interp_nonneg: "interp \<gamma> m \<rho> e = Some (v, n, d) \<Longrightarrow> 0 \<le> n \<and> 0 \<le> d"
proof (induction m arbitrary: \<rho> e v n d)
  case 0
  then show ?case by simp
next
  case (Suc m)
  have "0 \<le> n \<and> 0 \<le> d" if "evals (interp \<gamma> m \<rho>) es = Some (vs, n, d)" for \<rho> es vs n d
    using evals_nonneg [of "interp \<gamma> m \<rho>"] Suc.IH that by blast
  moreover have "0 \<le> n \<and> 0 \<le> d" if "applied (interp \<gamma> m) fv vs = Some (v, n, d)" for fv vs v n d
    using applied_nonneg [of "interp \<gamma> m"] Suc.IH that by blast
  ultimately show ?case
    using Suc.prems by (cases e) (fastforce split: option.splits val.splits if_splits dest: Suc.IH)+
qed

section \<open>Representation\<close>

text \<open>Names that are not variables of the core language, and the entry of environments.\<close>

definition reserved :: "addr set" where
  "reserved = {cell_symbol_quote, cell_symbol_begin, cell_symbol_lambda, cell_symbol_if,
     cell_symbol_set_x, cell_symbol_define, cell_symbol_define_macro, cell_vm_macro_expand,
     cell_symbol_current_environment, cell_symbol_call_with_current_continuation,
     cell_symbol_call_with_values, cell_closure, cell_symbol_program}"

text \<open>\<open>exp_at s e x\<close>: the expression \<open>e\<close> stands at \<open>x\<close>.\<close>

inductive exp_at :: "mst \<Rightarrow> exp \<Rightarrow> addr \<Rightarrow> bool" for s where
  const: "lookup s a = Some c \<Longrightarrow> self_evaluating (ctype c) \<Longrightarrow> datum_at s d a \<Longrightarrow> exp_at s (Const d) a"
| quote: "lookup s x = Some (mk_cell TPAIR cell_symbol_quote p) \<Longrightarrow> lookup s p = Some (mk_cell TPAIR a q)
    \<Longrightarrow> symbol_cell s cell_symbol_quote \<Longrightarrow> datum_at s d a \<Longrightarrow> exp_at s (Quote d) x"
| var: "symbol_cell s k \<Longrightarrow> k \<notin> reserved \<Longrightarrow> exp_at s (Var k) k"
| cond: "lookup s x = Some (mk_cell TPAIR cell_symbol_if p) \<Longrightarrow> symbol_cell s cell_symbol_if
    \<Longrightarrow> lookup s p = Some (mk_cell TPAIR c' q) \<Longrightarrow> lookup s q = Some (mk_cell TPAIR x' r)
    \<Longrightarrow> lookup s r = Some (mk_cell TPAIR y' z) \<Longrightarrow> r \<noteq> cell_nil
    \<Longrightarrow> exp_at s c c' \<Longrightarrow> exp_at s e1 x' \<Longrightarrow> exp_at s e2 y' \<Longrightarrow> exp_at s (If c e1 e2) x"
| lam: "lookup s x = Some (mk_cell TPAIR cell_symbol_lambda p) \<Longrightarrow> symbol_cell s cell_symbol_lambda
    \<Longrightarrow> lookup s p = Some (mk_cell TPAIR formals body) \<Longrightarrow> formals_at s formals ks None
    \<Longrightarrow> set ks \<inter> reserved = {} \<Longrightarrow> list_at s body bs \<Longrightarrow> list_all2 (exp_at s) es bs
    \<Longrightarrow> exp_at s (Lam ks es) x"
| call: "lookup s x = Some (mk_cell TPAIR f' p) \<Longrightarrow> f' \<notin> reserved \<Longrightarrow> exp_at s f f'
    \<Longrightarrow> list_at s p xs \<Longrightarrow> list_all2 (exp_at s) es xs \<Longrightarrow> exp_at s (Call f es) x"

lemma exp_at_extends:
  assumes "extends s t"
  shows "exp_at s e x \<Longrightarrow> exp_at t e x"
proof (induction rule: exp_at.induct)
  case (lam x p formals body ks bs es)
  have "list_all2 (exp_at t) es bs"
    using lam.IH by (rule list_all2_mono) simp
  then show ?case
    using lam assms
    by (intro exp_at.lam) (auto intro: extends_lookup symbol_cell_extends formals_at_extends list_at_extends simp del: lookup_Some)
next
  case (call x f' p f xs es)
  have "list_all2 (exp_at t) es xs"
    using call.IH by (auto elim: list_all2_mono)
  then show ?case
    using call assms
    by (intro exp_at.call) (auto intro: extends_lookup list_at_extends simp del: lookup_Some)
qed (blast intro: exp_at.intros extends_lookup [OF assms] symbol_cell_extends [OF assms] datum_at_extends [OF assms])+

text \<open>
  \<open>bound R \<rho> kvs\<close>: an association list binds the variables of \<open>\<rho>\<close>, in the same order, to
  representations of their values; the entries \<^verbatim>\<open>*closure*\<close> and \<^verbatim>\<open>%program\<close> do not count.
\<close>

definition marker :: "addr \<Rightarrow> bool" where
  "marker k \<longleftrightarrow> k = cell_closure \<or> k = cell_symbol_program"

lemma reserved_marker: "k \<notin> reserved \<Longrightarrow> \<not> marker k"
  by (auto simp: reserved_def marker_def)

definition bound :: "(val \<Rightarrow> addr \<Rightarrow> bool) \<Rightarrow> (addr \<times> val) list \<Rightarrow> (addr \<times> addr) list \<Rightarrow> bool" where
  "bound R \<rho> kvs \<longleftrightarrow> list_all2 (\<lambda>p q. fst p = fst q \<and> R (snd p) (snd q)) \<rho> (filter (\<lambda>q. \<not> marker (fst q)) kvs)"

lemma bound_mono [mono]: "(\<And>v a. R v a \<longrightarrow> S v a) \<Longrightarrow> bound R \<rho> kvs \<longrightarrow> bound S \<rho> kvs"
  unfolding bound_def by (auto elim: list_all2_mono)

inductive val_at :: "world \<Rightarrow> mst \<Rightarrow> val \<Rightarrow> addr \<Rightarrow> bool" for W s where
  obj: "datum_at s d a \<Longrightarrow> val_at W s (Obj d) a"
| prim: "builtin_at s a (prim_arity p) f \<Longrightarrow> implements (call_function W f) p \<Longrightarrow> val_at W s (Prim p) a"
| clo: "closure_at s a formals body aa \<Longrightarrow> formals_at s formals ks None \<Longrightarrow> set ks \<inter> reserved = {}
    \<Longrightarrow> list_at s body bs \<Longrightarrow> list_all2 (exp_at s) es bs \<Longrightarrow> frame_at s aa kvs \<Longrightarrow> bound (val_at W s) \<rho> kvs
    \<Longrightarrow> val_at W s (Clo ks es \<rho>) a"

inductive_cases val_at_objE: "val_at W s (Obj d) a"
inductive_cases val_at_primE: "val_at W s (Prim p) a"
inductive_cases val_at_cloE: "val_at W s (Clo ks es \<rho>) a"

definition env_at :: "world \<Rightarrow> mst \<Rightarrow> (addr \<times> val) list \<Rightarrow> addr \<Rightarrow> bool" where
  "env_at W s \<rho> a \<longleftrightarrow> (\<exists>k m kvs. frame_at s a ((k, m) # kvs) \<and> marker k \<and> bound (val_at W s) \<rho> kvs)"

lemma closure_at_extends: "extends s t \<Longrightarrow> closure_at s f x b a \<Longrightarrow> closure_at t f x b a"
  unfolding closure_at_def by (meson extends_lookup)

lemma bound_mp: "bound R \<rho> kvs \<Longrightarrow> (\<And>v a. R v a \<Longrightarrow> S v a) \<Longrightarrow> bound S \<rho> kvs"
  using bound_mono by blast

lemma list_exp_at_extends: "extends s t \<Longrightarrow> list_all2 (exp_at s) es xs \<Longrightarrow> list_all2 (exp_at t) es xs"
  by (auto elim: list_all2_mono intro: exp_at_extends)

lemma val_at_extends:
  assumes "extends s t"
  shows "val_at W s v a \<Longrightarrow> val_at W t v a"
proof (induction rule: val_at.induct)
  case (obj d a)
  then show ?case
    by (intro val_at.obj datum_at_extends [OF assms])
next
  case (prim a p f)
  then show ?case
    using builtin_at_extends [OF assms] by (blast intro: val_at.prim)
next
  case (clo a formals body aa ks bs es kvs \<rho>)
  have "bound (val_at W t) \<rho> kvs"
    using clo.IH by (rule bound_mp) simp
  then show ?case
    using clo assms
    by (intro val_at.clo) (auto intro: closure_at_extends formals_at_extends list_at_extends
        list_exp_at_extends frame_at_extends)
qed

lemma env_at_extends: "extends s t \<Longrightarrow> env_at W s \<rho> a \<Longrightarrow> env_at W t \<rho> a"
  unfolding env_at_def using frame_at_extends bound_mp val_at_extends by metis

lemma list_val_at_extends: "extends s t \<Longrightarrow> list_all2 (val_at W s) vs as \<Longrightarrow> list_all2 (val_at W t) vs as"
  by (auto elim: list_all2_mono intro: val_at_extends)

text \<open>A variable is found where the interpreter finds it.\<close>

lemma bound_lookup:
  assumes "bound R \<rho> kvs" "map_of \<rho> k = Some v" "\<not> marker k"
  shows "\<exists>a. map_of kvs k = Some a \<and> R v a"
proof -
  have "map_of kvs k = map_of (filter (\<lambda>q. \<not> marker (fst q)) kvs) k"
    using assms(3) by (induction kvs) auto
  moreover have "list_all2 (\<lambda>p q. fst p = fst q \<and> R (snd p) (snd q)) \<rho> ys \<Longrightarrow> map_of \<rho> k = Some v
      \<Longrightarrow> \<exists>a. map_of ys k = Some a \<and> R v a" for ys
    by (induction rule: list_all2_induct) (auto split: if_splits)
  ultimately show ?thesis
    using assms(1,2) by (auto simp: bound_def)
qed

lemma bound_lookup_none:
  assumes "bound R \<rho> kvs" "map_of \<rho> k = None" "\<not> marker k"
  shows "map_of kvs k = None"
proof -
  have "map_of kvs k = map_of (filter (\<lambda>q. \<not> marker (fst q)) kvs) k"
    using assms(3) by (induction kvs) auto
  moreover have "list_all2 (\<lambda>p q. fst p = fst q \<and> R (snd p) (snd q)) \<rho> ys \<Longrightarrow> map_of \<rho> k = None
      \<Longrightarrow> map_of ys k = None" for ys
    by (induction rule: list_all2_induct) (auto split: if_splits)
  ultimately show ?thesis
    using assms(1,2) by (auto simp: bound_def)
qed

lemma bound_zip:
  assumes "bound R \<rho> kvs" "list_all2 R vs as" "length vs = length ks" "set ks \<inter> reserved = {}"
  shows "bound R (zip ks vs @ \<rho>) (zip ks as @ kvs)"
proof -
  have len: "length as = length vs"
    using list_all2_lengthD [OF assms(2)] by simp
  have "filter (\<lambda>q. \<not> marker (fst q)) (zip ks as) = zip ks as"
    using assms(4) reserved_marker by (fastforce simp: filter_id_conv disjoint_iff dest!: set_zip_leftD)
  moreover have "list_all2 (\<lambda>p q. fst p = fst q \<and> R (snd p) (snd q)) (zip ks vs) (zip ks as)"
    using assms(2,3) len by (auto simp: list_all2_conv_all_nth)
  ultimately show ?thesis
    using assms(1) by (simp add: bound_def list_all2_appendI)
qed

section \<open>Globals and budgets\<close>

text \<open>While the interpreter boots, a global variable is an entry of the hash table \<^verbatim>\<open>M0\<close>.\<close>

definition globals_at :: "world \<Rightarrow> (addr \<rightharpoonup> val) \<Rightarrow> mst \<Rightarrow> bool" where
  "globals_at W \<gamma> s \<longleftrightarrow> (\<forall>k v. \<gamma> k = Some v \<longrightarrow> M1 s = cell_f \<and> (\<exists>names m bs var a. hash_dict s (M0 s) names m
     \<and> names k = Some bs \<and> m k = Some var \<and> variable_at s var a \<and> val_at W s v a))"

lemma globals_at_extends:
  assumes "globals_at W \<gamma> s" "extends s t" "M0 t = M0 s" "M1 t = M1 s"
  shows "globals_at W \<gamma> t"
  unfolding globals_at_def
proof (intro allI impI)
  fix k v
  assume "\<gamma> k = Some v"
  then obtain names m bs var a where g: "M1 s = cell_f" "hash_dict s (M0 s) names m" "names k = Some bs" "m k = Some var"
    "variable_at s var a" "val_at W s v a"
    using assms(1) unfolding globals_at_def by blast
  then show "M1 t = cell_f \<and> (\<exists>names m bs var a. hash_dict t (M0 t) names m
     \<and> names k = Some bs \<and> m k = Some var \<and> variable_at t var a \<and> val_at W t v a)"
    using assms(3,4) hash_dict_extends [OF assms(2)] variable_at_extends [OF assms(2)] val_at_extends [OF assms(2)] by metis
qed

lemma globals_at_empty [simp]: "globals_at W Map.empty s"
  by (simp add: globals_at_def)

text \<open>The cells and the frames that there must be, besides those that keep the collector from running.\<close>

definition budget :: "world \<Rightarrow> (addr \<rightharpoonup> val) \<Rightarrow> int \<Rightarrow> int \<Rightarrow> mst \<Rightarrow> bool" where
  "budget W \<gamma> n d s \<longleftrightarrow> arena_ok s \<and> specials_ok s \<and> room (n + GC_SAFETY s + 1) s \<and> 0 \<le> GC_SAFETY s
     \<and> 5 * d \<le> g_stack s \<and> g_stack s \<le> STACK_SIZE s \<and> globals_at W \<gamma> s"

lemma budget_ready: "budget W \<gamma> n d s \<Longrightarrow> m \<le> n \<Longrightarrow> ready m s"
  by (simp add: budget_def ready_def room_def)

lemma budget_stack: "budget W \<gamma> n d s \<Longrightarrow> 1 \<le> d \<Longrightarrow> stack_room s"
  by (simp add: budget_def stack_room_def)

lemma budget_mono: "budget W \<gamma> n d s \<Longrightarrow> m \<le> n \<Longrightarrow> e \<le> d \<Longrightarrow> budget W \<gamma> m e s"
  by (simp add: budget_def room_def)

lemma budget_spent: "budget W \<gamma> n d s \<Longrightarrow> spends k s t \<Longrightarrow> g_stack t = g_stack s \<Longrightarrow> k + m \<le> n \<Longrightarrow> budget W \<gamma> m d t"
  using specials_ok_extends [of s t] globals_at_extends [of W \<gamma> s t] by (auto simp: budget_def spends_def room_def)

lemma budget_pushed: "budget W \<gamma> n (d + 1) s \<Longrightarrow> budget W \<gamma> n d (cc_pushed p1 p2 a c s)"
  using specials_ok_extends [of s "cc_pushed p1 p2 a c s"] globals_at_extends [of W \<gamma> s "cc_pushed p1 p2 a c s"]
  by (auto simp: budget_def room_def arena_ok_def)

lemma gc_check_quiet: "budget W \<gamma> n d s \<Longrightarrow> 0 \<le> n \<Longrightarrow> gc_check rea mem s = Some (Inr cell_unspecified, s)"
  by (simp add: budget_def gc_check_def room_def)

text \<open>What a representation gives the machine to look at.\<close>

lemma exp_cell:
  assumes "exp_at s e x"
  shows "\<exists>c. lookup s x = Some c \<and> ctype c \<noteq> TBINDING"
  using assms by cases (auto simp: self_evaluating_def symbol_cell_def)

lemma exp_pair:
  assumes "exp_at s e x" "lookup s x = Some (mk_cell TPAIR c d)"
  shows "c \<noteq> cell_symbol_begin" "\<exists>k. lookup s c = Some k \<and> ctype k \<noteq> TBINDING"
  using assms by (cases; auto simp: self_evaluating_def symbol_cell_def reserved_def cells dest: exp_cell)+

section \<open>The machine\<close>

text \<open>\<open>runs W \<gamma> f \<rho>\<close>: the evaluator does what \<open>f\<close> says, in environments of \<open>\<rho>\<close>.\<close>

definition runs :: "world \<Rightarrow> (addr \<rightharpoonup> val) \<Rightarrow> (exp \<Rightarrow> outcome) \<Rightarrow> (addr \<times> val) list \<Rightarrow> bool" where
  "runs W \<gamma> f \<rho> \<longleftrightarrow> (\<forall>e v n d s. f e = Some (v, n, d) \<longrightarrow> exp_at s e (R1 s) \<longrightarrow> env_at W s \<rho> (R0 s)
     \<longrightarrow> budget W \<gamma> n d s \<longrightarrow> (\<exists>t a. gives W Eval s a t \<and> spends n s t \<and> val_at W t v a))"

lemma runsD:
  assumes "runs W \<gamma> f \<rho>" "f e = Some (v, n, d)" "exp_at s e (R1 s)" "env_at W s \<rho> (R0 s)" "budget W \<gamma> n d s"
  obtains t a where "gives W Eval s a t" "spends n s t" "val_at W t v a"
  using assms unfolding runs_def by blast

definition costs :: "(exp \<Rightarrow> outcome) \<Rightarrow> bool" where
  "costs f \<longleftrightarrow> (\<forall>e v n d. f e = Some (v, n, d) \<longrightarrow> 0 \<le> n \<and> 0 \<le> d)"

lemma costs_interp [simp]: "costs (interp \<gamma> m \<rho>)"
  unfolding costs_def using interp_nonneg by blast

lemma costsD: "costs f \<Longrightarrow> f e = Some (v, n, d) \<Longrightarrow> 0 \<le> n \<and> 0 \<le> d"
  unfolding costs_def by blast

lemma costs_evals: "costs f \<Longrightarrow> evals f es = Some (vs, n, d) \<Longrightarrow> 0 \<le> n \<and> 0 \<le> d"
  using evals_nonneg unfolding costs_def by blast

lemma costs_bodies: "costs f \<Longrightarrow> bodies f es = Some (v, n, d) \<Longrightarrow> 0 \<le> n \<and> 0 \<le> d"
  using bodies_nonneg unfolding costs_def by blast

lemma frame_pair:
  assumes "frame_at s a ((k, v) # kvs)"
  shows "\<exists>h d. lookup s a = Some (mk_cell TPAIR h d) \<and> frame_at s d kvs"
proof -
  obtain c where c: "lookup s a = Some c" "ctype c = TPAIR" "frame_at s (ccdr c) kvs"
    using assms by (auto simp: frame_at_Cons)
  have "mk_cell TPAIR (ccar c) (ccdr c) = c"
    using mk_cell_surjective [of c] c(2) by simp
  with c show ?thesis by metis
qed

text \<open>The evaluation of a subexpression in a frame of its own.\<close>

lemma runs_framed:
  assumes "runs W \<gamma> f \<rho>" "f e = Some (v, n, d)" "exp_at s e x" "env_at W s \<rho> (R0 s)" "budget W \<gamma> n (d + 1) s"
  obtains t a where "gives W Eval (cc_pushed x p2 (R0 s) c s) a t" "spends n s t" "val_at W t v a"
proof -
  let ?s = "cc_pushed x p2 (R0 s) c s"
  have "extends s ?s" by simp
  then have "exp_at ?s e (R1 ?s)" "env_at W ?s \<rho> (R0 ?s)"
    using exp_at_extends [of s ?s, OF _ assms(3)] env_at_extends [of s ?s, OF _ assms(4)] by simp_all
  then show ?thesis
    using runsD [OF assms(1,2) _ _ budget_pushed [OF assms(5)]] that by (metis spends_registers(8))
qed

lemma evlis_ok:
  assumes run: "runs W \<gamma> f \<rho>" and f: "costs f"
  shows "evals f es = Some (vs, n, d) \<Longrightarrow> list_at s (R1 s) xs \<Longrightarrow> list_all2 (exp_at s) es xs
    \<Longrightarrow> env_at W s \<rho> (R0 s) \<Longrightarrow> budget W \<gamma> n d s
    \<Longrightarrow> \<exists>t a as. gives W Evlis s a t \<and> spends n s t \<and> list_at t a as \<and> list_all2 (val_at W t) vs as"
proof (induction es arbitrary: vs n d s xs)
  case Nil
  then have "R1 s = cell_nil" "vs = []" "n = 0" by auto
  moreover from this have "eval_step W Evlis s = Some (Inr (Goto Vm_return), s)"
    by (simp add: step_evlis_def)
  ultimately have "gives W Evlis s cell_nil s"
    using gives_go [OF _ below_refl gives_Vm_return] by metis
  then show ?case
    using Nil.prems(5) \<open>vs = []\<close> \<open>n = 0\<close>
    by (intro exI [of _ s] exI [of _ cell_nil] exI [of _ "[]"]) (simp add: spends_refl budget_def)
next
  case (Cons e es)
  obtain v n1 d1 vs' n2 d2 where c: "f e = Some (v, n1, d1)" "evals f es = Some (vs', n2, d2)"
    "vs = v # vs'" "n = n1 + n2 + 1" "d = 1 + max d1 d2"
    using Cons.prems(1) by (auto split: option.splits)
  note pos = costsD [OF f c(1)] costs_evals [OF f c(2)]
  obtain x xs' where xs: "xs = x # xs'" "exp_at s e x" "list_all2 (exp_at s) es xs'"
    using Cons.prems(3) by (auto simp: list_all2_Cons1)
  obtain rest where p: "lookup s (R1 s) = Some (mk_cell TPAIR x rest)" "R1 s \<noteq> cell_nil" "list_at s rest xs'"
    using list_pair Cons.prems(2) unfolding xs(1) by blast
  have room: "stack_room s"
    using budget_stack [OF Cons.prems(5)] pos c(5) by (auto simp: le_max_iff_disj)
  have e1: "eval_step W Evlis s = Some (Inr (Goto Eval), cc_pushed x (R1 s) (R0 s) cell_vm_evlis2 s)"
    using p room by (simp add: step_evlis_def push_goto_ok)
  have "budget W \<gamma> n1 (d1 + 1) s"
    by (rule budget_mono [OF Cons.prems(5)]) (use c pos in auto)
  then obtain t a where t: "gives W Eval (cc_pushed x (R1 s) (R0 s) cell_vm_evlis2 s) a t" "spends n1 s t" "val_at W t v a"
    by (rule runs_framed [OF run c(1) xs(2) Cons.prems(4)])
  let ?r = "resumed s (R1 s) cell_vm_evlis2 a t"
  have sr: "spends n1 s ?r" and er: "extends s ?r"
    using t(2) spends_extends [OF t(2)] by simp_all
  have br: "budget W \<gamma> (n2 + 1) (d2 + 1) ?r"
    by (rule budget_spent [OF budget_mono [OF Cons.prems(5)] sr]) (use c pos in auto)
  have rr: "stack_room ?r"
    using budget_stack [OF br] pos by simp
  have e2: "eval_step W Evlis2 ?r = Some (Inr (Goto Evlis), cc_pushed rest a (R0 s) cell_vm_evlis3 ?r)"
    using extends_lookup [OF er p(1)] rr by (simp add: step_evlis2_def push_goto_ok)
  let ?q = "cc_pushed rest a (R0 s) cell_vm_evlis3 ?r"
  have eq: "extends s ?q"
    using er by simp
  have "budget W \<gamma> (n2 + 1) d2 ?q"
    by (rule budget_pushed [OF br])
  then have bq: "budget W \<gamma> n2 d2 ?q"
    by (rule budget_mono) simp_all
  have at: "list_at ?q (R1 ?q) xs'" "env_at W ?q \<rho> (R0 ?q)"
    using list_at_extends [OF eq p(3)] env_at_extends [OF eq Cons.prems(4)] by simp_all
  obtain u b as where u: "gives W Evlis ?q b u" "spends n2 ?q u" "list_at u b as" "list_all2 (val_at W u) vs' as"
    using Cons.IH [OF c(2) at(1) list_exp_at_extends [OF eq xs(3)] at(2) bq] by blast
  let ?w = "resumed ?r a cell_vm_evlis3 b u"
  have tu: "spends n2 t u"
    using u(2) by simp
  have su: "spends (n1 + n2) s u" "extends t u"
    using spends_trans [OF t(2) tu] spends_extends [OF tu] by simp_all
  have rw: "room 1 u" "arena_ok u"
    using su Cons.prems(5) c(4) pos by (auto simp: budget_def spends_def room_def)
  have w: "arena_ok ?w" "room 1 ?w"
    using rw by (simp_all add: arena_ok_def room_def)
  let ?z = "push_cell (mk_cell TPAIR a b) ?w"
  have ez: "extends u ?z"
    using extends_push_cell [of ?w] extends_trans [of u ?w ?z] by simp
  have "eval_step W Evlis3 ?w = Some (Inr (Goto Vm_return), ?z\<lparr>R1 := g_free u\<rparr>)"
    using w by (simp add: step_evlis3_def give_def)
  then have g3: "gives W Evlis3 ?w (g_free u) (?z\<lparr>R1 := g_free u\<rparr>)"
    by (rule gives_go) (simp_all add: below_def gives_def stay)
  have g2: "gives W Evlis2 ?r (g_free u) (?z\<lparr>R1 := g_free u\<rparr>)"
    by (rule gives_through_frame [OF e2 rr below_refl u(1) continuation_of(2) g3])
  have g1: "gives W Evlis s (g_free u) (?z\<lparr>R1 := g_free u\<rparr>)"
    by (rule gives_through_frame [OF e1 room below_refl t(1) continuation_of(1) g2])
  have "spends (n1 + n2 + 1) s ?z"
    using su(1) spends_trans [of "n1 + n2" s ?w 1 ?z] grows_spends [OF grows_push_cell [OF w(1)]] by simp
  moreover have ef: "extends t (?z\<lparr>R1 := g_free u\<rparr>)" "extends u (?z\<lparr>R1 := g_free u\<rparr>)"
    using extends_trans [OF su(2) ez] ez by simp_all
  have "list_at (?z\<lparr>R1 := g_free u\<rparr>) (g_free u) (a # as)"
  proof -
    have "cell_nil < g_free s" using Cons.prems(5) specials_ok_nil by (auto simp: budget_def)
    then have "g_free u \<noteq> cell_nil"
      using su(1) by (auto simp: spends_def extends_def)
    moreover have "list_at (?z\<lparr>R1 := g_free u\<rparr>) b as"
      by (rule list_at_extends [OF ef(2) u(3)])
    moreover have "val_at W u v a"
      by (rule val_at_extends [OF su(2) t(3)])
    ultimately show ?thesis
      by (simp add: list_at_Cons)
  qed
  moreover have "list_all2 (val_at W (?z\<lparr>R1 := g_free u\<rparr>)) vs (a # as)"
    using val_at_extends [OF ef(1) t(3)] list_val_at_extends [OF ef(2) u(4)] by (simp add: c(3))
  ultimately show ?case
    using g1 c(4) by (intro exI [of _ "?z\<lparr>R1 := g_free u\<rparr>"] exI [of _ "g_free u"] exI [of _ "a # as"]) simp
qed

lemma state_R1 [simp]:
  "budget W \<gamma> n d (s\<lparr>R1 := x\<rparr>) = budget W \<gamma> n d s" "exp_at (s\<lparr>R1 := x\<rparr>) = exp_at s"
  "env_at W (s\<lparr>R1 := x\<rparr>) = env_at W s" "list_at (s\<lparr>R1 := x\<rparr>) = list_at s" "val_at W (s\<lparr>R1 := x\<rparr>) = val_at W s"
proof -
  have e: "extends s (s\<lparr>R1 := x\<rparr>)" "extends (s\<lparr>R1 := x\<rparr>) s" by simp_all
  show "exp_at (s\<lparr>R1 := x\<rparr>) = exp_at s" "env_at W (s\<lparr>R1 := x\<rparr>) = env_at W s"
    "list_at (s\<lparr>R1 := x\<rparr>) = list_at s" "val_at W (s\<lparr>R1 := x\<rparr>) = val_at W s"
    by (rule ext, rule ext, rule iffI;
        erule exp_at_extends [OF e(1)] exp_at_extends [OF e(2)] env_at_extends [OF e(1)] env_at_extends [OF e(2)]
          list_at_extends [OF e(1)] list_at_extends [OF e(2)] val_at_extends [OF e(1)] val_at_extends [OF e(2)])+
  show "budget W \<gamma> n d (s\<lparr>R1 := x\<rparr>) = budget W \<gamma> n d s"
    using specials_ok_extends [OF e(1)] specials_ok_extends [OF e(2)] globals_at_extends [of W \<gamma> _ "s\<lparr>R1 := x\<rparr>", OF _ e(1)]
      globals_at_extends [of W \<gamma> "s\<lparr>R1 := x\<rparr>", OF _ e(2)] by (auto simp: budget_def arena_ok_def room_def)
qed

lemma splice_quiet:
  assumes "lookup s (R1 s) = Some (mk_cell TPAIR x rest)" "exp_at s e x"
  shows "splice_begin W s = Some (Inr (), s)"
proof -
  obtain c where c: "lookup s x = Some c"
    using exp_cell [OF assms(2)] by blast
  show ?thesis
  proof (cases "ctype c = TPAIR")
    case True
    then have eq: "mk_cell TPAIR (ccar c) (ccdr c) = c"
      by (metis mk_cell_surjective)
    have "ccar c \<noteq> cell_symbol_begin"
      by (rule exp_pair(1) [OF assms(2), of _ "ccdr c"]) (use c eq in simp)
    then show ?thesis
      using assms(1) c True by (simp add: splice_begin_def)
  next
    case False
    then show ?thesis
      using assms(1) c by (simp add: splice_begin_def)
  qed
qed

lemma begin_ok:
  "runs W \<gamma> f \<rho> \<Longrightarrow> costs f \<Longrightarrow> bodies f es = Some (v, n, d) \<Longrightarrow> list_at s (R1 s) xs \<Longrightarrow> list_all2 (exp_at s) es xs
    \<Longrightarrow> env_at W s \<rho> (R0 s) \<Longrightarrow> budget W \<gamma> n d s
    \<Longrightarrow> \<exists>t a. gives W (Begin_while y) s a t \<and> spends n s t \<and> val_at W t v a"
proof (induction f es arbitrary: v n d s xs y rule: bodies.induct)
  case (1 f)
  then show ?case by simp
next
  case (2 f e)
  obtain x where x: "xs = [x]" "exp_at s e x"
    using "2.prems"(5) by (auto simp: list_all2_Cons1)
  have p: "lookup s (R1 s) = Some (mk_cell TPAIR x cell_nil)" "R1 s \<noteq> cell_nil"
    using list_pair "2.prems"(4) unfolding x(1) by fastforce+
  have e: "f e = Some (v, n, d)"
    using "2.prems"(3) by simp
  have "eval_step W (Begin_while y) s = Some (Inr (Goto Eval), s\<lparr>R1 := x\<rparr>)"
    using p gc_check_quiet [OF "2.prems"(7)] costsD [OF "2.prems"(2) e] splice_quiet [OF p(1) x(2)]
    by (simp add: step_begin_while_def)
  moreover obtain t a where "gives W Eval (s\<lparr>R1 := x\<rparr>) a t" "spends n (s\<lparr>R1 := x\<rparr>) t" "val_at W t v a"
    by (rule runsD [OF "2.prems"(1) e, of "s\<lparr>R1 := x\<rparr>"]) (use "2.prems"(6,7) x(2) in simp_all)
  moreover have "below s (s\<lparr>R1 := x\<rparr>)" by (simp add: below_def)
  ultimately show ?case
    using gives_go by fastforce
next
  case (3 f e e' es)
  obtain v1 n1 d1 n2 d2 where c: "f e = Some (v1, n1, d1)" "bodies f (e' # es) = Some (v, n2, d2)"
    "n = n1 + n2" "d = max (1 + d1) d2"
    using "3.prems"(3) by (auto split: option.splits)
  note pos = costsD [OF "3.prems"(2) c(1)] costs_bodies [OF "3.prems"(2) c(2)]
  obtain x xs' where xs: "xs = x # xs'" "exp_at s e x" "list_all2 (exp_at s) (e' # es) xs'"
    using "3.prems"(5) by (auto simp: list_all2_Cons1)
  obtain rest where p: "lookup s (R1 s) = Some (mk_cell TPAIR x rest)" "R1 s \<noteq> cell_nil" "list_at s rest xs'"
    using list_pair "3.prems"(4) unfolding xs(1) by blast
  have "rest \<noteq> cell_nil"
    using p(3) xs(3) by auto
  have room: "stack_room s"
    using budget_stack [OF "3.prems"(7)] pos c(4) by (auto simp: le_max_iff_disj)
  have e1: "eval_step W (Begin_while y) s = Some (Inr (Goto Eval), cc_pushed x (R1 s) (R0 s) cell_vm_begin_eval s)"
    using p gc_check_quiet [OF "3.prems"(7)] c(3) pos splice_quiet [OF p(1) xs(2)] room \<open>rest \<noteq> cell_nil\<close>
    by (simp add: step_begin_while_def push_goto_ok)
  have "budget W \<gamma> n1 (d1 + 1) s"
    by (rule budget_mono [OF "3.prems"(7)]) (use c pos in auto)
  then obtain t a where t: "gives W Eval (cc_pushed x (R1 s) (R0 s) cell_vm_begin_eval s) a t" "spends n1 s t" "val_at W t v1 a"
    by (rule runs_framed [OF "3.prems"(1) c(1) xs(2) "3.prems"(6)])
  let ?r = "resumed s (R1 s) cell_vm_begin_eval a t"
  have sr: "spends n1 s ?r" and er: "extends s ?r"
    using t(2) spends_extends [OF t(2)] by simp_all
  have br: "budget W \<gamma> n2 d2 ?r"
    by (rule budget_spent [OF budget_mono [OF "3.prems"(7)] sr]) (use c pos in auto)
  have e2: "eval_step W Begin_eval ?r = Some (Inr (Goto (Begin_while a)), ?r\<lparr>R1 := rest\<rparr>)"
    using extends_lookup [OF er p(1)] by (simp add: next_form_def)
  have "\<exists>u b. gives W (Begin_while a) (?r\<lparr>R1 := rest\<rparr>) b u \<and> spends n2 (?r\<lparr>R1 := rest\<rparr>) u \<and> val_at W u v b"
    by (rule "3.IH" [OF c(1) refl refl "3.prems"(1,2) c(2), where xs = xs'])
      (use list_at_extends [OF er p(3)] list_exp_at_extends [OF er xs(3)] env_at_extends [OF er "3.prems"(6)] br in \<open>simp_all del: resumed_R1\<close>)
  then obtain u b where u: "gives W (Begin_while a) (?r\<lparr>R1 := rest\<rparr>) b u" "spends n2 ?r u" "val_at W u v b"
    by (auto simp del: resumed_R1)
  have g2: "gives W Begin_eval ?r b u"
    by (rule gives_go [OF e2 _ u(1)]) (simp add: below_def)
  have "gives W (Begin_while y) s b u"
    by (rule gives_through_frame [OF e1 room below_refl t(1) continuation_of(4) g2])
  then show ?case
    using spends_trans [OF sr u(2)] u(3) c(3) by blast
qed

section \<open>Application\<close>

text \<open>A body that has been entered runs in the extended environment.\<close>

lemma body_ok:
  assumes "runs W \<gamma> f \<rho>" "costs f" "bodies f b = Some (v, n, d)"
    and step: "eval_step W Apply s = Some (Inr (Goto Begin), t)" "below s t" "spends k s t" "R1 t = body"
    and at: "list_at t body bs" "list_all2 (exp_at t) b bs" "env_at W t \<rho> (R0 t)" and bud: "budget W \<gamma> (k + n) d s"
  shows "\<exists>u w. gives W Apply s w u \<and> spends (k + n) s u \<and> val_at W u v w"
proof -
  have "g_stack t = g_stack s"
    using step(2) by (simp add: below_def)
  then have "budget W \<gamma> n d t"
    using budget_spent [OF bud step(3)] by simp
  then obtain u w where u: "gives W (Begin_while cell_unspecified) t w u" "spends n t u" "val_at W u v w"
    using begin_ok [OF assms(1-3) _ at(2,3)] at(1) step(4) by blast
  have "gives W Begin t w u"
    by (rule gives_go [OF _ below_refl u(1)]) simp
  then have "gives W Apply s w u"
    by (rule gives_go [OF step(1,2)])
  then show ?thesis
    using spends_trans [OF step(3) u(2)] u(3) by blast
qed

lemma env_at_entered:
  assumes "bound (val_at W s) \<rho> kvs" "list_all2 (val_at W s) vs as" "length vs = length ks" "set ks \<inter> reserved = {}"
    and "extends s t" "frame_at t a ((cell_closure, e) # bindings ks None as q @ kvs)"
  shows "env_at W t (zip ks vs @ \<rho>) a"
proof -
  have "bound (val_at W t) (zip ks vs @ \<rho>) (zip ks as @ kvs)"
    using bound_mp [OF bound_zip [OF assms(1-4)]] val_at_extends [OF assms(5)] by blast
  then show ?thesis
    using assms(6) unfolding env_at_def bindings_def marker_def by auto
qed

lemma apply_value_ok:
  assumes run: "runs W \<gamma> f (zip ks vs @ \<rho>)" "costs f" "bodies f b = Some (v, n, d)"
    and form: "lookup s (R1 s) = Some (mk_cell TPAIR a args)" and clo: "val_at W s (Clo ks b \<rho>) a"
    and args: "list_at s args as" "list_all2 (val_at W s) vs as" "length vs = length ks"
    and bud: "budget W \<gamma> (2 * int (length ks) + 4 + n) (max 1 d) s"
  shows "\<exists>t w. gives W Apply s w t \<and> spends (2 * int (length ks) + 4 + n) s t \<and> val_at W t v w"
proof -
  obtain formals body aa bs kvs where c: "closure_at s a formals body aa" "formals_at s formals ks None"
    "set ks \<inter> reserved = {}" "list_at s body bs" "list_all2 (exp_at s) b bs" "frame_at s aa kvs"
    "bound (val_at W s) \<rho> kvs"
    using clo by (rule val_at_cloE) blast
  have len: "length as = length ks"
    using list_all2_lengthD [OF args(2)] args(3) by simp
  have pos: "0 \<le> n" "0 \<le> d"
    using costs_bodies [OF run(2,3)] by simp_all
  have "pair_at s (R1 s) a args"
    using form by (simp add: pair_at_def)
  moreover have "args_at s args as cell_nil"
    using args(1) by (simp add: list_args)
  ultimately obtain t e where t: "eval_step W Apply s = Some (Inr (Goto Begin), t)" "R1 t = body"
    "frame_at t (R0 t) ((cell_closure, e) # bindings ks None as cell_nil @ kvs)"
    "below s t" "spends (2 * int (length ks) + 4) s t"
    using apply_closure_binds [where W = W and q = cell_nil, OF _ c(1,2) _ len args(1) _ c(6) budget_stack [OF bud] budget_ready [OF bud]] pos
    by auto
  note e = spends_extends [OF t(5)]
  show ?thesis
    by (rule body_ok [OF run t(1,4,5,2) list_at_extends [OF e c(4)] list_exp_at_extends [OF e c(5)]
        env_at_entered [OF c(7) args(2,3) c(3) e t(3)] budget_mono [OF bud]]) simp_all
qed

lemma apply_lambda_ok:
  assumes run: "runs W \<gamma> f (zip ks vs @ \<rho>)" "costs f" "bodies f b = Some (v, n, d)"
    and form: "lookup s (R1 s) = Some (mk_cell TPAIR x args)" and lam: "exp_at s (Lam ks b) x"
    and env: "env_at W s \<rho> (R0 s)"
    and args: "list_at s args as" "list_all2 (val_at W s) vs as" "length vs = length ks"
    and bud: "budget W \<gamma> (2 * int (length ks) + 4 + n) (max 1 d) s"
  shows "\<exists>t w. gives W Apply s w t \<and> spends (2 * int (length ks) + 4 + n) s t \<and> val_at W t v w"
proof -
  obtain p formals body bs where c: "lookup s x = Some (mk_cell TPAIR cell_symbol_lambda p)"
    "lookup s p = Some (mk_cell TPAIR formals body)" "formals_at s formals ks None"
    "set ks \<inter> reserved = {}" "list_at s body bs" "list_all2 (exp_at s) b bs"
    using lam by cases blast
  obtain k0 m kvs where k: "frame_at s (R0 s) ((k0, m) # kvs)" "bound (val_at W s) \<rho> kvs" "marker k0"
    using env by (auto simp: env_at_def)
  then have k': "bound (val_at W s) \<rho> ((k0, m) # kvs)"
    by (simp add: bound_def)
  have len: "length as = length ks"
    using list_all2_lengthD [OF args(2)] args(3) by simp
  have pos: "0 \<le> n" "0 \<le> d"
    using costs_bodies [OF run(2,3)] by simp_all
  have "pair_at s (R1 s) x args"
    using form by (simp add: pair_at_def)
  moreover have "args_at s args as cell_nil"
    using args(1) by (simp add: list_args)
  ultimately obtain t e where t: "eval_step W Apply s = Some (Inr (Goto Begin), t)" "R1 t = body"
    "frame_at t (R0 t) ((cell_closure, e) # bindings ks None as cell_nil @ (k0, m) # kvs)"
    "below s t" "spends (2 * int (length ks) + 4) s t"
    using apply_lambda_binds [where W = W and q = cell_nil, OF _ c(1,2,3) _ len args(1) _ k(1) budget_stack [OF bud] budget_ready [OF bud]] pos
    by auto
  note e = spends_extends [OF t(5)]
  show ?thesis
    by (rule body_ok [OF run t(1,4,5,2) list_at_extends [OF e c(5)] list_exp_at_extends [OF e c(6)]
        env_at_entered [OF k' args(2,3) c(4) e t(3)] budget_mono [OF bud]]) simp_all
qed

text \<open>An operator that is neither a value nor a \<^verbatim>\<open>lambda\<close> form is evaluated in a frame of its own.\<close>

definition compound :: "exp \<Rightarrow> bool" where
  "compound e \<longleftrightarrow> (case e of Var k \<Rightarrow> True | If c x y \<Rightarrow> True | Call f es \<Rightarrow> True | _ \<Rightarrow> False)"

lemma apply_operator_step:
  assumes "lookup s (R1 s) = Some (mk_cell TPAIR x args)" "exp_at s e x" "compound e" "stack_room s"
  shows "eval_step W Apply s = Some (Inr (Goto Eval), cc_pushed x (R1 s) (R0 s) cell_vm_apply2 (procedure_noted x s))"
proof -
  have room: "stack_room (procedure_noted x s)" "stack_ok s (g_stack s + 4)"
    using assms(4) by (simp_all add: stack_room_def procedure_noted_def stack_ok_def)
  have op: "apply_operator (procedure_noted x s) = Some (Inr (Goto Eval), cc_pushed x (R1 s) (R0 s) cell_vm_apply2 (procedure_noted x s))"
    using assms(1) room(1) by (simp add: apply_operator_def push_goto_ok)
  note enter = step_apply_def GC_FRAME_PROCEDURE_def room(2) procedure_noted_def [symmetric]
  show ?thesis
    using assms(2)
  proof cases
    case var
    then show ?thesis
      using assms(1) op by (auto simp: enter symbol_cell_def reserved_def)
  next
    case (cond p c' q x' r y' z c e1 e2)
    then show ?thesis
      using assms(1) op by (auto simp: enter cells)
  next
    case (call f' p f xs es)
    then show ?thesis
      using assms(1) op by (auto simp: enter reserved_def)
  qed (use assms(3) in \<open>simp_all add: compound_def\<close>)
qed

lemma budget_noted [simp]: "budget W \<gamma> n d (procedure_noted x s) = budget W \<gamma> n d s"
proof -
  let ?s = "procedure_noted x s"
  have e: "extends s ?s" "extends ?s s"
    by (simp_all add: extends_def procedure_noted_def)
  have "M0 ?s = M0 s" "M1 ?s = M1 s"
    by (simp_all add: procedure_noted_def)
  then have "globals_at W \<gamma> ?s = globals_at W \<gamma> s"
    using globals_at_extends [OF _ e(1)] globals_at_extends [OF _ e(2)] by metis
  then show ?thesis
    by (auto simp: budget_def arena_ok_def room_def specials_ok_def procedure_noted_def lookup_def)
qed

text \<open>A closure and a primitive are applicable.\<close>

lemma check_apply_value:
  assumes "val_at W s v a" "\<And>d. v \<noteq> Obj d" "specials_ok s"
  shows "check_apply W a x s = Some (Inr cell_unspecified, s)"
proof -
  obtain c where c: "lookup s a = Some c" "ctype c = TCLOSURE \<or> ctype c = TSTRUCT \<and> builtin_p a s = Some (Inr cell_t, s)"
    using assms(1)
  proof cases
    case (prim p f)
    then show ?thesis
      using that builtin_at_type builtin_p_ok by blast
  next
    case (clo formals body aa ks bs es kvs \<rho>)
    then show ?thesis
      using that by (fastforce simp: closure_at_def)
  qed (use assms(2) in simp)
  have "a \<notin> {cell_f, cell_t, cell_nil, cell_unspecified, cell_undefined}"
  proof
    assume "a \<in> {cell_f, cell_t, cell_nil, cell_unspecified, cell_undefined}"
    then have "\<exists>c. lookup s a = Some c \<and> ctype c = TSPECIAL"
      using specials_okD [OF assms(3), of a] by (auto simp: cells)
    with c show False by auto
  qed
  then have "not_applicable a s = Some (Inr False, s)"
    using c by (auto simp: not_applicable_def cells)
  then show ?thesis
    unfolding check_apply_def by (subst mbind_Inr, assumption) simp
qed

text \<open>\<open>applies W \<gamma> fv vs v n d\<close>: \<^verbatim>\<open>apply\<close>, with a representation of \<open>fv\<close> as operator, gives \<open>v\<close>.\<close>

definition applies :: "world \<Rightarrow> (addr \<rightharpoonup> val) \<Rightarrow> val \<Rightarrow> val list \<Rightarrow> val \<Rightarrow> int \<Rightarrow> int \<Rightarrow> bool" where
  "applies W \<gamma> fv vs v n d \<longleftrightarrow> (\<forall>s a args as. lookup s (R1 s) = Some (mk_cell TPAIR a args) \<longrightarrow> val_at W s fv a
     \<longrightarrow> list_at s args as \<longrightarrow> list_all2 (val_at W s) vs as \<longrightarrow> budget W \<gamma> n (max 1 d) s
     \<longrightarrow> (\<exists>t w. gives W Apply s w t \<and> spends n s t \<and> val_at W t v w))"

lemma data_at:
  "those (map datum_of vs) = Some ds \<Longrightarrow> list_all2 (val_at W s) vs as \<Longrightarrow> list_all2 (datum_at s) ds as"
proof (induction vs arbitrary: ds as)
  case (Cons v vs)
  then obtain d ds' where d: "v = Obj d" "ds = d # ds'" "those (map datum_of vs) = Some ds'"
    by (cases v) (auto split: option.splits)
  obtain a as' where "as = a # as'" "val_at W s v a" "list_all2 (val_at W s) vs as'"
    using Cons.prems(2) by (auto simp: list_all2_Cons1)
  with d Cons.IH show ?case
    by (auto elim: val_at_objE)
qed simp

lemma applies_applied:
  assumes run: "\<And>\<rho>. runs W \<gamma> (f \<rho>) \<rho>" "\<And>\<rho>. costs (f \<rho>)" and app: "applied f fv vs = Some (v, n, d)"
  shows "applies W \<gamma> fv vs v n d"
  unfolding applies_def
proof (intro allI impI)
  fix s a args as
  assume s: "lookup s (R1 s) = Some (mk_cell TPAIR a args)" "val_at W s fv a" "list_at s args as"
    "list_all2 (val_at W s) vs as" "budget W \<gamma> n (max 1 d) s"
  show "\<exists>t w. gives W Apply s w t \<and> spends n s t \<and> val_at W t v w"
  proof (cases fv)
    case (Obj d)
    with app show ?thesis by simp
  next
    case (Prim p)
    obtain ds d' k where p: "those (map datum_of vs) = Some ds" "prim_value p ds = Some (d', k)" "v = Obj d'" "n = 3 + k"
      using app Prim by (auto split: option.splits)
    obtain g where g: "builtin_at s a (prim_arity p) g" "implements (call_function W g) p"
      using s(2) Prim by (auto elim: val_at_primE)
    have "stack_room s" "ready (3 + k) s"
      using budget_stack [OF s(5)] budget_ready [OF s(5), of "3 + k"] p(4) by auto
    then show ?thesis
      using apply_prim_ok [where W = W, OF s(1) g p(2) s(3) data_at [OF p(1) s(4)]] p(3,4) by (auto intro: val_at.obj)
  next
    case (Clo ks b \<rho>)
    then obtain k where c: "length vs = length ks" "bodies (f (zip ks vs @ \<rho>)) b = Some (v, k, d)" "n = 2 * int (length ks) + 4 + k"
      using app by (auto split: option.splits if_splits)
    show ?thesis
      using apply_value_ok [OF run c(2) s(1) _ s(3,4) c(1)] s(2,5) Clo c(3) by simp
  qed
qed

lemma apply_compound_ok:
  assumes op: "runs W \<gamma> f \<rho>" "f e = Some (fv, n0, d0)" "costs f" "\<And>d. fv \<noteq> Obj d"
    and app: "applies W \<gamma> fv vs v m d" "0 \<le> m"
    and form: "lookup s (R1 s) = Some (mk_cell TPAIR x args)" "exp_at s e x" "compound e"
    and env: "env_at W s \<rho> (R0 s)"
    and args: "list_at s args as" "list_all2 (val_at W s) vs as"
    and bud: "budget W \<gamma> (n0 + 1 + m) (max (1 + d0) d) s"
  shows "\<exists>t w. gives W Apply s w t \<and> spends (n0 + 1 + m) s t \<and> val_at W t v w"
proof -
  let ?s = "procedure_noted x s"
  note pos = costsD [OF op(3,2)] app(2)
  have room: "stack_room s" "stack_room ?s"
    using budget_stack [OF bud] pos by (auto simp: stack_room_def procedure_noted_def)
  have e1: "eval_step W Apply s = Some (Inr (Goto Eval), cc_pushed x (R1 ?s) (R0 ?s) cell_vm_apply2 ?s)"
    using apply_operator_step [OF form room(1)] by simp
  have at: "exp_at ?s e x" "env_at W ?s \<rho> (R0 ?s)"
    using exp_at_extends [OF _ form(2)] env_at_extends [OF _ env] by simp_all
  have "budget W \<gamma> n0 (d0 + 1) ?s"
    using budget_mono [OF bud, of n0 "d0 + 1"] pos by auto
  then obtain t a where t: "gives W Eval (cc_pushed x (R1 ?s) (R0 ?s) cell_vm_apply2 ?s) a t" "spends n0 ?s t"
    "val_at W t fv a"
    by (rule runs_framed [OF op(1,2) at])
  let ?r = "resumed ?s (R1 ?s) cell_vm_apply2 a t"
  have sr: "spends n0 s ?r" and er: "extends s ?r" and et: "extends t ?r" "extends ?r t"
    using t(2) spends_extends [OF t(2)] by (simp_all add: extends_def procedure_noted_def)
  have br: "budget W \<gamma> (1 + m) (max 1 d) ?r"
    by (rule budget_spent [OF budget_mono [OF bud] sr]) (use pos in auto)
  then have rdy: "ready 1 ?r"
    by (rule budget_ready) (use pos in simp)
  have val: "val_at W ?r fv a"
    by (rule val_at_extends [OF et(1) t(3)])
  let ?z = "push_cell (mk_cell TPAIR a args) ?r"
  let ?q = "?z\<lparr>R1 := g_free t\<rparr>"
  have sp: "spends 1 ?r ?q" and rq: "extends ?r ?q"
    using grows_spends [OF grows_push_cell, of ?r] rdy by (simp_all add: ready_def)
  have e2: "eval_step W Apply2 ?r = Some (Inr (Goto Apply), ?q)"
    using extends_lookup [OF er form(1)] check_apply_value [OF val op(4)] rdy
    by (simp add: step_apply2_def ready_def)
  have bq: "budget W \<gamma> m (max 1 d) ?q"
    by (rule budget_spent [OF br sp]) simp_all
  have sq: "extends s ?q"
    by (rule extends_trans [OF er rq])
  have form': "lookup ?q (R1 ?q) = Some (mk_cell TPAIR a args)"
    by simp
  obtain u w where u: "gives W Apply ?q w u" "spends m ?q u" "val_at W u v w"
    using app(1) form' val_at_extends [OF rq val] list_at_extends [OF sq args(1)]
        list_val_at_extends [OF sq args(2)] bq unfolding applies_def by blast
  have "gives W Apply2 ?r w u"
    by (rule gives_go [OF e2 _ u(1)]) (simp add: below_def)
  then have "gives W Apply s w u"
    by (intro gives_through_frame [OF e1 room(2) _ t(1)]) (simp_all add: continuations_def cells)
  moreover have "spends (n0 + 1 + m) s u"
    by (rule spends_trans [OF spends_trans [OF sr sp] u(2)])
  ultimately show ?thesis
    using u(3) by blast
qed

section \<open>Expressions\<close>

lemma eval_value:
  assumes "eval_step W Eval s = Some (Inr (Goto Vm_return), t\<lparr>R1 := a\<rparr>)" "spends n s t"
    and "stack t = stack s" "g_stack t = g_stack s" "val_at W t v a"
  shows "\<exists>t a. gives W Eval s a t \<and> spends n s t \<and> val_at W t v a"
proof -
  have "below s (t\<lparr>R1 := a\<rparr>)"
    using assms(2-4) by (simp add: below_def spends_def)
  then have "gives W Eval s a (t\<lparr>R1 := a\<rparr>)"
    using gives_go [OF assms(1), of a "t\<lparr>R1 := a\<rparr>"] by (simp add: gives_def stay)
  then show ?thesis
    using assms(2,5) by (intro exI [of _ "t\<lparr>R1 := a\<rparr>"] exI [of _ a]) simp
qed

text \<open>A form that is not a call: its step is that of \<open>eval_form\<close>.\<close>

lemma eval_special:
  assumes "lookup s (R1 s) = Some (mk_cell TPAIR c d)" "symbol_cell s c"
  shows "eval_step W Eval s = eval_form W s"
proof -
  obtain k where "heap s c = Some k" "ctype k \<noteq> TBINDING"
    using assms(2) by (auto simp: symbol_cell_def)
  then show ?thesis
    using assms(1) by (intro eval_pair_form [of s c d k]) (auto simp: pair_at_def)
qed

lemma eval_lambda:
  assumes lam: "exp_at s (Lam ks b) (R1 s)" and env: "env_at W s \<rho> (R0 s)" and bud: "budget W \<gamma> 4 d s"
  shows "\<exists>t a. gives W Eval s a t \<and> spends 4 s t \<and> val_at W t (Clo ks b \<rho>) a"
proof -
  obtain p formals body bs where c: "lookup s (R1 s) = Some (mk_cell TPAIR cell_symbol_lambda p)"
    "lookup s p = Some (mk_cell TPAIR formals body)" "formals_at s formals ks None"
    "set ks \<inter> reserved = {}" "list_at s body bs" "list_all2 (exp_at s) b bs" "symbol_cell s cell_symbol_lambda"
    using lam by cases blast
  obtain k0 m kvs where k: "frame_at s (R0 s) ((k0, m) # kvs)" "bound (val_at W s) \<rho> kvs" "marker k0"
    using env by (auto simp: env_at_def)
  then obtain h aa where e: "lookup s (R0 s) = Some (mk_cell TPAIR h aa)" "frame_at s aa kvs"
    using frame_pair by blast
  let ?g = "g_free s"
  let ?t1 = "push_cell (mk_cell TPAIR cell_circular (R0 s)) s"
  let ?t2 = "push_cell (mk_cell TPAIR formals body) ?t1"
  let ?t3 = "push_cell (mk_cell TPAIR ?g (?g + 1)) ?t2"
  let ?t = "push_cell (mk_cell TCLOSURE cell_f (?g + 2)) ?t3"
  have ok: "arena_ok s" "room 4 s" "room 3 s" "room 2 s" "room 1 s"
    using bud by (auto simp: budget_def room_def)
  have "make_closure_c formals body (R0 s) s = Some (Inr (?g + 3), ?t)"
    using ok by (simp add: make_closure_c_def make_cell_ok add.commute)
  then have step: "eval_step W Eval s = Some (Inr (Goto Vm_return), ?t\<lparr>R1 := ?g + 3\<rparr>)"
    using c(1,2) by (simp only: eval_special [OF c(1,7)])
      (simp add: eval_form_def give_def cells)
  have "grows (1 + 1 + 1 + 1) s ?t"
    by (rule grows_trans [OF grows_trans [OF grows_trans [of 1 s ?t1 1 ?t2], of 1 ?t3], of 1 ?t]) (use ok in simp_all)
  then have sp: "spends 4 s ?t"
    using grows_spends by simp
  note x = spends_extends [OF sp]
  have "lookup ?t (?g + 3) = Some (mk_cell TCLOSURE cell_f (?g + 2))" "lookup ?t (?g + 2) = Some (mk_cell TPAIR ?g (?g + 1))"
    "lookup ?t (?g + 1) = Some (mk_cell TPAIR formals body)" "lookup ?t ?g = Some (mk_cell TPAIR cell_circular (R0 s))"
    by simp_all
  then have "closure_at ?t (?g + 3) formals body aa"
    unfolding closure_at_def using extends_lookup [OF x e(1)] by blast
  then have val: "val_at W ?t (Clo ks b \<rho>) (?g + 3)"
    by (rule val_at.clo [OF _ formals_at_extends [OF x c(3)] c(4) list_at_extends [OF x c(5)]
        list_exp_at_extends [OF x c(6)] frame_at_extends [OF x e(2)] bound_mp [OF k(2) val_at_extends [OF x]]])
  show ?thesis
    by (rule eval_value [OF step sp _ _ val]) simp_all
qed

lemma eval_if:
  assumes run: "runs W \<gamma> f \<rho>" and f: "costs f" and c: "f c = Some (v, n1, d1)"
    and branch: "f (if v = Obj (DAtom cell_f) then y else x) = Some (w, n2, d2)"
    and form: "exp_at s (If c x y) (R1 s)" and env: "env_at W s \<rho> (R0 s)"
    and bud: "budget W \<gamma> (n1 + n2) (max (1 + d1) d2) s"
  shows "\<exists>t a. gives W Eval s a t \<and> spends (n1 + n2) s t \<and> val_at W t w a"
proof -
  obtain p c' q x' r y' z where e: "lookup s (R1 s) = Some (mk_cell TPAIR cell_symbol_if p)"
    "symbol_cell s cell_symbol_if" "lookup s p = Some (mk_cell TPAIR c' q)" "lookup s q = Some (mk_cell TPAIR x' r)"
    "lookup s r = Some (mk_cell TPAIR y' z)" "r \<noteq> cell_nil" "exp_at s c c'" "exp_at s x x'" "exp_at s y y'"
    using form by cases blast
  note pos = costsD [OF f c] costsD [OF f branch]
  let ?s = "s\<lparr>R1 := p\<rparr>"
  have e1: "eval_step W Eval s = Some (Inr (Goto Vm_if), ?s)"
    using e(1) by (simp only: eval_special [OF e(1,2)]) (simp add: eval_form_def cells)
  have room: "stack_room ?s"
    using budget_stack [OF bud] pos by (auto simp: stack_room_def)
  have "budget W \<gamma> n1 (d1 + 1) ?s"
    using budget_mono [OF bud, of n1 "d1 + 1"] pos by simp
  moreover have "exp_at ?s c c'" "env_at W ?s \<rho> (R0 ?s)"
    using e(7) env by simp_all
  ultimately obtain t a where t: "gives W Eval (cc_pushed c' p (R0 ?s) cell_vm_if_expr ?s) a t" "spends n1 ?s t" "val_at W t v a"
    using runs_framed [OF run c] by blast
  let ?r = "resumed ?s p cell_vm_if_expr a t"
  have sr: "spends n1 s ?r" and er: "extends s ?r"
    using t(2) spends_extends [OF t(2)] by simp_all
  have br: "budget W \<gamma> n2 d2 ?r"
    by (rule budget_spent [OF budget_mono [OF bud] sr]) (use pos in auto)
  have false: "a = cell_f \<longleftrightarrow> v = Obj (DAtom cell_f)"
  proof
    assume "v = Obj (DAtom cell_f)"
    then show "a = cell_f" using t(3) by (auto elim: val_at_objE simp: datum_at_def)
  next
    assume a: "a = cell_f"
    have "specials_ok t"
      using bud specials_ok_extends [OF spends_extends [OF t(2)]] specials_ok_extends [of s ?s] by (auto simp: budget_def)
    then obtain k where k: "heap t cell_f = Some k" "ctype k = TSPECIAL"
      using specials_okD [of t cell_f] by (auto simp: cells)
    show "v = Obj (DAtom cell_f)"
      using t(3)
    proof cases
      case (obj d)
      have "datum_at t (DAtom cell_f) cell_f"
        by (rule special_datum [OF \<open>specials_ok t\<close>]) (simp_all add: cells)
      then show ?thesis
        using obj a repr_unique(1) by (auto simp: datum_at_def)
    next
      case (prim p f)
      then show ?thesis
        using builtin_at_type k a by fastforce
    qed (use k a in \<open>auto simp: closure_at_def\<close>)
  qed
  let ?e = "if v = Obj (DAtom cell_f) then y else x"
  let ?b = "if v = Obj (DAtom cell_f) then y' else x'"
  let ?q = "?r\<lparr>R1 := ?b\<rparr>"
  have e2: "eval_step W If_expr ?r = Some (Inr (Goto Eval), ?q)"
    using extends_lookup [OF er e(3)] extends_lookup [OF er e(4)] extends_lookup [OF er e(5)] e(6) false
    by (simp add: step_if_expr_def)
  have "exp_at ?r ?e ?b" "env_at W ?r \<rho> (R0 s)"
    using exp_at_extends [OF er e(8)] exp_at_extends [OF er e(9)] env_at_extends [OF er env] by simp_all
  then have "exp_at ?q ?e (R1 ?q)" "env_at W ?q \<rho> (R0 ?q)" "budget W \<gamma> n2 d2 ?q"
    using br by (simp_all only: state_R1) simp_all
  then obtain u b where u: "gives W Eval ?q b u" "spends n2 ?q u" "val_at W u w b"
    by (rule runsD [OF run branch])
  have g2: "gives W If_expr ?r b u"
    by (rule gives_go [OF e2 _ u(1)]) (simp add: below_def)
  have g1: "gives W Vm_if ?s b u"
    by (rule gives_through_frame [OF _ room below_refl t(1) continuation_of(3) g2])
      (use e(3) room in \<open>simp add: step_vm_if_def push_goto_ok\<close>)
  have "gives W Eval s b u"
    by (rule gives_go [OF e1 _ g1]) (simp add: below_def)
  moreover have "spends (n1 + n2) s u"
    by (rule spends_trans [OF sr]) (use u(2) in simp)
  ultimately show ?thesis
    using u(3) by blast
qed

text \<open>A call: the operator, the operands, and the application to them.\<close>

lemma eval_call_ok:
  assumes run: "\<And>\<rho>. runs W \<gamma> (F \<rho>) \<rho>" and f: "\<And>\<rho>. costs (F \<rho>)" and op: "F \<rho> e = Some (fv, n0, d0)"
    and ops: "evals (F \<rho>) es = Some (vs, n1, d1)" and app: "applied F fv vs = Some (v, m, d2)"
    and lam: "\<And>ks b. e = Lam ks b \<Longrightarrow> fv = Clo ks b \<rho>" "\<And>a. e \<noteq> Const a" "\<And>a. e \<noteq> Quote a"
    and form: "exp_at s (Call e es) (R1 s)" and env: "env_at W s \<rho> (R0 s)"
    and bud: "budget W \<gamma> (2 * n0 + n1 + 2 + m) (max (1 + d0) (max (1 + d1) d2)) s"
  shows "\<exists>t a. gives W Eval s a t \<and> spends (2 * n0 + n1 + 2 + m) s t \<and> val_at W t v a"
proof -
  have m: "0 \<le> m"
    using applied_nonneg [OF _ app] f costsD by blast
  have nobj: "\<And>d. fv \<noteq> Obj d"
    using app by auto
  obtain x p xs where c: "lookup s (R1 s) = Some (mk_cell TPAIR x p)" "x \<notin> reserved" "exp_at s e x"
    "list_at s p xs" "list_all2 (exp_at s) es xs"
    using form by cases blast
  note pos = costsD [OF f op] costs_evals [OF f ops] m
  have room: "stack_room s"
    using budget_stack [OF bud] pos by (auto simp: le_max_iff_disj)
  have b0: "budget W \<gamma> n0 (d0 + 1) s"
    using budget_mono [OF bud] pos by auto
  let ?s1 = "cc_pushed x (R1 s) (R0 s) cell_vm_eval_check_func s"
  have check: "gc_check (realloc W) (memory W) ?s1 = Some (Inr cell_unspecified, ?s1)"
    using gc_check_quiet [OF budget_pushed [OF b0]] pos by simp
  obtain k where k: "heap s x = Some k" "ctype k \<noteq> TBINDING"
    using exp_cell [OF c(3)] by auto
  have "eval_step W Eval s = eval_form W s"
    by (rule eval_pair_form [OF _ k]) (use c(1) in \<open>simp add: pair_at_def\<close>)
  also have "\<dots> = eval_call W s"
    using c(1,2) by (simp add: eval_form_def reserved_def)
  also have "\<dots> = Some (Inr (Goto Eval), ?s1)"
    using c(1) room check by (simp add: eval_call_def)
  finally have e1: "eval_step W Eval s = Some (Inr (Goto Eval), ?s1)" .
  obtain t a where t: "gives W Eval ?s1 a t" "spends n0 s t" "val_at W t fv a"
    by (rule runs_framed [OF run op c(3) env b0])
  let ?r1 = "resumed s (R1 s) cell_vm_eval_check_func a t"
  have sr: "spends n0 s ?r1" and er: "extends s ?r1"
    using t(2) spends_extends [OF t(2)] by simp_all
  have br: "budget W \<gamma> (n1 + 1 + (n0 + 1 + m)) (max (1 + d0) (max (1 + d1) d2)) ?r1"
    by (rule budget_spent [OF bud sr]) simp_all
  have rr: "stack_room ?r1"
    using budget_stack [OF br] pos by (auto simp: le_max_iff_disj)
  let ?s2 = "cc_pushed p (R1 s) (R0 s) cell_vm_eval2 ?r1"
  have e2: "eval_step W Eval_check_func ?r1 = Some (Inr (Goto Evlis), ?s2)"
    using extends_lookup [OF er c(1)] rr by (simp add: step_eval_check_func_def push_goto_ok)
  have es2: "extends s ?s2"
    using er by simp
  have "budget W \<gamma> n1 d1 ?s2"
    by (rule budget_pushed, rule budget_mono [OF br]) (use pos in auto)
  moreover have "list_at ?s2 (R1 ?s2) xs" "env_at W ?s2 \<rho> (R0 ?s2)"
    using list_at_extends [OF es2 c(4)] env_at_extends [OF es2 env] by simp_all
  ultimately obtain u as' as where u: "gives W Evlis ?s2 as' u" "spends n1 ?s2 u" "list_at u as' as" "list_all2 (val_at W u) vs as"
    using evlis_ok [OF run f ops _ list_exp_at_extends [OF es2 c(5)]] by blast
  let ?r2 = "resumed ?r1 (R1 s) cell_vm_eval2 as' u"
  have su: "spends n1 ?r1 ?r2" and eu: "extends s ?r2" "extends u ?r2"
    using u(2) extends_trans [OF es2 spends_extends [OF u(2)]] by simp_all
  have br2: "budget W \<gamma> (1 + (n0 + 1 + m)) (max (1 + d0) (max (1 + d1) d2)) ?r2"
    by (rule budget_spent [OF br su]) simp_all
  then have rdy: "ready 1 ?r2"
    by (rule budget_ready) (use pos in simp)
  let ?q = "(push_cell (mk_cell TPAIR x as') ?r2)\<lparr>R1 := g_free u\<rparr>"
  have sq: "spends 1 ?r2 ?q" and eq: "extends ?r2 ?q"
    using grows_spends [OF grows_push_cell, of ?r2] rdy by (simp_all add: ready_def)
  have e3: "eval_step W Eval2 ?r2 = Some (Inr (Goto Apply), ?q)"
    using extends_lookup [OF eu(1) c(1)] rdy by (simp add: step_eval2_def ready_def)
  have bq: "budget W \<gamma> (n0 + 1 + m) (max (1 + d0) (max (1 + d1) d2)) ?q"
    by (rule budget_spent [OF br2 sq]) simp_all
  have esq: "extends s ?q" and euq: "extends u ?q"
    using extends_trans [OF eu(1) eq] extends_trans [OF eu(2) eq] .
  have lk: "lookup ?q (R1 ?q) = Some (mk_cell TPAIR x as')"
    by simp
  note at = exp_at_extends [OF esq c(3)] list_at_extends [OF euq u(3)] list_val_at_extends [OF euq u(4)]
  have eq0: "env_at W ?q \<rho> (R0 ?q)"
    using env_at_extends [OF esq env] by simp
  have "\<exists>t w. gives W Apply ?q w t \<and> spends (n0 + 1 + m) ?q t \<and> val_at W t v w"
  proof (cases "\<exists>ks b. e = Lam ks b")
    case True
    then obtain ks b where e: "e = Lam ks b" "fv = Clo ks b \<rho>"
      using lam(1) by blast
    obtain k where k: "length vs = length ks" "bodies (F (zip ks vs @ \<rho>)) b = Some (v, k, d2)" "m = 2 * int (length ks) + 4 + k"
      using app e(2) by (auto split: option.splits if_splits)
    have "budget W \<gamma> (2 * int (length ks) + 4 + k) (max 1 d2) ?q"
      by (rule budget_mono [OF bq]) (use pos k(3) in auto)
    then have "\<exists>t w. gives W Apply ?q w t \<and> spends (2 * int (length ks) + 4 + k) ?q t \<and> val_at W t v w"
      using apply_lambda_ok [OF run f k(2) lk _ eq0 at(2,3) k(1)] at(1) e(1) by blast
    then show ?thesis
      using spends_mono [of m ?q _ "n0 + 1 + m"] pos k(3) by fastforce
  next
    case False
    then have "compound e"
      using lam(2,3) by (cases e) (auto simp: compound_def)
    then show ?thesis
      using apply_compound_ok [OF run op f nobj applies_applied [OF run f app] m lk at(1) _ eq0 at(2,3) budget_mono [OF bq]] by auto
  qed
  then obtain z w where z: "gives W Apply ?q w z" "spends (n0 + 1 + m) ?q z" "val_at W z v w"
    by blast
  have "gives W Eval2 ?r2 w z"
    by (rule gives_go [OF e3 _ z(1)]) (simp add: below_def)
  then have "gives W Eval_check_func ?r1 w z"
    by (rule gives_through_frame [OF e2 rr below_refl u(1) continuation_of(5)])
  then have "gives W Eval s w z"
    by (rule gives_through_frame [OF e1 room below_refl t(1) continuation_of(6)])
  moreover have "spends (n0 + (n1 + (1 + (n0 + 1 + m)))) s z"
    by (rule spends_trans [OF sr spends_trans [OF su spends_trans [OF sq z(2)]]])
  then have "spends (2 * n0 + n1 + 2 + m) s z"
    by (rule spends_mono) simp
  ultimately show ?thesis
    using z(3) by blast
qed

section \<open>Refinement\<close>

lemma value_defined:
  assumes "val_at W s v a" "specials_ok s"
  shows "a \<noteq> cell_undefined"
proof
  assume a: "a = cell_undefined"
  obtain k where "heap s cell_undefined = Some k" "ctype k = TSPECIAL"
    using specials_okD [OF assms(2), of cell_undefined] by (auto simp: cells)
  note k = this
  show False
    using assms(1)
  proof cases
    case (obj d)
    then have "d = DAtom cell_undefined"
      using k a by (cases d) (auto simp: datum_at_def text_at_def)
    then show ?thesis
      using obj by (simp add: datum_at_def)
  next
    case (prim p f)
    then show ?thesis
      using builtin_at_type k a by fastforce
  qed (use k a in \<open>auto simp: closure_at_def\<close>)
qed

lemma runs_interp: "runs W \<gamma> (interp \<gamma> m \<rho>) \<rho>"
proof (induction m arbitrary: \<rho>)
  case 0
  then show ?case by (simp add: runs_def)
next
  case (Suc m)
  show ?case
    unfolding runs_def
  proof (intro allI impI)
    fix e v n d s
    assume i: "interp \<gamma> (Suc m) \<rho> e = Some (v, n, d)" and x: "exp_at s e (R1 s)"
      and env: "env_at W s \<rho> (R0 s)" and bud: "budget W \<gamma> n d s"
    have ok: "arena_ok s"
      using bud by (simp add: budget_def)
    have s: "s\<lparr>R1 := R1 s\<rparr> = s" by simp
    show "\<exists>t a. gives W Eval s a t \<and> spends n s t \<and> val_at W t v a"
    proof (cases e)
      case (Const d')
      then obtain c where c: "lookup s (R1 s) = Some c" "self_evaluating (ctype c)" "datum_at s d' (R1 s)"
        using x by (auto elim: exp_at.cases simp del: lookup_Some)
      have "gives W Eval s (R1 s) s"
        by (rule eval_constant) (use c in auto)
      moreover have "val_at W s v (R1 s)" "n = 0"
        using i Const c(3) by (auto intro: val_at.obj)
      ultimately show ?thesis
        using spends_refl [OF ok] by blast
    next
      case (Quote d')
      then obtain a p q where c: "lookup s (R1 s) = Some (mk_cell TPAIR cell_symbol_quote p)"
        "lookup s p = Some (mk_cell TPAIR a q)" "symbol_cell s cell_symbol_quote" "datum_at s d' a"
        using x by (auto elim: exp_at.cases simp del: lookup_Some)
      have step: "eval_step W Eval s = Some (Inr (Goto Vm_return), s\<lparr>R1 := a\<rparr>)"
        using c(1,2) by (simp only: eval_special [OF c(1,3)]) (simp add: eval_form_def give_def)
      have v: "val_at W s v a" "n = 0"
        using i Quote c(4) by (auto intro: val_at.obj)
      show ?thesis
        by (rule eval_value [OF step _ refl refl v(1)]) (simp add: v(2) spends_refl [OF ok])
    next
      case (Var k)
      then have k: "k = R1 s" "symbol_cell s k" "k \<notin> reserved"
        using x by (auto elim: exp_at.cases)
      obtain k0 m0 kvs where kvs: "frame_at s (R0 s) ((k0, m0) # kvs)" "marker k0" "bound (val_at W s) \<rho> kvs"
        using env by (auto simp: env_at_def)
      have nk: "R1 s \<notin> {cell_symbol_current_environment, cell_symbol_begin, cell_symbol_call_with_current_continuation}"
        "k \<noteq> k0"
        using k reserved_marker [OF k(3)] kvs(2) by (auto simp: reserved_def)
      have def: "a \<noteq> cell_undefined" if "val_at W s v' a" for v' a
        using value_defined [OF that] bud by (simp add: budget_def)
      have "\<exists>a t. gives W Eval s a t \<and> spends n s t \<and> val_at W s v a"
      proof (cases "map_of \<rho> k")
        case (Some v')
        then have v: "v' = v" "n = 1"
          using i Var by simp_all
        obtain a where a: "map_of kvs k = Some a" "val_at W s v a"
          using bound_lookup [OF kvs(3) Some reserved_marker [OF k(3)]] v(1) by auto
        then show ?thesis
          using eval_symbol [where W = W, OF _ kvs(1), of a] k nk def [OF a(2)] budget_ready [OF bud, of 1] v(2) by auto
      next
        case None
        then have v: "\<gamma> k = Some v" "n = 3"
          using i Var by (auto split: option.splits)
        obtain names m bs var a where g: "M1 s = cell_f" "hash_dict s (M0 s) names m" "names k = Some bs" "m k = Some var"
          "variable_at s var a" "val_at W s v a"
          using bud v(1) unfolding budget_def globals_at_def by blast
        have "map_of ((k0, m0) # kvs) k = None"
          using bound_lookup_none [OF kvs(3) None reserved_marker [OF k(3)]] nk(2) by simp
        then obtain t where "lookup_value W k s = Some (Inr a, t)" "grows 3 s t"
          using lookup_value_global [OF kvs(1) _ k(2) _ g(1-5)] budget_ready [OF bud, of 3] v(2) by auto
        then show ?thesis
          using eval_global [of s W a t 3] k(1,2) nk(1) def [OF g(6)] g(6) v(2) by blast
      qed
      then show ?thesis
        using val_at_extends spends_extends by blast
    next
      case (If c e1 e2)
      then show ?thesis
        using i x eval_if [OF Suc.IH costs_interp _ _ _ env] bud
        by (auto split: option.splits simp del: if_split)
    next
      case (Lam ks b)
      then have "v = Clo ks b \<rho>" "n = 4"
        using i by simp_all
      then show ?thesis
        using eval_lambda [where W = W, OF _ env] x bud Lam by simp
    next
      case (Call f es)
      obtain fv n0 d0 vs n1 d1 n2 d2 where c: "interp \<gamma> m \<rho> f = Some (fv, n0, d0)"
        "evals (interp \<gamma> m \<rho>) es = Some (vs, n1, d1)" "applied (interp \<gamma> m) fv vs = Some (v, n2, d2)"
        "n = 2 * n0 + n1 + 2 + n2" "d = max (1 + d0) (max (1 + d1) d2)"
        using i Call by (auto split: option.splits)
      have nobj: "fv \<noteq> Obj b" for b
        using c(3) by auto
      have f: "\<And>ks b. f = Lam ks b \<Longrightarrow> fv = Clo ks b \<rho>" "\<And>a. f \<noteq> Const a" "\<And>a. f \<noteq> Quote a"
        using c(1) nobj by (cases m; auto)+
      show ?thesis
        using eval_call_ok [OF Suc.IH costs_interp c(1-3) f _ env] x bud Call c(4,5) by blast
    qed
  qed
qed

text \<open>
  The evaluator refines the interpreter: where the interpreter gives a value, the machine, started
  at \<^verbatim>\<open>eval\<close> with the continuation \<^verbatim>\<open>cell_unspecified\<close>, returns a representation of it,
  within the cells and the frames of the interpreter's cost, and leaves the stack below as it was.
\<close>

lemma evaluator_refines:
  assumes "interp \<gamma> m \<rho> e = Some (v, n, d)" "exp_at s e x" "env_at W s \<rho> (R0 s)" "budget W \<gamma> n (d + 1) s"
  shows "\<exists>t a. run_from W Eval (cc_pushed x p2 (R0 s) cell_unspecified s) = Some (Inr a, t)
     \<and> val_at W t v a \<and> spends n s t \<and> below s t \<and> R0 t = R0 s"
proof -
  obtain t a where t: "gives W Eval (cc_pushed x p2 (R0 s) cell_unspecified s) a t" "spends n s t" "val_at W t v a"
    by (rule runs_framed [OF runs_interp assms])
  let ?r = "resumed s p2 cell_unspecified a t"
  have room: "stack_room s"
    using budget_stack [OF assms(4)] interp_nonneg [OF assms(1)] by simp
  have "val_at W ?r v a"
    by (rule val_at_extends [OF _ t(3)]) simp
  then show ?thesis
    using returns_value [OF room t(1)] t(2) by (intro exI [of _ ?r] exI [of _ a]) simp
qed

end
