(* ===== verification/Mes_Io.thy ===== *)
theory Mes_Io
  imports Mes_Strings Mes_Libc
begin

text \<open>
  Ports: the characters of a file descriptor (src/lib/mes: fdgetc, fdungetc, fdputc, fdputs), the
  current ports, string ports and the operations on bytes and characters of src/src/posix.c, and
  \<^verbatim>\<open>read_string\<close> of string.c. \<open>infile fd\<close> is what \<^verbatim>\<open>read\<close> has still to deliver for a
  descriptor; \<open>outlog\<close> collects what \<^verbatim>\<open>write\<close> is given. A current input port below 0 is the
  number of a string port in \<^verbatim>\<open>g_ports\<close>.
\<close>

section \<open>File descriptors\<close>

definition ungetc_p :: "int \<Rightarrow> bool mes" where
  "ungetc_p fd = gets (\<lambda>s. ungetc_buf s fd \<ge> 0)"

definition ungetc_set :: "int \<Rightarrow> int \<Rightarrow> unit mes" where
  "ungetc_set fd c = modify (\<lambda>s. s\<lparr>ungetc_buf := (ungetc_buf s)(fd := c)\<rparr>)"

text \<open>A \<^verbatim>\<open>read\<close> of one byte: nothing at the end of the input.\<close>

definition read1 :: "int \<Rightarrow> byte option mes" where
  "read1 fd = (\<lambda>s. case infile s fd of
     [] \<Rightarrow> Some (Inr None, s)
   | b # bs \<Rightarrow> Some (Inr (Some b), s\<lparr>infile := (infile s)(fd := bs)\<rparr>))"

definition fdgetc :: "int \<Rightarrow> int mes" where
  "fdgetc fd =
     mbind (gets (\<lambda>s. ungetc_buf s fd)) (\<lambda>i.
     if i \<ge> 0 then mseq (ungetc_set fd (-1)) (ret i)
     else mbind (read1 fd) (\<lambda>r. case r of
         None \<Rightarrow> ret (-1)
       | Some c \<Rightarrow> ret (if sint c < 0 then sint c + 256 else sint c)))"

definition fdungetc :: "int \<Rightarrow> int \<Rightarrow> int mes" where
  "fdungetc c fd =
     (if c = -1 then ret c
      else mbind (ungetc_p fd) (\<lambda>b.
        if b then mseq (assert_msg False ''0'') (mseq (ungetc_set fd c) (ret c))
        else mseq (ungetc_set fd c) (ret c)))"

definition write_bytes :: "int \<Rightarrow> byte list \<Rightarrow> unit mes" where
  "write_bytes fd bs = modify (\<lambda>s. s\<lparr>outlog := rev (map (Pair fd) bs) @ outlog s\<rparr>)"

definition fdputc :: "int \<Rightarrow> int \<Rightarrow> unit mes" where
  "fdputc c fd = write_bytes fd [of_int c]"

definition fdputs :: "byte list \<Rightarrow> int \<Rightarrow> unit mes" where
  "fdputs str fd = write_bytes fd (take (nat (strlen str)) str)"

section \<open>The current ports\<close>

text \<open>Past the last port the C code dereferences what is in the cell.\<close>

partial_function (option) find_port :: "int \<Rightarrow> addr \<Rightarrow> addr mes" where
  "find_port fd x s =
     (if x \<noteq> 0
      then mbind (get_car x) (\<lambda>a. mbind (get_car a) (\<lambda>n.
           if n = fd then ret a
           else mbind (get_cdr x) (\<lambda>d. find_port fd d)))
      else get_car x) s"

definition current_input_port :: "addr mes" where
  "current_input_port =
     mbind (gets infd) (\<lambda>fd.
     if fd \<ge> 0 then make_number fd
     else mbind (gets g_ports) (find_port fd))"

definition current_output_port :: "addr mes" where
  "current_output_port = mbind (gets outfd) make_number"

definition current_error_port :: "addr mes" where
  "current_error_port = mbind (gets errfd) make_number"

definition set_current_input_port :: "addr \<Rightarrow> addr mes" where
  "set_current_input_port port =
     mbind current_input_port (\<lambda>prev.
     mbind (get_type port) (\<lambda>t.
     mseq (if t = TNUMBER
           then mbind (get_cdr port) (\<lambda>p.
                modify (\<lambda>s. s\<lparr>infd := (if to_int p \<noteq> 0 then to_int p else 0)\<rparr>))
           else if t = TPORT
           then mbind (get_car port) (\<lambda>p. modify (\<lambda>s. s\<lparr>infd := to_int p\<rparr>))
           else ret ())
     (ret prev)))"

definition set_current_output_port :: "addr \<Rightarrow> addr mes" where
  "set_current_output_port port =
     mbind (get_cdr port) (\<lambda>v.
     mseq (modify (\<lambda>s. s\<lparr>outfd := (if v \<noteq> 0 then to_int v else 1)\<rparr>))
     current_output_port)"

definition set_current_error_port :: "addr \<Rightarrow> addr mes" where
  "set_current_error_port port =
     mbind (get_cdr port) (\<lambda>v.
     mseq (modify (\<lambda>s. s\<lparr>errfd := (if v \<noteq> 0 then to_int v else 2)\<rparr>))
     current_error_port)"

definition make_string_port :: "addr \<Rightarrow> addr mes" where
  "make_string_port x =
     mbind (gets g_ports) (\<lambda>ports. mbind (length_c ports) (\<lambda>n.
     make_pointer_cell TPORT (- n - 2) x))"

definition open_input_string :: "addr \<Rightarrow> addr mes" where
  "open_input_string string =
     mbind (make_string_port string) (\<lambda>port.
     mbind (gets g_ports) (\<lambda>ports. mbind (cons port ports) (\<lambda>p.
     mseq (modify (\<lambda>s. s\<lparr>g_ports := p\<rparr>))
     (ret port))))"

section \<open>Characters\<close>

text \<open>
  A \<^verbatim>\<open>char\<close> is signed, so that a byte from 128 on of a string port is a negative number. The
  byte in front of a payload, which \<^verbatim>\<open>unreadchar\<close> copies, is overwritten at once.
\<close>

definition readchar :: "int mes" where
  "readchar =
     mbind (gets infd) (\<lambda>fd.
     if fd \<ge> 0 then fdgetc fd
     else mbind current_input_port (\<lambda>port.
       mbind (get_cdr port) (\<lambda>string.
       mbind (get_car string) (\<lambda>len.
       if len = 0 then ret (-1)
       else mbind (get_cdr string) (\<lambda>v.
         mbind (cell_bytes v) (\<lambda>p.
         mbind (make_string (tl p) (len - 1)) (\<lambda>string'.
         mseq (set_cdr port string')
         (ret (sint (hd p))))))))))"

definition unreadchar :: "int \<Rightarrow> int mes" where
  "unreadchar c =
     mbind (gets infd) (\<lambda>fd.
     if fd \<ge> 0 then fdungetc c fd
     else if c = -1 then ret c
     else mbind current_input_port (\<lambda>port.
       mbind (get_cdr port) (\<lambda>string.
       mbind (get_car string) (\<lambda>len.
       mbind (get_cdr string) (\<lambda>v.
       mbind (cell_bytes v) (\<lambda>p.
       mbind (make_string (0 # p) (len + 1)) (\<lambda>string'.
       mbind (get_cdr string') (\<lambda>v'.
       mbind (cell_bytes v') (\<lambda>p'.
       mseq (set_bytes v' (p'[0 := of_int c]))
       (mseq (set_cdr port string')
       (ret c)))))))))))"

definition peekchar :: "int mes" where
  "peekchar =
     mbind (gets infd) (\<lambda>fd.
     if fd \<ge> 0 then mbind readchar (\<lambda>c. mseq (unreadchar c) (ret c))
     else mbind current_input_port (\<lambda>port.
       mbind (get_cdr port) (\<lambda>string.
       mbind (get_car string) (\<lambda>len.
       if len = 0 then ret (-1)
       else mbind (get_cdr string) (\<lambda>v.
         mbind (cell_bytes v) (\<lambda>p.
         ret (sint (hd p))))))))"

definition peek_byte :: "addr mes" where "peek_byte = mbind peekchar make_number"
definition read_byte :: "addr mes" where "read_byte = mbind readchar make_number"
definition peek_char :: "addr mes" where "peek_char = mbind peekchar make_char"

definition unread_byte :: "addr \<Rightarrow> addr mes" where
  "unread_byte i = mbind (get_cdr i) (\<lambda>v. mseq (unreadchar (to_int v)) (ret i))"

definition unread_char :: "addr \<Rightarrow> addr mes" where
  "unread_char i = mbind (get_cdr i) (\<lambda>v. mseq (unreadchar (to_int v)) (ret i))"

text \<open>The port that an optional argument names, for the time of \<open>p\<close>.\<close>

definition on_port :: "addr \<Rightarrow> 'a mes \<Rightarrow> 'a mes" where
  "on_port port p =
     mbind (gets infd) (\<lambda>fd.
     mseq (mbind (get_type port) (\<lambda>t.
           if t = TPAIR
           then mbind (get_car port) (\<lambda>q. mbind (get_type q) (\<lambda>tq.
                if tq = TNUMBER
                then mbind (get_cdr q) (\<lambda>v. modify (\<lambda>s. s\<lparr>infd := to_int v\<rparr>))
                else ret ()))
           else ret ()))
     (mbind p (\<lambda>x.
      mseq (modify (\<lambda>s. s\<lparr>infd := fd\<rparr>))
      (ret x))))"

definition read_char :: "addr \<Rightarrow> addr mes" where
  "read_char port = on_port port (mbind readchar make_char)"

partial_function (option) read_string_loop :: "int \<Rightarrow> byte list \<Rightarrow> byte list mes" where
  "read_string_loop c buf s =
     (if c \<noteq> -1
      then mbind (gets MAX_STRING) (\<lambda>m.
           mseq (mwhen (int (length buf) > m) (assert_max_string (int (length buf))))
           (mseq (in_g_buf (int (length buf)))
           (mbind readchar (\<lambda>c'. read_string_loop c' (buf @ [of_int c])))))
      else mseq (in_g_buf (int (length buf))) (ret buf)) s"

definition read_string :: "addr \<Rightarrow> addr mes" where
  "read_string port =
     mbind (on_port port (mbind readchar (\<lambda>c. read_string_loop c []))) (\<lambda>buf.
     make_string (buf @ [0]) (int (length buf)))"

text \<open>The byte is written before the type is checked.\<close>

definition write_byte :: "addr \<Rightarrow> addr mes" where
  "write_byte x =
     mbind (car x) (\<lambda>c. mbind (cdr x) (\<lambda>p.
     mbind (gets outfd) (\<lambda>out. mbind (gets errfd) (\<lambda>err.
     mbind (get_type p) (\<lambda>t.
     mbind (if t = TPAIR
            then mbind (get_car p) (\<lambda>f. mbind (get_type f) (\<lambda>tf.
                 if tf = TNUMBER
                 then mbind (get_cdr f) (\<lambda>v. ret (if v = 2 then err else if v \<noteq> 1 then to_int v else out))
                 else ret out))
            else ret out) (\<lambda>fd.
     mbind (get_cdr c) (\<lambda>v.
     mseq (write_bytes fd [of_int v])
     (mbind (get_type c) (\<lambda>tc.
      mseq (assert_msg (tc = TNUMBER \<or> tc = TCHAR) ''c->type == TNUMBER || c->type == TCHAR'')
      (ret c))))))))))"

definition write_char :: "addr \<Rightarrow> addr mes" where
  "write_char i = mseq (write_byte i) (ret i)"

definition exit_c :: "addr \<Rightarrow> addr mes" where
  "exit_c x =
     mbind (if x = cell_t then ret 0
            else if x = cell_f then ret 1
            else mbind (get_type x) (\<lambda>t.
              mseq (assert_msg (t = TNUMBER) ''x->type == TNUMBER'')
              (mbind (get_cdr x) (\<lambda>v. ret (to_int v))))) (\<lambda>status. fail (Exit status))"

definition primitive_exit :: "addr \<Rightarrow> addr mes" where
  "primitive_exit status = mbind (get_cdr status) (\<lambda>v. fail (Exit (to_int v)))"

definition seconds_and_nanoseconds_to_long :: "int \<Rightarrow> int \<Rightarrow> int" where
  "seconds_and_nanoseconds_to_long secs ns =
     (if ns < 0 then to_long (secs * 1000000000 - (- ns) div 1)
      else to_long (secs * 1000000000 + ns div 1))"

end
