(* ===== verification/Mes_Posix.thy ===== *)
theory Mes_Posix
  imports Mes_Io Mes_Hash Mes_Lists Mes_Module
begin

text \<open>
  The builtins that call the operating system: the rest of src/src/posix.c, and
  src/src/mescc-posix.c. The system is the parameter \<open>os\<close>: given the name of a function of the C
  library and its arguments, it answers with the return value, the numbers and the texts that the
  function stores through its pointers; it may change the state. Strings that are passed end at
  their first null byte. An \<^verbatim>\<open>error\<close> raises an exception of the model, as elsewhere.
\<close>

section \<open>The system\<close>

datatype os_arg = OInt int | OText "byte list" | OTexts "byte list list"

type_synonym os = "string \<Rightarrow> os_arg list \<Rightarrow> (int \<times> int list \<times> byte list list) mes"

definition os_value :: "os \<Rightarrow> string \<Rightarrow> os_arg list \<Rightarrow> int mes" where
  "os_value os f args = mbind (os f args) (\<lambda>(r, ns, ts). ret r)"

text \<open>\<^verbatim>\<open>cell_bytes (x->string)\<close>, as a C string.\<close>

definition c_string :: "addr \<Rightarrow> byte list mes" where
  "c_string x = mbind (get_cdr x) (\<lambda>v. mbind (cell_bytes v) (\<lambda>p. ret (takeWhile (\<lambda>b. b \<noteq> 0) p)))"

section \<open>posix.c\<close>

definition abort_c :: "os \<Rightarrow> addr mes" where
  "abort_c os =
     mbind (os_value os ''raise'' [OInt 6]) (\<lambda>r. if r < 0 then fail Segv else ret cell_unspecified)"

definition getenv_c :: "os \<Rightarrow> addr \<Rightarrow> addr mes" where
  "getenv_c os x =
     mbind (c_string x) (\<lambda>t. mbind (os ''environ'' []) (\<lambda>(r, ns, environ).
     case getenv (map (\<lambda>e. e @ [0]) environ) (t @ [0]) of
       Some p \<Rightarrow> make_string0 p
     | None \<Rightarrow> ret cell_f))"

text \<open>The name is copied to \<^verbatim>\<open>__setenv_buf\<close>, which has 1024 bytes.\<close>

definition setenv_c :: "os \<Rightarrow> addr \<Rightarrow> addr \<Rightarrow> addr mes" where
  "setenv_c os x v =
     mbind (c_string x) (\<lambda>name.
     if 1024 \<le> length name then fail Segv
     else mbind (c_string v) (\<lambda>val. mbind (os_value os ''setenv'' [OText name, OText val, OInt 1]) (\<lambda>_.
       ret cell_unspecified)))"

definition access_p :: "os \<Rightarrow> addr \<Rightarrow> addr \<Rightarrow> addr mes" where
  "access_p os file_name mode =
     mbind (c_string file_name) (\<lambda>t. mbind (get_cdr mode) (\<lambda>m.
     mbind (os_value os ''access'' [OText t, OInt (to_int m)]) (\<lambda>result.
     ret (if result = 0 then cell_t else cell_f))))"

text \<open>A descriptor that is opened has no character that was put back.\<close>

definition mes_open :: "os \<Rightarrow> byte list \<Rightarrow> int \<Rightarrow> int \<Rightarrow> int mes" where
  "mes_open os file_name flags perm =
     mbind (os_value os ''open'' [OText file_name, OInt flags, OInt perm]) (\<lambda>filedes.
     mseq (mwhen (filedes > 2) (ungetc_set filedes (-1))) (ret filedes))"

text \<open>The mode is \<^verbatim>\<open>S_IRUSR | S_IWUSR\<close>, the flags those of \<^verbatim>\<open>fcntl.h\<close>.\<close>

definition open_c :: "os \<Rightarrow> addr \<Rightarrow> addr \<Rightarrow> addr mes" where
  "open_c os file_name flags =
     mbind (c_string file_name) (\<lambda>t. mbind (get_cdr flags) (\<lambda>fl.
     mbind (mes_open os t (to_int fl) 384) (\<lambda>filedes.
     mseq (mwhen (filedes < 0) (system_error ''Cannot open file'' file_name))
     (make_number filedes))))"

definition open_input_file :: "os \<Rightarrow> addr \<Rightarrow> addr mes" where
  "open_input_file os file_name =
     mbind (c_string file_name) (\<lambda>t.
     mbind (mes_open os t 0 0) (\<lambda>filedes.
     mseq (mwhen (filedes = -1) (system_error ''No such file or directory'' file_name))
     (make_number filedes)))"

definition open_output_file :: "os \<Rightarrow> addr \<Rightarrow> addr mes" where
  "open_output_file os x =
     mbind (car x) (\<lambda>file_name. mbind (cdr x) (\<lambda>x. mbind (get_type x) (\<lambda>t.
     mbind (if t = TPAIR
            then mbind (car x) (\<lambda>i. mbind (get_type i) (\<lambda>ti.
                 if ti = TNUMBER then mbind (get_cdr i) (\<lambda>v. ret (to_int v)) else ret 384))
            else ret 384) (\<lambda>mode.
     mbind (c_string file_name) (\<lambda>name.
     mbind (mes_open os name 577 mode) make_number)))))"

definition chmod_c :: "os \<Rightarrow> addr \<Rightarrow> addr \<Rightarrow> addr mes" where
  "chmod_c os file_name mode =
     mbind (c_string file_name) (\<lambda>t. mbind (get_cdr mode) (\<lambda>m.
     mbind (os_value os ''chmod'' [OText t, OInt m]) (\<lambda>_. ret cell_unspecified)))"

definition isatty_p :: "os \<Rightarrow> addr \<Rightarrow> addr mes" where
  "isatty_p os port =
     mbind (get_cdr port) (\<lambda>fd. mbind (os_value os ''isatty'' [OInt (to_int fd)]) (\<lambda>r.
     ret (if r \<noteq> 0 then cell_t else cell_f)))"

definition primitive_fork :: "os \<Rightarrow> addr mes" where
  "primitive_fork os = mbind (os_value os ''fork'' []) make_number"

text \<open>The loops that fill the argument vector, which has 1024 entries.\<close>

partial_function (option) string_vector :: "string \<Rightarrow> addr \<Rightarrow> byte list list \<Rightarrow> byte list list mes" where
  "string_vector msg args acc s =
     (if args \<noteq> cell_nil
      then mbind (get_car args) (\<lambda>arg. mbind (get_type arg) (\<lambda>t.
           mseq (assert_msg (t = TSTRING) msg)
           (mbind (c_string arg) (\<lambda>p.
            if 1024 \<le> length acc then fail Segv
            else mbind (get_cdr args) (\<lambda>rest. string_vector msg rest (acc @ [p]))))))
      else if 1024 \<le> length acc then fail Segv else ret acc) s"

text \<open>\<^verbatim>\<open>error (cell_symbol_system_error, cons (file_name, cons (make_string0 (...), ...)))\<close>.\<close>

definition execl_c :: "os \<Rightarrow> addr \<Rightarrow> addr \<Rightarrow> addr mes" where
  "execl_c os file_name args =
     mbind (length_c args) (\<lambda>n.
     mseq (mwhen (n > 1000)
       (mbind (make_string0 (cstring ''too many arguments'')) (\<lambda>m. mbind (cons file_name args) (\<lambda>p.
        mbind (cons m p) (\<lambda>q. mbind (cons file_name q) (\<lambda>e. fail (Throw cell_symbol_system_error e)))))))
     (mbind (string_vector ''args->car->type == TSTRING'' args []) (\<lambda>argv.
      mbind (c_string file_name) (\<lambda>name.
      mbind (os_value os ''execv'' [OText name, OTexts argv]) make_number))))"

definition execle_c :: "os \<Rightarrow> addr \<Rightarrow> addr \<Rightarrow> addr \<Rightarrow> addr mes" where
  "execle_c os file_name args env =
     mbind (length_c args) (\<lambda>n.
     mseq (mwhen (n > 1000)
       (mbind (make_string0 (cstring ''too many arguments'')) (\<lambda>m. mbind (cons file_name args) (\<lambda>p.
        mbind (cons m p) (\<lambda>e. fail (Throw cell_symbol_system_error e))))))
     (mbind (string_vector ''args->car->type == TSTRING'' args []) (\<lambda>argv.
      mbind (length_c env) (\<lambda>k.
      mseq (mwhen (k > 1000)
        (mbind (make_string0 (cstring ''too many variables'')) (\<lambda>m. mbind (cons file_name env) (\<lambda>p.
         mbind (cons m p) (\<lambda>e. fail (Throw cell_symbol_system_error e))))))
      (mbind (string_vector ''env->car->type == TSTRING'' env []) (\<lambda>envp.
       mbind (c_string file_name) (\<lambda>name.
       mbind (os_value os ''execve'' [OText name, OTexts argv, OTexts envp]) make_number)))))))"

text \<open>Two fresh numbers, the first one made first.\<close>

definition number_pair :: "int \<Rightarrow> int \<Rightarrow> addr mes" where
  "number_pair m n = mbind (make_number m) (\<lambda>a. mbind (make_number n) (\<lambda>b. cons a b))"

definition waitpid_c :: "os \<Rightarrow> addr \<Rightarrow> addr \<Rightarrow> addr mes" where
  "waitpid_c os pid options =
     mbind (get_cdr pid) (\<lambda>p. mbind (get_cdr options) (\<lambda>opts.
     mbind (os ''waitpid'' [OInt (to_int p), OInt (to_int opts)]) (\<lambda>(child, ns, ts).
     number_pair child (hd ns))))"

text \<open>
  The C function lacks its \<^verbatim>\<open>return\<close>; with the compilers in use its caller gets the last value that
  was computed. The start time, a global of the C code, is handed to \<open>get_internal_run_time\<close>.
\<close>

definition init_time :: "os \<Rightarrow> addr \<Rightarrow> addr mes" where
  "init_time os a =
     mbind (os ''clock_gettime'' []) (\<lambda>_. mbind (make_number 1000000000) (\<lambda>n.
     acons cell_symbol_internal_time_units_per_second n a))"

definition current_time :: "os \<Rightarrow> addr mes" where
  "current_time os = mbind (os_value os ''time'' []) make_number"

definition gettimeofday_c :: "os \<Rightarrow> addr mes" where
  "gettimeofday_c os = mbind (os ''gettimeofday'' []) (\<lambda>(r, ns, ts). number_pair (ns ! 0) (ns ! 1))"

definition get_internal_run_time :: "os \<Rightarrow> int \<Rightarrow> int \<Rightarrow> addr mes" where
  "get_internal_run_time os start_sec start_nsec =
     mbind (os ''clock_gettime'' []) (\<lambda>(r, ns, ts).
     make_number (seconds_and_nanoseconds_to_long (to_long (ns ! 0 - start_sec)) (to_long (ns ! 1 - start_nsec))))"

definition getcwd_c :: "os \<Rightarrow> addr mes" where
  "getcwd_c os = mbind (os ''getcwd'' []) (\<lambda>(r, ns, ts). make_string0 (hd ts @ [0]))"

definition dup_c :: "os \<Rightarrow> addr \<Rightarrow> addr mes" where
  "dup_c os port = mbind (get_cdr port) (\<lambda>fd. mbind (os_value os ''dup'' [OInt (to_int fd)]) make_number)"

definition dup2_c :: "os \<Rightarrow> addr \<Rightarrow> addr \<Rightarrow> addr mes" where
  "dup2_c os old new =
     mbind (get_cdr old) (\<lambda>m. mbind (get_cdr new) (\<lambda>n.
     mbind (os_value os ''dup2'' [OInt (to_int m), OInt (to_int n)]) (\<lambda>_. ret cell_unspecified)))"

definition delete_file :: "os \<Rightarrow> addr \<Rightarrow> addr mes" where
  "delete_file os file_name =
     mbind (c_string file_name) (\<lambda>t. mbind (os_value os ''unlink'' [OText t]) (\<lambda>_. ret cell_unspecified))"

text \<open>A vector whose elements from an index on are made one after the other.\<close>

primrec fill_entries :: "addr \<Rightarrow> int \<Rightarrow> addr mes list \<Rightarrow> unit mes" where
  "fill_entries v i [] = ret ()"
| "fill_entries v i (p # ps) = mbind p (\<lambda>e. mseq (vector_set_x_c v i e) (fill_entries v (i + 1) ps))"

definition uname_c :: "os \<Rightarrow> addr mes" where
  "uname_c os =
     mbind (os ''uname'' []) (\<lambda>(r, ns, ts).
     mbind (make_vector_c 5 cell_unspecified) (\<lambda>v.
     mseq (fill_entries v 0 (map (\<lambda>t. make_string0 (t @ [0])) (take 5 ts))) (ret v)))"

section \<open>mescc-posix.c\<close>

definition check_type :: "addr \<Rightarrow> tag \<Rightarrow> string \<Rightarrow> unit mes" where
  "check_type x tg name =
     mbind (get_type x) (\<lambda>t. mwhen (t \<noteq> tg) (error_about cell_symbol_wrong_type_arg x name))"

text \<open>\<^verbatim>\<open>error (cell_symbol_wrong_number_of_args, cstring_to_symbol (name))\<close>.\<close>

definition wrong_number :: "string \<Rightarrow> unit mes" where
  "wrong_number name =
     mbind (cstring_to_symbol (cstring name)) (\<lambda>n. fail (Throw cell_symbol_wrong_number_of_args n))"

definition getpid_c :: "os \<Rightarrow> addr mes" where
  "getpid_c os = mbind (os_value os ''getpid'' []) make_number"

text \<open>The variable \<^verbatim>\<open>environ\<close> belongs to the system: asked for without argument, set with one.\<close>

primrec environ_list :: "byte list list \<Rightarrow> addr \<Rightarrow> addr mes" where
  "environ_list [] acc = ret acc"
| "environ_list (p # ps) acc =
     mbind (make_string0 (p @ [0])) (\<lambda>str. mbind (cons str acc) (environ_list ps))"

partial_function (option) check_strings :: "addr \<Rightarrow> addr \<Rightarrow> byte list list \<Rightarrow> byte list list mes" where
  "check_strings args env acc s =
     mbind (get_type env) (\<lambda>t.
     if t = TPAIR
     then mbind (get_car env) (\<lambda>a. mbind (get_type a) (\<lambda>ta.
          mseq (mwhen (ta \<noteq> TSTRING) (error_about cell_symbol_wrong_type_arg args ''environ''))
          (mbind (c_string a) (\<lambda>p. mbind (get_cdr env) (\<lambda>d. check_strings args d (acc @ [p]))))))
     else mseq (mwhen (env \<noteq> cell_nil) (error_about cell_symbol_wrong_type_arg args ''environ'')) (ret acc)) s"

definition environ_c :: "os \<Rightarrow> addr \<Rightarrow> addr mes" where
  "environ_c os args =
     (if args = cell_nil
      then mbind (os ''environ'' []) (\<lambda>(r, ns, ts). mbind (environ_list ts cell_nil) (\<lambda>acc. reverse_x_c acc cell_nil))
      else mbind (get_cdr args) (\<lambda>rest.
        if rest = cell_nil
        then mbind (get_car args) (\<lambda>env. mbind (check_strings args env []) (\<lambda>ps.
             mbind (os ''environ'' [OTexts ps]) (\<lambda>_. ret cell_unspecified)))
        else mseq (error_about cell_symbol_wrong_number_of_args args ''environ'') (ret cell_unspecified)))"

text \<open>A \<^verbatim>\<open>DIR *\<close>, a number of the system, is kept in the eight bytes of a bytevector.\<close>

definition pointer_bytes :: "int \<Rightarrow> byte list" where
  "pointer_bytes n = map (\<lambda>i. of_int (n div 256 ^ i)) [0..<8]"

definition bytes_pointer :: "byte list \<Rightarrow> int" where
  "bytes_pointer bs = foldr (\<lambda>b n. uint b + 256 * n) (take 8 bs) 0"

definition opendir_c :: "os \<Rightarrow> addr \<Rightarrow> addr mes" where
  "opendir_c os file_name =
     mseq (check_type file_name TSTRING ''opendir'')
     (mbind (c_string file_name) (\<lambda>t. mbind (os_value os ''opendir'' [OText t]) (\<lambda>dirstream.
      mseq (mwhen (dirstream = 0) (system_error ''Could not open directory'' file_name))
      (mbind (make_bytes 8) (\<lambda>result.
       mseq (set_bytes result (pointer_bytes dirstream))
       (ret result))))))"

definition dirstream_of :: "addr \<Rightarrow> string \<Rightarrow> int mes" where
  "dirstream_of dir name =
     mbind (get_type dir) (\<lambda>t. mbind (get_car dir) (\<lambda>len.
     mseq (mwhen (t \<noteq> TBYTES \<or> len \<noteq> 8) (error_about cell_symbol_wrong_type_arg dir name))
     (mbind (cell_bytes dir) (\<lambda>p. ret (bytes_pointer p)))))"

definition closedir_c :: "os \<Rightarrow> addr \<Rightarrow> addr mes" where
  "closedir_c os dir =
     mbind (dirstream_of dir ''closedir'') (\<lambda>dirstream.
     mbind (os_value os ''closedir'' [OInt dirstream]) (\<lambda>result.
     mseq (mwhen (result \<noteq> 0) (system_error ''Error closing directory'' dir))
     (mseq (mbind (cell_bytes dir) (\<lambda>p. set_bytes dir (replicate 8 0 @ drop 8 p)))
     (ret cell_unspecified))))"

text \<open>\<^verbatim>\<open>readdir\<close> answers with \<^verbatim>\<open>errno\<close> as the number, and the name if there is an entry.\<close>

definition readdir_c :: "os \<Rightarrow> addr \<Rightarrow> addr mes" where
  "readdir_c os dir =
     mbind (dirstream_of dir ''readdir'') (\<lambda>dirstream.
     mbind (os ''readdir'' [OInt dirstream]) (\<lambda>(dent, ns, ts).
     mseq (mwhen (hd ns \<noteq> 0) (system_error ''Error reading from directory'' dir))
     (if dent \<noteq> 0 then make_string0 (hd ts @ [0]) else ret cell_f)))"

definition pipe_c :: "os \<Rightarrow> addr mes" where
  "pipe_c os =
     mbind (os ''pipe'' []) (\<lambda>(r, fds, ts).
     mseq (mwhen (r \<noteq> 0) (mbind (make_string0 (cstring ''Could not create pipe'')) (\<lambda>m.
       fail (Throw cell_symbol_system_error m))))
     (number_pair (fds ! 0) (fds ! 1)))"

text \<open>The C function returns no value.\<close>

definition close_port :: "os \<Rightarrow> addr \<Rightarrow> unit mes" where
  "close_port os port =
     mbind (get_type port) (\<lambda>t.
     if t = TNUMBER
     then mbind (get_cdr port) (\<lambda>fd. mbind (os_value os ''close'' [OInt (to_int fd)]) (\<lambda>r.
          mwhen (r \<noteq> 0) (system_error ''Error closing port'' port)))
     else ret ())"

definition seek :: "os \<Rightarrow> addr \<Rightarrow> addr \<Rightarrow> addr \<Rightarrow> addr mes" where
  "seek os port offset whence =
     mseq (check_type port TNUMBER ''seek'')
     (mbind (get_cdr port) (\<lambda>fd. mbind (get_cdr offset) (\<lambda>off. mbind (get_cdr whence) (\<lambda>wh.
      mbind (os_value os ''lseek'' [OInt (to_int fd), OInt off, OInt (to_int wh)]) (\<lambda>result.
      mseq (mwhen (result = -1) (system_error ''Error seeking'' port))
      (make_number result))))))"

text \<open>The calls with file names: each one is a string, the system is called, a failure is an error about \<open>x\<close>.\<close>

definition file_call :: "os \<Rightarrow> string \<Rightarrow> os_arg list \<Rightarrow> string \<Rightarrow> addr \<Rightarrow> addr mes" where
  "file_call os f args msg x =
     mbind (os_value os f args) (\<lambda>r. mseq (mwhen (r \<noteq> 0) (system_error msg x)) (ret cell_unspecified))"

definition chdir_c :: "os \<Rightarrow> addr \<Rightarrow> addr mes" where
  "chdir_c os file_name =
     mseq (check_type file_name TSTRING ''chdir_'')
     (mbind (c_string file_name) (\<lambda>t. file_call os ''chdir'' [OText t] ''Could not change directory'' file_name))"

definition mkdir_c :: "os \<Rightarrow> addr \<Rightarrow> addr mes" where
  "mkdir_c os file_name =
     mseq (check_type file_name TSTRING ''mkdir'')
     (mbind (c_string file_name) (\<lambda>t. file_call os ''mkdir'' [OText t, OInt 511] ''Could not make directory'' file_name))"

definition rmdir_c :: "os \<Rightarrow> addr \<Rightarrow> addr mes" where
  "rmdir_c os file_name =
     mseq (check_type file_name TSTRING ''rmdir'')
     (mbind (c_string file_name) (\<lambda>t. file_call os ''rmdir'' [OText t] ''Could not remove directory'' file_name))"

definition rename_file :: "os \<Rightarrow> addr \<Rightarrow> addr \<Rightarrow> addr mes" where
  "rename_file os old_name new_name =
     mseq (check_type old_name TSTRING ''rename-file'')
     (mseq (check_type new_name TSTRING ''rename-file'')
     (mbind (c_string old_name) (\<lambda>t. mbind (c_string new_name) (\<lambda>u.
      mbind (os_value os ''rename'' [OText t, OText u]) (\<lambda>r.
      mseq (mwhen (r \<noteq> 0) (mbind (make_string0 (cstring ''Could not rename file'')) (\<lambda>m.
        mbind (cons old_name new_name) (\<lambda>p. mbind (cons m p) (\<lambda>e. fail (Throw cell_symbol_system_error e))))))
      (ret cell_unspecified))))))"

definition link_c :: "os \<Rightarrow> addr \<Rightarrow> addr \<Rightarrow> addr mes" where
  "link_c os old_name new_name =
     mseq (check_type old_name TSTRING ''link'')
     (mseq (check_type new_name TSTRING ''link'')
     (mbind (c_string old_name) (\<lambda>t. mbind (c_string new_name) (\<lambda>u.
      file_call os ''link'' [OText t, OText u] ''Could not create (hard) link'' new_name))))"

definition symlink_c :: "os \<Rightarrow> addr \<Rightarrow> addr \<Rightarrow> addr mes" where
  "symlink_c os old_name new_name =
     mseq (check_type old_name TSTRING ''symlink'')
     (mseq (check_type new_name TSTRING ''symlink'')
     (mbind (c_string old_name) (\<lambda>t. mbind (c_string new_name) (\<lambda>u.
      file_call os ''symlink'' [OText t, OText u] ''Could not create symbolic link'' new_name))))"

text \<open>The kind of a file by its mode; the eleven numbers of \<^verbatim>\<open>struct stat\<close> up to \<^verbatim>\<open>st_ctime\<close>.\<close>

definition file_kind :: "int \<Rightarrow> string" where
  "file_kind mode =
     (if and mode 61440 = 16384 then ''directory''
      else if and mode 61440 = 32768 then ''regular''
      else if and mode 61440 = 4096 then ''fifo''
      else ''unknown'')"

definition statbuf_to_vector :: "int list \<Rightarrow> addr mes" where
  "statbuf_to_vector buf =
     mbind (make_vector_c 18 cell_unspecified) (\<lambda>v.
     mseq (fill_entries v 0 (map make_number (take 11 buf)))
     (mseq (fill_entries v 13
        [cstring_to_symbol (cstring (file_kind (buf ! 2))), make_number (and (not 61440) (buf ! 2)),
         make_number 0, make_number 0, make_number 0])
     (ret v)))"

definition stat_cc :: "os \<Rightarrow> string \<Rightarrow> addr \<Rightarrow> addr mes" where
  "stat_cc os variant args =
     mbind (get_type args) (\<lambda>t.
     mseq (mwhen (t \<noteq> TPAIR) (wrong_number variant))
     (mbind (get_car args) (\<lambda>file_name.
      mseq (check_type file_name TSTRING variant)
      (mbind (get_cdr args) (\<lambda>rest. mbind (get_type rest) (\<lambda>tr.
       mbind (if tr = TPAIR
              then mbind (get_car rest) (\<lambda>x. mbind (get_cdr rest) (\<lambda>more.
                   mseq (mwhen (more \<noteq> cell_nil) (wrong_number variant)) (ret x)))
              else ret cell_t) (\<lambda>exception_on_error.
       mbind (c_string file_name) (\<lambda>name. mbind (os variant [OText name]) (\<lambda>(result, buf, ts).
       if result \<noteq> 0
       then mseq (mwhen (exception_on_error \<noteq> cell_f) (system_error ''Could not read file attributes'' file_name))
            (ret cell_f)
       else statbuf_to_vector buf)))))))))"

definition stat_c :: "os \<Rightarrow> addr \<Rightarrow> addr mes" where
  "stat_c os args = stat_cc os ''stat'' args"

definition lstat_c :: "os \<Rightarrow> addr \<Rightarrow> addr mes" where
  "lstat_c os args = stat_cc os ''lstat'' args"

definition umask_c :: "os \<Rightarrow> addr \<Rightarrow> addr mes" where
  "umask_c os args =
     mbind (get_type args) (\<lambda>t.
     if t = TPAIR
     then mbind (get_car args) (\<lambda>a.
          mseq (check_type a TNUMBER ''umask'')
          (mbind (get_cdr args) (\<lambda>d.
           mseq (mwhen (d \<noteq> cell_nil) (wrong_number ''umask''))
           (mbind (get_cdr a) (\<lambda>v. mbind (os_value os ''umask'' [OInt v]) make_number)))))
     else mbind (os_value os ''umask'' [OInt 0]) (\<lambda>mask.
          mbind (os_value os ''umask'' [OInt mask]) (\<lambda>_. make_number mask)))"

definition utime_c :: "os \<Rightarrow> addr \<Rightarrow> addr \<Rightarrow> addr \<Rightarrow> addr mes" where
  "utime_c os file_name actime modtime =
     mseq (check_type file_name TSTRING ''utime'')
     (mseq (check_type actime TNUMBER ''utime'')
     (mseq (check_type modtime TNUMBER ''utime'')
     (mbind (get_cdr actime) (\<lambda>a. mbind (get_cdr modtime) (\<lambda>m. mbind (c_string file_name) (\<lambda>t.
      file_call os ''utimensat'' [OText t, OInt a, OInt 0, OInt m, OInt 0] ''Could not update timestamps'' file_name))))))"

definition sleep_c :: "os \<Rightarrow> addr \<Rightarrow> addr mes" where
  "sleep_c os seconds =
     mseq (check_type seconds TNUMBER ''sleep'')
     (mbind (get_cdr seconds) (\<lambda>v. mbind (os ''nanosleep'' [OInt v, OInt 0]) (\<lambda>(r, remaining, ts).
      make_number (if r \<noteq> 0 then hd remaining else 0))))"

section \<open>What the system is given\<close>

lemma takeWhile_text: "0 \<notin> set bs \<Longrightarrow> takeWhile (\<lambda>b. b \<noteq> 0) (bs @ [0]) = (bs :: byte list)"
  by (induction bs) auto

lemma c_string_text:
  assumes "text_at s t bs x" "0 \<notin> set bs"
  shows "c_string x s = Some (Inr bs, s)"
  using assms by (auto simp: text_at_def c_string_def takeWhile_text)

lemma string_vector_ok:
  assumes "\<forall>bs \<in> set bss. 0 \<notin> set bs"
  shows "texts_at s p bss \<Longrightarrow> length acc + length bss < 1024 \<Longrightarrow> string_vector msg p acc s = Some (Inr (acc @ bss), s)"
  using assms
proof (induction bss arbitrary: p acc)
  case Nil
  then show ?case by (subst string_vector.simps) simp
next
  case (Cons bs bss)
  then obtain c where c: "p \<noteq> cell_nil" "lookup s p = Some c" "ctype c = TPAIR" "text_at s TSTRING bs (ccar c)"
    "texts_at s (ccdr c) bss"
    by (auto simp: texts_at_Cons)
  have "string_vector msg (ccdr c) (acc @ [bs]) s = Some (Inr ((acc @ [bs]) @ bss), s)"
    using Cons.IH [OF c(5)] Cons.prems by simp
  then show ?case
    using c Cons.prems text_at_type [OF c(4)] c_string_text [OF c(4)]
    by (subst string_vector.simps) simp
qed

lemma texts_list: "texts_at s p bss \<Longrightarrow> \<exists>xs. list_at s p xs \<and> length xs = length bss"
  by (auto simp: texts_at_def dest: list_all2_lengthD)

text \<open>\<^verbatim>\<open>execl\<close> hands over the name and the arguments as they are, and a number comes back.\<close>

lemma execl_ok:
  assumes "text_at s TSTRING name f" "texts_at s args bss" "length bss \<le> 1000" "\<forall>bs \<in> set (name # bss). 0 \<notin> set bs"
  shows "execl_c os f args s = mbind (os_value os ''execv'' [OText name, OTexts bss]) make_number s"
proof -
  obtain xs where "list_at s args xs" "length xs = length bss"
    using texts_list [OF assms(2)] by blast
  then have "length_c args s = Some (Inr (int (length bss)), s)"
    using length_c_list by metis
  moreover have "string_vector ''args->car->type == TSTRING'' args [] s = Some (Inr bss, s)"
    using string_vector_ok [of bss s args "[]"] assms(2-4) by simp
  moreover have "c_string f s = Some (Inr name, s)"
    using c_string_text [OF assms(1)] assms(4) by simp
  ultimately show ?thesis
    using assms(3) by (simp add: execl_c_def)
qed

text \<open>With more than a thousand arguments the system is not asked at all: what happens does not depend on it.\<close>

lemma execl_too_many:
  assumes "list_at s args xs" "1000 < length xs"
  shows "execl_c os f args s = execl_c os' f args s"
proof -
  have n: "length_c args s = Some (Inr (int (length xs)), s)"
    using length_c_list [OF assms(1)] .
  show ?thesis
    using assms(2) by (auto simp: execl_c_def mbind_def n mseq_def fail_def intro!: Option.bind_cong split: sum.splits)
      (auto split: Option.bind_splits prod.splits sum.splits)
qed

section \<open>Directory streams\<close>

lemma bytes_pointer_roundtrip:
  assumes "0 \<le> n" "n < 2 ^ 64"
  shows "bytes_pointer (pointer_bytes n) = n"
proof -
  have b: "uint (of_int (n div 256 ^ i) :: byte) = n div 256 ^ i mod 256" for i
    by (simp add: uint_word_of_int)
  have d: "n div 256 ^ k div 256 = n div (256 * 256 ^ k)" for k :: nat
    by (simp add: zdiv_zmult2_eq [symmetric] mult.commute)
  have "foldr (\<lambda>b n. uint b + 256 * n) (map (\<lambda>i. of_int (n div 256 ^ i) :: byte) [k..<k + j]) 0 = n div 256 ^ k mod 256 ^ j" for k j
  proof (induction j arbitrary: k)
    case (Suc j)
    have "[k..<k + Suc j] = k # [Suc k..<Suc k + j]"
      by (simp add: upt_rec)
    then show ?case
      using Suc.IH [of "Suc k"] b [of k] by (simp add: zmod_zmult2_eq d)
  qed simp
  from this [of 0 8] assms show ?thesis
    by (simp add: bytes_pointer_def pointer_bytes_def)
qed

end
