(* ===== verification/Mes_Reader.thy ===== *)
theory Mes_Reader
  imports Mes_Io
begin

text \<open>
  The reader (src/src/reader.c): from the characters of the current input port to data. The three
  functions that call each other, \<^verbatim>\<open>reader_read_sexp_\<close>, \<^verbatim>\<open>reader_read_list\<close> and
  \<^verbatim>\<open>reader_read_hash\<close>, are one loop over the call to make. Their environment argument, which
  none of them uses, is left out, and so is the output to stderr. Literal characters are the
  numbers of their codes.
\<close>

section \<open>Comments and white space\<close>

partial_function (option) reader_read_line_comment :: "int \<Rightarrow> int mes" where
  "reader_read_line_comment c s =
     (if c \<noteq> -1
      then if c = 10 then ret c
           else mbind readchar (\<lambda>c'. reader_read_line_comment c')
      else mbind (make_string0 (cstring ''reader_read_line_comment'')) (\<lambda>m.
           fail (Throw cell_symbol_system_error m))) s"

partial_function (option) reader_read_block_comment :: "int \<Rightarrow> int \<Rightarrow> addr mes" where
  "reader_read_block_comment e c s =
     mbind (if c = e then mbind peekchar (\<lambda>p. ret (p = 35)) else ret False) (\<lambda>b.
     if b then mseq readchar (ret cell_unspecified)
     else mbind readchar (\<lambda>c'. reader_read_block_comment e c')) s"

partial_function (option) skip_spaces :: "int \<Rightarrow> int mes" where
  "skip_spaces c s =
     (if isspace c then mbind readchar (\<lambda>c'. skip_spaces c') else ret c) s"

partial_function (option) reader_eat_whitespace :: "int \<Rightarrow> int mes" where
  "reader_eat_whitespace c0 s =
     mbind (skip_spaces c0) (\<lambda>c.
     if c = 59 then mbind (reader_read_line_comment c) (\<lambda>c'. reader_eat_whitespace c')
     else if c = 35
     then mbind peekchar (\<lambda>p.
       if p = 33 \<or> p = 124
       then mbind readchar (\<lambda>e. mbind readchar (\<lambda>c'.
            mseq (reader_read_block_comment e c')
            (mbind readchar (\<lambda>c''. reader_eat_whitespace c''))))
       else ret c)
     else ret c) s"

section \<open>Words and numbers\<close>

definition reader_identifier_p :: "int \<Rightarrow> bool" where
  "reader_identifier_p c \<longleftrightarrow> c > 32 \<and> c \<le> 126 \<and> c \<noteq> 34 \<and> c \<noteq> 59 \<and> c \<noteq> 40 \<and> c \<noteq> 41 \<and> c \<noteq> -1"

definition reader_end_of_word_p :: "int \<Rightarrow> bool" where
  "reader_end_of_word_p c \<longleftrightarrow> c = 34 \<or> c = 59 \<or> c = 40 \<or> c = 41 \<or> isspace c \<or> c = -1"

text \<open>The digits are kept in \<^verbatim>\<open>g_buf\<close> in case the word turns out to be an identifier.\<close>

partial_function (option) read_digits :: "int \<Rightarrow> int \<Rightarrow> byte list \<Rightarrow> (int \<times> int \<times> byte list) mes" where
  "read_digits c n buf s =
     (if isdigit c
      then mseq (in_g_buf (int (length buf)))
           (mbind readchar (\<lambda>c'. read_digits c' (to_long (to_long (n * 10) + c - 48)) (buf @ [of_int c])))
      else ret (c, n, buf)) s"

partial_function (option) read_word :: "int \<Rightarrow> byte list \<Rightarrow> (int \<times> byte list) mes" where
  "read_word c buf s =
     (if \<not> reader_end_of_word_p c
      then mseq (in_g_buf (int (length buf)))
           (mbind readchar (\<lambda>c'. read_word c' (buf @ [of_int c])))
      else ret (c, buf)) s"

text \<open>A sign counts when a digit follows.\<close>

definition read_sign :: "int \<Rightarrow> int \<Rightarrow> (bool \<times> int) mes" where
  "read_sign sign c =
     (if c = sign
      then mbind peekchar (\<lambda>p. if isdigit p then mbind readchar (\<lambda>c'. ret (True, c')) else ret (False, c))
      else ret (False, c))"

definition reader_read_identifier_or_number :: "int \<Rightarrow> addr mes" where
  "reader_read_identifier_or_number c0 =
     mbind (read_sign 43 c0) (\<lambda>(_, c1).
     mbind (read_sign 45 c1) (\<lambda>(negative_p, c2).
     mbind (read_digits c2 0 []) (\<lambda>(c, n, buf).
     if reader_end_of_word_p c
     then mseq (unreadchar c) (make_number (if negative_p then to_long (0 - n) else n))
     else mbind (read_word c buf) (\<lambda>(c', buf').
          mseq (unreadchar c')
          (mseq (in_g_buf (int (length buf')))
          (cstring_to_symbol (buf' @ [0])))))))"

text \<open>The loop that binary, octal and hexadecimal numbers share.\<close>

partial_function (option) read_radix_loop :: "(int \<Rightarrow> bool) \<Rightarrow> (int \<Rightarrow> int) \<Rightarrow> int \<Rightarrow> int \<Rightarrow> int \<Rightarrow> int mes" where
  "read_radix_loop digit_p digit_value k n c s =
     (if digit_p c
      then mseq readchar
           (mbind peekchar (\<lambda>c'. read_radix_loop digit_p digit_value k (to_long (to_long (n * 2 ^ nat k) + digit_value c)) c'))
      else ret n) s"

definition read_radix :: "(int \<Rightarrow> bool) \<Rightarrow> (int \<Rightarrow> int) \<Rightarrow> int \<Rightarrow> addr mes" where
  "read_radix digit_p digit_value k =
     mbind peekchar (\<lambda>c.
     mbind (if c = 45 then mseq readchar (mbind peekchar (\<lambda>c'. ret (True, c'))) else ret (False, c)) (\<lambda>(negative_p, c).
     mbind (read_radix_loop digit_p digit_value k 0 c) (\<lambda>n.
     make_number (if negative_p then to_long (0 - n) else n))))"

definition reader_read_binary :: "addr mes" where
  "reader_read_binary = read_radix (\<lambda>c. c = 48 \<or> c = 49) (\<lambda>c. c - 48) 1"

definition reader_read_octal :: "addr mes" where
  "reader_read_octal = read_radix (\<lambda>c. c \<ge> 48 \<and> c \<le> 55) (\<lambda>c. c - 48) 3"

definition reader_read_hex :: "addr mes" where
  "reader_read_hex =
     read_radix (\<lambda>c. (c \<ge> 48 \<and> c \<le> 57) \<or> (c \<ge> 65 \<and> c \<le> 70) \<or> (c \<ge> 97 \<and> c \<le> 102))
       (\<lambda>c. if c \<ge> 97 then c - 97 + 10 else if c \<ge> 65 then c - 65 + 10 else c - 48) 4"

section \<open>Characters and strings\<close>

definition char_names :: "(byte list \<times> int) list" where
  "char_names = map (\<lambda>(w, c). (cstring w, c))
     [(''*eof*'', -1), (''nul'', 0), (''alarm'', 7), (''backspace'', 8), (''tab'', 9), (''linefeed'', 10),
      (''newline'', 10), (''vtab'', 11), (''page'', 12), (''return'', 13), (''esc'', 27), (''space'', 32),
      (''bel'', 7), (''bs'', 8), (''ht'', 9), (''nl'', 10), (''vt'', 11), (''np'', 12), (''cr'', 13), (''fs'', 28)]"

text \<open>\<^verbatim>\<open>__reader_read_char_buf\<close> has 10 bytes.\<close>

definition in_char_buf :: "int \<Rightarrow> unit mes" where
  "in_char_buf i = (if i < 10 then ret () else fail Segv)"

definition name_char :: "int \<Rightarrow> bool" where
  "name_char p \<longleftrightarrow> (p \<ge> 97 \<and> p \<le> 122) \<or> p = 42"

partial_function (option) read_char_name :: "int \<Rightarrow> byte list \<Rightarrow> byte list mes" where
  "read_char_name p buf s =
     (if name_char p
      then mseq (in_char_buf (int (length buf)))
           (mbind readchar (\<lambda>c. mbind peekchar (\<lambda>p'. read_char_name p' (buf @ [of_int c]))))
      else mseq (in_char_buf (int (length buf))) (ret buf)) s"

partial_function (option) read_octal_char :: "int \<Rightarrow> int \<Rightarrow> int mes" where
  "read_octal_char c p s =
     (if p \<ge> 48 \<and> p \<le> 55
      then mbind readchar (\<lambda>d. mbind peekchar (\<lambda>p'. read_octal_char (to_int (to_int (c * 8) + d - 48)) p'))
      else ret c) s"

definition reader_read_character :: "addr mes" where
  "reader_read_character =
     mbind readchar (\<lambda>c. mbind peekchar (\<lambda>p.
     mbind (if c \<ge> 48 \<and> c \<le> 55 \<and> p \<ge> 48 \<and> p \<le> 55 then read_octal_char (c - 48) p
            else if c = 120 \<and> ((p \<ge> 48 \<and> p \<le> 57) \<or> (p \<ge> 97 \<and> p \<le> 102) \<or> (p \<ge> 70 \<and> p \<le> 70))
            then mbind reader_read_hex (\<lambda>n. mbind (get_cdr n) (\<lambda>v. ret (to_int v)))
            else if name_char c \<and> name_char p
            then mbind (read_char_name p [of_int c]) (\<lambda>buf.
                 case map_of char_names (buf @ [0]) of
                   Some c' \<Rightarrow> ret c'
                 | None \<Rightarrow> mbind (make_string0 (cstring ''char not supported'')) (\<lambda>m.
                     fail (Throw cell_symbol_system_error m)))
            else ret c) make_char))"

text \<open>What a backslash and a character stand for in a string.\<close>

definition read_escape :: "int \<Rightarrow> int mes" where
  "read_escape c =
     (if c = 92 \<or> c = 34 then ret c
      else if c = 48 then ret 0
      else if c = 97 then ret 7
      else if c = 98 then ret 8
      else if c = 116 then ret 9
      else if c = 110 then ret 10
      else if c = 118 then ret 11
      else if c = 102 then ret 12
      else if c = 114 then ret 13
      else if c = 101 then ret 27
      else if c = 120 then mbind reader_read_hex (\<lambda>n. mbind (get_cdr n) (\<lambda>v. ret (to_int v)))
      else ret c)"

partial_function (option) read_string_chars :: "byte list \<Rightarrow> byte list mes" where
  "read_string_chars buf s =
     mbind (gets MAX_STRING) (\<lambda>m.
     mseq (mwhen (int (length buf) > m) (assert_max_string (int (length buf))))
     (mbind readchar (\<lambda>c.
      if c = 34 then mseq (in_g_buf (int (length buf))) (ret buf)
      else mbind (if c = 92 then mbind readchar read_escape else ret c) (\<lambda>c'.
           mseq (in_g_buf (int (length buf)))
           (read_string_chars (buf @ [of_int c'])))))) s"

definition reader_read_string :: "addr mes" where
  "reader_read_string =
     mbind (read_string_chars []) (\<lambda>buf. make_string (buf @ [0]) (int (length buf)))"

section \<open>Data\<close>

datatype read_call = Sexp int | List int | Hash int

text \<open>The message has a colon between single quotes.\<close>

definition keyword_message :: "byte list" where
  "keyword_message = butlast (cstring ''keyword perifx '') @ [39, 58, 39] @ cstring '' not followed by a symbol: ''"

text \<open>\<^verbatim>\<open>cons (sym, cons (x, cell_nil))\<close>\<close>

definition quoted :: "addr \<Rightarrow> addr mes \<Rightarrow> addr mes" where
  "quoted q p = mbind p (\<lambda>x. mbind (cons x cell_nil) (cons q))"

lemma quoted_mono [partial_function_mono]:
  assumes "\<And>s. monotone (fun_ord (flat_ord None)) (flat_ord None) (\<lambda>f. p f s)"
  shows "monotone (fun_ord (flat_ord None)) (flat_ord None) (\<lambda>f. quoted q (p f) s)"
  unfolding quoted_def
  by (rule mbind_mono [OF assms]) (rule monotoneI, simp add: flat_ord_def)

partial_function (option) reader :: "read_call \<Rightarrow> addr mes" where
  "reader call s = (case call of
     Sexp c \<Rightarrow>
       (if c = -1 then ret cell_nil
        else if c = 59 then mbind (reader_read_line_comment c) (\<lambda>c'. reader (Sexp c'))
        else if c = 32 \<or> c = 9 \<or> c = 10 \<or> c = 12 then mbind readchar (\<lambda>c'. reader (Sexp c'))
        else if c = 40 then mbind readchar (\<lambda>c'. reader (List c'))
        else if c = 41 then ret cell_nil
        else if c = 35 then mbind readchar (\<lambda>c'. reader (Hash c'))
        else if c = 96 then quoted cell_symbol_quasiquote (mbind readchar (\<lambda>c'. reader (Sexp c')))
        else if c = 44
        then mbind peekchar (\<lambda>p.
          if p = 64 then mseq readchar (quoted cell_symbol_unquote_splicing (mbind readchar (\<lambda>c'. reader (Sexp c'))))
          else quoted cell_symbol_unquote (mbind readchar (\<lambda>c'. reader (Sexp c'))))
        else if c = 39 then quoted cell_symbol_quote (mbind readchar (\<lambda>c'. reader (Sexp c')))
        else if c = 34 then reader_read_string
        else if c = 46
        then mbind peekchar (\<lambda>p.
          if \<not> reader_identifier_p p then ret cell_dot else reader_read_identifier_or_number c)
        else reader_read_identifier_or_number c) s
   | List c0 \<Rightarrow>
       mbind (reader_eat_whitespace c0) (\<lambda>c.
       if c = 41 then ret cell_nil
       else if c = -1
       then mbind (make_string0 (cstring ''EOF in list'')) (\<lambda>m. fail (Throw cell_symbol_not_a_pair m))
       else mbind (reader (Sexp c)) (\<lambda>x.
         if x = cell_dot then mbind readchar (\<lambda>c'. mbind (reader (List c')) get_car)
         else mbind readchar (\<lambda>c'. mbind (reader (List c')) (cons x)))) s
   | Hash c \<Rightarrow>
       (if c = 33 \<or> c = 124
        then mbind readchar (\<lambda>c'.
             mseq (reader_read_block_comment c c')
             (mbind readchar (\<lambda>c''. reader (Sexp c''))))
        else if c = 102 then ret cell_f
        else if c = 116 then ret cell_t
        else if c = 44
        then mbind peekchar (\<lambda>p.
          if p = 64 then mseq readchar (quoted cell_symbol_unsyntax_splicing (mbind readchar (\<lambda>c'. reader (Sexp c'))))
          else quoted cell_symbol_unsyntax (mbind readchar (\<lambda>c'. reader (Sexp c'))))
        else if c = 39 then quoted cell_symbol_syntax (mbind readchar (\<lambda>c'. reader (Sexp c')))
        else if c = 96 then quoted cell_symbol_quasisyntax (mbind readchar (\<lambda>c'. reader (Sexp c')))
        else if c = 58
        then mbind readchar (\<lambda>c'. mbind (reader_read_identifier_or_number c') (\<lambda>x.
             mbind (make_string0 keyword_message) (\<lambda>m.
             mbind (get_type x) (\<lambda>t.
             mseq (mwhen (t = TNUMBER) (mbind (cons m x) (\<lambda>p. fail (Throw cell_symbol_system_error p))))
             (symbol_to_keyword x)))))
        else if c = 98 then reader_read_binary
        else if c = 111 then reader_read_octal
        else if c = 120 then reader_read_hex
        else if c = 92 then reader_read_character
        else if c = 40 then mbind readchar (\<lambda>c'. mbind (reader (List c')) list_to_vector)
        else if c = 59
        then mbind readchar (\<lambda>c'. mseq (reader (Sexp c')) (mbind readchar (\<lambda>c''. reader (Sexp c''))))
        else mbind readchar (\<lambda>c'. reader (Sexp c'))) s)"

definition reader_read_sexp_c :: "int \<Rightarrow> addr mes" where
  "reader_read_sexp_c c = reader (Sexp c)"

definition reader_read_list :: "int \<Rightarrow> addr mes" where
  "reader_read_list c = reader (List c)"

definition reader_read_hash :: "int \<Rightarrow> addr mes" where
  "reader_read_hash c = reader (Hash c)"

definition read_env :: "addr mes" where
  "read_env = mbind readchar reader_read_sexp_c"

definition reader_read_sexp :: "addr \<Rightarrow> addr mes" where
  "reader_read_sexp c = mbind (get_cdr c) (\<lambda>v. reader_read_sexp_c (to_int v))"

partial_function (option) read_input_file_env_c :: "addr \<Rightarrow> addr mes" where
  "read_input_file_env_c e s =
     (if e = cell_nil then ret e
      else mbind read_env (\<lambda>e'. mbind (read_input_file_env_c e') (cons e))) s"

definition read_input_file_env :: "addr mes" where
  "read_input_file_env = mbind read_env read_input_file_env_c"

end
