(* ===== verification/Mes_Display.thy ===== *)
theory Mes_Display
  imports Mes_Io Mes_Builtins
begin

text \<open>
  The writer (src/src/display.c) and the printers of hash tables, variables, primitives and
  frames (hash.c, variable.c, builtins.c, stack.c). A struct with a printer of its own is left to
  the procedure \<^verbatim>\<open>apply\<close> of eval-apply.c, the parameter \<open>ap\<close> as in the theory of modules. The
  printers that end without a \<^verbatim>\<open>return\<close> have no result here. An object of a type that the
  writer does not know is shown by its address, a number of cells here and of bytes in C, and the
  length of a vector is read once.
\<close>

section \<open>Characters and strings\<close>

definition fdwrite_char :: "int \<Rightarrow> int \<Rightarrow> unit mes" where
  "fdwrite_char v fd =
     (if v = 0 then fdputs (cstring (CHR 0x5C # ''nul'')) fd
      else if v = 7 then fdputs (cstring (CHR 0x5C # ''alarm'')) fd
      else if v = 8 then fdputs (cstring (CHR 0x5C # ''backspace'')) fd
      else if v = 9 then fdputs (cstring (CHR 0x5C # ''tab'')) fd
      else if v = 10 then fdputs (cstring (CHR 0x5C # ''newline'')) fd
      else if v = 11 then fdputs (cstring (CHR 0x5C # ''vtab'')) fd
      else if v = 12 then fdputs (cstring (CHR 0x5C # ''page'')) fd
      else if v = 13 then fdputs (cstring (CHR 0x5C # ''return'')) fd
      else if v = 32 then fdputs (cstring (CHR 0x5C # ''space'')) fd
      else mseq (mwhen (v \<ge> 32 \<and> v \<le> 127) (fdputc 92 fd)) (fdputc v fd))"

definition fdwrite_string_char :: "int \<Rightarrow> int \<Rightarrow> unit mes" where
  "fdwrite_string_char v fd =
     (if v = 0 then fdputs (cstring (CHR 0x5C # ''0'')) fd
      else if v = 7 then fdputs (cstring (CHR 0x5C # ''a'')) fd
      else if v = 8 then fdputs (cstring (CHR 0x5C # ''b'')) fd
      else if v = 9 then fdputs (cstring (CHR 0x5C # ''t'')) fd
      else if v = 11 then fdputs (cstring (CHR 0x5C # ''v'')) fd
      else if v = 10 then fdputs (cstring (CHR 0x5C # ''n'')) fd
      else if v = 12 then fdputs (cstring (CHR 0x5C # ''f'')) fd
      else if v = 13 then fdputs (cstring (CHR 0x5C # ''r'')) fd
      else if v = 27 then fdputs (cstring (CHR 0x5C # ''e'')) fd
      else if v = 92 then fdputs [92, 92, 0] fd
      else if v = 34 then fdputs [92, 34, 0] fd
      else fdputc v fd)"

definition fdwrite_string :: "byte list \<Rightarrow> int \<Rightarrow> int \<Rightarrow> unit mes" where
  "fdwrite_string str len fd = mfor [0..len - 1] (\<lambda>i. fdwrite_string_char (sint (str ! nat i)) fd)"

section \<open>Data\<close>

definition set_depth :: "int \<Rightarrow> unit mes" where
  "set_depth n = modify (\<lambda>s. s\<lparr>g_depth := n\<rparr>)"

text \<open>The first \<open>n\<close> entries of a circular environment.\<close>

primrec circ_entries :: "nat \<Rightarrow> addr \<Rightarrow> (addr \<Rightarrow> unit mes) \<Rightarrow> unit mes" where
  "circ_entries 0 x body = ret ()"
| "circ_entries (Suc n) x body =
     (if x \<noteq> cell_nil
      then mbind (a_car (get_car x)) (\<lambda>e. mseq (body e) (mbind (get_cdr x) (\<lambda>x'. circ_entries n x' body)))
      else ret ())"

lemma const_mono:
  "monotone (fun_ord (flat_ord None)) (flat_ord None) (\<lambda>f. c)"
  by (rule monotoneI) (simp add: flat_ord_def)

lemma circ_entries_mono:
  assumes "\<And>e s. monotone (fun_ord (flat_ord None)) (flat_ord None) (\<lambda>f. body f e s)"
  shows "monotone (fun_ord (flat_ord None)) (flat_ord None) (\<lambda>f. circ_entries n x (body f) s)"
proof (induction n arbitrary: x s)
  case 0
  then show ?case by (simp add: monotone_def flat_ord_def)
next
  case (Suc n)
  show ?case
    unfolding circ_entries.simps
    by (intro if_apply_mono mbind_mono mseq_mono const_mono assms Suc.IH)
qed

lemmas mes_mono = const_mono if_apply_mono mbind_mono mseq_mono mfor_mono circ_entries_mono

text \<open>
  One definition for each branch of \<^verbatim>\<open>display_helper\<close>; \<open>h\<close> is the recursive call.
\<close>

definition display_char :: "addr \<Rightarrow> int \<Rightarrow> bool \<Rightarrow> addr mes" where
  "display_char x fd write_p =
     mbind (get_cdr x) (\<lambda>v.
          mseq (if \<not> write_p then fdputc v fd
                else mseq (fdputs (cstring ''#'') fd) (fdwrite_char (to_char v) fd))
          (ret cell_unspecified))"

text \<open>\<^verbatim>\<open>circ->cdr->car->car\<close> is the name of a closure.\<close>

definition display_closure ::
    "(addr \<Rightarrow> bool \<Rightarrow> byte list \<Rightarrow> int \<Rightarrow> bool \<Rightarrow> addr mes) \<Rightarrow> addr \<Rightarrow> int \<Rightarrow> addr mes" where
  "display_closure h x fd =
     mseq (fdputs (cstring ''#<closure '') fd)
          (mbind (a_car (get_cdr x)) (\<lambda>circ. mbind (a_car (get_cdr circ)) (\<lambda>name.
           mbind (a_car (a_cdr (get_cdr x))) (\<lambda>args. mbind (get_car name) (\<lambda>n.
           mbind (h n False (cstring '''') fd False) (\<lambda>_.
           mseq (fdputc 32 fd)
           (mbind (h args False (cstring '''') fd False) (\<lambda>_.
           mseq (fdputs (cstring ''>'') fd)
           (ret cell_unspecified)))))))))"

lemma display_closure_mono:
  assumes "\<And>x cont sep fd w s. monotone (fun_ord (flat_ord None)) (flat_ord None) (\<lambda>f. h f x cont sep fd w s)"
  shows "monotone (fun_ord (flat_ord None)) (flat_ord None) (\<lambda>f. display_closure (h f) x fd s)"
  unfolding display_closure_def by (intro mes_mono assms)

definition display_macro ::
    "(addr \<Rightarrow> bool \<Rightarrow> byte list \<Rightarrow> int \<Rightarrow> bool \<Rightarrow> addr mes) \<Rightarrow> addr \<Rightarrow> bool \<Rightarrow> int \<Rightarrow> addr mes" where
  "display_macro h x cont fd =
     mseq (fdputs (cstring ''#<macro '') fd)
          (mbind (get_cdr x) (\<lambda>m.
           mbind (h m cont (cstring '''') fd False) (\<lambda>_.
           mseq (fdputs (cstring ''>'') fd)
           (ret cell_unspecified))))"

lemma display_macro_mono:
  assumes "\<And>x cont sep fd w s. monotone (fun_ord (flat_ord None)) (flat_ord None) (\<lambda>f. h f x cont sep fd w s)"
  shows "monotone (fun_ord (flat_ord None)) (flat_ord None) (\<lambda>f. display_macro (h f) x cont fd s)"
  unfolding display_macro_def by (intro mes_mono assms)

definition display_binding ::
    "(addr \<Rightarrow> bool \<Rightarrow> byte list \<Rightarrow> int \<Rightarrow> bool \<Rightarrow> addr mes) \<Rightarrow> addr \<Rightarrow> bool \<Rightarrow> int \<Rightarrow> addr mes" where
  "display_binding h x cont fd =
     mseq (fdputs (cstring ''#<binding '') fd)
          (mbind (a_car (get_car x)) (\<lambda>b.
           mbind (h b cont (cstring '''') fd False) (\<lambda>_.
           mseq (fdputs (cstring ''>'') fd)
           (ret cell_unspecified))))"

lemma display_binding_mono:
  assumes "\<And>x cont sep fd w s. monotone (fun_ord (flat_ord None)) (flat_ord None) (\<lambda>f. h f x cont sep fd w s)"
  shows "monotone (fun_ord (flat_ord None)) (flat_ord None) (\<lambda>f. display_binding (h f) x cont fd s)"
  unfolding display_binding_def by (intro mes_mono assms)

definition display_number :: "addr \<Rightarrow> int \<Rightarrow> addr mes" where
  "display_number x fd =
     mbind (get_cdr x) (\<lambda>v. mbind (ltoa v) (\<lambda>str. mseq (fdputs str fd) (ret cell_unspecified)))"

definition display_pair ::
    "(addr \<Rightarrow> bool \<Rightarrow> byte list \<Rightarrow> int \<Rightarrow> bool \<Rightarrow> addr mes) \<Rightarrow> addr \<Rightarrow> bool \<Rightarrow> int \<Rightarrow> bool \<Rightarrow> addr mes" where
  "display_pair h x cont fd write_p =
     mseq (mwhen (\<not> cont) (fdputs (cstring ''('') fd))
          (mseq (mbind (get_car x) (\<lambda>a.
            mbind (if a = cell_circular
                   then mbind (a_car (get_cdr x)) (\<lambda>c. ret (c \<noteq> cell_closure))
                   else ret False) (\<lambda>circular.
            if circular
            then mseq (fdputs (cstring (CHR 0x28 # ''*circ* . '')) fd)
                 (mseq (mbind (get_cdr x) (\<lambda>x'. circ_entries 10 x' (\<lambda>e.
                   mbind (get_car e) (\<lambda>k.
                   mseq (set_depth 5)
                   (mbind (h k False (cstring '''') fd write_p) (\<lambda>_.
                   fdputs (cstring '' '') fd))))))
                 (fdputs (cstring '' ...)'') fd))
            else mseq (if x \<noteq> 0 \<and> x \<noteq> cell_nil
                       then mseq (set_depth 5)
                            (mbind (h a False (cstring '''') fd write_p) (\<lambda>_. ret ()))
                       else ret ())
                 (mbind (get_cdr x) (\<lambda>b.
                  mbind (if b \<noteq> 0 then mbind (get_type b) (\<lambda>tb. ret (tb = TPAIR)) else ret False) (\<lambda>more.
                  if more then mbind (h b True (cstring '' '') fd write_p) (\<lambda>_. ret ())
                  else if b \<noteq> 0 \<and> b \<noteq> cell_nil
                  then mseq (mbind (get_type b) (\<lambda>tb. mwhen (tb \<noteq> TPAIR) (fdputs (cstring '' . '') fd)))
                       (mseq (set_depth 5)
                       (mbind (h b False (cstring '''') fd write_p) (\<lambda>_. ret ())))
                  else ret ()))))))
          (mseq (mwhen (\<not> cont) (fdputs (cstring '')'') fd))
          (ret cell_unspecified)))"

lemma display_pair_mono:
  assumes "\<And>x cont sep fd w s. monotone (fun_ord (flat_ord None)) (flat_ord None) (\<lambda>f. h f x cont sep fd w s)"
  shows "monotone (fun_ord (flat_ord None)) (flat_ord None) (\<lambda>f. display_pair (h f) x cont fd write_p s)"
  unfolding display_pair_def by (intro mes_mono assms)

definition display_port :: "addr \<Rightarrow> int \<Rightarrow> addr mes" where
  "display_port x fd =
     mseq (fdputs (cstring ''#<port '') fd)
          (mbind (get_car x) (\<lambda>n. mbind (ltoa n) (\<lambda>str.
           mseq (fdputs str fd)
           (mseq (fdputs (cstring '' '') fd)
           (mbind (get_cdr x) (\<lambda>x'.
            mseq (fdputc 34 fd)
            (mbind (get_cdr x') (\<lambda>v. mbind (cell_bytes v) (\<lambda>p. mbind (get_car x') (\<lambda>len.
             mseq (fdwrite_string p len fd)
             (mseq (fdputc 34 fd)
             (mseq (fdputs (cstring ''>'') fd)
             (ret cell_unspecified)))))))))))))"

definition display_keyword :: "addr \<Rightarrow> int \<Rightarrow> addr mes" where
  "display_keyword x fd =
     mseq (fdputs (cstring ''#:'') fd)
          (mbind (get_cdr x) (\<lambda>v. mbind (cell_bytes v) (\<lambda>p. mbind (get_car x) (\<lambda>len.
           mseq (fdwrite_string p len fd)
           (ret cell_unspecified)))))"

definition display_string :: "addr \<Rightarrow> int \<Rightarrow> bool \<Rightarrow> addr mes" where
  "display_string x fd write_p =
     mbind (get_cdr x) (\<lambda>v. mbind (cell_bytes v) (\<lambda>p. mbind (get_car x) (\<lambda>len.
          mseq (if write_p
                then mseq (fdputc 34 fd) (mseq (fdwrite_string p len fd) (fdputc 34 fd))
                else fdputs p fd)
          (ret cell_unspecified))))"

definition display_symbol :: "addr \<Rightarrow> int \<Rightarrow> addr mes" where
  "display_symbol x fd =
     mbind (get_cdr x) (\<lambda>v. mbind (cell_bytes v) (\<lambda>p. mbind (get_car x) (\<lambda>len.
          mseq (fdwrite_string p len fd)
          (ret cell_unspecified))))"

definition display_ref ::
    "(addr \<Rightarrow> bool \<Rightarrow> byte list \<Rightarrow> int \<Rightarrow> bool \<Rightarrow> addr mes) \<Rightarrow> addr \<Rightarrow> int \<Rightarrow> bool \<Rightarrow> addr mes" where
  "display_ref h x fd write_p =
     mbind (get_car x) (\<lambda>r.
          mseq (set_depth 5)
          (mbind (h r False (cstring '''') fd write_p) (\<lambda>_. ret cell_unspecified)))"

lemma display_ref_mono:
  assumes "\<And>x cont sep fd w s. monotone (fun_ord (flat_ord None)) (flat_ord None) (\<lambda>f. h f x cont sep fd w s)"
  shows "monotone (fun_ord (flat_ord None)) (flat_ord None) (\<lambda>f. display_ref (h f) x fd write_p s)"
  unfolding display_ref_def by (intro mes_mono assms)

definition display_struct ::
    "(addr \<Rightarrow> addr \<Rightarrow> addr \<Rightarrow> addr mes) \<Rightarrow> (addr \<Rightarrow> bool \<Rightarrow> byte list \<Rightarrow> int \<Rightarrow> bool \<Rightarrow> addr mes) \<Rightarrow> addr \<Rightarrow> int \<Rightarrow> bool \<Rightarrow> addr mes" where
  "display_struct ap h x fd write_p =
     mbind (struct_ref_c x 1) (\<lambda>printer0.
          mbind (get_type printer0) (\<lambda>t0.
          mbind (if t0 = TREF then get_car printer0 else ret printer0) (\<lambda>printer.
          mbind (get_type printer) (\<lambda>tp.
          mbind (if tp = TCLOSURE then ret True
                 else mbind (builtin_p printer) (\<lambda>b. ret (b = cell_t))) (\<lambda>own.
          mseq (if own
                then mbind (cons x cell_nil) (\<lambda>args. mbind (gets R0) (\<lambda>r0.
                     mbind (ap printer args r0) (\<lambda>_. ret ())))
                else mseq (fdputs (cstring ''#<'') fd)
                     (mbind (get_cdr x) (\<lambda>v.
                      mseq (set_depth 5)
                      (mbind (h v False (cstring '''') fd write_p) (\<lambda>_.
                      mbind (get_car x) (\<lambda>size.
                      mseq (mfor [2..size - 1] (\<lambda>i.
                        mseq (fdputc 32 fd)
                        (mbind (get_cdr x) (\<lambda>v.
                         mseq (set_depth 5)
                         (mbind (h (cell_ref v i) False (cstring '''') fd write_p) (\<lambda>_. ret ()))))))
                      (fdputc 62 fd)))))))
          (ret cell_unspecified))))))"

lemma display_struct_mono:
  assumes "\<And>x cont sep fd w s. monotone (fun_ord (flat_ord None)) (flat_ord None) (\<lambda>f. h f x cont sep fd w s)"
  shows "monotone (fun_ord (flat_ord None)) (flat_ord None) (\<lambda>f. display_struct ap (h f) x fd write_p s)"
  unfolding display_struct_def by (intro mes_mono assms)

definition display_vector ::
    "(addr \<Rightarrow> bool \<Rightarrow> byte list \<Rightarrow> int \<Rightarrow> bool \<Rightarrow> addr mes) \<Rightarrow> addr \<Rightarrow> int \<Rightarrow> bool \<Rightarrow> addr mes" where
  "display_vector h x fd write_p =
     mseq (fdputs (cstring ''#('') fd)
          (mbind (get_car x) (\<lambda>len.
           mseq (mfor [0..len - 1] (\<lambda>i.
             mseq (mwhen (i \<noteq> 0) (fdputc 32 fd))
             (mbind (get_cdr x) (\<lambda>v.
              mseq (set_depth 5)
              (mbind (h (cell_ref v i) False (cstring '''') fd write_p) (\<lambda>_. ret ()))))))
           (mseq (fdputc 41 fd)
           (ret cell_unspecified))))"

lemma display_vector_mono:
  assumes "\<And>x cont sep fd w s. monotone (fun_ord (flat_ord None)) (flat_ord None) (\<lambda>f. h f x cont sep fd w s)"
  shows "monotone (fun_ord (flat_ord None)) (flat_ord None) (\<lambda>f. display_vector (h f) x fd write_p s)"
  unfolding display_vector_def by (intro mes_mono assms)

definition display_other :: "addr \<Rightarrow> tag \<Rightarrow> int \<Rightarrow> addr mes" where
  "display_other x t fd =
     mseq (fdputs (cstring ''<'') fd)
          (mbind (ltoa (tag_number t)) (\<lambda>str. mseq (fdputs str fd)
          (mseq (fdputs (cstring '':'') fd)
          (mbind (ltoa x) (\<lambda>str. mseq (fdputs str fd)
          (mseq (fdputs (cstring ''>'') fd)
          (ret cell_unspecified)))))))"

text \<open>The dispatch on the type \<open>t\<close> of \<open>x\<close>.\<close>

definition display_typed ::
    "(addr \<Rightarrow> addr \<Rightarrow> addr \<Rightarrow> addr mes) \<Rightarrow> (addr \<Rightarrow> bool \<Rightarrow> byte list \<Rightarrow> int \<Rightarrow> bool \<Rightarrow> addr mes) \<Rightarrow> tag \<Rightarrow>
     addr \<Rightarrow> bool \<Rightarrow> int \<Rightarrow> bool \<Rightarrow> addr mes" where
  "display_typed ap h t x cont fd write_p =
    (if t = TCHAR then display_char x fd write_p
     else if t = TCLOSURE then display_closure h x fd
     else if t = TMACRO then display_macro h x cont fd
     else if t = TBINDING then display_binding h x cont fd
     else if t = TNUMBER then display_number x fd
     else if t = TPAIR then display_pair h x cont fd write_p
     else if t = TPORT then display_port x fd
     else if t = TKEYWORD then display_keyword x fd
     else if t = TSTRING then display_string x fd write_p
     else if t = TSPECIAL \<or> t = TSYMBOL then display_symbol x fd
     else if t = TREF then display_ref h x fd write_p
     else if t = TSTRUCT then display_struct ap h x fd write_p
     else if t = TVECTOR then display_vector h x fd write_p
     else display_other x t fd)"

lemma display_typed_mono [partial_function_mono]:
  assumes "\<And>x cont sep fd w s. monotone (fun_ord (flat_ord None)) (flat_ord None) (\<lambda>f. h f x cont sep fd w s)"
  shows "monotone (fun_ord (flat_ord None)) (flat_ord None) (\<lambda>f. display_typed ap (h f) t x cont fd write_p s)"
  unfolding display_typed_def
  by (intro mes_mono display_closure_mono display_macro_mono display_binding_mono display_pair_mono
      display_ref_mono display_struct_mono display_vector_mono assms)

partial_function (option) display_helper ::
    "(addr \<Rightarrow> addr \<Rightarrow> addr \<Rightarrow> addr mes) \<Rightarrow> addr \<Rightarrow> bool \<Rightarrow> byte list \<Rightarrow> int \<Rightarrow> bool \<Rightarrow> addr mes" where
  "display_helper ap x cont sep fd write_p s =
     mseq (fdputs sep fd)
     (mbind (gets g_depth) (\<lambda>d.
      if d = 0 then ret cell_unspecified
      else mseq (set_depth (d - 1))
      (mbind (get_type x) (\<lambda>t.
       display_typed ap (display_helper ap) t x cont fd write_p)))) s"

definition fdisplay_c :: "(addr \<Rightarrow> addr \<Rightarrow> addr \<Rightarrow> addr mes) \<Rightarrow> addr \<Rightarrow> int \<Rightarrow> bool \<Rightarrow> addr mes" where
  "fdisplay_c ap x fd write_p = mseq (set_depth 5) (display_helper ap x False (cstring '''') fd write_p)"

definition display_c :: "(addr \<Rightarrow> addr \<Rightarrow> addr \<Rightarrow> addr mes) \<Rightarrow> addr \<Rightarrow> addr mes" where
  "display_c ap x =
     mseq (set_depth 5) (mbind (gets outfd) (\<lambda>fd. display_helper ap x False (cstring '''') fd False))"

definition display_error_c :: "(addr \<Rightarrow> addr \<Rightarrow> addr \<Rightarrow> addr mes) \<Rightarrow> addr \<Rightarrow> addr mes" where
  "display_error_c ap x =
     mseq (set_depth 5) (mbind (gets errfd) (\<lambda>fd. display_helper ap x False (cstring '''') fd False))"

definition display_port_c :: "(addr \<Rightarrow> addr \<Rightarrow> addr \<Rightarrow> addr mes) \<Rightarrow> addr \<Rightarrow> addr \<Rightarrow> addr mes" where
  "display_port_c ap x p =
     mbind (get_type p) (\<lambda>t.
     mseq (assert_msg (t = TNUMBER) ''p->type == TNUMBER'')
     (mbind (get_cdr p) (\<lambda>v. fdisplay_c ap x (to_int v) False)))"

definition write_c :: "(addr \<Rightarrow> addr \<Rightarrow> addr \<Rightarrow> addr mes) \<Rightarrow> addr \<Rightarrow> addr mes" where
  "write_c ap x =
     mseq (set_depth 5) (mbind (gets outfd) (\<lambda>fd. display_helper ap x False (cstring '''') fd True))"

definition write_error_c :: "(addr \<Rightarrow> addr \<Rightarrow> addr \<Rightarrow> addr mes) \<Rightarrow> addr \<Rightarrow> addr mes" where
  "write_error_c ap x =
     mseq (set_depth 5) (mbind (gets errfd) (\<lambda>fd. display_helper ap x False (cstring '''') fd True))"

definition write_port_c :: "(addr \<Rightarrow> addr \<Rightarrow> addr \<Rightarrow> addr mes) \<Rightarrow> addr \<Rightarrow> addr \<Rightarrow> addr mes" where
  "write_port_c ap x p =
     mbind (get_type p) (\<lambda>t.
     mseq (assert_msg (t = TNUMBER) ''p->type == TNUMBER'')
     (mbind (get_cdr p) (\<lambda>v. fdisplay_c ap x (to_int v) True)))"

section \<open>Printers\<close>

text \<open>\<^verbatim>\<open>fdputs (lit, __stdout)\<close>\<close>

definition out :: "string \<Rightarrow> unit mes" where
  "out lit = mbind (gets outfd) (fdputs (cstring lit))"

definition outc :: "int \<Rightarrow> unit mes" where
  "outc c = mbind (gets outfd) (fdputc c)"

partial_function (option) chain_printer :: "(addr \<Rightarrow> addr \<Rightarrow> addr \<Rightarrow> addr mes) \<Rightarrow> addr \<Rightarrow> unit mes" where
  "chain_printer ap e s =
     mbind (get_type e) (\<lambda>t.
     if t = TPAIR
     then mbind (a_car (get_car e)) (\<lambda>k. mbind (write_c ap k) (\<lambda>_.
          mbind (get_cdr e) (\<lambda>e'. mbind (get_type e') (\<lambda>t'.
          mseq (mwhen (t' = TPAIR) (outc 32))
          (chain_printer ap e')))))
     else ret ()) s"

definition hash_table_printer :: "(addr \<Rightarrow> addr \<Rightarrow> addr \<Rightarrow> addr mes) \<Rightarrow> addr \<Rightarrow> unit mes" where
  "hash_table_printer ap table =
     mseq (out ''#<'')
     (mbind (struct_ref_c table 2) (\<lambda>n. mbind (display_c ap n) (\<lambda>_.
      mseq (outc 32)
      (mseq (out ''size: '')
      (mbind (struct_ref_c table 3) (\<lambda>n. mbind (display_c ap n) (\<lambda>_.
       mseq (outc 32)
       (mbind (struct_ref_c table 4) (\<lambda>buckets.
        mseq (out ''buckets: '')
        (mbind (get_car buckets) (\<lambda>len.
         mseq (mfor [0..len - 1] (\<lambda>i.
           mbind (vector_ref_c buckets i) (\<lambda>e.
           mwhen (e \<noteq> cell_unspecified)
             (mseq (outc 91)
             (mseq (chain_printer ap e)
             (out (CHR 0x5D # CHR 0x0A # ''  '')))))))
         (outc 62))))))))))))"

definition builtin_printer :: "(addr \<Rightarrow> addr \<Rightarrow> addr \<Rightarrow> addr mes) \<Rightarrow> addr \<Rightarrow> unit mes" where
  "builtin_printer ap builtin =
     mseq (out ''#<procedure '')
     (mbind (builtin_name builtin) (\<lambda>n. mbind (display_c ap n) (\<lambda>_.
      mseq (outc 32)
      (mbind (builtin_arity builtin) (\<lambda>x. mbind (get_cdr x) (\<lambda>v.
       let arity = to_int v in
       mseq (if arity = -1 then outc 95
             else mseq (outc 40)
                  (mfor [0..arity - 1] (\<lambda>i. mseq (mwhen (i \<noteq> 0) (outc 32)) (outc 95))))
       (outc 62)))))))"

definition frame_printer :: "(addr \<Rightarrow> addr \<Rightarrow> addr \<Rightarrow> addr mes) \<Rightarrow> addr \<Rightarrow> unit mes" where
  "frame_printer ap frame =
     mseq (out ''#<'')
     (mbind (struct_ref_c frame 2) (\<lambda>n. mbind (display_c ap n) (\<lambda>_.
      mseq (outc 32)
      (mseq (out ''procedure: '')
      (mbind (struct_ref_c frame 3) (\<lambda>p. mbind (display_c ap p) (\<lambda>_.
       outc 62)))))))"

definition variable_printer :: "(addr \<Rightarrow> addr \<Rightarrow> addr \<Rightarrow> addr mes) \<Rightarrow> addr \<Rightarrow> addr mes" where
  "variable_printer ap var =
     mseq (out ''#<variable '')
     (mbind (variable_ref var) (\<lambda>x. mbind (display_c ap x) (\<lambda>_.
      mseq (outc 62)
      (ret cell_unspecified))))"

end
