(* ===== verification/Mes_Write.thy ===== *)
theory Mes_Write
  imports Mes_Display
begin

text \<open>
  What \<^verbatim>\<open>write\<close> puts on the output for a datum: \<open>datum_text\<close> says it, byte by byte, and the
  theorem at the end says that \<^verbatim>\<open>display_helper\<close> writes just that, and ends. \<open>names\<close> gives the
  print names of the symbols and special objects that occur in the datum.
\<close>

section \<open>Output\<close>

definition emit :: "int \<Rightarrow> byte list \<Rightarrow> mst \<Rightarrow> mst" where
  "emit fd bs s = s\<lparr>outlog := rev (map (Pair fd) bs) @ outlog s\<rparr>"

lemma emit_simps [simp]:
  "heap (emit fd bs s) = heap s" "bytes (emit fd bs s) = bytes s" "g_free (emit fd bs s) = g_free s"
  "g_depth (emit fd bs s) = g_depth s" "outfd (emit fd bs s) = outfd s" "errfd (emit fd bs s) = errfd s"
  "outlog (emit fd bs s) = rev (map (Pair fd) bs) @ outlog s"
  "(emit fd bs s)\<lparr>g_depth := n\<rparr> = emit fd bs (s\<lparr>g_depth := n\<rparr>)"
  by (simp_all add: emit_def)

lemma emit_emit [simp]: "emit fd bs (emit fd as s) = emit fd (as @ bs) s"
  by (simp add: emit_def)

lemma emit_nil [simp]: "emit fd [] s = s"
  by (simp add: emit_def)

lemma put_emit [simp]:
  "write_bytes fd bs s = Some (Inr (), emit fd bs s)"
  "fdputc c fd s = Some (Inr (), emit fd [of_int c] s)"
  "fdputs bs fd s = Some (Inr (), emit fd (takeWhile (\<lambda>c. c \<noteq> 0) bs) s)"
  by (simp_all add: fdputc_def fdputs_def write_bytes_def emit_def strlen_def takeWhile_eq_take [symmetric])

lemma set_depth_apply [simp]: "set_depth n s = Some (Inr (), s\<lparr>g_depth := n\<rparr>)"
  by (simp add: set_depth_def)

section \<open>The text of a datum\<close>

definition escape :: "byte \<Rightarrow> byte list" where
  "escape b =
     (if b = 0 then [92, 48] else if b = 7 then [92, 97] else if b = 8 then [92, 98]
      else if b = 9 then [92, 116] else if b = 10 then [92, 110] else if b = 11 then [92, 118]
      else if b = 12 then [92, 102] else if b = 13 then [92, 114] else if b = 27 then [92, 101]
      else if b = 92 then [92, 92] else if b = 34 then [92, 34] else [b])"

text \<open>Behind the hash sign: a character from 32 to 127 or with a name is written with a backslash.\<close>

definition char_text :: "int \<Rightarrow> byte list" where
  "char_text v =
     (if v = 0 then 92 # butlast (cstring ''nul'') else if v = 7 then 92 # butlast (cstring ''alarm'')
      else if v = 8 then 92 # butlast (cstring ''backspace'') else if v = 9 then 92 # butlast (cstring ''tab'')
      else if v = 10 then 92 # butlast (cstring ''newline'') else if v = 11 then 92 # butlast (cstring ''vtab'')
      else if v = 12 then 92 # butlast (cstring ''page'') else if v = 13 then 92 # butlast (cstring ''return'')
      else if v = 32 then 92 # butlast (cstring ''space'')
      else if v \<ge> 32 \<and> v \<le> 127 then [92, of_int v] else [of_int v])"

definition number_text :: "int \<Rightarrow> byte list" where
  "number_text n = (if n < 0 then 45 # ntoab_digits 10 (- n) [] else ntoab_digits 10 n [])"

text \<open>\<open>tail_text\<close> is the text behind the first element of a pair, up to the closing parenthesis.\<close>

fun datum_text :: "(addr \<rightharpoonup> byte list) \<Rightarrow> datum \<Rightarrow> byte list"
  and tail_text :: "(addr \<rightharpoonup> byte list) \<Rightarrow> datum \<Rightarrow> byte list"
  and elements_text :: "(addr \<rightharpoonup> byte list) \<Rightarrow> datum list \<Rightarrow> byte list" where
  "datum_text names (DNum n) = number_text n"
| "datum_text names (DChar v) = 35 # char_text (to_char v)"
| "datum_text names (DStr bs) = 34 # concat (map escape bs) @ [34]"
| "datum_text names (DKey bs) = 35 # 58 # concat (map escape bs)"
| "datum_text names (DAtom a) = concat (map escape (the (names a)))"
| "datum_text names (DPair d e) = 40 # datum_text names d @ tail_text names e @ [41]"
| "datum_text names (DVec ds) = 35 # 40 # elements_text names ds @ [41]"
| "tail_text names (DPair d e) = 32 # datum_text names d @ tail_text names e"
| "tail_text names (DAtom a) = (if a = cell_nil then [] else [32, 46, 32] @ datum_text names (DAtom a))"
| "tail_text names d = [32, 46, 32] @ datum_text names d"
| "elements_text names [] = []"
| "elements_text names (d # ds) = datum_text names d @ (if ds = [] then [] else 32 # elements_text names ds)"

text \<open>The datum is in the domain of the writer: numbers are \<^verbatim>\<open>long\<close>s and atoms have print names.\<close>

fun printable :: "mst \<Rightarrow> (addr \<rightharpoonup> byte list) \<Rightarrow> datum \<Rightarrow> bool" where
  "printable s names (DNum n) \<longleftrightarrow> is_long n"
| "printable s names (DAtom a) \<longleftrightarrow> a \<noteq> cell_circular
     \<and> (\<exists>bs. names a = Some bs \<and> (text_at s TSPECIAL bs a \<or> text_at s TSYMBOL bs a))"
| "printable s names (DPair d e) \<longleftrightarrow> printable s names d \<and> printable s names e"
| "printable s names (DVec ds) \<longleftrightarrow> list_all (printable s names) ds"
| "printable s names d \<longleftrightarrow> True"

section \<open>Writing atoms\<close>

lemma sint_byte_eq:
  fixes b :: byte
  assumes "- 128 \<le> n" "n < 128"
  shows "sint b = n \<longleftrightarrow> b = of_int n"
proof
  assume "sint b = n"
  then have "of_int n = (of_int (sint b) :: byte)" by simp
  then show "b = of_int n" by simp
next
  assume "b = of_int n"
  then show "sint b = n"
    using assms by (simp add: signed_of_int signed_take_bit_int_eq_self)
qed

lemma sint_byte_codes:
  fixes b :: byte
  shows "sint b = 0 \<longleftrightarrow> b = 0" "numeral k < (128 :: int) \<Longrightarrow> sint b = numeral k \<longleftrightarrow> b = numeral k"
  using sint_byte_eq [of 0 b] sint_byte_eq [of "numeral k" b]
  by (simp_all add: order_trans [of "- 128" 0 "numeral k"])

lemma fdwrite_string_char_emit [simp]:
  "fdwrite_string_char (sint b) fd s = Some (Inr (), emit fd (escape b) s)"
  by (simp add: fdwrite_string_char_def escape_def sint_byte_codes cstring_def)

lemma fdwrite_string_emit [simp]:
  "fdwrite_string (bs @ cs) (int (length bs)) fd s = Some (Inr (), emit fd (concat (map escape bs)) s)"
proof -
  have "mfor [k..k + int n - 1] (\<lambda>i. fdwrite_string_char (sint ((bs @ cs) ! nat i)) fd) s
      = Some (Inr (), emit fd (concat (map escape (take n (drop (nat k) bs)))) s)"
    if "nat k + n \<le> length bs" "0 \<le> k" for k n s
    using that
  proof (induction n arbitrary: k s)
    case 0
    then show ?case by simp
  next
    case (Suc n)
    have "[k..k + int (Suc n) - 1] = k # [k + 1..(k + 1) + int n - 1]"
      by (simp add: upto_rec1)
    moreover have "(bs @ cs) ! nat k = bs ! nat k" "drop (nat k) bs = bs ! nat k # drop (nat (k + 1)) bs"
      using Suc.prems by (simp_all add: nth_append Cons_nth_drop_Suc [symmetric] nat_add_distrib)
    ultimately show ?case
      using Suc.prems Suc.IH [of "k + 1"] by (simp add: nat_add_distrib)
  qed
  from this [of 0 "length bs" s] show ?thesis
    by (simp add: fdwrite_string_def)
qed

lemma fdwrite_char_emit [simp]:
  "fdwrite_char v fd s = Some (Inr (), emit fd (char_text v) s)"
  by (simp add: fdwrite_char_def char_text_def cstring_def mwhen_def)

lemma ltoa_text:
  assumes "is_long n"
  shows "ltoa n s = Some (Inr (number_text n), s)"
proof (cases "n < 0")
  case True
  with assms have "to_size (to_size (- (n + 1)) + 1) = - n"
    by (simp add: is_long_def width)
  with True show ?thesis
    using head_char_digit(3) [of 10 "- n" "[]"] by (simp add: ltoa_def ntoab_def number_text_def Let_def)
next
  case False
  with assms have "to_size n = n"
    by (simp add: is_long_def width)
  with False show ?thesis
    by (simp add: ltoa_def ntoab_def number_text_def Let_def)
qed

lemma ntoab_digits_no_null:
  assumes "8 \<le> b" "b \<le> 36" "0 \<le> u"
  shows "\<forall>c \<in> set (ntoab_digits b u []). \<exists>d. 0 \<le> d \<and> d < b \<and> c = digit_byte d"
  using assms(3)
proof (induction "nat u" arbitrary: u rule: less_induct)
  case less
  have "nat (u div b) < nat u \<and> 0 \<le> u div b" if "u div b \<noteq> 0"
  proof -
    have "0 < u" using that less.prems by (simp add: order_less_le) auto
    then show ?thesis
      using assms(1) less.prems by (simp add: int_div_less_self pos_imp_zdiv_nonneg_iff)
  qed
  moreover have "0 \<le> u mod b \<and> u mod b < b \<and> digit_byte (u mod b) = digit_byte (u mod b)"
    using assms(1) by simp
  then have "\<exists>d\<ge>0. d < b \<and> digit_byte (u mod b) = digit_byte d"
    by blast
  ultimately show ?case
    using less.hyps [of "u div b"] assms(1) by (subst ntoab_digits_step [OF assms(1) less.prems]) auto
qed

lemma number_text_no_null:
  assumes "is_long n"
  shows "takeWhile (\<lambda>c. c \<noteq> 0) (number_text n) = number_text n"
proof -
  have "c \<noteq> 0" if c: "c \<in> set (ntoab_digits 10 u [])" "0 \<le> u" for c u
  proof -
    obtain d where "0 \<le> d" "d < 10" "c = digit_byte d"
      using ntoab_digits_no_null [of 10 u] c by auto
    then show ?thesis
      using digit_byte_sint [of d] by auto
  qed
  then show ?thesis
    by (auto simp: number_text_def takeWhile_eq_all_conv)
qed

section \<open>Writing data\<close>

lemma display_step:
  assumes "heap s x = Some c" "g_depth s \<noteq> 0"
  shows "display_helper ap x cont sep fd w s = display_typed ap (display_helper ap) (ctype c) x cont fd w
    (emit fd (takeWhile (\<lambda>c. c \<noteq> 0) sep) (s\<lparr>g_depth := g_depth s - 1\<rparr>))"
  using assms by (subst display_helper.simps) simp

text \<open>The state after something has been written: only the output and the depth differ.\<close>

abbreviation written :: "int \<Rightarrow> byte list \<Rightarrow> int \<Rightarrow> mst \<Rightarrow> mst" where
  "written fd bs n s \<equiv> emit fd bs (s\<lparr>g_depth := n\<rparr>)"

lemma display_text:
  assumes "text_at s t bs x" "t = TSPECIAL \<or> t = TSYMBOL"
  shows "display_helper ap x False (cstring '''') fd True (written fd pre 5 s)
    = Some (Inr cell_unspecified, written fd (pre @ concat (map escape bs)) 4 s)"
proof -
  obtain c b where c: "heap s x = Some c" "ctype c = t" "ccar c = int (length bs)" "heap s (ccdr c) = Some b"
    "bytes s (ccdr c) = bs @ [0]"
    using assms(1) by (auto simp: text_at_def)
  then show ?thesis
    using assms(2) by (subst display_step [where c = c]) (auto simp: display_typed_def display_symbol_def cstring_def)
qed

text \<open>The recursive calls for the parts of a pair, and what they write.\<close>

lemma display_pair_ok:
  assumes c: "heap s x = Some c" "ctype c = TPAIR" and x: "x \<noteq> 0" "x \<noteq> cell_nil"
    and a: "ccar c \<noteq> cell_circular"
      "\<And>pre. h (ccar c) False (cstring '''') fd True (written fd pre 5 s)
         = Some (Inr cell_unspecified, written fd (pre @ as) 4 s)"
    and b: "heap s (ccdr c) = Some d" "ccdr c \<noteq> 0"
      "ctype d = TPAIR \<Longrightarrow> (\<And>pre. h (ccdr c) True (cstring '' '') fd True (written fd pre 4 s)
         = Some (Inr cell_unspecified, written fd (pre @ bs) 4 s))"
      "ccdr c = cell_nil \<Longrightarrow> ctype d \<noteq> TPAIR \<and> bs = []"
      "ctype d \<noteq> TPAIR \<Longrightarrow> ccdr c \<noteq> cell_nil \<Longrightarrow> (\<exists>es. bs = [32, 46, 32] @ es
         \<and> (\<forall>pre. h (ccdr c) False (cstring '''') fd True (written fd pre 5 s)
             = Some (Inr cell_unspecified, written fd (pre @ es) 4 s)))"
  shows "display_pair h x cont fd True (written fd pre n s)
    = Some (Inr cell_unspecified, written fd (pre @ (if cont then [] else [40]) @ as @ bs @ (if cont then [] else [41])) 4 s)"
proof -
  consider "ctype d = TPAIR" "ccdr c \<noteq> cell_nil" | "ccdr c = cell_nil" "ctype d \<noteq> TPAIR" "bs = []"
    | es where "ctype d \<noteq> TPAIR" "ccdr c \<noteq> cell_nil" "bs = [32, 46, 32] @ es"
      "\<And>pre. h (ccdr c) False (cstring '''') fd True (written fd pre 5 s)
             = Some (Inr cell_unspecified, written fd (pre @ es) 4 s)"
    using b(4,5) by blast
  then show ?thesis
  proof cases
    case 1
    then show ?thesis
      using c x a b(1-3) by (simp add: display_pair_def mwhen_def cstring_def)
  next
    case 2
    then show ?thesis
      using c x a b(1,2) by (simp add: display_pair_def mwhen_def cstring_def)
  next
    case 3
    then show ?thesis
      using c x a b(1,2) by (simp add: display_pair_def mwhen_def cstring_def)
  qed
qed

lemma repr_special:
  assumes "repr s d p" "specials_ok s" "cell_nil \<le> p" "p \<le> cell_vm_return"
  shows "d = DAtom p"
  using assms specials_okD [OF assms(2-4)] by (cases d) (auto simp: text_at_def)

lemma mfor_Cons_Inr: "body i s = Some (Inr (), t) \<Longrightarrow> mfor (i # is) body s = mfor is body t"
  by simp

text \<open>The elements of a vector, each in a cell of its own.\<close>

lemma display_elements:
  assumes x: "heap s x = Some c" "ccdr c = v"
    and e: "\<And>i pre. i < length ds \<Longrightarrow> display_helper ap (v + int i) False (cstring '''') fd True (written fd pre 5 s)
      = Some (Inr cell_unspecified, written fd (pre @ datum_text names (ds ! i)) 4 s)"
  shows "k + n = length ds \<Longrightarrow> mfor [int k..int k + int n - 1] (\<lambda>i.
      mseq (mwhen (i \<noteq> 0) (fdputc 32 fd))
      (mbind (get_cdr x) (\<lambda>v.
       mseq (set_depth 5)
       (mbind (display_helper ap (cell_ref v i) False (cstring '''') fd True) (\<lambda>_. ret ()))))) (written fd pre 4 s)
    = Some (Inr (), written fd (pre @ (if k = 0 \<or> n = 0 then [] else [32]) @ elements_text names (drop k ds)) 4 s)"
proof (induction n arbitrary: k pre)
  case 0
  then show ?case by simp
next
  case (Suc n)
  then have k: "k < length ds" by simp
  have upto: "[int k..int k + int (Suc n) - 1] = int k # [int (Suc k)..int (Suc k) + int n - 1]"
    by (simp add: upto_rec1 algebra_simps)
  have dr: "drop k ds = ds ! k # drop (Suc k) ds"
    using k by (simp add: Cons_nth_drop_Suc)
  have nil: "drop (Suc k) ds = [] \<longleftrightarrow> n = 0"
    using Suc.prems by auto
  let ?b = "\<lambda>i. mseq (mwhen (i \<noteq> 0) (fdputc 32 fd)) (mbind (get_cdr x) (\<lambda>v. mseq (set_depth 5)
     (mbind (display_helper ap (cell_ref v i) False (cstring '''') fd True) (\<lambda>_. ret ()))))"
  have b: "?b (int k) (written fd pre 4 s) = Some (Inr (), written fd (pre @ (if k = 0 then [] else [32]) @ datum_text names (ds ! k)) 4 s)"
    using x e [OF k] by (cases "k = 0") (simp_all add: mwhen_def cell_ref_def)
  let ?pre = "pre @ (if k = 0 then [] else [32]) @ datum_text names (ds ! k)"
  have "mfor (int k # [int (Suc k)..int (Suc k) + int n - 1]) ?b (written fd pre 4 s)
      = mfor [int (Suc k)..int (Suc k) + int n - 1] ?b (written fd ?pre 4 s)"
    by (rule mfor_Cons_Inr) (rule b)
  also have "\<dots> = Some (Inr (), written fd (?pre @ (if Suc k = 0 \<or> n = 0 then [] else [32])
      @ elements_text names (drop (Suc k) ds)) 4 s)"
    by (rule Suc.IH) (use Suc.prems in simp)
  also have "?pre @ (if Suc k = 0 \<or> n = 0 then [] else [32]) @ elements_text names (drop (Suc k) ds)
      = pre @ (if k = 0 \<or> Suc n = 0 then [] else [32]) @ elements_text names (drop k ds)"
    using nil by (simp add: dr)
  finally show ?case
    unfolding upto .
qed

theorem display_datum:
  assumes null: "heap s 0 = None" and sp: "specials_ok s"
  shows "repr s d x \<Longrightarrow> printable s names d \<Longrightarrow>
      (\<forall>pre. display_helper ap x False (cstring '''') fd True (written fd pre 5 s)
        = Some (Inr cell_unspecified, written fd (pre @ datum_text names d) 4 s))
      \<and> ((\<exists>d1 d2. d = DPair d1 d2) \<longrightarrow> (\<forall>pre n. n \<noteq> 0 \<longrightarrow>
          display_helper ap x True (cstring '' '') fd True (written fd pre n s)
          = Some (Inr cell_unspecified, written fd (pre @ tail_text names d) 4 s)))"
proof (induction d arbitrary: x)
  case (DPair d e)
  obtain c where c: "heap s x = Some c" "ctype c = TPAIR" "repr s d (ccar c)" "repr s e (ccdr c)"
    using DPair.prems(1) by auto
  obtain c' where c': "heap s (ccdr c) = Some c'"
    using repr_mapped [OF c(4)] by auto
  have x: "x \<noteq> 0" "x \<noteq> cell_nil" "ccdr c \<noteq> 0" "ccar c \<noteq> cell_circular"
  proof -
    show "x \<noteq> 0" "ccdr c \<noteq> 0"
      using c(1) c' null by auto
    show "x \<noteq> cell_nil"
      using specials_okD [OF sp, of cell_nil] c(1,2) by (auto simp: cells)
    show "ccar c \<noteq> cell_circular"
    proof
      assume "ccar c = cell_circular"
      then have "d = DAtom cell_circular"
        using repr_special [OF c(3) sp] by (simp add: cells)
      with DPair.prems(2) show False by simp
    qed
  qed
  have t: "ctype c' = TPAIR \<longleftrightarrow> (\<exists>d1 d2. e = DPair d1 d2)"
    using c(4) c' by (cases e) (auto simp: text_at_def by_identity_def)
  have nil: "ccdr c = cell_nil \<longleftrightarrow> e = DAtom cell_nil"
    using repr_special [OF c(4) sp] c(4) by (auto simp: cells)
  have pair: "display_pair (display_helper ap) x cont fd True (written fd pre n s)
      = Some (Inr cell_unspecified, written fd (pre @ (if cont then [] else [40]) @ datum_text names d
          @ tail_text names e @ (if cont then [] else [41])) 4 s)" for cont pre n
  proof (rule display_pair_ok [OF c(1,2) x(1,2,4) _ c' x(3)])
    show "display_helper ap (ccar c) False (cstring '''') fd True (written fd pre 5 s)
        = Some (Inr cell_unspecified, written fd (pre @ datum_text names d) 4 s)" for pre
      using DPair.IH(1) [OF c(3)] DPair.prems(2) by simp
    show "ctype c' = TPAIR \<Longrightarrow> display_helper ap (ccdr c) True (cstring '' '') fd True (written fd pre 4 s)
        = Some (Inr cell_unspecified, written fd (pre @ tail_text names e) 4 s)" for pre
      using DPair.IH(2) [OF c(4)] DPair.prems(2) t by auto
    show "ccdr c = cell_nil \<Longrightarrow> ctype c' \<noteq> TPAIR \<and> tail_text names e = []"
      using nil t by simp
    have "display_helper ap (ccdr c) False (cstring '''') fd True (written fd pre 5 s)
        = Some (Inr cell_unspecified, written fd (pre @ datum_text names e) 4 s)" for pre
      using DPair.IH(2) [OF c(4)] DPair.prems(2) by simp
    moreover have "tail_text names e = [32, 46, 32] @ datum_text names e"
      if "ctype c' \<noteq> TPAIR" "ccdr c \<noteq> cell_nil"
      using that t nil by (cases e) auto
    ultimately show "ctype c' \<noteq> TPAIR \<Longrightarrow> ccdr c \<noteq> cell_nil \<Longrightarrow> \<exists>es. tail_text names e = [32, 46, 32] @ es
        \<and> (\<forall>pre. display_helper ap (ccdr c) False (cstring '''') fd True (written fd pre 5 s)
             = Some (Inr cell_unspecified, written fd (pre @ es) 4 s))"
      by blast
  qed
  have "display_helper ap x False (cstring '''') fd True (written fd pre 5 s)
      = Some (Inr cell_unspecified, written fd (pre @ datum_text names (DPair d e)) 4 s)" for pre
    using c(1,2) pair [of False pre 4] by (subst display_step [where c = c]) (simp_all add: display_typed_def cstring_def)
  moreover have "display_helper ap x True (cstring '' '') fd True (written fd pre n s)
      = Some (Inr cell_unspecified, written fd (pre @ tail_text names (DPair d e)) 4 s)" if "n \<noteq> 0" for pre n
    using that c(1,2) pair [of True "pre @ [32]" "n - 1"]
    by (subst display_step [where c = c]) (simp_all add: display_typed_def cstring_def)
  ultimately show ?case by blast
next
  case (DVec ds)
  obtain c where c: "heap s x = Some c" "ctype c = TVECTOR" "ccar c = int (length ds)" "reprs s ds (ccdr c)"
    using DVec.prems(1) by auto
  have e: "display_helper ap (ccdr c + int i) False (cstring '''') fd True (written fd pre 5 s)
      = Some (Inr cell_unspecified, written fd (pre @ datum_text names (ds ! i)) 4 s)" if i: "i < length ds" for i pre
  proof -
    have r: "lookup s (ccdr c + int i) \<noteq> None" "repr s (ds ! i) (element_of s (ccdr c + int i))"
      using c(4) i by (auto simp: reprs_nth)
    then obtain b where b: "heap s (ccdr c + int i) = Some b"
      by (auto simp: lookup_def split: if_splits)
    have "display_helper ap (element_of s (ccdr c + int i)) False (cstring '''') fd True (written fd pre 5 s)
        = Some (Inr cell_unspecified, written fd (pre @ datum_text names (ds ! i)) 4 s)" for pre
      using DVec.IH [OF nth_mem [OF i] r(2)] DVec.prems(2) i by (simp add: list_all_length)
    with b show ?thesis
      by (cases "ctype b = TREF")
        (simp_all add: element_of_def display_step [where c = b] display_typed_def display_ref_def cstring_def)
  qed
  have "display_helper ap x False (cstring '''') fd True (written fd pre 5 s)
      = Some (Inr cell_unspecified, written fd (pre @ datum_text names (DVec ds)) 4 s)" for pre
    using c display_elements [OF c(1) refl e, of 0 "length ds" "pre @ [35, 40]"]
    by (subst display_step [where c = c]) (simp_all add: display_typed_def display_vector_def cstring_def)
  then show ?case by simp
next
  case (DNum k)
  then obtain c where "heap s x = Some c" "ctype c = TNUMBER" "ccdr c = k" by auto
  then show ?case
    using DNum.prems(2)
    by (simp add: display_step [where c = c] display_typed_def display_number_def ltoa_text number_text_no_null cstring_def)
next
  case (DChar k)
  then obtain c where "heap s x = Some c" "ctype c = TCHAR" "ccdr c = k" by auto
  then show ?case
    by (simp add: display_step [where c = c] display_typed_def display_char_def cstring_def)
next
  case (DStr bs)
  then obtain c b where "heap s x = Some c" "ctype c = TSTRING" "ccar c = int (length bs)" "heap s (ccdr c) = Some b"
    "bytes s (ccdr c) = bs @ [0]"
    by (auto simp: text_at_def)
  then show ?case
    by (simp add: display_step [where c = c] display_typed_def display_string_def cstring_def)
next
  case (DKey bs)
  then obtain c b where "heap s x = Some c" "ctype c = TKEYWORD" "ccar c = int (length bs)" "heap s (ccdr c) = Some b"
    "bytes s (ccdr c) = bs @ [0]"
    by (auto simp: text_at_def)
  then show ?case
    by (simp add: display_step [where c = c] display_typed_def display_keyword_def cstring_def)
next
  case (DAtom a)
  then obtain bs t where "names a = Some bs" "text_at s t bs x" "t = TSPECIAL \<or> t = TSYMBOL"
    by auto
  then show ?case
    using display_text [of s t bs x] by simp
qed

theorem write_datum:
  assumes "heap s 0 = None" "specials_ok s" "repr s d x" "printable s names d"
  shows "write_c ap x s = Some (Inr cell_unspecified, written (outfd s) (datum_text names d) 4 s)"
  using display_datum [OF assms, of ap "outfd s", THEN conjunct1, rule_format, of "[]"]
  by (simp add: write_c_def)

end
