(* ===== verification/Mes_Boot.thy ===== *)
theory Mes_Boot
  imports Mes_Posix Mes_Builtins Mes_Reader Mes_Eval Mes_Write
begin

text \<open>
  The program as a whole: the rest of src/src/mes.c (\<^verbatim>\<open>open_boot\<close>, \<^verbatim>\<open>read_boot\<close>, \<^verbatim>\<open>init\<close>,
  \<^verbatim>\<open>main\<close>), \<^verbatim>\<open>primitive_load\<close> of src/src/eval-apply.c and the statistics and dumps of
  src/src/gc.c. As elsewhere \<^verbatim>\<open>g_debug\<close> is zero. \<open>path_max\<close> is the \<^verbatim>\<open>PATH_MAX\<close> of the C library
  that is in use (512 in include/limits.h); a text that outgrows its buffer is a fault.
\<close>

section \<open>Statistics\<close>

definition eputs :: "byte list \<Rightarrow> unit mes" where
  "eputs str = mbind (gets errfd) (fdputs str)"

text \<open>Characters without the null byte.\<close>

definition chars :: "string \<Rightarrow> byte list" where
  "chars t = butlast (cstring t)"

definition newline :: "byte list" where
  "newline = [10, 0]"

definition gc_stats_c :: "byte list option \<Rightarrow> unit mes" where
  "gc_stats_c location =
     mbind (gets (\<lambda>s. g_free s - g_cells s)) (\<lambda>i.
     mseq (case location of Some w \<Rightarrow> mseq (eputs w) (eputs (cstring '': '')) | None \<Rightarrow> ret ())
     (mseq (eputs (cstring ''[''))
     (mseq (mbind (ltoa i) eputs)
     (eputs (chars '']'' @ newline)))))"

text \<open>The time that went into collections is measured by the system.\<close>

definition gc_stats :: "int \<Rightarrow> addr mes" where
  "gc_stats gc_time =
     mseq (gc_stats_c None)
     (mbind (gets (\<lambda>s. g_free s - g_cells s)) (\<lambda>arena_used.
      mbind (gets ARENA_SIZE) (\<lambda>arena_size. mbind (gets gc_count) (\<lambda>count.
      mbind (cstring_to_symbol (cstring ''gc-count'')) (\<lambda>k. mbind (make_number count) (\<lambda>v. mbind (acons k v cell_nil) (\<lambda>r.
      mbind (cstring_to_symbol (cstring ''gc-time'')) (\<lambda>k. mbind (make_number gc_time) (\<lambda>v. mbind (acons k v r) (\<lambda>r.
      mbind (cstring_to_symbol (cstring ''arena-free'')) (\<lambda>k. mbind (make_number (arena_size - arena_used)) (\<lambda>v. mbind (acons k v r) (\<lambda>r.
      mbind (cstring_to_symbol (cstring ''arena-size'')) (\<lambda>k. mbind (make_number arena_size) (\<lambda>v. acons k v r)))))))))))))))"

section \<open>Dumps\<close>

text \<open>\<open>fd\<close> is \<^verbatim>\<open>g_dump_filedes\<close>; an address is written as its distance in cells.\<close>

definition dumpc :: "int \<Rightarrow> byte \<Rightarrow> unit mes" where
  "dumpc fd c = mbind (fdputc (uint c) fd) (\<lambda>_. ret ())"

definition dumps :: "int \<Rightarrow> byte list \<Rightarrow> unit mes" where
  "dumps fd str = fdputs str fd"

definition gc_dump_register :: "int \<Rightarrow> byte list \<Rightarrow> addr \<Rightarrow> unit mes" where
  "gc_dump_register fd n r =
     mseq (dumps fd n) (mseq (dumps fd (cstring '': ''))
     (mbind (gets g_arena) (\<lambda>a. mbind (ltoa (r - a)) (\<lambda>str.
      mseq (dumps fd str) (dumps fd newline)))))"

definition gc_dump_state :: "int \<Rightarrow> unit mes" where
  "gc_dump_state fd =
     mbind (gets R0) (\<lambda>r. mseq (gc_dump_register fd (cstring ''R0'') r)
     (mbind (gets R1) (\<lambda>r. mseq (gc_dump_register fd (cstring ''R1'') r)
     (mbind (gets R2) (\<lambda>r. mseq (gc_dump_register fd (cstring ''R2'') r)
     (mbind (gets R3) (\<lambda>r. mseq (gc_dump_register fd (cstring ''R3'') r)
     (mbind (gets M0) (\<lambda>r. mseq (gc_dump_register fd (cstring ''M0'') r)
     (mbind (gets M1) (\<lambda>r. mseq (gc_dump_register fd (cstring ''M1'') r)
     (mbind (gets g_symbols) (\<lambda>r. mseq (gc_dump_register fd (cstring ''g_symbols'') r)
     (mbind (gets g_symbol_max) (\<lambda>r. mseq (gc_dump_register fd (cstring ''g_symbol_max'') r)
     (mbind (gets g_macros) (\<lambda>r. mseq (gc_dump_register fd (cstring ''g_macros'') r)
     (mbind (gets g_ports) (\<lambda>r. mseq (gc_dump_register fd (cstring ''g_ports'') r)
     (mbind (gets cell_zero) (\<lambda>r. mseq (gc_dump_register fd (cstring ''cell_zero'') r)
     (gc_dump_register fd (cstring ''cell_nil'') cell_nil))))))))))))))))))))))"

definition gc_dump_stack :: "int \<Rightarrow> unit mes" where
  "gc_dump_stack fd =
     mbind (gets g_stack) (\<lambda>st. mbind (gets STACK_SIZE) (\<lambda>n.
     mfor [st..n - 1] (\<lambda>i. mbind (ltoa i) (\<lambda>str. mbind (stack_get i) (gc_dump_register fd str)))))"

text \<open>The loop that drops cells of zeros at the end.\<close>

partial_function (option) dump_end :: "addr \<Rightarrow> int \<Rightarrow> int mes" where
  "dump_end e len s =
     mbind (get_type e) (\<lambda>t. mbind (get_car e) (\<lambda>a. mbind (get_cdr e) (\<lambda>d.
     if t = TCHAR \<and> a = 0 \<and> d = 0 then dump_end (e - 1) (len - 1) else ret len))) s"

text \<open>
  One cell: its tag, its first and its second word, or the text of a bytevector. The result is
  how many cells it takes and what that takes off the len: twice as much for a bytevector.
\<close>

definition dump_cell :: "int \<Rightarrow> addr \<Rightarrow> addr \<Rightarrow> (int \<times> int) mes" where
  "dump_cell fd dist x =
     mbind (get_type x) (\<lambda>t. mbind (get_car x) (\<lambda>a. mbind (get_cdr x) (\<lambda>d.
     mbind (ltoa (tag_number t)) (\<lambda>str. mseq (dumps fd str) (mseq (dumpc fd 32)
     (mbind (ltoa (if t \<in> {TMACRO, TPAIR, TREF, TBINDING} then a - dist else a)) (\<lambda>str.
      mseq (dumps fd str) (mseq (dumpc fd 32)
      (if t = TBYTES
       then mbind (cell_bytes x) (\<lambda>p.
            mseq (dumpc fd 34)
            (mseq (mfor (take (nat a) p) (\<lambda>c. mwhen (c \<noteq> 0) (dumpc fd c)))
            (mseq (dumpc fd 34)
            (ret (bytes_cells a, 2 * bytes_cells a)))))
       else mbind (ltoa (if t \<in> {TCLOSURE, TCONTINUATION, TKEYWORD, TMACRO, TPAIR, TPORT, TSPECIAL, TSTRING, TSTRUCT,
                       TSYMBOL, TVALUES, TVECTOR} then d - dist
                   else if t = TNUMBER \<and> d > 1000 then 1001 else d)) (\<lambda>str.
            mseq (dumps fd str) (ret (1, 1))))))))))))"

text \<open>Sixteen cells to a line; \<open>k\<close> are left on it.\<close>

primrec dump_row :: "int \<Rightarrow> addr \<Rightarrow> nat \<Rightarrow> addr \<Rightarrow> int \<Rightarrow> (addr \<times> int) mes" where
  "dump_row fd dist 0 x len = ret (x, len)"
| "dump_row fd dist (Suc k) x len =
     mbind (get_type x) (\<lambda>_.
     mbind (if len = 0 then mseq (dumps fd (cstring ''0 0 0'')) (ret (0, 0)) else dump_cell fd dist x) (\<lambda>(used, m).
     mseq (if k \<noteq> 0 then dumps fd (cstring ''  '') else dumpc fd 10)
     (dump_row fd dist k (x + used) (len - m))))"

partial_function (option) dump_rows :: "int \<Rightarrow> addr \<Rightarrow> addr \<Rightarrow> int \<Rightarrow> unit mes" where
  "dump_rows fd dist x len s =
     (if len > 0
      then mbind (dump_row fd dist 16 x len) (\<lambda>p. mseq (dumpc fd 10) (dump_rows fd dist (fst p) (snd p)))
      else ret ()) s"

definition gc_dump_arena :: "os \<Rightarrow> int \<Rightarrow> addr \<Rightarrow> int \<Rightarrow> int mes" where
  "gc_dump_arena os filedes x len =
     mbind (gets g_cells) (\<lambda>c. let e = c + len in
     mbind (if filedes = 0 then mes_open os (butlast (cstring ''dump.mo'')) 65 420 else ret filedes) (\<lambda>fd.
     mseq (dumps fd (cstring ''stack='')) (mbind (gets g_stack) (\<lambda>st. mbind (ltoa st) (\<lambda>str. mseq (dumps fd str) (mseq (dumpc fd 10)
     (mseq (dumps fd (cstring ''size='')) (mbind (ltoa len) (\<lambda>str. mseq (dumps fd str) (mseq (dumpc fd 10)
     (mseq (gc_dump_state fd) (mseq (gc_dump_stack fd)
     (mbind (dump_end e len) (\<lambda>len. mseq (dump_rows fd x x len) (ret fd)))))))))))))))"

section \<open>Loading a file\<close>

definition primitive_load :: "os \<Rightarrow> world \<Rightarrow> addr \<Rightarrow> addr mes" where
  "primitive_load os W filename =
     mbind (get_type filename) (\<lambda>t. mbind (get_cdr filename) (\<lambda>v.
     mbind (if t = TNUMBER \<and> v = 0 then current_input_port
            else if t = TSTRING then mbind (open_input_file os filename) set_current_input_port
            else if t = TPORT then set_current_input_port filename
            else mseq (eputs (cstring ''primitive_load failed, filename=''))
                 (mbind (display_error_c (nested W) filename) (\<lambda>_.
                  mseq (assert_msg False ''primitive-load-boom 0'') (ret filename)))) (\<lambda>input.
     mbind read_input_file_env (\<lambda>forms. mbind (cons cell_symbol_begin forms) (\<lambda>forms.
     mbind (set_current_input_port input) (\<lambda>_.
     mbind (cons cell_symbol_program forms) (\<lambda>entry. mbind (cons entry cell_nil) (\<lambda>env.
     mseq gc_push_frame
     (mseq (push_cc forms cell_unspecified env cell_unspecified)
     (mseq (set_R3 cell_vm_begin_expand)
     (mbind (eval_apply W) (\<lambda>result.
     mseq gc_pop_frame (ret result)))))))))))))"

section \<open>The start\<close>

definition env_var :: "os \<Rightarrow> string \<Rightarrow> byte list option mes" where
  "env_var os name =
     mbind (os ''environ'' []) (\<lambda>(r, ns, environ).
     ret (map_option (takeWhile (\<lambda>b. b \<noteq> 0)) (getenv (map (\<lambda>e. e @ [0]) environ) (cstring name))))"

text \<open>The copy of a text to a buffer of \<open>n\<close> bytes.\<close>

definition fits :: "int \<Rightarrow> byte list \<Rightarrow> unit mes" where
  "fits n t = (if int (length t) < n then ret () else fail Segv)"

definition set_stdin :: "int \<Rightarrow> unit mes" where
  "set_stdin fd = modify (\<lambda>s. s\<lparr>infd := fd\<rparr>)"

definition try_open_boot :: "os \<Rightarrow> int \<Rightarrow> byte list \<Rightarrow> byte list \<Rightarrow> int mes" where
  "try_open_boot os path_max file_name boot =
     mseq (fits path_max (file_name @ boot)) (mes_open os (file_name @ boot) 0 0)"

text \<open>One place to look in: a data directory; \<open>unless_open\<close> goes on as long as nothing is open.\<close>

definition try_directory :: "os \<Rightarrow> int \<Rightarrow> byte list \<Rightarrow> byte list \<Rightarrow> byte list mes" where
  "try_directory os path_max boot datadir =
     mseq (fits 1024 datadir)
     (mbind (try_open_boot os path_max (datadir @ chars ''/module/mes/'') boot) (\<lambda>fd.
      mseq (set_stdin fd) (ret datadir)))"

definition unless_open :: "byte list mes \<Rightarrow> byte list \<Rightarrow> byte list mes" where
  "unless_open p datadir = mbind (gets infd) (\<lambda>fd. if fd < 0 then p else ret datadir)"

definition open_boot :: "os \<Rightarrow> int \<Rightarrow> byte list mes" where
  "open_boot os path_max =
     mseq (set_stdin (-1))
     (mbind (env_var os ''MES_BOOT'') (\<lambda>b. let boot = (case b of Some p \<Rightarrow> p | None \<Rightarrow> chars ''boot-5.scm'') in
      mseq (fits path_max boot)
      (mbind (env_var os ''MES_PREFIX'') (\<lambda>prefix.
      mbind (case prefix of None \<Rightarrow> ret (chars ''.'')
             | Some p \<Rightarrow> mbind (try_directory os path_max boot (p @ chars ''/mes''))
                 (unless_open (try_directory os path_max boot (p @ chars ''/share/mes'')))) (\<lambda>datadir.
      mbind (unless_open (mbind (env_var os ''srcdest'') (\<lambda>src.
               try_directory os path_max boot ((case src of Some p \<Rightarrow> p | None \<Rightarrow> []) @ chars ''mes''))) datadir) (\<lambda>datadir.
      mbind (unless_open (mbind (try_open_boot os path_max [] boot) (\<lambda>fd.
               mseq (set_stdin fd) (ret datadir))) datadir) (\<lambda>datadir.
      mbind (gets infd) (\<lambda>fd.
      mseq (mwhen (fd < 0)
        (mseq (eputs (cstring ''mes: boot failed: no such file: ''))
        (mseq (eputs (boot @ [0])) (mseq (eputs newline) (fail (Exit 1))))))
      (ret datadir)))))))))"

definition read_boot :: "addr mes" where
  "read_boot =
     mbind read_input_file_env (\<lambda>program.
     mseq (modify (\<lambda>s. s\<lparr>R2 := program\<rparr>)) (mseq (set_stdin 0) (ret program)))"

text \<open>The result is the data directory and whether \<^verbatim>\<open>MES_MINI\<close> is set.\<close>

definition init :: "os \<Rightarrow> int \<Rightarrow> (addr \<Rightarrow> cell) \<Rightarrow> (byte list \<times> bool) mes" where
  "init os path_max mem =
     mbind (env_var os ''MES_MINI'') (\<lambda>mini.
     mbind (open_boot os path_max) (\<lambda>datadir.
     mbind (os ''environ'' []) (\<lambda>(r, ns, environ).
     mseq (gc_init (map (\<lambda>e. e @ [0]) environ) mem)
     (ret (datadir, mini \<noteq> None)))))"

text \<open>\<open>address\<close> is where the linker puts a function, \<open>W\<close> what there is to call.\<close>

definition main :: "os \<Rightarrow> int \<Rightarrow> (string \<Rightarrow> int) \<Rightarrow> world \<Rightarrow> byte list \<Rightarrow> byte list list \<Rightarrow> int mes" where
  "main os path_max address W version argv =
     mbind (init os path_max (memory W)) (\<lambda>(datadir, mini).
     mbind (mes_environment version (datadir @ [0]) (map (\<lambda>a. a @ [0]) argv)) (\<lambda>a.
     mbind (mes_builtins mini address a) (\<lambda>a.
     mbind (init_time os a) (\<lambda>a.
     mbind (make_initial_module a) (\<lambda>m.
     mseq (modify (\<lambda>s. s\<lparr>M0 := m, M1 := cell_f, R0 := cell_nil\<rparr>))
     (mbind (make_hash_table_c 0) (\<lambda>macros.
     mseq (modify (\<lambda>s. s\<lparr>g_macros := macros\<rparr>))
     (mbind read_boot (\<lambda>program.
     mbind (gets R0) (\<lambda>r0. mbind (acons cell_symbol_program program r0) (\<lambda>r0.
     mseq (set_R0 r0)
     (mbind (gets R2) (\<lambda>r2.
     mseq (push_cc r2 cell_unspecified r0 cell_unspecified)
     (mseq (set_R3 cell_vm_begin_expand)
     (mbind (eval_apply W) (\<lambda>r1.
     mseq (set_R1 r1) (ret 0)))))))))))))))))"

section \<open>Which file the program starts from\<close>

text \<open>What is relied on: asking for a variable or opening a file does not change the state of the program.\<close>

definition answers :: "os \<Rightarrow> (string \<Rightarrow> byte list option) \<Rightarrow> (byte list \<Rightarrow> int) \<Rightarrow> bool" where
  "answers os env opens \<longleftrightarrow> (\<forall>s name. env_var os name s = Some (Inr (env name), s))
     \<and> (\<forall>s f. os_value os ''open'' [OText f, OInt 0, OInt 0] s = Some (Inr (opens f), s))"

definition boot_name :: "(string \<Rightarrow> byte list option) \<Rightarrow> byte list" where
  "boot_name env = (case env ''MES_BOOT'' of Some p \<Rightarrow> p | None \<Rightarrow> chars ''boot-5.scm'')"

definition boot_directories :: "(string \<Rightarrow> byte list option) \<Rightarrow> byte list list" where
  "boot_directories env =
     (case env ''MES_PREFIX'' of None \<Rightarrow> [] | Some p \<Rightarrow> [p @ chars ''/mes'', p @ chars ''/share/mes''])
     @ [(case env ''srcdest'' of Some p \<Rightarrow> p | None \<Rightarrow> []) @ chars ''mes'']"

definition boot_files :: "(string \<Rightarrow> byte list option) \<Rightarrow> byte list list" where
  "boot_files env = map (\<lambda>d. d @ chars ''/module/mes/'' @ boot_name env) (boot_directories env) @ [boot_name env]"

definition boot_fits :: "int \<Rightarrow> (string \<Rightarrow> byte list option) \<Rightarrow> bool" where
  "boot_fits path_max env \<longleftrightarrow> (\<forall>d \<in> set (boot_directories env). int (length d) < 1024)
     \<and> (\<forall>f \<in> set (boot_files env). int (length f) < path_max)"

definition stdin_opened :: "int \<Rightarrow> mst \<Rightarrow> mst" where
  "stdin_opened fd s = s\<lparr>infd := fd, ungetc_buf := (if fd > 2 then (ungetc_buf s)(fd := -1) else ungetc_buf s)\<rparr>"

lemma stdin_opened_simps [simp]:
  "infd (stdin_opened fd s) = fd" "outlog (stdin_opened fd s) = outlog s" "errfd (stdin_opened fd s) = errfd s"
  by (simp_all add: stdin_opened_def)

lemma mes_open_ok:
  assumes "answers os env opens"
  shows "mes_open os f 0 0 s = Some (Inr (opens f),
    s\<lparr>ungetc_buf := (if opens f > 2 then (ungetc_buf s)(opens f := -1) else ungetc_buf s)\<rparr>)"
  using assms by (simp add: mes_open_def answers_def ungetc_set_def)

lemma try_directory_ok:
  assumes "answers os env opens" "int (length d) < 1024" "int (length (d @ chars ''/module/mes/'' @ boot)) < path_max"
  shows "try_directory os path_max boot d s
    = Some (Inr d, stdin_opened (opens (d @ chars ''/module/mes/'' @ boot)) s)"
  using assms(2,3)
  by (simp add: try_directory_def try_open_boot_def fits_def mes_open_ok [OF assms(1)] set_stdin_def stdin_opened_def)

text \<open>The tries one after the other, until one has opened a file.\<close>

primrec tried :: "(byte list \<Rightarrow> int) \<Rightarrow> byte list list \<Rightarrow> mst \<Rightarrow> mst" where
  "tried opens [] s = s"
| "tried opens (f # fs) s = (if infd s < 0 then tried opens fs (stdin_opened (opens f) s) else s)"

lemma tried_append: "tried opens (fs @ gs) s = tried opens gs (tried opens fs s)"
proof (induction fs arbitrary: s)
  case (Cons f fs)
  have "tried opens gs s = s" if "\<not> infd s < 0"
    using that by (cases gs) simp_all
  with Cons show ?case by simp
qed simp

lemma tried_find:
  "infd s < 0 \<Longrightarrow> (case find (\<lambda>f. 0 \<le> opens f) fs of Some f \<Rightarrow> infd (tried opens fs s) = opens f | None \<Rightarrow> infd (tried opens fs s) < 0)"
proof (induction fs arbitrary: s)
  case (Cons f fs)
  have "tried opens fs s = s" if "\<not> infd s < 0" for s
    using that by (cases fs) simp_all
  then show ?case
    using Cons.IH [of "stdin_opened (opens f) s"] Cons.prems by (auto simp: not_less split: option.splits)
qed simp

lemma tried_output [simp]: "outlog (tried opens fs s) = outlog s" "errfd (tried opens fs s) = errfd s"
  by (induction fs arbitrary: s) auto

lemma unless_open_ok:
  assumes "infd s < 0 \<Longrightarrow> p s = Some (Inr e, stdin_opened (opens f) s)"
  shows "\<exists>d'. unless_open p d s = Some (Inr d', tried opens [f] s)"
  using assms by (simp add: unless_open_def)

definition first_places :: "os \<Rightarrow> int \<Rightarrow> (string \<Rightarrow> byte list option) \<Rightarrow> byte list mes" where
  "first_places os path_max env =
     (case env ''MES_PREFIX'' of None \<Rightarrow> ret (chars ''.'')
      | Some p \<Rightarrow> mbind (try_directory os path_max (boot_name env) (p @ chars ''/mes''))
          (unless_open (try_directory os path_max (boot_name env) (p @ chars ''/share/mes''))))"

definition in_directory :: "(string \<Rightarrow> byte list option) \<Rightarrow> byte list \<Rightarrow> byte list" where
  "in_directory env d = d @ chars ''/module/mes/'' @ boot_name env"

lemma directory_ok:
  assumes "answers os env opens" "boot_fits path_max env" "d \<in> set (boot_directories env)"
  shows "try_directory os path_max (boot_name env) d s = Some (Inr d, stdin_opened (opens (in_directory env d)) s)"
  using try_directory_ok [OF assms(1), of d "boot_name env" path_max s] assms(2,3)
  by (simp add: boot_fits_def boot_files_def in_directory_def)

lemma first_places_ok:
  assumes "answers os env opens" "boot_fits path_max env" "infd s < 0"
  shows "\<exists>d. first_places os path_max env s = Some (Inr d, tried opens (map (in_directory env) (butlast (boot_directories env))) s)"
proof (cases "env ''MES_PREFIX''")
  case None
  then show ?thesis
    by (simp add: first_places_def boot_directories_def)
next
  case (Some p)
  let ?a = "p @ chars ''/mes''" and ?b = "p @ chars ''/share/mes''"
  have d: "?a \<in> set (boot_directories env)" "?b \<in> set (boot_directories env)"
    using Some by (simp_all add: boot_directories_def)
  obtain d' where "unless_open (try_directory os path_max (boot_name env) ?b) ?a (stdin_opened (opens (in_directory env ?a)) s)
     = Some (Inr d', tried opens [in_directory env ?b] (stdin_opened (opens (in_directory env ?a)) s))"
    using unless_open_ok directory_ok [OF assms(1,2) d(2)] by blast
  then have "first_places os path_max env s
     = Some (Inr d', tried opens [in_directory env ?b] (stdin_opened (opens (in_directory env ?a)) s))"
    using Some directory_ok [OF assms(1,2) d(1)] by (simp add: first_places_def)
  then show ?thesis
    using Some assms(3) by (simp add: boot_directories_def)
qed

lemma open_boot_tried:
  assumes "answers os env opens" "boot_fits path_max env"
  shows "\<exists>d. open_boot os path_max s = (mbind (gets infd) (\<lambda>fd.
      mseq (mwhen (fd < 0)
        (mseq (eputs (cstring ''mes: boot failed: no such file: ''))
        (mseq (eputs (boot_name env @ [0])) (mseq (eputs newline) (fail (Exit 1))))))
      (ret d))) (tried opens (boot_files env) (s\<lparr>infd := -1\<rparr>))"
proof -
  let ?s = "s\<lparr>infd := -1\<rparr>"
  let ?l = "(case env ''srcdest'' of Some p \<Rightarrow> p | None \<Rightarrow> []) @ chars ''mes''"
  let ?t1 = "tried opens (map (in_directory env) (butlast (boot_directories env))) ?s"
  let ?t2 = "tried opens [in_directory env ?l] ?t1" and ?t3 = "tried opens [boot_name env]"
  obtain d1 where d1: "first_places os path_max env ?s = Some (Inr d1, ?t1)"
    using first_places_ok [OF assms, of ?s] by auto
  have env: "env_var os name t = Some (Inr (env name), t)" for name t
    using assms(1) by (simp add: answers_def)
  have l: "?l \<in> set (boot_directories env)"
    by (simp add: boot_directories_def)
  have step: "mbind (env_var os ''srcdest'') (\<lambda>src. try_directory os path_max (boot_name env)
      ((case src of Some p \<Rightarrow> p | None \<Rightarrow> []) @ chars ''mes'')) t
    = Some (Inr ?l, stdin_opened (opens (in_directory env ?l)) t)" for t
    using directory_ok [OF assms l] by (simp add: env)
  have "\<exists>d2. unless_open (mbind (env_var os ''srcdest'') (\<lambda>src. try_directory os path_max (boot_name env)
      ((case src of Some p \<Rightarrow> p | None \<Rightarrow> []) @ chars ''mes''))) d1 ?t1 = Some (Inr d2, ?t2)"
    by (rule unless_open_ok) (rule step)
  then obtain d2 where d2: "unless_open (mbind (env_var os ''srcdest'') (\<lambda>src. try_directory os path_max (boot_name env)
      ((case src of Some p \<Rightarrow> p | None \<Rightarrow> []) @ chars ''mes''))) d1 ?t1 = Some (Inr d2, ?t2)" by blast
  have fits: "int (length (boot_name env)) < path_max"
    using assms(2) by (simp add: boot_fits_def boot_files_def)
  have last: "try_open_boot os path_max [] (boot_name env) t = Some (Inr (opens (boot_name env)),
      t\<lparr>ungetc_buf := (if opens (boot_name env) > 2 then (ungetc_buf t)(opens (boot_name env) := -1) else ungetc_buf t)\<rparr>)" for t
    using fits by (simp add: try_open_boot_def fits_def mes_open_ok [OF assms(1)])
  have step': "mbind (try_open_boot os path_max [] (boot_name env)) (\<lambda>fd. mseq (set_stdin fd) (ret d2)) t
    = Some (Inr d2, stdin_opened (opens (boot_name env)) t)" for t
    by (simp add: last set_stdin_def stdin_opened_def)
  have "\<exists>d3. unless_open (mbind (try_open_boot os path_max [] (boot_name env)) (\<lambda>fd.
      mseq (set_stdin fd) (ret d2))) d2 ?t2 = Some (Inr d3, ?t3 ?t2)"
    by (rule unless_open_ok) (rule step')
  then obtain d3 where d3: "unless_open (mbind (try_open_boot os path_max [] (boot_name env)) (\<lambda>fd.
      mseq (set_stdin fd) (ret d2))) d2 ?t2 = Some (Inr d3, ?t3 ?t2)" by blast
  have "boot_files env = (map (in_directory env) (butlast (boot_directories env)) @ [in_directory env ?l]) @ [boot_name env]"
    by (simp add: boot_files_def boot_directories_def in_directory_def split: option.splits)
  then have t: "tried opens (boot_files env) ?s = ?t3 ?t2"
    by (simp only: tried_append)
  define K where "K = (\<lambda>datadir :: byte list. mbind (gets infd) (\<lambda>fd.
      mseq (mwhen (fd < 0)
        (mseq (eputs (cstring ''mes: boot failed: no such file: ''))
        (mseq (eputs (boot_name env @ [0])) (mseq (eputs newline) (fail (Exit 1))))))
      (ret datadir)))"
  have "open_boot os path_max s = mbind (first_places os path_max env) (\<lambda>d.
      mbind (unless_open (mbind (env_var os ''srcdest'') (\<lambda>src. try_directory os path_max (boot_name env)
        ((case src of Some p \<Rightarrow> p | None \<Rightarrow> []) @ chars ''mes''))) d) (\<lambda>d.
      mbind (unless_open (mbind (try_open_boot os path_max [] (boot_name env)) (\<lambda>fd.
        mseq (set_stdin fd) (ret d))) d) K)) ?s"
    using fits
    by (simp add: open_boot_def set_stdin_def env Let_def fits_def first_places_def K_def boot_name_def [symmetric] cong: option.case_cong)
  also have "\<dots> = K d3 (tried opens (boot_files env) ?s)"
    unfolding t by (simp only: d1 d2 d3 mbind_Inr)
  finally show ?thesis
    unfolding K_def by blast
qed

text \<open>
  The program reads the first of the files that opens. If none does, it says so on the error
  port and exits with 1.
\<close>

lemma open_boot_search:
  assumes "answers os env opens" "boot_fits path_max env" "0 \<notin> set (boot_name env)"
  shows "case find (\<lambda>f. 0 \<le> opens f) (boot_files env) of
     Some f \<Rightarrow> \<exists>d t. open_boot os path_max s = Some (Inr d, t) \<and> infd t = opens f \<and> outlog t = outlog s
   | None \<Rightarrow> \<exists>t. open_boot os path_max s = Some (Inl (Exit 1), t)
       \<and> outlog t = rev (map (Pair (errfd s)) (chars ''mes: boot failed: no such file: '' @ boot_name env @ [10])) @ outlog s"
proof -
  let ?t = "tried opens (boot_files env) (s\<lparr>infd := -1\<rparr>)"
  obtain d where d: "open_boot os path_max s = (mbind (gets infd) (\<lambda>fd.
      mseq (mwhen (fd < 0)
        (mseq (eputs (cstring ''mes: boot failed: no such file: ''))
        (mseq (eputs (boot_name env @ [0])) (mseq (eputs newline) (fail (Exit 1))))))
      (ret d))) ?t"
    using open_boot_tried [OF assms(1,2)] by blast
  have f: "case find (\<lambda>f. 0 \<le> opens f) (boot_files env) of Some f \<Rightarrow> infd ?t = opens f | None \<Rightarrow> infd ?t < 0"
    by (rule tried_find) simp
  show ?thesis
  proof (cases "find (\<lambda>f. 0 \<le> opens f) (boot_files env)")
    case None
    then have "infd ?t < 0" using f by simp
    then have "open_boot os path_max s = Some (Inl (Exit 1),
      emit (errfd s) (chars ''mes: boot failed: no such file: '' @ boot_name env @ [10]) ?t)"
      using assms(3) by (simp add: d eputs_def newline_def takeWhile_text chars_def cstring_def)
    then show ?thesis
      using None by (simp add: emit_def)
  next
    case (Some f')
    then have "infd ?t = opens f'" "0 \<le> opens f'" using f by (simp, metis find_Some_iff)
    then show ?thesis
      using Some d by simp
  qed
qed

end
