(* ===== verification/Mes_Intern.thy ===== *)
theory Mes_Intern
  imports Mes_Table Mes_Strings
begin

text \<open>
  The symbol table \<^verbatim>\<open>g_symbols\<close>: \<^verbatim>\<open>cstring_to_symbol\<close> (string.c) gives the symbol that a name
  stands for in the table, and makes one when there is none. The keys of the table are strings.
\<close>

section \<open>Finding a string\<close>

definition string_keys :: "mst \<Rightarrow> addr list \<Rightarrow> bool" where
  "string_keys s hs \<longleftrightarrow> (\<forall>h \<in> set hs. \<exists>c cs. lookup s h = Some c \<and> text_at s TSTRING cs (ccar c))"

text \<open>The first handle of a bucket whose key has the text \<open>bs\<close>.\<close>

definition first_named :: "mst \<Rightarrow> byte list \<Rightarrow> addr list \<Rightarrow> addr option" where
  "first_named s bs hs = find (\<lambda>h. text_at s TSTRING bs (key_of s h)) hs"

lemma text_at_unique: "text_at s t bs p \<Longrightarrow> text_at s t cs p \<Longrightarrow> bs = cs"
  by (auto simp: text_at_def)

lemma assoc_string_ok:
  assumes "text_at s TSTRING bs x" "list_at s p hs" "string_keys s hs"
  shows "assoc_string x p s = Some (Inr (case first_named s bs hs of None \<Rightarrow> cell_f | Some h \<Rightarrow> h), s)"
  using assms(2,3)
proof (induction hs arbitrary: p)
  case Nil
  then show ?case by (simp add: assoc_string.simps first_named_def)
next
  case (Cons h hs)
  then obtain c where c: "p \<noteq> cell_nil" "heap s p = Some c" "ccar c = h" "list_at s (ccdr c) hs"
    by (auto simp: list_at_Cons)
  obtain d cs where d: "heap s h = Some d" "text_at s TSTRING cs (ccar d)"
    using Cons.prems(2) by (auto simp: string_keys_def)
  have k: "key_of s h = ccar d" "get_type (ccar d) s = Some (Inr TSTRING, s)"
    using d text_at_type [OF d(2)] by (simp_all add: key_of_def)
  have e: "string_equal_p x (ccar d) s = Some (Inr (if bs = cs then cell_t else cell_f), s)"
    by (rule string_equal_p_correct [OF assms(1) d(2)]) simp
  have n: "first_named s bs (h # hs) = (if bs = cs then Some h else first_named s bs hs)"
  proof (cases "bs = cs")
    case True
    then show ?thesis using d(2) k(1) by (simp add: first_named_def)
  next
    case False
    then have "\<not> text_at s TSTRING bs (ccar d)"
      using text_at_unique [OF d(2)] by blast
    with False show ?thesis using k(1) by (simp add: first_named_def)
  qed
  have "string_keys s hs"
    using Cons.prems(2) by (simp add: string_keys_def)
  with Cons.IH [OF c(4)] c d(1) k(2) e n show ?case
    by (subst assoc_string.simps) simp
qed

section \<open>The table of symbols\<close>

definition symbols_at :: "mst \<Rightarrow> addr list list \<Rightarrow> bool" where
  "symbols_at s hss \<longleftrightarrow> dict_at s (g_symbols s) hss \<and> 0 < length hss \<and> length hss < 2 ^ 31
     \<and> (\<forall>hs \<in> set hss. string_keys s hs)"

text \<open>A name that the table can hold, and the symbol that it stands for.\<close>

definition symbol_name :: "mst \<Rightarrow> byte list \<Rightarrow> bool" where
  "symbol_name s bs \<longleftrightarrow> ascii bs \<and> 0 \<notin> set bs \<and> int (length bs) \<le> MAX_STRING s \<and> int (length bs) < 2 ^ 61"

definition interned :: "mst \<Rightarrow> byte list \<Rightarrow> addr \<Rightarrow> bool" where
  "interned s bs a \<longleftrightarrow> a \<noteq> cell_f \<and> (\<exists>hss h. symbols_at s hss
     \<and> first_named s bs (bucket_of hss bs) = Some h \<and> value_of s h = a)"

lemma string_keys_kept:
  assumes "string_keys s hs" "\<And>h c. lookup s h = Some c \<Longrightarrow> h \<in> set hs \<Longrightarrow> lookup t h = Some c"
    and "\<And>cs p. text_at s TSTRING cs p \<Longrightarrow> text_at t TSTRING cs p"
  shows "string_keys t hs" "first_named t bs hs = first_named s bs hs"
    "h \<in> set hs \<Longrightarrow> value_of t h = value_of s h"
proof -
  have k: "\<exists>c cs. lookup s h = Some c \<and> lookup t h = Some c \<and> text_at s TSTRING cs (ccar c)
      \<and> text_at t TSTRING cs (ccar c)" if h: "h \<in> set hs" for h
  proof -
    obtain c cs where "lookup s h = Some c" "text_at s TSTRING cs (ccar c)"
      using assms(1) h unfolding string_keys_def by blast
    with assms(2) [OF _ h] assms(3) show ?thesis by blast
  qed
  then show "string_keys t hs"
    unfolding string_keys_def by blast
  show "value_of t h = value_of s h" if h: "h \<in> set hs"
    using k [OF h] by (auto simp: value_of_def)
  show "first_named t bs hs = first_named s bs hs"
    unfolding first_named_def
  proof (rule find_cong)
    fix h assume "h \<in> set hs"
    then obtain c cs where c: "heap s h = Some c" "heap t h = Some c" "text_at s TSTRING cs (ccar c)"
      "text_at t TSTRING cs (ccar c)"
      using k by (metis lookup_Some)
    have "text_at t TSTRING bs (ccar c) \<longleftrightarrow> bs = cs" "text_at s TSTRING bs (ccar c) \<longleftrightarrow> bs = cs"
      using text_at_unique [OF c(3)] text_at_unique [OF c(4)] c(3,4) by blast+
    then show "text_at t TSTRING bs (key_of t h) = text_at s TSTRING bs (key_of s h)"
      using c(1,2) by (simp add: key_of_def)
  qed simp
qed

lemma string_keys_extends:
  assumes "string_keys s hs" "extends s t"
  shows "string_keys t hs" "first_named t bs hs = first_named s bs hs"
    "h \<in> set hs \<Longrightarrow> value_of t h = value_of s h"
  using string_keys_kept [OF assms(1), of t] extends_lookup [OF assms(2)] text_at_extends [OF assms(2)]
  by metis+

lemma bucket_of_mem:
  assumes "symbols_at s hss" "ascii bs"
  shows "bucket_of hss bs \<in> set hss" "string_keys s (bucket_of hss bs)"
proof -
  show "bucket_of hss bs \<in> set hss"
  proof -
    have "nat (hash_value (bs @ [0]) (int (length hss))) < length hss"
      by (rule bucket_index [OF assms(2)]) (use assms(1) in \<open>simp_all add: symbols_at_def\<close>)
    then show ?thesis by (simp add: bucket_of_def)
  qed
  then show "string_keys s (bucket_of hss bs)"
    using assms(1) by (simp add: symbols_at_def)
qed

lemma symbols_at_extends:
  assumes "extends s t" "g_symbols t = g_symbols s" "symbols_at s hss"
  shows "symbols_at t hss"
  using assms(3) dict_at_extends [OF assms(1)] string_keys_extends(1) [OF _ assms(1)]
  unfolding symbols_at_def assms(2) by blast

lemma interned_extends:
  assumes "extends s t" "g_symbols t = g_symbols s" "ascii bs" "interned s bs a"
  shows "interned t bs a"
proof -
  obtain hss h where h: "a \<noteq> cell_f" "symbols_at s hss" "first_named s bs (bucket_of hss bs) = Some h" "value_of s h = a"
    using assms(4) by (auto simp: interned_def)
  have "h \<in> set (bucket_of hss bs)"
    using h(3) by (auto simp: first_named_def find_Some_iff)
  then show ?thesis
    using h symbols_at_extends [OF assms(1,2) h(2)]
      string_keys_extends(2,3) [OF bucket_of_mem(2) [OF h(2) assms(3)] assms(1)]
    unfolding interned_def by metis
qed

section \<open>Lookup\<close>

lemma hash_c_string: "text_at s TSTRING bs p \<Longrightarrow> n \<noteq> 0 \<Longrightarrow> hash_c p n s = Some (Inr (hash_value (bs @ [0]) n), s)"
  by (auto simp: hash_c_def text_at_def hash_cstring_value)

lemma hash_ref_c_string:
  assumes tb: "symbols_at s hss" and p: "text_at s TSTRING bs p" and bs: "ascii bs" and rdy: "ready 1 s"
  shows "\<exists>t. hash_ref_c (g_symbols s) p cell_f s = Some (Inr (case first_named s bs (bucket_of hss bs)
      of None \<Rightarrow> cell_f | Some h \<Rightarrow> value_of s h), t) \<and> grows 1 s t"
proof -
  have tb': "dict_at s (g_symbols s) hss" "0 < length hss" "length hss < 2 ^ 31"
    using tb by (auto simp: symbols_at_def)
  obtain qs bv w where q: "table_at s (g_symbols s) qs bv w" "length qs = length hss"
    "\<And>i. i < length hss \<Longrightarrow> bucket_at s (qs ! i) (hss ! i)"
    using tb'(1) by (auto simp: dict_at_def)
  have r: "arena_ok s" "room 1 s" "specials_ok s"
    using rdy by (simp_all add: ready_def)
  let ?n = "int (length hss)"
  define i where "i = nat (hash_value (bs @ [0]) ?n)"
  have i: "i < length hss"
    using bucket_index [OF bs tb'(2,3)] by (simp add: i_def)
  have hv: "to_unsigned (hash_value (bs @ [0]) ?n) = int i"
    using hash_value_range [OF bs, of ?n] hash_value_unsigned [OF bs, of ?n] tb'(2,3) by (simp add: i_def)
  obtain n t where n: "struct_ref_c (g_symbols s) 3 s = Some (Inr n, t)" "grows 1 s t"
    "get_cdr n t = Some (Inr (int (length qs)), t)"
    by (rule table_size [OF q(1) r(1,2)])
  note ext = growsD(1) [OF n(2)]
  have b: "bucket_of hss bs = hss ! i"
    by (simp add: bucket_of_def i_def)
  have bt: "bucket_at t (qs ! i) (hss ! i)"
    using extends_bucket_at(1) [OF ext q(3) [OF i]] .
  obtain c where c: "lookup t (qs ! i) = Some c" "hss ! i = [] \<Longrightarrow> ctype c = TSPECIAL"
    "hss ! i \<noteq> [] \<Longrightarrow> ctype c = TPAIR"
    by (rule bucket_type [OF bt]) blast
  have pt: "text_at t TSTRING bs p"
    by (rule text_at_extends [OF ext p])
  have sk: "string_keys s (hss ! i)"
    using bucket_of_mem(2) [OF tb bs] b by simp
  note kept = string_keys_extends [OF sk ext]
  have tt: "table_at t (g_symbols s) qs bv w"
    by (rule extends_table_at [OF ext q(1)])
  have run: "hash_ref_c (g_symbols s) p cell_f s = (if ctype c = TPAIR
      then mbind (assoc p (qs ! i)) (\<lambda>x. if x \<noteq> cell_f then get_cdr x else ret cell_f) t else Some (Inr cell_f, t))"
    using n c hash_c_string [OF pt, of ?n] tb'(2) hv table_buckets [OF tt] table_bucket [OF tt _ bt] i q(2)
    by (simp add: hash_ref_c_def)
  show ?thesis
  proof (cases "hss ! i = []")
    case True
    then show ?thesis
      using run c n(2) b by (simp add: first_named_def)
  next
    case False
    have ls: "list_at t (qs ! i) (hss ! i)"
      using bt False by (simp add: bucket_at_def alist_at_def)
    have as: "assoc p (qs ! i) t = Some (Inr (case first_named s bs (hss ! i) of None \<Rightarrow> cell_f | Some h \<Rightarrow> h), t)"
      using assoc_string_ok [OF pt ls kept(1)] kept(2) text_at_type [OF pt] by (simp add: assoc_def)
    show ?thesis
    proof (cases "first_named s bs (hss ! i)")
      case None
      then show ?thesis
        using run c False as n(2) b by simp
    next
      case (Some h)
      then have h: "h \<in> set (hss ! i)"
        by (auto simp: first_named_def find_Some_iff)
      then obtain d where d: "lookup t h = Some d" "ctype d = TPAIR"
        using bt False unfolding bucket_at_def by auto
      then have "h \<noteq> cell_f"
        using specials_ok_f [OF specials_ok_extends [OF ext r(3)], of d] by auto
      with run c False as n(2) b Some d kept(3) [OF h] show ?thesis
        by (simp add: value_of_def)
    qed
  qed
qed

section \<open>Interning\<close>

lemma make_string0_text:
  assumes "symbol_name s bs" "ready (string_cells bs) s"
  shows "\<exists>t. make_string0 (bs @ [0]) s = Some (Inr (g_free s), t) \<and> grows (string_cells bs) s t
    \<and> text_at t TSTRING bs (g_free s)"
proof -
  have "takeWhile (\<lambda>c. c \<noteq> 0) (bs @ [0]) = bs"
    using assms(1) by (subst takeWhile_append2) (auto simp: symbol_name_def)
  then show ?thesis
    using make_string_text [of s bs] assms by (simp add: make_string0_def strlen_def symbol_name_def ready_def)
qed

lemma grows_symbols [simp]: "grows n s t \<Longrightarrow> symbol_name t bs = symbol_name s bs"
  using growsD(7) [of n s t] by (simp add: symbol_name_def)

text \<open>A name in the table gives the symbol that is there.\<close>

lemma cstring_to_symbol_found:
  assumes i: "interned s bs a" and bs: "symbol_name s bs" and r: "ready (string_cells bs + 1) s"
  shows "\<exists>t. cstring_to_symbol (bs @ [0]) s = Some (Inr a, t) \<and> grows (string_cells bs + 1) s t"
proof -
  have ascii: "ascii bs" using bs by (simp add: symbol_name_def)
  obtain t where t: "make_string0 (bs @ [0]) s = Some (Inr (g_free s), t)" "grows (string_cells bs) s t"
    "text_at t TSTRING bs (g_free s)"
    using make_string0_text [OF bs ready_mono [OF r]] by auto
  obtain hss h where h: "a \<noteq> cell_f" "symbols_at t hss" "first_named t bs (bucket_of hss bs) = Some h" "value_of t h = a"
    using interned_extends [OF growsD(1) [OF t(2)] growsD(8) [OF t(2)] ascii i] by (auto simp: interned_def)
  obtain u where u: "hash_ref_c (g_symbols t) (g_free s) cell_f t = Some (Inr a, u)" "grows 1 t u"
    using hash_ref_c_string [OF h(2) t(3) ascii grows_ready [OF t(2) r]] h(3,4) by auto
  have "cstring_to_symbol (bs @ [0]) s = Some (Inr a, u)"
    using t(1) u(1) h(1) by (simp add: cstring_to_symbol_def string_to_symbol_def)
  then show ?thesis
    using grows_trans [OF t(2) u(2)] by auto
qed

text \<open>A new symbol is put in front of its bucket.\<close>

lemma make_symbol_ok:
  assumes tb: "symbols_at s hss" and p: "text_at s TSTRING bs p" and bs: "ascii bs" and r: "ready (5 + n) s" "0 \<le> n"
  shows "\<exists>t hss'. make_symbol p s = Some (Inr (g_free s), t) \<and> symbols_at t hss' \<and> interned t bs (g_free s)
    \<and> ready n t \<and> MAX_STRING t = MAX_STRING s \<and> g_symbols t = g_symbols s"
proof -
  obtain c where c: "heap s p = Some c" "ctype c = TSTRING"
    using p by (auto simp: text_at_def)
  let ?x = "g_free s"
  let ?u = "push_cell (mk_cell TSYMBOL (ccar c) (ccdr c)) s"
  have rs: "arena_ok s" "room 1 s" "specials_ok s" "room (5 + n) s"
    using r by (auto simp: ready_def room_def)
  have gu: "grows 1 s ?u"
    using grows_push_cell [OF rs(1)] .
  have ru: "ready (4 + n) ?u"
    by (rule grows_ready [OF gu]) (use r(1) in simp)
  have tu: "symbols_at ?u hss"
    by (rule symbols_at_extends [OF _ _ tb]) simp_all
  have pu: "text_at ?u TSTRING bs p"
    by (rule text_at_extends [OF _ p]) simp
  have du: "dict_at ?u (g_symbols s) hss" "0 < length hss" "length hss < 2 ^ 31"
    using tu by (simp_all add: symbols_at_def)
  obtain qs bv w where q: "table_at ?u (g_symbols s) qs bv w" "length qs = length hss"
    using du(1) by (auto simp: dict_at_def)
  define i where "i = nat (hash_value (bs @ [0]) (int (length hss)))"
  have i: "i < length hss"
    using bucket_index [OF bs du(2,3)] by (simp add: i_def)
  have hv: "to_unsigned (hash_value (bs @ [0]) (int (length hss))) = int i"
    using hash_value_range [OF bs, of "int (length hss)"] hash_value_unsigned [OF bs, of "int (length hss)"] du(2,3)
    by (simp add: i_def)
  obtain k v where k: "struct_ref_c (g_symbols s) 3 ?u = Some (Inr k, v)" "grows 1 ?u v"
    "get_cdr k v = Some (Inr (int (length qs)), v)"
    by (rule table_size [OF q(1)]) (use ru r(2) in \<open>auto simp: ready_def room_def\<close>)
  have rv: "ready (3 + n) v"
    by (rule grows_ready [OF k(2)]) (use ru in simp)
  have tv: "symbols_at v hss"
    by (rule symbols_at_extends [OF growsD(1,8) [OF k(2)] tu])
  have pv: "text_at v TSTRING bs p"
    by (rule text_at_extends [OF growsD(1) [OF k(2)] pu])
  have av: "arena_ok v" "room 3 v" "specials_ok v" "g_symbols v = g_symbols s" "MAX_STRING v = MAX_STRING s"
    using rv r(2) growsD(7,8) [OF k(2)] by (auto simp: ready_def room_def)
  have dv: "dict_at v (g_symbols s) hss"
    using tv av(4) by (simp add: symbols_at_def)
  obtain t h where t: "hash_set_x_c (g_symbols s) (int i) p ?x v = Some (Inr ?x, t)"
    "dict_at t (g_symbols s) (hss[i := h # hss ! i])" "key_of t h = p" "value_of t h = ?x"
    "\<forall>j < length hss. \<forall>g \<in> set (hss ! j). key_of t g = key_of v g \<and> value_of t g = value_of v g"
    "\<exists>a. keeps a v t" "arena_ok t" "g_free t \<le> g_free v + 3" "ARENA_SIZE t = ARENA_SIZE v" "g_cells t = g_cells v"
    "g_symbols t = g_symbols v" "MAX_STRING t = MAX_STRING v"
    by (rule hash_set_x_c_ok [OF dv i av(1,2,3)])
  obtain a where a: "keeps a v t" using t(6) by blast
  have tx: "text_at t TSTRING cs y" if y: "text_at v TSTRING cs y" for cs y
  proof -
    obtain d b where "lookup v y = Some d" "ctype d = TSTRING" "ccar d = int (length cs)"
      "lookup v (ccdr d) = Some b" "ctype b = TBYTES" "int (length cs) < ccar b" "bytes v (ccdr d) = cs @ [0]"
      using y by (auto simp: text_at_def)
    moreover from this have "lookup t y = Some d" "lookup t (ccdr d) = Some b" "bytes t (ccdr d) = bytes v (ccdr d)"
      using keeps_lookup [OF a, of y d] keeps_lookup [OF a, of "ccdr d" b] a by (auto simp: keeps_def)
    ultimately show ?thesis
      unfolding text_at_def by metis
  qed
  have handles: "\<exists>d cs. lookup t g = Some d \<and> text_at t TSTRING cs (ccar d)" if g: "g \<in> set hs" "hs \<in> set hss" for g hs
  proof -
    obtain j where j: "j < length hss" "hs = hss ! j"
      using g(2) by (auto simp: in_set_conv_nth)
    obtain d cs where d: "lookup v g = Some d" "text_at v TSTRING cs (ccar d)"
      using tv g unfolding symbols_at_def string_keys_def by blast
    moreover obtain q where "bucket_at v q hs"
      using dv j by (auto simp: dict_at_def)
    then have "ctype d = TPAIR"
      using d(1) g(1) unfolding bucket_at_def by (auto split: if_splits)
    ultimately show ?thesis
      using keeps_lookup [OF a d(1)] tx [OF d(2)] by auto
  qed
  have new: "\<exists>d. lookup t h = Some d \<and> ccar d = p"
  proof -
    obtain q where "bucket_at t q (h # hss ! i)"
      using t(2) i unfolding dict_at_def by fastforce
    then have "\<exists>d. lookup t h = Some d" unfolding bucket_at_def by auto
    then show ?thesis using t(3) by (auto simp: key_of_def)
  qed
  have sym: "symbols_at t (hss[i := h # hss ! i])"
    unfolding symbols_at_def
  proof (intro conjI ballI)
    show "dict_at t (g_symbols t) (hss[i := h # hss ! i])"
      using t(2,11) av(4) by simp
    show "0 < length (hss[i := h # hss ! i])" "length (hss[i := h # hss ! i]) < 2 ^ 31"
      using du(2,3) by simp_all
  next
    fix hs assume "hs \<in> set (hss[i := h # hss ! i])"
    then have "hs = h # hss ! i \<or> hs \<in> set hss"
      by (auto dest: set_update_subset_insert [THEN subsetD])
    then show "string_keys t hs"
      unfolding string_keys_def using handles new tx [OF pv] nth_mem [OF i] by fastforce
  qed
  have "first_named t bs (bucket_of (hss[i := h # hss ! i]) bs) = Some h"
    using i tx [OF pv] t(3) by (simp add: bucket_of_def i_def [symmetric] first_named_def)
  moreover have "?x \<noteq> cell_f"
    using specials_okD [OF rs(3), of cell_f] by (auto simp: cells)
  ultimately have int: "interned t bs ?x"
    unfolding interned_def using sym t(4) by blast
  have "make_symbol p s = Some (Inr ?x, t)"
    using c k(1,3) q(2) hash_c_string [OF pv, of "int (length hss)"] du(2) hv t(1) rs(1,2) av
    by (simp add: make_symbol_def hash_set_x_def make_pointer_cell_ok)
  moreover have "ready n t"
    using rv t(7-10) specials_ok_keeps [OF a av(3)] by (auto simp: ready_def room_def)
  ultimately show ?thesis
    using sym int t(11,12) av(4,5) by metis
qed

text \<open>Whether the name is in the table or not, it is afterwards, with the symbol that was given.\<close>

lemma cstring_to_symbol_interns:
  assumes tb: "symbols_at s hss" and bs: "symbol_name s bs" and r: "ready (string_cells bs + 6 + n) s" "0 \<le> n"
  shows "\<exists>a t. cstring_to_symbol (bs @ [0]) s = Some (Inr a, t) \<and> interned t bs a \<and> symbol_name t bs \<and> ready n t"
proof -
  have ascii: "ascii bs" using bs by (simp add: symbol_name_def)
  obtain t where t: "make_string0 (bs @ [0]) s = Some (Inr (g_free s), t)" "grows (string_cells bs) s t"
    "text_at t TSTRING bs (g_free s)"
    using make_string0_text [OF bs ready_mono [OF r(1)]] r(2) by auto
  have rt: "ready (6 + n) t"
    by (rule grows_ready [OF t(2)]) (use r(1) in \<open>simp add: algebra_simps\<close>)
  have st: "symbols_at t hss"
    by (rule symbols_at_extends [OF growsD(1,8) [OF t(2)] tb])
  define x where "x = (case first_named t bs (bucket_of hss bs) of None \<Rightarrow> cell_f | Some h \<Rightarrow> value_of t h)"
  obtain u where u: "hash_ref_c (g_symbols t) (g_free s) cell_f t = Some (Inr x, u)" "grows 1 t u"
    using hash_ref_c_string [OF st t(3) ascii ready_mono [OF rt]] r(2) by (auto simp: x_def)
  have ru: "ready (5 + n) u"
    by (rule grows_ready [OF u(2)]) (use rt in simp)
  have su: "symbols_at u hss"
    by (rule symbols_at_extends [OF growsD(1,8) [OF u(2)] st])
  have run: "cstring_to_symbol (bs @ [0]) s = (if x = cell_f then make_symbol (g_free s) u else Some (Inr x, u))"
    using t(1) u(1) by (simp add: cstring_to_symbol_def string_to_symbol_def)
  have nm: "symbol_name u bs"
    using bs grows_symbols [OF t(2)] grows_symbols [OF u(2)] by simp
  show ?thesis
  proof (cases "x = cell_f")
    case True
    obtain v where "make_symbol (g_free s) u = Some (Inr (g_free u), v)" "interned v bs (g_free u)" "ready n v"
      "MAX_STRING v = MAX_STRING u"
      using make_symbol_ok [OF su text_at_extends [OF growsD(1) [OF u(2)] t(3)] ascii ru r(2)] by blast
    then show ?thesis
      using True run nm by (auto simp: symbol_name_def)
  next
    case False
    then obtain h where "first_named t bs (bucket_of hss bs) = Some h" "value_of t h = x"
      by (auto simp: x_def split: option.splits)
    then have "interned t bs x"
      using False st unfolding interned_def by blast
    then have "interned u bs x"
      by (rule interned_extends [OF growsD(1,8) [OF u(2)] ascii])
    moreover have "ready n u"
      by (rule ready_mono [OF ru]) simp
    ultimately show ?thesis
      using False run nm by auto
  qed
qed

end
