(* ===== verification/Mes_Link.thy ===== *)
theory Mes_Link
  imports Mes_Core Mes_Boot Mes_Intern
begin

text \<open>
  The linker's part: which C function stands at the address that a primitive keeps. The table has
  a model for each function that \<^verbatim>\<open>init_builtin\<close> is given in src/src/builtins.c and
  src/src/mescc-builtins.c, and closes the loop between the evaluator and the primitives.
\<close>

section \<open>Functions and addresses\<close>

text \<open>
  What comes from outside: the system, the clock at the start, the time spent in collections, and
  \<open>junk\<close>, which a function that returns no value leaves where its caller looks for one.
\<close>

record host =
  os :: os
  start_sec :: int
  start_nsec :: int
  gc_time :: int
  junk :: addr

definition fun0 :: "addr mes \<Rightarrow> addr list \<Rightarrow> addr mes" where
  "fun0 p as = p"

definition fun3 :: "(addr \<Rightarrow> addr \<Rightarrow> addr \<Rightarrow> addr mes) \<Rightarrow> addr list \<Rightarrow> addr mes" where
  "fun3 f as = f (as ! 0) (as ! 1) (as ! 2)"

text \<open>Arguments that a function does not use are left out.\<close>

type_synonym c_table = "(string \<times> (addr list \<Rightarrow> addr mes)) list"

definition builtins_functions :: "host \<Rightarrow> world \<Rightarrow> c_table" where
  "builtins_functions h W =
    [(''make_builtin'', (\<lambda>as. make_builtin (as ! 0) (as ! 1) (as ! 2) (as ! 3))),
    (''builtin_name'', fun1 builtin_name), (''builtin_arity'', fun1 builtin_arity),
    (''builtin_p'', fun1 builtin_p),
    (''builtin_printer'', fun1 (\<lambda>x. mseq (builtin_printer (nested W) x) (ret (junk h))))]"

definition core_functions :: "world \<Rightarrow> c_table" where
  "core_functions W =
    [(''car'', fun1 car), (''cdr'', fun1 cdr), (''list'', fun1 list_proc), (''null_p'', fun1 null_p),
    (''eq_p'', fun2 eq_p), (''values'', fun1 values_proc), (''acons'', fun3 acons),
    (''length'', fun1 length_proc), (''error'', fun2 (error W)), (''append2'', fun2 append2),
    (''append_reverse'', fun2 append_reverse), (''reverse_x_'', fun2 reverse_x_c), (''assq'', fun2 assq),
    (''assoc'', fun2 assoc)]"

definition display_functions :: "world \<Rightarrow> c_table" where
  "display_functions W =
    [(''display_'', fun1 (display_c (nested W))), (''display_error_'', fun1 (display_error_c (nested W))),
    (''display_port_'', fun2 (display_port_c (nested W))), (''write_'', fun1 (write_c (nested W))),
    (''write_error_'', fun1 (write_error_c (nested W))), (''write_port_'', fun2 (write_port_c (nested W)))]"

definition eval_apply_functions :: "host \<Rightarrow> world \<Rightarrow> c_table" where
  "eval_apply_functions h W =
    [(''pairlis'', fun3 pairlis), (''set_car_x'', fun2 (set_car_x W)), (''set_cdr_x'', fun2 (set_cdr_x W)),
    (''add_formals'', fun2 add_formals), (''eval_apply'', fun0 (eval_apply W)),
    (''primitive_load'', fun1 (primitive_load (os h) W)), (''make_binding'', fun2 make_binding)]"

definition gc_functions :: "host \<Rightarrow> world \<Rightarrow> c_table" where
  "gc_functions h W =
    [(''gc_stats'', fun0 (gc_stats (gc_time h))), (''cons'', fun2 cons),
    (''gc_check'', fun0 (gc_check (realloc W) (memory W))), (''gc'', fun0 (gc (realloc W) (memory W)))]"

definition hash_functions :: "host \<Rightarrow> world \<Rightarrow> c_table" where
  "hash_functions h W =
    [(''hashq'', fun2 hashq), (''hash'', fun2 hash_proc), (''hashq_get_handle'', fun2 hashq_get_handle),
    (''hashq_ref_'', fun3 hashq_ref_c), (''hash_ref_'', fun3 hash_ref_c),
    (''hashq_create_handle_x'', fun3 hashq_create_handle_x),
    (''hash_create_handle_x'', fun3 hash_create_handle_x), (''hashq_set_x'', fun3 hashq_set_x),
    (''hash_set_x'', fun3 hash_set_x), (''hash_remove_x'', fun2 hash_remove_x),
    (''hash_table_printer'', fun1 (\<lambda>x. mseq (hash_table_printer (nested W) x) (ret (junk h)))),
    (''hash_table_p'', fun1 hash_table_p), (''make_hash_table'', fun1 make_hash_table),
    (''hash_buckets'', fun1 hash_buckets), (''hash_clear_x'', fun1 hash_clear_x)]"

definition lib_functions :: "c_table" where
  "lib_functions =
    [(''type_'', fun1 type_c), (''car_'', fun1 car_c), (''cdr_'', fun1 cdr_c), (''xassq'', fun2 xassq),
    (''memq'', fun2 memq), (''equal2_p'', fun2 equal2_p), (''last_pair'', fun1 last_pair),
    (''pair_p'', fun1 pair_p), (''char_to_integer'', fun1 char_to_integer),
    (''integer_to_char'', fun1 integer_to_char), (''make_bytevector'', fun1 make_bytevector),
    (''bytevector_u8_ref'', fun2 bytevector_u8_ref), (''bytevector_u8_set_x'', fun3 bytevector_u8_set_x)]"

definition math_functions :: "c_table" where
  "math_functions =
    [(''greater_p'', fun1 greater_p), (''less_p'', fun1 less_p), (''is_p'', fun1 is_p),
    (''minus'', fun1 minus), (''plus'', fun1 plus), (''divide'', fun1 divide), (''modulo'', fun2 modulo),
    (''multiply'', fun1 multiply), (''logand'', fun1 logand), (''logior'', fun1 logior),
    (''lognot'', fun1 lognot), (''logxor'', fun1 logxor), (''ash'', fun2 ash)]"

definition module_functions :: "c_table" where
  "module_functions =
    [(''initial_module'', fun0 initial_module), (''current_module'', fun0 current_module),
    (''set_current_module'', fun1 set_current_module)]"

definition posix_functions :: "host \<Rightarrow> c_table" where
  "posix_functions h =
    [(''abort_'', fun0 (abort_c (os h))), (''exit_'', fun1 exit_c), (''peek_byte'', fun0 peek_byte),
    (''read_byte'', fun0 read_byte), (''unread_byte'', fun1 unread_byte), (''peek_char'', fun0 peek_char),
    (''read_char'', fun1 read_char), (''unread_char'', fun1 unread_char), (''write_char'', fun1 write_char),
    (''write_byte'', fun1 write_byte), (''getenv_'', fun1 (getenv_c (os h))),
    (''setenv_'', fun2 (setenv_c (os h))), (''access_p'', fun2 (access_p (os h))),
    (''current_input_port'', fun0 current_input_port), (''open_'', fun2 (open_c (os h))),
    (''open_input_file'', fun1 (open_input_file (os h))), (''open_input_string'', fun1 open_input_string),
    (''set_current_input_port'', fun1 set_current_input_port),
    (''current_output_port'', fun0 current_output_port), (''current_error_port'', fun0 current_error_port),
    (''open_output_file'', fun1 (open_output_file (os h))),
    (''set_current_output_port'', fun1 set_current_output_port),
    (''set_current_error_port'', fun1 set_current_error_port), (''chmod_'', fun2 (chmod_c (os h))),
    (''isatty_p'', fun1 (isatty_p (os h))), (''primitive_fork'', fun0 (primitive_fork (os h))),
    (''primitive_exit'', fun1 primitive_exit), (''execl_'', fun2 (execl_c (os h))),
    (''execle_'', fun3 (execle_c (os h))), (''waitpid_'', fun2 (waitpid_c (os h))),
    (''current_time'', fun0 (current_time (os h))), (''gettimeofday_'', fun0 (gettimeofday_c (os h))),
    (''get_internal_run_time'', fun0 (get_internal_run_time (os h) (start_sec h) (start_nsec h))),
    (''getcwd_'', fun0 (getcwd_c (os h))), (''dup_'', fun1 (dup_c (os h))),
    (''dup2_'', fun2 (dup2_c (os h))), (''delete_file'', fun1 (delete_file (os h))),
    (''uname_'', fun0 (uname_c (os h)))]"

definition reader_functions :: "c_table" where
  "reader_functions =
    [(''read_input_file_env_'', (\<lambda>as. read_input_file_env_c (as ! 0))),
    (''read_input_file_env'', (\<lambda>as. read_input_file_env)), (''read_env'', (\<lambda>as. read_env)),
    (''reader_read_sexp'', (\<lambda>as. reader_read_sexp (as ! 0))),
    (''reader_read_character'', fun0 reader_read_character),
    (''reader_read_binary'', fun0 reader_read_binary), (''reader_read_octal'', fun0 reader_read_octal),
    (''reader_read_hex'', fun0 reader_read_hex), (''reader_read_string'', fun0 reader_read_string)]"

definition stack_functions :: "host \<Rightarrow> world \<Rightarrow> c_table" where
  "stack_functions h W =
    [(''frame_printer'', fun1 (\<lambda>x. mseq (frame_printer (nested W) x) (ret (junk h)))),
    (''make_stack'', fun1 make_stack), (''stack_length'', fun1 stack_length),
    (''stack_ref'', fun2 stack_ref)]"

definition string_functions :: "c_table" where
  "string_functions =
    [(''string_equal_p'', fun2 string_equal_p), (''symbol_to_string'', fun1 symbol_to_string),
    (''symbol_to_keyword'', fun1 symbol_to_keyword), (''keyword_to_string'', fun1 keyword_to_string),
    (''string_to_symbol'', fun1 string_to_symbol), (''make_symbol'', fun1 make_symbol),
    (''string_to_list'', fun1 string_to_list), (''list_to_string'', fun1 list_to_string),
    (''read_string'', fun1 read_string), (''string_append'', fun1 string_append),
    (''string_length'', fun1 string_length), (''string_ref'', fun2 string_ref),
    (''string_set_x'', fun3 string_set_x)]"

definition struct_functions :: "c_table" where
  "struct_functions =
    [(''make_struct'', fun3 make_struct), (''struct_length'', fun1 struct_length),
    (''struct_ref'', fun2 struct_ref), (''struct_set_x'', fun3 struct_set_x)]"

definition variable_functions :: "world \<Rightarrow> c_table" where
  "variable_functions W =
    [(''make_variable'', fun1 make_variable), (''variable_p'', fun1 variable_p),
    (''variable_ref'', fun1 variable_ref), (''variable_set_x'', fun2 variable_set_x),
    (''variable_printer'', fun1 (variable_printer (nested W)))]"

definition vector_functions :: "c_table" where
  "vector_functions =
    [(''make_vector'', fun1 make_vector), (''vector_length'', fun1 vector_length),
    (''vector_ref'', fun2 vector_ref), (''vector_entry'', fun1 vector_entry),
    (''vector_set_x'', fun3 vector_set_x), (''list_to_vector'', fun1 list_to_vector),
    (''vector_to_list'', fun1 vector_to_list)]"

definition mescc_posix_functions :: "host \<Rightarrow> c_table" where
  "mescc_posix_functions h =
    [(''getpid_'', fun0 (getpid_c (os h))), (''environ_'', fun1 (environ_c (os h))),
    (''opendir_'', fun1 (opendir_c (os h))), (''closedir_'', fun1 (closedir_c (os h))),
    (''readdir_'', fun1 (readdir_c (os h))), (''pipe_'', fun0 (pipe_c (os h))),
    (''close_port'', fun1 (\<lambda>x. mseq (close_port (os h) x) (ret (junk h)))),
    (''seek'', fun3 (seek (os h))), (''chdir_'', fun1 (chdir_c (os h))), (''stat_'', fun1 (stat_c (os h))),
    (''lstat_'', fun1 (lstat_c (os h))), (''rename_file'', fun2 (rename_file (os h))),
    (''mkdir_'', fun1 (mkdir_c (os h))), (''rmdir_'', fun1 (rmdir_c (os h))),
    (''link_'', fun2 (link_c (os h))), (''symlink_'', fun2 (symlink_c (os h))),
    (''umask_'', fun1 (umask_c (os h))), (''utime_'', fun3 (utime_c (os h))),
    (''sleep_'', fun1 (sleep_c (os h)))]"

definition c_functions :: "host \<Rightarrow> world \<Rightarrow> c_table" where
  "c_functions h W =
     builtins_functions h W @ core_functions W @ display_functions W @ eval_apply_functions h W @
     gc_functions h W @ hash_functions h W @ lib_functions @ math_functions @ module_functions @
     posix_functions h @ reader_functions @ stack_functions h W @ string_functions @
     struct_functions @ variable_functions W @ vector_functions @ mescc_posix_functions h"

lemmas function_defs =
  builtins_functions_def core_functions_def display_functions_def eval_apply_functions_def
  gc_functions_def hash_functions_def lib_functions_def math_functions_def module_functions_def
  posix_functions_def reader_functions_def stack_functions_def string_functions_def
  struct_functions_def variable_functions_def vector_functions_def mescc_posix_functions_def

definition function_names :: "string list" where
  "function_names = map (\<lambda>(name, arity, function). function) (builtin_specs @ reader_specs @ mescc_specs)"

definition address :: "string \<Rightarrow> int" where
  "address f = int (length (takeWhile (\<lambda>g. g \<noteq> f) function_names))"

definition call_c :: "host \<Rightarrow> world \<Rightarrow> int \<Rightarrow> addr list \<Rightarrow> addr mes" where
  "call_c h W a args =
     (if 0 \<le> a \<and> a < int (length function_names)
      then (case map_of (c_functions h W) (function_names ! nat a) of Some f \<Rightarrow> f args | None \<Rightarrow> fail Segv)
      else fail Segv)"

text \<open>The interpreter with its primitives, \<open>n\<close> nested calls of the evaluator deep.\<close>

definition mes_world :: "host \<Rightarrow> (addr \<Rightarrow> int \<Rightarrow> addr) \<Rightarrow> (addr \<Rightarrow> cell) \<Rightarrow> nat \<Rightarrow> world" where
  "mes_world h rea mem n = evaluator (call_c h) rea mem n"

definition mes :: "host \<Rightarrow> int \<Rightarrow> (addr \<Rightarrow> int \<Rightarrow> addr) \<Rightarrow> (addr \<Rightarrow> cell) \<Rightarrow> nat \<Rightarrow> byte list \<Rightarrow> byte list list \<Rightarrow> int mes" where
  "mes h path_max rea mem n version argv = main (os h) path_max address (mes_world h rea mem n) version argv"

section \<open>Every primitive has its function\<close>

lemma c_functions_names: "map fst (c_functions h W) = function_names"
  by (simp add: c_functions_def function_defs function_names_def builtin_specs_def reader_specs_def mescc_specs_def)

lemma takeWhile_index: "f \<in> set fs \<Longrightarrow> length (takeWhile (\<lambda>g. g \<noteq> f) fs) < length fs \<and> fs ! length (takeWhile (\<lambda>g. g \<noteq> f) fs) = f"
  by (induction fs) auto

lemma call_c_address:
  assumes "map_of (c_functions h W) f = Some p"
  shows "call_c h W (address f) = p"
proof -
  have "f \<in> set function_names"
    using assms c_functions_names by (metis domI dom_map_of_conv_image_fst list.set_map)
  then show ?thesis
    using takeWhile_index [of f function_names] assms by (auto simp: call_c_def address_def fun_eq_iff)
qed

lemma map_of_append_case: "map_of (xs @ ys) k = (case map_of xs k of None \<Rightarrow> map_of ys k | Some v \<Rightarrow> Some v)"
  by (simp add: map_add_def split: option.split)

lemma c_functions_prims:
  "map_of (c_functions h W) ''cons'' = Some (fun2 cons)" "map_of (c_functions h W) ''car'' = Some (fun1 car)"
  "map_of (c_functions h W) ''cdr'' = Some (fun1 cdr)" "map_of (c_functions h W) ''list'' = Some (fun1 list_proc)"
  "map_of (c_functions h W) ''null_p'' = Some (fun1 null_p)" "map_of (c_functions h W) ''pair_p'' = Some (fun1 pair_p)"
  "map_of (c_functions h W) ''eq_p'' = Some (fun2 eq_p)" "map_of (c_functions h W) ''equal2_p'' = Some (fun2 equal2_p)"
  "map_of (c_functions h W) ''length'' = Some (fun1 length_proc)" "map_of (c_functions h W) ''append2'' = Some (fun2 append2)"
  "map_of (c_functions h W) ''plus'' = Some (fun1 plus)" "map_of (c_functions h W) ''multiply'' = Some (fun1 multiply)"
  "map_of (c_functions h W) ''minus'' = Some (fun1 minus)" "map_of (c_functions h W) ''less_p'' = Some (fun1 less_p)"
  "map_of (c_functions h W) ''greater_p'' = Some (fun1 greater_p)"
  apply (simp_all add: c_functions_def map_of_append_case del: map_of_append)
  apply (simp_all add: builtins_functions_def core_functions_def)
  apply (simp_all add: display_functions_def eval_apply_functions_def gc_functions_def hash_functions_def)
  apply (simp_all add: lib_functions_def math_functions_def)
  done

lemma call_c_implements: "implements (call_c h W (address (prim_function p))) p"
  by (cases p) (simp_all add: prim_function_def call_c_address c_functions_prims cons_implements car_implements
    cdr_implements list_implements null_implements pair_implements eq_implements equal_implements length_implements
    append_implements plus_implements times_implements minus_implements less_implements greater_implements)

section \<open>The interface of the primitives\<close>

text \<open>
  The evaluator asks of what it calls that the functions of the primitives are there and do what
  they should; then the objects that \<^verbatim>\<open>make_builtin\<close> makes represent the primitives.
\<close>

locale primitives =
  fixes call :: "int \<Rightarrow> addr list \<Rightarrow> addr mes" and place :: "string \<Rightarrow> int"
  assumes linked: "implements (call (place (prim_function p))) p"
begin

lemma builtin_value:
  assumes "call_function W = call" "builtin_at s b (prim_arity p) (place (prim_function p))"
  shows "val_at W s (Prim p) b"
  using assms(2) linked [of p] by (auto intro!: val_at.prim simp: assms(1))

end

interpretation linked: primitives "call_c h W" address
  by unfold_locales (rule call_c_implements)

section \<open>Making a primitive\<close>

text \<open>The cells that \<^verbatim>\<open>make_builtin\<close> takes.\<close>

definition printer_name :: "byte list" where
  "printer_name = chars ''builtin-printer''"

definition builtin_cells :: int where
  "builtin_cells = 4 + (string_cells printer_name + 1) + 13"

lemma make_builtin_ok:
  assumes r: "ready builtin_cells s" and pr: "interned s printer_name pr" "symbol_name s printer_name" "symbol_cell s pr"
    and objs: "lookup s ty = Some c1" "lookup s name = Some c2" "lookup s arity = Some (mk_cell TNUMBER k1 n)"
      "lookup s fn = Some (mk_cell TNUMBER k2 f)" "symbol_cell s cell_symbol_builtin"
  obtains b t where "make_builtin ty name arity fn s = Some (Inr b, t)" and "grows builtin_cells s t" and "builtin_at t b n f"
proof -
  let ?t1 = "push_cell (mk_cell TPAIR fn cell_nil) s"
  let ?t2 = "push_cell (mk_cell TPAIR arity (g_free s)) ?t1"
  let ?t3 = "push_cell (mk_cell TPAIR name (g_free ?t1)) ?t2"
  let ?t4 = "push_cell (mk_cell TPAIR cell_symbol_builtin (g_free ?t2)) ?t3"
  have sc: "0 \<le> string_cells printer_name"
    by (simp add: string_cells_def bytes_cells_def to_size_def pos_imp_zdiv_nonneg_iff)
  have rooms: "arena_ok s" "room 1 s" "room 1 ?t1" "room 1 ?t2" "room 1 ?t3"
    using r sc by (simp_all add: ready_def room_def builtin_cells_def)
  have g4: "grows (1 + 1 + 1 + 1) s ?t4"
    by (rule grows_trans [OF grows_trans [OF grows_trans [of 1 s ?t1 1 ?t2], of 1 ?t3], of 1 ?t4]) (use rooms in simp_all)
  have e4: "extends s ?t4" by (rule growsD(1) [OF g4])
  have r4: "ready (string_cells printer_name + 1 + 13) ?t4"
    by (rule grows_ready [OF g4]) (use r in \<open>simp add: builtin_cells_def algebra_simps\<close>)
  have "ascii printer_name" using pr(2) by (simp add: symbol_name_def)
  then have "interned ?t4 printer_name pr"
    using interned_extends [OF e4 _ _ pr(1)] by simp
  moreover have "symbol_name ?t4 printer_name"
    using pr(2) by (simp add: symbol_name_def)
  ultimately obtain t5 where t5: "cstring_to_symbol (printer_name @ [0]) ?t4 = Some (Inr pr, t5)"
    "grows (string_cells printer_name + 1) ?t4 t5"
    using cstring_to_symbol_found ready_mono [OF r4] by (metis le_add_same_cancel1 zero_le_numeral)
  have r5: "ready 13 t5"
    by (rule grows_ready [OF t5(2) r4])
  have e5: "extends s t5" by (rule extends_trans [OF e4 growsD(1) [OF t5(2)]])
  obtain c3 where c3: "lookup s cell_symbol_builtin = Some c3" "ctype c3 = TSYMBOL"
    using objs(5) by (auto simp: symbol_cell_def)
  obtain c4 where c4: "lookup s pr = Some c4"
    using pr(3) by (auto simp: symbol_cell_def)
  have nil: "cell_nil < g_free s"
    using specials_ok_nil r by (simp add: ready_def)
  have "list_at ?t4 (g_free ?t3) [cell_symbol_builtin, name, arity, fn]"
    using nil rooms by (simp add: list_at_Cons)
  then have l5: "list_at t5 (g_free ?t3) [cell_symbol_builtin, name, arity, fn]"
    by (rule list_at_extends [OF growsD(1) [OF t5(2)]])
  let ?cs = "[c1, c4, c3, c2, mk_cell TNUMBER k1 n, mk_cell TNUMBER k2 f]"
  have cs: "list_all2 (\<lambda>x c. lookup t5 x = Some c) (ty # pr # [cell_symbol_builtin, name, arity, fn]) ?cs"
    using objs(1-4) c3(1) c4 extends_lookup [OF e5] by (simp del: lookup_Some)
  obtain t where t: "make_struct ty (g_free ?t3) pr t5 = Some (Inr (g_free t5), t)" "grows (1 + int (length ?cs) + int (length ?cs)) t5 t"
    "slots_at TSTRUCT t (g_free t5) (g_free t5 + 1) (map2 entry_cell (ty # pr # [cell_symbol_builtin, name, arity, fn]) ?cs)"
    by (rule make_struct_ok [OF _ l5 cs]) (use r5 in \<open>simp_all add: ready_def room_def\<close>)
  have "make_builtin ty name arity fn s = Some (Inr (g_free t5), t)"
    using rooms t5(1) t(1) by (simp add: make_builtin_def printer_name_def chars_def cstring_def)
  moreover have "grows (1 + 1 + 1 + 1 + (string_cells printer_name + 1) + 13) s t"
    using grows_trans [OF grows_trans [OF g4 t5(2)] t(2)] by simp
  then have "grows builtin_cells s t" by (simp add: builtin_cells_def)
  moreover have "builtin_at t (g_free t5) n f"
    unfolding builtin_at_def
    using symbol_cell_extends [OF extends_trans [OF e5 growsD(1) [OF t(2)]] objs(5)] c3(2)
    by (intro conjI exI [of _ "g_free t5 + 1"] exI [of _ "map2 entry_cell (ty # pr # [cell_symbol_builtin, name, arity, fn]) ?cs"] t(3))
      (simp_all add: entry_cell_def immediate_def)
  ultimately show ?thesis using that by blast
qed

text \<open>So the primitive objects of a running interpreter are primitives to its evaluator.\<close>

lemma make_builtin_value:
  assumes "ready builtin_cells s" "interned s printer_name pr" "symbol_name s printer_name" "symbol_cell s pr"
    and "lookup s ty = Some c1" "lookup s name = Some c2" "lookup s arity = Some (mk_cell TNUMBER k1 (prim_arity p))"
    and "lookup s fn = Some (mk_cell TNUMBER k2 (address (prim_function p)))" "symbol_cell s cell_symbol_builtin"
  shows "\<exists>b t. make_builtin ty name arity fn s = Some (Inr b, t) \<and> grows builtin_cells s t
     \<and> val_at (mes_world h rea mem (Suc n)) t (Prim p) b"
proof -
  obtain b t where "make_builtin ty name arity fn s = Some (Inr b, t)" "grows builtin_cells s t"
    "builtin_at t b (prim_arity p) (address (prim_function p))"
    by (rule make_builtin_ok [OF assms])
  then show ?thesis
    using linked.builtin_value [of "mes_world h rea mem (Suc n)" h "mes_world h rea mem n"]
    by (auto simp: mes_world_def)
qed

end
