(* ===== verification/Mes_Callcc.thy ===== *)
theory Mes_Callcc
  imports Mes_Env
begin

text \<open>
  First class continuations of eval-apply.c: what \<^verbatim>\<open>call/cc\<close> captures and what applying a
  continuation brings back. A captured stack is a vector of its entries, and a vector keeps a
  number or a character by value, so these come back as copies; anything else comes back itself.
\<close>

section \<open>A stack in a vector\<close>

definition saved_at :: "mst \<Rightarrow> addr \<Rightarrow> addr list \<Rightarrow> bool" where
  "saved_at s v xs \<longleftrightarrow> (\<exists>w es. slots_at TVECTOR s v w es
     \<and> list_all2 (\<lambda>e x. \<exists>c. lookup s x = Some c \<and> e = entry_cell x c) es xs)"

lemma saved_at_extends: "extends s t \<Longrightarrow> saved_at s v xs \<Longrightarrow> saved_at t v xs"
  unfolding saved_at_def
  by (blast intro: slots_at_extends list_all2_mono dest: extends_lookup)

text \<open>Two addresses of the same value: the same object, or equal numbers or characters.\<close>

definition same_value :: "mst \<Rightarrow> addr \<Rightarrow> mst \<Rightarrow> addr \<Rightarrow> bool" where
  "same_value s x t y \<longleftrightarrow> (\<exists>c d. lookup s x = Some c \<and> lookup t y = Some d
     \<and> ctype d = ctype c \<and> (if immediate (ctype c) then ccdr d = ccdr c else y = x))"

lemma vector_set_grows:
  assumes g: "grows n s t" and "slots_at TVECTOR t x v es" "i < length es"
    and "lookup t y = Some c" "room 1 t" "g_free s \<le> v"
  shows "\<exists>u. vector_set_x_c x (int i) y t = Some (Inr cell_unspecified, u) \<and> grows (n + 1) s u
     \<and> slots_at TVECTOR u x v (es[i := entry_cell y c])"
proof -
  obtain r u where u: "vector_entry y t = Some (Inr r, u)" "grows 1 t u" "heap u r = Some (entry_cell y c)"
    by (rule vector_entry_grows [OF assms(4) growsD(2) [OF g] assms(5)])
  have sl: "slots_at TVECTOR u x v es"
    by (rule slots_at_extends [OF growsD(1) [OF u(2)] assms(2)])
  let ?u = "u\<lparr>heap := (heap u)(v + int i \<mapsto> entry_cell y c)\<rparr>"
  have slot: "heap u (v + int i) = Some (es ! i)"
    by (rule slots_at_slot [OF sl assms(3)])
  have "vector_set_x_c x (int i) y t = Some (Inr cell_unspecified, ?u)"
    using vec.set_in_bounds [of t x "int (length es)" v "int i" y] assms(2,3) u(1,3) slot
    by (simp add: slots_at_def)
  moreover have "grows (n + 1) s ?u"
    by (rule grows_set_heap [OF grows_trans [OF g u(2)]]) (use slot assms(6) in simp_all)
  moreover have "slots_at TVECTOR ?u x v (es[i := entry_cell y c])"
    by (rule slots_at_update [OF sl assms(3) refl])
  ultimately show ?thesis by blast
qed

text \<open>The state of the stack: its bounds, and entries that are allocated cells.\<close>

definition stack_live :: "mst \<Rightarrow> bool" where
  "stack_live s \<longleftrightarrow> 0 \<le> g_stack s \<and> g_stack s \<le> STACK_SIZE s
     \<and> (\<forall>i. g_stack s \<le> i \<and> i < STACK_SIZE s \<longrightarrow> (\<exists>c. lookup s (stack s i) = Some c))"

definition depth :: "mst \<Rightarrow> int" where
  "depth s = STACK_SIZE s - g_stack s"

definition stack_entries :: "mst \<Rightarrow> addr list" where
  "stack_entries s = map (stack s) [g_stack s..STACK_SIZE s - 1]"

lemma stack_entries_length: "stack_live s \<Longrightarrow> int (length (stack_entries s)) = depth s"
  by (simp add: stack_entries_def stack_live_def depth_def)

lemma stack_entries_nth:
  "i < length (stack_entries s) \<Longrightarrow> stack_entries s ! i = stack s (g_stack s + int i)"
  by (simp add: stack_entries_def)

lemma save_loop_ok:
  assumes g: "grows n s t" and live: "stack_live s"
    and v: "slots_at TVECTOR t v w es" "int (length es) = depth s" "g_free s \<le> w"
    and room: "room (n + depth s) s"
  shows "\<exists>u. mfor [g_stack s..STACK_SIZE s - 1] (\<lambda>i. mbind (stack_get i) (\<lambda>x.
        mbind (vector_set_x_c v (i - g_stack s) x) (\<lambda>_. ret ()))) t = Some (Inr (), u)
     \<and> grows (n + depth s) s u \<and> saved_at u v (stack_entries s)"
proof -
  define P where "P k u \<longleftrightarrow> grows (n + int k) s u \<and> (\<exists>ds. slots_at TVECTOR u v w ds
     \<and> length ds = length es \<and> (\<forall>i < k. \<exists>c. lookup s (stack s (g_stack s + int i)) = Some c
       \<and> ds ! i = entry_cell (stack s (g_stack s + int i)) c))" for k u
  let ?body = "\<lambda>i. mbind (stack_get i) (\<lambda>x. mbind (vector_set_x_c v (i - g_stack s) x) (\<lambda>_. ret ()))"
  have len: "length [g_stack s..STACK_SIZE s - 1] = length es"
    using v(2) by (simp add: depth_def)
  have "P 0 t" using g v(1) by (auto simp: P_def)
  moreover have "\<exists>u'. ?body ([g_stack s..STACK_SIZE s - 1] ! k) u = Some (Inr (), u') \<and> P (Suc k) u'"
    if k: "k < length [g_stack s..STACK_SIZE s - 1]" and P: "P k u" for k u
  proof -
    let ?i = "g_stack s + int k"
    have i: "[g_stack s..STACK_SIZE s - 1] ! k = ?i" "?i < STACK_SIZE s" "k < length es"
      using k len by auto
    obtain ds where gu: "grows (n + int k) s u" and ds: "slots_at TVECTOR u v w ds" "length ds = length es"
      "\<And>i. i < k \<Longrightarrow> \<exists>c. lookup s (stack s (g_stack s + int i)) = Some c
         \<and> ds ! i = entry_cell (stack s (g_stack s + int i)) c"
      using P by (auto simp: P_def)
    obtain c where c: "lookup s (stack s ?i) = Some c"
      using live i(2) unfolding stack_live_def by (metis le_add_same_cancel1 of_nat_0_le_iff)
    have cu: "lookup u (stack s ?i) = Some c"
      by (rule extends_lookup [OF growsD(1) [OF gu] c])
    have "room 1 u"
      by (rule grows_room [OF gu room]) (use i(3) v(2) in simp)
    then obtain u' where u': "vector_set_x_c v (int k) (stack s ?i) u = Some (Inr cell_unspecified, u')"
      "grows (n + int k + 1) s u'" "slots_at TVECTOR u' v w (ds[k := entry_cell (stack s ?i) c])"
      using vector_set_grows [OF gu ds(1) _ cu _ v(3), of k] i(3) ds(2) by auto
    have ok: "stack_ok u ?i" "stack u ?i = stack s ?i"
      using growsD(17,19) [OF gu] i(2) live by (auto simp: stack_ok_def stack_live_def)
    have "?body ([g_stack s..STACK_SIZE s - 1] ! k) u = Some (Inr (), u')"
      using ok u'(1) by (simp add: i(1))
    moreover have "P (Suc k) u'"
      unfolding P_def
    proof (intro conjI exI [of _ "ds[k := entry_cell (stack s ?i) c]"] allI impI)
      fix j assume "j < Suc k"
      then show "\<exists>c'. lookup s (stack s (g_stack s + int j)) = Some c'
          \<and> ds[k := entry_cell (stack s ?i) c] ! j = entry_cell (stack s (g_stack s + int j)) c'"
        using ds(2) ds(3) [of j] c i(3) by (cases "j = k") (auto simp del: lookup_Some)
    qed (use u'(2,3) ds(2) in \<open>simp_all add: algebra_simps\<close>)
    ultimately show ?thesis by blast
  qed
  ultimately obtain u where u: "mfor [g_stack s..STACK_SIZE s - 1] ?body t = Some (Inr (), u)"
    "P (length [g_stack s..STACK_SIZE s - 1]) u"
    using mfor_invariant [of P t "[g_stack s..STACK_SIZE s - 1]" ?body] by blast
  obtain ds where ds: "slots_at TVECTOR u v w ds" "length ds = length es"
    "\<And>i. i < length es \<Longrightarrow> \<exists>c. lookup s (stack s (g_stack s + int i)) = Some c
       \<and> ds ! i = entry_cell (stack s (g_stack s + int i)) c" and gu: "grows (n + depth s) s u"
    using u(2) unfolding P_def len v(2) by blast
  have "list_all2 (\<lambda>e x. \<exists>c. lookup u x = Some c \<and> e = entry_cell x c) ds (stack_entries s)"
    using ds(2,3) len extends_lookup [OF growsD(1) [OF gu]]
    by (auto simp: list_all2_conv_all_nth stack_entries_def simp del: lookup_Some) blast
  then show ?thesis
    using u(1) gu ds(1) unfolding saved_at_def by blast
qed

text \<open>\<^verbatim>\<open>save_stack\<close> makes a vector of the entries of the stack and changes nothing else.\<close>

lemma save_stack_ok:
  assumes "stack_live s" "arena_ok s" "specials_ok s" "room (1 + 3 * depth s) s"
  obtains v t where "save_stack s = Some (Inr v, t)" "grows (1 + 3 * depth s) s t"
    and "saved_at t v (stack_entries s)"
proof -
  obtain k where k: "depth s = int k"
    using assms(1) by (metis stack_entries_length)
  obtain c where c: "lookup s cell_unspecified = Some c"
    using specials_okD [OF assms(3), of cell_unspecified] by (auto simp: cells)
  have r: "room (1 + int k + int k) s"
    using assms(4) by (simp add: k room_def)
  obtain t where t: "make_vector_c (int k) cell_unspecified s = Some (Inr (g_free s), t)"
    "grows (1 + int k + int k) s t"
    "slots_at TVECTOR t (g_free s) (g_free s + 1) (replicate k (entry_cell cell_unspecified c))"
    by (rule make_vector_c_ok [OF assms(2) r c])
  have "room (1 + int k + int k + depth s) s"
    using assms(4) by (simp add: k room_def)
  then obtain u where u: "mfor [g_stack s..STACK_SIZE s - 1] (\<lambda>i. mbind (stack_get i) (\<lambda>x.
        mbind (vector_set_x_c (g_free s) (i - g_stack s) x) (\<lambda>_. ret ()))) t = Some (Inr (), u)"
    "grows (1 + int k + int k + depth s) s u" "saved_at u (g_free s) (stack_entries s)"
    using save_loop_ok [OF t(2) assms(1) t(3)] by (auto simp: k)
  have "save_stack s = Some (Inr (g_free s), u)"
    using t(1) u(1) k by (simp add: save_stack_def depth_def)
  then show ?thesis
    using that u(2,3) by (simp add: k algebra_simps)
qed

section \<open>Back on the stack\<close>

lemma same_value_extends:
  assumes "same_value s x t y" "extends t u"
  shows "same_value s x u y"
proof -
  obtain c d where "lookup s x = Some c" "lookup t y = Some d" "ctype d = ctype c"
    "if immediate (ctype c) then ccdr d = ccdr c else y = x"
    using assms(1) by (auto simp only: same_value_def)
  moreover have "lookup u y = Some d"
    by (rule extends_lookup [OF assms(2)]) fact
  ultimately show ?thesis
    unfolding same_value_def by blast
qed

lemma same_value_trans:
  assumes "same_value s x t y" "same_value t y u z"
  shows "same_value s x u z"
proof -
  obtain c d where c: "lookup s x = Some c" "lookup t y = Some d" "ctype d = ctype c"
    "if immediate (ctype c) then ccdr d = ccdr c else y = x"
    using assms(1) by (auto simp only: same_value_def)
  obtain d' e where e: "lookup t y = Some d'" "lookup u z = Some e" "ctype e = ctype d'"
    "if immediate (ctype d') then ccdr e = ccdr d' else z = y"
    using assms(2) by (auto simp only: same_value_def)
  have "d' = d"
    using c(2) e(1) by simp
  then have "ctype e = ctype c" "if immediate (ctype c) then ccdr e = ccdr c else z = x"
    using c(3,4) e(3,4) by (simp_all split: if_splits)
  then show ?thesis
    unfolding same_value_def using c(1) e(2) by blast
qed

lemma same_value_here:
  assumes "lookup s x = Some c" "extends s t"
  shows "same_value s x t x"
  unfolding same_value_def using assms(1) extends_lookup [OF assms(2,1)] by force

lemma saved_at_live:
  assumes "saved_at s v xs" "i < length xs"
  obtains c where "lookup s (xs ! i) = Some c"
proof -
  obtain es where "list_all2 (\<lambda>e x. \<exists>c. lookup s x = Some c \<and> e = entry_cell x c) es xs"
    using assms(1) by (auto simp only: saved_at_def)
  from list_all2_nthD2 [OF this assms(2)] that show ?thesis
    by blast
qed

text \<open>An element of a saved stack: itself, or a fresh cell of the same value.\<close>

lemma saved_ref:
  assumes "saved_at s v xs" "i < length xs" "arena_ok s" "room 1 s"
  obtains y t where "vector_ref_c v (int i) s = Some (Inr y, t)" "grows 1 s t"
    and "same_value s (xs ! i) t y"
proof -
  obtain w es where es: "slots_at TVECTOR s v w es"
    "list_all2 (\<lambda>e x. \<exists>c. lookup s x = Some c \<and> e = entry_cell x c) es xs"
    using assms(1) by (auto simp only: saved_at_def)
  have i: "i < length es"
    using list_all2_lengthD [OF es(2)] assms(2) by simp
  obtain c where c: "lookup s (xs ! i) = Some c" "entry_for (es ! i) (xs ! i) c"
    using list_all2_nthD [OF es(2) i] by (auto simp: entry_for_def)
  show ?thesis
  proof (cases "immediate (ctype c)")
    case True
    let ?t = "push_cell (mk_cell (ctype c) 0 (ccdr c)) s"
    have "vector_ref_c v (int i) s = Some (Inr (g_free s), ?t)"
      by (rule vec.ref_immediate [OF es(1) i c(2) True assms(3,4)])
    moreover have "grows 1 s ?t"
      by (rule grows_push_cell [OF assms(3)])
    moreover have "same_value s (xs ! i) ?t (g_free s)"
      using c(1) True by (auto simp: same_value_def)
    ultimately show ?thesis by (rule that)
  next
    case False
    have "vector_ref_c v (int i) s = Some (Inr (xs ! i), s)"
      by (rule vec.ref_object [OF es(1) i c(2,1) False])
    moreover have "same_value s (xs ! i) s (xs ! i)"
      using c(1) by (auto simp: same_value_def)
    ultimately show ?thesis
      using that assms(3) by simp
  qed
qed

lemma restore_loop_ok:
  assumes saved: "saved_at s v xs" and ok: "arena_ok s" and room: "room (int (length xs)) s"
    and b: "0 \<le> b" "b + int (length xs) \<le> STACK_SIZE s"
  shows "\<exists>t. mfor [0..int (length xs) - 1] (\<lambda>i. mbind (vector_ref_c v i) (\<lambda>x. stack_put (b + i) x)) s
       = Some (Inr (), t)
     \<and> extends s t \<and> arena_ok t \<and> STACK_SIZE t = STACK_SIZE s \<and> g_free t \<le> g_free s + int (length xs)
     \<and> (\<forall>i < length xs. same_value s (xs ! i) t (stack t (b + int i)))"
proof -
  let ?n = "int (length xs)"
  let ?body = "\<lambda>i. mbind (vector_ref_c v i) (\<lambda>x. stack_put (b + i) x)"
  define P where "P k t \<longleftrightarrow> extends s t \<and> arena_ok t \<and> STACK_SIZE t = STACK_SIZE s
     \<and> g_free t \<le> g_free s + int k \<and> ARENA_SIZE t = ARENA_SIZE s \<and> g_cells t = g_cells s
     \<and> (\<forall>i < k. same_value s (xs ! i) t (stack t (b + int i)))" for k t
  have "P 0 s"
    using ok by (simp add: P_def)
  moreover have "\<exists>u. ?body ([0..?n - 1] ! k) t = Some (Inr (), u) \<and> P (Suc k) u"
    if k: "k < length [0..?n - 1]" and P: "P k t" for k t
  proof -
    have i: "[0..?n - 1] ! k = int k" "k < length xs"
      using k by simp_all
    have t: "extends s t" "arena_ok t" "saved_at t v xs" "room 1 t"
      using P room i(2) saved_at_extends [OF _ saved] by (auto simp: P_def room_def)
    obtain y u where u: "vector_ref_c v (int k) t = Some (Inr y, u)" "grows 1 t u"
      "same_value t (xs ! k) u y"
      by (rule saved_ref [OF t(3) i(2) t(2,4)])
    note gu = growsD [OF u(2)]
    have put: "stack_ok u (b + int k)"
      using gu(19) P i(2) b by (auto simp: stack_ok_def P_def)
    let ?u = "u\<lparr>stack := (stack u)(b + int k := y)\<rparr>"
    have lk: "extends u ?u"
      by (simp add: extends_def)
    have su: "extends s ?u"
      using extends_trans [OF extends_trans [OF t(1) gu(1)] lk] .
    have "same_value s (xs ! j) ?u (stack ?u (b + int j))" if j: "j < Suc k" for j
    proof (cases "j = k")
      case True
      obtain c where c: "lookup s (xs ! k) = Some c"
        by (rule saved_at_live [OF saved i(2)])
      have "same_value s (xs ! k) t (xs ! k)"
        by (rule same_value_here [OF c t(1)])
      then have "same_value s (xs ! k) u y"
        using u(3) by (rule same_value_trans)
      with True show ?thesis
        using same_value_extends [OF _ lk] by simp
    next
      case False
      then have "same_value s (xs ! j) t (stack t (b + int j))"
        using P j by (simp add: P_def)
      then show ?thesis
        using same_value_extends [OF _ extends_trans [OF gu(1) lk]] gu(17) False by simp
    qed
    moreover have "arena_ok ?u"
      using gu(2) by (simp add: arena_ok_def)
    ultimately have "P (Suc k) ?u"
      using P su gu(4-6,19) by (simp add: P_def)
    moreover have "?body ([0..?n - 1] ! k) t = Some (Inr (), ?u)"
      using u(1) put by (simp add: i(1))
    ultimately show ?thesis by blast
  qed
  ultimately obtain t where "mfor [0..?n - 1] ?body s = Some (Inr (), t)" "P (length [0..?n - 1]) t"
    using mfor_invariant [of P s "[0..?n - 1]" ?body] by blast
  then show ?thesis
    by (auto simp: P_def)
qed

text \<open>
  Applying a continuation: whatever is on the stack by then, the stack is as deep as it was
  captured, and every entry is the one captured.
\<close>

lemma restore_stack_ok:
  assumes saved: "saved_at s v xs" and "xs \<noteq> []" and ok: "arena_ok s" and room: "room (int (length xs)) s"
    and fits: "int (length xs) \<le> STACK_SIZE s"
  shows "\<exists>t. restore_stack v s = Some (Inr (), t) \<and> g_stack t = STACK_SIZE s - int (length xs)
     \<and> STACK_SIZE t = STACK_SIZE s \<and> extends s t \<and> arena_ok t
     \<and> (\<forall>i < length xs. same_value s (xs ! i) t (stack t (g_stack t + int i)))"
proof -
  let ?n = "int (length xs)"
  obtain w es where es: "slots_at TVECTOR s v w es"
    "list_all2 (\<lambda>e x. \<exists>c. lookup s x = Some c \<and> e = entry_cell x c) es xs"
    using saved by (auto simp only: saved_at_def)
  have car: "get_car v s = Some (Inr ?n, s)"
    using slots_at_header [OF es(1)] list_all2_lengthD [OF es(2)] by simp
  obtain t where t: "mfor [0..?n - 1] (\<lambda>i. mbind (vector_ref_c v i) (\<lambda>x. stack_put (STACK_SIZE s - ?n + i) x)) s
       = Some (Inr (), t)" "extends s t" "arena_ok t" "STACK_SIZE t = STACK_SIZE s"
    "\<forall>i < length xs. same_value s (xs ! i) t (stack t (STACK_SIZE s - ?n + int i))"
    using restore_loop_ok [OF saved ok room, of "STACK_SIZE s - ?n"] fits by auto
  let ?t = "t\<lparr>g_stack := STACK_SIZE s - ?n\<rparr>"
  have e: "extends t ?t"
    by (simp add: extends_def)
  have "restore_stack v s = Some (Inr (), ?t)"
    using car t(1) assms(2) by (simp add: restore_stack_def)
  moreover have "arena_ok ?t"
    using t(3) by (simp add: arena_ok_def)
  ultimately show ?thesis
    using t(4,5) extends_trans [OF t(2) e] same_value_extends [OF _ e]
    by (intro exI [of _ ?t]) simp
qed

text \<open>
  The round trip of \<^verbatim>\<open>call/cc\<close>: the stack captured in \<open>s\<close> is the stack again after the
  continuation is applied in any later state \<open>u\<close> whose heap still has the cells of then.
\<close>

lemma continuation_roundtrip:
  assumes "save_stack s = Some (Inr v, t)" "stack_live s" "arena_ok s" "specials_ok s"
    and "room (1 + 3 * depth s) s" "g_stack s < STACK_SIZE s"
    and "extends t u" "arena_ok u" "room (depth s) u" "STACK_SIZE u = STACK_SIZE s"
  shows "\<exists>w. restore_stack v u = Some (Inr (), w) \<and> g_stack w = g_stack s
     \<and> (\<forall>i. g_stack s \<le> i \<and> i < STACK_SIZE s \<longrightarrow> same_value s (stack s i) w (stack w i))"
proof -
  let ?xs = "stack_entries s"
  have saved: "saved_at t v ?xs" "extends s t"
    using save_stack_ok [OF assms(2-5)] growsD(1) assms(1) by fastforce+
  have len: "int (length ?xs) = depth s" "?xs \<noteq> []"
    using stack_entries_length [OF assms(2)] assms(6) by (auto simp: depth_def)
  obtain w where w: "restore_stack v u = Some (Inr (), w)" "g_stack w = STACK_SIZE u - int (length ?xs)"
    "\<forall>i < length ?xs. same_value u (?xs ! i) w (stack w (g_stack w + int i))"
    using restore_stack_ok [OF saved_at_extends [OF assms(7) saved(1)] len(2) assms(8)] assms(2,9,10) len(1)
    by (auto simp: depth_def stack_live_def)
  have gw: "g_stack w = g_stack s"
    using w(2) len(1) assms(10) by (simp add: depth_def)
  have "same_value s (stack s i) w (stack w i)" if i: "g_stack s \<le> i" "i < STACK_SIZE s" for i
  proof -
    obtain j where j: "i = g_stack s + int j" "j < length ?xs"
      using i len(1) by (metis add.commute add_less_cancel_left depth_def diff_add_cancel of_nat_less_iff zle_iff_zadd)
    obtain c where c: "lookup s (stack s i) = Some c"
      using assms(2) i by (auto simp: stack_live_def)
    have "same_value s (stack s i) u (stack s i)"
      by (rule same_value_here [OF c extends_trans [OF saved(2) assms(7)]])
    moreover have "same_value u (stack s i) w (stack w i)"
      using w(3) j by (simp add: gw stack_entries_nth)
    ultimately show ?thesis by (rule same_value_trans)
  qed
  then show ?thesis
    using w(1) gw by blast
qed

end
