(* ===== verification/Mes_Sample.thy ===== *)
theory Mes_Sample
  imports Mes_Heap
begin

text \<open>
  Concrete states. \<open>sample free cs bs\<close> is an interpreter just after \<^verbatim>\<open>init_symbols\<close> has laid
  out the preallocated cells, with the cells \<open>cs\<close> and the payloads \<open>bs\<close> besides, an arena of
  1000 cells and a jam of 1000 more. All symbols share an empty name at 1000109, whose three
  cells end at 1000111. The examples start from it.
\<close>

definition sample_cell :: "(addr \<times> cell) list \<Rightarrow> addr \<Rightarrow> cell" where
  "sample_cell cs x = (case map_of cs x of Some c \<Rightarrow> c
     | None \<Rightarrow> if 1000002 \<le> x \<and> x \<le> 1000040 then mk_cell TSPECIAL 0 1000109
       else if 1000041 \<le> x \<and> x \<le> 1000108 then mk_cell TSYMBOL 0 1000109
       else if x = 1000109 then mk_cell TBYTES 1 0
       else mk_cell TCHAR 0 0)"

definition sample :: "addr \<Rightarrow> (addr \<times> cell) list \<Rightarrow> (addr \<times> byte list) list \<Rightarrow> mst" where
  "sample free cs bs = \<lparr>
     heap = (\<lambda>x. if 1000000 \<le> x \<and> x < 1002001 then Some (sample_cell cs x) else None),
     bytes = (\<lambda>x. case map_of bs x of Some b \<Rightarrow> b | None \<Rightarrow> [0]),
     stack = (\<lambda>_. 1000002), g_stack = 20,
     g_free = free, g_cells = 1000001, g_news = 0, g_arena = 1000000,
     cell_arena = 1000000, cell_zero = 1000001,
     g_symbols = 1000002, g_symbol = 1000109, g_symbol_max = 1000109, g_macros = 1000002,
     g_ports = 1000002, hash_table_type = 1000002, variable_type = 1000002,
     R0 = 1000002, R1 = 1000002, R2 = 1000002, R3 = 1000002, M0 = 1000002, M1 = 1000002,
     g_continuations = 0, ARENA_SIZE = 1000, MAX_ARENA_SIZE = 10000, STACK_SIZE = 20,
     JAM_SIZE = 1000, GC_SAFETY = 20, MAX_STRING = 524288, gc_count = 0, g_depth = 0,
     infd = 0, outfd = 1, errfd = 2, infile = (\<lambda>_. []), ungetc_buf = (\<lambda>_. -1), outlog = []\<rparr>"

lemma sample_simps [simp]:
  "g_free (sample free cs bs) = free" "g_cells (sample free cs bs) = 1000001"
  "ARENA_SIZE (sample free cs bs) = 1000" "MAX_STRING (sample free cs bs) = 524288"
  "STACK_SIZE (sample free cs bs) = 20" "g_stack (sample free cs bs) = 20"
  "g_symbols (sample free cs bs) = 1000002"
  by (simp_all add: sample_def)

lemma sample_heap:
  "heap (sample free cs bs) x = (if 1000000 \<le> x \<and> x < 1002001 then Some (sample_cell cs x) else None)"
  by (simp add: sample_def)

lemma sample_bytes:
  "bytes (sample free cs bs) x = (case map_of bs x of Some b \<Rightarrow> b | None \<Rightarrow> [0])"
  by (simp add: sample_def)

lemma sample_lookup:
  "lookup (sample free cs bs) x = (if x < free \<and> 1000000 \<le> x \<and> x < 1002001 then Some (sample_cell cs x) else None)"
  by (simp add: lookup_def sample_heap)

lemma sample_arena_ok: "1000001 \<le> free \<Longrightarrow> arena_ok (sample free cs bs)"
  by (simp add: arena_ok_def sample_heap)

lemma sample_room: "free + n \<le> 1001001 \<Longrightarrow> room n (sample free cs bs)"
  by (simp add: room_def)

lemma sample_specials:
  assumes "1000041 \<le> free" "\<forall>x \<in> fst ` set cs. 1000040 < x"
  shows "specials_ok (sample free cs bs)"
  unfolding specials_ok_def
proof (intro allI impI)
  fix x assume x: "cell_nil \<le> x \<and> x \<le> cell_vm_return"
  then have "map_of cs x = None"
    using assms(2) by (force simp: map_of_eq_None_iff cells)
  with x assms(1) show "\<exists>c. lookup (sample free cs bs) x = Some c \<and> ctype c = TSPECIAL"
    by (simp add: lookup_def sample_heap sample_cell_def cells)
qed

end
