(* ===== verification/Mes_Examples.thy ===== *)
theory Mes_Examples
  imports Mes_Link Mes_Callcc Mes_Sample
begin

text \<open>
  The concrete states at which the properties of the root theory are applied.
\<close>

section \<open>Data\<close>

definition two_lists :: mst where
  "two_lists = sample 1000130
     [(1000120, mk_cell TPAIR 1000121 1000002), (1000121, mk_cell TNUMBER 0 7),
      (1000122, mk_cell TPAIR 1000123 1000002), (1000123, mk_cell TNUMBER 0 7)] []"

section \<open>A hash table\<close>

definition one_bucket :: mst where
  "one_bucket = sample 1000150
     [(1000120, mk_cell TSTRUCT 5 1000121), (1000121, mk_cell TREF 1000002 0),
      (1000122, mk_cell TREF 1000002 0), (1000123, mk_cell TREF 1000002 0),
      (1000124, mk_cell TNUMBER 0 1), (1000125, mk_cell TREF 1000126 0),
      (1000126, mk_cell TVECTOR 1 1000127), (1000127, mk_cell TREF cell_unspecified 0),
      (1000041, mk_cell TSYMBOL 1 1000130), (1000042, mk_cell TSYMBOL 1 1000140)]
     [(1000130, [97, 0]), (1000140, [98, 0])]"

lemma one_bucket_dict:
  "hash_dict one_bucket 1000120 [1000041 \<mapsto> [97], 1000042 \<mapsto> [98]] Map.empty"
proof -
  have "slots_at TSTRUCT one_bucket 1000120 1000121
     [mk_cell TREF 1000002 0, mk_cell TREF 1000002 0, mk_cell TREF 1000002 0, mk_cell TNUMBER 0 1, mk_cell TREF 1000126 0]"
    by (simp add: one_bucket_def slots_at_def sample_heap sample_cell_def All_less_Suc2 flip: numeral_2_eq_2 del: lookup_Some add: sample_lookup)
  moreover have "slots_at TVECTOR one_bucket 1000126 1000127 [mk_cell TREF cell_unspecified 0]"
    by (simp add: one_bucket_def slots_at_def sample_lookup sample_cell_def del: lookup_Some)
  ultimately have "table_at one_bucket 1000120 [cell_unspecified] 1000126 1000127"
    unfolding table_at_def
    by (intro exI [of _ 1000121] exI [of _ "[mk_cell TREF 1000002 0, mk_cell TREF 1000002 0,
      mk_cell TREF 1000002 0, mk_cell TNUMBER 0 1, mk_cell TREF 1000126 0]"]) simp
  moreover have "bucket_at one_bucket cell_unspecified []"
    by (simp add: bucket_at_def one_bucket_def sample_lookup sample_cell_def cells del: lookup_Some)
  ultimately have "dict_at one_bucket 1000120 [[]]"
    unfolding dict_at_def by (intro exI [of _ "[cell_unspecified]"]) auto
  then show ?thesis
    unfolding hash_dict_def
    by (intro exI [of _ "[[]]"] conjI)
      (auto simp: symbol_at_def one_bucket_def sample_lookup sample_cell_def sample_bytes ascii_def dict_of_def bucket_of_def
         hash_value_def smod_int_alt_def to_int_def simp del: lookup_Some)
qed

section \<open>A state to collect\<close>

definition one_pair :: mst where
  "one_pair = sample 1000120 [(1000115, mk_cell TPAIR 1000041 1000002)] [] \<lparr>R1 := 1000115\<rparr>"

definition one_pair_objects :: "addr set" where
  "one_pair_objects = insert 1000115 {1000002..1000109}"

lemma one_pair_simps [simp]:
  "heap (frame_pushed one_pair) x = (if 1000000 \<le> x \<and> x < 1002001
     then Some (sample_cell [(1000115, mk_cell TPAIR 1000041 1000002)] x) else None)"
  "g_free (frame_pushed one_pair) = 1000120" "g_cells (frame_pushed one_pair) = 1000001"
  "g_symbol_max (frame_pushed one_pair) = 1000109" "cell_arena (frame_pushed one_pair) = 1000000"
  "g_stack (frame_pushed one_pair) = 15" "STACK_SIZE (frame_pushed one_pair) = 20"
  by (simp_all add: frame_pushed_def one_pair_def sample_heap) (simp_all add: sample_def)

lemma one_pair_cell:
  assumes "x \<in> one_pair_objects"
  shows "size_ok (sample_cell [(1000115, mk_cell TPAIR 1000041 1000002)] x)"
    "nslots (sample_cell [(1000115, mk_cell TPAIR 1000041 1000002)] x) = 1"
    "osize (sample_cell [(1000115, mk_cell TPAIR 1000041 1000002)] x) \<le> 3"
    "\<not> is_vec (ctype (sample_cell [(1000115, mk_cell TPAIR 1000041 1000002)] x))"
    "ctype (sample_cell [(1000115, mk_cell TPAIR 1000041 1000002)] x) \<noteq> TBROKEN_HEART"
  using assms
  by (auto simp: sample_cell_def one_pair_objects_def size_ok_def nslots_def osize_def is_vec_def
      bytes_cells_def to_size_def take_bit_int_eq_self)

lemma one_pair_reach: "reach (frame_pushed one_pair) \<subseteq> one_pair_objects"
proof
  fix x assume "x \<in> reach (frame_pushed one_pair)"
  then show "x \<in> one_pair_objects"
  proof induction
    case (root x)
    have "stack (frame_pushed one_pair) i \<in> one_pair_objects" for i
      by (simp add: frame_pushed_def one_pair_def sample_def one_pair_objects_def cells)
    with root show ?case
      by (auto simp: gc_roots_def one_pair_objects_def cells)
        (simp_all add: frame_pushed_def one_pair_def sample_def)
  next
    case (car x j)
    then have "x \<in> one_pair_objects" "1000000 \<le> x" "x < 1002001" by (auto simp: one_pair_objects_def)
    moreover from this have "j = 0" using car one_pair_cell(2) by simp
    ultimately show ?case
      using car by (auto simp: slot_of_def one_pair_cell(4) sample_cell_def one_pair_objects_def
          pointer_car_def split: if_splits)
  next
    case (cdr x j)
    then have "x \<in> one_pair_objects" "1000000 \<le> x" "x < 1002001" by (auto simp: one_pair_objects_def)
    moreover from this have "j = 0" using cdr one_pair_cell(2) by simp
    ultimately show ?case
      using cdr by (auto simp: slot_of_def one_pair_cell(4) sample_cell_def one_pair_objects_def
          scanned_cdr_def shape_def is_vec_def split: if_splits)
  qed
qed

lemma one_pair_collectable: "collectable (frame_pushed one_pair)"
proof -
  let ?R = "reach (frame_pushed one_pair)"
  have fin: "finite ?R"
    by (rule finite_subset [OF one_pair_reach]) (simp add: one_pair_objects_def)
  have range: "1000002 \<le> x \<and> x < 1000120" if "x \<in> ?R" for x
    using that one_pair_reach by (auto simp: one_pair_objects_def)
  have "card ?R \<le> card one_pair_objects"
    by (rule card_mono [OF _ one_pair_reach]) (simp add: one_pair_objects_def)
  also have "\<dots> = 109"
    by (simp add: one_pair_objects_def card_insert_if)
  finally have card: "card ?R \<le> 109" .
  have "live (frame_pushed one_pair) \<le> of_nat (card ?R) * 3"
    unfolding live_def
  proof (rule sum_bounded_above)
    fix x assume x: "x \<in> ?R"
    then show "osize (the (heap (frame_pushed one_pair) x)) \<le> 3"
      using one_pair_cell(3) [of x] one_pair_reach range [OF x] by auto
  qed
  with card have live: "live (frame_pushed one_pair) \<le> 327" by simp
  have ok: "object_ok (heap (frame_pushed one_pair)) 1000120 ?R x" if x: "x \<in> ?R" for x
    using range [OF x] one_pair_cell [of x] one_pair_reach x by (auto simp: object_ok_def)
  have "osize (the (heap (frame_pushed one_pair) x)) = 1" if "cell_nil \<le> x" "x < 1000109" for x
    using that by (simp add: cells sample_cell_def osize_def is_vec_def)
  then show ?thesis
    unfolding collectable_def using fin ok live by (simp add: cells)
qed

lemma one_pair_register: "1000115 \<in> reach (frame_pushed one_pair)"
proof -
  have "stack (frame_pushed one_pair) 17 = 1000115"
    by (simp add: frame_pushed_def one_pair_def sample_def)
  then have "1000115 \<in> gc_roots (frame_pushed one_pair)"
    unfolding gc_roots_def by (intro UnI2 image_eqI [of _ _ 17]) simp_all
  then show ?thesis
    by (rule reach.root)
qed

section \<open>A desk of objects\<close>

text \<open>Numbers, lists, strings, vectors, a variable, a module, forms and a closure, side by side.\<close>

definition desk :: mst where
  "desk = sample 1000300
     [(1000120, mk_cell TNUMBER 0 7), (1000121, mk_cell TNUMBER 0 9), (1000122, mk_cell TNUMBER 0 2),
      (1000130, mk_cell TPAIR 1000120 1000131), (1000131, mk_cell TPAIR 1000121 1000002),
      (1000132, mk_cell TPAIR 1000122 1000002),
      (1000140, mk_cell TSTRING 2 1000141), (1000141, mk_cell TBYTES 3 0),
      (1000145, mk_cell TSTRING 1 1000146), (1000146, mk_cell TBYTES 2 0),
      (1000150, mk_cell TPAIR 1000140 1000151), (1000151, mk_cell TPAIR 1000145 1000002),
      (1000155, mk_cell TCHAR 0 97), (1000156, mk_cell TPAIR 1000155 1000002),
      (1000160, mk_cell TBYTES 2 0),
      (1000165, mk_cell TVECTOR 1 1000166), (1000166, mk_cell TREF 1000004 0),
      (1000170, mk_cell TSTRUCT 4 1000171), (1000171, mk_cell TREF 1000002 0),
      (1000172, mk_cell TREF 1000002 0), (1000173, mk_cell TREF 1000002 0), (1000174, mk_cell TREF 1000002 0),
      (1000180, mk_cell TSTRUCT 5 1000181), (1000181, mk_cell TREF 1000002 0),
      (1000182, mk_cell TREF 1000002 0), (1000183, mk_cell TREF 1000002 0),
      (1000184, mk_cell TREF 1000200 0), (1000185, mk_cell TREF 1000002 0),
      (1000200, mk_cell TSTRUCT 5 1000201), (1000201, mk_cell TREF 1000002 0),
      (1000202, mk_cell TREF 1000002 0), (1000203, mk_cell TREF 1000002 0),
      (1000204, mk_cell TNUMBER 0 1), (1000205, mk_cell TREF 1000206 0),
      (1000206, mk_cell TVECTOR 1 1000207), (1000207, mk_cell TREF 1000210 0),
      (1000210, mk_cell TPAIR 1000211 1000002), (1000211, mk_cell TPAIR 1000106 1000170),
      (1000106, mk_cell TSYMBOL 1 1000215),
      (1000220, mk_cell TPAIR cell_symbol_quote 1000221), (1000221, mk_cell TPAIR 1000130 1000002),
      (1000225, mk_cell TPAIR cell_t 1000226), (1000226, mk_cell TPAIR 1000120 1000227),
      (1000227, mk_cell TPAIR 1000121 1000002),
      (1000230, mk_cell TPAIR 1000106 1000002), (1000231, mk_cell TCLOSURE 0 1000232),
      (1000232, mk_cell TPAIR 1000233 1000234), (1000233, mk_cell TPAIR 1000002 1000235),
      (1000234, mk_cell TPAIR 1000230 1000225), (1000235, mk_cell TPAIR 1000002 1000240),
      (1000236, mk_cell TPAIR 1000231 1000132),
      (1000240, mk_cell TPAIR 1000241 1000002), (1000241, mk_cell TPAIR 1000108 1000120),
      (1000245, mk_cell TPAIR 1000120 1000245), (1000246, mk_cell TPAIR 1000120 1000121),
      (1000247, mk_cell TNUMBER 0 1),
      (1000250, mk_cell TPAIR 1000251 1000240), (1000251, mk_cell TPAIR cell_closure 1000240),
      (1000252, mk_cell TPAIR 1000254 1000253), (1000253, mk_cell TPAIR 1000122 1000002),
      (1000254, mk_cell TPAIR cell_symbol_lambda 1000255), (1000255, mk_cell TPAIR 1000230 1000256),
      (1000256, mk_cell TPAIR 1000257 1000002), (1000257, mk_cell TPAIR cell_symbol_if 1000258),
      (1000258, mk_cell TPAIR 1000106 1000259), (1000259, mk_cell TPAIR 1000273 1000260),
      (1000260, mk_cell TPAIR cell_f 1000002), (1000262, mk_cell TSTRUCT 6 1000263),
      (1000263, mk_cell TREF 1000002 0), (1000264, mk_cell TREF 1000002 0), (1000265, mk_cell TREF cell_symbol_builtin 0),
      (1000266, mk_cell TREF 1000140 0), (1000267, mk_cell TNUMBER 0 (-1)), (1000268, mk_cell TNUMBER 0 68),
      (1000270, mk_cell TPAIR 1000251 1000271), (1000271, mk_cell TPAIR 1000272 1000240),
      (1000272, mk_cell TPAIR 1000105 1000262), (1000273, mk_cell TPAIR 1000105 1000274),
      (1000274, mk_cell TPAIR 1000106 1000275), (1000275, mk_cell TPAIR 1000108 1000002)]
     [(1000141, [97, 98, 0]), (1000146, [99, 0]), (1000160, [1, 2]), (1000215, [97, 0])]"

lemmas desk_eval = desk_def sample_lookup sample_cell_def sample_heap sample_bytes cells

lemma desk_simps [simp]:
  "g_free desk = 1000300" "g_cells desk = 1000001" "ARENA_SIZE desk = 1000"
  "MAX_STRING desk = 524288" "STACK_SIZE desk = 20" "g_stack desk = 20" "g_symbols desk = 1000002"
  "stack desk i = 1000002" "R0 desk = 1000002"
  by (simp_all add: desk_def) (simp_all add: sample_def)

lemma desk_arena_ok [simp]: "arena_ok desk"
  by (simp add: desk_def sample_arena_ok)

lemma desk_specials [simp]: "specials_ok desk"
  unfolding desk_def by (rule sample_specials) (simp_all add: cells)

lemma desk_room [simp]: "n \<le> 700 \<Longrightarrow> room n desk"
  by (simp add: room_def)

lemma desk_ready [simp]: "n \<le> 700 \<Longrightarrow> ready n desk"
  by (simp add: ready_def)

lemma desk_list: "list_at desk 1000130 [1000120, 1000121]" "list_at desk 1000132 [1000122]"
  by (simp_all add: list_at_Cons desk_eval del: lookup_Some)

lemma desk_numbers: "numbers_at desk 1000130 [7, 9]"
  unfolding numbers_at_def using desk_list(1)
  by (auto simp: number_at_def is_long_def desk_eval simp del: lookup_Some)

lemma desk_texts: "text_at desk TSTRING [97, 98] 1000140" "text_at desk TSTRING [99] 1000145"
  by (simp_all add: text_at_def desk_eval del: lookup_Some)

lemma desk_chars: "char_list_at desk 1000156 [97]"
  unfolding char_list_at_def
  by (intro exI [of _ "[1000155]"]) (simp add: list_at_Cons desk_eval del: lookup_Some)

lemma desk_bytevector: "bytevector_at desk 1000160 [1, 2]"
  by (simp add: bytevector_at_def desk_eval del: lookup_Some)

lemma desk_vector: "slots_at TVECTOR desk 1000165 1000166 [mk_cell TREF 1000004 0]"
  by (simp add: slots_at_def desk_eval del: lookup_Some)

lemma desk_variable: "slots_at TSTRUCT desk 1000170 1000171
    [mk_cell TREF 1000002 0, mk_cell TREF 1000002 0, mk_cell TREF 1000002 0, mk_cell TREF 1000002 0]"
  by (simp add: slots_at_def All_less_Suc2 desk_eval flip: numeral_2_eq_2 del: lookup_Some)

definition desk_fields :: "cell list" where
  "desk_fields = [mk_cell TREF 1000002 0, mk_cell TREF 1000002 0, mk_cell TREF 1000002 0,
     mk_cell TREF 1000200 0, mk_cell TREF 1000002 0]"

lemma desk_module_slots: "slots_at TSTRUCT desk 1000180 1000181 desk_fields"
  by (simp add: desk_fields_def slots_at_def All_less_Suc2 desk_eval flip: numeral_2_eq_2 del: lookup_Some)

lemma desk_table: "table_at desk 1000200 [1000210] 1000206 1000207"
proof -
  let ?es = "[mk_cell TREF 1000002 0, mk_cell TREF 1000002 0, mk_cell TREF 1000002 0, mk_cell TNUMBER 0 1, mk_cell TREF 1000206 0]"
  have "slots_at TSTRUCT desk 1000200 1000201 ?es"
    by (simp add: slots_at_def All_less_Suc2 desk_eval flip: numeral_2_eq_2 del: lookup_Some)
  moreover have "slots_at TVECTOR desk 1000206 1000207 [mk_cell TREF 1000210 0]"
    by (simp add: slots_at_def desk_eval del: lookup_Some)
  ultimately show ?thesis
    unfolding table_at_def by (intro exI [of _ 1000201] exI [of _ ?es]) simp
qed

lemma desk_dict: "hash_dict desk 1000200 [1000106 \<mapsto> [97]] [1000106 \<mapsto> 1000170]"
proof -
  have "bucket_at desk 1000210 [1000211]"
    by (simp add: bucket_at_def alist_at_def list_at_Cons desk_eval del: lookup_Some)
  with desk_table have "dict_at desk 1000200 [[1000211]]"
    unfolding dict_at_def by (intro exI [of _ "[1000210]"]) auto
  moreover have "symbol_at desk 1000106 [97]" "ascii [97]"
    by (simp_all add: symbol_at_def ascii_def desk_eval del: lookup_Some)
  moreover have "dict_of desk [[1000211]] 1000106 [97] = Some 1000170"
    by (simp add: dict_of_def bucket_of_def key_of_def value_of_def hash_value_def smod_int_alt_def
        to_int_def desk_eval del: lookup_Some)
  ultimately show ?thesis
    unfolding hash_dict_def by (intro exI [of _ "[[1000211]]"]) simp
qed

lemma desk_module:
  "module_at desk [1000106 \<mapsto> [97]] 1000180 (Scope [1000106 \<mapsto> 1000170] [])"
  by (rule module_at [OF desk_module_slots _ _ desk_dict])
    (simp_all add: desk_fields_def cells)

lemma desk_frame: "frame_at desk 1000240 [(1000108, 1000120)]"
  unfolding frame_at_def
  by (intro exI [of _ "[1000241]"]) (simp add: list_at_Cons desk_eval del: lookup_Some)

lemma desk_closure: "closure_at desk 1000231 1000230 1000225 1000240"
  unfolding closure_at_def
  by (simp add: desk_eval del: lookup_Some)

lemma desk_formals: "formals_at desk 1000230 [1000106] None"
  unfolding formals_at_def
  by (intro exI [of _ "[1000230]"] exI [of _ 1000002]) (simp add: desk_eval del: lookup_Some)

lemma desk_args: "args_at desk 1000132 [1000122] 1000002"
  unfolding args_at_def
  by (intro exI [of _ "[1000132]"]) (simp add: desk_eval del: lookup_Some)

section \<open>Registers\<close>

text \<open>Setting a register or the stack pointer leaves the heap as it is.\<close>

lemma lookup_registers [simp]:
  "lookup (s\<lparr>R1 := x\<rparr>) = lookup s" "lookup (s\<lparr>R0 := x\<rparr>) = lookup s"
  "lookup (s\<lparr>g_stack := i\<rparr>) = lookup s" "lookup (s\<lparr>M1 := x\<rparr>) = lookup s" "lookup (s\<lparr>M0 := x\<rparr>) = lookup s"
  by (rule ext, simp add: lookup_def)+

lemma ready_registers [simp]:
  "ready n (s\<lparr>R1 := x\<rparr>) = ready n s" "ready n (s\<lparr>R0 := x\<rparr>) = ready n s"
  "ready n (s\<lparr>g_stack := i\<rparr>) = ready n s" "ready n (s\<lparr>M1 := x\<rparr>) = ready n s" "ready n (s\<lparr>M0 := x\<rparr>) = ready n s"
  by (simp_all add: ready_def arena_ok_def room_def specials_ok_def)

lemma extends_registers:
  "extends s (s\<lparr>R1 := x\<rparr>)" "extends s (s\<lparr>R0 := x\<rparr>)" "extends s (s\<lparr>g_stack := i\<rparr>)"
  "extends s (s\<lparr>M1 := x\<rparr>)" "extends s (s\<lparr>M0 := x\<rparr>)"
  by (simp_all add: extends_def)

section \<open>A program\<close>

text \<open>
  \<^verbatim>\<open>((lambda (a) (if a (p a b) #f)) 2)\<close> where \<open>b\<close> is bound to the number 7 and \<open>p\<close> to the
  primitive \<^verbatim>\<open>+\<close>, an object whose function is the one at the address of \<^verbatim>\<open>plus\<close>.
\<close>

definition desk_host :: host where
  "desk_host = \<lparr>os = (\<lambda>f args. ret (0, [], [])), start_sec = 0, start_nsec = 0, gc_time = 0, junk = 1000002\<rparr>"

definition desk_world :: world where
  "desk_world = mes_world desk_host (\<lambda>a n. a) (\<lambda>a. mk_cell TCHAR 0 0) 1"

definition desk_env :: "(addr \<times> val) list" where
  "desk_env = [(1000105, Prim PPlus), (1000108, Obj (DNum 7))]"

definition desk_body :: exp where
  "desk_body = If (Var 1000106) (Call (Var 1000105) [Var 1000106, Var 1000108]) (Const (DAtom cell_f))"

definition desk_call :: exp where
  "desk_call = Call (Lam [1000106] [desk_body]) [Const (DNum 2)]"

lemma desk_vars: "k \<in> {1000106, 1000108, 1000105} \<Longrightarrow> exp_at desk (Var k) k"
  by (auto intro!: exp_at.var simp: symbol_cell_def reserved_def desk_eval simp del: lookup_Some)

lemma desk_sum_at: "exp_at desk (Call (Var 1000105) [Var 1000106, Var 1000108]) 1000273"
proof (rule exp_at.call [where f' = 1000105 and p = 1000274 and xs = "[1000106, 1000108]", OF _ _ desk_vars])
  show "list_all2 (exp_at desk) [Var 1000106, Var 1000108] [1000106, 1000108]"
    using desk_vars by simp
qed (simp_all add: reserved_def list_at_Cons desk_eval del: lookup_Some)

lemma desk_body_at: "exp_at desk desk_body 1000257"
  unfolding desk_body_def
proof (rule exp_at.cond [where p = 1000258 and q = 1000259 and r = 1000260 and z = 1000002 and c' = 1000106
        and x' = 1000273 and y' = cell_f, OF _ _ _ _ _ _ desk_vars desk_sum_at])
  show "exp_at desk (Const (DAtom cell_f)) cell_f"
    by (rule exp_at.const) (auto simp: self_evaluating_def datum_at_def by_identity_def desk_eval simp del: lookup_Some)
qed (simp_all add: symbol_cell_def desk_eval del: lookup_Some)

lemma desk_lambda_at: "exp_at desk (Lam [1000106] [desk_body]) 1000254"
proof (rule exp_at.lam [where p = 1000255 and body = 1000256 and bs = "[1000257]", OF _ _ _ desk_formals])
  show "list_all2 (exp_at desk) [desk_body] [1000257]"
    using desk_body_at by simp
qed (simp_all add: symbol_cell_def reserved_def list_at_Cons desk_eval del: lookup_Some)

lemma desk_number_at: "datum_at desk (DNum 2) 1000122" "datum_at desk (DNum 7) 1000120"
  by (simp_all add: datum_at_def is_long_def desk_eval del: lookup_Some)

lemma desk_call_at: "exp_at desk desk_call 1000252"
  unfolding desk_call_def
proof (rule exp_at.call [where p = 1000253 and xs = "[1000122]", OF _ _ desk_lambda_at])
  show "list_all2 (exp_at desk) [Const (DNum 2)] [1000122]"
    using desk_number_at(1) by (auto intro!: exp_at.const simp: self_evaluating_def desk_eval simp del: lookup_Some)
qed (simp_all add: reserved_def list_at_Cons desk_eval del: lookup_Some)

lemma plus_address: "address ''plus'' = 68"
  by (simp add: address_def function_names_def builtin_specs_def)

lemma desk_builtin: "builtin_at desk 1000262 (-1) 68"
proof -
  have "slots_at TSTRUCT desk 1000262 1000263 [mk_cell TREF 1000002 0, mk_cell TREF 1000002 0,
     mk_cell TREF cell_symbol_builtin 0, mk_cell TREF 1000140 0, mk_cell TNUMBER 0 (-1), mk_cell TNUMBER 0 68]"
    by (simp add: slots_at_def All_less_Suc2 desk_eval flip: numeral_2_eq_2 del: lookup_Some)
  moreover have "symbol_cell desk cell_symbol_builtin"
    by (simp add: symbol_cell_def desk_eval del: lookup_Some)
  ultimately show ?thesis
    unfolding builtin_at_def by (intro conjI exI) (assumption | simp)+
qed

lemma desk_plus_at: "val_at desk_world desk (Prim PPlus) 1000262"
  by (rule linked.builtin_value [where h = desk_host and W = desk_world])
    (use desk_builtin in \<open>simp_all add: desk_world_def mes_world_def prim_arity_def prim_function_def plus_address\<close>)

lemma desk_env_at: "env_at desk_world desk desk_env 1000270"
proof -
  have "frame_at desk 1000270 [(cell_closure, 1000240), (1000105, 1000262), (1000108, 1000120)]"
    using desk_frame by (simp add: frame_at_Cons desk_eval del: lookup_Some)
  then show ?thesis
    unfolding env_at_def desk_env_def
    using desk_plus_at val_at.obj [OF desk_number_at(2)]
    by (intro exI [of _ cell_closure] exI [of _ 1000240] exI [of _ "[(1000105, 1000262), (1000108, 1000120)]"])
      (simp add: bound_def marker_def cells)
qed

lemma desk_budget: "n \<le> 600 \<Longrightarrow> d \<le> 4 \<Longrightarrow> budget W Map.empty n d desk"
proof -
  assume "n \<le> 600" "d \<le> 4"
  moreover have "GC_SAFETY desk = 20"
    by (simp add: desk_def) (simp add: sample_def)
  ultimately show ?thesis
    by (simp add: budget_def room_def)
qed

lemma desk_nil: "lookup desk 1000002 = Some (mk_cell TSPECIAL 0 1000109)"
  by (simp add: desk_eval del: lookup_Some)

lemma desk_application: "heap desk 1000236 = Some (mk_cell TPAIR 1000231 1000132)"
  by (simp add: desk_eval)

lemma desk_R0: "extends desk (desk\<lparr>R0 := x\<rparr>)"
  by simp

lemma desk_budget_R0: "n \<le> 600 \<Longrightarrow> d \<le> 4 \<Longrightarrow> budget W Map.empty n d (desk\<lparr>R0 := x\<rparr>)"
  using desk_budget [of n d W] by (auto simp: budget_def arena_ok_def room_def specials_ok_def)

lemma desk_value: "interp Map.empty 5 desk_env desk_call = Some (Obj (DNum 9), 30, 3)"
proof -
  have "numbers [DNum 2, DNum 7] = Some [2, 7]" "to_long 9 = 9"
    by (simp_all add: numbers_def to_long_def signed_take_bit_int_eq_self)
  then show ?thesis
    by (simp add: desk_env_def desk_call_def desk_body_def eval_nat_numeral cells)
qed

text \<open>A world without nested calls: the evaluator on its own.\<close>

definition alone :: world where
  "alone = evaluator (\<lambda>W f xs s. None) (\<lambda>a n. a) (\<lambda>a. mk_cell TCHAR 0 0) 0"

end
