(* ===== verification/Mes_Port.thy ===== *)
theory Mes_Port
  imports Mes_Io Mes_Intern
begin

text \<open>
  What the reader relies on when it takes characters from the current input port. The locale
  \<open>input_port\<close> states the contract of \<^verbatim>\<open>readchar\<close>, \<^verbatim>\<open>peekchar\<close> and \<^verbatim>\<open>unreadchar\<close>: they work on
  the bytes that are left, at a bounded cost in cells, and one byte that was just read can be
  put back. A file descriptor meets it with the one byte of \<^verbatim>\<open>__ungetc_buf\<close>, a string port by
  replacing its string. The facts about loops over a port are proved once, in the locale.
\<close>

section \<open>Progress\<close>

text \<open>
  \<open>advances n s t\<close>: going from \<open>s\<close> to \<open>t\<close> allocates at most \<open>n\<close> cells and changes nothing that
  was allocated but the contents of ports. What the evaluator depends on stays too.
\<close>

definition same_run :: "mst \<Rightarrow> mst \<Rightarrow> bool" where
  "same_run s t \<longleftrightarrow> R0 t = R0 s \<and> M0 t = M0 s \<and> M1 t = M1 s \<and> g_stack t = g_stack s \<and> stack t = stack s
     \<and> STACK_SIZE t = STACK_SIZE s \<and> GC_SAFETY t = GC_SAFETY s"

lemma same_run_refl [simp]: "same_run s s"
  by (simp add: same_run_def)

lemma same_run_updates [simp]:
  "same_run s (t\<lparr>heap := h\<rparr>) = same_run s t" "same_run s (t\<lparr>infile := f\<rparr>) = same_run s t"
  "same_run s (t\<lparr>ungetc_buf := c\<rparr>) = same_run s t" "same_run s (t\<lparr>infd := i\<rparr>) = same_run s t"
  "same_run s (t\<lparr>outlog := l\<rparr>) = same_run s t" "same_run s (t\<lparr>g_depth := n\<rparr>) = same_run s t"
  by (simp_all add: same_run_def)

lemma same_run_trans: "same_run s t \<Longrightarrow> same_run t u \<Longrightarrow> same_run s u"
  by (simp add: same_run_def)

definition advances :: "int \<Rightarrow> mst \<Rightarrow> mst \<Rightarrow> bool" where
  "advances n s t \<longleftrightarrow> arena_ok t \<and> g_free s \<le> g_free t \<and> g_free t \<le> g_free s + n
     \<and> g_cells t = g_cells s \<and> ARENA_SIZE t = ARENA_SIZE s \<and> MAX_STRING t = MAX_STRING s
     \<and> g_symbols t = g_symbols s \<and> same_run s t \<and> (\<forall>x < g_free s. bytes t x = bytes s x \<and> (heap t x = heap s x
          \<or> (\<exists>c d. heap s x = Some c \<and> heap t x = Some d \<and> ctype c = TPORT \<and> ctype d = TPORT)))"

lemma advancesD:
  assumes "advances n s t"
  shows "arena_ok t" "g_free s \<le> g_free t" "g_free t \<le> g_free s + n" "g_cells t = g_cells s"
    "ARENA_SIZE t = ARENA_SIZE s" "MAX_STRING t = MAX_STRING s" "g_symbols t = g_symbols s"
  using assms by (simp_all add: advances_def)

lemma grows_same_run: "grows n s t \<Longrightarrow> same_run s t"
  unfolding grows_def same_run_def by (elim conjE) (erule ssubst, simp)

lemma grows_advances: "grows n s t \<Longrightarrow> advances n s t"
  using growsD(1-8) [of n s t] grows_same_run by (auto simp: advances_def extends_def)

lemma advances_refl [simp]: "arena_ok s \<Longrightarrow> 0 \<le> n \<Longrightarrow> advances n s s"
  by (simp add: advances_def)

lemma advances_mono: "advances n s t \<Longrightarrow> n \<le> m \<Longrightarrow> advances m s t"
  by (auto simp: advances_def)

lemma advances_trans:
  assumes "advances n s t" "advances m t u"
  shows "advances (n + m) s u"
proof -
  have "bytes u x = bytes s x \<and> (heap u x = heap s x
      \<or> (\<exists>c d. heap s x = Some c \<and> heap u x = Some d \<and> ctype c = TPORT \<and> ctype d = TPORT))"
    if x: "x < g_free s" for x
  proof -
    have "x < g_free t"
      using x assms(1) by (simp add: advances_def)
    with x assms show ?thesis
      unfolding advances_def by (metis option.inject)
  qed
  with assms show ?thesis
    by (auto simp: advances_def intro: same_run_trans)
qed

lemma advances_room: "advances n s t \<Longrightarrow> room m s \<Longrightarrow> n + k \<le> m \<Longrightarrow> room k t"
  by (simp add: advances_def room_def)

lemma advances_lookup:
  assumes "advances n s t" "lookup s x = Some c" "ctype c \<noteq> TPORT"
  shows "lookup t x = Some c"
  using assms unfolding advances_def by (metis lookup_Some less_le_trans option.inject)

lemma advances_text_at:
  assumes "advances n s t" "text_at s k bs p" "k \<noteq> TPORT"
  shows "text_at t k bs p"
proof -
  obtain c b where c: "lookup s p = Some c" "ctype c = k" "ccar c = int (length bs)"
    "lookup s (ccdr c) = Some b" "ctype b = TBYTES" "int (length bs) < ccar b" "bytes s (ccdr c) = bs @ [0]"
    using assms(2) by (auto simp: text_at_def)
  have "bytes t (ccdr c) = bytes s (ccdr c)"
    using c(4) assms(1) by (simp add: advances_def)
  moreover have "lookup t p = Some c" "lookup t (ccdr c) = Some b"
    using advances_lookup [OF assms(1) c(1)] advances_lookup [OF assms(1) c(4)] c(2,5) assms(3) by auto
  ultimately show ?thesis
    using c unfolding text_at_def by metis
qed

lemma advances_specials: "advances n s t \<Longrightarrow> specials_ok s \<Longrightarrow> specials_ok t"
  unfolding specials_ok_def using advances_lookup by fastforce

lemma advances_ready: "advances n s t \<Longrightarrow> ready (n + m) s \<Longrightarrow> ready m t"
  by (auto simp: ready_def intro: advancesD advances_room advances_specials)

lemma advances_element_of: "advances n s t \<Longrightarrow> e < g_free s \<Longrightarrow> element_of t e = element_of s e"
  by (auto simp: element_of_def advances_def split: option.splits)

text \<open>A datum is kept: a port that occurs in it stays a port.\<close>

lemma advances_repr:
  "repr s d p \<Longrightarrow> advances n s t \<Longrightarrow> repr t d p"
  "reprs s ds p \<Longrightarrow> advances n s t \<Longrightarrow> reprs t ds p"
proof (induction s d p and s ds p rule: repr_reprs.induct)
  case (1 s k p)
  then obtain c where c: "lookup s p = Some c" "ctype c = TNUMBER" "ccdr c = k" by auto
  with advances_lookup [OF 1(2) c(1)] show ?case by auto
next
  case (2 s k p)
  then obtain c where c: "lookup s p = Some c" "ctype c = TCHAR" "ccdr c = k" by auto
  with advances_lookup [OF 2(2) c(1)] show ?case by auto
next
  case (3 s bs p)
  then show ?case using advances_text_at [OF 3(2)] by simp
next
  case (4 s bs p)
  then show ?case using advances_text_at [OF 4(2)] by simp
next
  case (5 s a p)
  then obtain c where c: "p = a" "p < g_free s" "heap s p = Some c" "by_identity (ctype c)" by auto
  then have "p < g_free t" "heap t p = Some c \<or> (\<exists>d. heap t p = Some d \<and> ctype d = TPORT)"
    using 5(2) by (auto simp: advances_def)
  with c show ?case by (auto simp: by_identity_def)
next
  case (6 s d e p)
  then obtain c where c: "lookup s p = Some c" "ctype c = TPAIR" "repr s d (ccar c)" "repr s e (ccdr c)"
    by auto
  with advances_lookup [OF 6(4) c(1)] 6 show ?case by auto
next
  case (7 s ds p)
  then obtain c where c: "lookup s p = Some c" "ctype c = TVECTOR" "ccar c = int (length ds)" "reprs s ds (ccdr c)"
    by auto
  with advances_lookup [OF 7(3) c(1)] 7 show ?case by auto
next
  case (8 s e)
  then show ?case by simp
next
  case (9 s d ds e)
  then have e: "e < g_free s" "heap s e \<noteq> None"
    by (auto simp: lookup_def split: if_splits)
  then have "e < g_free t" "heap t e \<noteq> None"
    using 9(4) by (auto simp: advances_def)
  then have "lookup t e \<noteq> None" by simp
  with 9 e advances_element_of [OF 9(4) e(1)] show ?case by simp
qed

lemma advances_list_at: "list_at s p xs \<Longrightarrow> advances n s t \<Longrightarrow> list_at t p xs"
proof (induction xs arbitrary: p)
  case Nil
  then show ?case by simp
next
  case (Cons x xs)
  then obtain c where c: "p \<noteq> cell_nil" "lookup s p = Some c" "ctype c = TPAIR" "ccar c = x" "list_at s (ccdr c) xs"
    by (auto simp: list_at_Cons)
  then show ?case
    using advances_lookup [OF Cons.prems(2) c(2)] Cons.IH [OF c(5) Cons.prems(2)] by (auto simp: list_at_Cons)
qed

section \<open>The symbol table\<close>

lemma advances_slots_at:
  assumes "slots_at tg s x v es" "advances n s t" "tg \<noteq> TPORT"
  obtains es' where "slots_at tg t x v es'" "length es' = length es"
    "\<And>i. i < length es \<Longrightarrow> ctype (es ! i) \<noteq> TPORT \<Longrightarrow> es' ! i = es ! i"
proof -
  let ?es = "map (\<lambda>i. the (heap t (v + int i))) [0..<length es]"
  have mapped: "lookup t (v + int i) = Some (?es ! i)" if i: "i < length es" for i
  proof -
    have "lookup s (v + int i) = Some (es ! i)"
      using assms(1) i by (simp add: slots_at_def)
    then have "v + int i < g_free t" "heap t (v + int i) \<noteq> None"
      using assms(2) by (auto simp: advances_def)
    then show ?thesis using i by auto
  qed
  have same: "?es ! i = es ! i" if i: "i < length es" "ctype (es ! i) \<noteq> TPORT" for i
  proof -
    have "lookup s (v + int i) = Some (es ! i)"
      using assms(1) i(1) by (simp add: slots_at_def)
    from advances_lookup [OF assms(2) this i(2)] show ?thesis using i(1) by simp
  qed
  have "lookup t x = Some (mk_cell tg (int (length es)) v)"
    using assms(1,3) advances_lookup [OF assms(2), of x] by (simp add: slots_at_def del: lookup_Some)
  then have "slots_at tg t x v ?es"
    using assms(1) mapped by (simp add: slots_at_def del: lookup_Some)
  then show thesis
    using same by (intro that [of ?es]) simp_all
qed

lemma advances_table_at:
  assumes "table_at s tb qs bv w" "advances n s t"
  shows "table_at t tb qs bv w"
proof -
  obtain v es where es: "slots_at TSTRUCT s tb v es" "length es = 5"
    "es ! 3 = mk_cell TNUMBER 0 (int (length qs))" "es ! 4 = mk_cell TREF bv 0"
    "slots_at TVECTOR s bv w (map (\<lambda>q. mk_cell TREF q 0) qs)"
    "\<not> (w \<le> tb \<and> tb < w + int (length qs))" "v + 5 \<le> w \<or> w + int (length qs) \<le> v"
    using assms(1) by (auto simp: table_at_def)
  obtain es' where es': "slots_at TSTRUCT t tb v es'" "length es' = length es"
    "\<And>i. i < length es \<Longrightarrow> ctype (es ! i) \<noteq> TPORT \<Longrightarrow> es' ! i = es ! i"
    by (rule advances_slots_at [OF es(1) assms(2)]) (simp, blast)
  let ?rs = "map (\<lambda>q. mk_cell TREF q 0) qs"
  obtain fs where fs: "slots_at TVECTOR t bv w fs" "length fs = length ?rs"
    "\<And>i. i < length ?rs \<Longrightarrow> ctype (?rs ! i) \<noteq> TPORT \<Longrightarrow> fs ! i = ?rs ! i"
    by (rule advances_slots_at [OF es(5) assms(2)]) (simp, blast)
  have "fs = ?rs"
    by (rule nth_equalityI) (simp_all add: fs(2,3))
  moreover have "es' ! 3 = es ! 3" "es' ! 4 = es ! 4"
    using es'(3) [of 3] es'(3) [of 4] es(2-4) by simp_all
  ultimately show ?thesis
    unfolding table_at_def using es(2-4,6,7) es'(1,2) fs(1) by (intro exI [of _ v] exI [of _ es']) simp
qed

lemma advances_bucket_at:
  assumes "bucket_at s q hs" "advances n s t"
  shows "bucket_at t q hs"
proof (cases "hs = []")
  case True
  then obtain c where "q = cell_unspecified" "lookup s q = Some c" "ctype c = TSPECIAL"
    using assms(1) by (auto simp: bucket_at_def)
  then show ?thesis
    using True advances_lookup [OF assms(2), of q c] by (auto simp: bucket_at_def)
next
  case False
  have "\<exists>c. lookup t h = Some c \<and> ctype c = TPAIR" if h: "h \<in> set hs" for h
  proof -
    obtain c where "lookup s h = Some c" "ctype c = TPAIR"
      using assms(1) False h unfolding bucket_at_def by auto
    then show ?thesis using advances_lookup [OF assms(2), of h c] by auto
  qed
  moreover have "list_at t q hs"
    using assms(1) False advances_list_at [OF _ assms(2)] by (simp add: bucket_at_def alist_at_def)
  ultimately show ?thesis
    using False unfolding bucket_at_def alist_at_def by (metis option.distinct(1))
qed

lemma advances_interned:
  assumes "interned s bs a" "advances n s t" "ascii bs"
  shows "interned t bs a"
proof -
  obtain hss h where h: "a \<noteq> cell_f" "symbols_at s hss" "first_named s bs (bucket_of hss bs) = Some h" "value_of s h = a"
    using assms(1) by (auto simp: interned_def)
  have tx: "text_at t TSTRING cs p" if "text_at s TSTRING cs p" for cs p
    by (rule advances_text_at [OF assms(2) that]) simp
  obtain qs bv w where q: "table_at s (g_symbols s) qs bv w" "length qs = length hss"
    "\<And>i. i < length hss \<Longrightarrow> bucket_at s (qs ! i) (hss ! i)"
    using h(2) by (auto simp: symbols_at_def dict_at_def)
  have "dict_at t (g_symbols t) hss"
    unfolding dict_at_def advancesD(7) [OF assms(2)]
    using advances_table_at [OF q(1) assms(2)] q(2) advances_bucket_at [OF q(3) assms(2)] by blast
  moreover have handles: "lookup t g = Some c" if g: "lookup s g = Some c" "g \<in> set hs" "hs \<in> set hss" for g c hs
  proof -
    obtain i where "i < length hss" "hs = hss ! i"
      using g(3) by (auto simp: in_set_conv_nth)
    then have "ctype c = TPAIR"
      using q(3) [of i] g(1,2) unfolding bucket_at_def by (auto split: if_splits)
    then show ?thesis using advances_lookup [OF assms(2) g(1)] by simp
  qed
  then have "string_keys t hs" if hs: "hs \<in> set hss" for hs
    using h(2) hs handles tx by (intro string_keys_kept(1) [of s hs t]) (auto simp: symbols_at_def)
  ultimately have "symbols_at t hss"
    using h(2) by (simp add: symbols_at_def)
  moreover have "first_named t bs (bucket_of hss bs) = Some h" "value_of t h = a"
  proof -
    note b = bucket_of_mem [OF h(2) assms(3)]
    have "h \<in> set (bucket_of hss bs)"
      using h(3) by (auto simp: first_named_def find_Some_iff)
    then show "first_named t bs (bucket_of hss bs) = Some h" "value_of t h = a"
      using string_keys_kept(2,3) [OF b(2), of t] handles [OF _ _ b(1)] tx h(3,4) by simp_all
  qed
  ultimately show ?thesis
    using h(1) unfolding interned_def by blast
qed

section \<open>The contract\<close>

text \<open>
  \<open>port_at j bs s\<close>: the bytes \<open>bs\<close> are left on the current input port, and if \<open>j\<close> then one more
  can be put back in front of them. \<open>code\<close> gives the \<^verbatim>\<open>int\<close> that stands for a byte, \<open>cost\<close> the
  cells that an operation may use up.
\<close>

locale input_port =
  fixes port_at :: "bool \<Rightarrow> byte list \<Rightarrow> mst \<Rightarrow> bool"
    and code :: "byte \<Rightarrow> int"
    and cost :: int
  assumes cost_nonneg: "0 \<le> cost"
    and code_byte: "of_int (code b) = b"
    and code_ascii: "uint b < 128 \<Longrightarrow> code b = uint b"
    and code_other: "128 \<le> uint b \<Longrightarrow> code b < 0 \<or> 128 \<le> code b"
    and weaken: "port_at True bs s \<Longrightarrow> port_at False bs s"
    and port_grows: "port_at j bs s \<Longrightarrow> grows n s t \<Longrightarrow> port_at j bs t"
    and read: "port_at j (b # bs) s \<Longrightarrow> ready cost s \<Longrightarrow>
      \<exists>t. readchar s = Some (Inr (code b), t) \<and> port_at True bs t \<and> advances cost s t"
    and read_end: "port_at j [] s \<Longrightarrow> readchar s = Some (Inr (- 1), s)"
    and peek: "port_at j (b # bs) s \<Longrightarrow> ready cost s \<Longrightarrow>
      \<exists>t. peekchar s = Some (Inr (code b), t) \<and> port_at False (b # bs) t \<and> advances cost s t"
    and peek_end: "port_at j [] s \<Longrightarrow> peekchar s = Some (Inr (- 1), s)"
    and unread: "port_at True bs s \<Longrightarrow> ready cost s \<Longrightarrow> code b \<noteq> - 1 \<Longrightarrow>
      \<exists>t. unreadchar (code b) s = Some (Inr (code b), t) \<and> port_at False (b # bs) t \<and> advances cost s t"
    and unread_end: "port_at j bs s \<Longrightarrow> unreadchar (- 1) s = Some (Inr (- 1), s)"
begin

text \<open>A byte that is read and put back is read again.\<close>

lemma read_unread_read:
  assumes "port_at j (b # bs) s" "ready (3 * cost) s" "code b \<noteq> - 1"
  shows "\<exists>t. mbind readchar (\<lambda>c. mseq (unreadchar c) readchar) s = Some (Inr (code b), t)
    \<and> port_at True bs t \<and> advances (3 * cost) s t"
proof -
  have r: "ready cost s"
    by (rule ready_mono [OF assms(2)]) (use cost_nonneg in simp)
  obtain t where t: "readchar s = Some (Inr (code b), t)" "port_at True bs t" "advances cost s t"
    using read [OF assms(1) r] by blast
  have rt: "ready (cost + cost) t"
    by (rule advances_ready [OF t(3)]) (use assms(2) in simp)
  obtain u where u: "unreadchar (code b) t = Some (Inr (code b), u)" "port_at False (b # bs) u" "advances cost t u"
    using unread [OF t(2) ready_mono [OF rt] assms(3)] cost_nonneg by auto
  obtain v where v: "readchar u = Some (Inr (code b), v)" "port_at True bs v" "advances cost u v"
    using read [OF u(2) advances_ready [OF u(3) rt]] by blast
  have "advances (3 * cost) s v"
    using advances_trans [OF advances_trans [OF t(3) u(3)] v(3)] by simp
  then show ?thesis
    using t(1) u(1) v(1,2) by (intro exI [of _ v]) simp
qed

text \<open>Reading to the end gives the bytes that were left.\<close>

lemma read_string_loop_all:
  assumes "port_at j bs s" "ready (int (length bs) * cost) s" "int (length buf + length bs) + 1 < MAX_STRING s"
    and "\<forall>b \<in> set bs. code b \<noteq> - 1" "code b \<noteq> - 1"
  shows "\<exists>t. read_string_loop (code b) buf s = Some (Inr (buf @ b # bs), t)
    \<and> port_at False [] t \<and> advances (int (length bs) * cost) s t"
  using assms
proof (induction bs arbitrary: j b buf s)
  case Nil
  have "port_at False [] s"
    using Nil.prems(1) by (cases j) (auto intro: weaken)
  moreover have "arena_ok s"
    using Nil.prems(2) by (simp add: ready_def)
  moreover have "read_string_loop (- 1) (buf @ [b]) s = Some (Inr (buf @ [b]), s)"
    using Nil.prems(3) by (subst read_string_loop.simps) (simp add: in_g_buf_def)
  then have "read_string_loop (code b) buf s = Some (Inr (buf @ [b]), s)"
    using Nil.prems(3,5) read_end [OF Nil.prems(1)]
    by (subst read_string_loop.simps) (simp add: in_g_buf_def code_byte)
  ultimately show ?case
    by auto
next
  case (Cons c bs)
  have rs: "ready (cost + int (length bs) * cost) s"
    using Cons.prems(2) by (simp add: algebra_simps)
  obtain t where t: "readchar s = Some (Inr (code c), t)" "port_at True bs t" "advances cost s t"
    using read [OF Cons.prems(1) ready_mono [OF rs]] cost_nonneg by auto
  have rt: "ready (int (length bs) * cost) t"
    by (rule advances_ready [OF t(3) rs])
  have "\<exists>u. read_string_loop (code c) (buf @ [b]) t = Some (Inr ((buf @ [b]) @ c # bs), u)
      \<and> port_at False [] u \<and> advances (int (length bs) * cost) t u"
    by (rule Cons.IH [OF t(2) rt]) (use Cons.prems(3,4) advancesD(6) [OF t(3)] in auto)
  then obtain u where u: "read_string_loop (code c) (buf @ [b]) t = Some (Inr (buf @ b # c # bs), u)"
    "port_at False [] u" "advances (int (length bs) * cost) t u"
    by auto
  have "read_string_loop (code b) buf s = Some (Inr (buf @ b # c # bs), u)"
    using Cons.prems(3,5) t(1) u(1)
    by (subst read_string_loop.simps) (simp add: in_g_buf_def code_byte)
  then show ?case
    using u(2) advances_trans [OF t(3) u(3)] by (auto simp: algebra_simps)
qed

end

section \<open>File descriptors\<close>

definition fd_input :: "int \<Rightarrow> bool \<Rightarrow> byte list \<Rightarrow> mst \<Rightarrow> bool" where
  "fd_input fd j bs s \<longleftrightarrow> infd s = fd \<and> 0 \<le> fd \<and>
     (if ungetc_buf s fd < 0 then infile s fd = bs
      else \<not> j \<and> ungetc_buf s fd < 256 \<and> bs = of_int (ungetc_buf s fd) # infile s fd)"

lemma byte_of_char: "(if sint c < 0 then sint c + 256 else sint c) = uint c" for c :: byte
proof -
  have r: "- 128 \<le> sint c" "sint c < 128"
    using sint_range_size [of c] by (simp_all add: size_word_def)
  have "uint c = sint c mod 256"
    using uint_sint [of c] by (simp add: take_bit_eq_mod)
  also have "\<dots> = (if sint c < 0 then sint c + 256 else sint c)"
  proof (cases "sint c < 0")
    case True
    have "sint c mod 256 = (sint c + 256) mod 256" by simp
    also have "\<dots> = sint c + 256"
      using r True by (intro mod_pos_pos_trivial) auto
    finally show ?thesis using True by simp
  next
    case False
    then show ?thesis using r by simp
  qed
  finally show ?thesis ..
qed

lemma uint_byte: "0 \<le> uint (b :: byte)" "uint b < 256"
  using uint_bounded [of b] by simp_all

lemma grows_ports:
  assumes "grows n s t"
  shows "infd t = infd s" "ungetc_buf t = ungetc_buf s" "infile t = infile s" "g_ports t = g_ports s"
proof -
  have eq: "t = s\<lparr>heap := heap t, bytes := bytes t, g_free := g_free t\<rparr>"
    using assms by (simp add: grows_def)
  show "infd t = infd s" "ungetc_buf t = ungetc_buf s" "infile t = infile s" "g_ports t = g_ports s"
    by (subst eq; simp)+
qed

lemma advances_channels [simp]:
  assumes "arena_ok s" "0 \<le> n"
  shows "advances n s (s\<lparr>ungetc_buf := u\<rparr>)" "advances n s (s\<lparr>infile := f\<rparr>)"
    "advances n s (s\<lparr>infile := f, ungetc_buf := u\<rparr>)"
  using assms by (simp_all add: advances_def arena_ok_def)

lemma fdgetc_byte:
  assumes "fd_input fd j (b # bs) s" "arena_ok s"
  shows "\<exists>t. fdgetc fd s = Some (Inr (uint b), t) \<and> fd_input fd True bs t \<and> advances 0 s t \<and> heap t = heap s \<and> g_free t = g_free s"
proof (cases "ungetc_buf s fd < 0")
  case True
  with assms(1) have "infd s = fd" "0 \<le> fd" "infile s fd = b # bs"
    by (simp_all add: fd_input_def)
  with True assms(2) show ?thesis
    by (simp add: fdgetc_def read1_def mbind_def byte_of_char fd_input_def)
next
  case False
  with assms(1) have u: "infd s = fd" "0 \<le> fd" "infile s fd = bs" "b = of_int (ungetc_buf s fd)" "ungetc_buf s fd < 256"
    by (auto simp: fd_input_def)
  with False have "uint b = ungetc_buf s fd"
    by (simp add: unsigned_of_int take_bit_int_eq_self)
  with False u assms(2) show ?thesis
    by (simp add: fdgetc_def ungetc_set_def fd_input_def)
qed

lemma fdungetc_byte:
  assumes "fd_input fd True bs s" "arena_ok s"
  shows "\<exists>t. fdungetc (uint b) fd s = Some (Inr (uint b), t) \<and> fd_input fd False (b # bs) t \<and> advances 0 s t \<and> heap t = heap s \<and> g_free t = g_free s"
proof -
  have "ungetc_buf s fd < 0" "infd s = fd" "0 \<le> fd" "infile s fd = bs"
    using assms(1) by (auto simp: fd_input_def split: if_splits)
  moreover have "uint b \<noteq> - 1" "uint b < 256" "\<not> uint b < 0"
    using uint_byte [of b] by linarith+
  moreover from this(1) have "(uint b = - 1) = False" by (rule Eq_FalseI [THEN meta_eq_to_obj_eq])
  ultimately show ?thesis
    using assms(2) by (simp only: fdungetc_def) (simp add: ungetc_p_def ungetc_set_def fd_input_def)
qed

text \<open>A second byte cannot be put back: the code stops with a failed assertion.\<close>

lemma fdungetc_twice:
  assumes "0 \<le> ungetc_buf s fd" "c \<noteq> - 1"
  shows "fdungetc c fd s = Some (Inl (Assert ''0''), s)"
  using assms by (simp add: fdungetc_def ungetc_p_def)

text \<open>
  Reading from a file changes no cell. To say so of the reader as a whole, the contract is met a
  second time, by a file descriptor together with the cells \<open>h\<close> that are to be there below \<open>g\<close>.
\<close>

definition fd_keeping :: "addr \<Rightarrow> (addr \<Rightarrow> cell option) \<Rightarrow> int \<Rightarrow> bool \<Rightarrow> byte list \<Rightarrow> mst \<Rightarrow> bool" where
  "fd_keeping g h fd j bs s \<longleftrightarrow> fd_input fd j bs s \<and> g \<le> g_free s \<and> (\<forall>x < g. heap s x = h x)"

lemma fd_readchar:
  assumes "fd_input fd j (b # bs) s" "ready 0 s"
  shows "\<exists>t. readchar s = Some (Inr (uint b), t) \<and> fd_input fd True bs t \<and> advances 0 s t \<and> heap t = heap s \<and> g_free t = g_free s"
proof -
  have "infd s = fd" "\<not> fd < 0" "arena_ok s"
    using assms by (auto simp: fd_input_def ready_def)
  then show ?thesis
    using fdgetc_byte [OF assms(1)] by (simp add: readchar_def)
qed

lemma fd_unreadchar:
  assumes "fd_input fd True bs s" "ready 0 s"
  shows "\<exists>t. unreadchar (uint b) s = Some (Inr (uint b), t) \<and> fd_input fd False (b # bs) t \<and> advances 0 s t
    \<and> heap t = heap s \<and> g_free t = g_free s"
proof -
  have "infd s = fd" "\<not> fd < 0" "arena_ok s"
    using assms by (auto simp: fd_input_def ready_def)
  then show ?thesis
    using fdungetc_byte [OF assms(1)] by (simp add: unreadchar_def)
qed

lemma fd_peekchar:
  assumes "fd_input fd j (b # bs) s" "ready 0 s"
  shows "\<exists>t. peekchar s = Some (Inr (uint b), t) \<and> fd_input fd False (b # bs) t \<and> advances 0 s t \<and> heap t = heap s \<and> g_free t = g_free s"
proof -
  obtain t where t: "readchar s = Some (Inr (uint b), t)" "fd_input fd True bs t" "advances 0 s t"
    "heap t = heap s" "g_free t = g_free s"
    using fd_readchar [OF assms] by blast
  have fd: "infd s = fd" "\<not> fd < 0"
    using assms(1) by (auto simp: fd_input_def)
  have "ready 0 t"
    using advances_ready [OF t(3)] assms(2) by simp
  then obtain u where u: "unreadchar (uint b) t = Some (Inr (uint b), u)" "fd_input fd False (b # bs) u" "advances 0 t u"
    "heap u = heap t" "g_free u = g_free t"
    using fd_unreadchar [OF t(2)] by blast
  then show ?thesis
    using fd t advances_trans [OF t(3) u(3)] by (simp add: peekchar_def)
qed

lemma fd_ends:
  assumes "fd_input fd j [] s"
  shows "readchar s = Some (Inr (- 1), s)" "peekchar s = Some (Inr (- 1), s)"
proof -
  have "infd s = fd" "\<not> fd < 0" "ungetc_buf s fd < 0" "infile s fd = []"
    using assms by (auto simp: fd_input_def split: if_splits)
  then show "readchar s = Some (Inr (- 1), s)" "peekchar s = Some (Inr (- 1), s)"
    by (simp_all add: peekchar_def readchar_def unreadchar_def fdgetc_def read1_def mbind_def fdungetc_def)
qed

lemma fd_unread_end: "fd_input fd j bs s \<Longrightarrow> unreadchar (- 1) s = Some (Inr (- 1), s)"
  by (simp add: unreadchar_def fdungetc_def fd_input_def)

lemma fd_weaken: "fd_input fd True bs s \<Longrightarrow> fd_input fd False bs s"
  by (auto simp: fd_input_def split: if_splits)

lemma fd_grows: "fd_input fd j bs s \<Longrightarrow> grows n s t \<Longrightarrow> fd_input fd j bs t"
  using grows_ports [of n s t] by (simp add: fd_input_def)

lemma fd_keeping_grows:
  assumes "fd_keeping g h fd j bs s" "grows n s t"
  shows "fd_keeping g h fd j bs t"
  using assms fd_grows [of fd j bs s n t] growsD(1,6) [OF assms(2)] unfolding fd_keeping_def extends_def
  by auto

interpretation fdport: input_port "fd_input fd" uint 0 for fd
proof
  fix j and b :: byte and bs s assume a: "fd_input fd j (b # bs) s" "ready 0 s"
  show "\<exists>t. readchar s = Some (Inr (uint b), t) \<and> fd_input fd True bs t \<and> advances 0 s t"
    using fd_readchar [OF a] by blast
  show "\<exists>t. peekchar s = Some (Inr (uint b), t) \<and> fd_input fd False (b # bs) t \<and> advances 0 s t"
    using fd_peekchar [OF a] by blast
next
  fix bs s and b :: byte assume a: "fd_input fd True bs s" "ready 0 s"
  show "\<exists>t. unreadchar (uint b) s = Some (Inr (uint b), t) \<and> fd_input fd False (b # bs) t \<and> advances 0 s t"
    using fd_unreadchar [OF a, of b] by blast
next
  fix j s assume i: "fd_input fd j [] s"
  show "readchar s = Some (Inr (- 1), s)" "peekchar s = Some (Inr (- 1), s)"
    by (rule fd_ends [OF i])+
next
  fix j bs s assume "fd_input fd j bs s"
  then show "unreadchar (- 1) s = Some (Inr (- 1), s)" by (rule fd_unread_end)
next
  fix j bs n s t assume "fd_input fd j bs s" "grows n s t"
  then show "fd_input fd j bs t" by (rule fd_grows)
qed (simp_all add: fd_weaken)

interpretation keepport: input_port "fd_keeping g h fd" uint 0 for g h fd
proof
  fix j bs n s t assume "fd_keeping g h fd j bs s" "grows n s t"
  then show "fd_keeping g h fd j bs t" by (rule fd_keeping_grows)
next
  fix j and b :: byte and bs s assume a: "fd_keeping g h fd j (b # bs) s" "ready 0 s"
  then have i: "fd_input fd j (b # bs) s" by (simp add: fd_keeping_def)
  show "\<exists>t. readchar s = Some (Inr (uint b), t) \<and> fd_keeping g h fd True bs t \<and> advances 0 s t"
    using fd_readchar [OF i a(2)] a(1) unfolding fd_keeping_def by metis
  show "\<exists>t. peekchar s = Some (Inr (uint b), t) \<and> fd_keeping g h fd False (b # bs) t \<and> advances 0 s t"
    using fd_peekchar [OF i a(2)] a(1) unfolding fd_keeping_def by metis
next
  fix bs s and b :: byte assume a: "fd_keeping g h fd True bs s" "ready 0 s"
  then have i: "fd_input fd True bs s" by (simp add: fd_keeping_def)
  show "\<exists>t. unreadchar (uint b) s = Some (Inr (uint b), t) \<and> fd_keeping g h fd False (b # bs) t \<and> advances 0 s t"
    using fd_unreadchar [OF i a(2), of b] a(1) unfolding fd_keeping_def by metis
next
  fix j s assume "fd_keeping g h fd j [] s"
  then have i: "fd_input fd j [] s" by (simp add: fd_keeping_def)
  show "readchar s = Some (Inr (- 1), s)" "peekchar s = Some (Inr (- 1), s)"
    by (rule fd_ends [OF i])+
next
  fix j bs s assume "fd_keeping g h fd j bs s"
  then have "fd_input fd j bs s" by (simp add: fd_keeping_def)
  then show "unreadchar (- 1) s = Some (Inr (- 1), s)" by (rule fd_unread_end)
qed (simp_all add: fd_keeping_def fd_weaken)

section \<open>String ports\<close>

text \<open>
  The port \<open>q\<close> is the current one and its string is \<open>bs\<close>, of at most \<open>N\<close> bytes. The first port
  with the number \<^verbatim>\<open>__stdin\<close> counts; the null pointer is not a cell.
\<close>

definition string_input :: "nat \<Rightarrow> addr \<Rightarrow> bool \<Rightarrow> byte list \<Rightarrow> mst \<Rightarrow> bool" where
  "string_input N q j bs s \<longleftrightarrow> infd s < 0 \<and> length bs + (if j then 1 else 0) \<le> N
     \<and> int N \<le> MAX_STRING s \<and> int N < 2 ^ 61 \<and> 0 < g_free s \<and> heap s 0 = None
     \<and> (\<exists>c. lookup s q = Some c \<and> ctype c = TPORT \<and> ccar c = infd s \<and> text_at s TSTRING bs (ccdr c))
     \<and> (\<exists>qs ps. list_at s (g_ports s) (qs @ q # ps)
          \<and> (\<forall>p \<in> set qs. \<exists>c. lookup s p = Some c \<and> ccar c \<noteq> infd s))"

definition string_cost :: "nat \<Rightarrow> int" where
  "string_cost N = 1 + (int N + 24) div 8"

lemma string_cells_le: "length bs \<le> N \<Longrightarrow> int N < 2 ^ 61 \<Longrightarrow> string_cells bs \<le> string_cost N"
  by (simp add: string_cells_def string_cost_def bytes_cells_eq zdiv_mono1)

lemma find_port_ok:
  assumes "list_at s p (qs @ q # ps)" "lookup s q = Some c" "ccar c = fd" "heap s 0 = None"
    and "\<forall>p \<in> set qs. \<exists>c. lookup s p = Some c \<and> ccar c \<noteq> fd"
  shows "find_port fd p s = Some (Inr q, s)"
  using assms(1,5)
proof (induction qs arbitrary: p)
  case Nil
  then obtain d where "heap s p = Some d" "ccar d = q" by (auto simp: list_at_Cons)
  then show ?case
    using assms(2-4) by (subst find_port.simps) auto
next
  case (Cons x qs)
  then obtain d c' where "heap s p = Some d" "ccar d = x" "list_at s (ccdr d) (qs @ q # ps)"
    "heap s x = Some c'" "ccar c' \<noteq> fd" by (auto simp: list_at_Cons)
  then show ?case
    using assms(4) Cons.IH Cons.prems(2) by (subst find_port.simps) auto
qed

lemma string_input_port:
  assumes "string_input N q j bs s"
  obtains c b where "current_input_port s = Some (Inr q, s)" "heap s q = Some c" "q < g_free s"
    "ctype c = TPORT" "ccar c = infd s" "infd s < 0" "text_at s TSTRING bs (ccdr c)"
    "heap s (ccdr c) = Some b" "ccar b = int (length bs)"
    "cell_bytes (ccdr b) s = Some (Inr (bs @ [0]), s)"
proof -
  obtain c qs ps where c: "infd s < 0" "heap s 0 = None" "lookup s q = Some c" "ctype c = TPORT" "ccar c = infd s"
    "text_at s TSTRING bs (ccdr c)" "list_at s (g_ports s) (qs @ q # ps)"
    "\<forall>p \<in> set qs. \<exists>c. lookup s p = Some c \<and> ccar c \<noteq> infd s"
    using assms by (auto simp: string_input_def simp del: lookup_Some)
  then obtain b d where b: "heap s (ccdr c) = Some b" "ccar b = int (length bs)" "heap s (ccdr b) = Some d"
    "bytes s (ccdr b) = bs @ [0]"
    by (auto simp: text_at_def)
  have "current_input_port s = Some (Inr q, s)"
    using c(1) find_port_ok [OF c(7,3,5,2,8)] by (simp add: current_input_port_def)
  then show thesis
    using c b by (intro that [of c b]) auto
qed

text \<open>Another string is put behind the port.\<close>

lemma string_input_swap:
  assumes i: "string_input N q j bs s" and g: "grows n s t" and r: "text_at t TSTRING cs r"
    and len: "length cs + (if k then 1 else 0) \<le> N" and c: "heap t q = Some c" "heap s q = Some c"
    and u: "u = t\<lparr>heap := (heap t)(q \<mapsto> c\<lparr>ccdr := r\<rparr>)\<rparr>"
  shows "string_input N q k cs u" "advances n s u"
proof -
  obtain qs ps where s: "infd s < 0" "int N \<le> MAX_STRING s" "int N < 2 ^ 61" "0 < g_free s" "heap s 0 = None"
    "q < g_free s" "ctype c = TPORT" "ccar c = infd s" "list_at s (g_ports s) (qs @ q # ps)"
    "\<forall>p \<in> set qs. \<exists>c. lookup s p = Some c \<and> ccar c \<noteq> infd s"
    using i c(2) by (auto simp: string_input_def)
  have ext: "extends s t" "arena_ok t" "g_free s \<le> g_free t" "g_free t \<le> g_free s + n"
    "ARENA_SIZE t = ARENA_SIZE s" "g_cells t = g_cells s" "MAX_STRING t = MAX_STRING s" "g_symbols t = g_symbols s"
    using growsD(1-8) [OF g] .
  show adv: "advances n s u"
    using ext c s(7) grows_same_run [OF g] unfolding u by (auto simp: advances_def extends_def arena_ok_def)
  obtain b d where b: "lookup t r = Some b" "ctype b = TSTRING" "ccar b = int (length cs)"
    "lookup t (ccdr b) = Some d" "ctype d = TBYTES" "int (length cs) < ccar d" "bytes t (ccdr b) = cs @ [0]"
    using r by (auto simp: text_at_def)
  have "r \<noteq> q" "ccdr b \<noteq> q"
    using b c s(7) by auto
  then have "text_at u TSTRING cs r"
    using b unfolding u text_at_def by auto
  moreover have "list_at u (g_ports u) (qs @ q # ps)"
    using advances_list_at [OF s(9) adv] grows_ports(4) [OF g] by (simp add: u)
  moreover have "\<exists>c. lookup u p = Some c \<and> ccar c \<noteq> infd u" if p: "p \<in> set qs" for p
  proof -
    obtain d where d: "lookup s p = Some d" "ccar d \<noteq> infd s" using s(10) p by blast
    then have "p \<noteq> q" using c(2) s(8) by auto
    then show ?thesis
      using d extends_lookup [OF ext(1) d(1)] grows_ports(1) [OF g] by (auto simp: u)
  qed
  ultimately have ports: "\<exists>qs ps. list_at u (g_ports u) (qs @ q # ps)
      \<and> (\<forall>p \<in> set qs. \<exists>c. lookup u p = Some c \<and> ccar c \<noteq> infd u)"
    and tx: "text_at u TSTRING cs r" by blast+
  have "q \<noteq> 0" using c(2) s(5) by auto
  then have z: "heap u 0 = None" "0 < g_free u" "infd u = infd s" "MAX_STRING u = MAX_STRING s"
    using ext s(4,5) grows_ports(1) [OF g] by (auto simp: u extends_def)
  have "lookup u q = Some (c\<lparr>ccdr := r\<rparr>)"
    using s(6) ext(3) by (simp add: u)
  then show "string_input N q k cs u"
    unfolding string_input_def using s(1-3,7,8) len ports tx z by auto
qed

lemma string_input_grows: "string_input N q j bs s \<Longrightarrow> grows n s t \<Longrightarrow> string_input N q j bs t"
proof -
  assume a: "string_input N q j bs s" and g: "grows n s t"
  obtain c where c: "heap s q = Some c" "q < g_free s" "ctype c = TPORT" "text_at s TSTRING bs (ccdr c)"
    "length bs + (if j then 1 else 0) \<le> N"
    using a by (auto simp: string_input_def)
  have t: "heap t q = Some c"
    using c growsD(1) [OF g] by (simp add: extends_def)
  have "t = t\<lparr>heap := (heap t)(q \<mapsto> c\<lparr>ccdr := ccdr c\<rparr>)\<rparr>"
    using t by (simp add: fun_upd_idem)
  then show ?thesis
    using string_input_swap(1) [OF a g text_at_extends [OF growsD(1) [OF g] c(4)] c(5) t c(1)] by blast
qed

text \<open>A new string, which then takes the place of the old one.\<close>

lemma fresh_string:
  assumes i: "string_input N q j bs s" and rdy: "ready (string_cost N) s"
    and len: "length cs + (if k then 1 else 0) \<le> N"
  obtains t r d where "make_string (cs @ [0]) (int (length cs)) s = Some (Inr r, t)" "grows (string_cost N) s t"
    "text_at t TSTRING cs r" "heap t r = Some d" "infd t = infd s"
    "\<exists>u. set_cdr q r t = Some (Inr (), u) \<and> string_input N q k cs u \<and> advances (string_cost N) s u"
proof -
  have N: "int N \<le> MAX_STRING s" "int N < 2 ^ 61" "length cs \<le> N"
    using i len by (auto simp: string_input_def split: if_splits)
  have "room (string_cells cs) s" "arena_ok s"
    using rdy string_cells_le [OF N(3,2)] by (auto simp: ready_def intro: room_mono)
  then obtain t where t: "make_string (cs @ [0]) (int (length cs)) s = Some (Inr (g_free s), t)"
    "grows (string_cells cs) s t" "text_at t TSTRING cs (g_free s)"
    using make_string_text [of s cs] N by auto
  have g: "grows (string_cost N) s t"
    by (rule grows_mono [OF t(2) string_cells_le [OF N(3,2)]])
  obtain c where c: "heap s q = Some c" "q < g_free s"
    using i by (auto simp: string_input_def)
  then have tq: "heap t q = Some c"
    using growsD(1) [OF g] by (simp add: extends_def)
  obtain d where "heap t (g_free s) = Some d"
    using t(3) by (auto simp: text_at_def)
  then show thesis
    using that [OF t(1) g t(3) _ grows_ports(1) [OF g]] tq string_input_swap [OF i g t(3) len tq c(1) refl] by simp
qed

lemma fresh_text:
  assumes "arena_ok s" "room (string_cells cs) s" "int (length cs) < 2 ^ 62"
    and "t = s\<lparr>g_free := g_free s + string_cells cs,
         heap := (heap s)(g_free s \<mapsto> mk_cell TSTRING (int (length cs)) (g_free s + 1),
            g_free s + 1 \<mapsto> mk_cell TBYTES (int (length cs) + 1) (ccdr (c :: cell))),
         bytes := (bytes s)(g_free s + 1 := cs @ [0])\<rparr>"
  shows "grows (string_cells cs) s t" "text_at t TSTRING cs (g_free s)"
proof -
  have pos: "2 \<le> bytes_cells (int (length cs) + 1)"
    using assms(3) by (intro bytes_cells_pos) auto
  then show "grows (string_cells cs) s t" "text_at t TSTRING cs (g_free s)"
    using assms(1,2,4) by (auto simp: grows_def extends_def arena_ok_def text_at_def string_cells_def)
qed

lemma sint_ascii: "uint b < 128 \<Longrightarrow> sint b = uint b" for b :: byte
  using byte_of_char [of b] uint_byte [of b] sint_range_size [of b] by (auto simp: size_word_def split: if_splits)

lemma sint_other: "128 \<le> uint b \<Longrightarrow> sint b < 0" for b :: byte
  using byte_of_char [of b] sint_range_size [of b] by (auto simp: size_word_def split: if_splits)

lemma unread_string:
  assumes a: "string_input N q True bs s" "ready (string_cost N) s" "sint b \<noteq> - 1"
  shows "\<exists>t. unreadchar (sint b) s = Some (Inr (sint b), t) \<and> string_input N q False (b # bs) t
    \<and> advances (string_cost N) s t"
proof -
  obtain c x where c: "current_input_port s = Some (Inr q, s)" "heap s q = Some c" "infd s < 0"
    "heap s (ccdr c) = Some x" "ccar x = int (length bs)" "cell_bytes (ccdr x) s = Some (Inr (bs @ [0]), s)"
    using string_input_port [OF a(1)] by metis
  have N: "int (length (b # bs)) \<le> MAX_STRING s" "int N < 2 ^ 61" "length (b # bs) \<le> N" "string_input N q True bs s"
    using a(1) by (auto simp: string_input_def)
  let ?w = "\<lambda>x c. s\<lparr>g_free := g_free s + string_cells (b # bs),
       heap := (heap s)(g_free s \<mapsto> mk_cell TSTRING (int (length (b # bs))) (g_free s + 1),
          g_free s + 1 \<mapsto> mk_cell TBYTES (int (length (b # bs)) + 1) (ccdr c)),
       bytes := (bytes s)(g_free s + 1 := (x # bs) @ [0])\<rparr>"
  have sz: "string_cells (0 # bs) = string_cells (b # bs)"
    by (simp add: string_cells_def)
  have rm: "room (string_cells (b # bs)) s" "arena_ok s"
    using a(2) string_cells_le [OF N(3,2)] by (auto simp: ready_def intro: room_mono)
  obtain e :: cell where e: "make_string ((0 # bs) @ [0]) (int (length (0 # bs))) s = Some (Inr (g_free s), ?w 0 e)"
    using make_string_ok [of s "0 # bs"] rm N unfolding sz by auto
  have g: "grows (string_cost N) s (?w b e)" and t: "text_at (?w b e) TSTRING (b # bs) (g_free s)"
    using fresh_text [OF rm(2,1) _ refl, of e] string_cells_le [OF N(3,2)] N by (auto intro: grows_mono)
  have q: "q < g_free s" "heap (?w b e) q = Some c"
    using a(1) c(2) by (auto simp: string_input_def)
  have swap: "string_input N q False (b # bs) ((?w b e)\<lparr>heap := (heap (?w b e))(q \<mapsto> c\<lparr>ccdr := g_free s\<rparr>)\<rparr>)"
    "advances (string_cost N) s ((?w b e)\<lparr>heap := (heap (?w b e))(q \<mapsto> c\<lparr>ccdr := g_free s\<rparr>)\<rparr>)"
    by (rule string_input_swap [where k = False, OF a(1) g t _ q(2) c(2) refl], use N(3) in simp)+
  have s1: "make_string (0 # bs @ [0]) (int (length bs) + 1) s = Some (Inr (g_free s), ?w 0 e)"
    using e by (simp add: add.commute)
  have s2: "get_cdr (g_free s) (?w 0 e) = Some (Inr (g_free s + 1), ?w 0 e)"
    "cell_bytes (g_free s + 1) (?w 0 e) = Some (Inr (0 # bs @ [0]), ?w 0 e)"
    "set_bytes (g_free s + 1) (b # bs @ [0]) (?w 0 e) = Some (Inr (), ?w b e)"
    by simp_all
  have "unreadchar (sint b) s = Some (Inr (sint b), (?w b e)\<lparr>heap := (heap (?w b e))(q \<mapsto> c\<lparr>ccdr := g_free s\<rparr>)\<rparr>)"
    using a(3) c(3) by (simp only: unreadchar_def mseq_def mbind_gets if_False not_le [symmetric] if_apply
      mbind_Inr c(1) get_Some [OF c(2)] get_Some [OF c(4)] c(5,6) s1 s2 list_update_code of_int_sint scast_id id_apply
      set_Some(3) [OF q(2)] ret_apply)
  with swap show ?thesis by blast
qed

interpretation strport: input_port "string_input N q" sint "string_cost N" for N q
proof
  show "0 \<le> string_cost N"
    by (simp add: string_cost_def)
  show "of_int (sint b) = b" "uint b < 128 \<Longrightarrow> sint b = uint b" "128 \<le> uint b \<Longrightarrow> sint b < 0 \<or> 128 \<le> sint b"
    for b :: byte
    by (simp_all add: sint_ascii sint_other)
next
  show "string_input N q True bs s \<Longrightarrow> string_input N q False bs s" for bs s
    by (auto simp: string_input_def)
next
  show "string_input N q j bs s \<Longrightarrow> grows n s t \<Longrightarrow> string_input N q j bs t" for j bs n s t
    by (rule string_input_grows)
next
  fix j and b :: byte and bs s assume a: "string_input N q j (b # bs) s" "ready (string_cost N) s"
  obtain c x where c: "current_input_port s = Some (Inr q, s)" "heap s q = Some c" "infd s < 0"
    "heap s (ccdr c) = Some x" "ccar x = int (length (b # bs))" "cell_bytes (ccdr x) s = Some (Inr ((b # bs) @ [0]), s)"
    using string_input_port [OF a(1)] by metis
  have len: "length bs + (if True then 1 else 0) \<le> N"
    using a(1) by (auto simp: string_input_def)
  obtain t r d where t: "make_string (bs @ [0]) (int (length bs)) s = Some (Inr r, t)"
    "\<exists>u. set_cdr q r t = Some (Inr (), u) \<and> string_input N q True bs u \<and> advances (string_cost N) s u"
    using fresh_string [OF a len] by metis
  then show "\<exists>t. readchar s = Some (Inr (sint b), t) \<and> string_input N q True bs t \<and> advances (string_cost N) s t"
    using c by (auto simp: readchar_def)
  have "string_input N q False (b # bs) s"
    using a(1) by (auto simp: string_input_def)
  moreover have "advances (string_cost N) s s"
    using a(2) by (simp add: ready_def string_cost_def)
  ultimately show "\<exists>t. peekchar s = Some (Inr (sint b), t) \<and> string_input N q False (b # bs) t \<and> advances (string_cost N) s t"
    using c by (auto simp: peekchar_def)
next
  fix j s assume a: "string_input N q j [] s"
  obtain c x where "current_input_port s = Some (Inr q, s)" "heap s q = Some c" "infd s < 0"
    "heap s (ccdr c) = Some x" "ccar x = int (length ([] :: byte list))"
    using string_input_port [OF a] by metis
  then show "readchar s = Some (Inr (- 1), s)" "peekchar s = Some (Inr (- 1), s)"
    by (simp_all add: readchar_def peekchar_def)
next
  show "string_input N q True bs s \<Longrightarrow> ready (string_cost N) s \<Longrightarrow> sint b \<noteq> - 1 \<Longrightarrow>
    \<exists>t. unreadchar (sint b) s = Some (Inr (sint b), t) \<and> string_input N q False (b # bs) t
      \<and> advances (string_cost N) s t" for bs s b
    by (rule unread_string)
next
  fix j bs s assume "string_input N q j bs s"
  then show "unreadchar (- 1) s = Some (Inr (- 1), s)"
    by (simp add: unreadchar_def string_input_def)
qed

end
