(* ===== verification/Mes_Tokens.thy ===== *)
theory Mes_Tokens
  imports Mes_Port Mes_Reader Mes_Write
begin

text \<open>
  What the reader makes of the text of a number, a name, a string or a character, on any port that
  meets the contract of \<open>input_port\<close>: it takes just the bytes of the text and allocates the object.
  \<open>readable\<close> says of which data the text that \<^verbatim>\<open>write\<close> puts out can be read back.
\<close>

section \<open>Texts\<close>

text \<open>The end of the input or a byte that ends a word.\<close>

definition delimited :: "byte list \<Rightarrow> bool" where
  "delimited bs \<longleftrightarrow> bs = [] \<or> hd bs \<in> {34, 59, 40, 41, 9, 10, 11, 12, 13, 32}"

definition digit :: "byte \<Rightarrow> bool" where
  "digit b \<longleftrightarrow> 48 \<le> uint b \<and> uint b \<le> 57"

definition word_byte :: "byte \<Rightarrow> bool" where
  "word_byte b \<longleftrightarrow> 33 \<le> uint b \<and> uint b \<le> 126 \<and> b \<notin> {34, 59, 40, 41, 92}"

text \<open>A name that is read as an identifier.\<close>

definition plain_name :: "byte list \<Rightarrow> bool" where
  "plain_name bs \<longleftrightarrow> bs \<noteq> [] \<and> (\<forall>b \<in> set bs. word_byte b) \<and> \<not> digit (hd bs) \<and> hd bs \<notin> {35, 39, 44, 46, 96}
     \<and> (hd bs \<in> {43, 45} \<longrightarrow> tl bs = [] \<or> \<not> digit (hd (tl bs)))"

fun readable :: "mst \<Rightarrow> (addr \<rightharpoonup> byte list) \<Rightarrow> datum \<Rightarrow> bool" where
  "readable s names (DNum n) \<longleftrightarrow> is_long n \<and> 24 \<le> MAX_STRING s"
| "readable s names (DChar v) \<longleftrightarrow> v = 0 \<or> 7 \<le> v \<and> v \<le> 13 \<or> 32 \<le> v \<and> v \<le> 127"
| "readable s names (DStr bs) \<longleftrightarrow> int (length bs) < MAX_STRING s \<and> int (length bs) < 2 ^ 61"
| "readable s names (DAtom a) \<longleftrightarrow> (\<exists>bs. names a = Some bs \<and>
     (a = cell_nil \<and> bs = [40, 41] \<or> a = cell_f \<and> bs = [35, 102] \<or> a = cell_t \<and> bs = [35, 116]
      \<or> plain_name bs \<and> interned s bs a \<and> int (length bs) < MAX_STRING s \<and> int (length bs) < 2 ^ 61
        \<and> (\<exists>c. lookup s a = Some c \<and> ctype c = TSYMBOL)))"
| "readable s names (DPair d e) \<longleftrightarrow> readable s names d \<and> readable s names e"
| "readable s names d \<longleftrightarrow> False"

section \<open>Digits\<close>

lemma string_cells_nonneg [simp]: "0 \<le> string_cells bs"
  using bytes_cells_nonneg [of "int (length bs) + 1"] by (simp add: string_cells_def)

definition digits_value :: "int \<Rightarrow> byte list \<Rightarrow> int" where
  "digits_value n ds = foldl (\<lambda>n b. to_long (to_long (n * 10) + uint b - 48)) n ds"

lemma digits_value_simps [simp]:
  "digits_value n [] = n"
  "digits_value n (b # ds) = digits_value (to_long (to_long (n * 10) + uint b - 48)) ds"
  "digits_value n (ds @ es) = digits_value (digits_value n ds) es"
  by (simp_all add: digits_value_def)

lemma to_long_digit: "to_long (to_long (to_long n * b) + d) = to_long (n * b + d)"
proof (rule to_long_cong)
  have "to_long (to_long n * b) mod 2 ^ 64 = n * b mod 2 ^ 64"
    by (metis to_long_mod_eq mod_mult_left_eq)
  then show "(to_long (to_long n * b) + d) mod 2 ^ 64 = (n * b + d) mod 2 ^ 64"
    by (metis mod_add_left_eq)
qed

lemma uint_digit_byte: "0 \<le> d \<Longrightarrow> d < 10 \<Longrightarrow> uint (digit_byte d) = 48 + d"
  using sint_ascii [of "digit_byte d"] digit_byte_sint [of d] sint_other [of "digit_byte d"] by (cases "uint (digit_byte d) < 128") simp_all

text \<open>The digits of a number, read back.\<close>

lemma digits_value_ntoab:
  "0 \<le> u \<Longrightarrow> digits_value 0 (ntoab_digits 10 u []) = to_long u"
proof (induction "nat u" arbitrary: u rule: less_induct)
  case less
  have d: "uint (digit_byte (u mod 10)) = 48 + u mod 10"
    by (rule uint_digit_byte) simp_all
  have u: "u = u div 10 * 10 + u mod 10" by simp
  show ?case
  proof (cases "u div 10 = 0")
    case True
    then have "u mod 10 = u" using u by linarith
    with True show ?thesis
      using ntoab_digits_step [of 10 u] less.prems d to_long_digit [of 0 10 u] by (simp add: algebra_simps to_long_id is_long_def)
  next
    case False
    have "0 < u" using False less.prems by (cases "u = 0") auto
    then have "digits_value 0 (ntoab_digits 10 (u div 10) []) = to_long (u div 10)"
      using less.hyps [of "u div 10"] by (simp add: int_div_less_self)
    then show ?thesis
      using False ntoab_digits_step [of 10 u] less.prems d to_long_digit [of "u div 10" 10 "u mod 10"]
      by (simp add: algebra_simps)
  qed
qed

lemma number_digits:
  assumes "0 \<le> u" "u \<le> 2 ^ 63"
  shows "\<forall>b \<in> set (ntoab_digits 10 u []). digit b" "length (ntoab_digits 10 u []) \<le> 22"
    "\<exists>d ds. ntoab_digits 10 u [] = d # ds"
proof -
  show "\<forall>b \<in> set (ntoab_digits 10 u []). digit b"
  proof
    fix b assume "b \<in> set (ntoab_digits 10 u [])"
    then obtain d where "0 \<le> d" "d < 10" "b = digit_byte d"
      using ntoab_digits_no_null [of 10 u] assms(1) by auto
    then show "digit b" using uint_digit_byte [of d] by (simp add: digit_def)
  qed
  show "length (ntoab_digits 10 u []) \<le> 22"
    by (rule ntoab_digits_length) (use assms in simp_all)
  show "\<exists>d ds. ntoab_digits 10 u [] = d # ds"
    using ntoab_digits_head [of 10 u] assms(1) by auto
qed

section \<open>Names as symbols\<close>

lemma word_byte_ascii: "word_byte b \<Longrightarrow> 0 \<le> sint b" "word_byte b \<Longrightarrow> b \<noteq> 0"
proof -
  assume "word_byte b"
  then have "33 \<le> uint b" "uint b \<le> 126" unfolding word_byte_def by blast+
  then show "0 \<le> sint b" "b \<noteq> 0" using sint_ascii [of b] by auto
qed

lemma word_symbol_name:
  assumes "\<forall>b \<in> set ws. word_byte b" "int (length ws) < MAX_STRING s" "int (length ws) < 2 ^ 61"
  shows "ascii ws" "symbol_name s ws"
proof -
  show "ascii ws"
    unfolding ascii_def using assms(1) word_byte_ascii(1) by blast
  moreover have "0 \<notin> set ws"
    using assms(1) word_byte_ascii(2) by blast
  ultimately show "symbol_name s ws"
    using assms(2,3) by (simp add: symbol_name_def)
qed

section \<open>Steps of a port\<close>

context input_port
begin

lemma code_eq:
  assumes "0 \<le> k" "k < 128"
  shows "code b = k \<longleftrightarrow> b = of_int k"
proof (cases "uint b < 128")
  case True
  have "uint b = k \<longleftrightarrow> b = of_int k"
    using assms by (auto simp: unsigned_of_int take_bit_int_eq_self)
  with True show ?thesis by (simp add: code_ascii)
next
  case False
  then have "code b < 0 \<or> 128 \<le> code b" by (intro code_other) simp
  moreover have "b \<noteq> of_int k"
    using False assms by (auto simp: unsigned_of_int take_bit_int_eq_self)
  ultimately show ?thesis using assms by auto
qed

lemma code_codes [simp]:
  "numeral k < (128 :: int) \<Longrightarrow> code b = numeral k \<longleftrightarrow> b = numeral k" "code b = 0 \<longleftrightarrow> b = 0"
  using code_eq [of "numeral k" b] code_eq [of 0 b] by simp_all

lemma code_between:
  assumes "0 \<le> k" "m < 128"
  shows "k \<le> code b \<and> code b \<le> m \<longleftrightarrow> k \<le> uint b \<and> uint b \<le> m"
  using code_ascii [of b] code_other [of b] assms by (cases "uint b < 128") auto

lemma code_digit [simp]: "isdigit (code b) \<longleftrightarrow> digit b"
  unfolding isdigit_def digit_def using code_between [of 48 57 b] by auto

lemma code_delimited:
  assumes "delimited (b # bs)"
  shows "reader_end_of_word_p (code b)" "code b \<noteq> - 1" "\<not> digit b" "\<not> name_char (code b)"
    "\<not> (48 \<le> code b \<and> code b \<le> 57)" "\<not> (97 \<le> code b \<and> code b \<le> 102)" "\<not> (48 \<le> code b \<and> code b \<le> 55)"
  using assms by (auto simp: delimited_def reader_end_of_word_p_def isspace_def code_ascii digit_def name_char_def)

lemma code_word:
  assumes "word_byte b"
  shows "\<not> reader_end_of_word_p (code b)" "code b = uint b" "code b \<noteq> - 1"
proof -
  show c: "code b = uint b"
    using assms by (simp add: word_byte_def code_ascii)
  show "code b \<noteq> - 1"
    unfolding c using assms by (auto simp: word_byte_def)
  then show "\<not> reader_end_of_word_p (code b)"
    using assms by (auto simp: word_byte_def reader_end_of_word_p_def isspace_def)
qed

lemma cost_mult [simp]: "0 \<le> cost * int n" "0 \<le> int n * cost"
  using cost_nonneg by simp_all

lemma read_step:
  assumes "port_at j (b # bs) s" "ready (cost + n) s" "0 \<le> n"
  obtains t where "readchar s = Some (Inr (code b), t)" "port_at True bs t" "advances cost s t" "ready n t"
  using read [OF assms(1) ready_mono [OF assms(2)]] assms(3) advances_ready [OF _ assms(2)] by auto

lemma peek_step:
  assumes "port_at j (b # bs) s" "ready (cost + n) s" "0 \<le> n"
  obtains t where "peekchar s = Some (Inr (code b), t)" "port_at False (b # bs) t" "advances cost s t" "ready n t"
  using peek [OF assms(1) ready_mono [OF assms(2)]] assms(3) advances_ready [OF _ assms(2)] by auto

text \<open>The byte that is looked at, or the end.\<close>

definition front :: "byte list \<Rightarrow> int" where
  "front bs = (case bs of [] \<Rightarrow> - 1 | b # _ \<Rightarrow> code b)"

lemma front_simps [simp]: "front [] = - 1" "front (b # bs) = code b"
  by (simp_all add: front_def)

lemma peek_front:
  assumes "port_at j bs s" "ready (cost + n) s" "0 \<le> n"
  obtains t where "peekchar s = Some (Inr (front bs), t)" "port_at False bs t" "advances cost s t" "ready n t"
proof (cases bs)
  case Nil
  have "port_at False [] s"
    using assms(1) Nil by (cases j) (auto intro: weaken)
  moreover have "advances cost s s"
    using assms(2) cost_nonneg by (simp add: ready_def)
  ultimately show ?thesis
    using that [of s] peek_end [of j s] assms(1,2) Nil cost_nonneg ready_mono [OF assms(2), of n] by simp
next
  case (Cons b bs')
  then show ?thesis
    using peek_step [of j b bs' s n] assms that by auto
qed

text \<open>\<open>holding j c bs s\<close>: \<open>c\<close> has been read off the front of \<open>bs\<close>, or is the end of the input.\<close>

definition holding :: "bool \<Rightarrow> int \<Rightarrow> byte list \<Rightarrow> mst \<Rightarrow> bool" where
  "holding j c bs s \<longleftrightarrow> c = front bs \<and> port_at (j \<and> bs \<noteq> []) (tl bs) s"

lemma weaken_any: "port_at j bs s \<Longrightarrow> port_at False bs s"
  by (cases j) (auto intro: weaken)

lemma cost_refl: "ready (cost + n) s \<Longrightarrow> advances cost s s"
  using cost_nonneg by (simp add: ready_def)

lemma ready_cost: "ready (cost + n) s \<Longrightarrow> ready n s"
  by (erule ready_mono) (use cost_nonneg in simp)

lemma take_front:
  assumes "port_at j bs s" "ready (cost + n) s" "0 \<le> n"
  obtains t where "readchar s = Some (Inr (front bs), t)" "holding True (front bs) bs t" "advances cost s t" "ready n t"
proof (cases bs)
  case Nil
  then show ?thesis
    using that [of s] assms read_end weaken_any cost_refl ready_cost by (simp add: holding_def)
next
  case (Cons b bs')
  then show ?thesis
    using read_step [of j b bs' s n] assms that by (auto simp: holding_def)
qed

lemma holding_next:
  assumes "holding j c bs s" "ready (cost + n) s" "0 \<le> n"
  obtains t where "readchar s = Some (Inr (front (tl bs)), t)" "holding True (front (tl bs)) (tl bs) t"
    "advances cost s t" "ready n t"
  using assms by (auto simp: holding_def elim: take_front)

lemma holding_grows: "holding j c bs s \<Longrightarrow> grows n s t \<Longrightarrow> holding j c bs t"
  by (auto simp: holding_def intro: port_grows)

text \<open>What is held can be put back.\<close>

lemma put_back:
  assumes "holding True c bs s" "ready (cost + n) s" "0 \<le> n" "bs \<noteq> [] \<Longrightarrow> c \<noteq> - 1"
  obtains t where "unreadchar c s = Some (Inr c, t)" "port_at False bs t" "advances cost s t" "ready n t"
proof (cases bs)
  case Nil
  then show ?thesis
    using that [of s] assms(1,2) unread_end cost_refl ready_cost by (simp add: holding_def)
next
  case (Cons b bs')
  then have c: "c = code b" "port_at True bs' s" "code b \<noteq> - 1"
    using assms(1,4) by (auto simp: holding_def)
  obtain t where "unreadchar (code b) s = Some (Inr (code b), t)" "port_at False (b # bs') t" "advances cost s t"
    using unread [OF c(2) ready_mono [OF assms(2)] c(3)] assms(3) by auto
  then show ?thesis
    using that advances_ready [OF _ assms(2)] Cons c(1) by simp
qed

section \<open>Numbers\<close>

lemma digit_code: "digit b \<Longrightarrow> code b = uint b"
  by (simp add: digit_def code_ascii)

lemma front_not_digit: "(bs = [] \<or> \<not> digit (hd bs)) \<Longrightarrow> \<not> isdigit (front bs)"
  by (cases bs) (auto simp: isdigit_def [of "- 1"])

lemma read_digits_ok:
  assumes "holding j c (ds @ rest) s" "\<forall>b \<in> set ds. digit b" "rest = [] \<or> \<not> digit (hd rest)"
    and "ready (cost * int (length ds) + n) s" "0 \<le> n" "int (length buf + length ds) \<le> MAX_STRING s"
  shows "\<exists>t. read_digits c m buf s = Some (Inr (front rest, digits_value m ds, buf @ ds), t)
    \<and> holding (j \<or> ds \<noteq> []) (front rest) rest t \<and> advances (cost * int (length ds)) s t \<and> ready n t"
  using assms
proof (induction ds arbitrary: j c m buf s)
  case Nil
  then have "c = front rest" "\<not> isdigit (front rest)"
    using front_not_digit by (auto simp: holding_def)
  then show ?case
    using Nil.prems by (subst read_digits.simps) (auto simp: ready_def)
next
  case (Cons b ds)
  have c: "c = code b" "digit b" "isdigit (code b)"
    using Cons.prems(1,2) by (simp_all add: holding_def)
  have rd: "ready (cost + (cost * int (length ds) + n)) s"
    using Cons.prems(4) by (simp add: algebra_simps)
  obtain t where t: "readchar s = Some (Inr (front (ds @ rest)), t)" "holding True (front (ds @ rest)) (ds @ rest) t"
    "advances cost s t" "ready (cost * int (length ds) + n) t"
    using holding_next [OF Cons.prems(1) rd] Cons.prems(5) by auto
  have "int (length (buf @ [b]) + length ds) \<le> MAX_STRING t"
    using Cons.prems(6) advancesD(6) [OF t(3)] by simp
  then obtain u where u: "read_digits (front (ds @ rest)) (to_long (to_long (m * 10) + uint b - 48)) (buf @ [b]) t
      = Some (Inr (front rest, digits_value m (b # ds), (buf @ [b]) @ ds), u)"
    "holding True (front rest) rest u" "advances (cost * int (length ds)) t u" "ready n u"
    using Cons.IH [OF t(2) _ Cons.prems(3) t(4) Cons.prems(5)] Cons.prems(2) by fastforce
  have "read_digits c m buf s = Some (Inr (front rest, digits_value m (b # ds), buf @ b # ds), u)"
    using c t(1) u(1) Cons.prems(6) digit_code [OF c(2)] code_byte [of b]
    by (subst read_digits.simps) (simp add: in_g_buf_def)
  then show ?case
    using u(2,4) advances_trans [OF t(3) u(3)] by (simp add: algebra_simps)
qed

lemma front_delimited:
  assumes "delimited bs"
  shows "reader_end_of_word_p (front bs)" "bs \<noteq> [] \<Longrightarrow> front bs \<noteq> - 1" "bs = [] \<or> \<not> digit (hd bs)"
    "\<not> isdigit (front bs)"
  using assms code_delimited by (cases bs; auto simp: reader_end_of_word_p_def isdigit_def [of "- 1"])+

lemma advances_number:
  assumes "arena_ok s" "room 1 s"
  shows "make_number n s = Some (Inr (g_free s), push_cell (mk_cell TNUMBER 0 n) s)"
    "repr (push_cell (mk_cell TNUMBER 0 n) s) (DNum n) (g_free s)"
  using assms by simp_all

text \<open>The digits of a number and what follows, up to the new number cell.\<close>

lemma finish_number:
  assumes h: "holding j c (ds @ rest) s" and ds: "\<forall>b \<in> set ds. digit b" "ds \<noteq> []" "int (length ds) \<le> MAX_STRING s"
    and del: "delimited rest" and rdy: "ready (cost * int (length ds) + cost + 1 + m) s" "0 \<le> m"
  shows "\<exists>p t. mbind (read_digits c 0 []) (\<lambda>(c, n, buf).
       if reader_end_of_word_p c then mseq (unreadchar c) (make_number (f n)) else g c n buf) s = Some (Inr p, t)
    \<and> repr t (DNum (f (digits_value 0 ds))) p
    \<and> port_at False rest t \<and> advances (cost * int (length ds) + cost + 1) s t"
proof -
  note fd = front_delimited [OF del]
  obtain t where t: "read_digits c 0 [] s = Some (Inr (front rest, digits_value 0 ds, ds), t)"
    "holding True (front rest) rest t" "advances (cost * int (length ds)) s t" "ready (cost + (1 + m)) t"
    using read_digits_ok [OF h ds(1) fd(3), of "cost + (1 + m)" "[]" 0] rdy ds(2,3) cost_nonneg
    by (auto simp: add.assoc)
  obtain u where u: "unreadchar (front rest) t = Some (Inr (front rest), u)" "port_at False rest u"
    "advances cost t u" "ready (1 + m) u"
    by (rule put_back [OF t(2,4)]) (use fd(2) rdy(2) in auto)
  let ?v = "push_cell (mk_cell TNUMBER 0 (f (digits_value 0 ds))) u"
  have a: "arena_ok u" "room 1 u"
    using u(4) rdy(2) by (auto simp: ready_def room_def)
  have "mbind (read_digits c 0 []) (\<lambda>(c, n, buf).
       if reader_end_of_word_p c then mseq (unreadchar c) (make_number (f n)) else g c n buf) s = Some (Inr (g_free u), ?v)"
    using t(1) u(1) fd(1) advances_number(1) [OF a] by simp
  moreover have "advances (cost * int (length ds) + cost + 1) s ?v"
    using advances_trans [OF advances_trans [OF t(3) u(3)] grows_advances [OF grows_push_cell [OF a(1)]]] by simp
  ultimately show ?thesis
    using advances_number(2) [OF a] port_grows [OF u(2) grows_push_cell [OF a(1)]] by blast
qed

text \<open>A number, of which the first byte is in hand.\<close>

lemma read_number_ok:
  assumes n: "is_long n" "24 \<le> MAX_STRING s" and tx: "number_text n = b # bs" and del: "delimited rest"
    and port: "port_at j (bs @ rest) s" and rdy: "ready (cost * int (length bs) + 4 * cost + 1) s"
  shows "\<exists>p t. reader_read_identifier_or_number (code b) s = Some (Inr p, t) \<and> repr t (DNum n) p
    \<and> port_at False rest t \<and> advances (cost * int (length bs) + 4 * cost + 1) s t"
proof (cases "n < 0")
  case False
  let ?ds = "ntoab_digits 10 n []"
  have u: "0 \<le> n" "n \<le> 2 ^ 63" using False n(1) by (simp_all add: is_long_def)
  have ds: "?ds = b # bs" using tx False by (simp add: number_text_def)
  have b: "digit b" "b \<noteq> 43" "b \<noteq> 45"
    using number_digits(1) [OF u] ds by (auto simp: digit_def)
  have h: "holding j (code b) (?ds @ rest) s"
    using port ds weaken_any by (simp add: holding_def)
  have r1: "ready (cost * int (length ?ds) + cost + 1 + 2 * cost) s"
    using rdy ds by (simp add: algebra_simps)
  have ne: "?ds \<noteq> []" and pos: "0 \<le> 2 * cost"
    using ds cost_nonneg by simp_all
  have ms: "int (length ?ds) \<le> MAX_STRING s"
    using number_digits(2) [OF u] n(2) by simp
  obtain p t where t: "mbind (read_digits (code b) 0 []) (\<lambda>(c, n, buf).
       if reader_end_of_word_p c then mseq (unreadchar c) (make_number (if False then to_long (0 - n) else n))
       else mbind (read_word c buf) (\<lambda>(c', buf'). mseq (unreadchar c') (mseq (in_g_buf (int (length buf')))
          (cstring_to_symbol (buf' @ [0]))))) s = Some (Inr p, t)"
    "repr t (DNum (if False then to_long (0 - digits_value 0 ?ds) else digits_value 0 ?ds)) p"
    "port_at False rest t" "advances (cost * int (length ?ds) + cost + 1) s t"
    using finish_number [OF h number_digits(1) [OF u] ne ms del r1 pos, of "\<lambda>n. if False then to_long (0 - n) else n"
      "\<lambda>c n buf. mbind (read_word c buf) (\<lambda>(c', buf'). mseq (unreadchar c') (mseq (in_g_buf (int (length buf')))
          (cstring_to_symbol (buf' @ [0]))))"] by blast
  have "reader_read_identifier_or_number (code b) s = Some (Inr p, t)"
    using t(1) b by (simp add: reader_read_identifier_or_number_def read_sign_def)
  moreover have "digits_value 0 ?ds = n"
    using digits_value_ntoab [OF u(1)] n(1) by (simp add: to_long_id)
  moreover have "advances (cost * int (length bs) + 4 * cost + 1) s t"
    by (rule advances_mono [OF t(4)]) (use ds cost_nonneg in \<open>simp add: algebra_simps\<close>)
  ultimately show ?thesis using t(2,3) by auto
next
  case True
  let ?ds = "ntoab_digits 10 (- n) []"
  have u: "0 \<le> - n" "- n \<le> 2 ^ 63" using True n(1) by (simp_all add: is_long_def)
  have ds: "b = 45" "bs = ?ds" using tx True by (simp_all add: number_text_def)
  obtain d ds' where d: "?ds = d # ds'" using number_digits(3) [OF u] by auto
  have dd: "digit d" using number_digits(1) [OF u] d by simp
  have r1: "ready (cost + (cost + (cost * int (length ?ds) + cost + 1 + cost))) s"
    using rdy ds by (simp add: algebra_simps)
  obtain t where t: "peekchar s = Some (Inr (code d), t)" "port_at False (d # ds' @ rest) t" "advances cost s t"
    "ready (cost + (cost * int (length ?ds) + cost + 1 + cost)) t"
    by (rule peek_step [of j d "ds' @ rest" s, OF _ r1]) (use port ds d cost_nonneg in auto)
  obtain v where v: "readchar t = Some (Inr (front (?ds @ rest)), v)" "holding True (front (?ds @ rest)) (?ds @ rest) v"
    "advances cost t v" "ready (cost * int (length ?ds) + cost + 1 + cost) v"
    by (rule take_front [of False "?ds @ rest" t, OF _ t(4)]) (use t(2) d cost_nonneg in auto)
  have ne: "?ds \<noteq> []"
    using d by simp
  have ms: "int (length ?ds) \<le> MAX_STRING v"
    using number_digits(2) [OF u] n(2) advancesD(6) [OF t(3)] advancesD(6) [OF v(3)] by simp
  obtain p w where w: "mbind (read_digits (front (?ds @ rest)) 0 []) (\<lambda>(c, n, buf).
       if reader_end_of_word_p c then mseq (unreadchar c) (make_number (if True then to_long (0 - n) else n))
       else mbind (read_word c buf) (\<lambda>(c', buf'). mseq (unreadchar c') (mseq (in_g_buf (int (length buf')))
          (cstring_to_symbol (buf' @ [0]))))) v = Some (Inr p, w)"
    "repr w (DNum (if True then to_long (0 - digits_value 0 ?ds) else digits_value 0 ?ds)) p" "port_at False rest w"
    "advances (cost * int (length ?ds) + cost + 1) v w"
    using finish_number [OF v(2) number_digits(1) [OF u] ne ms del v(4) cost_nonneg, of "\<lambda>n. if True then to_long (0 - n) else n"
      "\<lambda>c n buf. mbind (read_word c buf) (\<lambda>(c', buf'). mseq (unreadchar c') (mseq (in_g_buf (int (length buf')))
          (cstring_to_symbol (buf' @ [0]))))"] by blast
  have "reader_read_identifier_or_number (code b) s = Some (Inr p, w)"
    using w(1) ds(1) t(1) v(1) dd d by (simp add: reader_read_identifier_or_number_def read_sign_def)
  moreover have "to_long (0 - digits_value 0 ?ds) = n"
  proof -
    have "to_long (0 - to_long (- n)) = to_long n"
      by (rule to_long_cong) (metis add.inverse_inverse diff_0 mod_minus_eq to_long_mod_eq)
    then show ?thesis
      using digits_value_ntoab [OF u(1)] n(1) by (simp add: to_long_id)
  qed
  moreover have "advances (cost * int (length bs) + 4 * cost + 1) s w"
    using advances_trans [OF advances_trans [OF t(3) v(3)] w(4)] ds cost_nonneg
    by (auto elim!: advances_mono simp: algebra_simps)
  ultimately show ?thesis using w(2,3) by auto
qed

section \<open>Names\<close>

lemma read_word_ok:
  assumes "holding j c (ws @ rest) s" "\<forall>b \<in> set ws. word_byte b" "delimited rest"
    and "ready (cost * int (length ws) + n) s" "0 \<le> n" "int (length buf + length ws) \<le> MAX_STRING s"
  shows "\<exists>t. read_word c buf s = Some (Inr (front rest, buf @ ws), t)
    \<and> holding (j \<or> ws \<noteq> []) (front rest) rest t \<and> advances (cost * int (length ws)) s t \<and> ready n t"
  using assms
proof (induction ws arbitrary: j c buf s)
  case Nil
  then have "c = front rest" "reader_end_of_word_p (front rest)"
    using front_delimited(1) by (auto simp: holding_def)
  then show ?case
    using Nil.prems by (subst read_word.simps) (auto simp: ready_def)
next
  case (Cons b ws)
  have c: "c = code b" "word_byte b" "\<not> reader_end_of_word_p (code b)"
    using Cons.prems(1,2) code_word by (simp_all add: holding_def)
  have rd: "ready (cost + (cost * int (length ws) + n)) s"
    using Cons.prems(4) by (simp add: algebra_simps)
  obtain t where t: "readchar s = Some (Inr (front (ws @ rest)), t)" "holding True (front (ws @ rest)) (ws @ rest) t"
    "advances cost s t" "ready (cost * int (length ws) + n) t"
    using holding_next [OF Cons.prems(1) rd] Cons.prems(5) by auto
  have "int (length (buf @ [b]) + length ws) \<le> MAX_STRING t"
    using Cons.prems(6) advancesD(6) [OF t(3)] by simp
  then obtain u where u: "read_word (front (ws @ rest)) (buf @ [b]) t = Some (Inr (front rest, (buf @ [b]) @ ws), u)"
    "holding True (front rest) rest u" "advances (cost * int (length ws)) t u" "ready n u"
    using Cons.IH [OF t(2) _ Cons.prems(3) t(4) Cons.prems(5)] Cons.prems(2) by fastforce
  have "read_word c buf s = Some (Inr (front rest, buf @ b # ws), u)"
    using c t(1) u(1) Cons.prems(6) code_byte [of b]
    by (subst read_word.simps) (simp add: in_g_buf_def)
  then show ?case
    using u(2,4) advances_trans [OF t(3) u(3)] by (simp add: algebra_simps)
qed

text \<open>A sign that no digit follows is part of a name.\<close>

lemma read_sign_name:
  assumes "port_at j bs s" "ready (cost + n) s" "0 \<le> n" "code b = k \<Longrightarrow> bs = [] \<or> \<not> digit (hd bs)"
  obtains t where "read_sign k (code b) s = Some (Inr (False, code b), t)" "port_at False bs t" "advances cost s t" "ready n t"
proof (cases "code b = k")
  case True
  obtain t where "peekchar s = Some (Inr (front bs), t)" "port_at False bs t" "advances cost s t" "ready n t"
    using peek_front [OF assms(1-3)] .
  then show ?thesis
    using that [of t] True front_not_digit [OF assms(4) [OF True]] by (simp add: read_sign_def)
next
  case False
  then show ?thesis
    using that [of s] assms(1,2) weaken_any cost_refl ready_cost by (simp add: read_sign_def)
qed

text \<open>The text of a name, of which the first byte is in hand, gives the symbol of that name.\<close>

lemma read_name_ok:
  assumes pl: "plain_name (b # bs)" and del: "delimited rest"
    and int: "interned s (b # bs) a" and len: "int (length (b # bs)) < MAX_STRING s" "int (length (b # bs)) < 2 ^ 61"
    and port: "port_at j (bs @ rest) s"
    and rdy: "ready (cost * int (length bs) + 4 * cost + string_cells (b # bs) + 1) s"
  shows "\<exists>t. reader_read_identifier_or_number (code b) s = Some (Inr a, t) \<and> port_at False rest t
    \<and> advances (cost * int (length bs) + 4 * cost + string_cells (b # bs) + 1) s t"
proof -
  let ?ws = "b # bs" and ?k = "string_cells (b # bs) + 1"
  have wb: "\<forall>b \<in> set ?ws. word_byte b" "\<not> digit b" "b = 43 \<or> b = 45 \<Longrightarrow> bs @ rest = [] \<or> \<not> digit (hd (bs @ rest))"
    using pl front_delimited(3) [OF del] by (cases bs; auto simp: plain_name_def)+
  note cb = code_word [OF bspec [OF wb(1), of b, simplified]]
  have k: "0 \<le> ?k"
    using string_cells_nonneg [of ?ws] by simp
  have r1: "ready (cost + (cost + (cost * int (length ?ws) + (cost + ?k)))) s"
    using rdy by (simp add: algebra_simps)
  obtain t where t: "read_sign 43 (code b) s = Some (Inr (False, code b), t)" "port_at False (bs @ rest) t"
    "advances cost s t" "ready (cost + (cost * int (length ?ws) + (cost + ?k))) t"
    by (rule read_sign_name [OF port r1, of b 43]) (use wb(3) k cost_nonneg in auto)
  obtain u where u: "read_sign 45 (code b) t = Some (Inr (False, code b), u)" "port_at False (bs @ rest) u"
    "advances cost t u" "ready (cost * int (length ?ws) + (cost + ?k)) u"
    by (rule read_sign_name [OF t(2,4), of b 45]) (use wb(3) k cost_nonneg in auto)
  have d: "read_digits (code b) 0 [] u = Some (Inr (code b, 0, []), u)"
    using wb(2) by (subst read_digits.simps) simp
  have h: "holding False (code b) (?ws @ rest) u"
    using u(2) by (simp add: holding_def)
  have ms: "MAX_STRING u = MAX_STRING s"
    using advancesD(6) [OF t(3)] advancesD(6) [OF u(3)] by simp
  obtain v where v: "read_word (code b) [] u = Some (Inr (front rest, ?ws), v)" "holding True (front rest) rest v"
    "advances (cost * int (length ?ws)) u v" "ready (cost + ?k) v"
    using read_word_ok [OF h wb(1) del u(4), of "[]"] k cost_nonneg len ms by auto
  obtain w where w: "unreadchar (front rest) v = Some (Inr (front rest), w)" "port_at False rest w"
    "advances cost v w" "ready ?k w"
    by (rule put_back [OF v(2,4)]) (use front_delimited(2) [OF del] k in auto)
  have adv: "advances (cost + cost + cost * int (length ?ws) + cost) s w"
    by (rule advances_trans [OF advances_trans [OF advances_trans [OF t(3) u(3)] v(3)] w(3)])
  have nm: "symbol_name w ?ws" "ascii ?ws"
    using word_symbol_name [OF wb(1), of w] len advancesD(6) [OF adv] by simp_all
  obtain x where x: "cstring_to_symbol (?ws @ [0]) w = Some (Inr a, x)" "grows ?k w x"
    using cstring_to_symbol_found [OF advances_interned [OF int adv nm(2)] nm(1) w(4)] by auto
  have "reader_read_identifier_or_number (code b) s = Some (Inr a, x)"
    using t(1) u(1) d cb(1) v(1) w(1) x(1) len(1) advancesD(6) [OF adv]
    by (simp add: reader_read_identifier_or_number_def in_g_buf_def)
  moreover have "advances (cost * int (length bs) + 4 * cost + ?k) s x"
    using advances_trans [OF adv grows_advances [OF x(2)]] by (simp add: algebra_simps)
  ultimately show ?thesis
    using port_grows [OF w(2) x(2)] by (auto simp: add.assoc)
qed

lemma code_numeral [simp]: "numeral k < (128 :: int) \<Longrightarrow> code (numeral k) = numeral k"
  by simp

section \<open>Strings\<close>

lemma read_escape_ok:
  "(\<exists>e. escape b = [92, e] \<and> read_escape (code e) = ret (uint b)) \<or> (escape b = [b] \<and> b \<noteq> 92 \<and> b \<noteq> 34)"
  by (simp add: escape_def read_escape_def)

text \<open>The text of a string up to the closing quote, of which the opening quote was read.\<close>

lemma read_string_chars_ok:
  assumes "port_at j (concat (map escape bs) @ 34 # rest) s" "int (length buf + length bs) < MAX_STRING s"
    and "ready (cost * int (length (concat (map escape bs))) + cost + n) s" "0 \<le> n"
  shows "\<exists>t. read_string_chars buf s = Some (Inr (buf @ bs), t) \<and> port_at True rest t
    \<and> advances (cost * int (length (concat (map escape bs))) + cost) s t \<and> ready n t"
  using assms
proof (induction bs arbitrary: j buf s)
  case Nil
  then obtain t where "readchar s = Some (Inr (code 34), t)" "port_at True rest t" "advances cost s t" "ready n t"
    using read_step [of j 34 rest s n] by auto
  then show ?case
    using Nil.prems(2) advancesD(6) [of cost s t] by (subst read_string_chars.simps) (simp add: in_g_buf_def)
next
  case (Cons b bs)
  let ?es = "concat (map escape bs)"
  let ?more = "cost * int (length ?es) + cost + n"
  have m0: "0 \<le> ?more" using Cons.prems(4) cost_nonneg by simp
  obtain t c where t: "mbind readchar (\<lambda>c. if c = 34 then f c else mbind (if c = 92 then mbind readchar read_escape else ret c) g) s = g c t"
    "of_int c = b" "port_at True (?es @ 34 # rest) t" "advances (cost * int (length (escape b))) s t" "ready ?more t"
    for f :: "int \<Rightarrow> byte list mes" and g
  proof (cases "escape b = [b] \<and> b \<noteq> 92 \<and> b \<noteq> 34")
    case True
    then have "port_at j (b # ?es @ 34 # rest) s" "ready (cost + ?more) s"
      using Cons.prems(1,3) by (simp_all add: algebra_simps)
    then obtain t where "readchar s = Some (Inr (code b), t)" "port_at True (?es @ 34 # rest) t" "advances cost s t" "ready ?more t"
      using read_step m0 by metis
    then show ?thesis
      using True that [of "code b" t] code_byte [of b] by simp
  next
    case False
    then obtain e where e: "escape b = [92, e]" "read_escape (code e) = ret (uint b)"
      using read_escape_ok [of b] by blast
    then have "port_at j (92 # e # ?es @ 34 # rest) s" "ready (cost + (cost + ?more)) s"
      using Cons.prems(1,3) by (simp_all add: algebra_simps)
    then obtain t where t: "readchar s = Some (Inr (code 92), t)" "port_at True (e # ?es @ 34 # rest) t" "advances cost s t"
      "ready (cost + ?more) t"
      using read_step m0 cost_nonneg by (metis add_nonneg_nonneg)
    then obtain u where u: "readchar t = Some (Inr (code e), u)" "port_at True (?es @ 34 # rest) u" "advances cost t u"
      "ready ?more u"
      using read_step m0 by metis
    have "code 92 = 92" by simp
    then show ?thesis
      using that [of "uint b" u] t(1) u e advances_trans [OF t(3) u(3)] by (simp add: algebra_simps)
  qed
  have ms: "MAX_STRING t = MAX_STRING s"
    using advancesD(6) [OF t(4)] .
  obtain u where u: "read_string_chars (buf @ [b]) t = Some (Inr ((buf @ [b]) @ bs), u)" "port_at True rest u"
    "advances (cost * int (length ?es) + cost) t u" "ready n u"
    using Cons.IH [OF t(3) _ t(5) Cons.prems(4), of "buf @ [b]"] Cons.prems(2) ms by auto
  have "read_string_chars buf s = Some (Inr (buf @ b # bs), u)"
    using Cons.prems(2) t(1,2) u(1) ms by (subst read_string_chars.simps) (simp add: in_g_buf_def)
  then show ?case
    using u(2,4) advances_trans [OF t(4) u(3)] by (simp add: algebra_simps)
qed

text \<open>\<open>reads f rest n d s\<close>: \<open>f\<close> gives the datum \<open>d\<close>, for at most \<open>n\<close> cells, and leaves \<open>rest\<close>.\<close>

definition reads :: "addr mes \<Rightarrow> byte list \<Rightarrow> int \<Rightarrow> datum \<Rightarrow> mst \<Rightarrow> bool" where
  "reads f rest n d s \<longleftrightarrow> (\<exists>p t. f s = Some (Inr p, t) \<and> repr t d p \<and> port_at False rest t \<and> advances n s t)"

lemma reads_mono: "reads f rest n d s \<Longrightarrow> n \<le> m \<Longrightarrow> reads f rest m d s"
  unfolding reads_def using advances_mono by blast

lemma reads_after:
  "f s = Some (Inr x, t) \<Longrightarrow> advances n s t \<Longrightarrow> reads (g x) rest m d t \<Longrightarrow> reads (mbind f g) rest (n + m) d s"
  unfolding reads_def using advances_trans by fastforce

lemma read_string_ok:
  assumes "port_at j (concat (map escape bs) @ 34 # rest) s" "int (length bs) < MAX_STRING s" "int (length bs) < 2 ^ 61"
    and "ready (cost * int (length (concat (map escape bs))) + cost + string_cells bs) s"
  shows "reads reader_read_string rest (cost * int (length (concat (map escape bs))) + cost + string_cells bs) (DStr bs) s"
proof -
  obtain t where t: "read_string_chars [] s = Some (Inr bs, t)" "port_at True rest t"
    "advances (cost * int (length (concat (map escape bs))) + cost) s t" "ready (string_cells bs) t"
    using read_string_chars_ok [OF assms(1) _ assms(4), of "[]"] assms(2) string_cells_nonneg by auto
  obtain u where u: "make_string (bs @ [0]) (int (length bs)) t = Some (Inr (g_free t), u)"
    "grows (string_cells bs) t u" "text_at u TSTRING bs (g_free t)"
    using make_string_text [of t bs] t(4) assms(2,3) advancesD(6) [OF t(3)] by (auto simp: ready_def)
  have "port_at False rest u"
    using weaken [OF port_grows [OF t(2) u(2)]] .
  then show ?thesis
    using t(1) u(1,3) advances_trans [OF t(3) grows_advances [OF u(2)]]
    by (auto simp: reads_def reader_read_string_def)
qed

section \<open>Characters\<close>

lemma code_name_char: "name_char (code b) \<longleftrightarrow> (97 \<le> uint b \<and> uint b \<le> 122) \<or> b = 42"
  using code_between [of 97 122 b] by (auto simp: name_char_def)

lemma front_name_char: "delimited rest \<Longrightarrow> \<not> name_char (front rest)"
  using code_delimited(4) by (cases rest) (auto simp: name_char_def)

lemma read_char_name_ok:
  assumes "port_at j (ws @ rest) s" "\<forall>b \<in> set ws. name_char (code b)" "delimited rest"
    and "ready (2 * cost * int (length ws) + n) s" "0 \<le> n" "length buf + length ws < 10"
  shows "\<exists>t. read_char_name (front (ws @ rest)) buf s = Some (Inr (buf @ ws), t) \<and> port_at False rest t
    \<and> advances (2 * cost * int (length ws)) s t \<and> ready n t"
  using assms
proof (induction ws arbitrary: j buf s)
  case Nil
  then show ?case
    using front_name_char weaken_any by (subst read_char_name.simps) (auto simp: in_char_buf_def ready_def)
next
  case (Cons b ws)
  let ?more = "2 * cost * int (length ws) + n"
  have m0: "0 \<le> ?more" using Cons.prems(5) cost_nonneg by simp
  have r: "ready (cost + (cost + ?more)) s"
    using Cons.prems(4) by (simp add: algebra_simps)
  obtain t where t: "readchar s = Some (Inr (code b), t)" "port_at True (ws @ rest) t" "advances cost s t"
    "ready (cost + ?more) t"
    using read_step [of j b "ws @ rest" s, OF _ r] Cons.prems(1) m0 cost_nonneg by auto
  obtain u where u: "peekchar t = Some (Inr (front (ws @ rest)), u)" "port_at False (ws @ rest) u" "advances cost t u"
    "ready ?more u"
    using peek_front [OF t(2,4) m0] .
  obtain v where v: "read_char_name (front (ws @ rest)) (buf @ [b]) u = Some (Inr ((buf @ [b]) @ ws), v)"
    "port_at False rest v" "advances (2 * cost * int (length ws)) u v" "ready n v"
    using Cons.IH [OF u(2) _ Cons.prems(3) u(4) Cons.prems(5), of "buf @ [b]"] Cons.prems(2,6) by auto
  have "read_char_name (front ((b # ws) @ rest)) buf s = Some (Inr (buf @ b # ws), v)"
    using Cons.prems(2,6) t(1) u(1) v(1) code_byte [of b] by (subst read_char_name.simps) (simp add: in_char_buf_def)
  then show ?case
    using v(2,4) advances_trans [OF advances_trans [OF t(3) u(3)] v(3)] by (auto simp: algebra_simps)
qed

lemma make_char_reads:
  assumes "port_at j rest s" "ready 1 s"
  shows "reads (make_char v) rest 1 (DChar v) s"
proof -
  have a: "arena_ok s" "room 1 s" using assms(2) by (simp_all add: ready_def)
  then show ?thesis
    using weaken_any [OF port_grows [OF assms(1) grows_push_cell [OF a(1)]]] grows_advances [OF grows_push_cell [OF a(1)]]
    by (auto simp: reads_def)
qed

text \<open>A character that no letter follows stands for itself.\<close>

lemma read_plain_char:
  assumes "port_at j (b # rest) s" "delimited rest" "ready (2 * cost + 1) s"
  shows "reads reader_read_character rest (2 * cost + 1) (DChar (code b)) s"
proof -
  have r: "ready (cost + (cost + 1)) s" using assms(3) by (simp add: algebra_simps)
  obtain t where t: "readchar s = Some (Inr (code b), t)" "port_at True rest t" "advances cost s t" "ready (cost + 1) t"
    using read_step [OF assms(1) r] cost_nonneg by auto
  obtain u where u: "peekchar t = Some (Inr (front rest), u)" "port_at False rest u" "advances cost t u" "ready 1 u"
    using peek_front [OF t(2,4)] by auto
  have "\<not> (48 \<le> front rest \<and> front rest \<le> 55)" "\<not> (48 \<le> front rest \<and> front rest \<le> 57)" "\<not> (97 \<le> front rest \<and> front rest \<le> 102)"
    "front rest \<noteq> 70" "\<not> name_char (front rest)"
    using code_delimited [of "hd rest" "tl rest"] assms(2) front_name_char [OF assms(2)]
    by (cases rest; auto simp: delimited_def)+
  then have "reader_read_character s = make_char (code b) u"
    using t(1) u(1) by (auto simp: reader_read_character_def)
  then show ?thesis
    using make_char_reads [OF u(2,4), of "code b"] advances_trans [OF t(3) u(3)] advances_trans
    by (fastforce simp: reads_def)
qed

text \<open>A name of at most nine letters.\<close>

lemma read_named_char:
  assumes "port_at j (b # c # ws @ rest) s" "delimited rest" "\<forall>b \<in> set (b # c # ws). name_char (code b)" "b \<noteq> 120"
    and "map_of char_names (b # c # ws @ [0]) = Some v" "length ws < 8" "ready (2 * cost * int (length (b # c # ws)) + 1) s"
  shows "reads reader_read_character rest (2 * cost * int (length (b # c # ws)) + 1) (DChar v) s"
proof -
  let ?more = "2 * cost * int (length (c # ws)) + 1"
  have m0: "0 \<le> ?more" using cost_nonneg by simp
  have r: "ready (cost + (cost + ?more)) s" using assms(7) by (simp add: algebra_simps)
  obtain t where t: "readchar s = Some (Inr (code b), t)" "port_at True (c # ws @ rest) t" "advances cost s t"
    "ready (cost + ?more) t"
    using read_step [OF assms(1) r] m0 cost_nonneg by auto
  obtain u where u: "peekchar t = Some (Inr (code c), u)" "port_at False (c # ws @ rest) u" "advances cost t u" "ready ?more u"
    using peek_step [OF t(2,4)] m0 by auto
  obtain v' where v: "read_char_name (code c) [b] u = Some (Inr (b # c # ws), v')" "port_at False rest v'"
    "advances (2 * cost * int (length (c # ws))) u v'" "ready 1 v'"
    using read_char_name_ok [of False "c # ws" rest u 1 "[b]"] u(2,4) assms(2,3,6) by auto
  have "code 42 = 42" by simp
  have n: "name_char (code b)" "name_char (code c)" "\<not> (48 \<le> code b \<and> code b \<le> 55)"
    using assms(3) \<open>code 42 = 42\<close> by (auto simp: name_char_def)
  then have "reader_read_character s = make_char v v'"
    using t(1) u(1) v(1) assms(4,5) code_byte [of b] by (auto simp: reader_read_character_def)
  then show ?thesis
    using make_char_reads [OF v(2,4), of v] advances_trans [OF advances_trans [OF advances_trans [OF t(3) u(3)] v(3)]]
    by (fastforce simp: reads_def algebra_simps)
qed

end

end
