(* ===== verification/Mes_Read.thy ===== *)
theory Mes_Read
  imports Mes_Tokens
begin

text \<open>
  What \<^verbatim>\<open>write\<close> puts out for a datum is read back as that datum. The statement is proved
  once, for any port that meets the contract of \<open>input_port\<close>, by induction on the datum: the reader
  takes just the bytes of its text and allocates a representation of it. \<open>cells_of\<close> counts the
  cells of the datum, \<open>read_cost\<close> adds what the port takes. A list that is cut off by the end of
  the input raises an error, wherever it is cut.
\<close>

section \<open>Texts of data\<close>

text \<open>The reader makes a pair for a dot, of which it takes the \<^verbatim>\<open>car\<close>.\<close>

fun dot_cells :: "datum \<Rightarrow> int" where
  "dot_cells (DPair d e) = 0"
| "dot_cells (DAtom a) = (if a = cell_nil then 0 else 1)"
| "dot_cells d = 1"

text \<open>
  The cells that the reader allocates for a datum: one for each number, character and pair, the
  cells of each string, and for a symbol those of its name, with one for the number that the
  lookup makes of the size of the symbol table. The empty list and the booleans take none.
\<close>

fun cells_of :: "(addr \<rightharpoonup> byte list) \<Rightarrow> datum \<Rightarrow> int" where
  "cells_of names (DStr bs) = string_cells bs"
| "cells_of names (DAtom a) = (if names a \<in> {Some [40, 41], Some [35, 102], Some [35, 116]} then 0
     else string_cells (the (names a)) + 1)"
| "cells_of names (DPair d e) = cells_of names d + cells_of names e + dot_cells e + 1"
| "cells_of names d = 1"

lemma dot_cells_nonneg [simp]: "0 \<le> dot_cells d"
  by (cases d) simp_all

lemma cells_of_nonneg [simp]: "0 \<le> cells_of names d"
  by (induction d) (simp_all add: add_nonneg_nonneg)

lemma word_byte_escape: "word_byte b \<Longrightarrow> escape b = [b]"
proof -
  assume "word_byte b"
  then have "33 \<le> uint b" "b \<noteq> 92" "b \<noteq> 34" unfolding word_byte_def by blast+
  then show ?thesis by (auto simp: escape_def)
qed

lemma plain_name_escape:
  assumes "\<forall>b \<in> set bs. word_byte b"
  shows "concat (map escape bs) = bs"
  using assms by (induction bs) (simp_all add: word_byte_escape)

lemma advances_readable: "readable s names d \<Longrightarrow> advances n s t \<Longrightarrow> readable t names d"
proof (induction d)
  case (DAtom a)
  then obtain bs where n: "names a = Some bs" and a: "a = cell_nil \<and> bs = [40, 41] \<or> a = cell_f \<and> bs = [35, 102]
      \<or> a = cell_t \<and> bs = [35, 116] \<or> plain_name bs \<and> interned s bs a \<and> int (length bs) < MAX_STRING s
        \<and> int (length bs) < 2 ^ 61 \<and> (\<exists>c. lookup s a = Some c \<and> ctype c = TSYMBOL)"
    by auto
  have "interned t bs a \<and> MAX_STRING t = MAX_STRING s \<and> (\<exists>c. lookup t a = Some c \<and> ctype c = TSYMBOL)"
    if p: "plain_name bs" "interned s bs a" "int (length bs) < MAX_STRING s" "int (length bs) < 2 ^ 61"
      "lookup s a = Some c" "ctype c = TSYMBOL" for c
  proof -
    have "ascii bs"
      using p(1,3,4) by (intro word_symbol_name(1) [of bs s]) (auto simp: plain_name_def)
    then show ?thesis
      using advances_interned [OF p(2) DAtom(2)] advancesD(6) [OF DAtom(2)] advances_lookup [OF DAtom(2) p(5)] p(6) by auto
  qed
  then show ?case
    using n a by (auto simp del: lookup_Some)
qed (auto dest: advancesD(6))

text \<open>The first byte of a text: no white space, no comment, no closing parenthesis.\<close>

definition begins :: "byte \<Rightarrow> byte list \<Rightarrow> bool" where
  "begins b bs \<longleftrightarrow> b \<notin> {9, 10, 11, 12, 13, 32, 41, 59} \<and> uint b < 128 \<and> (b = 35 \<longrightarrow> bs \<noteq> [] \<and> hd bs \<notin> {33, 124})"

lemma digit_cases:
  assumes "digit b"
  shows "b \<notin> {9, 10, 11, 12, 13, 32, 41, 59, 40, 35, 96, 44, 39, 34, 46}" "uint b < 128"
  using assms by (auto simp: digit_def)

lemma word_byte_cases:
  assumes "word_byte b"
  shows "b \<notin> {9, 10, 11, 12, 13, 32, 41, 59, 40, 34}" "uint b < 128"
  using assms by (auto simp: word_byte_def)

lemma number_text_cases:
  assumes "number_text n = b # bs" "is_long n"
  shows "digit b \<or> b = 45"
proof (cases "n < 0")
  case True
  then show ?thesis using assms(1) by (simp add: number_text_def)
next
  case False
  then show ?thesis
    using assms number_digits(1) [of n] by (simp add: number_text_def is_long_def)
qed

lemma number_text_nonempty: "is_long n \<Longrightarrow> number_text n \<noteq> []"
  using number_digits(3) [of n] by (auto simp: number_text_def is_long_def)

lemma plain_name_begins:
  assumes "plain_name (b # bs)"
  shows "begins b bs" "b \<notin> {9, 10, 11, 12, 13, 32, 41, 59, 40, 34}" "b \<notin> {35, 39, 44, 46, 96}"
proof -
  have "word_byte b" "b \<notin> {35, 39, 44, 46, 96}"
    using assms unfolding plain_name_def by (simp_all del: insert_iff)
  with word_byte_cases [of b]
  show "begins b bs" "b \<notin> {9, 10, 11, 12, 13, 32, 41, 59, 40, 34}" "b \<notin> {35, 39, 44, 46, 96}"
    by (simp_all add: begins_def)
qed

lemma not_plain [simp]: "\<not> plain_name [40, 41]" "\<not> plain_name [35, 102]" "\<not> plain_name [35, 116]"
  by (simp_all add: plain_name_def word_byte_def)

lemma char_text_Cons: "v = 0 \<or> 7 \<le> v \<and> v \<le> 13 \<or> 32 \<le> v \<and> v \<le> 127 \<Longrightarrow> \<exists>bs. char_text v = 92 # bs"
  by (auto simp: char_text_def)

lemma to_char_small: "v = 0 \<or> 7 \<le> v \<and> v \<le> 13 \<or> 32 \<le> v \<and> v \<le> 127 \<Longrightarrow> to_char v = v"
  by (auto simp: to_char_def intro!: signed_take_bit_int_eq_self)

text \<open>The text of an atom is its name.\<close>

lemma atom_text:
  assumes "readable s names (DAtom a)"
  obtains bs where "names a = Some bs" "datum_text names (DAtom a) = bs"
    "a = cell_nil \<and> bs = [40, 41] \<or> a = cell_f \<and> bs = [35, 102] \<or> a = cell_t \<and> bs = [35, 116]
      \<or> plain_name bs \<and> interned s bs a \<and> int (length bs) < MAX_STRING s \<and> int (length bs) < 2 ^ 61
        \<and> (\<exists>c. lookup s a = Some c \<and> ctype c = TSYMBOL)"
proof -
  obtain bs where n: "names a = Some bs" and a: "a = cell_nil \<and> bs = [40, 41] \<or> a = cell_f \<and> bs = [35, 102]
      \<or> a = cell_t \<and> bs = [35, 116] \<or> plain_name bs \<and> interned s bs a \<and> int (length bs) < MAX_STRING s
        \<and> int (length bs) < 2 ^ 61 \<and> (\<exists>c. lookup s a = Some c \<and> ctype c = TSYMBOL)"
    using assms by auto
  have "concat (map escape bs) = bs"
    using a by (auto simp: escape_def plain_name_def intro: plain_name_escape)
  then show thesis
    using that [of bs] n a by simp
qed

lemma datum_begins:
  assumes "readable s names d"
  shows "\<exists>b bs. datum_text names d = b # bs \<and> begins b bs"
proof (cases d)
  case (DNum n)
  then have n: "is_long n" using assms by simp
  then obtain b bs where b: "number_text n = b # bs"
    using number_text_nonempty by (cases "number_text n") auto
  show ?thesis
    using b DNum number_text_cases [OF b n] digit_cases [of b] by (auto simp: begins_def)
next
  case (DChar v)
  then have "to_char v = v" "\<exists>bs. char_text v = 92 # bs"
    using assms by (simp_all add: to_char_small char_text_Cons)
  then show ?thesis using DChar by (auto simp: begins_def)
next
  case (DAtom a)
  obtain bs where bs: "datum_text names (DAtom a) = bs"
    and c: "a = cell_nil \<and> bs = [40, 41] \<or> a = cell_f \<and> bs = [35, 102] \<or> a = cell_t \<and> bs = [35, 116] \<or> plain_name bs"
    using atom_text [OF assms [unfolded DAtom]] by metis
  obtain b bs' where b: "bs = b # bs'"
    using c by (cases bs) (auto simp: plain_name_def)
  have "begins b bs'"
    using c unfolding b by (auto simp: begins_def dest: plain_name_begins(1))
  then show ?thesis using DAtom bs b by auto
next
  case (DPair d e)
  then show ?thesis by (auto simp: begins_def)
qed (use assms in \<open>auto simp: begins_def\<close>)

lemma tail_delimited: "delimited (tail_text names e @ 41 # rest)"
  by (cases "(names, e)" rule: tail_text.cases) (auto simp: delimited_def)

text \<open>A datum that can be read is not the mark of a dotted pair.\<close>

lemma readable_not_dot:
  assumes "readable t names d" "repr t d p" "specials_ok t"
  shows "p \<noteq> cell_dot"
proof
  assume p: "p = cell_dot"
  obtain c where c: "lookup t cell_dot = Some c" "ctype c = TSPECIAL"
    using specials_okD [OF assms(3), of cell_dot] by (auto simp: cells simp del: lookup_Some)
  show False
  proof (cases d)
    case (DAtom a)
    then show ?thesis
      using assms p c by (auto simp: cells simp del: lookup_Some)
  qed (use assms p c in \<open>auto simp: text_at_def simp del: lookup_Some\<close>)
qed

section \<open>The dispatch of the reader\<close>

lemma skip_spaces_space: "isspace c \<Longrightarrow> skip_spaces c = mbind readchar skip_spaces"
  by (rule ext, subst skip_spaces.simps) simp

lemma skip_spaces_other: "\<not> isspace c \<Longrightarrow> skip_spaces c = ret c"
  by (rule ext, subst skip_spaces.simps) simp

text \<open>The rest of the loop, once white space is skipped.\<close>

definition eat_comments :: "int \<Rightarrow> int mes" where
  "eat_comments c =
     (if c = 59 then mbind (reader_read_line_comment c) reader_eat_whitespace
      else if c = 35
      then mbind peekchar (\<lambda>p.
        if p = 33 \<or> p = 124
        then mbind readchar (\<lambda>e. mbind readchar (\<lambda>c'.
             mseq (reader_read_block_comment e c')
             (mbind readchar reader_eat_whitespace)))
        else ret c)
      else ret c)"

lemma eat_whitespace_eq: "reader_eat_whitespace c = mbind (skip_spaces c) eat_comments"
  by (rule ext, subst reader_eat_whitespace.simps) (simp add: eat_comments_def [abs_def])

lemma eat_plain: "\<not> isspace c \<Longrightarrow> c \<noteq> 59 \<Longrightarrow> c \<noteq> 35 \<Longrightarrow> reader_eat_whitespace c s = ret c s"
  by (simp add: eat_whitespace_eq skip_spaces_other eat_comments_def)

lemma eat_space: "isspace c \<Longrightarrow> reader_eat_whitespace c = mbind readchar reader_eat_whitespace"
  by (simp add: eat_whitespace_eq [abs_def] skip_spaces_space)

lemma reader_List:
  "reader (List c0) = mbind (reader_eat_whitespace c0) (\<lambda>c.
     if c = 41 then ret cell_nil
     else if c = - 1 then mbind (make_string0 (cstring ''EOF in list'')) (\<lambda>m. fail (Throw cell_symbol_not_a_pair m))
     else mbind (reader (Sexp c)) (\<lambda>x.
       if x = cell_dot then mbind readchar (\<lambda>c'. mbind (reader (List c')) get_car)
       else mbind readchar (\<lambda>c'. mbind (reader (List c')) (cons x))))"
  by (rule ext, subst reader.simps) simp

lemma reader_List_space: "isspace c \<Longrightarrow> reader (List c) s = mbind readchar (\<lambda>c. reader (List c)) s"
  by (simp add: reader_List [abs_def] eat_space)

lemma reader_List_nil: "reader (List 41) = ret cell_nil"
  by (rule ext, subst reader_List) (simp add: eat_plain isspace_def)

lemma reader_Sexp_word:
  "c \<notin> {- 1, 59, 32, 9, 10, 12, 40, 41, 35, 96, 44, 39, 34, 46} \<Longrightarrow> reader (Sexp c) = reader_read_identifier_or_number c"
  by (rule ext, subst reader.simps) simp

lemma reader_Sexp_simps:
  "reader (Sexp 40) = mbind readchar (\<lambda>c. reader (List c))"
  "reader (Sexp 35) = mbind readchar (\<lambda>c. reader (Hash c))"
  "reader (Sexp 34) = reader_read_string"
  "c = 32 \<or> c = 9 \<or> c = 10 \<or> c = 12 \<Longrightarrow> reader (Sexp c) = mbind readchar (\<lambda>c. reader (Sexp c))"
  "reader (Sexp 46) = mbind peekchar (\<lambda>p. if \<not> reader_identifier_p p then ret cell_dot else reader_read_identifier_or_number 46)"
  "reader (Hash 102) = ret cell_f" "reader (Hash 116) = ret cell_t" "reader (Hash 92) = reader_read_character"
  by (rule ext, subst reader.simps, auto)+

context input_port
begin

lemma code_not_end: "uint b < 128 \<Longrightarrow> code b \<noteq> - 1"
proof -
  assume "uint b < 128"
  moreover have "0 \<le> uint b" by simp
  ultimately show ?thesis by (simp only: code_ascii)
qed

lemma eat_first:
  assumes "begins b bs" "port_at j (bs @ rest) s" "ready (cost + n) s" "0 \<le> n"
  obtains t where "reader_eat_whitespace (code b) s = Some (Inr (code b), t)" "port_at False (bs @ rest) t"
    "advances cost s t" "ready n t"
proof (cases "b = 35")
  case True
  then obtain d ds where bs: "bs = d # ds" "d \<noteq> 33" "d \<noteq> 124"
    using assms(1) by (cases bs) (auto simp: begins_def)
  obtain t where t: "peekchar s = Some (Inr (code d), t)" "port_at False (bs @ rest) t" "advances cost s t" "ready n t"
    using peek_step [of j d "ds @ rest" s n] assms(2-4) bs(1) by auto
  have "skip_spaces 35 s = Some (Inr 35, s)"
    by (subst skip_spaces.simps) (simp add: isspace_def)
  then have "reader_eat_whitespace (code b) s = Some (Inr (code b), t)"
    using True bs t(1) by (subst reader_eat_whitespace.simps) simp
  then show ?thesis using that t by blast
next
  case False
  then have "\<not> isspace (code b)" "code b \<noteq> 59" "code b \<noteq> 35"
    using assms(1) by (simp_all add: begins_def isspace_def)
  then show ?thesis
    using that [of s] eat_plain weaken_any [OF assms(2)] cost_refl [OF assms(3)] ready_cost [OF assms(3)] by simp
qed

text \<open>\<open>gives d text m\<close>: behind its first byte, the text is read as \<open>d\<close> for at most \<open>m\<close> cells.\<close>

definition gives :: "(addr \<rightharpoonup> byte list) \<Rightarrow> datum \<Rightarrow> int \<Rightarrow> bool" where
  "gives names d m \<longleftrightarrow> (\<forall>s j b bs rest. readable s names d \<and> datum_text names d = b # bs \<and> delimited rest
     \<and> port_at j (bs @ rest) s \<and> ready m s \<longrightarrow> reads (reader (Sexp (code b))) rest m d s)"

definition gives_tail :: "(addr \<rightharpoonup> byte list) \<Rightarrow> datum \<Rightarrow> byte list \<Rightarrow> int \<Rightarrow> bool" where
  "gives_tail names e text m \<longleftrightarrow> (\<forall>s j rest. readable s names e \<and> port_at j (text @ 41 # rest) s \<and> ready m s
     \<longrightarrow> reads (mbind readchar (\<lambda>c. reader (List c))) rest m e s)"

text \<open>An element and the rest of its list make a pair.\<close>

lemma read_element:
  assumes d: "gives names d n" "readable s names d" "datum_text names d = b # bs" "0 \<le> n"
    and e: "gives_tail names' e text m" "readable s names' e" "delimited (text @ 41 # rest)" "0 \<le> m"
    and port: "port_at j (bs @ text @ 41 # rest) s" and rdy: "ready (cost + n + m + 1) s"
  shows "reads (reader (List (code b))) rest (cost + n + m + 1) (DPair d e) s"
proof -
  have bg: "begins b bs" using datum_begins [OF d(2)] d(3) by auto
  have r: "ready (cost + (n + m + 1)) s" using rdy by (simp add: algebra_simps)
  obtain t where t: "reader_eat_whitespace (code b) s = Some (Inr (code b), t)" "port_at False (bs @ text @ 41 # rest) t"
    "advances cost s t" "ready (n + m + 1) t"
    by (rule eat_first [OF bg port r]) (use d(4) e(4) in auto)
  have "reads (reader (Sexp (code b))) (text @ 41 # rest) n d t"
    using d(1,3) advances_readable [OF d(2) t(3)] e(3,4) t(2) ready_mono [OF t(4), of n] unfolding gives_def by auto
  then obtain p u where u: "reader (Sexp (code b)) t = Some (Inr p, u)" "repr u d p" "port_at False (text @ 41 # rest) u"
    "advances n t u"
    by (auto simp: reads_def)
  have su: "advances (cost + n) s u" by (rule advances_trans [OF t(3) u(4)])
  have ru: "ready (m + 1) u"
    by (rule advances_ready [OF u(4)]) (use t(4) in \<open>simp add: algebra_simps\<close>)
  have "reads (mbind readchar (\<lambda>c. reader (List c))) rest m e u"
    using e(1) advances_readable [OF e(2) su] u(3) ready_mono [OF ru, of m] unfolding gives_tail_def by auto
  then obtain q v where v: "mbind readchar (\<lambda>c. reader (List c)) u = Some (Inr q, v)" "repr v e q" "port_at False rest v"
    "advances m u v"
    by (auto simp: reads_def)
  have nd: "p \<noteq> cell_dot"
    using readable_not_dot [OF advances_readable [OF d(2) su] u(2)] ru by (simp add: ready_def)
  have rv: "ready 1 v" by (rule advances_ready [OF v(4) ru])
  let ?w = "push_cell (mk_cell TPAIR p q) v"
  have a: "arena_ok v" "room 1 v" using rv by (simp_all add: ready_def)
  have g: "grows 1 v ?w" by (rule grows_push_cell [OF a(1)])
  have "mbind readchar (\<lambda>c'. mbind (reader (List c')) (cons p)) u = Some (Inr (g_free v), ?w)"
    using mbind_Inr [where p = "mbind readchar (\<lambda>c. reader (List c))" and s = u and f = "cons p", OF v(1)] a by simp
  moreover have "code b \<noteq> 41" "code b \<noteq> - 1"
    using bg code_not_end [of b] by (simp_all add: begins_def)
  ultimately have "reader (List (code b)) s = Some (Inr (g_free v), ?w)"
    using t(1) u(1) nd by (subst reader_List) simp
  moreover have "advances m u v" "advances 1 v ?w"
    using v(4) grows_advances [OF g] .
  then have "repr ?w d p" "repr ?w e q"
    using u(2) v(2) advances_repr(1) by blast+
  then have "repr ?w (DPair d e) (g_free v)" by simp
  moreover have "advances (cost + n + m + 1) s ?w"
    using advances_trans [OF advances_trans [OF su v(4)] grows_advances [OF g]] .
  ultimately show ?thesis
    using port_grows [OF v(3) g] unfolding reads_def by blast
qed

end

context input_port
begin

section \<open>Data\<close>

definition read_cost :: "(addr \<rightharpoonup> byte list) \<Rightarrow> datum \<Rightarrow> int" where
  "read_cost names d = 4 * cost * int (length (datum_text names d)) + cells_of names d"

definition tail_cost :: "(addr \<rightharpoonup> byte list) \<Rightarrow> datum \<Rightarrow> int" where
  "tail_cost names e = 4 * cost * (int (length (tail_text names e)) + 1) + cells_of names e + dot_cells e"

lemma costs_nonneg [simp]: "0 \<le> read_cost names d" "0 \<le> tail_cost names e"
  using cost_nonneg by (simp_all add: read_cost_def tail_cost_def add_nonneg_nonneg)

lemma gives_mono:
  assumes "gives names d n" "n \<le> m"
  shows "gives names d m"
  using assms reads_mono ready_mono unfolding gives_def by meson

lemma gives_tail_mono:
  assumes "gives_tail names e text n" "n \<le> m"
  shows "gives_tail names e text m"
  using assms reads_mono ready_mono unfolding gives_tail_def by meson

lemma atom_reads:
  assumes "lookup s a = Some c" "by_identity (ctype c)" "port_at j rest s" "arena_ok s" "0 \<le> n"
  shows "reads (ret a) rest n (DAtom a) s"
  using assms weaken_any by (auto simp: reads_def)

lemma special_reads:
  assumes "ready n s" "port_at j rest s" "0 \<le> n" "cell_nil \<le> a" "a \<le> cell_vm_return"
  shows "reads (ret a) rest n (DAtom a) s"
proof -
  obtain c where "lookup s a = Some c" "ctype c = TSPECIAL"
    using specials_okD [of s a] assms(1,4,5) by (auto simp: ready_def simp del: lookup_Some)
  then show ?thesis
    using assms(1-3) by (intro atom_reads) (auto simp: ready_def by_identity_def simp del: lookup_Some)
qed

text \<open>The end of a list.\<close>

lemma close_gives: "gives_tail names (DAtom cell_nil) [] cost"
  unfolding gives_tail_def
proof (intro allI impI, elim conjE)
  fix s j rest assume port: "port_at j ([] @ 41 # rest) s" and rdy: "ready cost s"
  obtain t where t: "readchar s = Some (Inr (code 41), t)" "port_at True rest t" "advances cost s t" "ready 0 t"
    using read_step [of j 41 rest s 0] port rdy by auto
  have "reads (ret cell_nil) rest 0 (DAtom cell_nil) t"
    by (rule special_reads [OF t(4,2)]) (simp_all add: cells)
  then show "reads (mbind readchar (\<lambda>c. reader (List c))) rest cost (DAtom cell_nil) s"
    using reads_after [where f = readchar and s = s, OF t(1,3), of "\<lambda>c. reader (List c)" rest 0] by (simp add: reader_List_nil)
qed

lemma number_gives: "gives names (DNum n) (read_cost names (DNum n))"
  unfolding gives_def
proof (intro allI impI, elim conjE)
  fix s j b bs rest
  assume r: "readable s names (DNum n)" and tx: "datum_text names (DNum n) = b # bs" and del: "delimited rest"
    and port: "port_at j (bs @ rest) s" and rdy: "ready (read_cost names (DNum n)) s"
  have tx': "number_text n = b # bs" and n: "is_long n" "24 \<le> MAX_STRING s"
    using r tx by simp_all
  have m: "read_cost names (DNum n) = 4 * cost * (int (length bs) + 1) + 1"
    using tx' by (simp add: read_cost_def)
  have le: "cost * int (length bs) + 4 * cost + 1 \<le> read_cost names (DNum n)"
    using cost_nonneg mult_nonneg_nonneg [of cost "int (length bs)"] unfolding m by (simp add: algebra_simps)
  have "code b \<notin> {- 1, 59, 32, 9, 10, 12, 40, 41, 35, 96, 44, 39, 34, 46}"
    using number_text_cases [OF tx' n(1)] digit_cases [of b] digit_code [of b] by (auto simp: digit_def)
  then have "reader (Sexp (code b)) = reader_read_identifier_or_number (code b)"
    by (rule reader_Sexp_word)
  then show "reads (reader (Sexp (code b))) rest (read_cost names (DNum n)) (DNum n) s"
    using read_number_ok [OF n tx' del port ready_mono [OF rdy le]] advances_mono [OF _ le] unfolding reads_def by metis
qed

lemma string_gives: "gives names (DStr bs) (read_cost names (DStr bs))"
  unfolding gives_def
proof (intro allI impI, elim conjE)
  fix s j c cs rest
  let ?es = "concat (map escape bs)"
  let ?k = "cost * int (length ?es) + cost + string_cells bs"
  assume r: "readable s names (DStr bs)" and tx: "datum_text names (DStr bs) = c # cs"
    and port: "port_at j (cs @ rest) s" and rdy: "ready (read_cost names (DStr bs)) s"
  have c: "c = 34" "cs = ?es @ [34]" using tx by simp_all
  have le: "?k \<le> read_cost names (DStr bs)"
    using cost_nonneg mult_nonneg_nonneg [of cost "int (length ?es)"] by (simp add: read_cost_def algebra_simps)
  have "reads reader_read_string rest ?k (DStr bs) s"
    by (rule read_string_ok [OF _ _ _ ready_mono [OF rdy le]]) (use r port c(2) in auto)
  then show "reads (reader (Sexp (code c))) rest (read_cost names (DStr bs)) (DStr bs) s"
    using reads_mono [OF _ le] by (simp add: c(1) reader_Sexp_simps)
qed

lemma name_gives: "gives names (DAtom a) (read_cost names (DAtom a))"
  unfolding gives_def
proof (intro allI impI, elim conjE)
  fix s j b bs rest
  let ?m = "read_cost names (DAtom a)"
  assume r: "readable s names (DAtom a)" and tx: "datum_text names (DAtom a) = b # bs" and del: "delimited rest"
    and port: "port_at j (bs @ rest) s" and rdy: "ready ?m s"
  obtain ws where w: "names a = Some ws" "ws = b # bs"
    and cs: "a = cell_nil \<and> ws = [40, 41] \<or> a = cell_f \<and> ws = [35, 102] \<or> a = cell_t \<and> ws = [35, 116]
      \<or> plain_name ws \<and> interned s ws a \<and> int (length ws) < MAX_STRING s \<and> int (length ws) < 2 ^ 61
        \<and> (\<exists>c. lookup s a = Some c \<and> ctype c = TSYMBOL)"
    using atom_text [OF r] tx by metis
  have m: "?m = 4 * cost * (int (length bs) + 1) + cells_of names (DAtom a)"
    using tx unfolding read_cost_def by simp
  show "reads (reader (Sexp (code b))) rest ?m (DAtom a) s"
  proof (cases "plain_name ws")
    case True
    then have i: "interned s (b # bs) a" "int (length (b # bs)) < MAX_STRING s" "int (length (b # bs)) < 2 ^ 61"
      "plain_name (b # bs)" and "\<exists>c. lookup s a = Some c \<and> ctype c = TSYMBOL"
      using cs w(2) by auto
    then obtain c where c: "lookup s a = Some c" "ctype c = TSYMBOL" by blast
    have "cells_of names (DAtom a) = string_cells (b # bs) + 1"
      using w i(4) by (auto simp: not_plain)
    then have le: "cost * int (length bs) + 4 * cost + string_cells (b # bs) + 1 \<le> ?m"
      using cost_nonneg mult_nonneg_nonneg [of cost "int (length bs)"] unfolding m by (simp add: algebra_simps)
    obtain t where t: "reader_read_identifier_or_number (code b) s = Some (Inr a, t)" "port_at False rest t"
      "advances (cost * int (length bs) + 4 * cost + string_cells (b # bs) + 1) s t"
      using read_name_ok [OF i(4) del i(1-3) port ready_mono [OF rdy le]] by auto
    have "code b \<notin> {- 1, 59, 32, 9, 10, 12, 40, 41, 35, 96, 44, 39, 34, 46}"
      using plain_name_begins [OF i(4)] code_not_end [of b] by (simp add: begins_def)
    then have "reader (Sexp (code b)) s = Some (Inr a, t)"
      using t(1) by (simp add: reader_Sexp_word)
    moreover have "repr t (DAtom a) a"
      using advances_lookup [OF t(3) c(1)] c(2) by (auto simp: by_identity_def simp del: lookup_Some)
    ultimately show ?thesis
      using t(2) advances_mono [OF t(3) le] by (auto simp: reads_def)
  next
    case False
    obtain d where bs: "bs = [d]"
      using cs w(2) False by auto
    have two: "cost + (cost + 0) \<le> ?m"
      using cost_nonneg cells_of_nonneg [of names "DAtom a"] unfolding m bs
      by (simp add: algebra_simps del: cells_of_nonneg cells_of.simps)
    obtain t where t: "readchar s = Some (Inr (code d), t)" "port_at True rest t" "advances cost s t" "ready (cost + 0) t"
      using read_step [of j d rest s "cost + 0"] port bs ready_mono [OF rdy two] cost_nonneg by auto
    have "reads (ret a) rest 0 (DAtom a) t"
      by (rule special_reads [OF _ t(2)])
        (use t(4) cost_nonneg cs False in \<open>auto simp: cells elim: ready_mono\<close>)
    then have "reads (if b = 40 then reader (List (code d)) else reader (Hash (code d))) rest 0 (DAtom a) t"
      using cs w(2) bs False by (auto simp: reader_List_nil reader_Sexp_simps)
    then have "reads (reader (Sexp (code b))) rest (cost + 0) (DAtom a) s"
      using reads_after [where f = readchar and s = s, OF t(1,3), of _ rest 0] cs w(2) False by (auto simp: reader_Sexp_simps)
    then show ?thesis
      by (rule reads_mono) (use two cost_nonneg in simp)
  qed
qed

end

lemma named_chars:
  assumes "v \<in> {0, 7, 8, 9, 10, 11, 12, 13, 32}"
  shows "\<exists>b c ws. char_text v = 92 # b # c # ws \<and> (\<forall>b \<in> set (b # c # ws). 97 \<le> uint b \<and> uint b \<le> 122) \<and> b \<noteq> 120
    \<and> map_of char_names (b # c # ws @ [0]) = Some v \<and> length ws < 8"
  using assms by (elim insertE emptyE) (simp_all add: char_text_def cstring_def char_names_def)

context input_port
begin

lemma character_reads:
  assumes v: "v = 0 \<or> 7 \<le> v \<and> v \<le> 13 \<or> 32 \<le> v \<and> v \<le> 127" and tx: "char_text v = 92 # ws" and del: "delimited rest"
    and port: "port_at j (ws @ rest) s" and rdy: "ready (2 * cost * (int (length ws) + 1) + 1) s"
  shows "reads reader_read_character rest (2 * cost * (int (length ws) + 1) + 1) (DChar v) s"
proof (cases "v \<in> {0, 7, 8, 9, 10, 11, 12, 13, 32}")
  case True
  then obtain b c ws' where w: "ws = b # c # ws'" "\<forall>b \<in> set (b # c # ws'). 97 \<le> uint b \<and> uint b \<le> 122" "b \<noteq> 120"
    "map_of char_names (b # c # ws' @ [0]) = Some v" "length ws' < 8"
    using named_chars [OF True] tx by auto
  have n: "\<forall>b \<in> set (b # c # ws'). name_char (code b)"
    using w(2) unfolding code_name_char by blast
  have le: "2 * cost * int (length (b # c # ws')) + 1 \<le> 2 * cost * (int (length ws) + 1) + 1"
    using cost_nonneg w(1) by (simp add: algebra_simps)
  have "port_at j (b # c # ws' @ rest) s"
    using port w(1) by simp
  from read_named_char [OF this del n w(3-5) ready_mono [OF rdy le]] show ?thesis
    by (rule reads_mono) (rule le)
next
  case False
  then have b: "32 < v" "v \<le> 127" using v by auto
  then have ws: "ws = [of_int v]" using tx by (simp add: char_text_def)
  have le: "2 * cost + 1 \<le> 2 * cost * (int (length ws) + 1) + 1"
    using cost_nonneg by (simp add: ws)
  have "code (of_int v) = v"
    using code_eq [of v "of_int v"] b by simp
  then show ?thesis
    using reads_mono [OF read_plain_char [OF _ del ready_mono [OF rdy le], of j "of_int v"] le] port ws by simp
qed

lemma character_gives: "gives names (DChar v) (read_cost names (DChar v))"
  unfolding gives_def
proof (intro allI impI, elim conjE)
  fix s j b bs rest
  let ?m = "read_cost names (DChar v)"
  assume r: "readable s names (DChar v)" and tx: "datum_text names (DChar v) = b # bs" and del: "delimited rest"
    and port: "port_at j (bs @ rest) s" and rdy: "ready ?m s"
  have v: "v = 0 \<or> 7 \<le> v \<and> v \<le> 13 \<or> 32 \<le> v \<and> v \<le> 127" using r by simp
  obtain ws where ws: "char_text v = 92 # ws" using char_text_Cons [OF v] by blast
  have b: "b = 35" "bs = 92 # ws"
    using tx ws to_char_small [OF v] by simp_all
  have m: "?m = 4 * cost * (int (length ws) + 2) + 1"
    unfolding read_cost_def tx b by simp
  let ?k = "2 * cost * (int (length ws) + 1) + 1"
  have k: "0 \<le> ?k" "cost + ?k \<le> ?m"
    using cost_nonneg mult_nonneg_nonneg [of cost "int (length ws)"] unfolding m by (simp_all add: algebra_simps)
  obtain t where t: "readchar s = Some (Inr (code 92), t)" "port_at True (ws @ rest) t" "advances cost s t" "ready ?k t"
    using read_step [of j 92 "ws @ rest" s ?k] port b(2) ready_mono [OF rdy k(2)] k(1) by auto
  have "reads (reader (Hash (code 92))) rest ?k (DChar v) t"
    using character_reads [OF v ws del t(2,4)] by (simp add: reader_Sexp_simps)
  then have "reads (reader (Sexp (code b))) rest (cost + ?k) (DChar v) s"
    using reads_after [where f = readchar and s = s, OF t(1,3)] by (simp add: b(1) reader_Sexp_simps)
  then show "reads (reader (Sexp (code b))) rest ?m (DChar v) s"
    using reads_mono k(2) by blast
qed

section \<open>Lists\<close>

lemma reader_List_code_space: "reader (List (code 32)) = mbind readchar (\<lambda>c. reader (List c))"
  by (rule ext) (simp add: reader_List_space isspace_def)

lemma reader_Sexp_open: "reader (Sexp (code 40)) = mbind readchar (\<lambda>c. reader (List c))"
  by (simp add: reader_Sexp_simps)

lemma pair_gives:
  assumes d: "gives names d (read_cost names d)" and e: "gives_tail names e (tail_text names e) (tail_cost names e)"
  shows "gives names (DPair d e) (read_cost names (DPair d e))"
  unfolding gives_def
proof (intro allI impI, elim conjE)
  fix s j c cs rest
  let ?m = "read_cost names (DPair d e)"
  let ?k = "cost + read_cost names d + tail_cost names e + 1"
  assume r: "readable s names (DPair d e)" and tx: "datum_text names (DPair d e) = c # cs" and del: "delimited rest"
    and port: "port_at j (cs @ rest) s" and rdy: "ready ?m s"
  have rd: "readable s names d" "readable s names e" using r by simp_all
  obtain b bs where b: "datum_text names d = b # bs" using datum_begins [OF rd(1)] by blast
  have c: "c = 40" "cs = b # bs @ tail_text names e @ [41]" using tx b by simp_all
  have k: "0 \<le> ?k" using cost_nonneg by simp
  have le: "cost + ?k \<le> ?m"
    using cost_nonneg by (simp add: read_cost_def tail_cost_def algebra_simps)
  obtain t where t: "readchar s = Some (Inr (code b), t)" "port_at True (bs @ tail_text names e @ 41 # rest) t"
    "advances cost s t" "ready ?k t"
    using read_step [of j b "bs @ tail_text names e @ 41 # rest" s ?k] port c(2) ready_mono [OF rdy le] k by auto
  have "reads (reader (List (code b))) rest ?k (DPair d e) t"
    by (rule read_element [OF d advances_readable [OF rd(1) t(3)] b _ e advances_readable [OF rd(2) t(3)]
          tail_delimited _ t(2,4)]) simp_all
  then have "reads (mbind readchar (\<lambda>c. reader (List c))) rest (cost + ?k) (DPair d e) s"
    by (rule reads_after [where f = readchar and s = s, OF t(1,3)])
  then have "reads (reader (Sexp (code c))) rest (cost + ?k) (DPair d e) s"
    by (simp only: c(1) reader_Sexp_open)
  then show "reads (reader (Sexp (code c))) rest ?m (DPair d e) s"
    using reads_mono le by blast
qed

lemma pair_tail_gives:
  assumes d: "gives names d (read_cost names d)" and e: "gives_tail names e (tail_text names e) (tail_cost names e)"
  shows "gives_tail names (DPair d e) (tail_text names (DPair d e)) (tail_cost names (DPair d e))"
  unfolding gives_tail_def
proof (intro allI impI, elim conjE)
  fix s j rest
  let ?m = "tail_cost names (DPair d e)"
  let ?k = "cost + read_cost names d + tail_cost names e + 1"
  assume r: "readable s names (DPair d e)" and port: "port_at j (tail_text names (DPair d e) @ 41 # rest) s" and rdy: "ready ?m s"
  have rd: "readable s names d" "readable s names e" using r by simp_all
  obtain b bs where b: "datum_text names d = b # bs" using datum_begins [OF rd(1)] by blast
  have k: "0 \<le> ?k" using cost_nonneg by simp
  have le: "cost + (cost + ?k) \<le> ?m"
    using cost_nonneg by (simp add: read_cost_def tail_cost_def algebra_simps)
  obtain t where t: "readchar s = Some (Inr (code 32), t)" "port_at True (b # bs @ tail_text names e @ 41 # rest) t"
    "advances cost s t" "ready (cost + ?k) t"
    using read_step [of j 32 "b # bs @ tail_text names e @ 41 # rest" s "cost + ?k"] port b ready_mono [OF rdy le] k
      cost_nonneg by auto
  obtain u where u: "readchar t = Some (Inr (code b), u)" "port_at True (bs @ tail_text names e @ 41 # rest) u"
    "advances cost t u" "ready ?k u"
    using read_step [OF t(2,4)] k by auto
  have su: "advances (cost + cost) s u" by (rule advances_trans [OF t(3) u(3)])
  have "reads (reader (List (code b))) rest ?k (DPair d e) u"
    by (rule read_element [OF d advances_readable [OF rd(1) su] b _ e advances_readable [OF rd(2) su]
          tail_delimited _ u(2,4)]) simp_all
  then have "reads (mbind readchar (\<lambda>c. reader (List c))) rest (cost + ?k) (DPair d e) t"
    by (rule reads_after [where f = readchar and s = t, OF u(1,3)])
  then have "reads (reader (List (code 32))) rest (cost + ?k) (DPair d e) t"
    by (simp only: reader_List_code_space)
  then have "reads (mbind readchar (\<lambda>c. reader (List c))) rest (cost + (cost + ?k)) (DPair d e) s"
    by (rule reads_after [where f = readchar and s = s, OF t(1,3)])
  then show "reads (mbind readchar (\<lambda>c. reader (List c))) rest ?m (DPair d e) s"
    using reads_mono le by blast
qed

text \<open>A tail that is no list is written behind a dot.\<close>

lemma dotted_tail_gives:
  assumes d: "gives names d (read_cost names d)" and tl: "tail_text names d = [32, 46, 32] @ datum_text names d"
    and dot: "dot_cells d = 1"
  shows "gives_tail names d (tail_text names d) (tail_cost names d)"
  unfolding gives_tail_def
proof (intro allI impI, elim conjE)
  fix s j rest
  let ?m = "tail_cost names d" and ?n = "read_cost names d"
  let ?k = "cost + ?n + cost + 1"
  assume r: "readable s names d" and port: "port_at j (tail_text names d @ 41 # rest) s" and rdy: "ready ?m s"
  obtain b bs where b: "datum_text names d = b # bs" using datum_begins [OF r] by blast
  have k: "0 \<le> ?k" using cost_nonneg by (simp add: add_nonneg_nonneg)
  have le: "cost + (cost + (cost + (cost + (cost + ?k)))) \<le> ?m"
    using cost_nonneg tl dot by (simp add: read_cost_def tail_cost_def algebra_simps)
  have p0: "port_at j (32 # 46 # 32 # b # bs @ 41 # rest) s" using port tl b by simp
  obtain t where t: "readchar s = Some (Inr (code 32), t)" "port_at True (46 # 32 # b # bs @ 41 # rest) t" "advances cost s t"
    "ready (cost + (cost + (cost + (cost + ?k)))) t"
    using read_step [OF p0 ready_mono [OF rdy le]] k cost_nonneg by auto
  obtain u where u: "readchar t = Some (Inr (code 46), u)" "port_at True (32 # b # bs @ 41 # rest) u" "advances cost t u"
    "ready (cost + (cost + (cost + ?k))) u"
    using read_step [OF t(2,4)] k cost_nonneg by auto
  obtain v where v: "peekchar u = Some (Inr (code 32), v)" "port_at False (32 # b # bs @ 41 # rest) v" "advances cost u v"
    "ready (cost + (cost + ?k)) v"
    using peek_step [OF u(2,4)] k cost_nonneg by auto
  obtain w where w: "readchar v = Some (Inr (code 32), w)" "port_at True (b # bs @ 41 # rest) w" "advances cost v w"
    "ready (cost + ?k) w"
    using read_step [OF v(2,4)] k cost_nonneg by auto
  obtain x where x: "readchar w = Some (Inr (code b), x)" "port_at True (bs @ [] @ 41 # rest) x" "advances cost w x" "ready ?k x"
    using read_step [OF w(2,4)] k by auto
  have sx: "advances (cost + cost + cost + cost + cost) s x"
    using advances_trans [OF advances_trans [OF advances_trans [OF advances_trans [OF t(3) u(3)] v(3)] w(3)] x(3)] .
  have nil: "readable x [cell_nil \<mapsto> [40, 41]] (DAtom cell_nil)" by simp
  have "reads (reader (List (code b))) rest ?k (DPair d (DAtom cell_nil)) x"
    by (rule read_element [OF d advances_readable [OF r sx] b _ close_gives nil _ _ x(2,4)])
      (simp_all add: cost_nonneg delimited_def)
  then obtain p y where y: "reader (List (code b)) x = Some (Inr p, y)" "repr y (DPair d (DAtom cell_nil)) p"
    "port_at False rest y" "advances ?k x y"
    by (auto simp: reads_def)
  then obtain c where c: "heap y p = Some c" "repr y d (ccar c)" by auto
  have "reader (List (code 32)) w = Some (Inr p, y)"
    using x(1) y(1) by (simp only: reader_List_code_space mbind_Inr)
  then have l: "mbind readchar (\<lambda>c'. mbind (reader (List c')) get_car) v = Some (Inr (ccar c), y)"
    using w(1) c(1) by simp
  have "reader_eat_whitespace 46 u = Some (Inr 46, u)"
    by (simp add: eat_plain isspace_def)
  moreover have "reader (Sexp 46) u = Some (Inr cell_dot, v)"
    using v(1) by (simp add: reader_Sexp_simps reader_identifier_p_def)
  ultimately have "reader (List (code 46)) u = Some (Inr (ccar c), y)"
    using l by (subst reader_List) simp
  then have "mbind readchar (\<lambda>c. reader (List c)) s = Some (Inr (ccar c), y)"
    using t(1) u(1) by (simp add: reader_List_space isspace_def)
  then have "reads (mbind readchar (\<lambda>c. reader (List c))) rest (cost + cost + cost + cost + cost + ?k) d s"
    using c(2) y(3) advances_trans [OF sx y(4)] unfolding reads_def by blast
  then show "reads (mbind readchar (\<lambda>c. reader (List c))) rest ?m d s"
    using reads_mono le by (simp add: add.assoc)
qed


text \<open>Every datum whose text can be read is read from it.\<close>

lemma gives_datum:
  assumes "readable s names d"
  shows "gives names d (read_cost names d)" "gives_tail names d (tail_text names d) (tail_cost names d)"
proof -
  have "gives names d (read_cost names d) \<and> gives_tail names d (tail_text names d) (tail_cost names d)"
    using assms
  proof (induction d)
    case (DNum n)
    then show ?case using number_gives dotted_tail_gives [OF number_gives] by simp
  next
    case (DChar v)
    then show ?case using character_gives dotted_tail_gives [OF character_gives] by simp
  next
    case (DStr bs)
    then show ?case using string_gives dotted_tail_gives [OF string_gives] by simp
  next
    case (DAtom a)
    have "gives_tail names (DAtom a) (tail_text names (DAtom a)) (tail_cost names (DAtom a))"
    proof (cases "a = cell_nil")
      case True
      have "cost \<le> tail_cost names (DAtom a)"
        using cost_nonneg True by (simp add: tail_cost_def add_nonneg_nonneg)
      then show ?thesis
        using gives_tail_mono [OF close_gives] True by simp
    next
      case False
      then show ?thesis using dotted_tail_gives [OF name_gives] by simp
    qed
    then show ?case using name_gives by simp
  next
    case (DPair d e)
    then show ?case using pair_gives [of names d e] pair_tail_gives [of names d e] by simp
  qed simp_all
  then show "gives names d (read_cost names d)" "gives_tail names d (tail_text names d) (tail_cost names d)"
    by simp_all
qed

text \<open>White space in front of a datum is skipped.\<close>

theorem read_datum:
  assumes "readable s names d" "delimited rest" "port_at j (ws @ datum_text names d @ rest) s" "set ws \<subseteq> {32, 9, 10, 12}"
    and "ready (cost * int (length ws) + cost + read_cost names d) s"
  shows "reads read_env rest (cost * int (length ws) + cost + read_cost names d) d s"
  using assms
proof (induction ws arbitrary: j s)
  case Nil
  obtain b bs where b: "datum_text names d = b # bs" using datum_begins [OF Nil.prems(1)] by blast
  have r: "ready (cost + read_cost names d) s" using Nil.prems(5) by simp
  obtain t where t: "readchar s = Some (Inr (code b), t)" "port_at True (bs @ rest) t" "advances cost s t"
    "ready (read_cost names d) t"
    using read_step [of j b "bs @ rest" s, OF _ r] Nil.prems(3) b by auto
  have "reads (reader (Sexp (code b))) rest (read_cost names d) d t"
    using gives_datum(1) [OF Nil.prems(1)] advances_readable [OF Nil.prems(1) t(3)] b Nil.prems(2) t(2,4)
    unfolding gives_def by blast
  then show ?case
    using reads_after [where f = readchar and s = s, OF t(1,3)] by (simp add: read_env_def reader_read_sexp_c_def)
next
  case (Cons w ws)
  let ?k = "cost * int (length ws) + cost + read_cost names d"
  have k: "0 \<le> ?k" using cost_nonneg by (simp add: add_nonneg_nonneg)
  have r: "ready (cost + ?k) s" using Cons.prems(5) by (simp add: algebra_simps)
  obtain t where t: "readchar s = Some (Inr (code w), t)" "port_at True (ws @ datum_text names d @ rest) t" "advances cost s t"
    "ready ?k t"
    using read_step [of j w "ws @ datum_text names d @ rest" s, OF _ r] Cons.prems(3) k by auto
  have "reads read_env rest ?k d t"
    using Cons.IH [OF advances_readable [OF Cons.prems(1) t(3)] Cons.prems(2) t(2) _ t(4)] Cons.prems(4) by simp
  moreover have "reader (Sexp (code w)) = read_env"
    using Cons.prems(4) by (auto simp: reader_Sexp_simps read_env_def reader_read_sexp_c_def [abs_def])
  ultimately have "reads (reader_read_sexp_c (code w)) rest ?k d t"
    by (simp add: reader_read_sexp_c_def)
  then have "reads (mbind readchar reader_read_sexp_c) rest (cost + ?k) d s"
    by (rule reads_after [where f = readchar and s = s, OF t(1,3)])
  then show ?case
    by (simp add: read_env_def algebra_simps)
qed

end

section \<open>A list that is not closed\<close>

definition eof_in_list :: "byte list" where
  "eof_in_list = butlast (cstring ''EOF in list'')"

text \<open>
  What may follow the open parenthesis of a list that is cut off: any number of blanks, data and
  dots, and open parentheses of lists inside it, up to the end of the input.
\<close>

datatype open_list = Cut | Blank byte open_list | Item datum open_list | Dot open_list | Open open_list

fun open_text :: "(addr \<rightharpoonup> byte list) \<Rightarrow> open_list \<Rightarrow> byte list" where
  "open_text names Cut = []"
| "open_text names (Blank b p) = b # open_text names p"
| "open_text names (Item d p) = datum_text names d @ open_text names p"
| "open_text names (Dot p) = 46 # open_text names p"
| "open_text names (Open p) = 40 # open_text names p"

text \<open>The data can be read, and a delimiter or the end follows each of them.\<close>

fun cut_off :: "mst \<Rightarrow> (addr \<rightharpoonup> byte list) \<Rightarrow> open_list \<Rightarrow> bool" where
  "cut_off s names Cut = True"
| "cut_off s names (Blank b p) = (b \<in> {9, 10, 11, 12, 13, 32} \<and> cut_off s names p)"
| "cut_off s names (Item d p) = (readable s names d \<and> delimited (open_text names p) \<and> cut_off s names p)"
| "cut_off s names (Dot p) = (delimited (open_text names p) \<and> cut_off s names p)"
| "cut_off s names (Open p) = cut_off s names p"

fun open_cells :: "(addr \<rightharpoonup> byte list) \<Rightarrow> open_list \<Rightarrow> int" where
  "open_cells names (Item d p) = cells_of names d + open_cells names p"
| "open_cells names (Blank b p) = open_cells names p"
| "open_cells names (Dot p) = open_cells names p"
| "open_cells names (Open p) = open_cells names p"
| "open_cells names Cut = 0"

lemma open_cells_nonneg [simp]: "0 \<le> open_cells names p"
  by (induction p) simp_all

lemma advances_cut_off: "cut_off s names p \<Longrightarrow> advances n s t \<Longrightarrow> cut_off t names p"
  by (induction p) (auto intro: advances_readable)

text \<open>\<open>raises_eof f s\<close>: the program \<open>f\<close> ends with \<^verbatim>\<open>not-a-pair\<close> and the message \<^verbatim>\<open>EOF in list\<close>.\<close>

definition raises_eof :: "addr mes \<Rightarrow> mst \<Rightarrow> bool" where
  "raises_eof f s \<longleftrightarrow> (\<exists>m t. f s = Some (Inl (Throw cell_symbol_not_a_pair m), t) \<and> text_at t TSTRING eof_in_list m)"

lemma raises_eof_bind: "raises_eof f s \<Longrightarrow> raises_eof (mbind f g) s"
  by (auto simp: raises_eof_def mbind_def)

lemma raises_eof_after: "f s = Some (Inr x, t) \<Longrightarrow> raises_eof (g x) t \<Longrightarrow> raises_eof (mbind f g) s"
  by (simp add: raises_eof_def)

lemma raises_eof_inner:
  assumes "raises_eof (mbind f g) s"
  shows "raises_eof (mbind f (\<lambda>x. mbind (g x) h)) s"
  using raises_eof_bind [OF assms, of h] by (simp add: mbind_assoc)

lemma raises_eof_at_end:
  assumes "ready 6 s" "24 \<le> MAX_STRING s"
  shows "raises_eof (reader (List (- 1))) s"
proof -
  have c: "cstring ''EOF in list'' = eof_in_list @ [0]" and len: "length eof_in_list = 11"
    by (simp_all add: eof_in_list_def cstring_def)
  have "symbol_name s eof_in_list"
    unfolding symbol_name_def using assms(2) len by (simp add: ascii_def eof_in_list_def cstring_def)
  moreover have "string_cells eof_in_list \<le> 6"
    by (simp add: string_cells_def len bytes_cells_eq)
  ultimately obtain t where "make_string0 (cstring ''EOF in list'') s = Some (Inr (g_free s), t)"
    "text_at t TSTRING eof_in_list (g_free s)"
    using make_string0_text [of s eof_in_list] ready_mono [OF assms(1)] unfolding c by blast
  then show ?thesis
    unfolding raises_eof_def by (subst reader_List) (simp add: eat_plain isspace_def)
qed

context input_port
begin

definition open_cost :: "(addr \<rightharpoonup> byte list) \<Rightarrow> open_list \<Rightarrow> int" where
  "open_cost names p = 6 * cost * int (length (open_text names p)) + open_cells names p + 6"

lemma open_cost_nonneg [simp]: "0 \<le> open_cost names p"
  using cost_nonneg by (simp add: open_cost_def add_nonneg_nonneg)

text \<open>A datum of the list is read, and the error comes from what follows it.\<close>

lemma item_raises:
  assumes d: "readable s names d" "datum_text names d = b # bs" "delimited tx"
    and port: "port_at j (bs @ tx) s" and rdy: "ready (cost + read_cost names d + n) s" "0 \<le> n"
    and tail: "\<And>u. port_at False tx u \<Longrightarrow> advances (cost + read_cost names d) s u \<Longrightarrow> ready n u
      \<Longrightarrow> raises_eof (mbind readchar (\<lambda>c. reader (List c))) u"
  shows "raises_eof (reader (List (code b))) s"
proof -
  have bg: "begins b bs" using datum_begins [OF d(1)] d(2) by auto
  have r: "ready (cost + (read_cost names d + n)) s" using rdy(1) by (simp add: algebra_simps)
  obtain t where t: "reader_eat_whitespace (code b) s = Some (Inr (code b), t)" "port_at False (bs @ tx) t"
    "advances cost s t" "ready (read_cost names d + n) t"
    by (rule eat_first [OF bg port r]) (use rdy(2) in simp)
  have rt: "readable t names d" by (rule advances_readable [OF d(1) t(3)])
  have "reads (reader (Sexp (code b))) tx (read_cost names d) d t"
    using gives_datum(1) [OF d(1)] rt d(2,3) t(2) ready_mono [OF t(4), of "read_cost names d"] rdy(2)
    unfolding gives_def by auto
  then obtain p u where u: "reader (Sexp (code b)) t = Some (Inr p, u)" "repr u d p" "port_at False tx u"
    "advances (read_cost names d) t u"
    by (auto simp: reads_def)
  have ru: "ready n u" by (rule advances_ready [OF u(4) t(4)])
  have nd: "p \<noteq> cell_dot"
    using readable_not_dot [OF advances_readable [OF rt u(4)] u(2)] ru by (simp add: ready_def)
  have "raises_eof (mbind readchar (\<lambda>c'. mbind (reader (List c')) (cons p))) u"
    by (rule raises_eof_inner [OF tail [OF u(3) advances_trans [OF t(3) u(4)] ru]])
  moreover have "code b \<noteq> 41" "code b \<noteq> - 1"
    using bg code_not_end [of b] by (simp_all add: begins_def)
  ultimately show ?thesis
    using t(1) u(1) nd by (subst reader_List) (simp add: raises_eof_def)
qed

text \<open>A dot is followed by the end or by a delimiter, and the reader goes on with a list.\<close>

lemma dot_raises:
  assumes del: "delimited tx" and port: "port_at j tx s" and rdy: "ready (cost + n) s" "0 \<le> n"
    and tail: "\<And>u. port_at False tx u \<Longrightarrow> advances cost s u \<Longrightarrow> ready n u
      \<Longrightarrow> raises_eof (mbind readchar (\<lambda>c. reader (List c))) u"
  shows "raises_eof (reader (List (code 46))) s"
proof -
  obtain c u where u: "peekchar s = Some (Inr c, u)" "\<not> reader_identifier_p c" "port_at False tx u"
    "advances cost s u" "ready n u"
  proof (cases tx)
    case Nil
    then show thesis
      using that [of "- 1" s] peek_end port weaken_any [OF port] cost_refl [OF rdy(1)] ready_cost [OF rdy(1)]
      by (simp add: reader_identifier_p_def)
  next
    case (Cons b bs)
    obtain u where u: "peekchar s = Some (Inr (code b), u)" "port_at False (b # bs) u" "advances cost s u" "ready n u"
      using peek_step [of j b bs s n] port rdy Cons by auto
    have "\<not> reader_identifier_p (code b)"
      using del Cons by (auto simp: delimited_def reader_identifier_p_def code_ascii)
    then show thesis using that u Cons by blast
  qed
  have "raises_eof (mbind readchar (\<lambda>c'. mbind (reader (List c')) get_car)) u"
    by (rule raises_eof_inner [OF tail [OF u(3-5)]])
  moreover have "reader (Sexp 46) s = Some (Inr cell_dot, u)"
    using u(1,2) by (simp add: reader_Sexp_simps)
  moreover have "reader_eat_whitespace 46 s = Some (Inr 46, s)"
    by (simp add: eat_plain isspace_def)
  ultimately show ?thesis
    by (subst reader_List) (simp add: raises_eof_def)
qed

lemma open_list_raises:
  assumes "cut_off s names p" "port_at j (open_text names p) s" "ready (open_cost names p) s" "24 \<le> MAX_STRING s"
  shows "raises_eof (mbind readchar (\<lambda>c. reader (List c))) s"
  using assms
proof (induction p arbitrary: j s)
  case Cut
  then show ?case
    using raises_eof_at_end [of s] read_end [of j s] by (simp add: open_cost_def raises_eof_after)
next
  case (Blank b p)
  have le: "cost + open_cost names p \<le> open_cost names (Blank b p)"
    using cost_nonneg by (simp add: open_cost_def algebra_simps)
  obtain t where t: "readchar s = Some (Inr (code b), t)" "port_at True (open_text names p) t" "advances cost s t"
    "ready (open_cost names p) t"
    using read_step [of j b "open_text names p" s "open_cost names p"] Blank.prems(2) ready_mono [OF Blank.prems(3) le] by auto
  have "isspace (code b)"
    using Blank.prems(1) by (auto simp: isspace_def code_ascii)
  moreover have "raises_eof (mbind readchar (\<lambda>c. reader (List c))) t"
    using Blank.IH [OF _ t(2,4)] Blank.prems(1,4) advances_cut_off [OF _ t(3)] advancesD(6) [OF t(3)] by simp
  ultimately have "raises_eof (reader (List (code b))) t"
    by (simp add: raises_eof_def reader_List_space)
  then show ?case by (rule raises_eof_after [where f = readchar and s = s, OF t(1)])
next
  case (Item d p)
  have rd: "readable s names d" and del: "delimited (open_text names p)" and op: "cut_off s names p"
    using Item.prems(1) by simp_all
  obtain b bs where b: "datum_text names d = b # bs" using datum_begins [OF rd] by blast
  have le: "cost + (cost + read_cost names d + open_cost names p) \<le> open_cost names (Item d p)"
    using cost_nonneg mult_nonneg_nonneg [of cost "int (length bs)"]
    by (simp add: open_cost_def read_cost_def b algebra_simps)
  obtain t where t: "readchar s = Some (Inr (code b), t)" "port_at True (bs @ open_text names p) t" "advances cost s t"
    "ready (cost + read_cost names d + open_cost names p) t"
    using read_step [of j b "bs @ open_text names p" s "cost + read_cost names d + open_cost names p"] Item.prems(2) b ready_mono [OF Item.prems(3) le] cost_nonneg
    by auto
  have "raises_eof (reader (List (code b))) t"
  proof (rule item_raises [OF advances_readable [OF rd t(3)] b del t(2,4)])
    fix u assume u: "port_at False (open_text names p) u" "advances (cost + read_cost names d) t u" "ready (open_cost names p) u"
    show "raises_eof (mbind readchar (\<lambda>c. reader (List c))) u"
      using Item.IH [OF advances_cut_off [OF advances_cut_off [OF op t(3)] u(2)] u(1,3)] Item.prems(4)
        advancesD(6) [OF t(3)] advancesD(6) [OF u(2)] by simp
  qed simp
  then show ?case by (rule raises_eof_after [where f = readchar and s = s, OF t(1)])
next
  case (Dot p)
  have le: "cost + (cost + open_cost names p) \<le> open_cost names (Dot p)"
    using cost_nonneg by (simp add: open_cost_def algebra_simps)
  obtain t where t: "readchar s = Some (Inr (code 46), t)" "port_at True (open_text names p) t" "advances cost s t"
    "ready (cost + open_cost names p) t"
    using read_step [of j 46 "open_text names p" s "cost + open_cost names p"] Dot.prems(2) ready_mono [OF Dot.prems(3) le] cost_nonneg by auto
  have "raises_eof (reader (List (code 46))) t"
  proof (rule dot_raises [OF _ t(2,4)])
    fix u assume u: "port_at False (open_text names p) u" "advances cost t u" "ready (open_cost names p) u"
    show "raises_eof (mbind readchar (\<lambda>c. reader (List c))) u"
      using Dot.IH [OF advances_cut_off [OF advances_cut_off [OF _ t(3)] u(2)] u(1,3)] Dot.prems(1,4)
        advancesD(6) [OF t(3)] advancesD(6) [OF u(2)] by simp
  qed (use Dot.prems(1) in simp_all)
  then show ?case by (rule raises_eof_after [where f = readchar and s = s, OF t(1)])
next
  case (Open p)
  have le: "cost + open_cost names p \<le> open_cost names (Open p)"
    using cost_nonneg by (simp add: open_cost_def algebra_simps)
  obtain t where t: "readchar s = Some (Inr (code 40), t)" "port_at True (open_text names p) t" "advances cost s t"
    "ready (open_cost names p) t"
    using read_step [of j 40 "open_text names p" s "open_cost names p"] Open.prems(2) ready_mono [OF Open.prems(3) le] by auto
  have "raises_eof (mbind readchar (\<lambda>c. reader (List c))) t"
    using Open.IH [OF _ t(2,4)] Open.prems(1,4) advances_cut_off [OF _ t(3)] advancesD(6) [OF t(3)] by simp
  then have "raises_eof (reader (Sexp 40)) t"
    by (simp add: reader_Sexp_simps)
  moreover have "reader_eat_whitespace 40 t = Some (Inr 40, t)"
    by (simp add: eat_plain isspace_def)
  ultimately have "raises_eof (reader (List 40)) t"
    unfolding raises_eof_def by (subst reader_List) (auto simp: mbind_def)
  then show ?case
    using raises_eof_after [where f = readchar and s = s, OF t(1)] by simp
qed

lemma unclosed_list:
  assumes "cut_off s names p" "port_at j (40 # open_text names p) s" "ready (cost + open_cost names p) s" "24 \<le> MAX_STRING s"
  shows "raises_eof read_env s"
proof -
  obtain t where t: "readchar s = Some (Inr (code 40), t)" "port_at True (open_text names p) t" "advances cost s t"
    "ready (open_cost names p) t"
    using read_step [OF assms(2,3)] by auto
  have "raises_eof (mbind readchar (\<lambda>c. reader (List c))) t"
    using open_list_raises [OF advances_cut_off [OF assms(1) t(3)] t(2,4)] assms(4) advancesD(6) [OF t(3)] by simp
  then show ?thesis
    using raises_eof_after [where f = readchar and s = s and g = reader_read_sexp_c, OF t(1)]
    by (simp add: read_env_def reader_read_sexp_c_def [abs_def] reader_Sexp_simps)
qed

end

section \<open>Reading from a file\<close>

text \<open>Nothing that was there is changed, by the second interpretation of the contract.\<close>

lemma read_file_keeps:
  assumes "readable s names d" "delimited rest" "fd_input fd j (ws @ datum_text names d @ rest) s" "set ws \<subseteq> {32, 9, 10, 12}"
    and "ready (cells_of names d) s"
  shows "\<exists>p t. read_env s = Some (Inr p, t) \<and> repr t d p \<and> fd_input fd False rest t \<and> extends s t
    \<and> g_free t \<le> g_free s + cells_of names d \<and> g_symbols t = g_symbols s"
proof -
  have "fd_keeping (g_free s) (heap s) fd j (ws @ datum_text names d @ rest) s"
    using assms(3) by (simp add: fd_keeping_def)
  from keepport.read_datum [OF assms(1,2) this assms(4)] assms(5)
  obtain p t where t: "read_env s = Some (Inr p, t)" "repr t d p" "fd_keeping (g_free s) (heap s) fd False rest t"
    "advances (cells_of names d) s t"
    by (auto simp: keepport.read_cost_def keepport.reads_def)
  moreover have "extends s t"
    using t(3,4) by (simp add: fd_keeping_def advances_def extends_def)
  ultimately show ?thesis
    using advancesD(3,7) [OF t(4)] by (auto simp: fd_keeping_def)
qed

section \<open>Writing and reading back\<close>

text \<open>Input is what has been written on the way from \<open>s\<close> to \<open>t\<close>.\<close>

definition reopened :: "int \<Rightarrow> mst \<Rightarrow> mst \<Rightarrow> mst" where
  "reopened fd s t = t\<lparr>infd := fd, ungetc_buf := (ungetc_buf t)(fd := - 1),
     infile := (infile t)(fd := map snd (rev (take (length (outlog t) - length (outlog s)) (outlog t))))\<rparr>"

theorem write_read_back:
  assumes "heap s 0 = None" "ready (cells_of names d) s" "repr s d x" "printable s names d" "readable s names d" "0 \<le> fd"
  shows "\<exists>t y u. write_c ap x s = Some (Inr cell_unspecified, t) \<and> read_env (reopened fd s t) = Some (Inr y, u)
    \<and> fd_input fd False [] u \<and> repr u d x \<and> repr u d y"
proof -
  let ?t = "written (outfd s) (datum_text names d) 4 s" let ?r = "reopened fd s ?t"
  have w: "write_c ap x s = Some (Inr cell_unspecified, ?t)"
    using write_datum [OF assms(1) _ assms(3,4)] assms(2) by (simp add: ready_def)
  have i: "fd_input fd False ([] @ datum_text names d @ []) ?r"
    using assms(6) by (simp add: fd_input_def reopened_def emit_def rev_map o_def)
  have adv: "advances 0 s ?r"
    using assms(2) by (auto simp: advances_def reopened_def emit_def ready_def arena_ok_def)
  have rdy: "ready (0 * int (length ([] :: byte list)) + 0 + input_port.read_cost 0 names d) ?r"
    using advances_ready [OF adv] assms(2) by (simp add: fdport.read_cost_def)
  have "fdport.reads fd read_env [] (cells_of names d) d ?r"
    using fdport.read_datum [OF advances_readable [OF assms(5) adv] _ i _ rdy]
    by (simp add: delimited_def fdport.read_cost_def)
  then obtain y u where u: "read_env ?r = Some (Inr y, u)" "repr u d y" "fd_input fd False [] u" "advances (cells_of names d) ?r u"
    by (auto simp: fdport.reads_def)
  have "repr u d x"
    using advances_repr(1) [OF advances_repr(1) [OF assms(3) adv] u(4)] .
  then show ?thesis using w u by blast
qed

end
