(* ===== verification/Mes_Repl.thy ===== *)
theory Mes_Repl
  imports Mes_Core Mes_Read
begin

text \<open>
  Reading, evaluating and writing: what a datum is as a program, that the representation of the one
  is that of the other, and the composition of the reader, the evaluator and the writer.
\<close>

section \<open>Data as programs\<close>

fun formals_of :: "datum \<Rightarrow> addr list option" where
  "formals_of (DAtom a) = (if a = cell_nil then Some [] else None)"
| "formals_of (DPair (DAtom k) d) = (if k \<in> reserved \<union> {cell_nil, cell_f, cell_t} then None else map_option ((#) k) (formals_of d))"
| "formals_of d = None"

fun quoted_of :: "datum \<Rightarrow> datum option" where
  "quoted_of (DPair d (DAtom z)) = (if z = cell_nil then Some d else None)"
| "quoted_of d = None"

fun exp_of :: "datum \<Rightarrow> exp option" and exps_of :: "datum \<Rightarrow> exp list option" where
  "exp_of (DNum n) = Some (Const (DNum n))"
| "exp_of (DChar c) = Some (Const (DChar c))"
| "exp_of (DStr bs) = Some (Const (DStr bs))"
| "exp_of (DAtom a) = (if a \<in> {cell_nil, cell_f, cell_t} then Some (Const (DAtom a))
     else if a \<in> reserved then None else Some (Var a))"
| "exp_of (DPair f e) =
     (if f = DAtom cell_symbol_quote then map_option Quote (quoted_of e)
      else if f = DAtom cell_symbol_if
      then (case exps_of e of Some [c, x, y] \<Rightarrow> Some (If c x y) | _ \<Rightarrow> None)
      else if f = DAtom cell_symbol_lambda
      then (case e of DPair fs b \<Rightarrow> (case formals_of fs of None \<Rightarrow> None | Some ks \<Rightarrow> map_option (Lam ks) (exps_of b)) | _ \<Rightarrow> None)
      else (case exp_of f of None \<Rightarrow> None | Some g \<Rightarrow> map_option (Call g) (exps_of e)))"
| "exp_of d = None"
| "exps_of (DAtom a) = (if a = cell_nil then Some [] else None)"
| "exps_of (DPair d e) = (case exp_of d of None \<Rightarrow> None | Some x \<Rightarrow> map_option ((#) x) (exps_of e))"
| "exps_of d = None"

section \<open>Their representations\<close>

text \<open>The keywords and entries of the evaluator are in place: symbols or special objects.\<close>

definition keywords_ok :: "mst \<Rightarrow> bool" where
  "keywords_ok s \<longleftrightarrow> (\<forall>k \<in> reserved. \<exists>c. lookup s k = Some c \<and> (ctype c = TSYMBOL \<or> ctype c = TSPECIAL))"

lemma readable_atom:
  assumes "readable s names (DAtom a)" "specials_ok s"
  shows "a \<in> {cell_nil, cell_f, cell_t} \<or> symbol_cell s a" "datum_at s (DAtom a) a"
proof -
  show a: "a \<in> {cell_nil, cell_f, cell_t} \<or> symbol_cell s a"
    using assms(1) by (auto simp: symbol_cell_def simp del: lookup_Some)
  show "datum_at s (DAtom a) a"
  proof (cases "a \<in> {cell_nil, cell_f, cell_t}")
    case True
    then show ?thesis
      using special_datum [OF assms(2), of a] by (auto simp: cells)
  next
    case False
    then obtain c where c: "lookup s a = Some c" "ctype c = TSYMBOL"
      using a by (auto simp: symbol_cell_def)
    moreover have "a \<noteq> cell_undefined"
      using specials_okD [OF assms(2), of cell_undefined] c by (auto simp: cells)
    ultimately show ?thesis
      by (auto simp: datum_at_def by_identity_def)
  qed
qed

lemma keyword_symbol:
  "readable s names (DAtom k) \<Longrightarrow> specials_ok s \<Longrightarrow> k \<notin> {cell_nil, cell_f, cell_t} \<Longrightarrow> symbol_cell s k"
  using readable_atom(1) by blast

lemma readable_datum_at:
  assumes "readable s names d" "specials_ok s" "repr s d p"
  shows "datum_at s d p"
  using assms
proof (induction s names d arbitrary: p rule: readable.induct)
  case (4 s names a)
  then show ?case using readable_atom(2) [OF 4(1,2)] by simp
qed (auto simp: datum_at_def)

lemma pair_not_nil: "specials_ok s \<Longrightarrow> lookup s p = Some c \<Longrightarrow> ctype c = TPAIR \<Longrightarrow> p \<noteq> cell_nil"
  using specials_okD [of s cell_nil] by (auto simp: cells)

lemma formals_at_list: "formals_at s p ks None \<longleftrightarrow> list_at s p ks"
  by (auto simp: formals_at_def list_at_def)

lemma formals_of_at:
  assumes "specials_ok s"
  shows "formals_of d = Some ks \<Longrightarrow> repr s d p \<Longrightarrow> formals_at s p ks None \<and> set ks \<inter> reserved = {}"
  unfolding formals_at_list
proof (induction d arbitrary: ks p rule: formals_of.induct)
  case (2 k d)
  then obtain ks' where k: "k \<notin> reserved" "formals_of d = Some ks'" "ks = k # ks'" "k \<notin> reserved \<union> {cell_nil, cell_f, cell_t}"
    by (auto split: if_splits)
  obtain c where c: "lookup s p = Some c" "ctype c = TPAIR" "ccar c = k" "repr s d (ccdr c)"
    using 2(3) by auto
  have "list_at s (ccdr c) ks' \<and> set ks' \<inter> reserved = {}"
    using 2(1) [OF k(4,2) c(4)] .
  with c k(1,3) pair_not_nil [OF assms c(1,2)] show ?case
    by (auto simp: list_at_Cons)
qed (auto split: if_splits)

lemma pair_cell: "ctype c = TPAIR \<Longrightarrow> c = mk_cell TPAIR (ccar c) (ccdr c)"
  by simp

lemma operator_not_reserved:
  assumes "exp_of f = Some g" "repr s f a" "keywords_ok s"
  shows "a \<notin> reserved"
proof
  assume "a \<in> reserved"
  then obtain c where c: "lookup s a = Some c" "ctype c = TSYMBOL \<or> ctype c = TSPECIAL"
    using assms(3) by (auto simp: keywords_ok_def)
  have "cell_nil \<notin> reserved" "cell_f \<notin> reserved" "cell_t \<notin> reserved"
    by (simp_all add: reserved_def cells)
  with c \<open>a \<in> reserved\<close> assms(1,2) show False
    by (cases f) (auto simp: text_at_def split: if_splits)
qed

text \<open>The representation of a program that can be read is that of its expression.\<close>

lemma exp_of_at:
  assumes sp: "specials_ok s" and kw: "keywords_ok s"
  shows "exp_of d = Some e \<Longrightarrow> readable s names d \<Longrightarrow> repr s d p \<Longrightarrow> exp_at s e p"
    "exps_of d = Some es \<Longrightarrow> readable s names d \<Longrightarrow> repr s d p \<Longrightarrow> \<exists>xs. list_at s p xs \<and> list_all2 (exp_at s) es xs"
proof (induction d and d arbitrary: e p and es p rule: exp_of_exps_of.induct)
  case (1 n)
  then show ?case using readable_datum_at [OF 1(2) sp 1(3)] by (auto intro!: exp_at.const simp: self_evaluating_def)
next
  case (2 c)
  then show ?case using readable_datum_at [OF 2(2) sp 2(3)] by (auto intro!: exp_at.const simp: self_evaluating_def)
next
  case (3 bs)
  then show ?case using readable_datum_at [OF 3(2) sp 3(3)] by (auto intro!: exp_at.const simp: self_evaluating_def text_at_def)
next
  case (4 a)
  have p: "p = a" using 4(3) by simp
  show ?case
  proof (cases "a \<in> {cell_nil, cell_f, cell_t}")
    case True
    then have "\<exists>c. lookup s a = Some c \<and> ctype c = TSPECIAL"
      using specials_okD [OF sp, of a] by (auto simp: cells)
    then show ?thesis
      using True 4(1) readable_atom(2) [OF 4(2) sp] p by (auto intro!: exp_at.const simp: self_evaluating_def)
  next
    case False
    then show ?thesis
      using 4(1) readable_atom(1) [OF 4(2) sp] p by (auto intro!: exp_at.var split: if_splits)
  qed
next
  case (5 f e')
  obtain c where c: "lookup s p = Some c" "ctype c = TPAIR" "repr s f (ccar c)" "repr s e' (ccdr c)"
    using "5.prems"(3) by auto
  have r: "readable s names f" "readable s names e'"
    using "5.prems"(2) by simp_all
  have p: "lookup s p = Some (mk_cell TPAIR (ccar c) (ccdr c))"
    using c(1,2) pair_cell by simp
  consider (quote) "f = DAtom cell_symbol_quote" | (cond) "f = DAtom cell_symbol_if" "f \<noteq> DAtom cell_symbol_quote"
    | (lam) "f = DAtom cell_symbol_lambda" "f \<noteq> DAtom cell_symbol_quote" "f \<noteq> DAtom cell_symbol_if"
    | (call) "f \<noteq> DAtom cell_symbol_quote" "f \<noteq> DAtom cell_symbol_if" "f \<noteq> DAtom cell_symbol_lambda"
    by blast
  then show ?case
  proof cases
    case quote
    then obtain d where d: "quoted_of e' = Some d" "e = Quote d"
      using "5.prems"(1) by auto
    then have e': "e' = DPair d (DAtom cell_nil)"
      by (cases e' rule: quoted_of.cases) (auto split: if_splits)
    then obtain c2 where c2: "lookup s (ccdr c) = Some c2" "ctype c2 = TPAIR" "repr s d (ccar c2)"
      using c(4) by auto
    have "symbol_cell s cell_symbol_quote"
      by (rule keyword_symbol [OF r(1) [unfolded quote] sp]) (simp add: cells)
    moreover have "ccar c = cell_symbol_quote"
      using c(3) quote by simp
    moreover have "datum_at s d (ccar c2)"
      using readable_datum_at [of s names d] r(2) e' sp c2(3) by simp
    moreover have "lookup s (ccdr c) = Some (mk_cell TPAIR (ccar c2) (ccdr c2))"
      using c2(1,2) pair_cell by simp
    ultimately show ?thesis
      unfolding d(2) using p exp_at.quote [of s p "ccdr c" "ccar c2" "ccdr c2" d] by simp
  next
    case cond
    then obtain x y z where e: "exps_of e' = Some [x, y, z]" "e = If x y z"
      using "5.prems"(1) by (auto split: option.splits list.splits)
    obtain xs where xs: "list_at s (ccdr c) xs" "list_all2 (exp_at s) [x, y, z] xs"
      using "5.IH"(1) [OF cond(2,1) e(1) r(2) c(4)] by blast
    then obtain x' y' z' where x: "xs = [x', y', z']" "exp_at s x x'" "exp_at s y y'" "exp_at s z z'"
      by (auto simp: list_all2_Cons1)
    obtain c1 c2 c3 where q: "lookup s (ccdr c) = Some c1" "ctype c1 = TPAIR" "ccar c1 = x'"
      "lookup s (ccdr c1) = Some c2" "ctype c2 = TPAIR" "ccar c2 = y'"
      "lookup s (ccdr c2) = Some c3" "ctype c3 = TPAIR" "ccar c3 = z'" "ccdr c2 \<noteq> cell_nil"
      using xs(1) unfolding x(1) by (auto simp: list_at_Cons)
    have "symbol_cell s cell_symbol_if"
      by (rule keyword_symbol [OF r(1) [unfolded cond(1)] sp]) (simp add: cells)
    moreover have "ccar c = cell_symbol_if"
      using c(3) cond(1) by simp
    moreover have "lookup s (ccdr c) = Some (mk_cell TPAIR x' (ccdr c1))" "lookup s (ccdr c1) = Some (mk_cell TPAIR y' (ccdr c2))"
      "lookup s (ccdr c2) = Some (mk_cell TPAIR z' (ccdr c3))"
      using q pair_cell by metis+
    ultimately show ?thesis
      unfolding e(2) using p x(2-4) q(10) exp_at.cond [of s p "ccdr c" x' "ccdr c1" y' "ccdr c2" z' "ccdr c3" x y z] by simp
  next
    case lam
    then obtain fs b ks es where e: "e' = DPair fs b" "formals_of fs = Some ks" "exps_of b = Some es" "e = Lam ks es"
      using "5.prems"(1) by (auto split: option.splits datum.splits)
    obtain c2 where c2: "lookup s (ccdr c) = Some c2" "ctype c2 = TPAIR" "repr s fs (ccar c2)" "repr s b (ccdr c2)"
      using c(4) e(1) by auto
    have "readable s names b" using r(2) e(1) by simp
    then obtain xs where xs: "list_at s (ccdr c2) xs" "list_all2 (exp_at s) es xs"
      using "5.IH"(2) [OF lam(2,3,1) e(1,2) e(3) _ c2(4)] by blast
    have "symbol_cell s cell_symbol_lambda"
      by (rule keyword_symbol [OF r(1) [unfolded lam(1)] sp]) (simp add: cells)
    moreover have "ccar c = cell_symbol_lambda"
      using c(3) lam(1) by simp
    moreover have "lookup s (ccdr c) = Some (mk_cell TPAIR (ccar c2) (ccdr c2))"
      using c2(1,2) pair_cell by simp
    ultimately show ?thesis
      unfolding e(4) using p xs formals_of_at [OF sp e(2) c2(3)] exp_at.lam [of s p "ccdr c" "ccar c2" "ccdr c2" ks xs es] by simp
  next
    case call
    then obtain g es where e: "exp_of f = Some g" "exps_of e' = Some es" "e = Call g es"
      using "5.prems"(1) by (auto split: option.splits)
    obtain xs where xs: "list_at s (ccdr c) xs" "list_all2 (exp_at s) es xs"
      using "5.IH"(4) [OF call e(1) e(2) r(2) c(4)] by blast
    have "exp_at s g (ccar c)"
      by (rule "5.IH"(3) [OF call e(1) r(1) c(3)])
    then show ?thesis
      unfolding e(3) using exp_at.call [OF p operator_not_reserved [OF e(1) c(3) kw] _ xs] by simp
  qed
next
  case (7 a)
  then show ?case by (auto split: if_splits)
next
  case (8 d e')
  then obtain x es' where e: "exp_of d = Some x" "exps_of e' = Some es'" "es = x # es'"
    by (auto split: option.splits)
  obtain c where c: "lookup s p = Some c" "ctype c = TPAIR" "repr s d (ccar c)" "repr s e' (ccdr c)"
    using "8.prems"(3) by auto
  have r: "readable s names d" "readable s names e'"
    using "8.prems"(2) by simp_all
  obtain xs where "list_at s (ccdr c) xs" "list_all2 (exp_at s) es' xs"
    using "8.IH"(2) [OF e(1,2) r(2) c(4)] by blast
  with "8.IH"(1) [OF e(1) r(1) c(3)] c(1,2) e(3) pair_not_nil [OF sp c(1,2)] show ?case
    by (intro exI [of _ "ccar c # xs"]) (auto simp: list_at_Cons)
qed (simp_all)

section \<open>Read, evaluate, write\<close>

text \<open>Without string ports, reading from a file changes nothing that is there.\<close>

definition portless :: "mst \<Rightarrow> bool" where
  "portless s \<longleftrightarrow> (\<forall>x c. lookup s x = Some c \<longrightarrow> ctype c \<noteq> TPORT)"

lemma advances_extends:
  assumes "advances n s t" "portless s"
  shows "extends s t"
  unfolding extends_def
proof (intro conjI allI impI)
  show "g_free s \<le> g_free t"
    using assms(1) by (simp add: advances_def)
  fix x assume x: "x < g_free s"
  then show "bytes t x = bytes s x" using assms(1) by (simp add: advances_def)
  show "heap t x = heap s x"
  proof (cases "heap s x")
    case None
    with x show ?thesis using assms(1) by (auto simp: advances_def)
  next
    case (Some c)
    with x have "ctype c \<noteq> TPORT" using assms(2) by (auto simp: portless_def)
    with Some x show ?thesis using assms(1) unfolding advances_def by auto
  qed
qed

lemma keywords_ok_extends: "extends s t \<Longrightarrow> keywords_ok s \<Longrightarrow> keywords_ok t"
  unfolding keywords_ok_def using extends_lookup by blast

lemma budget_advances:
  assumes "budget W \<gamma> (m + n) d s" "advances m s t" "extends s t"
  shows "budget W \<gamma> n d t"
proof -
  have "same_run s t" "arena_ok t" using assms(2) by (simp_all add: advances_def)
  moreover have "room (n + GC_SAFETY s + 1) t"
    by (rule advances_room [OF assms(2), of "m + n + GC_SAFETY s + 1"]) (use assms(1) in \<open>simp_all add: budget_def\<close>)
  moreover have "specials_ok t"
    using advances_specials [OF assms(2)] assms(1) by (simp add: budget_def)
  ultimately show ?thesis
    using assms(1) globals_at_extends [OF _ assms(3)] by (simp add: budget_def same_run_def)
qed

lemma evaluate_program:
  assumes "exp_of d = Some e" "readable s names d" "repr s d p" "keywords_ok s"
    and "interp \<gamma> m \<rho> e = Some (Obj v, n, k)" "env_at W s \<rho> (R0 s)" "budget W \<gamma> n (k + 1) s"
  obtains t a where "run_from W Eval (cc_pushed p p2 (R0 s) cell_unspecified s) = Some (Inr a, t)"
    and "repr t v a" and "spends n s t" and "R0 t = R0 s"
proof -
  have "specials_ok s" using assms(7) by (simp add: budget_def)
  then have "exp_at s e p"
    using exp_of_at(1) [OF _ assms(4,1,2,3)] by simp
  then obtain t a where t: "run_from W Eval (cc_pushed p p2 (R0 s) cell_unspecified s) = Some (Inr a, t)"
    "val_at W t (Obj v) a" "spends n s t" "R0 t = R0 s"
    using evaluator_refines [OF assms(5) _ assms(6,7)] by blast
  from t(2) have "repr t v a"
    by (rule val_at_objE) (simp add: datum_at_def)
  with t that show ?thesis by blast
qed

lemma printable_extends: "printable s names d \<Longrightarrow> extends s t \<Longrightarrow> printable t names d"
proof (induction s names d rule: printable.induct)
  case (2 s names a)
  then show ?case using text_at_extends [OF 2(2)] by auto
qed (auto simp: list_all_iff)

text \<open>
  A program is read from a file, evaluated and its value written: the text of the program gives the
  text of what the interpreter makes of it.
\<close>

lemma read_eval_write:
  assumes read: "readable s names d" "delimited rest" "fd_input fd j (ws @ datum_text names d @ rest) s" "set ws \<subseteq> {32, 9, 10, 12}"
    and eval: "exp_of d = Some e" "interp \<gamma> m \<rho> e = Some (Obj v, n, k)" "env_at W s \<rho> (R0 s)"
      "budget W \<gamma> (cells_of names d + n) (k + 1) s" "keywords_ok s" "portless s"
    and print: "printable s names v" "heap s 0 = None"
  shows "\<exists>p t a u. read_env s = Some (Inr p, t) \<and> fd_input fd False rest t
     \<and> run_from W Eval (cc_pushed p p2 (R0 t) cell_unspecified t) = Some (Inr a, u)
     \<and> write_c ap a u = Some (Inr cell_unspecified,
         u\<lparr>g_depth := 4, outlog := rev (map (Pair (outfd u)) (datum_text names v)) @ outlog u\<rparr>)"
proof -
  have n: "0 \<le> n" using interp_nonneg [OF eval(2)] by simp
  have "ready (cells_of names d) s"
    using budget_ready [OF eval(4)] n by simp
  then obtain p t where t: "read_env s = Some (Inr p, t)" "repr t d p" "fd_input fd False rest t" "advances (cells_of names d) s t"
    using fdport.read_datum [OF read] by (auto simp: fdport.read_cost_def fdport.reads_def)
  have e: "extends s t" by (rule advances_extends [OF t(4) eval(6)])
  have R0: "R0 t = R0 s" using t(4) by (simp add: advances_def same_run_def)
  have b: "budget W \<gamma> n (k + 1) t" by (rule budget_advances [OF eval(4) t(4) e])
  have "env_at W t \<rho> (R0 t)" using env_at_extends [OF e eval(3)] R0 by simp
  then obtain u a where u: "run_from W Eval (cc_pushed p p2 (R0 t) cell_unspecified t) = Some (Inr a, u)"
    "repr u v a" "spends n t u"
    using evaluate_program [OF eval(1) advances_readable [OF read(1) t(4)] t(2) keywords_ok_extends [OF e eval(5)] eval(2) _ b]
    by blast
  have su: "extends s u" by (rule extends_trans [OF e spends_extends [OF u(3)]])
  have sp: "specials_ok s" using eval(4) by (simp add: budget_def)
  have "specials_ok u" by (rule specials_ok_extends [OF su sp])
  moreover have "0 < g_free s" using specials_ok_nil [OF sp] by (simp add: cells)
  then have "heap u 0 = None" using su print(2) by (simp add: extends_def)
  ultimately have "write_c ap a u = Some (Inr cell_unspecified,
         u\<lparr>g_depth := 4, outlog := rev (map (Pair (outfd u)) (datum_text names v)) @ outlog u\<rparr>)"
    using write_datum [OF _ _ u(2) printable_extends [OF print(1) su]] by (simp add: emit_def)
  with t(1,3) u(1) show ?thesis by blast
qed

end
