(* ===== verification/Mes_Bench.thy ===== *)
theory Mes_Bench
  imports Mes_Repl Mes_Link Mes_Sample
begin

text \<open>
  An interpreter with the symbols \<open>lambda\<close>, \<open>a\<close> and \<open>cons\<close>, the primitive \<open>cons\<close> in its
  environment and \<open>((lambda (a) (cons a 2)) 1)\<close> on its input: where the reader, the evaluator and the
  writer are put together.
\<close>

definition bench_cells :: "(addr \<times> cell) list" where
  "bench_cells =
     [(1000140, mk_cell TSTRING 6 1000141), (1000141, mk_cell TBYTES 7 0),
      (1000144, mk_cell TSTRING 1 1000145), (1000145, mk_cell TBYTES 2 0),
      (1000148, mk_cell TSTRING 4 1000149), (1000149, mk_cell TBYTES 5 0),
      (1000200, mk_cell TSTRUCT 5 1000201), (1000201, mk_cell TREF 1000002 0),
      (1000202, mk_cell TREF 1000002 0), (1000203, mk_cell TREF 1000002 0),
      (1000204, mk_cell TNUMBER 0 1), (1000205, mk_cell TREF 1000206 0),
      (1000206, mk_cell TVECTOR 1 1000207), (1000207, mk_cell TREF 1000210 0),
      (1000210, mk_cell TPAIR 1000211 1000212), (1000211, mk_cell TPAIR 1000140 1000041),
      (1000212, mk_cell TPAIR 1000213 1000214), (1000213, mk_cell TPAIR 1000144 1000106),
      (1000214, mk_cell TPAIR 1000215 1000216), (1000215, mk_cell TPAIR 1000148 1000105),
      (1000216, mk_cell TPAIR 1000217 1000002), (1000217, mk_cell TPAIR 1000152 1000104),
      (1000152, mk_cell TSTRING 15 1000153), (1000153, mk_cell TBYTES 16 0),
      (1000275, mk_cell TNUMBER 0 2), (1000276, mk_cell TNUMBER 0 33),
      (1000262, mk_cell TSTRUCT 6 1000263), (1000263, mk_cell TREF 1000002 0),
      (1000264, mk_cell TREF 1000002 0), (1000265, mk_cell TREF cell_symbol_builtin 0),
      (1000266, mk_cell TREF 1000148 0), (1000267, mk_cell TNUMBER 0 2), (1000268, mk_cell TNUMBER 0 33),
      (1000270, mk_cell TPAIR 1000271 1000272), (1000271, mk_cell TPAIR cell_closure 1000272),
      (1000272, mk_cell TPAIR 1000273 1000002), (1000273, mk_cell TPAIR 1000105 1000262)]"

definition bench_bytes :: "(addr \<times> byte list) list" where
  "bench_bytes =
     [(1000141, [108, 97, 109, 98, 100, 97, 0]), (1000145, [97, 0]), (1000149, [99, 111, 110, 115, 0]),
      (1000153, printer_name @ [0])]"

definition bench_text :: "byte list" where
  "bench_text = [40, 40, 108, 97, 109, 98, 100, 97, 32, 40, 97, 41, 32, 40, 99, 111, 110, 115, 32, 97, 32, 50, 41, 41, 32, 49, 41]"

definition bench :: mst where
  "bench = (sample 1000300 bench_cells bench_bytes)
     \<lparr>g_symbols := 1000200, R0 := 1000270, infile := \<lambda>_. 10 # bench_text @ [10]\<rparr>"

definition bench_datum :: datum where
  "bench_datum = list_datum [list_datum [DAtom cell_symbol_lambda, list_datum [DAtom 1000106],
     list_datum [DAtom 1000105, DAtom 1000106, DNum 2]], DNum 1]"

definition bench_names :: "addr \<rightharpoonup> byte list" where
  "bench_names = [cell_nil \<mapsto> [40, 41], cell_symbol_lambda \<mapsto> [108, 97, 109, 98, 100, 97], 1000106 \<mapsto> [97],
     1000105 \<mapsto> [99, 111, 110, 115]]"

definition bench_world :: world where
  "bench_world = mes_world \<lparr>os = (\<lambda>f args. ret (0, [], [])), start_sec = 0, start_nsec = 0, gc_time = 0, junk = 1000002\<rparr>
     (\<lambda>a n. a) (\<lambda>a. mk_cell TCHAR 0 0) 1"

lemmas bench_eval = sample_lookup sample_cell_def sample_heap sample_bytes bench_cells_def bench_bytes_def cells

lemma bench_lookup: "lookup bench = lookup (sample 1000300 bench_cells bench_bytes)"
  "heap bench = heap (sample 1000300 bench_cells bench_bytes)"
  "bytes bench = bytes (sample 1000300 bench_cells bench_bytes)"
  by (simp_all add: bench_def lookup_def fun_eq_iff)

lemmas bench_look = bench_lookup bench_eval

lemma bench_simps [simp]:
  "g_free bench = 1000300" "g_cells bench = 1000001" "ARENA_SIZE bench = 1000" "MAX_STRING bench = 524288"
  "g_symbols bench = 1000200" "R0 bench = 1000270" "infd bench = 0" "outfd bench = 1" "ungetc_buf bench fd = - 1"
  "infile bench fd = 10 # bench_text @ [10]" "STACK_SIZE bench = 20" "g_stack bench = 20" "GC_SAFETY bench = 20"
  "heap bench 0 = None"
  by (simp_all add: bench_lookup sample_heap) (simp_all add: bench_def sample_def)

lemma bench_specials: "specials_ok bench"
proof -
  have "specials_ok (sample 1000300 bench_cells bench_bytes)"
    by (rule sample_specials) (simp_all add: bench_cells_def)
  then show ?thesis by (simp add: specials_ok_def bench_lookup(1) del: lookup_Some)
qed

lemma bench_arena: "arena_ok bench"
  by (simp add: arena_ok_def bench_lookup sample_heap)

lemma bench_budget: "n \<le> 600 \<Longrightarrow> d \<le> 4 \<Longrightarrow> budget W Map.empty n d bench"
  by (simp add: budget_def bench_specials bench_arena room_def)

lemma bench_portless: "portless bench"
  unfolding portless_def
proof (intro allI impI)
  fix x c
  assume "lookup bench x = Some c"
  then have c: "c = sample_cell bench_cells x"
    by (auto simp: bench_lookup sample_lookup split: if_splits simp del: lookup_Some)
  have "\<forall>p \<in> set bench_cells. ctype (snd p) \<noteq> TPORT"
    by (simp add: bench_cells_def)
  then have "ctype d \<noteq> TPORT" if "map_of bench_cells x = Some d" for d
    using map_of_SomeD [OF that] by auto
  then show "ctype c \<noteq> TPORT"
    unfolding c sample_cell_def by (cases "map_of bench_cells x") simp_all
qed

lemma bench_keywords: "keywords_ok bench"
  by (simp add: keywords_ok_def reserved_def bench_look del: lookup_Some)

section \<open>The symbols\<close>

lemma bench_table: "table_at bench 1000200 [1000210] 1000206 1000207"
proof -
  let ?es = "[mk_cell TREF 1000002 0, mk_cell TREF 1000002 0, mk_cell TREF 1000002 0, mk_cell TNUMBER 0 1, mk_cell TREF 1000206 0]"
  have "slots_at TSTRUCT bench 1000200 1000201 ?es"
    by (simp add: slots_at_def All_less_Suc2 bench_look flip: numeral_2_eq_2 del: lookup_Some)
  moreover have "slots_at TVECTOR bench 1000206 1000207 [mk_cell TREF 1000210 0]"
    by (simp add: slots_at_def bench_look del: lookup_Some)
  ultimately show ?thesis
    unfolding table_at_def by (intro exI [of _ 1000201] exI [of _ ?es]) simp
qed

lemma bench_keys: "text_at bench TSTRING [108, 97, 109, 98, 100, 97] 1000140" "text_at bench TSTRING [97] 1000144"
  "text_at bench TSTRING [99, 111, 110, 115] 1000148"
  by (simp_all add: text_at_def bench_look del: lookup_Some)

lemma bench_printer_key: "text_at bench TSTRING printer_name 1000152"
proof -
  have "length printer_name = 15"
    by (simp add: printer_name_def chars_def cstring_def)
  then show ?thesis
    by (simp add: text_at_def bench_look del: lookup_Some)
qed

lemma bench_symbols: "symbols_at bench [[1000211, 1000213, 1000215, 1000217]]"
proof -
  have "bucket_at bench 1000210 [1000211, 1000213, 1000215, 1000217]"
    by (simp add: bucket_at_def alist_at_def list_at_Cons bench_look del: lookup_Some)
  with bench_table have "dict_at bench (g_symbols bench) [[1000211, 1000213, 1000215, 1000217]]"
    unfolding dict_at_def by (intro exI [of _ "[1000210]"]) auto
  moreover have "lookup bench 1000211 = Some (mk_cell TPAIR 1000140 1000041)"
    "lookup bench 1000213 = Some (mk_cell TPAIR 1000144 1000106)" "lookup bench 1000215 = Some (mk_cell TPAIR 1000148 1000105)"
    "lookup bench 1000217 = Some (mk_cell TPAIR 1000152 1000104)"
    by (simp_all add: bench_look del: lookup_Some)
  then have "string_keys bench [1000211, 1000213, 1000215, 1000217]"
    unfolding string_keys_def using bench_keys bench_printer_key by fastforce
  ultimately show ?thesis
    by (simp add: symbols_at_def)
qed

lemma bench_interned: "interned bench [108, 97, 109, 98, 100, 97] 1000041" "interned bench [97] 1000106"
  "interned bench [99, 111, 110, 115] 1000105" "interned bench printer_name 1000104"
proof -
  have b: "bucket_of [hs] bs = (hs :: addr list)" for hs bs
    by (simp add: bucket_of_def hash_value_def smod_int_alt_def to_int_def)
  have k: "key_of bench 1000211 = 1000140" "key_of bench 1000213 = 1000144" "key_of bench 1000215 = 1000148"
    "key_of bench 1000217 = 1000152" "value_of bench 1000217 = 1000104"
    "value_of bench 1000211 = 1000041" "value_of bench 1000213 = 1000106" "value_of bench 1000215 = 1000105"
    by (simp_all add: key_of_def value_of_def bench_look)
  have t: "text_at bench TSTRING bs 1000140 \<longleftrightarrow> bs = [108, 97, 109, 98, 100, 97]" "text_at bench TSTRING bs 1000144 \<longleftrightarrow> bs = [97]"
    "text_at bench TSTRING bs 1000148 \<longleftrightarrow> bs = [99, 111, 110, 115]" "text_at bench TSTRING bs 1000152 \<longleftrightarrow> bs = printer_name" for bs
    using bench_keys bench_printer_key text_at_unique by blast+
  have pn: "printer_name \<noteq> [108, 97, 109, 98, 100, 97]" "printer_name \<noteq> [97]" "printer_name \<noteq> [99, 111, 110, 115]"
    by (simp_all add: printer_name_def chars_def cstring_def)
  have n: "first_named bench [108, 97, 109, 98, 100, 97] [1000211, 1000213, 1000215, 1000217] = Some 1000211"
    "first_named bench [97] [1000211, 1000213, 1000215, 1000217] = Some 1000213"
    "first_named bench [99, 111, 110, 115] [1000211, 1000213, 1000215, 1000217] = Some 1000215"
    "first_named bench printer_name [1000211, 1000213, 1000215, 1000217] = Some 1000217"
    using pn by (simp_all add: first_named_def k t pn [symmetric])
  show "interned bench [108, 97, 109, 98, 100, 97] 1000041" "interned bench [97] 1000106" "interned bench [99, 111, 110, 115] 1000105"
    "interned bench printer_name 1000104"
    unfolding interned_def using bench_symbols n k
    by (auto simp: b cells intro!: exI [of _ "[[1000211, 1000213, 1000215, 1000217]]"])
qed

section \<open>The program\<close>

lemma bench_readable: "readable bench bench_names bench_datum"
proof -
  have "lookup bench 1000041 = Some (mk_cell TSYMBOL 0 1000109)" "lookup bench 1000105 = Some (mk_cell TSYMBOL 0 1000109)"
    "lookup bench 1000106 = Some (mk_cell TSYMBOL 0 1000109)"
    by (simp_all add: bench_look del: lookup_Some)
  moreover have "plain_name [108, 97, 109, 98, 100, 97]" "plain_name [97]" "plain_name [99, 111, 110, 115]"
    by (simp_all add: plain_name_def word_byte_def digit_def)
  ultimately show ?thesis
    using bench_interned by (simp add: bench_datum_def list_datum_def bench_names_def is_long_def cells)
qed

lemma number_digit: "0 \<le> n \<Longrightarrow> n < 10 \<Longrightarrow> number_text n = [of_int n + 48]"
  using ntoab_digits_step [of 10 n] by (simp add: number_text_def digit_byte_def)

lemma bench_datum_text: "datum_text bench_names bench_datum = bench_text"
  by (simp add: bench_datum_def list_datum_def bench_names_def bench_text_def escape_def number_digit cells)

lemma bench_cells_of: "cells_of bench_names bench_datum \<le> 100"
  by (simp add: bench_datum_def list_datum_def bench_names_def string_cells_def bytes_cells_eq cells)

lemma bench_exp: "exp_of bench_datum = Some (Call (Lam [1000106] [Call (Var 1000105) [Var 1000106, Const (DNum 2)]]) [Const (DNum 1)])"
  by (simp add: bench_datum_def list_datum_def reserved_def cells)

definition bench_env :: "(addr \<times> val) list" where
  "bench_env = [(1000105, Prim PCons)]"

lemma bench_value:
  "interp Map.empty 5 bench_env (Call (Lam [1000106] [Call (Var 1000105) [Var 1000106, Const (DNum 2)]]) [Const (DNum 1)])
    = Some (Obj (DPair (DNum 1) (DNum 2)), 28, 3)"
  by (simp add: bench_env_def eval_nat_numeral)

lemma cons_address: "address ''cons'' = 33"
  by (simp add: address_def function_names_def builtin_specs_def)

lemma bench_builtin: "builtin_at bench 1000262 2 33"
proof -
  have "slots_at TSTRUCT bench 1000262 1000263 [mk_cell TREF 1000002 0, mk_cell TREF 1000002 0,
     mk_cell TREF cell_symbol_builtin 0, mk_cell TREF 1000148 0, mk_cell TNUMBER 0 2, mk_cell TNUMBER 0 33]"
    by (simp add: slots_at_def All_less_Suc2 bench_look flip: numeral_2_eq_2 del: lookup_Some)
  moreover have "symbol_cell bench cell_symbol_builtin"
    by (simp add: symbol_cell_def bench_look del: lookup_Some)
  ultimately show ?thesis
    unfolding builtin_at_def by (intro conjI exI) (assumption | simp)+
qed

lemma bench_cons_at: "val_at bench_world bench (Prim PCons) 1000262"
  by (rule linked.builtin_value)
    (use bench_builtin in \<open>simp_all add: bench_world_def mes_world_def prim_arity_def prim_function_def cons_address\<close>)

lemma bench_env_at: "env_at bench_world bench bench_env (R0 bench)"
proof -
  have "frame_at bench 1000270 [(cell_closure, 1000272), (1000105, 1000262)]"
    unfolding frame_at_def
    by (intro exI [of _ "[1000271, 1000273]"]) (simp add: list_at_Cons bench_look del: lookup_Some)
  then show ?thesis
    unfolding env_at_def bench_env_def
    using bench_cons_at
    by (intro exI [of _ cell_closure] exI [of _ 1000272] exI [of _ "[(1000105, 1000262)]"])
      (simp add: bound_def marker_def cells)
qed

lemma bench_input: "fd_input 0 False ([10] @ datum_text bench_names bench_datum @ [10]) bench"
  by (simp add: fd_input_def bench_datum_text)

lemma bench_printer_name: "symbol_name bench printer_name"
  by (simp add: symbol_name_def printer_name_def chars_def cstring_def ascii_def)

lemma bench_objects: "lookup bench 1000275 = Some (mk_cell TNUMBER 0 (prim_arity PCons))"
  "lookup bench 1000276 = Some (mk_cell TNUMBER 0 (address (prim_function PCons)))"
  "lookup bench 1000148 = Some (mk_cell TSTRING 4 1000149)" "symbol_cell bench 1000104" "symbol_cell bench cell_symbol_builtin"
  by (simp_all add: prim_arity_def prim_function_def cons_address symbol_cell_def bench_look del: lookup_Some)

lemma bench_ready: "ready builtin_cells bench"
proof -
  have "builtin_cells \<le> 100"
    by (simp add: builtin_cells_def string_cells_def bytes_cells_eq printer_name_def chars_def cstring_def)
  then show ?thesis
    by (simp add: ready_def room_def bench_arena bench_specials)
qed

section \<open>A disk\<close>

text \<open>A system without environment, on which only boot-5.scm can be opened.\<close>

definition disk_opens :: "byte list \<Rightarrow> int" where
  "disk_opens f = (if f = chars ''boot-5.scm'' then 5 else -1)"

definition disk :: os where
  "disk f args = (if f = ''open'' then (case args of OText t # _ \<Rightarrow> ret (disk_opens t, [], []) | _ \<Rightarrow> ret (-1, [], []))
     else ret (0, [], []))"

lemma disk_answers: "answers disk (\<lambda>_. None) disk_opens"
  by (simp add: answers_def env_var_def os_value_def disk_def)

lemma disk_files: "boot_files (\<lambda>_. None) = [chars ''mes/module/mes/boot-5.scm'', chars ''boot-5.scm'']"
  by (simp add: boot_files_def boot_directories_def boot_name_def chars_def cstring_def)

lemma disk_fits: "boot_fits 512 (\<lambda>_. None)" "0 \<notin> set (boot_name (\<lambda>_. None))"
  by (simp_all add: boot_fits_def disk_files boot_directories_def boot_name_def chars_def cstring_def)

lemma disk_found: "find (\<lambda>f. 0 \<le> disk_opens f) (boot_files (\<lambda>_. None)) = Some (chars ''boot-5.scm'')"
  by (simp add: disk_files disk_opens_def chars_def cstring_def)

end
