(* ===== verification/Mes_Page.thy ===== *)
theory Mes_Page
  imports Mes_Read Mes_Sample
begin

text \<open>
  A symbol table with the symbol \<open>a\<close>, a datum \<open>(a -7 . "b")\<close> whose string ends in a newline, and
  a string port that holds its text: where the properties of the reader and the printer are applied.
\<close>

definition sheet :: mst where
  "sheet = sample 1000300
     [(1000106, mk_cell TSYMBOL 1 1000215), (1000215, mk_cell TBYTES 2 0),
      (1000120, mk_cell TPAIR 1000106 1000121), (1000121, mk_cell TPAIR 1000122 1000123),
      (1000122, mk_cell TNUMBER 0 (- 7)), (1000123, mk_cell TSTRING 2 1000124), (1000124, mk_cell TBYTES 3 0),
      (1000140, mk_cell TSTRING 1 1000141), (1000141, mk_cell TBYTES 2 0),
      (1000200, mk_cell TSTRUCT 5 1000201), (1000201, mk_cell TREF 1000002 0),
      (1000202, mk_cell TREF 1000002 0), (1000203, mk_cell TREF 1000002 0),
      (1000204, mk_cell TNUMBER 0 1), (1000205, mk_cell TREF 1000206 0),
      (1000206, mk_cell TVECTOR 1 1000207), (1000207, mk_cell TREF 1000210 0),
      (1000210, mk_cell TPAIR 1000211 1000002), (1000211, mk_cell TPAIR 1000140 1000106),
      (1000270, mk_cell TPAIR 1000271 1000002), (1000271, mk_cell TPORT (- 3) 1000272),
      (1000272, mk_cell TSTRING 14 1000273), (1000273, mk_cell TBYTES 15 0)]
     [(1000215, [97, 0]), (1000141, [97, 0]), (1000124, [98, 10, 0]),
      (1000273, [40, 97, 32, 45, 55, 32, 46, 32, 34, 98, 92, 110, 34, 41, 0])]"

definition page :: mst where
  "page = sheet\<lparr>g_symbols := 1000200, g_ports := 1000270\<rparr>"

definition page_datum :: datum where
  "page_datum = DPair (DAtom 1000106) (DPair (DNum (- 7)) (DStr [98, 10]))"

definition page_names :: "addr \<rightharpoonup> byte list" where
  "page_names = [1000106 \<mapsto> [97]]"

definition page_text :: "byte list" where
  "page_text = [40, 97, 32, 45, 55, 32, 46, 32, 34, 98, 92, 110, 34, 41]"


lemmas sheet_eval = sheet_def sample_lookup sample_cell_def sample_heap sample_bytes cells

lemma page_sheet: "lookup page = lookup sheet" "heap page = heap sheet" "bytes page = bytes sheet"
  by (simp_all add: page_def fun_eq_iff lookup_def)

lemmas page_eval = page_sheet sheet_eval

lemma page_simps [simp]:
  "g_free page = 1000300" "g_cells page = 1000001" "ARENA_SIZE page = 1000" "MAX_STRING page = 524288"
  "g_symbols page = 1000200" "g_ports page = 1000270" "infd page = 0" "outfd page = 1" "ungetc_buf page fd = - 1"
  "heap page 0 = None"
  by (simp_all add: page_sheet sheet_eval) (simp_all add: page_def sheet_def sample_def)

lemma page_ready [simp]: "n \<le> 700 \<Longrightarrow> ready n page"
proof -
  assume "n \<le> 700"
  moreover have "arena_ok page"
    by (simp add: arena_ok_def page_sheet sheet_eval)
  moreover have "specials_ok sheet"
    unfolding sheet_def by (rule sample_specials) simp_all
  then have "specials_ok page"
    by (simp add: specials_ok_def page_sheet(1) del: lookup_Some)
  ultimately show ?thesis
    by (simp add: ready_def room_def)
qed

text \<open>The symbol table.\<close>

lemma page_table: "table_at page 1000200 [1000210] 1000206 1000207"
proof -
  let ?es = "[mk_cell TREF 1000002 0, mk_cell TREF 1000002 0, mk_cell TREF 1000002 0, mk_cell TNUMBER 0 1, mk_cell TREF 1000206 0]"
  have "slots_at TSTRUCT page 1000200 1000201 ?es"
    by (simp add: slots_at_def All_less_Suc2 page_eval flip: numeral_2_eq_2 del: lookup_Some)
  moreover have "slots_at TVECTOR page 1000206 1000207 [mk_cell TREF 1000210 0]"
    by (simp add: slots_at_def page_eval del: lookup_Some)
  ultimately show ?thesis
    unfolding table_at_def by (intro exI [of _ 1000201] exI [of _ ?es]) simp
qed

lemma page_key: "text_at page TSTRING [97] 1000140"
  by (simp add: text_at_def page_eval del: lookup_Some)

lemma page_symbols: "symbols_at page [[1000211]]"
proof -
  have "bucket_at page 1000210 [1000211]"
    by (simp add: bucket_at_def alist_at_def list_at_Cons page_eval del: lookup_Some)
  with page_table have "dict_at page (g_symbols page) [[1000211]]"
    unfolding dict_at_def by (intro exI [of _ "[1000210]"]) auto
  moreover have "lookup page 1000211 = Some (mk_cell TPAIR 1000140 1000106)"
    by (simp add: page_eval del: lookup_Some)
  then have "string_keys page [1000211]"
    unfolding string_keys_def using page_key by fastforce
  ultimately show ?thesis
    by (simp add: symbols_at_def)
qed

lemma page_interned: "interned page [97] 1000106"
proof -
  have "bucket_of [[1000211]] [97] = [1000211 :: addr]"
    by (simp add: bucket_of_def hash_value_def smod_int_alt_def to_int_def)
  moreover have "key_of page 1000211 = 1000140" "value_of page 1000211 = 1000106"
    by (simp_all add: key_of_def value_of_def page_eval)
  ultimately show ?thesis
    unfolding interned_def using page_symbols page_key
    by (intro conjI exI [of _ "[[1000211]]"] exI [of _ 1000211]) (simp_all add: first_named_def cells)
qed

text \<open>The datum and its text.\<close>

lemma page_repr: "repr page page_datum 1000120"
  by (simp add: page_datum_def text_at_def page_eval by_identity_def del: lookup_Some)

lemma page_printable: "printable page page_names page_datum"
proof -
  have "text_at page TSYMBOL [97] 1000106"
    by (simp add: text_at_def page_eval del: lookup_Some)
  then show ?thesis
    by (simp add: page_datum_def page_names_def is_long_def cells)
qed

lemma page_readable: "readable page page_names page_datum"
proof -
  have "lookup page 1000106 = Some (mk_cell TSYMBOL 1 1000215)"
    by (simp add: page_eval del: lookup_Some)
  moreover have "plain_name [97]"
    by (simp add: plain_name_def word_byte_def digit_def)
  ultimately show ?thesis
    using page_interned by (simp add: page_datum_def page_names_def is_long_def)
qed

lemma page_datum_text: "datum_text page_names page_datum = page_text"
proof -
  have "number_text (- 7) = [45, 55]"
    using ntoab_digits_step [of 10 7] by (simp add: number_text_def digit_byte_def)
  then show ?thesis
    by (simp add: page_datum_def page_names_def page_text_def escape_def)
qed

lemma page_cells: "cells_of page_names page_datum \<le> 20"
  by (simp add: page_datum_def page_names_def string_cells_def bytes_cells_eq)

lemma page_port: "string_input 14 1000271 False page_text (page\<lparr>infd := - 3\<rparr>)"
proof -
  let ?s = "page\<lparr>infd := - 3\<rparr>"
  have l: "lookup ?s = lookup page" by (simp add: fun_eq_iff lookup_def)
  have "lookup ?s 1000271 = Some (mk_cell TPORT (- 3) 1000272)" "text_at ?s TSTRING page_text 1000272"
    "list_at ?s 1000270 ([] @ 1000271 # [])"
    by (simp_all add: text_at_def list_at_Cons l page_text_def page_eval del: lookup_Some)
  then show ?thesis
    unfolding string_input_def
    by (intro conjI exI [of _ "mk_cell TPORT (- 3) 1000272"] exI [of _ "[] :: addr list"]) (simp_all add: page_text_def del: lookup_Some)
qed

end
