(* ===== verification/Mes_Div.thy ===== *)
theory Mes_Div
  imports Mes_Prelude
begin

unbundle bit_operations_syntax

text \<open>
  Division for the targets without an instruction for it (src/lib/mes/div.c), on 64-bit longs.
  An \<^verbatim>\<open>unsigned long\<close> is a \<open>64 word\<close>, a \<^verbatim>\<open>long\<close> an integer in its range. \<open>Div0\<close> is the
  signal that \<^verbatim>\<open>__mesabi_div0\<close> raises, which is taken not to be caught. \<open>None\<close> is a loop that
  does not end.
\<close>

datatype div_fault = Div0

section \<open>Unsigned\<close>

text \<open>Half of the bits is looked at, then half of the half where the highest bit is.\<close>

fun log2i_loop :: "nat \<Rightarrow> 64 word \<Rightarrow> nat \<Rightarrow> nat" where
  "log2i_loop n D i =
     (if n \<ge> 2
      then let n = n div 2; D1 = drop_bit n D in
           if D1 > 0 then log2i_loop n D1 (i + n) else log2i_loop n D i
      else i)"

definition mesabi_log2i :: "64 word \<Rightarrow> nat" where
  "mesabi_log2i D = log2i_loop 64 D 0"

fun uldiv1_loop :: "nat \<Rightarrow> 64 word \<Rightarrow> 64 word \<Rightarrow> 64 word \<Rightarrow> 64 word \<times> 64 word" where
  "uldiv1_loop j D R quot =
     (if j > 0
      then let quot = push_bit 1 quot in
           if R \<ge> D then uldiv1_loop (j - 1) (drop_bit 1 D) (R - D) (quot OR 1)
           else uldiv1_loop (j - 1) (drop_bit 1 D) R quot
      else (quot, R))"

definition mesabi_uldiv1 :: "64 word \<Rightarrow> 64 word \<Rightarrow> 64 word \<times> 64 word" where
  "mesabi_uldiv1 N D =
     (let j = 64 - mesabi_log2i D in uldiv1_loop j (push_bit (j - 1) D) N 0)"

text \<open>The quotient, and what is stored through the pointer \<^verbatim>\<open>remainder\<close>.\<close>

definition mesabi_uldiv :: "64 word \<Rightarrow> 64 word \<Rightarrow> div_fault + 64 word \<times> 64 word" where
  "mesabi_uldiv a b =
     (if b = 64 then Inr (drop_bit 6 a, a AND 63)
      else if b = 32 then Inr (drop_bit 5 a, a AND 31)
      else if b = 16 then Inr (drop_bit 4 a, a AND 15)
      else if b = 8 then Inr (drop_bit 3 a, a AND 7)
      else if b = 4 then Inr (drop_bit 2 a, a AND 3)
      else if b = 2 then Inr (drop_bit 1 a, a AND 1)
      else if b = 1 then Inr (a, 0)
      else if b = 0 then Inl Div0
      else Inr (mesabi_uldiv1 a b))"

definition mesabi_umod :: "64 word \<Rightarrow> 64 word \<Rightarrow> div_fault + 64 word" where
  "mesabi_umod a b = map_sum id snd (mesabi_uldiv a b)"

definition mesabi_udiv :: "64 word \<Rightarrow> 64 word \<Rightarrow> div_fault + 64 word" where
  "mesabi_udiv a b = map_sum id fst (mesabi_uldiv a b)"

section \<open>Signed\<close>

definition LONG_MIN :: int where
  "LONG_MIN = - (2 ^ 63)"

text \<open>\<^verbatim>\<open>for (x = 0; a <= -b; a += b) ++x;\<close>\<close>

partial_function (option) ldiv_loop :: "int \<Rightarrow> int \<Rightarrow> int \<Rightarrow> (int \<times> int) option" where
  "ldiv_loop a b x = (if a \<le> to_long (- b) then ldiv_loop (to_long (a + b)) b (to_long (x + 1)) else Some (x, a))"

text \<open>The pair of \<^verbatim>\<open>quot\<close> and \<^verbatim>\<open>rem\<close>.\<close>

definition mesabi_ldiv :: "int \<Rightarrow> int \<Rightarrow> (div_fault + int \<times> int) option" where
  "mesabi_ldiv a b =
     (let negate_result = ((a < 0) \<noteq> (b < 0)) in
      if b = LONG_MIN then Some (Inl Div0)
      else if a \<noteq> LONG_MIN
      then let negative_a = (a < 0); a = (if negative_a then to_long (- a) else a); b = (if b < 0 then to_long (- b) else b) in
           (case mesabi_uldiv (of_int a) (of_int b) of
              Inl e \<Rightarrow> Some (Inl e)
            | Inr (q, r) \<Rightarrow> Some (Inr (if negate_result then to_long (- sint q) else sint q,
                if negative_a then to_long (- sint r) else sint r)))
      else let b = (if b < 0 then to_long (- b) else b) in
           if b = 1 then Some (Inr (if \<not> negate_result then to_long (- a) else a, 0))
           else if b = 0 then Some (Inl Div0)
           else map_option (\<lambda>(x, a). Inr (if negate_result then to_long (- x) else x, a)) (ldiv_loop a b 0))"

definition mesabi_imod :: "int \<Rightarrow> int \<Rightarrow> (div_fault + int) option" where
  "mesabi_imod a b = map_option (map_sum id snd) (mesabi_ldiv a b)"

definition mesabi_idiv :: "int \<Rightarrow> int \<Rightarrow> (div_fault + int) option" where
  "mesabi_idiv a b = map_option (map_sum id fst) (mesabi_ldiv a b)"

section \<open>The logarithm\<close>

declare log2i_loop.simps [simp del] uldiv1_loop.simps [simp del]

lemma log2i_loop_ok:
  "D \<noteq> 0 \<Longrightarrow> unat D < 2 ^ 2 ^ k \<Longrightarrow>
   \<exists>m. log2i_loop (2 ^ k) D i = i + m \<and> m < 2 ^ k \<and> 2 ^ m \<le> unat D \<and> unat D < 2 ^ (m + 1)"
proof (induction k arbitrary: D i)
  case 0
  then have "unat D = 1"
    using unat_gt_0 [of D] by simp
  then show ?case
    by (intro exI [of _ 0]) (simp add: log2i_loop.simps)
next
  case (Suc k)
  let ?n = "2 ^ k :: nat" and ?D1 = "drop_bit (2 ^ k) D"
  have half: "(2 :: nat) ^ Suc k div 2 = ?n" "(2 :: nat) ^ Suc k \<ge> 2" by simp_all
  have D1: "unat ?D1 = unat D div 2 ^ ?n"
    by (subst unat_drop_bit_eq) (simp only: drop_bit_eq_div)
  have sq: "(2 :: nat) ^ 2 ^ Suc k = 2 ^ ?n * 2 ^ ?n"
    by (simp flip: power_add mult_2)
  show ?case
  proof (cases "?D1 > 0")
    case True
    have "unat ?D1 < 2 ^ ?n"
      using Suc.prems(2) unfolding D1 sq by (simp add: less_mult_imp_div_less)
    then obtain m where m: "log2i_loop ?n ?D1 (i + ?n) = i + ?n + m" "m < ?n" "2 ^ m \<le> unat ?D1" "unat ?D1 < 2 ^ (m + 1)"
      using Suc.IH [of ?D1 "i + ?n"] True by (auto simp: word_neq_0_conv)
    have "2 ^ (?n + m) \<le> unat D"
      using m(3) unfolding D1 power_add by (metis div_times_less_eq_dividend mult.commute mult_le_mono1 order_trans)
    moreover have "unat D < 2 ^ (?n + m + 1)"
      using m(4) unfolding D1 by (simp add: div_less_iff_less_mult power_add mult.commute mult.left_commute)
    ultimately show ?thesis
      using m(1,2) True half by (intro exI [of _ "?n + m"]) (subst log2i_loop.simps, simp add: Let_def)
  next
    case False
    then have "?D1 = 0"
      by (simp only: word_gt_0 not_not)
    then have "unat D div 2 ^ ?n = 0"
      using D1 by simp
    then have "unat D < 2 ^ ?n"
      by (simp add: div_eq_0_iff)
    then obtain m where "log2i_loop ?n D i = i + m" "m < ?n" "2 ^ m \<le> unat D" "unat D < 2 ^ (m + 1)"
      using Suc.IH [of D i] Suc.prems(1) by auto
    then show ?thesis
      using False half by (intro exI [of _ m]) (subst log2i_loop.simps, simp add: Let_def)
  qed
qed

lemma mesabi_log2i_ok:
  assumes "D \<noteq> 0"
  shows "mesabi_log2i D < 64" "2 ^ mesabi_log2i D \<le> unat D" "unat D < 2 ^ (mesabi_log2i D + 1)"
proof -
  have "unat D < 2 ^ 2 ^ 6"
    using unsigned_less [of D] by simp
  then have "\<exists>m. log2i_loop (2 ^ 6) D 0 = 0 + m \<and> m < 2 ^ 6 \<and> 2 ^ m \<le> unat D \<and> unat D < 2 ^ (m + 1)"
    by (rule log2i_loop_ok [OF assms])
  then show "mesabi_log2i D < 64" "2 ^ mesabi_log2i D \<le> unat D" "unat D < 2 ^ (mesabi_log2i D + 1)"
    by (auto simp: mesabi_log2i_def)
qed

section \<open>Long division\<close>

lemma unat_below: "unat (N :: 64 word) < 2 ^ 64"
  by (rule order_less_le_trans [OF unsigned_less]) simp

text \<open>\<open>D\<close> is the divisor \<open>d\<close> shifted to the bit that comes next.\<close>

lemma uldiv1_loop_ok:
  assumes "0 < d" "j = 0 \<or> unat D = d * 2 ^ (j - 1)" "unat R < d * 2 ^ j" "unat q * 2 ^ j + unat R div d < 2 ^ 64"
  shows "\<exists>q' R'. uldiv1_loop j D R q = (q', R') \<and> unat q' = unat q * 2 ^ j + unat R div d \<and> unat R' = unat R mod d"
  using assms
proof (induction j arbitrary: D R q)
  case 0
  then show ?case by (simp add: uldiv1_loop.simps)
next
  case (Suc j)
  let ?q = "push_bit 1 q" and ?D = "drop_bit 1 D"
  have D: "unat D = d * 2 ^ j" using Suc.prems(2) by simp
  have "unat q * 1 \<le> unat q * 2 ^ j"
    by (intro mult_le_mono2) simp
  moreover have "unat q * 2 ^ j * 2 < 2 ^ 64"
    using Suc.prems(4) by (simp add: ac_simps)
  ultimately have lt: "unat q * 2 < 2 ^ 64"
    by linarith
  have q: "unat ?q = 2 * unat q"
    using lt by (simp add: unat_word_ariths(2) mult.commute)
  have half: "unat ?D = unat D div 2"
    by (subst unat_drop_bit_eq) (simp add: drop_bit_eq_div)
  have next_D: "j = 0 \<or> unat ?D = d * 2 ^ (j - 1)"
    using D unfolding half by (cases j) simp_all
  show ?case
  proof (cases "R \<ge> D")
    case True
    then have le: "d * 2 ^ j \<le> unat R" using D by (simp add: word_le_nat_alt)
    have R: "unat (R - D) = unat R - d * 2 ^ j"
      using True D by (simp add: unat_sub word_le_nat_alt)
    have dv: "unat (R - D) div d = unat R div d - 2 ^ j" "unat (R - D) mod d = unat R mod d" "2 ^ j \<le> unat R div d"
    proof -
      obtain k where k: "unat R = d * 2 ^ j + k" using le by (auto simp: le_iff_add)
      then show "unat (R - D) div d = unat R div d - 2 ^ j" "unat (R - D) mod d = unat R mod d" "2 ^ j \<le> unat R div d"
        using Suc.prems(1) unfolding R by simp_all
    qed
    have q1: "unat (?q OR 1) = 2 * unat q + 1"
    proof -
      have "?q OR 1 = ?q + 1"
        by (simp add: or_one_eq)
      moreover have "2 * unat q + 1 < 2 ^ 64"
        using lt by simp
      ultimately show ?thesis
        using q by (simp add: unat_word_ariths(1))
    qed
    have "unat (R - D) < d * 2 ^ j"
      using Suc.prems(3) le unfolding R by simp
    moreover have sum: "(2 * unat q + 1) * 2 ^ j + (unat R div d - 2 ^ j) = unat q * 2 ^ Suc j + unat R div d"
      using dv(3) by (simp add: algebra_simps)
    ultimately obtain q' R' where "uldiv1_loop j ?D (R - D) (?q OR 1) = (q', R')"
      "unat q' = unat q * 2 ^ Suc j + unat R div d" "unat R' = unat R mod d"
      using Suc.IH [OF Suc.prems(1) next_D, of "R - D" "?q OR 1"] Suc.prems(4) unfolding q1 dv(1,2) sum by auto
    then show ?thesis
      using True by (subst uldiv1_loop.simps) (simp add: Let_def)
  next
    case False
    then have "unat R < d * 2 ^ j" using D by (simp add: word_le_nat_alt)
    then obtain q' R' where "uldiv1_loop j ?D R ?q = (q', R')" "unat q' = unat ?q * 2 ^ j + unat R div d" "unat R' = unat R mod d"
      using Suc.IH [OF Suc.prems(1) next_D, of R ?q] Suc.prems(4) q by (auto simp: ac_simps)
    then show ?thesis
      using False q by (subst uldiv1_loop.simps) (simp add: Let_def ac_simps)
  qed
qed

lemma mesabi_uldiv1_ok:
  assumes "D \<noteq> 0"
  shows "mesabi_uldiv1 N D = (N div D, N mod D)"
proof -
  define l where "l = mesabi_log2i D"
  have l: "l < 64" "2 ^ l \<le> unat D" "unat D < 2 ^ (l + 1)"
    using mesabi_log2i_ok [OF assms] by (simp_all add: l_def)
  have "unat D * 2 ^ (63 - l) < 2 ^ (l + 1) * 2 ^ (63 - l)"
    using l(3) by simp
  also have "\<dots> = 2 ^ 64"
    using l(1) by (simp flip: power_add)
  finally have D: "unat (push_bit (63 - l) D) = unat D * 2 ^ (63 - l)"
    by (subst unsigned_push_bit_eq) (simp add: push_bit_eq_mult take_bit_nat_eq_self)
  have "2 ^ 64 = (2 :: nat) ^ l * 2 ^ (64 - l)"
    using l(1) by (simp flip: power_add)
  also have "\<dots> \<le> unat D * 2 ^ (64 - l)"
    using l(2) by simp
  finally have R: "unat N < unat D * 2 ^ (64 - l)"
    using unat_below [of N] by simp
  have "0 < unat D"
    using assms by (simp add: unat_gt_0)
  moreover have "64 - l = 0 \<or> unat (push_bit (63 - l) D) = unat D * 2 ^ (64 - l - 1)"
    using D l(1) by simp
  moreover have "unat (0 :: 64 word) * 2 ^ (64 - l) + unat N div unat D < 2 ^ 64"
    using order_le_less_trans [OF div_le_dividend unat_below [of N], of "unat D"] by simp
  ultimately obtain q' R' where "uldiv1_loop (64 - l) (push_bit (63 - l) D) N 0 = (q', R')"
    "unat q' = unat (0 :: 64 word) * 2 ^ (64 - l) + unat N div unat D" "unat R' = unat N mod unat D"
    using uldiv1_loop_ok [OF _ _ R, of "push_bit (63 - l) D" 0] by blast
  moreover have "q' = N div D" if "unat q' = unat N div unat D" for q'
    using that by (simp add: unat_div word_unat_eq_iff)
  moreover have "R' = N mod D" if "unat R' = unat N mod unat D" for R'
    using that by (simp add: unat_mod word_unat_eq_iff)
  ultimately show ?thesis
    by (simp add: mesabi_uldiv1_def Let_def l_def)
qed

lemma mesabi_uldiv_ok:
  assumes "b \<noteq> 0"
  shows "mesabi_uldiv a b = Inr (a div b, a mod b)"
proof -
  have p: "drop_bit n a = a div 2 ^ n" "a AND mask n = a mod 2 ^ n" for n
    by (simp_all only: take_bit_eq_mask [symmetric] take_bit_eq_mod drop_bit_eq_div)
  have d: "drop_bit 6 a = a div 64" "drop_bit 5 a = a div 32" "drop_bit 4 a = a div 16" "drop_bit 3 a = a div 8"
    "drop_bit 2 a = a div 4" "drop_bit 1 a = a div 2"
    unfolding p(1) by simp_all
  have m: "a AND 63 = a mod 64" "a AND 31 = a mod 32" "a AND 15 = a mod 16" "a AND 7 = a mod 8" "a AND 3 = a mod 4"
    "a AND 1 = a mod 2"
    using p(2) [of 6] p(2) [of 5] p(2) [of 4] p(2) [of 3] p(2) [of 2] p(2) [of 1] by (simp_all add: mask_eq_exp_minus_1)
  show ?thesis
    using assms mesabi_uldiv1_ok [of b a] unfolding mesabi_uldiv_def d m by simp
qed

section \<open>Signed division\<close>

lemma ldiv_loop_ok:
  assumes "2 \<le> b" "b < 2 ^ 63" "0 \<le> a" "a \<le> 2 ^ 63" "0 \<le> x" "x + a div b < 2 ^ 63"
  shows "ldiv_loop (- a) b x = Some (x + a div b, - (a mod b))"
  using assms
proof (induction "nat a" arbitrary: a x rule: less_induct)
  case less
  have nb: "to_long (- b) = - b"
    using less.prems(1,2) by (intro to_long_id) (simp add: is_long_def)
  show ?case
  proof (cases "b \<le> a")
    case True
    have "a div b = (a - b) div b + 1" "0 \<le> (a - b) div b"
      using True less.prems(1) by (simp_all add: div_pos_geq pos_imp_zdiv_nonneg_iff)
    moreover have "(a - b) mod b = a mod b"
      using minus_mod_self2 .
    ultimately have dv: "(a - b) div b = a div b - 1" "(a - b) mod b = a mod b" "1 \<le> a div b"
      by simp_all
    have "to_long (- a + b) = - (a - b)" "to_long (x + 1) = x + 1"
      using less.prems True dv(3) by (simp_all add: to_long_id is_long_def)
    moreover have "ldiv_loop (- (a - b)) b (x + 1) = Some (x + 1 + (a - b) div b, - ((a - b) mod b))"
      by (rule less.hyps) (use less.prems True dv in simp_all)
    ultimately show ?thesis
      using True nb dv by (subst ldiv_loop.simps) simp
  next
    case False
    then show ?thesis
      using less.prems nb by (subst ldiv_loop.simps) simp
  qed
qed

lemma of_nat_words:
  assumes "0 \<le> a" "a < 2 ^ 63" "0 < b" "b < 2 ^ 63"
  shows "sint ((of_int a :: 64 word) div of_int b) = a div b" "sint ((of_int a :: 64 word) mod of_int b) = a mod b"
    "(of_int b :: 64 word) \<noteq> 0"
proof -
  have u: "uint (of_int a :: 64 word) = a" "uint (of_int b :: 64 word) = b"
    using assms by (simp_all add: unsigned_of_int take_bit_int_eq_self)
  have "uint ((of_int a :: 64 word) div of_int b) = a div b" "uint ((of_int a :: 64 word) mod of_int b) = a mod b"
    using u by (simp_all add: uint_div uint_mod)
  moreover have "0 \<le> a div b" "a div b \<le> a" "0 \<le> a mod b" "a mod b < b"
    using assms zdiv_mono2 [of a 1 b] by (simp_all add: pos_imp_zdiv_nonneg_iff)
  then have "a div b < 2 ^ 63" "- (2 ^ 63) \<le> a div b" "a mod b < 2 ^ 63" "- (2 ^ 63) \<le> a mod b"
    using assms(2,4) by linarith+
  then have "signed_take_bit 63 (a div b) = a div b" "signed_take_bit 63 (a mod b) = a mod b"
    by (simp_all add: signed_take_bit_int_eq_self)
  ultimately show "sint ((of_int a :: 64 word) div of_int b) = a div b" "sint ((of_int a :: 64 word) mod of_int b) = a mod b"
    by (simp_all add: sint_uint)
  show "(of_int b :: 64 word) \<noteq> 0"
    using u(2) assms(3) by auto
qed

lemma sdiv_smod:
  "a sdiv b = (if (a < 0) \<noteq> (b < 0) then - (\<bar>a\<bar> div \<bar>b\<bar>) else \<bar>a\<bar> div \<bar>b\<bar>)"
  "b \<noteq> 0 \<Longrightarrow> a smod b = (if a < 0 then - (\<bar>a\<bar> mod \<bar>b\<bar>) else \<bar>a\<bar> mod \<bar>b\<bar>)" for a b :: int
  by (auto simp: signed_divide_int_def smod_int_alt_def sgn_if)

text \<open>Division truncates, and the remainder has the sign of the dividend.\<close>

lemma mesabi_ldiv_ok:
  assumes "is_long a" "is_long b" "b \<noteq> 0" "b \<noteq> LONG_MIN"
  shows "mesabi_ldiv a b = Some (Inr (to_long (a sdiv b), a smod b))"
proof -
  have b: "\<bar>b\<bar> < 2 ^ 63" "0 < \<bar>b\<bar>" "(if b < 0 then to_long (- b) else b) = \<bar>b\<bar>"
    using assms(2-4) by (auto simp: is_long_def LONG_MIN_def to_long_id)
  show ?thesis
  proof (cases "a = LONG_MIN")
    case False
    then have a: "\<bar>a\<bar> < 2 ^ 63" "(if a < 0 then to_long (- a) else a) = \<bar>a\<bar>"
      using assms(1) by (auto simp: is_long_def LONG_MIN_def to_long_id)
    note w = of_nat_words [OF abs_ge_zero a(1) b(2,1)]
    have r: "\<bar>a\<bar> div \<bar>b\<bar> \<le> \<bar>a\<bar>" "0 \<le> \<bar>a\<bar> div \<bar>b\<bar>" "0 \<le> \<bar>a\<bar> mod \<bar>b\<bar>" "\<bar>a\<bar> mod \<bar>b\<bar> < \<bar>b\<bar>"
      using b(2) zdiv_mono2 [of "\<bar>a\<bar>" 1 "\<bar>b\<bar>"] by (simp_all add: pos_imp_zdiv_nonneg_iff)
    then have l: "is_long (\<bar>a\<bar> div \<bar>b\<bar>)" "is_long (- (\<bar>a\<bar> div \<bar>b\<bar>))" "is_long (- (\<bar>a\<bar> mod \<bar>b\<bar>))"
      using a(1) b(1) unfolding is_long_def by linarith+
    define A B where "A = \<bar>a\<bar>" and "B = \<bar>b\<bar>"
    show ?thesis
      using False assms(4) l w(1,2) mesabi_uldiv_ok [OF w(3), of "of_int \<bar>a\<bar>"]
      unfolding mesabi_ldiv_def Let_def a(2) b(3) sdiv_smod(1) sdiv_smod(2) [OF assms(3)]
        A_def [symmetric] B_def [symmetric]
      by (simp add: to_long_id)
  next
    case True
    then have a: "a = - (2 ^ 63)" "a < 0" by (simp_all add: LONG_MIN_def)
    show ?thesis
    proof (cases "\<bar>b\<bar> = 1")
      case True
      then show ?thesis
        using \<open>a = LONG_MIN\<close> a assms(3,4) unfolding mesabi_ldiv_def Let_def b(3) sdiv_smod(1) sdiv_smod(2) [OF assms(3)]
        by (simp add: to_long_id is_long_def)
    next
      case False
      then have b2: "2 \<le> \<bar>b\<bar>" using b(2) by linarith
      have q: "2 ^ 63 div \<bar>b\<bar> \<le> 2 ^ 63 div 2" "0 \<le> 2 ^ 63 div \<bar>b\<bar>"
        using zdiv_mono2 [of "2 ^ 63" 2 "\<bar>b\<bar>"] b2 by (simp_all add: pos_imp_zdiv_nonneg_iff)
      have "ldiv_loop (- (2 ^ 63)) \<bar>b\<bar> 0 = Some (0 + 2 ^ 63 div \<bar>b\<bar>, - (2 ^ 63 mod \<bar>b\<bar>))"
        by (rule ldiv_loop_ok [OF b2 b(1)]) (use q in simp_all)
      moreover have "is_long (2 ^ 63 div \<bar>b\<bar>)" "is_long (- (2 ^ 63 div \<bar>b\<bar>))"
        using q by (simp_all add: is_long_def)
      ultimately show ?thesis
        using b2 assms(3,4) unfolding mesabi_ldiv_def Let_def b(3) sdiv_smod(1) sdiv_smod(2) [OF assms(3)]
        by (simp add: to_long_id LONG_MIN_def \<open>a = LONG_MIN\<close>) (auto simp: to_long_id)
    qed
  qed
qed

lemma mesabi_division:
  assumes "is_long a" "is_long b" "b \<noteq> 0" "b \<noteq> LONG_MIN"
  shows "mesabi_idiv a b = Some (Inr (to_long (a sdiv b)))" "mesabi_imod a b = Some (Inr (a smod b))"
  using mesabi_ldiv_ok [OF assms] by (simp_all add: mesabi_idiv_def mesabi_imod_def)

text \<open>The least \<^verbatim>\<open>long\<close> is refused as a divisor.\<close>

lemma mesabi_division_by_least: "mesabi_idiv a LONG_MIN = Some (Inl Div0)"
  by (simp add: mesabi_idiv_def mesabi_ldiv_def)

end
