(* ===== verification/Mes_Memory.thy ===== *)
theory Mes_Memory
  imports Mes_Libc
begin

text \<open>
  The string functions of the C library (src/lib/string) on a memory of bytes. A pointer is an
  integer, the null pointer is 0, and an access outside of what is mapped is a fault. A \<^verbatim>\<open>char\<close> is
  signed. Loops up to a null byte need not end. The functions that Mes_Libc has on byte lists
  have a \<^verbatim>\<open>_mem\<close> behind their names here.
\<close>

type_synonym mem = "int \<rightharpoonup> byte"
type_synonym 'a cmem = "(mem, 'a) m"

section \<open>Bytes\<close>

definition load :: "int \<Rightarrow> byte cmem" where
  "load p m = (case m p of Some b \<Rightarrow> ret b m | None \<Rightarrow> fail Segv m)"

definition store_byte :: "int \<Rightarrow> byte \<Rightarrow> unit cmem" where
  "store_byte p b m = (case m p of Some _ \<Rightarrow> ret () (m(p \<mapsto> b)) | None \<Rightarrow> fail Segv m)"

definition load_char :: "int \<Rightarrow> int cmem" where
  "load_char p = mbind (load p) (\<lambda>b. ret (sint b))"

section \<open>Blocks\<close>

fun memcpy_loop :: "int \<Rightarrow> int \<Rightarrow> nat \<Rightarrow> unit cmem" where
  "memcpy_loop dest src 0 = ret ()"
| "memcpy_loop dest src (Suc n) =
     mbind (load src) (\<lambda>b. mseq (store_byte dest b) (memcpy_loop (dest + 1) (src + 1) n))"

definition memcpy :: "int \<Rightarrow> int \<Rightarrow> nat \<Rightarrow> int cmem" where
  "memcpy dest src n = mseq (memcpy_loop dest src n) (ret dest)"

text \<open>\<^verbatim>\<open>while (n--) *--p = *--q;\<close>\<close>

fun copy_down :: "int \<Rightarrow> int \<Rightarrow> nat \<Rightarrow> unit cmem" where
  "copy_down p q 0 = ret ()"
| "copy_down p q (Suc n) =
     mbind (load (q - 1)) (\<lambda>b. mseq (store_byte (p - 1) b) (copy_down (p - 1) (q - 1) n))"

definition memmove :: "int \<Rightarrow> int \<Rightarrow> nat \<Rightarrow> int cmem" where
  "memmove dest src n =
     (if dest < src then memcpy dest src n
      else mseq (copy_down (dest + int n) (src + int n) n) (ret dest))"

definition bcopy :: "int \<Rightarrow> int \<Rightarrow> nat \<Rightarrow> unit cmem" where
  "bcopy src dest n = mseq (memmove dest src n) (ret ())"

fun memset_loop :: "int \<Rightarrow> int \<Rightarrow> nat \<Rightarrow> unit cmem" where
  "memset_loop s c 0 = ret ()"
| "memset_loop s c (Suc n) = mseq (store_byte s (of_int c)) (memset_loop (s + 1) c n)"

definition memset :: "int \<Rightarrow> int \<Rightarrow> nat \<Rightarrow> int cmem" where
  "memset s c n = mseq (memset_loop s c n) (ret s)"

definition bzero :: "int \<Rightarrow> nat \<Rightarrow> unit cmem" where
  "bzero block sz = mseq (memset block 0 sz) (ret ())"

text \<open>\<open>c\<close> is compared with a signed character.\<close>

fun memchr :: "int \<Rightarrow> int \<Rightarrow> nat \<Rightarrow> int cmem" where
  "memchr p c 0 = ret 0"
| "memchr p c (Suc n) = mbind (load_char p) (\<lambda>x. if c = x then ret p else memchr (p + 1) c n)"

fun memcmp_loop :: "int \<Rightarrow> int \<Rightarrow> nat \<Rightarrow> int cmem" where
  "memcmp_loop a b sz =
     mbind (load_char a) (\<lambda>x. mbind (load_char b) (\<lambda>y.
     if x = y \<and> sz > 1 then memcmp_loop (a + 1) (b + 1) (sz - 1) else ret (x - y)))"

definition memcmp_mem :: "int \<Rightarrow> int \<Rightarrow> nat \<Rightarrow> int cmem" where
  "memcmp_mem s1 s2 sz = (if sz = 0 then ret 0 else memcmp_loop s1 s2 sz)"

definition bcmp :: "int \<Rightarrow> int \<Rightarrow> nat \<Rightarrow> int cmem" where
  "bcmp s1 s2 sz = memcmp_mem s1 s2 sz"

text \<open>\<open>matches_at\<close> is the inner loop: whether all of the needle is at \<open>subhaystack\<close>.\<close>

fun matches_at :: "int \<Rightarrow> int \<Rightarrow> nat \<Rightarrow> bool cmem" where
  "matches_at subneedle subhaystack 0 = ret True"
| "matches_at subneedle subhaystack (Suc n) =
     mbind (load subneedle) (\<lambda>x. mbind (load subhaystack) (\<lambda>y.
     if x \<noteq> y then ret False else matches_at (subneedle + 1) (subhaystack + 1) n))"

function memmem_loop :: "int \<Rightarrow> int \<Rightarrow> int \<Rightarrow> int \<Rightarrow> int cmem" where
  "memmem_loop haystack end_haystack needle needle_len =
     (if haystack < end_haystack
      then mbind (matches_at needle haystack (nat needle_len)) (\<lambda>found.
           if found then ret haystack else memmem_loop (haystack + 1) end_haystack needle needle_len)
      else ret 0)"
  by auto
termination by (relation "measure (\<lambda>(h, e, _, _). nat (e - h))") auto

definition memmem :: "int \<Rightarrow> int \<Rightarrow> int \<Rightarrow> int \<Rightarrow> int cmem" where
  "memmem haystack haystack_len needle needle_len =
     memmem_loop haystack (haystack + haystack_len - needle_len + 1) needle needle_len"

section \<open>Strings\<close>

partial_function (option) strlen_loop :: "int \<Rightarrow> int \<Rightarrow> int cmem" where
  "strlen_loop s i m = mbind (load (s + i)) (\<lambda>b. if b \<noteq> 0 then strlen_loop s (to_int (i + 1)) else ret i) m"

definition strlen_mem :: "int \<Rightarrow> int cmem" where
  "strlen_mem s = strlen_loop s 0"

partial_function (option) strchr :: "int \<Rightarrow> int \<Rightarrow> int cmem" where
  "strchr p c m =
     mbind (load_char p) (\<lambda>x. if x \<noteq> 0 \<or> c = 0 then if c = x then ret p else strchr (p + 1) c else ret 0) m"

definition index :: "int \<Rightarrow> int \<Rightarrow> int cmem" where
  "index s c = strchr s c"

text \<open>The loop of \<^verbatim>\<open>strrchr\<close>; \<open>n\<close> wraps to -1 when it is at its end.\<close>

fun strrchr_loop :: "int \<Rightarrow> int \<Rightarrow> nat \<Rightarrow> int cmem" where
  "strrchr_loop p c 0 = ret 0"
| "strrchr_loop p c (Suc n) =
     mbind (load_char p) (\<lambda>x. if x \<noteq> 0 \<or> c = 0 then if c = x then ret p else strrchr_loop (p - 1) c n else ret 0)"

definition strrchr :: "int \<Rightarrow> int \<Rightarrow> int cmem" where
  "strrchr s c =
     mbind (strlen_mem s) (\<lambda>n.
     if n = 0 then ret 0
     else mbind (load_char (s + n)) (\<lambda>x.
          if x = 0 \<and> c = 0 then ret (s + n) else strrchr_loop (s + n - 1) c (nat n)))"

definition rindex :: "int \<Rightarrow> int \<Rightarrow> int cmem" where
  "rindex s c = strrchr s c"

partial_function (option) strcmp :: "int \<Rightarrow> int \<Rightarrow> int cmem" where
  "strcmp a b m =
     mbind (load_char a) (\<lambda>x. mbind (load_char b) (\<lambda>y.
     if x \<noteq> 0 \<and> y \<noteq> 0 \<and> x = y then strcmp (a + 1) (b + 1) else ret (x - y))) m"

fun strncmp_mem_loop :: "int \<Rightarrow> int \<Rightarrow> nat \<Rightarrow> int cmem" where
  "strncmp_mem_loop a b sz =
     mbind (load_char a) (\<lambda>x. mbind (load_char b) (\<lambda>y.
     if x \<noteq> 0 \<and> y \<noteq> 0 \<and> x = y \<and> sz > 1 then strncmp_mem_loop (a + 1) (b + 1) (sz - 1) else ret (x - y)))"

definition strncmp_mem :: "int \<Rightarrow> int \<Rightarrow> nat \<Rightarrow> int cmem" where
  "strncmp_mem a b sz = (if sz = 0 then ret 0 else strncmp_mem_loop a b sz)"

partial_function (option) strcpy_loop :: "int \<Rightarrow> int \<Rightarrow> unit cmem" where
  "strcpy_loop p src m =
     mbind (load src) (\<lambda>b. if b \<noteq> 0 then mseq (store_byte p b) (strcpy_loop (p + 1) (src + 1)) else store_byte p 0) m"

definition strcpy :: "int \<Rightarrow> int \<Rightarrow> int cmem" where
  "strcpy dest src = mseq (strcpy_loop dest src) (ret dest)"

definition strcat :: "int \<Rightarrow> int \<Rightarrow> int cmem" where
  "strcat to from = mbind (strchr to 0) (\<lambda>p. mseq (strcpy_loop p from) (ret to))"

text \<open>\<^verbatim>\<open>while (*from && sz-- > 0) *p++ = *from++; *p = 0;\<close>\<close>

fun strncat_loop :: "int \<Rightarrow> int \<Rightarrow> nat \<Rightarrow> unit cmem" where
  "strncat_loop p from 0 = mseq (load from) (store_byte p 0)"
| "strncat_loop p from (Suc n) =
     mbind (load from) (\<lambda>b. if b \<noteq> 0 then mseq (store_byte p b) (strncat_loop (p + 1) (from + 1) n) else store_byte p 0)"

definition strncat :: "int \<Rightarrow> int \<Rightarrow> nat \<Rightarrow> int cmem" where
  "strncat to from sz =
     (if sz = 0 then ret to else mbind (strchr to 0) (\<lambda>p. mseq (strncat_loop p from sz) (ret to)))"

text \<open>\<^verbatim>\<open>while (*from && sz--) *p++ = *from++;\<close> gives the pointers and \<open>sz\<close>, which wraps.\<close>

fun strncpy_loop :: "int \<Rightarrow> int \<Rightarrow> nat \<Rightarrow> (int \<times> int \<times> int) cmem" where
  "strncpy_loop p from 0 = mbind (load from) (\<lambda>b. ret (p, from, if b \<noteq> 0 then to_size (- 1) else 0))"
| "strncpy_loop p from (Suc n) =
     mbind (load from) (\<lambda>b.
     if b \<noteq> 0 then mseq (store_byte p b) (strncpy_loop (p + 1) (from + 1) n) else ret (p, from, int (Suc n)))"

definition strncpy :: "int \<Rightarrow> int \<Rightarrow> nat \<Rightarrow> int cmem" where
  "strncpy to from sz =
     (if sz = 0 then ret to
      else mbind (strncpy_loop to from sz) (\<lambda>(p, from, sz).
           mbind (load from) (\<lambda>b.
           let sz = (if b \<noteq> 0 then to_size (sz + 1) else sz) in
           mseq (memset_loop p 0 (nat sz)) (ret to))))"

text \<open>The loops of \<^verbatim>\<open>strspn\<close>, \<^verbatim>\<open>strcspn\<close> and \<^verbatim>\<open>strpbrk\<close> stop where \<^verbatim>\<open>strchr\<close> finds the character, or not.\<close>

partial_function (option) span_loop :: "bool \<Rightarrow> int \<Rightarrow> int \<Rightarrow> int cmem" where
  "span_loop stop p chars m =
     mbind (load_char p) (\<lambda>x.
     if x \<noteq> 0 then mbind (strchr chars x) (\<lambda>q. if (q \<noteq> 0) = stop then ret p else span_loop stop (p + 1) chars)
     else ret p) m"

definition strspn :: "int \<Rightarrow> int \<Rightarrow> int cmem" where
  "strspn s skipset = mbind (span_loop False s skipset) (\<lambda>p. ret (p - s))"

definition strcspn :: "int \<Rightarrow> int \<Rightarrow> int cmem" where
  "strcspn s stopset = mbind (span_loop True s stopset) (\<lambda>p. ret (p - s))"

definition strpbrk :: "int \<Rightarrow> int \<Rightarrow> int cmem" where
  "strpbrk s stopset = span_loop True s stopset"

definition strstr :: "int \<Rightarrow> int \<Rightarrow> int cmem" where
  "strstr haystack needle =
     mbind (strlen_mem haystack) (\<lambda>n. mbind (strlen_mem needle) (\<lambda>k. memmem haystack (to_int n) needle (to_int k)))"

partial_function (option) case_loop :: "(int \<Rightarrow> int) \<Rightarrow> int \<Rightarrow> unit cmem" where
  "case_loop f p m =
     mbind (load_char p) (\<lambda>x. if x \<noteq> 0 then mseq (store_byte p (of_int (f x))) (case_loop f (p + 1)) else ret ()) m"

definition strlwr :: "int \<Rightarrow> int cmem" where
  "strlwr s = mseq (case_loop tolower s) (ret s)"

definition strupr :: "int \<Rightarrow> int cmem" where
  "strupr s = mseq (case_loop toupper s) (ret s)"

section \<open>Vectors of strings\<close>

partial_function (option) argz_count_loop :: "int \<Rightarrow> int \<Rightarrow> int \<Rightarrow> int cmem" where
  "argz_count_loop argz len count m =
     (if len > 0
      then mbind (strlen_mem argz) (\<lambda>n. argz_count_loop (argz + n + 1) (to_size (len - (n + 1))) (to_size (count + 1)))
      else ret count) m"

definition argz_count :: "int \<Rightarrow> int \<Rightarrow> int cmem" where
  "argz_count argz len = argz_count_loop argz len 0"

text \<open>The pointers that are stored in \<^verbatim>\<open>argv\<close> are collected in a list; the null pointer ends it.\<close>

partial_function (option) argz_extract_loop :: "int \<Rightarrow> int \<Rightarrow> int list \<Rightarrow> int list cmem" where
  "argz_extract_loop argz len argv m =
     (if len > 0
      then mbind (strlen_mem argz) (\<lambda>n. argz_extract_loop (argz + n + 1) (to_size (len - (n + 1))) (argv @ [argz]))
      else ret (argv @ [0])) m"

definition argz_extract :: "int \<Rightarrow> int \<Rightarrow> int list cmem" where
  "argz_extract argz len = argz_extract_loop argz len []"

section \<open>Errors\<close>

text \<open>The table has messages up to 39.\<close>

definition strerror :: "int \<Rightarrow> string" where
  "strerror errnum =
     (if errnum > 0 \<and> errnum \<le> 39
      then ''error '' @ [char_of (48 + nat (errnum div 10)), char_of (48 + nat (errnum mod 10))]
      else ''sterror: unknown error'')"

end
