(* ===== verification/Mes_Cstring.thy ===== *)
theory Mes_Cstring
  imports Mes_Memory "HOL-Library.Sublist"
begin

text \<open>
  What the functions on memory do: blocks are copied whatever their overlap, strings are measured,
  copied, joined, compared and searched. \<open>put m p bs\<close> is the memory \<open>m\<close> with \<open>bs\<close> at \<open>p\<close>.
\<close>

section \<open>Blocks and strings in memory\<close>

definition bytes_at :: "mem \<Rightarrow> int \<Rightarrow> byte list \<Rightarrow> bool" where
  "bytes_at m p bs \<longleftrightarrow> (\<forall>i < length bs. m (p + int i) = Some (bs ! i))"

definition mapped_at :: "mem \<Rightarrow> int \<Rightarrow> nat \<Rightarrow> bool" where
  "mapped_at m p n \<longleftrightarrow> (\<forall>i < n. m (p + int i) \<noteq> None)"

definition put :: "mem \<Rightarrow> int \<Rightarrow> byte list \<Rightarrow> mem" where
  "put m p bs = (\<lambda>x. if p \<le> x \<and> x < p + int (length bs) then Some (bs ! nat (x - p)) else m x)"

definition string_in :: "mem \<Rightarrow> int \<Rightarrow> byte list \<Rightarrow> bool" where
  "string_in m p bs \<longleftrightarrow> bytes_at m p (bs @ [0]) \<and> 0 \<notin> set bs"

lemma sint_zero [simp]: "sint b = 0 \<longleftrightarrow> b = 0" for b :: byte
  by (metis signed_0 scast_id scast_eq of_int_0 of_int_sint)

lemma sint_same [simp]: "sint x = sint y \<longleftrightarrow> x = y" for x y :: byte
  by (metis of_int_sint scast_id)

declare memmem_loop.simps [simp del] memcmp_loop.simps [simp del] strncmp_mem_loop.simps [simp del]

lemma load_Some [simp]: "m p = Some b \<Longrightarrow> load p m = Some (Inr b, m)"
  by (simp add: load_def)

lemma store_byte_Some [simp]: "m p = Some c \<Longrightarrow> store_byte p b m = Some (Inr (), m(p \<mapsto> b))"
  by (simp add: store_byte_def)

lemma load_char_Some [simp]: "m p = Some b \<Longrightarrow> load_char p m = Some (Inr (sint b), m)"
  by (simp add: load_char_def)

lemma bytes_at_Nil [simp]: "bytes_at m p []"
  by (simp add: bytes_at_def)

lemma bytes_at_Cons [simp]: "bytes_at m p (b # bs) \<longleftrightarrow> m p = Some b \<and> bytes_at m (p + 1) bs"
  by (auto simp: bytes_at_def All_less_Suc2 add.assoc)

lemma bytes_at_append [simp]: "bytes_at m p (bs @ cs) \<longleftrightarrow> bytes_at m p bs \<and> bytes_at m (p + int (length bs)) cs"
  by (induction bs arbitrary: p) (simp_all add: add.assoc add.commute)

lemma bytes_at_drop: "bytes_at m p bs \<Longrightarrow> i \<le> length bs \<Longrightarrow> bytes_at m (p + int i) (drop i bs)"
  using bytes_at_append [of m p "take i bs" "drop i bs"] by simp

lemma mapped_at_Suc: "mapped_at m p (Suc n) \<longleftrightarrow> m p \<noteq> None \<and> mapped_at m (p + 1) n"
  by (auto simp: mapped_at_def All_less_Suc2 add.assoc)

lemma mapped_at_0 [simp]: "mapped_at m p 0"
  by (simp add: mapped_at_def)

lemma mapped_at_last: "mapped_at m p (Suc n) \<longleftrightarrow> mapped_at m p n \<and> m (p + int n) \<noteq> None"
  by (auto simp: mapped_at_def less_Suc_eq)

lemma mapped_at_upd: "mapped_at m p n \<Longrightarrow> mapped_at (m(q \<mapsto> b)) p n"
  by (simp add: mapped_at_def)

lemma bytes_at_upd: "bytes_at m p bs \<Longrightarrow> q < p \<or> p + int (length bs) \<le> q \<Longrightarrow> bytes_at (m(q \<mapsto> b)) p bs"
  by (auto simp: bytes_at_def)

lemma put_Nil [simp]: "put m p [] = m"
  by (rule ext) (auto simp: put_def)

lemma put_Cons: "put (m(p \<mapsto> b)) (p + 1) bs = put m p (b # bs)"
proof -
  have "nat (x - p) = Suc (nat (x - (p + 1)))" if "p + 1 \<le> x" for x
    using that by arith
  then show ?thesis
    by (auto simp: put_def fun_eq_iff)
qed

lemma put_snoc: "put (m(p + int (length bs) \<mapsto> b)) p bs = put m p (bs @ [b])"
  by (auto simp: put_def fun_eq_iff nth_append)

lemma put_same [simp]: "bytes_at (put m p bs) p bs"
  by (simp add: bytes_at_def put_def)

lemma put_other: "x < p \<or> p + int (length bs) \<le> x \<Longrightarrow> put m p bs x = m x"
  by (auto simp: put_def)

lemma mapped_at_put: "mapped_at m q n \<Longrightarrow> mapped_at (put m p bs) q n"
  by (auto simp: mapped_at_def put_def)

section \<open>Copying\<close>

lemma memcpy_loop_ok:
  assumes "bytes_at m src bs" "mapped_at m dest (length bs)" "dest \<le> src \<or> src + int (length bs) \<le> dest"
  shows "memcpy_loop dest src (length bs) m = Some (Inr (), put m dest bs)"
  using assms
proof (induction bs arbitrary: dest src m)
  case Nil
  then show ?case by simp
next
  case (Cons b bs)
  obtain c where c: "m dest = Some c"
    using Cons.prems(2) by (auto simp: mapped_at_Suc)
  have "bytes_at (m(dest \<mapsto> b)) (src + 1) bs"
    using Cons.prems(1,3) by (intro bytes_at_upd) auto
  moreover have "mapped_at (m(dest \<mapsto> b)) (dest + 1) (length bs)"
    using Cons.prems(2) by (intro mapped_at_upd) (simp add: mapped_at_Suc)
  ultimately have "memcpy_loop (dest + 1) (src + 1) (length bs) (m(dest \<mapsto> b)) = Some (Inr (), put (m(dest \<mapsto> b)) (dest + 1) bs)"
    by (rule Cons.IH) (use Cons.prems(3) in auto)
  then have "memcpy_loop (dest + 1) (src + 1) (length bs) (m(dest \<mapsto> b)) = Some (Inr (), put m dest (b # bs))"
    unfolding put_Cons .
  then show ?case
    using Cons.prems(1) c by simp
qed

lemma copy_down_ok:
  assumes "bytes_at m src bs" "mapped_at m dest (length bs)" "src \<le> dest"
  shows "copy_down (dest + int (length bs)) (src + int (length bs)) (length bs) m = Some (Inr (), put m dest bs)"
  using assms
proof (induction bs arbitrary: m rule: rev_induct)
  case Nil
  then show ?case by simp
next
  case (snoc b bs)
  let ?q = "dest + int (length bs)"
  obtain c where c: "m ?q = Some c"
    using snoc.prems(2) by (auto simp: mapped_at_last)
  have "copy_down ?q (src + int (length bs)) (length bs) (m(?q \<mapsto> b)) = Some (Inr (), put (m(?q \<mapsto> b)) dest bs)"
    using snoc.prems by (intro snoc.IH bytes_at_upd mapped_at_upd) (simp_all add: mapped_at_last)
  then show ?case
    using snoc.prems(1) c by (simp add: put_snoc)
qed

text \<open>\<^verbatim>\<open>memmove\<close> copies a block to any place, where it may overlap itself.\<close>

lemma memmove_ok:
  assumes "bytes_at m src bs" "mapped_at m dest (length bs)"
  shows "memmove dest src (length bs) m = Some (Inr dest, put m dest bs)"
proof (cases "dest < src")
  case True
  then show ?thesis
    using memcpy_loop_ok [OF assms] by (simp add: memmove_def memcpy_def)
next
  case False
  then show ?thesis
    using copy_down_ok [OF assms] by (simp add: memmove_def)
qed

lemma memset_loop_ok:
  "mapped_at m s n \<Longrightarrow> memset_loop s c n m = Some (Inr (), put m s (replicate n (of_int c)))"
proof (induction n arbitrary: s m)
  case 0
  then show ?case by simp
next
  case (Suc n)
  obtain d where d: "m s = Some d" "mapped_at m (s + 1) n"
    using Suc.prems by (auto simp: mapped_at_Suc)
  have "memset_loop (s + 1) c n (m(s \<mapsto> of_int c)) = Some (Inr (), put (m(s \<mapsto> of_int c)) (s + 1) (replicate n (of_int c)))"
    by (rule Suc.IH [OF mapped_at_upd [OF d(2)]])
  then show ?case
    unfolding put_Cons using d(1) by simp
qed

section \<open>Strings\<close>

lemma string_in_Nil [simp]: "string_in m p [] \<longleftrightarrow> m p = Some 0"
  by (simp add: string_in_def)

lemma string_in_Cons: "string_in m p (b # bs) \<longleftrightarrow> m p = Some b \<and> b \<noteq> 0 \<and> string_in m (p + 1) bs"
  by (auto simp: string_in_def add.assoc)

lemma string_in_nth: "string_in m p bs \<Longrightarrow> i \<le> length bs \<Longrightarrow> m (p + int i) = Some ((bs @ [0]) ! i)"
  by (auto simp: string_in_def bytes_at_def nth_append)

lemma string_in_drop: "string_in m p bs \<Longrightarrow> i \<le> length bs \<Longrightarrow> string_in m (p + int i) (drop i bs)"
proof (induction i arbitrary: p bs)
  case 0
  then show ?case by simp
next
  case (Suc i)
  then obtain b bs' where "bs = b # bs'" by (cases bs) auto
  then show ?case
    using Suc.IH [of "p + 1" bs'] Suc.prems by (simp add: string_in_Cons add.assoc)
qed

lemma string_in_disjoint:
  "string_in m p bs \<Longrightarrow> q + int (length cs) \<le> p \<or> p + int (length bs) < q \<Longrightarrow> string_in (put m q cs) p bs"
  by (auto simp: string_in_def bytes_at_def put_def)

lemma strlen_loop_ok:
  assumes "string_in m (s + int i) bs" "int (i + length bs) < 2 ^ 31"
  shows "strlen_loop s (int i) m = Some (Inr (int (i + length bs)), m)"
  using assms
proof (induction bs arbitrary: i)
  case Nil
  then show ?case by (subst strlen_loop.simps) simp
next
  case (Cons b bs)
  have t: "to_int (int i + 1) = int (Suc i)"
    using Cons.prems(2) by (simp add: to_int_id is_int_def)
  have "string_in m (s + int (Suc i)) bs"
    using Cons.prems(1) by (simp add: string_in_Cons add.assoc add.commute [of 1])
  then have "strlen_loop s (int (Suc i)) m = Some (Inr (int (Suc i + length bs)), m)"
    by (rule Cons.IH) (use Cons.prems(2) in simp)
  then show ?case
    using Cons.prems(1) unfolding t [symmetric]
    by (subst strlen_loop.simps) (simp add: string_in_Cons del: of_nat_Suc of_nat_add)
qed

lemma strlen_mem_ok:
  assumes "string_in m s bs" "int (length bs) < 2 ^ 31"
  shows "strlen_mem s m = Some (Inr (int (length bs)), m)"
  using strlen_loop_ok [of m s 0 bs] assms by (simp add: strlen_mem_def)

lemma strcpy_loop_ok:
  assumes "string_in m src bs" "mapped_at m p (Suc (length bs))" "p + int (length bs) < src \<or> src + int (length bs) < p"
  shows "strcpy_loop p src m = Some (Inr (), put m p (bs @ [0]))"
  using assms
proof (induction bs arbitrary: p src m)
  case Nil
  then obtain c where "m p = Some c" by (auto simp: mapped_at_Suc)
  then show ?case
    using Nil.prems(1) put_Cons [of m p 0 "[]"] by (subst strcpy_loop.simps) simp
next
  case (Cons b bs)
  obtain c where c: "m p = Some c" "mapped_at m (p + 1) (Suc (length bs))"
    using Cons.prems(2) by (auto simp: mapped_at_Suc [of m p])
  have "string_in (put m p [b]) (src + 1) bs"
    using Cons.prems(1,3) by (intro string_in_disjoint) (auto simp: string_in_Cons)
  then have "string_in (m(p \<mapsto> b)) (src + 1) bs"
    using put_Cons [of m p b "[]"] by simp
  then have "strcpy_loop (p + 1) (src + 1) (m(p \<mapsto> b)) = Some (Inr (), put (m(p \<mapsto> b)) (p + 1) (bs @ [0]))"
    by (rule Cons.IH [OF _ mapped_at_upd [OF c(2)]]) (use Cons.prems(3) in auto)
  then have "strcpy_loop (p + 1) (src + 1) (m(p \<mapsto> b)) = Some (Inr (), put m p (b # bs @ [0]))"
    unfolding put_Cons .
  then show ?case
    using Cons.prems(1) c(1) by (subst strcpy_loop.simps) (simp add: string_in_Cons)
qed

lemma strchr_ok:
  assumes "string_in m p bs"
  shows "strchr p c m = Some (Inr (case find (\<lambda>i. sint ((bs @ [0]) ! i) = c) [0..<Suc (length bs)] of None \<Rightarrow> 0 | Some i \<Rightarrow> p + int i), m)"
  using assms
proof (induction bs arbitrary: p)
  case Nil
  then show ?case by (subst strchr.simps) auto
next
  case (Cons b bs)
  have b: "m p = Some b" "sint b \<noteq> 0" "string_in m (p + 1) bs"
    using Cons.prems by (auto simp: string_in_Cons)
  have up: "[0..<Suc (length (b # bs))] = 0 # map Suc [0..<Suc (length bs)]"
    by (simp add: map_Suc_upt upt_conv_Cons del: upt_Suc)
  have "find (\<lambda>i. sint ((b # bs @ [0]) ! i) = c) (map Suc xs) = map_option Suc (find (\<lambda>i. sint ((bs @ [0]) ! i) = c) xs)" for xs
    by (induction xs) simp_all
  then show ?case
    using b Cons.IH [OF b(3)] unfolding up
    by (subst strchr.simps) (auto split: option.splits simp del: upt_Suc)
qed

lemma strchr_end:
  assumes "string_in m p bs"
  shows "strchr p 0 m = Some (Inr (p + int (length bs)), m)"
  using assms
proof (induction bs arbitrary: p)
  case Nil
  then show ?case by (subst strchr.simps) simp
next
  case (Cons b bs)
  then show ?case
    using Cons.IH [of "p + 1"] by (subst strchr.simps) (auto simp: string_in_Cons add.assoc)
qed

text \<open>\<^verbatim>\<open>strcat\<close> puts a string behind another.\<close>

lemma strcat_ok:
  assumes "string_in m to as" "string_in m from bs" "mapped_at m (to + int (length as)) (Suc (length bs))"
    and "to + int (length as) + int (length bs) < from \<or> from + int (length bs) < to"
  shows "strcat to from m = Some (Inr to, put m (to + int (length as)) (bs @ [0]))"
proof -
  have "to + int (length as) + int (length bs) < from \<or> from + int (length bs) < to + int (length as)"
    using assms(4) by linarith
  then show ?thesis
    using strchr_end [OF assms(1)] strcpy_loop_ok [OF assms(2,3)] by (simp add: strcat_def)
qed

lemma strcmp_ok:
  assumes "string_in m a as" "string_in m b bs"
  shows "\<exists>d. strcmp a b m = Some (Inr d, m) \<and> (d = 0 \<longleftrightarrow> as = bs)"
  using assms
proof (induction as arbitrary: a b bs)
  case Nil
  then show ?case
    by (cases bs; subst strcmp.simps) (auto simp: string_in_Cons)
next
  case (Cons x as)
  show ?case
  proof (cases bs)
    case Nil
    then show ?thesis
      using Cons.prems by (subst strcmp.simps) (auto simp: string_in_Cons)
  next
    case (Cons y bs')
    then show ?thesis
      using Cons.prems Cons.IH [of "a + 1" "b + 1" bs'] by (subst strcmp.simps) (auto simp: string_in_Cons)
  qed
qed

section \<open>Searching\<close>

lemma matches_at_ok:
  assumes "bytes_at m n ns" "bytes_at m h hs"
    and "length ns \<le> length hs"
  shows "matches_at n h (length ns) m = Some (Inr (prefix ns hs), m)"
  using assms
proof (induction ns arbitrary: n h hs)
  case Nil
  then show ?case by simp
next
  case (Cons x ns)
  then obtain y hs' where "hs = y # hs'" by (cases hs) auto
  then show ?case
    using Cons by (auto simp: Cons_prefix_Cons)
qed

lemma memmem_loop_ok:
  assumes "bytes_at m n ns" "bytes_at m h hs" "k = e - i" "i \<le> e" "e + length ns = length hs + 1"
  shows "memmem_loop (h + int i) (h + int e) n (int (length ns)) m
    = Some (Inr (case find (\<lambda>i. prefix ns (drop i hs)) [i..<e] of None \<Rightarrow> 0 | Some i \<Rightarrow> h + int i), m)"
  using assms(3,4)
proof (induction k arbitrary: i)
  case 0
  then show ?case
    by (subst memmem_loop.simps) simp
next
  case (Suc k)
  then have i: "i < e" "i + length ns \<le> length hs" using assms(5) by simp_all
  have "matches_at n (h + int i) (length ns) m = Some (Inr (prefix ns (drop i hs)), m)"
    by (rule matches_at_ok [OF assms(1) bytes_at_drop [OF assms(2)]]) (use i in simp_all)
  moreover have "[i..<e] = i # [Suc i..<e]"
    using i by (simp add: upt_conv_Cons)
  moreover have nx: "h + int i + 1 = h + int (Suc i)"
    by simp
  ultimately show ?case
    using Suc.IH [of "Suc i"] Suc.prems i
    by (subst memmem_loop.simps) (simp add: nx del: of_nat_Suc)
qed

text \<open>The first place of a string within another, or null.\<close>

definition first_place :: "byte list \<Rightarrow> byte list \<Rightarrow> nat option" where
  "first_place ns hs = find (\<lambda>i. prefix ns (drop i hs)) [0..<Suc (length hs)]"

lemma find_append: "find P (xs @ ys) = (case find P xs of None \<Rightarrow> find P ys | Some x \<Rightarrow> Some x)"
  by (induction xs) simp_all

lemma first_place_short:
  assumes "e + length ns = length hs + 1"
  shows "find (\<lambda>i. prefix ns (drop i hs)) [0..<e] = first_place ns hs"
proof -
  have "[0..<Suc (length hs)] = [0..<e] @ [e..<Suc (length hs)]"
    using upt_add_eq_append [of 0 e "length ns"] assms by simp
  moreover have "find (\<lambda>i. prefix ns (drop i hs)) [e..<Suc (length hs)] = None"
    unfolding find_None_iff using assms by (auto dest!: prefix_length_le simp del: upt_Suc)
  ultimately show ?thesis
    unfolding first_place_def by (simp add: find_append split: option.splits del: upt_Suc)
qed

lemma strstr_ok:
  assumes "string_in m h hs" "string_in m n ns" "int (length hs) < 2 ^ 31" "int (length ns) < 2 ^ 31"
  shows "strstr h n m = Some (Inr (case first_place ns hs of None \<Rightarrow> 0 | Some i \<Rightarrow> h + int i), m)"
proof -
  have l: "strlen_mem h m = Some (Inr (int (length hs)), m)" "strlen_mem n m = Some (Inr (int (length ns)), m)"
    "to_int (int (length hs)) = int (length hs)" "to_int (int (length ns)) = int (length ns)"
    using assms by (simp_all add: strlen_mem_ok to_int_id is_int_def)
  have b: "bytes_at m n ns" "bytes_at m h hs"
    using assms(1,2) by (simp_all add: string_in_def)
  show ?thesis
  proof (cases "length ns \<le> length hs")
    case True
    then have e: "length hs - length ns + 1 + length ns = length hs + 1"
      "h + int (length hs) - int (length ns) + 1 = h + int (length hs - length ns + 1)"
      by simp_all
    show ?thesis
      using l memmem_loop_ok [OF b refl _ e(1), of 0] first_place_short [OF e(1)]
      unfolding strstr_def memmem_def by (simp add: e(2) del: upt_Suc of_nat_Suc)
  next
    case False
    then have "first_place ns hs = None"
      by (auto simp: first_place_def find_None_iff dest!: prefix_length_le)
    then show ?thesis
      using l False by (simp add: strstr_def memmem_def memmem_loop.simps)
  qed
qed

section \<open>Where the functions depart from the standard\<close>

text \<open>Without a character of the set in the string, \<^verbatim>\<open>strpbrk\<close> returns its end and not null.\<close>

lemma strpbrk_none:
  assumes "string_in m p bs" "\<forall>b \<in> set bs. strchr chars (sint b) m = Some (Inr 0, m)"
  shows "strpbrk p chars m = Some (Inr (p + int (length bs)), m)"
  using assms
proof (induction bs arbitrary: p)
  case Nil
  then show ?case by (subst strpbrk_def, subst span_loop.simps) simp
next
  case (Cons b bs)
  then show ?case
    using Cons.IH [of "p + 1"] by (subst strpbrk_def, subst span_loop.simps) (auto simp: string_in_Cons strpbrk_def add.assoc)
qed

text \<open>The terminating null byte of an empty string is not found.\<close>

lemma strrchr_empty: "string_in m p [] \<Longrightarrow> strrchr p 0 m = Some (Inr 0, m)"
  using strlen_mem_ok [of m p "[]"] by (simp add: strrchr_def)

text \<open>A byte above 127 is not found when it is given as an \<^verbatim>\<open>unsigned char\<close>.\<close>

lemma memchr_high: "m p = Some b \<Longrightarrow> 128 \<le> c \<Longrightarrow> memchr p c 1 m = Some (Inr 0, m)"
  using sint_range_size [of b] by (simp add: size_word_def)

end
