(* ===== verification/Mes_Qsort.thy ===== *)
theory Mes_Qsort
  imports Mes_Cstring "HOL-Library.Multiset"
begin

text \<open>
  \<^verbatim>\<open>qsort\<close> of the C library (src/lib/stdlib/qsort.c) on a memory of bytes. The function that
  compares is an argument. Lists of elements describe what happens to the array: \<open>partition_list\<close>
  is the list version of \<^verbatim>\<open>qpart\<close>.
\<close>

section \<open>The operations\<close>

fun qswap_loop :: "int \<Rightarrow> int \<Rightarrow> nat \<Rightarrow> unit cmem" where
  "qswap_loop pa pb 0 = ret ()"
| "qswap_loop pa pb (Suc n) =
     mbind (load pa) (\<lambda>tmp. mbind (load pb) (\<lambda>x.
     mseq (store_byte pa x) (mseq (store_byte pb tmp) (qswap_loop (pa + 1) (pb + 1) n))))"

text \<open>The loop tests its counter behind the body: 0 wraps.\<close>

definition qswap :: "int \<Rightarrow> int \<Rightarrow> nat \<Rightarrow> unit cmem" where
  "qswap a b sz = qswap_loop a b (if sz = 0 then 2 ^ 64 else sz)"

fun qpart_loop :: "int \<Rightarrow> nat \<Rightarrow> (int \<Rightarrow> int \<Rightarrow> int cmem) \<Rightarrow> int \<Rightarrow> nat \<Rightarrow> nat \<Rightarrow> nat \<Rightarrow> nat cmem" where
  "qpart_loop base sz compare p i j 0 = ret i"
| "qpart_loop base sz compare p i j (Suc n) =
     mbind (compare (base + int (j * sz)) p) (\<lambda>c.
     if c < 0
     then mseq (qswap (base + int (i * sz)) (base + int (j * sz)) sz) (qpart_loop base sz compare p (i + 1) (j + 1) n)
     else if c = 0 then qpart_loop base sz compare p (i + 1) (j + 1) n
     else qpart_loop base sz compare p i (j + 1) n)"

definition qpart :: "int \<Rightarrow> nat \<Rightarrow> nat \<Rightarrow> (int \<Rightarrow> int \<Rightarrow> int cmem) \<Rightarrow> nat cmem" where
  "qpart base cnt sz compare =
     mbind (qpart_loop base sz compare (base + int (cnt * sz)) 0 0 cnt) (\<lambda>i.
     mbind (compare (base + int (cnt * sz)) (base + int (i * sz))) (\<lambda>c.
     mseq (mwhen (c < 0) (qswap (base + int (i * sz)) (base + int (cnt * sz)) sz)) (ret i)))"

text \<open>The index goes through an \<^verbatim>\<open>int\<close>.\<close>

partial_function (option) qsort :: "int \<Rightarrow> nat \<Rightarrow> nat \<Rightarrow> (int \<Rightarrow> int \<Rightarrow> int cmem) \<Rightarrow> unit cmem" where
  "qsort base cnt sz compare m =
     (if cnt > 1
      then mbind (qpart base (cnt - 1) sz compare) (\<lambda>i.
           let p = to_int (int i) in
           mseq (qsort base (nat (to_size p)) sz compare)
             (qsort (base + p * int sz) (nat (to_size (int cnt - p))) sz compare))
      else ret ()) m"

section \<open>Partition of a list\<close>

fun partition_loop :: "('a \<Rightarrow> 'a \<Rightarrow> int) \<Rightarrow> 'a \<Rightarrow> nat \<Rightarrow> nat \<Rightarrow> nat \<Rightarrow> 'a list \<Rightarrow> nat \<times> 'a list" where
  "partition_loop cmp x i j 0 xs = (i, xs)"
| "partition_loop cmp x i j (Suc n) xs =
     (if cmp (xs ! j) x < 0 then partition_loop cmp x (i + 1) (j + 1) n (xs[i := xs ! j, j := xs ! i])
      else if cmp (xs ! j) x = 0 then partition_loop cmp x (i + 1) (j + 1) n xs
      else partition_loop cmp x i (j + 1) n xs)"

definition partition_list :: "('a \<Rightarrow> 'a \<Rightarrow> int) \<Rightarrow> 'a list \<Rightarrow> nat \<times> 'a list" where
  "partition_list cmp xs =
     (let n = length xs - 1; (i, ys) = partition_loop cmp (xs ! n) 0 0 n xs in
      (i, if cmp (ys ! n) (ys ! i) < 0 then ys[i := ys ! n, n := ys ! i] else ys))"

text \<open>The answers of a comparison are consistent.\<close>

definition comparison :: "('a \<Rightarrow> 'a \<Rightarrow> int) \<Rightarrow> bool" where
  "comparison cmp \<longleftrightarrow> (\<forall>x y. cmp x y < 0 \<longleftrightarrow> 0 < cmp y x) \<and> (\<forall>x y z. cmp x y \<le> 0 \<longrightarrow> cmp y z \<le> 0 \<longrightarrow> cmp x z \<le> 0)"

lemma comparison_flip: "comparison cmp \<Longrightarrow> cmp x y < 0 \<longleftrightarrow> 0 < cmp y x"
  by (simp add: comparison_def)

lemma mset_swap_any:
  "i < length xs \<Longrightarrow> j < length xs \<Longrightarrow> mset (xs[i := xs ! j, j := xs ! i]) = mset xs"
  by (cases "i = j") (simp_all add: mset_swap)

lemma partition_loop_index:
  "partition_loop cmp x i j n xs = (k, ys) \<Longrightarrow> i \<le> j \<Longrightarrow> i \<le> k \<and> k \<le> j + n \<and> length ys = length xs"
  by (induction n arbitrary: i j xs) (fastforce split: if_splits)+

lemma partition_loop_mset:
  "partition_loop cmp x i j n xs = (k, ys) \<Longrightarrow> i \<le> j \<Longrightarrow> j + n < length xs \<Longrightarrow>
   mset ys = mset xs \<and> (\<forall>l. j + n \<le> l \<longrightarrow> ys ! l = xs ! l)"
proof (induction n arbitrary: i j xs)
  case 0
  then show ?case by simp
next
  case (Suc n)
  show ?case
  proof (cases "cmp (xs ! j) x < 0")
    case True
    then show ?thesis
      using Suc.IH [of "i + 1" "j + 1" "xs[i := xs ! j, j := xs ! i]"] Suc.prems mset_swap_any [of i xs j] by auto
  next
    case False
    then show ?thesis
      using Suc.IH [of _ "j + 1" xs] Suc.prems by (auto split: if_splits)
  qed
qed

lemma partition_list_facts:
  assumes "partition_list cmp xs = (i, ys)" "xs \<noteq> []"
  shows "mset ys = mset xs" "length ys = length xs" "i < length xs"
proof -
  let ?n = "length xs - 1"
  obtain zs where z: "partition_loop cmp (xs ! ?n) 0 0 ?n xs = (i, zs)"
    "ys = (if cmp (zs ! ?n) (zs ! i) < 0 then zs[i := zs ! ?n, ?n := zs ! i] else zs)"
    using assms(1) by (auto simp: partition_list_def Let_def split: prod.splits)
  have l: "i \<le> ?n" "length zs = length xs" "mset zs = mset xs"
    using partition_loop_index [OF z(1)] partition_loop_mset [OF z(1)] assms(2) by auto
  moreover have i: "i < length xs"
    using l(1) assms(2) by (cases xs) auto
  moreover have "mset (zs[i := zs ! ?n, ?n := zs ! i]) = mset xs"
    using mset_swap_any [of i zs ?n] i l(2,3) by simp
  ultimately show "mset ys = mset xs" "length ys = length xs" "i < length xs"
    using z(2) by (simp_all split: if_splits)
qed

text \<open>When nothing compares equal to the pivot, what is smaller comes first.\<close>

lemma partition_loop_order:
  assumes "partition_loop cmp x i j n xs = (k, ys)" "i \<le> j" "j + n < length xs"
    and "\<forall>l < i. cmp (xs ! l) x < 0" "\<forall>l. i \<le> l \<and> l < j \<longrightarrow> 0 < cmp (xs ! l) x" "\<forall>l < j + n. cmp (xs ! l) x \<noteq> 0"
  shows "(\<forall>l < k. cmp (ys ! l) x < 0) \<and> (\<forall>l. k \<le> l \<and> l < j + n \<longrightarrow> 0 < cmp (ys ! l) x)"
  using assms
proof (induction n arbitrary: i j xs)
  case 0
  then show ?case by simp
next
  case (Suc n)
  show ?case
  proof (cases "cmp (xs ! j) x < 0")
    case True
    let ?xs = "xs[i := xs ! j, j := xs ! i]"
    have nth: "?xs ! l = (if l = j then xs ! i else if l = i then xs ! j else xs ! l)" if "l < length xs" for l
      using that Suc.prems(2,3) by (simp add: nth_list_update)
    have "\<forall>l < i + 1. cmp (?xs ! l) x < 0" "\<forall>l. i + 1 \<le> l \<and> l < j + 1 \<longrightarrow> 0 < cmp (?xs ! l) x" "\<forall>l < j + 1 + n. cmp (?xs ! l) x \<noteq> 0"
      using Suc.prems(2-6) True by (auto simp: nth less_Suc_eq)
    then show ?thesis
      using Suc.IH [of "i + 1" "j + 1" ?xs] Suc.prems(1-3) True by simp
  next
    case False
    then have "0 < cmp (xs ! j) x"
      using Suc.prems(6) by (metis add.commute add_Suc_right less_add_Suc1 linorder_neqE_linordered_idom)
    then show ?thesis
      using Suc.IH [of i "j + 1" xs] Suc.prems False by (auto simp: less_Suc_eq)
  qed
qed

text \<open>The first element is counted when it is not greater than the pivot.\<close>

lemma partition_loop_first:
  assumes "partition_loop cmp x 0 0 (Suc n) xs = (k, ys)" "cmp (xs ! 0) x \<le> 0"
  shows "0 < k"
proof -
  obtain zs where "partition_loop cmp x 1 1 n zs = (k, ys)"
    using assms by (cases "cmp (xs ! 0) x < 0") auto
  from partition_loop_index [OF this] show ?thesis by simp
qed

lemma partition_loop_none:
  assumes "partition_loop cmp x i j n xs = (0, ys)"
  shows "ys = xs"
  using assms
proof (induction n arbitrary: i j xs)
  case (Suc n)
  have "0 < k" if "partition_loop cmp x (i + 1) j' n zs = (k, ws)" for k j' zs ws
    using that by (induction n arbitrary: i j' zs) (auto split: if_splits)
  then show ?case
    using Suc by (fastforce split: if_splits)
qed simp

lemma partition_list_order:
  assumes "partition_list cmp xs = (i, ys)" "comparison cmp" "xs \<noteq> []" "\<forall>l < length xs - 1. cmp (xs ! l) (xs ! (length xs - 1)) \<noteq> 0"
  shows "\<forall>l < i. cmp (ys ! l) (ys ! i) < 0" "\<forall>l. i < l \<and> l < length xs \<longrightarrow> 0 < cmp (ys ! l) (ys ! i)"
proof -
  define n where "n = length xs - 1"
  have n: "n < length xs" "\<And>l. l < length xs \<longleftrightarrow> l < n \<or> l = n"
    using assms(3) by (cases xs; auto simp: n_def)+
  obtain zs where z: "partition_loop cmp (xs ! n) 0 0 n xs = (i, zs)"
    "ys = (if cmp (zs ! n) (zs ! i) < 0 then zs[i := zs ! n, n := zs ! i] else zs)"
    using assms(1) by (auto simp: partition_list_def Let_def n_def split: prod.splits)
  have o: "\<forall>l < i. cmp (zs ! l) (xs ! n) < 0" "\<forall>l. i \<le> l \<and> l < n \<longrightarrow> 0 < cmp (zs ! l) (xs ! n)"
    using partition_loop_order [OF z(1)] assms(4) n by (simp_all add: n_def)
  have l: "i \<le> n" "length zs = length xs" "zs ! n = xs ! n"
    using partition_loop_index [OF z(1)] partition_loop_mset [OF z(1)] n by auto
  have f: "cmp x y < 0 \<longleftrightarrow> 0 < cmp y x" for x y
    using comparison_flip [OF assms(2)] .
  have "(\<forall>l < i. cmp (ys ! l) (ys ! i) < 0) \<and> (\<forall>l. i < l \<and> l < length xs \<longrightarrow> 0 < cmp (ys ! l) (ys ! i))"
  proof (cases "i = n")
    case True
    then have "ys = zs"
      using z(2) f [of "zs ! n" "zs ! n"] by auto
    then show ?thesis
      using o(1) l(3) True n(2) by auto
  next
    case False
    then have "0 < cmp (zs ! i) (xs ! n)"
      using o(2) l(1) by simp
    then have ys: "ys = zs[i := zs ! n, n := zs ! i]"
      using z(2) f [of "zs ! n" "zs ! i"] l(3) by simp
    then show ?thesis
      using o l False n f by (auto simp: nth_list_update)
  qed
  then show "\<forall>l < i. cmp (ys ! l) (ys ! i) < 0" "\<forall>l. i < l \<and> l < length xs \<longrightarrow> 0 < cmp (ys ! l) (ys ! i)"
    by blast+
qed

text \<open>If nothing stays in front, the smallest element is put there.\<close>

lemma partition_list_zero:
  assumes "partition_list cmp xs = (0, ys)" "comparison cmp" "2 \<le> length xs"
  shows "0 < cmp (xs ! 0) (xs ! (length xs - 1))" "cmp (ys ! 0) (ys ! (length xs - 1)) < 0"
proof -
  obtain n where n: "length xs = Suc (Suc n)"
    using assms(3) by (metis Suc_le_D numeral_2_eq_2 Suc_le_mono)
  obtain zs where z: "partition_loop cmp (xs ! Suc n) 0 0 (Suc n) xs = (0, zs)"
    "ys = (if cmp (zs ! Suc n) (zs ! 0) < 0 then zs[0 := zs ! Suc n, Suc n := zs ! 0] else zs)"
    using assms(1) n by (auto simp: partition_list_def Let_def split: prod.splits)
  have zs: "zs = xs" by (rule partition_loop_none [OF z(1)])
  show gt: "0 < cmp (xs ! 0) (xs ! (length xs - 1))"
    using partition_loop_first [OF z(1)] n by (cases "cmp (xs ! 0) (xs ! Suc n) \<le> 0") auto
  then show "cmp (ys ! 0) (ys ! (length xs - 1)) < 0"
    using z(2) n comparison_flip [OF assms(2)] by (simp add: zs nth_list_update)
qed

lemma partition_list_first:
  assumes "partition_list cmp xs = (i, ys)" "2 \<le> length xs" "cmp (xs ! 0) (xs ! (length xs - 1)) < 0"
  shows "0 < i"
proof -
  obtain n where n: "length xs = Suc (Suc n)"
    using assms(2) by (metis Suc_le_D numeral_2_eq_2 Suc_le_mono)
  obtain zs where "partition_loop cmp (xs ! Suc n) 0 0 (Suc n) xs = (i, zs)"
    using assms(1) n by (auto simp: partition_list_def Let_def split: prod.splits)
  then show ?thesis
    by (rule partition_loop_first) (use assms(3) n in simp)
qed

section \<open>Arrays in memory\<close>

definition array_at :: "mem \<Rightarrow> int \<Rightarrow> nat \<Rightarrow> byte list list \<Rightarrow> bool" where
  "array_at m base sz xs \<longleftrightarrow> bytes_at m base (concat xs) \<and> (\<forall>x \<in> set xs. length x = sz)"

lemma array_length: "\<forall>x \<in> set xs. length x = sz \<Longrightarrow> length (concat xs) = length xs * sz"
  by (induction xs) simp_all

lemma array_at_nth:
  "array_at m base sz xs \<Longrightarrow> i < length xs \<Longrightarrow> bytes_at m (base + int (i * sz)) (xs ! i) \<and> length (xs ! i) = sz"
proof (induction xs arbitrary: base i)
  case (Cons x xs)
  show ?case
  proof (cases i)
    case 0
    then show ?thesis using Cons.prems by (simp add: array_at_def)
  next
    case (Suc k)
    have "length x = sz" using Cons.prems(1) by (simp add: array_at_def)
    then have "array_at m (base + int sz) sz xs"
      using Cons.prems(1) by (simp add: array_at_def)
    then show ?thesis
      using Cons.IH [of "base + int sz" k] Cons.prems(2) Suc by (simp add: algebra_simps)
  qed
qed simp

lemma array_at_append:
  "array_at m base sz (xs @ ys) \<longleftrightarrow> array_at m base sz xs \<and> array_at m (base + int (length xs * sz)) sz ys"
  using array_length [of xs sz] by (auto simp: array_at_def)

lemma array_at_iff_nth:
  "array_at m base sz xs \<longleftrightarrow> (\<forall>i < length xs. bytes_at m (base + int (i * sz)) (xs ! i) \<and> length (xs ! i) = sz)"
proof (induction xs arbitrary: base)
  case Nil
  then show ?case by (simp add: array_at_def)
next
  case (Cons x xs)
  have "array_at m base sz (x # xs) \<longleftrightarrow> bytes_at m base x \<and> length x = sz \<and> array_at m (base + int sz) sz xs"
    by (auto simp: array_at_def)
  then show ?case
    by (auto simp: Cons.IH All_less_Suc2 algebra_simps)
qed

text \<open>The memory outside of an array stays.\<close>

definition same_outside :: "int \<Rightarrow> nat \<Rightarrow> mem \<Rightarrow> mem \<Rightarrow> bool" where
  "same_outside base n m t \<longleftrightarrow> (\<forall>x. x < base \<or> base + int n \<le> x \<longrightarrow> t x = m x)"

lemma same_outside_refl [simp]: "same_outside base n m m"
  by (simp add: same_outside_def)

lemma same_outside_trans: "same_outside base n m t \<Longrightarrow> same_outside base n t u \<Longrightarrow> same_outside base n m u"
  by (simp add: same_outside_def)

lemma same_outside_part:
  assumes "same_outside (base + int k) n m t" "k + n \<le> l"
  shows "same_outside base l m t"
  using assms by (auto simp: same_outside_def)

lemma qswap_loop_ok:
  assumes "bytes_at m a xs" "bytes_at m b ys" "length ys = length xs"
    and "a + int (length xs) \<le> b \<or> b + int (length xs) \<le> a"
  shows "qswap_loop a b (length xs) m = Some (Inr (), put (put m a ys) b xs)"
  using assms
proof (induction xs arbitrary: a b ys m)
  case Nil
  then show ?case by simp
next
  case (Cons x xs)
  obtain y ys' where ys: "ys = y # ys'" "length ys' = length xs"
    using Cons.prems(3) by (cases ys) auto
  have ab: "a \<noteq> b" "m a = Some x" "m b = Some y" using Cons.prems by (auto simp: ys)
  let ?t = "m(a \<mapsto> y, b \<mapsto> x)"
  have "bytes_at ?t (a + 1) xs" "bytes_at ?t (b + 1) ys'"
    using Cons.prems ys by (auto intro!: bytes_at_upd)
  then have "qswap_loop (a + 1) (b + 1) (length xs) ?t = Some (Inr (), put (put ?t (a + 1) ys') (b + 1) xs)"
    by (rule Cons.IH) (use Cons.prems(4) ys(2) in auto)
  moreover have "put (put ?t (a + 1) ys') (b + 1) xs = put (put m a (y # ys')) b (x # xs)"
  proof -
    have "put ?t (a + 1) ys' = (put (m(a \<mapsto> y)) (a + 1) ys')(b \<mapsto> x)"
      using Cons.prems(4) ys(2) by (auto simp: put_def fun_eq_iff)
    then show ?thesis unfolding put_Cons by (simp only: put_Cons)
  qed
  ultimately show ?case
    using ab by (simp add: ys(1))
qed

lemma qswap_loop_self: "bytes_at m a xs \<Longrightarrow> qswap_loop a a (length xs) m = Some (Inr (), m)"
proof (induction xs arbitrary: a)
  case (Cons x xs)
  then have "m a = Some x" "m(a \<mapsto> x) = m" by auto
  then show ?case using Cons by simp
qed simp

lemma blocks_apart: "k \<noteq> i \<Longrightarrow> k * sz + sz \<le> i * sz \<or> i * sz + sz \<le> k * sz" for k i sz :: nat
proof -
  have "Suc k * sz \<le> i * sz \<or> Suc i * sz \<le> k * sz" if "k \<noteq> i"
    using that by (metis Suc_leI linorder_neqE_nat mult_le_mono1)
  then show "k \<noteq> i \<Longrightarrow> ?thesis" by (simp add: add.commute)
qed

lemma block_inside: "i < n \<Longrightarrow> i * sz + sz \<le> n * sz" for i n sz :: nat
  using mult_le_mono1 [of "Suc i" n sz] by simp

lemma bytes_at_put:
  "bytes_at m p bs \<Longrightarrow> q + int (length cs) \<le> p \<or> p + int (length bs) \<le> q \<Longrightarrow> bytes_at (put m q cs) p bs"
  by (auto simp: bytes_at_def put_def)

lemma qswap_array:
  assumes a: "array_at m base sz xs" and ij: "i < length xs" "j < length xs" and sz: "0 < sz"
  shows "\<exists>t. qswap (base + int (i * sz)) (base + int (j * sz)) sz m = Some (Inr (), t)
    \<and> array_at t base sz (xs[i := xs ! j, j := xs ! i]) \<and> same_outside base (length xs * sz) m t"
proof -
  have x: "bytes_at m (base + int (i * sz)) (xs ! i)" "length (xs ! i) = sz"
    "bytes_at m (base + int (j * sz)) (xs ! j)" "length (xs ! j) = sz"
    using array_at_nth [OF a ij(1)] array_at_nth [OF a ij(2)] by auto
  show ?thesis
  proof (cases "i = j")
    case True
    then show ?thesis
      using qswap_loop_self [OF x(1)] x(2) a sz by (simp add: qswap_def del: of_nat_mult)
  next
    case False
    let ?t = "put (put m (base + int (i * sz)) (xs ! j)) (base + int (j * sz)) (xs ! i)"
    have d: "i * sz + sz \<le> j * sz \<or> j * sz + sz \<le> i * sz" by (rule blocks_apart [OF False])
    have "qswap_loop (base + int (i * sz)) (base + int (j * sz)) (length (xs ! i)) m = Some (Inr (), ?t)"
      by (rule qswap_loop_ok [OF x(1,3)]) (use x d in \<open>auto simp del: of_nat_mult\<close>)
    then have q: "qswap (base + int (i * sz)) (base + int (j * sz)) sz m = Some (Inr (), ?t)"
      using x(2) sz by (simp add: qswap_def del: of_nat_mult)
    have "bytes_at ?t (base + int (k * sz)) (xs[i := xs ! j, j := xs ! i] ! k) \<and> length (xs[i := xs ! j, j := xs ! i] ! k) = sz"
      if k: "k < length xs" for k
    proof -
      consider "k = j" | "k = i" "k \<noteq> j" | "k \<noteq> i" "k \<noteq> j" by blast
      then show ?thesis
      proof cases
        case 1
        then show ?thesis using x ij put_same [of "put m (base + int (i * sz)) (xs ! j)"] by (simp del: of_nat_mult)
      next
        case 2
        then show ?thesis
          using x ij bytes_at_put [OF put_same [of m "base + int (i * sz)" "xs ! j"], of "base + int (j * sz)" "xs ! i"] d
          by (auto simp: nth_list_update simp del: of_nat_mult)
      next
        case 3
        have y: "bytes_at m (base + int (k * sz)) (xs ! k)" "length (xs ! k) = sz"
          using array_at_nth [OF a k] by auto
        have "bytes_at (put m (base + int (i * sz)) (xs ! j)) (base + int (k * sz)) (xs ! k)"
          by (rule bytes_at_put [OF y(1)]) (use blocks_apart [OF 3(1), of sz] x y in \<open>auto simp del: of_nat_mult\<close>)
        then have "bytes_at ?t (base + int (k * sz)) (xs ! k)"
          by (rule bytes_at_put) (use blocks_apart [OF 3(2), of sz] x y in \<open>auto simp del: of_nat_mult\<close>)
        then show ?thesis using 3 y ij by (simp del: of_nat_mult)
      qed
    qed
    then have "array_at ?t base sz (xs[i := xs ! j, j := xs ! i])"
      unfolding array_at_iff_nth by simp
    moreover have "same_outside base (length xs * sz) m ?t"
      using block_inside [OF ij(1), of sz] block_inside [OF ij(2), of sz] x by (auto simp: same_outside_def put_def simp del: of_nat_mult)
    ultimately show ?thesis using q by blast
  qed
qed

section \<open>Sorting\<close>

text \<open>The function that compares looks at the two elements only.\<close>

definition compares :: "(int \<Rightarrow> int \<Rightarrow> int cmem) \<Rightarrow> nat \<Rightarrow> (byte list \<Rightarrow> byte list \<Rightarrow> int) \<Rightarrow> bool" where
  "compares compare sz cmp \<longleftrightarrow> (\<forall>m p q xs ys. bytes_at m p xs \<and> length xs = sz \<and> bytes_at m q ys \<and> length ys = sz
     \<longrightarrow> compare p q m = Some (Inr (cmp xs ys), m))"

lemma compares_array:
  assumes "compares compare sz cmp" "array_at m base sz xs" "i < length xs" "j < length xs"
  shows "compare (base + int (i * sz)) (base + int (j * sz)) m = Some (Inr (cmp (xs ! i) (xs ! j)), m)"
  using assms(1) array_at_nth [OF assms(2,3)] array_at_nth [OF assms(2,4)] unfolding compares_def by blast

lemma qpart_loop_ok:
  assumes c: "compares compare sz cmp" and sz: "0 < sz"
    and "array_at m base sz xs" "i \<le> j" "j + n \<le> l" "length xs = Suc l" "xs ! l = x"
    and "partition_loop cmp x i j n xs = (k, ys)"
  shows "\<exists>t. qpart_loop base sz compare (base + int (l * sz)) i j n m = Some (Inr k, t) \<and> array_at t base sz ys
    \<and> same_outside base (Suc l * sz) m t"
  using assms(3-)
proof (induction n arbitrary: i j m xs)
  case 0
  then show ?case by (auto simp del: of_nat_mult)
next
  case (Suc n)
  have cm: "compare (base + int (j * sz)) (base + int (l * sz)) m = Some (Inr (cmp (xs ! j) x), m)"
    using compares_array [OF c Suc.prems(1), of j l] Suc.prems(3-5) by (simp del: of_nat_mult)
  show ?case
  proof (cases "cmp (xs ! j) x < 0")
    case True
    obtain t where t: "qswap (base + int (i * sz)) (base + int (j * sz)) sz m = Some (Inr (), t)"
      "array_at t base sz (xs[i := xs ! j, j := xs ! i])" "same_outside base (Suc l * sz) m t"
      using qswap_array [OF Suc.prems(1) _ _ sz, of i j] Suc.prems(2-4) by auto
    have "\<exists>u. qpart_loop base sz compare (base + int (l * sz)) (i + 1) (j + 1) n t = Some (Inr k, u) \<and> array_at u base sz ys
        \<and> same_outside base (Suc l * sz) t u"
      by (rule Suc.IH [OF t(2)]) (use Suc.prems(2-6) True in auto)
    then show ?thesis
      using cm t True same_outside_trans [OF t(3)] by (auto simp del: of_nat_mult)
  next
    case False
    then show ?thesis
      using cm Suc.IH [OF Suc.prems(1), of _ "j + 1"] Suc.prems(2-6) by (auto simp del: of_nat_mult split: if_splits)
  qed
qed

lemma qpart_ok:
  assumes c: "compares compare sz cmp" and sz: "0 < sz" and a: "array_at m base sz xs" and l: "length xs = Suc l"
    and p: "partition_list cmp xs = (i, ys)"
  shows "\<exists>t. qpart base l sz compare m = Some (Inr i, t) \<and> array_at t base sz ys \<and> same_outside base (length xs * sz) m t"
proof -
  obtain zs where z: "partition_loop cmp (xs ! l) 0 0 l xs = (i, zs)"
    "ys = (if cmp (zs ! l) (zs ! i) < 0 then zs[i := zs ! l, l := zs ! i] else zs)"
    using p l by (auto simp: partition_list_def Let_def split: prod.splits)
  have i: "i \<le> l" "length zs = Suc l"
    using partition_loop_index [OF z(1)] l by auto
  obtain t where t: "qpart_loop base sz compare (base + int (l * sz)) 0 0 l m = Some (Inr i, t)" "array_at t base sz zs"
    "same_outside base (Suc l * sz) m t"
    using qpart_loop_ok [OF c sz a _ _ l refl z(1)] by auto
  have cm: "compare (base + int (l * sz)) (base + int (i * sz)) t = Some (Inr (cmp (zs ! l) (zs ! i)), t)"
    by (rule compares_array [OF c t(2)]) (use i in simp_all)
  obtain u where u: "qswap (base + int (i * sz)) (base + int (l * sz)) sz t = Some (Inr (), u)"
    "array_at u base sz (zs[i := zs ! l, l := zs ! i])" "same_outside base (Suc l * sz) t u"
    using qswap_array [OF t(2) _ _ sz, of i l] i by auto
  show ?thesis
  proof (cases "cmp (zs ! l) (zs ! i) < 0")
    case True
    then show ?thesis
      using t(1) cm u z(2) same_outside_trans [OF t(3) u(3)] l by (simp add: qpart_def del: of_nat_mult)
  next
    case False
    then show ?thesis
      using t cm z(2) l by (simp add: qpart_def del: of_nat_mult)
  qed
qed

lemma comparison_strict:
  assumes "comparison cmp" "cmp x y < 0" "cmp y z \<le> 0"
  shows "cmp x z < 0"
proof (rule ccontr)
  assume "\<not> cmp x z < 0"
  then have "cmp z x \<le> 0"
    using comparison_flip [OF assms(1), of x z] by simp
  then have "cmp y x \<le> 0"
    using assms(1,3) unfolding comparison_def by blast
  then show False
    using comparison_flip [OF assms(1), of x y] assms(2) by simp
qed

lemma array_at_same:
  assumes "array_at m base sz xs" "\<forall>x. base \<le> x \<and> x < base + int (length xs * sz) \<longrightarrow> t x = m x"
  shows "array_at t base sz xs"
proof -
  have "length (concat xs) = length xs * sz"
    using assms(1) by (intro array_length) (simp add: array_at_def)
  then show ?thesis
    using assms by (auto simp: array_at_def bytes_at_def simp del: of_nat_mult)
qed

definition apart :: "('a \<Rightarrow> 'a \<Rightarrow> int) \<Rightarrow> 'a list \<Rightarrow> bool" where
  "apart cmp xs \<longleftrightarrow> distinct xs \<and> (\<forall>x \<in> set xs. \<forall>y \<in> set xs. x \<noteq> y \<longrightarrow> cmp x y \<noteq> 0)"

lemma apart_mset: "mset xs = mset ys \<Longrightarrow> apart cmp xs = apart cmp ys"
  using mset_eq_imp_distinct_iff mset_eq_setD unfolding apart_def by metis

lemma apart_append: "apart cmp (xs @ ys) \<Longrightarrow> apart cmp xs \<and> apart cmp ys"
  by (auto simp: apart_def)

lemma split_sorted:
  assumes p: "partition_list cmp xs = (i, ys)" and c: "comparison cmp" and ne: "xs \<noteq> []" and ap: "apart cmp xs"
    and s1: "sorted_wrt (\<lambda>x y. cmp x y < 0) zs" "mset zs = mset (take i ys)"
    and s2: "sorted_wrt (\<lambda>x y. cmp x y < 0) ws" "mset ws = mset (drop i ys)"
  shows "sorted_wrt (\<lambda>x y. cmp x y < 0) (zs @ ws)"
proof -
  let ?n = "length xs - 1"
  have n: "?n < length xs" using ne by (cases xs) auto
  have "cmp (xs ! l) (xs ! ?n) \<noteq> 0" if "l < ?n" for l
    using ap that n unfolding apart_def by (metis less_trans nat_neq_iff nth_eq_iff_index_eq nth_mem)
  then have o: "\<forall>l < i. cmp (ys ! l) (ys ! i) < 0" "\<forall>l. i < l \<and> l < length xs \<longrightarrow> 0 < cmp (ys ! l) (ys ! i)"
    using partition_list_order [OF p c ne] by blast+
  have y: "length ys = length xs" "i < length xs"
    using partition_list_facts [OF p ne] by simp_all
  have refl: "cmp x x \<le> 0" for x
    using comparison_flip [OF c, of x x] by linarith
  have "cmp x z < 0" if x: "x \<in> set (take i ys)" and z: "z \<in> set (drop i ys)" for x z
  proof -
    obtain l where l: "l < i" "x = ys ! l"
      using x y by (auto simp: in_set_conv_nth)
    obtain k where k: "i + k < length xs" "z = ys ! (i + k)"
      using z y by (auto simp: in_set_conv_nth less_diff_conv add.commute)
    have "cmp (ys ! i) z \<le> 0"
    proof (cases "k = 0")
      case True
      then show ?thesis using k refl by simp
    next
      case False
      then have "0 < cmp z (ys ! i)" using o(2) k by simp
      then show ?thesis using comparison_flip [OF c, of "ys ! i" z] by linarith
    qed
    then show ?thesis
      using comparison_strict [OF c, of x "ys ! i" z] o(1) l by simp
  qed
  moreover have "set zs = set (take i ys)" "set ws = set (drop i ys)"
    using s1(2) s2(2) by (metis mset_eq_setD)+
  ultimately show ?thesis
    using s1(1) s2(1) by (simp add: sorted_wrt_append)
qed

text \<open>\<^verbatim>\<open>qsort\<close> returns, permutes the array, touches nothing else, and sorts if no two elements compare equal.\<close>

theorem qsort_ok:
  assumes c: "comparison cmp" "compares compare sz cmp" "0 < sz"
    and "array_at m base sz xs" "int (length xs) < 2 ^ 31"
  shows "\<exists>t ys. qsort base (length xs) sz compare m = Some (Inr (), t) \<and> array_at t base sz ys \<and> mset ys = mset xs
    \<and> same_outside base (length xs * sz) m t \<and> (apart cmp xs \<longrightarrow> sorted_wrt (\<lambda>x y. cmp x y < 0) ys)"
  using assms(4-)
proof (induction "2 * length xs + (if cmp (xs ! 0) (xs ! (length xs - 1)) < 0 then 0 else 1)" arbitrary: base xs m rule: less_induct)
  case less
  show ?case
  proof (cases "length xs > 1")
    case False
    then have "sorted_wrt (\<lambda>x y. cmp x y < 0) xs" by (cases xs rule: remdups_adj.cases) auto
    then show ?thesis
      using less.prems False by (subst qsort.simps) auto
  next
    case True
    then obtain l where l: "length xs = Suc l" "xs \<noteq> []" by (cases xs) auto
    obtain i ys where p: "partition_list cmp xs = (i, ys)" by (cases "partition_list cmp xs")
    have y: "mset ys = mset xs" "length ys = length xs" "i < length xs"
      using partition_list_facts [OF p l(2)] by simp_all
    let ?as = "take i ys" and ?bs = "drop i ys"
    have len: "length ?as = i" "length ?bs = length xs - i" using y by simp_all
    obtain t where t: "qpart base l sz compare m = Some (Inr i, t)" "array_at t base sz (?as @ ?bs)"
      "same_outside base (length xs * sz) m t"
      using qpart_ok [OF c(2,3) less.prems(1) l(1) p] by auto
    have at: "array_at t base sz ?as" "array_at t (base + int (i * sz)) sz ?bs"
      using t(2) unfolding array_at_append len by simp_all
    have "\<exists>u zs. qsort base (length ?as) sz compare t = Some (Inr (), u) \<and> array_at u base sz zs \<and> mset zs = mset ?as
        \<and> same_outside base (length ?as * sz) t u \<and> (apart cmp ?as \<longrightarrow> sorted_wrt (\<lambda>x y. cmp x y < 0) zs)"
      by (rule less.hyps [OF _ at(1)]) (use y less.prems(2) in auto)
    then obtain u zs where u: "qsort base i sz compare t = Some (Inr (), u)" "array_at u base sz zs" "mset zs = mset ?as"
      "same_outside base (i * sz) t u" "apart cmp ?as \<longrightarrow> sorted_wrt (\<lambda>x y. cmp x y < 0) zs"
      unfolding len by blast
    have ub: "array_at u (base + int (i * sz)) sz ?bs"
      by (rule array_at_same [OF at(2)]) (use u(4) in \<open>simp add: same_outside_def del: of_nat_mult\<close>)
    have dec: "2 * length ?bs + (if cmp (?bs ! 0) (?bs ! (length ?bs - 1)) < 0 then 0 else 1)
        < 2 * length xs + (if cmp (xs ! 0) (xs ! (length xs - 1)) < 0 then 0 else 1 :: nat)"
    proof (cases "i = 0")
      case True
      then show ?thesis
        using partition_list_zero [of cmp xs ys] p c(1) \<open>length xs > 1\<close> y by simp
    next
      case False
      then show ?thesis using y by auto
    qed
    have "\<exists>v ws. qsort (base + int (i * sz)) (length ?bs) sz compare u = Some (Inr (), v) \<and> array_at v (base + int (i * sz)) sz ws
        \<and> mset ws = mset ?bs \<and> same_outside (base + int (i * sz)) (length ?bs * sz) u v
        \<and> (apart cmp ?bs \<longrightarrow> sorted_wrt (\<lambda>x y. cmp x y < 0) ws)"
      by (rule less.hyps [OF dec ub]) (use y less.prems(2) in simp)
    then obtain v ws where v: "qsort (base + int (i * sz)) (length xs - i) sz compare u = Some (Inr (), v)"
      "array_at v (base + int (i * sz)) sz ws" "mset ws = mset ?bs"
      "same_outside (base + int (i * sz)) ((length xs - i) * sz) u v"
      "apart cmp ?bs \<longrightarrow> sorted_wrt (\<lambda>x y. cmp x y < 0) ws"
      unfolding len by blast
    have lz: "length zs = i" using u(3) len(1) by (metis size_mset)
    have va: "array_at v base sz zs"
      by (rule array_at_same [OF u(2)]) (use v(4) lz in \<open>simp add: same_outside_def del: of_nat_mult\<close>)
    have "i * sz + (length xs - i) * sz = length xs * sz"
      using y(3) by (simp flip: add_mult_distrib)
    then have so: "same_outside base (length xs * sz) m v"
      using same_outside_trans [OF t(3) same_outside_trans [OF same_outside_part [of base 0 "i * sz" t u] same_outside_part [OF v(4)]]]
        u(4) y(3) by (simp del: of_nat_mult)
    have "int i < 2 ^ 31"
      using y(3) less.prems(2) by simp
    then have conv: "to_int (int i) = int i" "nat (to_size (int i)) = i" "nat (to_size (int (length xs) - int i)) = length xs - i"
      using y(3) less.prems(2) by (simp_all add: to_int_id is_int_def to_size_id nat_diff_distrib)
    have conv': "nat (to_size (1 + int l - int i)) = Suc l - i"
      using conv(3) l(1) by simp
    have "qsort base (length xs) sz compare m = Some (Inr (), v)"
      using True t(1) u(1) v(1) l(1) by (subst qsort.simps) (simp add: Let_def conv(1,2) conv')
    moreover have "array_at v base sz (zs @ ws)"
      using va v(2) lz by (simp add: array_at_append)
    moreover have "mset (zs @ ws) = mset (?as @ ?bs)"
      unfolding mset_append u(3) v(3) ..
    then have "mset (zs @ ws) = mset xs"
      using y(1) by (simp only: append_take_drop_id)
    moreover have "sorted_wrt (\<lambda>x y. cmp x y < 0) (zs @ ws)" if "apart cmp xs"
    proof -
      have "apart cmp ?as" "apart cmp ?bs"
        using that apart_mset [OF y(1)] apart_append [of cmp ?as ?bs] by simp_all
      then show ?thesis
        using split_sorted [OF p c(1) l(2) that _ u(3) _ v(3)] u(5) v(5) by blast
    qed
    ultimately show ?thesis
      using so by blast
  qed
qed

section \<open>Elements that compare equal\<close>

definition compare_bytes :: "int \<Rightarrow> int \<Rightarrow> int cmem" where
  "compare_bytes p q = mbind (load p) (\<lambda>x. mbind (load q) (\<lambda>y. ret (uint x - uint y)))"

definition byte_order :: "byte list \<Rightarrow> byte list \<Rightarrow> int" where
  "byte_order xs ys = uint (hd xs) - uint (hd ys)"

lemma compare_bytes: "compares compare_bytes 1 byte_order" "comparison byte_order"
  by (auto simp: compares_def compare_bytes_def byte_order_def comparison_def length_Suc_conv)

text \<open>An element equal to the pivot is counted as smaller but stays behind one that is greater: the array
  \<open>[5, 3, 3]\<close> comes back as it was.\<close>

lemma qsort_not_sorted:
  assumes "bytes_at m b [x, y, y]" "uint y < uint x"
  shows "qsort b 3 1 compare_bytes m = Some (Inr (), m)"
proof -
  have m: "m b = Some x" "m (b + 1) = Some y" "m (b + 2) = Some y"
    using assms(1) by (simp_all add: add.assoc)
  have one: "qsort b' 1 1 compare_bytes m = Some (Inr (), m)" for b'
    by (subst qsort.simps) simp
  have "qpart (b + 1) 1 1 compare_bytes m = Some (Inr 1, m)"
    using m by (simp add: qpart_def compare_bytes_def mwhen_def add.assoc numeral_eq_Suc)
  then have two: "qsort (b + 1) 2 1 compare_bytes m = Some (Inr (), m)"
    using one by (subst qsort.simps) (simp add: to_int_def to_size_def add.assoc)
  have "qpart b 2 1 compare_bytes m = Some (Inr 1, m)"
    using m assms(2) by (simp add: qpart_def compare_bytes_def mwhen_def numeral_2_eq_2 add.assoc)
  then show ?thesis
    using one two by (subst qsort.simps) (simp add: to_int_def to_size_def)
qed

end
