(* ===== verification/Mes_Format.thy ===== *)
theory Mes_Format
  imports Mes_Libc
begin

text \<open>
  Formatted output: \<^verbatim>\<open>vsnprintf\<close> and \<^verbatim>\<open>vfprintf\<close> of lib/stdio with their short forms.
  A format is the list of its bytes without the null byte; stepping over the end of it is a fault.
  The arguments are a list of values with their kind, and an argument of another kind than the one
  that is asked for is a fault. A \<^verbatim>\<open>double\<close> is given by the text that \<^verbatim>\<open>dtoab\<close>
  makes of it. The state has what is stored from \<^verbatim>\<open>str\<close> on, the counter, the arguments that
  are left, the values stored by \<^verbatim>\<open>%n\<close>, and every byte that is written to a descriptor.
\<close>

section \<open>Arguments and output\<close>

datatype fmt_arg = Num int | Text "byte list option" | Real "byte list" | Slot nat

record printer =
  stored :: "byte list"
  out_count :: int
  va_list :: "fmt_arg list"
  slots_set :: "(nat \<times> int) list"
  outs :: "(int \<times> byte) list"

type_synonym 'a pm = "(printer, 'a) m"

definition va_long :: "int pm" where
  "va_long s = (case va_list s of Num n # args \<Rightarrow> ret n (s\<lparr>va_list := args\<rparr>) | _ \<Rightarrow> fail Segv s)"

definition va_text :: "byte list option pm" where
  "va_text s = (case va_list s of Text t # args \<Rightarrow> ret t (s\<lparr>va_list := args\<rparr>) | _ \<Rightarrow> fail Segv s)"

definition va_double :: "byte list pm" where
  "va_double s = (case va_list s of Real t # args \<Rightarrow> ret t (s\<lparr>va_list := args\<rparr>) | _ \<Rightarrow> fail Segv s)"

definition va_slot :: "nat pm" where
  "va_slot s = (case va_list s of Slot n # args \<Rightarrow> ret n (s\<lparr>va_list := args\<rparr>) | _ \<Rightarrow> fail Segv s)"

text \<open>\<^verbatim>\<open>if (count < size) *str++ = c; count++;\<close> compares as \<^verbatim>\<open>size_t\<close>.\<close>

definition put_str :: "int \<Rightarrow> byte \<Rightarrow> unit pm" where
  "put_str n c = modify (\<lambda>s. s\<lparr>
     stored := (if to_size (out_count s) < n then stored s @ [c] else stored s),
     out_count := to_int (out_count s + 1)\<rparr>)"

definition fputc_pm :: "int \<Rightarrow> byte \<Rightarrow> unit pm" where
  "fputc_pm f c = modify (\<lambda>s. s\<lparr>outs := outs s @ [(f, c)]\<rparr>)"

definition put_file :: "int \<Rightarrow> byte \<Rightarrow> unit pm" where
  "put_file f c = mseq (fputc_pm f c) (modify (\<lambda>s. s\<lparr>out_count := to_int (out_count s + 1)\<rparr>))"

definition stderr_text :: "byte list \<Rightarrow> unit pm" where
  "stderr_text t = modify (\<lambda>s. s\<lparr>outs := outs s @ map (Pair 2) t\<rparr>)"

definition ascii_bytes :: "string \<Rightarrow> byte list" where
  "ascii_bytes t = map (\<lambda>c. of_nat (of_char c)) t"

section \<open>A directive\<close>

text \<open>\<^verbatim>\<open>p++\<close> over \<open>n\<close> bytes, which must not lead behind the null byte.\<close>

definition advance :: "nat \<Rightarrow> byte list \<Rightarrow> byte list pm" where
  "advance n p = (if n \<le> length p then ret (drop n p) else fail Segv)"

text \<open>The character \<open>c\<close> under consideration, and the pointer, which is behind it after a flag.\<close>

definition read_width :: "int \<Rightarrow> byte list \<Rightarrow> (int \<times> int \<times> byte list) pm" where
  "read_width c p =
     (if c \<ge> 48 \<and> c \<le> 57
      then let (w, p) = abtol p 10 in ret (w, head_char p, p)
      else if c = 42
      then mbind va_long (\<lambda>w. mbind (advance 1 p) (\<lambda>p. ret (to_int w, head_char p, p)))
      else ret (- 1, c, p))"

definition read_precision :: "int \<Rightarrow> byte list \<Rightarrow> (int \<times> int \<times> byte list) pm" where
  "read_precision c p =
     (if c = 46
      then mbind (advance 1 p) (\<lambda>p. read_width (head_char p) p)
      else ret (- 1, c, p))"

text \<open>Up to \<open>n\<close> letters \<^verbatim>\<open>l\<close> are skipped, and one more with a message.\<close>

fun skip_l :: "string \<Rightarrow> nat \<Rightarrow> int \<Rightarrow> byte list \<Rightarrow> (int \<times> byte list) pm" where
  "skip_l f 0 c p =
     (if c = 108
      then mseq (stderr_text (ascii_bytes (f @ '': skipping second: l'' @ [char_of (10::nat)])))
           (mbind (advance 1 p) (\<lambda>p. ret (head_char p, p)))
      else ret (c, p))"
| "skip_l f (Suc n) c p =
     (if c = 108 then mbind (advance 1 p) (\<lambda>p. skip_l f n (head_char p) p) else skip_l f n c p)"

text \<open>The flags: minus, blank, zero. \<^verbatim>\<open>c = *p++\<close> leaves \<open>c\<close> at the flag.\<close>

definition read_directive ::
    "string \<Rightarrow> nat \<Rightarrow> byte list \<Rightarrow> (bool \<times> byte \<times> int \<times> int \<times> int \<times> byte list) pm" where
  "read_directive f n p =
     (let c = head_char p; left_p = (c = 45) in
      mbind (advance (if left_p then 1 else 0) p) (\<lambda>p.
      let c = head_char p in
      mbind (advance (if c = 32 then 1 else 0) p) (\<lambda>p.
      mbind (advance (if c = 48 then 1 else 0) p) (\<lambda>p.
      let pad = (if c = 48 then 48 else 32) in
      mbind (read_width c p) (\<lambda>(width, c, p).
      mbind (read_precision c p) (\<lambda>(precision, c, p).
      mbind (skip_l f n c p) (\<lambda>(c, p).
      ret (left_p, pad, width, precision, c, p))))))))"

section \<open>Padding\<close>

text \<open>
  The loops of a conversion. Width and precision are not wrapped: they only go down, and end at -1
  or where the caller has put them.
\<close>

text \<open>\<^verbatim>\<open>while (width-- > precision)\<close> puts a pad and gives the width behind it.\<close>

function pad_loop :: "(byte \<Rightarrow> unit pm) \<Rightarrow> byte \<Rightarrow> int \<Rightarrow> int \<Rightarrow> int pm" where
  "pad_loop emit pad width precision =
     (if width > precision then mseq (emit pad) (pad_loop emit pad (width - 1) precision) else ret (width - 1))"
  by pat_completeness auto
termination by (relation "measure (\<lambda>(emit, pad, width, precision). nat (width - precision))") auto

text \<open>\<^verbatim>\<open>while (precision > length)\<close>\<close>

function fill_precision :: "(byte \<Rightarrow> unit pm) \<Rightarrow> byte \<Rightarrow> int \<Rightarrow> int \<Rightarrow> int \<Rightarrow> (int \<times> int) pm" where
  "fill_precision emit fill len width precision =
     (if precision > len then mseq (emit fill) (fill_precision emit fill len (width - 1) (precision - 1))
      else ret (width, precision))"
  by pat_completeness auto
termination by (relation "measure (\<lambda>(emit, fill, len, width, precision). nat (precision - len))") auto

text \<open>\<^verbatim>\<open>while (width > length)\<close>, in the string conversion of \<^verbatim>\<open>vsnprintf\<close>\<close>

function fill_width :: "(byte \<Rightarrow> unit pm) \<Rightarrow> byte \<Rightarrow> int \<Rightarrow> int \<Rightarrow> int \<Rightarrow> (int \<times> int) pm" where
  "fill_width emit fill len width precision =
     (if width > len then mseq (emit fill) (fill_width emit fill len (width - 1) (precision - 1))
      else ret (width, precision))"
  by pat_completeness auto
termination by (relation "measure (\<lambda>(emit, fill, len, width, precision). nat (width - len))") auto

declare pad_loop.simps [simp del] fill_precision.simps [simp del] fill_width.simps [simp del]

text \<open>\<^verbatim>\<open>while (*s) { if (precision-- <= 0) break; width--; ... }\<close>\<close>

fun put_text :: "(byte \<Rightarrow> unit pm) \<Rightarrow> byte list \<Rightarrow> int \<Rightarrow> int \<Rightarrow> int pm" where
  "put_text emit [] width precision = ret width"
| "put_text emit (c # cs) width precision =
     (if precision \<le> 0 then ret width
      else mseq (emit c) (put_text emit cs (width - 1) (precision - 1)))"

text \<open>\<^verbatim>\<open>while (width > 0)\<close>\<close>

function pad_right :: "(byte \<Rightarrow> unit pm) \<Rightarrow> byte \<Rightarrow> int \<Rightarrow> unit pm" where
  "pad_right emit pad width =
     (if width > 0 then mseq (emit pad) (pad_right emit pad (width - 1)) else ret ())"
  by pat_completeness auto
termination by (relation "measure (\<lambda>(emit, pad, width). nat width)") auto

declare pad_right.simps [simp del]

definition put_padded ::
    "((byte \<Rightarrow> unit pm) \<Rightarrow> byte \<Rightarrow> int \<Rightarrow> int \<Rightarrow> int \<Rightarrow> (int \<times> int) pm) \<Rightarrow> (byte \<Rightarrow> unit pm) \<Rightarrow> byte
      \<Rightarrow> bool \<Rightarrow> byte \<Rightarrow> int \<Rightarrow> int \<Rightarrow> byte list \<Rightarrow> unit pm" where
  "put_padded filling emit fill left_p pad width precision t =
     (let len = int (length t);
          precision = (if precision = - 1 then len else precision)
      in mbind (if left_p then ret (width, precision)
                else mbind (pad_loop emit pad width precision) (\<lambda>width. filling emit fill len width precision))
         (\<lambda>(width, precision).
         mbind (put_text emit t width precision) (\<lambda>width. pad_right emit pad width)))"

section \<open>Conversions\<close>

definition upper :: "byte list \<Rightarrow> byte list" where
  "upper t = map (\<lambda>b. of_int (toupper (sint b))) t"

text \<open>The text of a number: only \<^verbatim>\<open>u\<close>, \<^verbatim>\<open>x\<close> and \<^verbatim>\<open>X\<close> are unsigned.\<close>

definition number_conversion :: "int \<Rightarrow> int \<Rightarrow> byte list pm" where
  "number_conversion c d =
     (let base = (if c = 111 then 8 else if c = 120 \<or> c = 88 then 16 else 10)
      in mbind (ntoab d base (c \<noteq> 117 \<and> c \<noteq> 120 \<and> c \<noteq> 88)) (\<lambda>t.
         ret (if c = 88 then upper t else t)))"

definition not_supported :: "string \<Rightarrow> int \<Rightarrow> unit pm" where
  "not_supported f c = stderr_text (ascii_bytes (f @ '': not supported: %:'') @ [of_int c, 10])"

definition is_number_letter :: "int \<Rightarrow> bool" where
  "is_number_letter c \<longleftrightarrow> c \<in> {100, 105, 111, 117, 120, 88}"

definition is_float_letter :: "int \<Rightarrow> bool" where
  "is_float_letter c \<longleftrightarrow> c \<in> {102, 101, 69, 103, 71}"

text \<open>The switch of \<^verbatim>\<open>vsnprintf\<close>; \<open>p\<close> is at the letter, and the result is where the loop goes on.\<close>

definition vsnprintf_convert :: "int \<Rightarrow> bool \<Rightarrow> byte \<Rightarrow> int \<Rightarrow> int \<Rightarrow> int \<Rightarrow> byte list \<Rightarrow> byte list pm" where
  "vsnprintf_convert n left_p pad width precision c p =
     (if c = 37 then mseq (put_str n 37) (advance 1 p)
      else if c = 99 then mbind va_long (\<lambda>c. mseq (put_str n (of_int c)) (advance 1 p))
      else if is_number_letter c
      then mbind va_long (\<lambda>d. mbind (number_conversion c d) (\<lambda>t.
           mseq (put_padded fill_precision (put_str n) 48 left_p pad width precision t) (advance 1 p)))
      else if c = 115
      then mbind va_text (\<lambda>t.
           mseq (put_padded fill_width (put_str n) 32 left_p pad width precision (case t of None \<Rightarrow> [] | Some t \<Rightarrow> t))
           (advance 1 p))
      else if is_float_letter c
      then mbind va_double (\<lambda>t.
           mseq (put_padded fill_precision (put_str n) 32 left_p pad width precision
                   (if c = 69 \<or> c = 71 then upper t else t))
           (advance 1 p))
      else if c = 110
      then mbind va_slot (\<lambda>k.
           mseq (modify (\<lambda>s. s\<lparr>slots_set := slots_set s @ [(k, out_count s)]\<rparr>)) (advance 1 p))
      else mseq (not_supported ''vsnprintf'' c) (advance 2 p))"

text \<open>\<^verbatim>\<open>vfprintf\<close> does not count a \<^verbatim>\<open>%c\<close>, and takes the length of a null pointer.\<close>

definition vfprintf_convert :: "int \<Rightarrow> bool \<Rightarrow> byte \<Rightarrow> int \<Rightarrow> int \<Rightarrow> int \<Rightarrow> byte list \<Rightarrow> byte list pm" where
  "vfprintf_convert f left_p pad width precision c p =
     (if c = 37 then mseq (put_file f 37) (advance 1 p)
      else if c = 99 then mbind va_long (\<lambda>c. mseq (fputc_pm f (of_int c)) (advance 1 p))
      else if is_number_letter c
      then mbind va_long (\<lambda>d. mbind (number_conversion c d) (\<lambda>t.
           mseq (put_padded fill_precision (put_file f) 48 left_p pad width precision t) (advance 1 p)))
      else if c = 115
      then mbind va_text (\<lambda>t. case t of
             None \<Rightarrow> fail Segv
           | Some t \<Rightarrow>
             mseq (put_padded fill_precision (put_file f) 32 left_p pad width precision t) (advance 1 p))
      else if is_float_letter c
      then mbind va_double (\<lambda>t.
           mseq (put_padded fill_precision (put_file f) 32 left_p pad width precision
                   (if c = 69 \<or> c = 71 then upper t else t))
           (advance 1 p))
      else if c = 110
      then mbind va_slot (\<lambda>k.
           mseq (modify (\<lambda>s. s\<lparr>slots_set := slots_set s @ [(k, out_count s)]\<rparr>)) (advance 1 p))
      else mseq (not_supported ''vfprintf'' c) (advance 2 p))"

section \<open>The functions\<close>

text \<open>The loop over the format, the same in both functions.\<close>

partial_function (option) format_loop ::
    "string \<Rightarrow> nat \<Rightarrow> (byte \<Rightarrow> unit pm)
      \<Rightarrow> (bool \<Rightarrow> byte \<Rightarrow> int \<Rightarrow> int \<Rightarrow> int \<Rightarrow> byte list \<Rightarrow> byte list pm) \<Rightarrow> byte list \<Rightarrow> unit pm" where
  "format_loop f n emit convert p s =
     (if p = [] then ret ()
      else if hd p \<noteq> 37 then mseq (emit (hd p)) (format_loop f n emit convert (tl p))
      else mbind (read_directive f n (tl p)) (\<lambda>d.
           mbind (convert (fst d) (fst (snd d)) (fst (snd (snd d))) (fst (snd (snd (snd d))))
                    (fst (snd (snd (snd (snd d))))) (snd (snd (snd (snd (snd d))))))
             (\<lambda>p. format_loop f n emit convert p))) s"

definition vsnprintf :: "int \<Rightarrow> byte list \<Rightarrow> int pm" where
  "vsnprintf n format =
     mseq (modify (\<lambda>s. s\<lparr>stored := [], out_count := 0\<rparr>))
     (mseq (format_loop ''vsnprintf'' 2 (put_str n) (vsnprintf_convert n) format)
     (mseq (modify (\<lambda>s. if to_size (out_count s) < n then s\<lparr>stored := stored s @ [0]\<rparr> else s))
     (gets out_count)))"

definition vfprintf :: "int \<Rightarrow> byte list \<Rightarrow> int pm" where
  "vfprintf f format =
     mseq (modify (\<lambda>s. s\<lparr>out_count := 0\<rparr>))
     (mseq (format_loop ''vfprintf'' 1 (put_file f) (vfprintf_convert f) format)
     (ret 0))"

definition vsprintf :: "byte list \<Rightarrow> int pm" where
  "vsprintf format = vsnprintf (2 ^ 63 - 1) format"

definition vprintf :: "byte list \<Rightarrow> int pm" where
  "vprintf format = vfprintf 1 format"

definition snprintf :: "int \<Rightarrow> byte list \<Rightarrow> fmt_arg list \<Rightarrow> int pm" where
  "snprintf n format ap = mseq (modify (\<lambda>s. s\<lparr>va_list := ap\<rparr>)) (vsnprintf n format)"

definition sprintf :: "byte list \<Rightarrow> fmt_arg list \<Rightarrow> int pm" where
  "sprintf format ap = mseq (modify (\<lambda>s. s\<lparr>va_list := ap\<rparr>)) (vsprintf format)"

definition fprintf :: "int \<Rightarrow> byte list \<Rightarrow> fmt_arg list \<Rightarrow> int pm" where
  "fprintf stream format ap = mseq (modify (\<lambda>s. s\<lparr>va_list := ap\<rparr>)) (vfprintf stream format)"

definition printf :: "byte list \<Rightarrow> fmt_arg list \<Rightarrow> int pm" where
  "printf format ap = mseq (modify (\<lambda>s. s\<lparr>va_list := ap\<rparr>)) (vprintf format)"

end
