(* ===== verification/Mes_Printf.thy ===== *)
theory Mes_Printf
  imports Mes_Format
begin

text \<open>
  What formatted output puts out. A format is described by items, literal bytes and directives with
  their arguments; the text of a list of items is a format, and printing it puts out the texts of
  the items, one after the other. The loops of the conversions are treated once, for any place
  where bytes go to.
\<close>

section \<open>Items\<close>

datatype amount = Absent | Digits nat | Star int

datatype conversion =
    Percent
  | Char int
  | Number int int
  | Chars "byte list"
  | Float int "byte list"

datatype item = Literal byte | Directive bool bool amount amount nat conversion

fun amount_text :: "amount \<Rightarrow> byte list" where
  "amount_text Absent = []"
| "amount_text (Digits k) = ntoab_digits 10 (int k) []"
| "amount_text (Star v) = [42]"

fun amount_args :: "amount \<Rightarrow> fmt_arg list" where
  "amount_args (Star v) = [Num v]"
| "amount_args _ = []"

fun amount_value :: "amount \<Rightarrow> int" where
  "amount_value Absent = - 1"
| "amount_value (Digits k) = int k"
| "amount_value (Star v) = v"

fun letter :: "conversion \<Rightarrow> int" where
  "letter Percent = 37"
| "letter (Char v) = 99"
| "letter (Number c d) = c"
| "letter (Chars t) = 115"
| "letter (Float c t) = c"

fun conversion_args :: "conversion \<Rightarrow> fmt_arg list" where
  "conversion_args Percent = []"
| "conversion_args (Char v) = [Num v]"
| "conversion_args (Number c d) = [Num d]"
| "conversion_args (Chars t) = [Text (Some t)]"
| "conversion_args (Float c t) = [Real t]"

fun item_text :: "item \<Rightarrow> byte list" where
  "item_text (Literal b) = [b]"
| "item_text (Directive left zero width precision l v) =
     37 # (if left then [45] else []) @ (if zero then [48] else []) @ amount_text width
     @ (if precision = Absent then [] else 46 # amount_text precision)
     @ replicate l 108 @ [of_int (letter v)]"

fun item_args :: "item \<Rightarrow> fmt_arg list" where
  "item_args (Literal b) = []"
| "item_args (Directive left zero width precision l v) =
     amount_args width @ amount_args precision @ conversion_args v"

text \<open>
  What both functions understand: no null bytes; no star behind the zero flag; a width that does not
  begin with a zero of its own; numbers in their range; at most \<open>n\<close> letters \<^verbatim>\<open>l\<close>.
\<close>

fun conversion_ok :: "conversion \<Rightarrow> bool" where
  "conversion_ok (Number c d) \<longleftrightarrow> is_number_letter c \<and> is_long d"
| "conversion_ok (Float c t) \<longleftrightarrow> is_float_letter c"
| "conversion_ok _ \<longleftrightarrow> True"

fun width_ok :: "bool \<Rightarrow> amount \<Rightarrow> bool" where
  "width_ok zero Absent \<longleftrightarrow> True"
| "width_ok zero (Digits k) \<longleftrightarrow> (zero \<or> 0 < k) \<and> k < 2 ^ 31"
| "width_ok zero (Star v) \<longleftrightarrow> \<not> zero \<and> is_int v"

fun precision_ok :: "amount \<Rightarrow> bool" where
  "precision_ok Absent \<longleftrightarrow> True"
| "precision_ok (Digits k) \<longleftrightarrow> k < 2 ^ 31"
| "precision_ok (Star v) \<longleftrightarrow> is_int v"

fun item_ok :: "nat \<Rightarrow> item \<Rightarrow> bool" where
  "item_ok n (Literal b) \<longleftrightarrow> b \<noteq> 0 \<and> b \<noteq> 37"
| "item_ok n (Directive left zero width precision l v) \<longleftrightarrow>
     width_ok zero width \<and> precision_ok precision \<and> l \<le> n \<and> conversion_ok v"

section \<open>The text that is put out\<close>

text \<open>A number in its base: \<^verbatim>\<open>d\<close>, \<^verbatim>\<open>i\<close> and \<^verbatim>\<open>o\<close> with a sign, the others modulo \<open>2 ^ 64\<close>.\<close>

definition num_text :: "int \<Rightarrow> int \<Rightarrow> byte list" where
  "num_text c d =
     (let base = (if c = 111 then 8 else if c = 120 \<or> c = 88 then 16 else 10);
          t = (if c = 117 \<or> c = 120 \<or> c = 88 then ntoab_digits base (d mod 2 ^ 64) []
               else if d < 0 then 45 # ntoab_digits base (- d) [] else ntoab_digits base d [])
      in if c = 88 then upper t else t)"

text \<open>
  On the left come the pads up to the precision, then \<open>filling\<close>; a text that is longer than the
  precision is cut, and with the minus flag the pads are on the right.
\<close>

definition padded :: "byte \<Rightarrow> bool \<Rightarrow> byte \<Rightarrow> int \<Rightarrow> int \<Rightarrow> byte list \<Rightarrow> byte list" where
  "padded fill left pad w p t =
     (let p = (if p = - 1 then int (length t) else p);
          t' = take (nat p) t
      in if left then t' @ replicate (nat (w - int (length t'))) pad
         else replicate (nat (w - p)) pad @ replicate (nat (p - int (length t))) fill @ t')"

definition padded_width :: "bool \<Rightarrow> byte \<Rightarrow> int \<Rightarrow> int \<Rightarrow> byte list \<Rightarrow> byte list" where
  "padded_width left pad w p t =
     (let p = (if p = - 1 then int (length t) else p);
          t' = take (nat p) t
      in if left then t' @ replicate (nat (w - int (length t'))) pad
         else replicate (nat (w - p)) pad @ replicate (nat (min w p - 1 - int (length t))) 32 @ t')"

definition pad_byte :: "bool \<Rightarrow> byte" where
  "pad_byte zero = (if zero then 48 else 32)"

definition width_value :: "bool \<Rightarrow> amount \<Rightarrow> int" where
  "width_value zero width = (if zero \<and> width = Absent then 0 else amount_value width)"

text \<open>\<open>strings\<close> says how a string is laid out, which differs between the two functions.\<close>

fun conversion_out :: "(bool \<Rightarrow> byte \<Rightarrow> int \<Rightarrow> int \<Rightarrow> byte list \<Rightarrow> byte list) \<Rightarrow> bool \<Rightarrow> byte \<Rightarrow> int \<Rightarrow> int
    \<Rightarrow> conversion \<Rightarrow> byte list" where
  "conversion_out strings left pad w p Percent = [37]"
| "conversion_out strings left pad w p (Char v) = [of_int v]"
| "conversion_out strings left pad w p (Number c d) = padded 48 left pad w p (num_text c d)"
| "conversion_out strings left pad w p (Chars t) = strings left pad w p t"
| "conversion_out strings left pad w p (Float c t) =
     padded 32 left pad w p (if c = 69 \<or> c = 71 then upper t else t)"

fun item_out :: "(bool \<Rightarrow> byte \<Rightarrow> int \<Rightarrow> int \<Rightarrow> byte list \<Rightarrow> byte list) \<Rightarrow> item \<Rightarrow> byte list" where
  "item_out strings (Literal b) = [b]"
| "item_out strings (Directive left zero width precision l v) =
     conversion_out strings left (pad_byte zero) (width_value zero width) (amount_value precision) v"

section \<open>Reading a directive\<close>

lemma head_char_Cons [simp]: "head_char (b # p) = sint b"
  by (simp add: head_char_def)

lemma head_char_Nil [simp]: "head_char [] = 0"
  by (simp add: head_char_def)

lemma advance_0 [simp]: "advance 0 p = ret p"
  by (simp add: advance_def)

lemma advance_Suc [simp]: "advance (Suc n) (b # p) = advance n p"
  by (simp add: advance_def)

text \<open>\<open>stop p\<close>: what follows is no digit, sign or space.\<close>

definition stop :: "byte list \<Rightarrow> bool" where
  "stop p \<longleftrightarrow> \<not> isdigit (head_char p) \<and> \<not> isspace (head_char p) \<and> head_char p \<noteq> 43 \<and> head_char p \<noteq> 45"

lemma abtol_digits_stop: "stop p \<Longrightarrow> abtol_digits 10 i p = (i, p)"
  by (cases p) (auto simp: stop_def isnumber_def)

lemma abtol_stop: "stop p \<Longrightarrow> abtol p 10 = (0, p)"
  by (cases p) (auto simp: abtol_def Let_def stop_def isnumber_def)

lemma abtol_number:
  assumes "stop p" "k < 2 ^ 31"
  shows "abtol (ntoab_digits 10 (int k) [] @ p) 10 = (int k, p)"
proof -
  let ?t = "ntoab_digits 10 (int k) [] @ p"
  note hd = head_char_digit [of 10 "int k" p, simplified]
  have d: "abtol_digits 10 0 ?t = (int k, p)"
    using abtol_digits_ntoab [of 10 "int k" p] assms
    by (simp add: abtol_digits_stop to_int_id is_int_def)
  have "head_char ?t \<noteq> 43" "head_char ?t \<noteq> 45"
    using hd(1) by simp_all
  then show ?thesis
    by (simp add: abtol_def Let_def hd(2) d)
qed

lemma number_head: "48 \<le> head_char (ntoab_digits 10 (int k) [] @ p) \<and> head_char (ntoab_digits 10 (int k) [] @ p) \<le> 57"
  using ntoab_digits_head [of 10 "int k"] by (auto simp: digit_byte_sint)

lemma number_head_nonzero: "0 < k \<Longrightarrow> head_char (ntoab_digits 10 (int k) [] @ p) \<noteq> 48"
  using head_char_digit(3) [of 10 "int k" p] by simp

lemma va_long_Cons [simp]: "va_list s = Num v # args \<Longrightarrow> va_long s = Some (Inr v, s\<lparr>va_list := args\<rparr>)"
  by (simp add: va_long_def)

text \<open>A number, a star or nothing, where \<open>stop\<close> keeps them apart from what follows.\<close>

lemma read_amount:
  assumes "stop p" "precision_ok a" "head_char p \<noteq> 42" "va_list s = amount_args a @ args"
  shows "read_width (head_char (amount_text a @ p)) (amount_text a @ p) s
    = Some (Inr (amount_value a, head_char p, p), s\<lparr>va_list := args\<rparr>)"
proof (cases a)
  case Absent
  then show ?thesis
    using assms by (auto simp: read_width_def stop_def isdigit_def)
next
  case (Digits k)
  then show ?thesis
    using number_head [of k p] abtol_number [of p k] assms by (simp add: read_width_def)
next
  case (Star v)
  then show ?thesis
    using assms by (simp add: read_width_def to_int_id)
qed

lemma letter_facts:
  assumes "conversion_ok v"
  shows "sint (of_int (letter v) :: byte) = letter v" "letter v \<notin> {32, 42, 43, 45, 46, 48, 108}"
    and "\<not> isdigit (letter v)" "\<not> isspace (letter v)"
  using assms
  by (cases v; auto simp: is_number_letter_def is_float_letter_def isdigit_def isspace_def signed_of_int
      signed_take_bit_int_eq_self)+

definition letters_tail :: "nat \<Rightarrow> conversion \<Rightarrow> byte list \<Rightarrow> byte list" where
  "letters_tail l v rest = replicate l 108 @ of_int (letter v) # rest"

lemma letters_tail_head:
  assumes "conversion_ok v"
  shows "stop (letters_tail l v rest)" "head_char (letters_tail l v rest) \<notin> {32, 42, 46, 48}"
  using letter_facts [OF assms] by (cases l; auto simp: letters_tail_def stop_def isdigit_def isspace_def)+

lemma skip_l_ok:
  assumes "conversion_ok v"
  shows "l \<le> n \<Longrightarrow> skip_l f n (head_char (letters_tail l v rest)) (letters_tail l v rest) s
    = Some (Inr (letter v, of_int (letter v) # rest), s)"
proof (induction n arbitrary: l)
  case 0
  then show ?case
    using letter_facts [OF assms] by (simp add: letters_tail_def)
next
  case (Suc n)
  show ?case
  proof (cases l)
    case 0
    then show ?thesis
      using Suc.IH [of 0] letter_facts [OF assms] by (simp add: letters_tail_def)
  next
    case (Suc k)
    then show ?thesis
      using Suc.IH [of k] Suc.prems by (simp add: letters_tail_def)
  qed
qed

definition precision_tail :: "amount \<Rightarrow> nat \<Rightarrow> conversion \<Rightarrow> byte list \<Rightarrow> byte list" where
  "precision_tail p l v rest =
     (if p = Absent then [] else 46 # amount_text p) @ letters_tail l v rest"

lemma precision_tail_head:
  assumes "conversion_ok v"
  shows "stop (precision_tail p l v rest)" "head_char (precision_tail p l v rest) \<notin> {32, 42, 48}"
  using letters_tail_head [OF assms, of l rest]
  by (auto simp: precision_tail_def stop_def isdigit_def isspace_def)

lemma read_precision_ok:
  assumes "conversion_ok v" "precision_ok p" "va_list s = amount_args p @ args"
  shows "read_precision (head_char (precision_tail p l v rest)) (precision_tail p l v rest) s
    = Some (Inr (amount_value p, head_char (letters_tail l v rest), letters_tail l v rest), s\<lparr>va_list := args\<rparr>)"
proof (cases "p = Absent")
  case True
  then show ?thesis
    using assms(3) letters_tail_head(2) [OF assms(1), of l rest]
    by (simp add: read_precision_def precision_tail_def)
next
  case False
  then show ?thesis
    using read_amount [OF letters_tail_head(1) [OF assms(1)] assms(2) _ assms(3), of l rest]
      letters_tail_head(2) [OF assms(1), of l rest]
    by (simp add: read_precision_def precision_tail_def)
qed

lemma read_directive_ok:
  assumes ok: "item_ok n (Directive left zero w p l v)" and args: "va_list s = amount_args w @ amount_args p @ args"
  shows "read_directive f n ((if left then [45] else []) @ (if zero then [48] else []) @ amount_text w
      @ precision_tail p l v rest) s
    = Some (Inr (left, pad_byte zero, width_value zero w, amount_value p, letter v, of_int (letter v) # rest),
        s\<lparr>va_list := args\<rparr>)"
proof -
  have v: "conversion_ok v" and p: "precision_ok p" and l: "l \<le> n" and w: "width_ok zero w"
    using ok by simp_all
  let ?q = "precision_tail p l v rest"
  let ?t = "s\<lparr>va_list := amount_args p @ args\<rparr>"
  note q = precision_tail_head [OF v, of p l rest]
  have w': "precision_ok w"
    using w by (cases w) simp_all
  have "head_char (amount_text w @ ?q) \<noteq> 32 \<and> head_char (amount_text w @ ?q) \<noteq> 45
      \<and> (\<not> zero \<longrightarrow> head_char (amount_text w @ ?q) \<noteq> 48)"
  proof (cases w)
    case (Digits k)
    then show ?thesis
      using number_head [of k ?q] number_head_nonzero [of k ?q] w by auto
  qed (use q in \<open>auto simp: stop_def\<close>)
  note heads = this
  have width: "read_width (if zero then 48 else head_char (amount_text w @ ?q)) (amount_text w @ ?q) s
      = Some (Inr (width_value zero w, head_char ?q, ?q), ?t)"
  proof (cases zero)
    case True
    then show ?thesis
      using w args abtol_stop [OF q(1)] abtol_number [OF q(1)]
      by (cases w) (simp_all add: read_width_def width_value_def)
  next
    case False
    then show ?thesis
      using read_amount [OF q(1) w' _ args] q(2) by (simp add: width_value_def)
  qed
  have prec: "read_precision (head_char ?q) ?q ?t
      = Some (Inr (amount_value p, head_char (letters_tail l v rest), letters_tail l v rest), s\<lparr>va_list := args\<rparr>)"
    using read_precision_ok [OF v p, of ?t args l rest] by simp
  have skip: "skip_l f n (head_char (letters_tail l v rest)) (letters_tail l v rest) t
      = Some (Inr (letter v, of_int (letter v) # rest), t)" for t
    by (rule skip_l_ok [OF v l])
  show ?thesis
    using heads width
    by (cases left; cases zero)
      (simp_all add: read_directive_def Let_def pad_byte_def prec skip)
qed

section \<open>Where the bytes go\<close>

text \<open>\<open>emit c\<close> puts out a byte, and \<open>say t\<close> is its effect for a whole text.\<close>

locale sink =
  fixes emit :: "byte \<Rightarrow> unit pm" and say :: "byte list \<Rightarrow> printer \<Rightarrow> printer"
  assumes emit: "emit c s = Some (Inr (), say [c] s)"
    and say_Nil: "say [] s = s"
    and say_append: "say (a @ b) s = say b (say a s)"
    and say_args: "say t (s\<lparr>va_list := args\<rparr>) = (say t s)\<lparr>va_list := args\<rparr>"
begin

lemma say_Cons: "say t (say [c] s) = say (c # t) s"
  using say_append [of "[c]" t s] by simp

lemma va_list_say [simp]: "va_list (say t s) = va_list s"
  using say_args [of t "va_list s" s] by (metis printer.surjective printer.update_convs(3) printer.select_convs(3))

lemma pad_loop_ok: "pad_loop emit pad w p s = Some (Inr (min w p - 1), say (replicate (nat (w - p)) pad) s)"
proof (induction "nat (w - p)" arbitrary: w s)
  case 0
  then show ?case by (subst pad_loop.simps) (simp add: say_Nil)
next
  case (Suc n)
  then have "nat (w - p) = Suc (nat (w - 1 - p))" "w > p" by arith+
  moreover have "pad_loop emit pad (w - 1) p t = Some (Inr (min (w - 1) p - 1), say (replicate (nat (w - 1 - p)) pad) t)" for t
    using Suc by (intro Suc.hyps) simp
  ultimately show ?case
    by (subst pad_loop.simps) (simp add: emit say_Cons)
qed

lemma fill_precision_ok:
  "fill_precision emit f len w p s
    = Some (Inr (w - max 0 (p - len), min p len), say (replicate (nat (p - len)) f) s)"
proof (induction "nat (p - len)" arbitrary: p w s)
  case 0
  then show ?case by (subst fill_precision.simps) (simp add: say_Nil)
next
  case (Suc n)
  then have "nat (p - len) = Suc (nat (p - 1 - len))" "p > len" by arith+
  moreover have "fill_precision emit f len (w - 1) (p - 1) t
      = Some (Inr (w - 1 - max 0 (p - 1 - len), min (p - 1) len), say (replicate (nat (p - 1 - len)) f) t)" for t
    using Suc by (intro Suc.hyps) simp
  ultimately show ?case
    by (subst fill_precision.simps) (simp add: emit say_Cons)
qed

lemma fill_width_ok:
  "fill_width emit f len w p s
    = Some (Inr (min w len, p - max 0 (w - len)), say (replicate (nat (w - len)) f) s)"
proof (induction "nat (w - len)" arbitrary: p w s)
  case 0
  then show ?case by (subst fill_width.simps) (simp add: say_Nil)
next
  case (Suc n)
  then have "nat (w - len) = Suc (nat (w - 1 - len))" "w > len" by arith+
  moreover have "fill_width emit f len (w - 1) (p - 1) t
      = Some (Inr (min (w - 1) len, p - 1 - max 0 (w - 1 - len)), say (replicate (nat (w - 1 - len)) f) t)" for t
    using Suc by (intro Suc.hyps) simp
  ultimately show ?case
    by (subst fill_width.simps) (simp add: emit say_Cons)
qed

lemma put_text_ok:
  "put_text emit t w p s = Some (Inr (w - int (length (take (nat p) t))), say (take (nat p) t) s)"
proof (induction t arbitrary: w p s)
  case Nil
  then show ?case by (simp add: say_Nil)
next
  case (Cons c t)
  show ?case
  proof (cases "p \<le> 0")
    case True
    then show ?thesis by (simp add: say_Nil)
  next
    case False
    then have "nat p = Suc (nat (p - 1))" by arith
    then show ?thesis
      using Cons.IH [of "w - 1" "p - 1"] False by (simp add: emit say_Cons)
  qed
qed

lemma pad_right_ok: "pad_right emit pad w s = Some (Inr (), say (replicate (nat w) pad) s)"
proof (induction "nat w" arbitrary: w s)
  case 0
  then show ?case by (subst pad_right.simps) (simp add: say_Nil)
next
  case (Suc n)
  then have "nat w = Suc (nat (w - 1))" "w > 0" by arith+
  moreover have "pad_right emit pad (w - 1) t = Some (Inr (), say (replicate (nat (w - 1)) pad) t)" for t
    using Suc by (intro Suc.hyps) simp
  ultimately show ?case
    by (subst pad_right.simps) (simp add: emit say_Cons)
qed

lemmas loops = pad_loop_ok fill_precision_ok fill_width_ok put_text_ok pad_right_ok

lemma put_padded_ok:
  "put_padded fill_precision emit fill left pad w p t s = Some (Inr (), say (padded fill left pad w p t) s)"
proof -
  define q where "q = (if p = - 1 then int (length t) else p)"
  have cut: "take (nat (min q (int (length t)))) t = take (nat q) t"
    by (simp add: min_def)
  have "min w q - 1 - max 0 (q - int (length t)) - int (length (take (nat q) t)) \<le> 0"
    by (simp add: min_def max_def)
  then show ?thesis
    by (cases left) (simp_all add: put_padded_def padded_def q_def [symmetric] loops cut say_append say_Nil Let_def)
qed

lemma put_padded_width_ok:
  "put_padded fill_width emit 32 left pad w p t s = Some (Inr (), say (padded_width left pad w p t) s)"
proof -
  define q where "q = (if p = - 1 then int (length t) else p)"
  define w' where "w' = min w q - 1"
  have cut: "take (nat (q - max 0 (w' - int (length t)))) t = take (nat q) t"
    by (auto simp: w'_def min_def max_def)
  have "min w' (int (length t)) - int (length (take (nat q) t)) \<le> 0"
    by (auto simp: w'_def min_def)
  then show ?thesis
    by (cases left) (simp_all add: put_padded_def padded_width_def q_def [symmetric] loops
        w'_def [symmetric] cut say_append say_Nil Let_def)
qed

end

lemma number_conversion_ok:
  assumes "is_number_letter c" "is_long d"
  shows "number_conversion c d s = Some (Inr (num_text c d), s)"
proof -
  have size: "to_size (to_size (- d - 1) + 1) = - d" if "d < 0"
    using that assms(2) by (simp add: is_long_def width)
  have nz: "head_char (ntoab_digits b (- d) []) \<noteq> 48" if "d < 0" "b = 8 \<or> b = 10 \<or> b = 16" for b
    using head_char_digit(3) [of b "- d" "[]"] that by simp
  have pos: "to_size d = d" if "\<not> d < 0"
    using that assms(2) by (simp add: is_long_def width)
  have "ntoab d b True s = Some (Inr (if d < 0 then 45 # ntoab_digits b (- d) [] else ntoab_digits b d []), s)"
    if "b = 8 \<or> b = 10 \<or> b = 16" for b
    using that nz [of b] by (cases "d < 0") (auto simp: ntoab_def Let_def size pos)
  moreover have "ntoab d b False s = Some (Inr (ntoab_digits b (d mod 2 ^ 64) []), s)"
    if "b = 8 \<or> b = 10 \<or> b = 16" for b
    using that by (auto simp: ntoab_def Let_def to_size_def take_bit_eq_mod)
  ultimately show ?thesis
    using assms(1) by (auto simp: number_conversion_def num_text_def Let_def is_number_letter_def)
qed

definition str_step :: "int \<Rightarrow> byte \<Rightarrow> printer \<Rightarrow> printer" where
  "str_step n c s = s\<lparr>
     stored := (if to_size (out_count s) < n then stored s @ [c] else stored s),
     out_count := to_int (out_count s + 1)\<rparr>"

definition file_sink_step :: "int \<Rightarrow> byte \<Rightarrow> printer \<Rightarrow> printer" where
  "file_sink_step f c s = s\<lparr>outs := outs s @ [(f, c)], out_count := to_int (out_count s + 1)\<rparr>"

lemma fold_args:
  assumes "\<And>c s. step c (s\<lparr>va_list := args\<rparr>) = (step c s)\<lparr>va_list := args\<rparr>"
  shows "fold step t (s\<lparr>va_list := args\<rparr>) = (fold step t s)\<lparr>va_list := args\<rparr>"
  by (induction t arbitrary: s) (simp_all add: assms)

interpretation to_string: sink "put_str n" "fold (str_step n)" for n
  by unfold_locales (simp_all add: fold_args str_step_def put_str_def)

interpretation to_file: sink "put_file f" "fold (file_sink_step f)" for f
  by unfold_locales (simp_all add: fold_args file_sink_step_def put_file_def fputc_pm_def)

lemma say_file_outs:
  "outs (fold (file_sink_step f) t s) = outs s @ map (Pair f) t" "stored (fold (file_sink_step f) t s) = stored s"
  "slots_set (fold (file_sink_step f) t s) = slots_set s"
  by (induction t arbitrary: s) (simp_all add: file_sink_step_def)

text \<open>The counter is an \<^verbatim>\<open>int\<close>: within its range, the first \<open>n\<close> bytes are stored.\<close>

lemma str_steps:
  assumes "stored s = take (nat n) a" "out_count s = int (length a)" "int (length a + length t) < 2 ^ 31" "0 \<le> n"
  shows "\<exists>u. fold (str_step n) t s = u \<and> stored u = take (nat n) (a @ t) \<and> out_count u = int (length (a @ t))
    \<and> outs u = outs s \<and> slots_set u = slots_set s"
  using assms
proof (induction t arbitrary: s a)
  case Nil
  then show ?case by simp
next
  case (Cons c t)
  have "stored (str_step n c s) = take (nat n) (a @ [c])" "out_count (str_step n c s) = int (length (a @ [c]))"
      "outs (str_step n c s) = outs s" "slots_set (str_step n c s) = slots_set s"
    using Cons.prems by (auto simp: str_step_def to_size_id to_int_id is_int_def)
  then show ?case
    using Cons.IH [of "str_step n c s" "a @ [c]"] Cons.prems(3,4) by simp
qed

section \<open>A format of items\<close>

text \<open>\<open>said t s s'\<close> says that \<open>t\<close> is put out between \<open>s\<close> and \<open>s'\<close>.\<close>

locale formatter =
  fixes convert :: "bool \<Rightarrow> byte \<Rightarrow> int \<Rightarrow> int \<Rightarrow> int \<Rightarrow> byte list \<Rightarrow> byte list pm" and emit :: "byte \<Rightarrow> unit pm"
    and strings :: "bool \<Rightarrow> byte \<Rightarrow> int \<Rightarrow> int \<Rightarrow> byte list \<Rightarrow> byte list"
    and said :: "byte list \<Rightarrow> printer \<Rightarrow> printer \<Rightarrow> bool"
  assumes convert: "conversion_ok v \<Longrightarrow> va_list s = conversion_args v @ args \<Longrightarrow>
      \<exists>t. convert left pad w p (letter v) (of_int (letter v) # rest) s = Some (Inr rest, t)
        \<and> said (conversion_out strings left pad w p v) s t \<and> va_list t = args"
    and literal: "\<exists>t. emit c s = Some (Inr (), t) \<and> said [c] s t \<and> va_list t = va_list s"
    and said_Nil: "said [] s s"
    and said_append: "said a s t \<Longrightarrow> said b t u \<Longrightarrow> said (a @ b) s u"
    and said_args: "said a (s\<lparr>va_list := args\<rparr>) t \<Longrightarrow> said a s t"
begin

lemma format_item:
  assumes "item_ok n it" "va_list s = item_args it @ args"
  shows "\<exists>t. format_loop f n emit convert (item_text it @ rest) s = format_loop f n emit convert rest t
    \<and> said (item_out strings it) s t \<and> va_list t = args"
proof (cases it)
  case (Literal b)
  obtain t where "emit b s = Some (Inr (), t)" "said [b] s t" "va_list t = va_list s"
    using literal by blast
  then show ?thesis
    using Literal assms by (subst format_loop.simps) auto
next
  case (Directive left zero w p l v)
  let ?s = "s\<lparr>va_list := conversion_args v @ args\<rparr>"
  have v: "conversion_ok v" and ok: "item_ok n (Directive left zero w p l v)"
    using assms(1) Directive by simp_all
  have "va_list s = amount_args w @ amount_args p @ conversion_args v @ args"
    using assms(2) Directive by simp
  note d = read_directive_ok [OF ok this, of f rest]
  obtain t where t: "convert left (pad_byte zero) (width_value zero w) (amount_value p) (letter v)
        (of_int (letter v) # rest) ?s = Some (Inr rest, t)"
      "said (item_out strings it) ?s t" "va_list t = args"
    using convert [OF v, of ?s args left "pad_byte zero" "width_value zero w" "amount_value p" rest] Directive
    by auto
  have form: "item_text it @ rest = 37 # (if left then [45] else []) @ (if zero then [48] else []) @ amount_text w
      @ precision_tail p l v rest"
    by (simp add: Directive precision_tail_def letters_tail_def)
  have "format_loop f n emit convert (item_text it @ rest) s = format_loop f n emit convert rest t"
    unfolding form by (subst format_loop.simps) (simp add: d t(1) del: append_assoc)
  then show ?thesis
    using t said_args by blast
qed

lemma format_items:
  assumes "list_all (item_ok n) items" "va_list s = concat (map item_args items) @ args"
  shows "\<exists>t. format_loop f n emit convert (concat (map item_text items)) s = Some (Inr (), t)
    \<and> said (concat (map (item_out strings) items)) s t \<and> va_list t = args"
  using assms
proof (induction items arbitrary: s)
  case Nil
  then show ?case
    by (subst format_loop.simps) (simp add: said_Nil)
next
  case (Cons it items)
  obtain t where t: "format_loop f n emit convert (item_text it @ concat (map item_text items)) s
      = format_loop f n emit convert (concat (map item_text items)) t"
      "said (item_out strings it) s t" "va_list t = concat (map item_args items) @ args"
    using format_item [of n it s "concat (map item_args items) @ args"] Cons.prems by auto
  obtain u where "format_loop f n emit convert (concat (map item_text items)) t = Some (Inr (), u)"
      "said (concat (map (item_out strings) items)) t u" "va_list u = args"
    using Cons.IH [OF _ t(3)] Cons.prems by auto
  then show ?case
    using t(1,2) said_append by auto
qed

end

definition said_str :: "int \<Rightarrow> byte list \<Rightarrow> printer \<Rightarrow> printer \<Rightarrow> bool" where
  "said_str n t s s' \<longleftrightarrow> s' = (fold (str_step n) t s)\<lparr>va_list := va_list s'\<rparr>"

definition said_file :: "int \<Rightarrow> byte list \<Rightarrow> printer \<Rightarrow> printer \<Rightarrow> bool" where
  "said_file f t s s' \<longleftrightarrow> outs s' = outs s @ map (Pair f) t \<and> stored s' = stored s \<and> slots_set s' = slots_set s"

lemma said_str_trans:
  assumes "said_str n a s t" "said_str n b t u"
  shows "said_str n (a @ b) s u"
proof -
  define x y where "x = va_list t" and "y = va_list u"
  have t: "t = (fold (str_step n) a s)\<lparr>va_list := x\<rparr>" and u: "u = (fold (str_step n) b t)\<lparr>va_list := y\<rparr>"
    using assms by (simp_all add: said_str_def x_def y_def)
  have "u = (fold (str_step n) (a @ b) s)\<lparr>va_list := y\<rparr>"
    unfolding u t by (simp add: to_string.say_args)
  then show ?thesis
    by (simp add: said_str_def y_def)
qed

lemma letter_cases:
  "is_number_letter c \<Longrightarrow> c \<noteq> 37 \<and> c \<noteq> 99"
  "is_float_letter c \<Longrightarrow> c \<noteq> 37 \<and> c \<noteq> 99 \<and> c \<noteq> 115 \<and> \<not> is_number_letter c"
  "\<not> is_number_letter 37 \<and> \<not> is_number_letter 99 \<and> \<not> is_number_letter 115"
  by (auto simp: is_number_letter_def is_float_letter_def)

lemma va_text_Cons [simp]: "va_list s = Text v # args \<Longrightarrow> va_text s = Some (Inr v, s\<lparr>va_list := args\<rparr>)"
  by (simp add: va_text_def)

lemma va_double_Cons [simp]: "va_list s = Real v # args \<Longrightarrow> va_double s = Some (Inr v, s\<lparr>va_list := args\<rparr>)"
  by (simp add: va_double_def)

interpretation vsn: formatter "vsnprintf_convert n" "put_str n" padded_width "said_str n" for n
proof
  fix v and s :: printer and args left pad w p rest
  assume v: "conversion_ok v" and s: "va_list s = conversion_args v @ args"
  show "\<exists>t. vsnprintf_convert n left pad w p (letter v) (of_int (letter v) # rest) s = Some (Inr rest, t)
      \<and> said_str n (conversion_out padded_width left pad w p v) s t \<and> va_list t = args"
    using v s
    by (cases v) (auto simp: vsnprintf_convert_def letter_cases number_conversion_ok to_string.put_padded_ok
        to_string.put_padded_width_ok to_string.emit said_str_def to_string.say_args str_step_def)
next
  fix a b s t u
  assume "said_str n a s t" "said_str n b t u"
  then show "said_str n (a @ b) s u"
    using said_str_trans by blast
next
  fix a s args t
  assume "said_str n a (s\<lparr>va_list := args\<rparr>) t"
  then show "said_str n a s t"
    by (simp add: said_str_def to_string.say_args)
qed (auto simp: said_str_def to_string.emit str_step_def)

interpretation vfp: formatter "vfprintf_convert f" "put_file f" "padded 32" "said_file f" for f
proof
  fix v and s :: printer and args left pad w p rest
  assume v: "conversion_ok v" and s: "va_list s = conversion_args v @ args"
  show "\<exists>t. vfprintf_convert f left pad w p (letter v) (of_int (letter v) # rest) s = Some (Inr rest, t)
      \<and> said_file f (conversion_out (padded 32) left pad w p v) s t \<and> va_list t = args"
    using v s
    by (cases v) (auto simp: vfprintf_convert_def letter_cases number_conversion_ok to_file.put_padded_ok
        to_file.emit said_file_def say_file_outs fputc_pm_def file_sink_step_def)
qed (auto simp: said_file_def to_file.emit say_file_outs file_sink_step_def)

section \<open>Formatted output\<close>

definition texts :: "item list \<Rightarrow> byte list" where
  "texts items = concat (map item_text items)"

definition args_of :: "item list \<Rightarrow> fmt_arg list" where
  "args_of items = concat (map item_args items)"

definition string_out :: "item list \<Rightarrow> byte list" where
  "string_out items = concat (map (item_out padded_width) items)"

definition file_out :: "item list \<Rightarrow> byte list" where
  "file_out items = concat (map (item_out (padded 32)) items)"

text \<open>
  The text and a null byte are cut at the size that is given: a text that does not fit has no null
  byte. The result is the length of the whole text.
\<close>

lemma vsnprintf_ok:
  assumes "list_all (item_ok 2) items" "va_list s = args_of items @ args"
    and "int (length (string_out items)) < 2 ^ 31" "0 \<le> n"
  shows "\<exists>t. vsnprintf n (texts items) s = Some (Inr (int (length (string_out items))), t)
    \<and> stored t = take (nat n) (string_out items @ [0]) \<and> va_list t = args \<and> outs t = outs s
    \<and> slots_set t = slots_set s"
proof -
  let ?s = "s\<lparr>stored := [], out_count := 0\<rparr>"
  obtain t where t: "format_loop ''vsnprintf'' 2 (put_str n) (vsnprintf_convert n) (texts items) ?s = Some (Inr (), t)"
      "said_str n (string_out items) ?s t" "va_list t = args"
    using vsn.format_items [OF assms(1), of ?s args "''vsnprintf''" n] assms(2)
    by (auto simp: texts_def args_of_def string_out_def)
  obtain u where u: "t = u\<lparr>va_list := args\<rparr>" "stored u = take (nat n) (string_out items)"
      "out_count u = int (length (string_out items))" "outs u = outs s" "slots_set u = slots_set s"
    using str_steps [of ?s n "[]" "string_out items"] assms(3,4) t(2,3) by (auto simp: said_str_def)
  have "to_size (out_count u) = out_count u"
    using u(3) assms(3) by (simp add: to_size_id)
  then show ?thesis
    using t(1) u assms(4) by (auto simp: vsnprintf_def)
qed

lemma vfprintf_ok:
  assumes "list_all (item_ok 1) items" "va_list s = args_of items @ args"
  shows "\<exists>t. vfprintf f (texts items) s = Some (Inr 0, t)
    \<and> outs t = outs s @ map (Pair f) (file_out items) \<and> va_list t = args"
proof -
  let ?s = "s\<lparr>out_count := 0\<rparr>"
  obtain t where "format_loop ''vfprintf'' 1 (put_file f) (vfprintf_convert f) (texts items) ?s = Some (Inr (), t)"
      "said_file f (file_out items) ?s t" "va_list t = args"
    using vfp.format_items [OF assms(1), of ?s args "''vfprintf''" f] assms(2)
    by (auto simp: texts_def args_of_def file_out_def)
  then show ?thesis
    by (simp add: vfprintf_def said_file_def)
qed

text \<open>The two agree unless the precision of a right-aligned string exceeds its length.\<close>

fun same_strings :: "item \<Rightarrow> bool" where
  "same_strings (Directive left zero w p l (Chars t)) \<longleftrightarrow> left \<or> amount_value p \<le> int (length t)"
| "same_strings _ \<longleftrightarrow> True"

lemma same_item: "same_strings it \<Longrightarrow> item_out padded_width it = item_out (padded 32) it"
  by (cases it rule: same_strings.cases) (auto simp: padded_def padded_width_def Let_def)

lemma same_out: "list_all same_strings items \<Longrightarrow> string_out items = file_out items"
  by (induction items) (simp_all add: string_out_def file_out_def same_item)

text \<open>A precision cuts the digits of a number, and the zero flag puts zeros in front of a sign.\<close>

lemma precision_cuts_digits:
  "item_out strings (Directive False False Absent (Digits 2) 0 (Number 100 12345)) = [49, 50]"
  "item_out strings (Directive False True (Digits 5) Absent 0 (Number 100 (- 42))) = [48, 48, 45, 52, 50]"
  by (simp_all add: num_text_def padded_def Let_def width_value_def pad_byte_def ntoab_digits.simps digit_byte_def numeral_2_eq_2)

end
