(* ===== verification/Mes_Stdio.thy ===== *)
theory Mes_Stdio
  imports Mes_Libc
begin

text \<open>
  Descriptors and streams of the C library: the read buffers of lib/mes/__buffered_read.c, the
  functions of lib/linux and lib/posix that go through them, the character that is put back, and
  lib/stdio. A stream is its descriptor. The system is the parameter \<open>os\<close>; what a call stores
  through a pointer is part of its result. \<^verbatim>\<open>MES_DEBUG\<close> is not set.
\<close>

section \<open>The system and the state\<close>

text \<open>
  A \<^verbatim>\<open>read\<close> gives the bytes that it stores, or nothing when it fails. \<open>sys_file\<close> is a call with
  a file name and a number; the other calls are those of the same name.
\<close>

record 'k ops =
  sys_read :: "int \<Rightarrow> nat \<Rightarrow> 'k \<Rightarrow> byte list option \<times> 'k"
  sys_lseek :: "int \<Rightarrow> int \<Rightarrow> int \<Rightarrow> 'k \<Rightarrow> int \<times> 'k"
  sys_write :: "int \<Rightarrow> byte list \<Rightarrow> 'k \<Rightarrow> int \<times> 'k"
  sys_fd :: "string \<Rightarrow> int \<Rightarrow> 'k \<Rightarrow> int \<times> 'k"
  sys_open :: "byte list \<Rightarrow> int \<Rightarrow> int \<Rightarrow> 'k \<Rightarrow> int \<times> 'k"
  sys_file :: "string \<Rightarrow> byte list \<Rightarrow> int \<Rightarrow> 'k \<Rightarrow> int \<times> 'k"

text \<open>\<^verbatim>\<open>struct __read_buffer\<close>: the bytes that are left are at the end of the part in use.\<close>

record read_buffer =
  left :: int
  buf_chars :: "byte list"

record 'k stdio =
  kernel :: 'k
  read_cache :: "int \<Rightarrow> read_buffer"
  cache_made :: bool
  read_buffer_max :: int
  put_back :: "int \<Rightarrow> int"
  env_strings :: "byte list list"
  error_no :: int

type_synonym ('k, 'a) io = "('k stdio, 'a) m"

definition FILEDES_MAX :: int where "FILEDES_MAX = 4096"
definition READ_BUFFER_MAX :: int where "READ_BUFFER_MAX = 128"

definition system :: "('k \<Rightarrow> 'a \<times> 'k) \<Rightarrow> ('k, 'a) io" where
  "system f s = (let (a, k) = f (kernel s) in ret a (s\<lparr>kernel := k\<rparr>))"

section \<open>Read buffers\<close>

text \<open>The memory that \<^verbatim>\<open>malloc\<close> gets from the system is zero.\<close>

definition buffer_limit :: "byte list list \<Rightarrow> int" where
  "buffer_limit environ =
     (case getenv environ [77, 69, 83, 95, 82, 69, 65, 68, 95, 66, 85, 70, 70, 69, 82, 0] of
        None \<Rightarrow> READ_BUFFER_MAX
      | Some p \<Rightarrow>
          let n = atoi p; n = (if n < 0 then 0 else n)
          in if n > READ_BUFFER_MAX then READ_BUFFER_MAX else n)"

definition buffered_read_init :: "('k, unit) io" where
  "buffered_read_init =
     modify (\<lambda>s. if cache_made s then s
       else s\<lparr>cache_made := True,
              read_cache := (\<lambda>_. \<lparr>left = 0, buf_chars = replicate (nat READ_BUFFER_MAX) 0\<rparr>),
              read_buffer_max := buffer_limit (env_strings s)\<rparr>)"

definition get_cache :: "int \<Rightarrow> ('k, read_buffer) io" where
  "get_cache fd = (if 0 \<le> fd \<and> fd < FILEDES_MAX then gets (\<lambda>s. read_cache s fd) else fail Segv)"

definition set_cache :: "int \<Rightarrow> read_buffer \<Rightarrow> ('k, unit) io" where
  "set_cache fd b = modify (\<lambda>s. s\<lparr>read_cache := (read_cache s)(fd := b)\<rparr>)"

definition buffered_read_clear :: "int \<Rightarrow> ('k, int) io" where
  "buffered_read_clear fd =
     mseq buffered_read_init
     (mbind (get_cache fd) (\<lambda>b. mseq (set_cache fd (b\<lparr>left := 0\<rparr>)) (ret (left b))))"

text \<open>\<^verbatim>\<open>while (cache->size > 0 && todo)\<close> moves bytes out of the buffer.\<close>

fun take_cached :: "int \<Rightarrow> read_buffer \<Rightarrow> nat \<Rightarrow> ('k, byte list \<times> read_buffer) io" where
  "take_cached limit b 0 = ret ([], b)"
| "take_cached limit b (Suc todo) =
     (if left b > 0
      then if 0 \<le> limit - left b \<and> limit - left b < int (length (buf_chars b))
           then mbind (take_cached limit (b\<lparr>left := left b - 1\<rparr>) todo) (\<lambda>(t, b').
                ret (buf_chars b ! nat (limit - left b) # t, b'))
           else fail Segv
      else ret ([], b))"

text \<open>
  The bytes that were read are at the beginning of the buffer; \<^verbatim>\<open>memmove\<close> brings them to the
  end of the part in use.
\<close>

definition fill_buffer :: "int \<Rightarrow> byte list \<Rightarrow> read_buffer \<Rightarrow> read_buffer" where
  "fill_buffer limit t b =
     (let string = t @ drop (length t) (buf_chars b); n = nat limit - length t
      in b\<lparr>left := int (length t),
           buf_chars := (if int (length t) < limit then take n string @ t @ drop (n + length t) string else string)\<rparr>)"

text \<open>The result is the value, and what is stored from \<^verbatim>\<open>buffer\<close> on.\<close>

partial_function (option) buffered_read :: "'k ops \<Rightarrow> int \<Rightarrow> nat \<Rightarrow> ('k, int \<times> byte list) io" where
  "buffered_read os fd n s =
     mseq buffered_read_init
     (mbind (get_cache fd) (\<lambda>cache. mbind (gets read_buffer_max) (\<lambda>limit.
     if left cache = 0 \<and> int n > limit
     then mbind (system (sys_read os fd n)) (\<lambda>r. if r = None then ret (- 1, []) else ret (int (length (the r)), the r))
     else mbind (take_cached limit cache n) (\<lambda>c.
          let got = fst c; todo = n - length got
          in mseq (set_cache fd (snd c))
             (if todo > 0
              then if int todo > limit
                   then mbind (system (sys_read os fd todo)) (\<lambda>r.
                        if r = None then ret (int n - int todo - 1, got)
                        else ret (int n - int todo + int (length (the r)), got @ the r))
                   else mbind (system (sys_read os fd (nat limit))) (\<lambda>r.
                        if r = None then ret (- 1, got)
                        else if the r \<noteq> []
                        then mseq (set_cache fd (fill_buffer limit (the r) (snd c)))
                             (mbind (buffered_read os fd todo) (\<lambda>q.
                             ret (int n - int todo + fst q, got @ snd q)))
                        else ret (int n - int todo, got))
              else ret (int n, got)))))) s"

definition read_io :: "'k ops \<Rightarrow> int \<Rightarrow> nat \<Rightarrow> ('k, int \<times> byte list) io" where
  "read_io os fd n = buffered_read os fd n"

section \<open>Seeking, writing, opening and closing\<close>

definition lseek :: "'k ops \<Rightarrow> int \<Rightarrow> int \<Rightarrow> int \<Rightarrow> ('k, int) io" where
  "lseek os fd offset whence =
     mbind (system (sys_lseek os fd 0 1)) (\<lambda>here.
     if here = - 1 then ret (- 1)
     else mbind (buffered_read_clear fd) (\<lambda>skip.
          system (sys_lseek os fd (if whence = 1 then to_long (offset - skip) else offset) whence)))"

definition write_io :: "'k ops \<Rightarrow> int \<Rightarrow> byte list \<Rightarrow> ('k, int) io" where
  "write_io os fd t =
     mbind (buffered_read_clear fd) (\<lambda>skip.
     mseq (if skip \<noteq> 0 then mseq (lseek os fd (- skip) 1) (ret ()) else ret ())
     (mbind (system (sys_write os fd t)) (\<lambda>r.
     let r = to_int r in
     if r < 0 then mseq (modify (\<lambda>s. s\<lparr>error_no := - r\<rparr>)) (ret (- 1))
     else mseq (modify (\<lambda>s. s\<lparr>error_no := 0\<rparr>)) (ret r))))"

text \<open>The array behind \<^verbatim>\<open>__ungetc_buf\<close> has one more entry than there are descriptors.\<close>

definition ungetc_get :: "int \<Rightarrow> ('k, int) io" where
  "ungetc_get fd = (if 0 \<le> fd \<and> fd \<le> FILEDES_MAX then gets (\<lambda>s. put_back s fd) else fail Segv)"

definition ungetc_put :: "int \<Rightarrow> int \<Rightarrow> ('k, unit) io" where
  "ungetc_put fd c =
     (if 0 \<le> fd \<and> fd \<le> FILEDES_MAX then modify (\<lambda>s. s\<lparr>put_back := (put_back s)(fd := c)\<rparr>) else fail Segv)"

definition ungetc_clear :: "int \<Rightarrow> ('k, unit) io" where
  "ungetc_clear fd = ungetc_put fd (- 1)"

definition close_io :: "'k ops \<Rightarrow> int \<Rightarrow> ('k, int) io" where
  "close_io os fd =
     mseq (ungetc_clear fd) (mbind (buffered_read_clear fd) (\<lambda>_. system (sys_fd os ''close'' fd)))"

definition EMFILE :: int where "EMFILE = 24"

definition open3 :: "'k ops \<Rightarrow> byte list \<Rightarrow> int \<Rightarrow> int \<Rightarrow> ('k, int) io" where
  "open3 os file_name flags perm =
     mbind (system (sys_open os file_name flags perm)) (\<lambda>r.
     let r = to_int r in
     if r > 2
     then if r \<ge> FILEDES_MAX then mseq (modify (\<lambda>s. s\<lparr>error_no := EMFILE\<rparr>)) (ret (- 1))
          else mseq (ungetc_clear r) (mbind (buffered_read_clear r) (\<lambda>_. ret r))
     else ret r)"

definition open_io :: "'k ops \<Rightarrow> byte list \<Rightarrow> int \<Rightarrow> int \<Rightarrow> ('k, int) io" where
  "open_io os file_name flags perm =
     (if odd (flags div 64) then open3 os file_name flags perm else open3 os file_name flags 511)"

section \<open>Characters of a descriptor\<close>

definition fdgetc_io :: "'k ops \<Rightarrow> int \<Rightarrow> ('k, int) io" where
  "fdgetc_io os fd =
     mbind (ungetc_get fd) (\<lambda>i.
     if i \<ge> 0 then mseq (ungetc_put fd (- 1)) (ret i)
     else mbind (read_io os fd 1) (\<lambda>(r, t).
          if r < 1 then ret (- 1)
          else let i = head_char t in ret (if i < 0 then i + 256 else i)))"

definition fdungetc_io :: "int \<Rightarrow> int \<Rightarrow> ('k, int) io" where
  "fdungetc_io c fd =
     (if c = - 1 then ret c
      else mbind (ungetc_get fd) (\<lambda>i.
           if i \<ge> 0 then fail (Assert ''0'') else mseq (ungetc_put fd c) (ret c)))"

definition fdputc_io :: "'k ops \<Rightarrow> int \<Rightarrow> int \<Rightarrow> ('k, int) io" where
  "fdputc_io os c fd = mbind (write_io os fd [of_int c]) (\<lambda>_. ret 0)"

definition fdputs_io :: "'k ops \<Rightarrow> byte list \<Rightarrow> int \<Rightarrow> ('k, int) io" where
  "fdputs_io os t fd = mbind (write_io os fd (take (nat (strlen t)) t)) (\<lambda>_. ret 0)"

text \<open>\<^verbatim>\<open>while (--count > 0 && c != '\n')\<close>; the result is the text in front of the null byte.\<close>

fun fdgets_loop :: "'k ops \<Rightarrow> int \<Rightarrow> nat \<Rightarrow> int \<Rightarrow> byte list \<Rightarrow> ('k, int \<times> byte list) io" where
  "fdgets_loop os fd 0 c t = ret (c, t)"
| "fdgets_loop os fd (Suc n) c t =
     (if c = 10 then ret (c, t)
      else mbind (fdgetc_io os fd) (\<lambda>c.
           if c = - 1 then ret (c, t) else fdgets_loop os fd n c (t @ [of_int c])))"

text \<open>A negative \<^verbatim>\<open>count\<close> or 0 runs no loop; -1 after the decrement gives null, as the end of the file.\<close>

definition fdgets :: "'k ops \<Rightarrow> int \<Rightarrow> int \<Rightarrow> ('k, byte list option) io" where
  "fdgets os count_max fd =
     mbind (fdgets_loop os fd (nat (count_max - 1)) 0 []) (\<lambda>(c, t).
     if t = [] \<and> (c = - 1 \<or> count_max = 0) then ret None else ret (Some t))"

section \<open>Streams\<close>

definition fgetc :: "'k ops \<Rightarrow> int \<Rightarrow> ('k, int) io" where "fgetc os stream = fdgetc_io os stream"
definition getc :: "'k ops \<Rightarrow> int \<Rightarrow> ('k, int) io" where "getc os stream = fdgetc_io os stream"
definition getchar :: "'k ops \<Rightarrow> ('k, int) io" where "getchar os = fdgetc_io os 0"
definition ungetc :: "int \<Rightarrow> int \<Rightarrow> ('k, int) io" where "ungetc c stream = fdungetc_io c stream"
definition fputc :: "'k ops \<Rightarrow> int \<Rightarrow> int \<Rightarrow> ('k, int) io" where "fputc os c stream = fdputc_io os c stream"
definition putc :: "'k ops \<Rightarrow> int \<Rightarrow> int \<Rightarrow> ('k, int) io" where "putc os c stream = fdputc_io os c stream"

definition putchar :: "'k ops \<Rightarrow> int \<Rightarrow> ('k, int) io" where
  "putchar os c = mbind (write_io os 1 [of_int c]) (\<lambda>_. ret 0)"

definition fputs :: "'k ops \<Rightarrow> byte list \<Rightarrow> int \<Rightarrow> ('k, int) io" where "fputs os t stream = fdputs_io os t stream"

definition oputs :: "'k ops \<Rightarrow> byte list \<Rightarrow> ('k, int) io" where "oputs os t = fdputs_io os t 1"

definition puts :: "'k ops \<Rightarrow> byte list \<Rightarrow> ('k, int) io" where
  "puts os t = mbind (oputs os t) (\<lambda>_. oputs os [10, 0])"

definition fgets :: "'k ops \<Rightarrow> int \<Rightarrow> int \<Rightarrow> ('k, byte list option) io" where
  "fgets os count_max stream = fdgets os count_max stream"

definition feof :: "'k ops \<Rightarrow> int \<Rightarrow> ('k, bool) io" where
  "feof os stream =
     mbind (fgetc os stream) (\<lambda>c. mseq (if c \<noteq> - 1 then mseq (ungetc c stream) (ret ()) else ret ()) (ret (c = - 1)))"

definition ferror :: "int \<Rightarrow> int" where "ferror stream = (if stream = - 1 then - 1 else 0)"

definition clearerr :: "int \<Rightarrow> ('k, unit) io" where "clearerr stream = modify (\<lambda>s. s\<lparr>error_no := 0\<rparr>)"

definition fflush :: "'k ops \<Rightarrow> int \<Rightarrow> ('k, int) io" where
  "fflush os stream = (if stream < 3 then ret 0 else system (sys_fd os ''fsync'' stream))"

definition fclose :: "'k ops \<Rightarrow> int \<Rightarrow> ('k, int) io" where "fclose os stream = close_io os stream"

definition fseek :: "'k ops \<Rightarrow> int \<Rightarrow> int \<Rightarrow> int \<Rightarrow> ('k, int) io" where
  "fseek os stream offset whence =
     mbind (lseek os stream offset whence) (\<lambda>pos. ret (if pos \<ge> 0 then 0 else - 1))"

definition ftell :: "'k ops \<Rightarrow> int \<Rightarrow> ('k, int) io" where "ftell os stream = lseek os stream 0 1"

text \<open>
  The loop of \<^verbatim>\<open>fread\<close> takes characters while one is put back; \<open>todo\<close> is positive in front of it.
\<close>

fun fread_back :: "'k ops \<Rightarrow> int \<Rightarrow> nat \<Rightarrow> ('k, byte list) io" where
  "fread_back os stream 0 = ret []"
| "fread_back os stream (Suc todo) =
     mbind (ungetc_get stream) (\<lambda>i.
     if i \<ge> 0
     then mbind (fgetc os stream) (\<lambda>c. mbind (fread_back os stream todo) (\<lambda>t. ret (of_int c # t)))
     else ret [])"

definition fread :: "'k ops \<Rightarrow> nat \<Rightarrow> nat \<Rightarrow> int \<Rightarrow> ('k, nat \<times> byte list) io" where
  "fread os sz n stream =
     (if sz = 0 \<or> n = 0 then ret (0, [])
      else mbind (fread_back os stream (sz * n)) (\<lambda>t.
           let todo = sz * n - length t in
           mbind (if todo > 0
                  then mbind (read_io os stream todo) (\<lambda>(r, more).
                       ret (if to_int r < 0 \<and> t = [] then to_int r else int (length t) + to_int r, t @ more))
                  else ret (int (length t), t))
           (\<lambda>(bytes, t). ret (if bytes > 0 then nat bytes div sz else 0, t))))"

definition fwrite :: "'k ops \<Rightarrow> byte list \<Rightarrow> nat \<Rightarrow> nat \<Rightarrow> int \<Rightarrow> ('k, nat) io" where
  "fwrite os t sz n stream =
     (if sz = 0 \<or> n = 0 then ret 0
      else if length t < sz * n then fail Segv
      else mbind (write_io os stream (take (sz * n) t)) (\<lambda>bytes. ret (if bytes > 0 then nat bytes div sz else 0)))"

section \<open>Opening a stream\<close>

definition O_RDONLY :: int where "O_RDONLY = 0"
definition O_WRONLY :: int where "O_WRONLY = 1"
definition O_RDWR :: int where "O_RDWR = 2"
definition O_CREAT :: int where "O_CREAT = 64"
definition O_TRUNC :: int where "O_TRUNC = 512"
definition O_APPEND :: int where "O_APPEND = 1024"

text \<open>
  The mode is a text without its null byte. The flags are disjoint bits. The null pointer is stream 0.
\<close>

definition fopen :: "'k ops \<Rightarrow> byte list \<Rightarrow> byte list \<Rightarrow> ('k, int) io" where
  "fopen os file_name opentype =
     (let update = (opentype = [114, 43]); append = (head_char opentype = 97) in
      mbind (if append \<or> update then system (sys_file os ''access'' file_name O_RDONLY) else ret 1) (\<lambda>a.
      mbind (if (append \<or> update) \<and> a = 0
             then open3 os file_name (O_RDWR + (if append then O_APPEND else 0)) 384
             else if head_char opentype = 119 \<or> append \<or> update
             then open3 os file_name
                    (if 43 \<in> set opentype then O_RDWR + O_CREAT else O_WRONLY + O_CREAT + O_TRUNC) 384
             else open3 os file_name O_RDONLY 0) (\<lambda>fd.
      if fd = 0 then fail (Assert ''0'') else ret (if fd < 0 then 0 else fd))))"

definition freopen :: "'k ops \<Rightarrow> byte list \<Rightarrow> byte list \<Rightarrow> int \<Rightarrow> ('k, int) io" where
  "freopen os file_name opentype stream = mbind (fclose os stream) (\<lambda>_. fopen os file_name opentype)"

text \<open>\<^verbatim>\<open>stat\<close> is a call that gives -1, or the mode of the file.\<close>

definition remove_file :: "'k ops \<Rightarrow> byte list \<Rightarrow> ('k, int) io" where
  "remove_file os file_name =
     mbind (system (sys_file os ''stat'' file_name 0)) (\<lambda>mode.
     if mode < 0 then ret (- 1)
     else if (mode div 4096) mod 16 = 4 then system (sys_file os ''rmdir'' file_name 0)
     else system (sys_file os ''unlink'' file_name 0))"

end
