(* ===== verification/Mes_Buffer.thy ===== *)
theory Mes_Buffer
  imports Mes_Stdio
begin

text \<open>
  Read buffers do not show: reading through a buffer delivers the stream of the descriptor, however
  short the reads of the system are, and on a regular file any sequence of reads, seeks and writes
  has the results that it has on the file itself, as long as no seek fails. What the system does is
  a hypothesis on \<open>os\<close>.
\<close>

section \<open>The bytes in a buffer\<close>

definition buffer_ok :: "int \<Rightarrow> read_buffer \<Rightarrow> bool" where
  "buffer_ok limit b \<longleftrightarrow> 0 \<le> left b \<and> left b \<le> limit \<and> length (buf_chars b) = nat READ_BUFFER_MAX"

definition io_ok :: "'k stdio \<Rightarrow> bool" where
  "io_ok s \<longleftrightarrow> cache_made s \<longrightarrow> 0 \<le> read_buffer_max s \<and> read_buffer_max s \<le> READ_BUFFER_MAX
     \<and> (\<forall>fd. buffer_ok (read_buffer_max s) (read_cache s fd))"

definition buffered :: "int \<Rightarrow> read_buffer \<Rightarrow> byte list" where
  "buffered limit b = take (nat (left b)) (drop (nat (limit - left b)) (buf_chars b))"

definition unread :: "int \<Rightarrow> 'k stdio \<Rightarrow> byte list" where
  "unread fd s = (if cache_made s then buffered (read_buffer_max s) (read_cache s fd) else [])"

definition valid_fd :: "int \<Rightarrow> bool" where
  "valid_fd fd \<longleftrightarrow> 0 \<le> fd \<and> fd < FILEDES_MAX"

lemma buffer_limit_range: "0 \<le> buffer_limit e" "buffer_limit e \<le> READ_BUFFER_MAX"
  by (auto simp: buffer_limit_def READ_BUFFER_MAX_def Let_def split: option.splits)

definition started :: "'k stdio \<Rightarrow> 'k stdio" where
  "started s = (if cache_made s then s
     else s\<lparr>cache_made := True,
            read_cache := (\<lambda>_. \<lparr>left = 0, buf_chars = replicate (nat READ_BUFFER_MAX) 0\<rparr>),
            read_buffer_max := buffer_limit (env_strings s)\<rparr>)"

lemma init_apply [simp]: "buffered_read_init s = Some (Inr (), started s)"
  by (simp add: buffered_read_init_def started_def)

lemma started_facts:
  assumes "io_ok s"
  shows "io_ok (started s)" "cache_made (started s)" "unread fd (started s) = unread fd s"
    "kernel (started s) = kernel s" "0 \<le> read_buffer_max (started s)"
    "read_buffer_max (started s) \<le> READ_BUFFER_MAX"
    "buffer_ok (read_buffer_max (started s)) (read_cache (started s) fd)"
    "started (started s) = started s" "put_back (started s) = put_back s"
  using assms buffer_limit_range [of "env_strings s"]
  by (auto simp: started_def io_ok_def unread_def buffered_def buffer_ok_def)

lemma get_cache_apply [simp]: "valid_fd fd \<Longrightarrow> get_cache fd s = Some (Inr (read_cache s fd), s)"
  by (simp add: get_cache_def valid_fd_def)

lemma set_cache_apply [simp]: "set_cache fd b s = Some (Inr (), s\<lparr>read_cache := (read_cache s)(fd := b)\<rparr>)"
  by (simp add: set_cache_def)

lemma system_apply [simp]: "f (kernel s) = (a, k) \<Longrightarrow> system f s = Some (Inr a, s\<lparr>kernel := k\<rparr>)"
  by (simp add: system_def)

lemma length_buffered: "buffer_ok limit b \<Longrightarrow> limit \<le> READ_BUFFER_MAX \<Longrightarrow> length (buffered limit b) = nat (left b)"
  by (simp add: buffered_def buffer_ok_def) arith

text \<open>Taking bytes out of a buffer takes them from the front of what it holds.\<close>

lemma take_cached_ok:
  assumes "buffer_ok limit b" "limit \<le> READ_BUFFER_MAX"
  shows "take_cached limit b n s
    = Some (Inr (take n (buffered limit b), b\<lparr>left := left b - int (min n (nat (left b)))\<rparr>), s)"
  using assms
proof (induction n arbitrary: b)
  case 0
  then show ?case by simp
next
  case (Suc n)
  show ?case
  proof (cases "left b > 0")
    case True
    let ?b = "b\<lparr>left := left b - 1\<rparr>"
    have b: "0 \<le> limit - left b" "limit - left b < int (length (buf_chars b))" "length (buf_chars b) = nat READ_BUFFER_MAX"
      using True Suc.prems by (auto simp: buffer_ok_def)
    have "nat (limit - (left b - 1)) = Suc (nat (limit - left b))" "nat (left b) = Suc (nat (left b - 1))"
      using True b by arith+
    moreover have "drop (nat (limit - left b)) (buf_chars b)
        = buf_chars b ! nat (limit - left b) # drop (Suc (nat (limit - left b))) (buf_chars b)"
      by (rule Cons_nth_drop_Suc [symmetric]) (use b in \<open>simp add: READ_BUFFER_MAX_def\<close>)
    ultimately have "buffered limit b = buf_chars b ! nat (limit - left b) # buffered limit ?b"
      by (simp add: buffered_def)
    moreover have "take_cached limit ?b n s
        = Some (Inr (take n (buffered limit ?b), ?b\<lparr>left := left ?b - int (min n (nat (left ?b)))\<rparr>), s)"
      using True Suc.prems by (intro Suc.IH) (auto simp: buffer_ok_def)
    moreover have "left ?b - int (min n (nat (left ?b))) = left b - int (min (Suc n) (nat (left b)))"
      using True by simp
    ultimately show ?thesis
      using True b by simp
  next
    case False
    then have "left b = 0"
      using Suc.prems by (simp add: buffer_ok_def)
    then show ?thesis by (simp add: buffered_def)
  qed
qed

lemma buffered_less:
  assumes "buffer_ok limit b" "limit \<le> READ_BUFFER_MAX"
  shows "buffered limit (b\<lparr>left := left b - int (min n (nat (left b)))\<rparr>) = drop n (buffered limit b)"
    and "buffer_ok limit (b\<lparr>left := left b - int (min n (nat (left b)))\<rparr>)"
proof -
  show "buffer_ok limit (b\<lparr>left := left b - int (min n (nat (left b)))\<rparr>)"
    using assms by (auto simp: buffer_ok_def)
  let ?k = "min n (nat (left b))"
  have "nat (limit - (left b - int ?k)) = ?k + nat (limit - left b)" "nat (left b - int ?k) = nat (left b) - ?k"
    using assms by (simp_all add: buffer_ok_def) arith+
  then have "buffered limit (b\<lparr>left := left b - int ?k\<rparr>) = drop ?k (buffered limit b)"
    by (simp add: buffered_def drop_take add.commute)
  also have "\<dots> = drop n (buffered limit b)"
    using length_buffered [OF assms] by (simp add: min_def)
  finally show "buffered limit (b\<lparr>left := left b - int ?k\<rparr>) = drop n (buffered limit b)" .
qed

lemma fill_buffer_ok:
  assumes "buffer_ok limit b" "limit \<le> READ_BUFFER_MAX" "int (length t) \<le> limit"
  shows "buffer_ok limit (fill_buffer limit t b)" "buffered limit (fill_buffer limit t b) = t"
    and "left (fill_buffer limit t b) = int (length t)"
proof -
  define string where "string = t @ drop (length t) (buf_chars b)"
  define n where "n = nat limit - length t"
  have b: "length (buf_chars b) = 128" "limit \<le> 128" "0 \<le> limit" "length t \<le> nat limit"
    using assms by (auto simp: buffer_ok_def READ_BUFFER_MAX_def)
  then have len: "length string = 128" "n + length t = nat limit" "n \<le> 128"
    by (auto simp: string_def n_def)
  have fill: "fill_buffer limit t b = b\<lparr>left := int (length t),
      buf_chars := (if int (length t) < limit then take n string @ t @ drop (n + length t) string else string)\<rparr>"
    by (simp add: fill_buffer_def Let_def string_def n_def)
  show "buffer_ok limit (fill_buffer limit t b)" "left (fill_buffer limit t b) = int (length t)"
    using b len by (simp_all add: fill buffer_ok_def READ_BUFFER_MAX_def) arith
  have "nat (limit - int (length t)) = n"
    using b by (simp add: n_def)
  moreover have "int (length t) = limit \<Longrightarrow> n = 0"
    by (simp add: n_def)
  ultimately show "buffered limit (fill_buffer limit t b) = t"
    using b len by (cases "int (length t) < limit") (auto simp: fill buffered_def string_def)
qed

section \<open>Reading\<close>

definition with_cache :: "'k stdio \<Rightarrow> int \<Rightarrow> read_buffer \<Rightarrow> 'k stdio" where
  "with_cache s fd b = s\<lparr>read_cache := (read_cache s)(fd := b)\<rparr>"

lemma with_cache_facts:
  assumes "io_ok s" "cache_made s" "buffer_ok (read_buffer_max s) b"
  shows "io_ok (with_cache s fd b)" "unread fd (with_cache s fd b) = buffered (read_buffer_max s) b"
    and "fd' \<noteq> fd \<Longrightarrow> unread fd' (with_cache s fd b) = unread fd' s"
    and "kernel (with_cache s fd b) = kernel s" "cache_made (with_cache s fd b)"
    and "read_buffer_max (with_cache s fd b) = read_buffer_max s" "put_back (with_cache s fd b) = put_back s"
  using assms by (auto simp: with_cache_def io_ok_def unread_def)

lemma with_kernel_facts:
  assumes "io_ok s"
  shows "io_ok (s\<lparr>kernel := k\<rparr>)" "unread fd (s\<lparr>kernel := k\<rparr>) = unread fd s"
    "started (s\<lparr>kernel := k\<rparr>) = (started s)\<lparr>kernel := k\<rparr>"
  using assms by (auto simp: io_ok_def unread_def started_def)

text \<open>What a number of reads of the system have delivered.\<close>

inductive system_reads :: "'k ops \<Rightarrow> int \<Rightarrow> 'k \<Rightarrow> byte list \<Rightarrow> 'k \<Rightarrow> bool" for os fd where
  none: "system_reads os fd k [] k"
| more: "sys_read os fd n k = (Some t, k') \<Longrightarrow> system_reads os fd k' u k'' \<Longrightarrow> system_reads os fd k (t @ u) k''"

lemma system_reads_one: "sys_read os fd n k = (Some t, k') \<Longrightarrow> system_reads os fd k t k'"
  using more [OF _ none] by fastforce

text \<open>
  A descriptor with \<open>rest\<close> still to come, in the states of the system that satisfy \<open>ok\<close>: a read
  takes a part of it from the front, and nothing only at the end.
\<close>

definition reads_stream :: "'k ops \<Rightarrow> int \<Rightarrow> ('k \<Rightarrow> bool) \<Rightarrow> ('k \<Rightarrow> byte list) \<Rightarrow> bool" where
  "reads_stream os fd ok rest \<longleftrightarrow> (\<forall>n k. ok k \<longrightarrow> (\<exists>t k'. sys_read os fd n k = (Some t, k') \<and> ok k'
     \<and> rest k = t @ rest k' \<and> length t \<le> n \<and> (t = [] \<longrightarrow> n = 0 \<or> rest k = [])))"

definition reads_fully :: "'k ops \<Rightarrow> int \<Rightarrow> ('k \<Rightarrow> bool) \<Rightarrow> ('k \<Rightarrow> byte list) \<Rightarrow> bool" where
  "reads_fully os fd ok rest \<longleftrightarrow> (\<forall>n k t k'. ok k \<longrightarrow> sys_read os fd n k = (Some t, k')
     \<longrightarrow> length t = min n (length (rest k)))"

lemma reads_streamE:
  assumes "reads_stream os fd ok rest" "ok k"
  obtains t k' where "sys_read os fd n k = (Some t, k')" "ok k'" "rest k = t @ rest k'" "length t \<le> n"
    "t = [] \<Longrightarrow> n = 0 \<or> rest k = []"
  using assms unfolding reads_stream_def by blast

lemma reads_fullyD:
  "reads_fully os fd ok rest \<Longrightarrow> ok k \<Longrightarrow> sys_read os fd n k = (Some t, k') \<Longrightarrow> length t = min n (length (rest k))"
  unfolding reads_fully_def by blast

lemma reads_stream_one:
  "reads_stream os fd ok rest \<Longrightarrow> ok k \<Longrightarrow> \<exists>t k'. sys_read os fd n k = (Some t, k') \<and> ok k'
     \<and> rest k = t @ rest k' \<and> length t \<le> n \<and> (t = [] \<longrightarrow> n = 0 \<or> rest k = [])"
  unfolding reads_stream_def by blast

lemma system_reads_stream:
  assumes "system_reads os fd k u k'" "reads_stream os fd ok rest" "ok k"
  shows "rest k = u @ rest k' \<and> ok k'"
  using assms
proof (induction rule: system_reads.induct)
  case (none k)
  then show ?case by simp
next
  case (more n k t k' u k'')
  then show ?case
    by (auto elim!: reads_streamE [where n = n])
qed

text \<open>\<open>stream\<close>: what is to come, the buffer included.\<close>

definition stream :: "int \<Rightarrow> ('k \<Rightarrow> byte list) \<Rightarrow> 'k stdio \<Rightarrow> byte list" where
  "stream fd rest s = unread fd s @ rest (kernel s)"

definition took :: "'k ops \<Rightarrow> int \<Rightarrow> byte list \<Rightarrow> 'k stdio \<Rightarrow> 'k stdio \<Rightarrow> bool" where
  "took os fd t s s' \<longleftrightarrow> io_ok s' \<and> put_back s' = put_back s \<and> (\<forall>fd'. fd' \<noteq> fd \<longrightarrow> unread fd' s' = unread fd' s)
     \<and> (\<exists>u. system_reads os fd (kernel s) u (kernel s') \<and> unread fd s @ u = t @ unread fd s')"

lemma took_stream:
  assumes "took os fd t s s'" "reads_stream os fd ok rest" "ok (kernel s)"
  shows "stream fd rest s = t @ stream fd rest s' \<and> ok (kernel s')"
  using assms system_reads_stream [OF _ assms(2,3)] by (auto simp: took_def stream_def)

lemma buffered_read_ok:
  assumes "reads_stream os fd ok rest" "valid_fd fd" "io_ok s" "ok (kernel s)"
  shows "\<exists>t s'. buffered_read os fd n s = Some (Inr (int (length t), t), s') \<and> took os fd t s s'
    \<and> length t \<le> n \<and> (t = [] \<longrightarrow> n = 0 \<or> stream fd rest s = [])
    \<and> (reads_fully os fd ok rest \<longrightarrow> length t = min n (length (stream fd rest s)))"
  using assms(3,4)
proof (induction "2 * n + (if unread fd s = [] then 1 else 0)" arbitrary: n s rule: less_induct)
  case less
  define s1 where "s1 = started s"
  define limit where "limit = read_buffer_max s1"
  define b where "b = read_cache s1 fd"
  note st = started_facts [OF less.prems(1), folded s1_def]
  have lim: "0 \<le> limit" "limit \<le> READ_BUFFER_MAX"
    using st(5,6) by (simp_all add: limit_def)
  have b: "buffer_ok limit b"
    using st(7) by (simp add: limit_def b_def)
  have un: "unread fd s = buffered limit b"
    using st(2) st(3) [of fd] by (simp add: unread_def limit_def b_def)
  have len: "length (unread fd s) = nat (left b)"
    using length_buffered [OF b lim(2)] by (simp add: un)
  have k: "kernel s1 = kernel s" "ok (kernel s1)"
    using st(4) less.prems(2) by simp_all
  show ?case
  proof (cases "left b = 0 \<and> int n > limit")
    case True
    obtain t k' where t: "sys_read os fd n (kernel s) = (Some t, k')" "length t \<le> n" "t = [] \<Longrightarrow> n = 0 \<or> rest (kernel s) = []"
      using reads_stream_one [OF assms(1) less.prems(2)] by blast
    have un0: "unread fd s = []"
      using True len by simp
    have "buffered_read os fd n s = Some (Inr (int (length t), t), s1\<lparr>kernel := k'\<rparr>)"
      using True t(1) k(1) assms(2)
      by (subst buffered_read.simps) (simp add: s1_def [symmetric] limit_def [symmetric] b_def [symmetric])
    moreover have "took os fd t s (s1\<lparr>kernel := k'\<rparr>)"
      using system_reads_one [OF t(1)] st(1,3,9) with_kernel_facts [OF st(1)] un0 by (simp add: took_def)
    moreover have "reads_fully os fd ok rest \<longrightarrow> length t = min n (length (stream fd rest s))"
      using t(1) less.prems(2) un0 by (auto simp: reads_fully_def stream_def)
    ultimately show ?thesis
      using t(2,3) un0 by (auto simp: stream_def)
  next
    case False
    define got where "got = take n (unread fd s)"
    define b1 where "b1 = b\<lparr>left := left b - int (min n (nat (left b)))\<rparr>"
    define s2 where "s2 = with_cache s1 fd b1"
    define todo where "todo = n - length got"
    have taken: "take_cached limit b n s1 = Some (Inr (got, b1), s1)"
      using take_cached_ok [OF b lim(2)] by (simp add: got_def b1_def un)
    have b1: "buffer_ok limit b1" "buffered limit b1 = drop n (unread fd s)"
      using buffered_less [OF b lim(2)] by (simp_all add: b1_def un)
    note s2 = with_cache_facts [OF st(1,2) b1(1) [unfolded limit_def], where fd = fd, folded s2_def limit_def]
    have direct: "(left b = 0 \<and> limit < int n) = False"
      using False by simp
    have run: "buffered_read os fd n s = (if todo > 0
              then if int todo > limit
                   then mbind (system (sys_read os fd todo)) (\<lambda>r.
                        if r = None then ret (int n - int todo - 1, got)
                        else ret (int n - int todo + int (length (the r)), got @ the r))
                   else mbind (system (sys_read os fd (nat limit))) (\<lambda>r.
                        if r = None then ret (- 1, got)
                        else if the r \<noteq> []
                        then mseq (set_cache fd (fill_buffer limit (the r) b1))
                             (mbind (buffered_read os fd todo) (\<lambda>q.
                             ret (int n - int todo + fst q, got @ snd q)))
                        else ret (int n - int todo, got))
              else ret (int n, got)) s2"
      using assms(2) taken
      by (subst buffered_read.simps)
        (simp add: direct s1_def [symmetric] limit_def [symmetric] b_def [symmetric] s2_def with_cache_def todo_def Let_def cong: if_cong)
    have low: "length got \<le> n" "got = [] \<longrightarrow> n = 0 \<or> unread fd s = []"
      by (auto simp: got_def)
    show ?thesis
    proof (cases "todo > 0")
      case False
      then have "length got = n"
        using low by (simp add: todo_def)
      moreover have "took os fd got s s2"
        using s2 st b1(2) k(1) system_reads.none [of os fd "kernel s"] by (auto simp: took_def got_def)
      moreover have "buffered_read os fd n s = Some (Inr (int n, got), s2)"
        using run False by simp
      ultimately show ?thesis
        using low by (auto simp: stream_def got_def)
    next
      case todo: True
      then have all: "got = unread fd s" and empty: "unread fd s2 = []"
        using b1(2) s2(2) by (auto simp: todo_def got_def)
      have n: "int n - int todo = int (length got)"
        using low by (simp add: todo_def)
      show ?thesis
      proof (cases "int todo > limit")
        case True
        obtain t k' where t: "sys_read os fd todo (kernel s) = (Some t, k')" "length t \<le> todo"
            "t = [] \<Longrightarrow> rest (kernel s) = []"
          using reads_stream_one [OF assms(1) less.prems(2), of todo] todo by auto
        have "buffered_read os fd n s = Some (Inr (int (length (got @ t)), got @ t), s2\<lparr>kernel := k'\<rparr>)"
          using run True todo t(1) s2(4) k(1) n by simp
        moreover have "took os fd (got @ t) s (s2\<lparr>kernel := k'\<rparr>)"
          using system_reads_one [OF t(1)] s2 st with_kernel_facts [OF s2(1)] all empty by (simp add: took_def)
        moreover have "reads_fully os fd ok rest \<longrightarrow> length (got @ t) = min n (length (stream fd rest s))"
          using reads_fullyD [where rest = rest and ok = ok, OF _ less.prems(2) t(1)] all low by (auto simp: stream_def todo_def)
        ultimately show ?thesis
          using t(2,3) all low(1) by (auto simp: stream_def todo_def)
      next
        case False
        obtain t k' where t: "sys_read os fd (nat limit) (kernel s) = (Some t, k')" "ok k'"
            "rest (kernel s) = t @ rest k'" "length t \<le> nat limit" "t = [] \<Longrightarrow> nat limit = 0 \<or> rest (kernel s) = []"
          using reads_stream_one [OF assms(1) less.prems(2)] by blast
        have pos: "0 < limit"
          using False todo by simp
        show ?thesis
        proof (cases "t = []")
          case True
          then have "buffered_read os fd n s = Some (Inr (int (length got), got), s2\<lparr>kernel := k'\<rparr>)"
            using run False todo t(1) s2(4) k(1) n by simp
          moreover have "took os fd got s (s2\<lparr>kernel := k'\<rparr>)"
            using system_reads_one [OF t(1)] True s2 st with_kernel_facts [OF s2(1)] all empty by (simp add: took_def)
          moreover have "rest (kernel s) = []"
            using t(5) True pos by simp
          ultimately show ?thesis
            using low all by (auto simp: stream_def)
        next
          case t0: False
          define s3 where "s3 = with_cache (s2\<lparr>kernel := k'\<rparr>) fd (fill_buffer limit t b1)"
          have fill: "buffer_ok limit (fill_buffer limit t b1)" "buffered limit (fill_buffer limit t b1) = t"
            using fill_buffer_ok [OF b1(1) lim(2), of t] t(4) lim(1) by simp_all
          have s2k: "io_ok (s2\<lparr>kernel := k'\<rparr>)" "cache_made (s2\<lparr>kernel := k'\<rparr>)"
              "read_buffer_max (s2\<lparr>kernel := k'\<rparr>) = limit" "put_back (s2\<lparr>kernel := k'\<rparr>) = put_back s"
            using s2 st(9) with_kernel_facts(1) [OF s2(1)] by simp_all
          have buf: "buffer_ok (read_buffer_max (s2\<lparr>kernel := k'\<rparr>)) (fill_buffer limit t b1)"
            using fill(1) s2k(3) by simp
          note s3 = with_cache_facts [OF s2k(1,2) buf, where fd = fd, folded s3_def]
          have unread3: "unread fd s3 = t" "kernel s3 = k'"
            using s3(2,4) s2k(3) fill(2) by simp_all
          have smaller: "2 * todo + (if unread fd s3 = [] then 1 else 0) < 2 * n + (if unread fd s = [] then 1 else 0)"
            using unread3 t0 all low todo by (cases "got = []") (auto simp: todo_def)
          obtain t2 s4 where r: "buffered_read os fd todo s3 = Some (Inr (int (length t2), t2), s4)"
              "took os fd t2 s3 s4" "length t2 \<le> todo" "t2 = [] \<Longrightarrow> todo = 0 \<or> stream fd rest s3 = []"
              "reads_fully os fd ok rest \<Longrightarrow> length t2 = min todo (length (stream fd rest s3))"
            using less.hyps [OF smaller s3(1)] unread3(2) t(2) by auto
          have str: "stream fd rest s = got @ stream fd rest s3" "stream fd rest s3 \<noteq> []"
            using t(3) t0 all unread3 by (simp_all add: stream_def)
          have "buffered_read os fd n s = Some (Inr (int (length (got @ t2)), got @ t2), s4)"
            using run False todo t(1) s2(4) k(1) n t0 r(1) by (simp add: s3_def with_cache_def)
          moreover have "took os fd (got @ t2) s s4"
          proof -
            obtain u where u: "system_reads os fd k' u (kernel s4)" "t @ u = t2 @ unread fd s4"
              using r(2) unread3 by (auto simp: took_def)
            have "system_reads os fd (kernel s) (t @ u) (kernel s4)"
              using t(1) u(1) by (rule system_reads.more)
            then show ?thesis
              using r(2) u(2) all s3 s2 st s2k with_kernel_facts [OF s2(1)] by (auto simp: took_def)
          qed
          moreover have "length (got @ t2) \<le> n" "got @ t2 \<noteq> []"
            using r(3,4) low todo str(2) by (auto simp: todo_def)
          moreover have "reads_fully os fd ok rest \<longrightarrow> length (got @ t2) = min n (length (stream fd rest s))"
            using r(5) str(1) low(1) by (auto simp: todo_def)
          ultimately show ?thesis by blast
        qed
      qed
    qed
  qed
qed

section \<open>Regular files\<close>

text \<open>The file on its own: its content and a position.\<close>

definition overwrite :: "nat \<Rightarrow> byte list \<Rightarrow> byte list \<Rightarrow> byte list" where
  "overwrite p t c = take p (c @ replicate (p - length c) 0) @ t @ drop (p + length t) c"

definition seek_to :: "byte list \<Rightarrow> nat \<Rightarrow> int \<Rightarrow> int \<Rightarrow> nat option" where
  "seek_to c p offset whence =
     (if whence \<notin> {0, 1, 2} then None
      else let q = offset + (if whence = 0 then 0 else if whence = 1 then int p else int (length c))
           in if q < 0 then None else Some (nat q))"

datatype file_op = Read nat | Seek int int | Write "byte list"

fun file_step :: "file_op \<Rightarrow> byte list \<times> nat \<Rightarrow> (int \<times> byte list) \<times> (byte list \<times> nat)" where
  "file_step (Read n) (c, p) =
     (let t = take n (drop p c) in ((int (length t), t), (c, p + length t)))"
| "file_step (Seek offset whence) (c, p) =
     (case seek_to c p offset whence of None \<Rightarrow> ((- 1, []), (c, p)) | Some q \<Rightarrow> ((int q, []), (c, q)))"
| "file_step (Write t) (c, p) = ((int (length t), []), (overwrite p t c, p + length t))"

fun file_run :: "file_op list \<Rightarrow> byte list \<times> nat \<Rightarrow> (int \<times> byte list) list" where
  "file_run [] f = []"
| "file_run (op # ops) f = fst (file_step op f) # file_run ops (snd (file_step op f))"

fun file_after :: "file_op list \<Rightarrow> byte list \<times> nat \<Rightarrow> byte list \<times> nat" where
  "file_after [] f = f"
| "file_after (op # ops) f = file_after ops (snd (file_step op f))"

text \<open>What the system does with such a file.\<close>

definition regular :: "'k ops \<Rightarrow> int \<Rightarrow> ('k \<Rightarrow> bool) \<Rightarrow> ('k \<Rightarrow> byte list) \<Rightarrow> ('k \<Rightarrow> nat) \<Rightarrow> bool" where
  "regular os fd ok content offset \<longleftrightarrow> (\<forall>k. ok k \<longrightarrow>
     (\<forall>n. let t = take n (drop (offset k) (content k)) in
        \<exists>k'. sys_read os fd n k = (Some t, k') \<and> ok k' \<and> content k' = content k \<and> offset k' = offset k + length t)
     \<and> (\<forall>off whence. case seek_to (content k) (offset k) off whence of
          None \<Rightarrow> \<exists>k'. sys_lseek os fd off whence k = (- 1, k') \<and> ok k' \<and> content k' = content k \<and> offset k' = offset k
        | Some q \<Rightarrow> \<exists>k'. sys_lseek os fd off whence k = (int q, k') \<and> ok k' \<and> content k' = content k \<and> offset k' = q)
     \<and> (\<forall>t. int (length t) < 2 ^ 31 \<longrightarrow> (\<exists>k'. sys_write os fd t k = (int (length t), k') \<and> ok k'
          \<and> content k' = overwrite (offset k) t (content k) \<and> offset k' = offset k + length t)))"

lemma regular_read:
  assumes "regular os fd ok content offset" "ok k"
  obtains k' where "sys_read os fd n k = (Some (take n (drop (offset k) (content k))), k')" "ok k'"
    "content k' = content k" "offset k' = offset k + length (take n (drop (offset k) (content k)))"
  using assms unfolding regular_def Let_def by blast

lemma regular_seek:
  assumes "regular os fd ok content offset" "ok k" "seek_to (content k) (offset k) off whence = Some q"
  obtains k' where "sys_lseek os fd off whence k = (int q, k')" "ok k'" "content k' = content k" "offset k' = q"
proof -
  have "case seek_to (content k) (offset k) off whence of
      None \<Rightarrow> \<exists>k'. sys_lseek os fd off whence k = (- 1, k') \<and> ok k' \<and> content k' = content k \<and> offset k' = offset k
    | Some q \<Rightarrow> \<exists>k'. sys_lseek os fd off whence k = (int q, k') \<and> ok k' \<and> content k' = content k \<and> offset k' = q"
    using assms(1,2) unfolding regular_def by blast
  then show thesis
    using that by (auto simp: assms(3))
qed

lemma regular_seek_None:
  assumes "regular os fd ok content offset" "ok k" "seek_to (content k) (offset k) off whence = None"
  obtains k' where "sys_lseek os fd off whence k = (- 1, k')" "ok k'" "content k' = content k" "offset k' = offset k"
proof -
  have "case seek_to (content k) (offset k) off whence of
      None \<Rightarrow> \<exists>k'. sys_lseek os fd off whence k = (- 1, k') \<and> ok k' \<and> content k' = content k \<and> offset k' = offset k
    | Some q \<Rightarrow> \<exists>k'. sys_lseek os fd off whence k = (int q, k') \<and> ok k' \<and> content k' = content k \<and> offset k' = q"
    using assms(1,2) unfolding regular_def by blast
  then show thesis
    using that by (auto simp: assms(3))
qed

lemma regular_write:
  assumes "regular os fd ok content offset" "ok k" "int (length t) < 2 ^ 31"
  obtains k' where "sys_write os fd t k = (int (length t), k')" "ok k'"
    "content k' = overwrite (offset k) t (content k)" "offset k' = offset k + length t"
  using assms unfolding regular_def by blast

lemma drop_split: "drop p c = take n (drop p c) @ drop (p + length (take n (drop p c))) c"
proof -
  have "drop n (drop p c) = drop (p + length (take n (drop p c))) c"
    by (cases "n \<le> length c - p") (simp_all add: add.commute)
  then show ?thesis
    using append_take_drop_id [of n "drop p c"] by simp
qed

lemma regular_stream:
  assumes "regular os fd ok content offset"
  shows "reads_stream os fd ok (\<lambda>k. drop (offset k) (content k))"
    and "reads_fully os fd ok (\<lambda>k. drop (offset k) (content k))"
proof -
  show "reads_stream os fd ok (\<lambda>k. drop (offset k) (content k))"
    unfolding reads_stream_def
  proof (intro allI impI)
    fix n k
    assume "ok k"
    with assms obtain k' where "sys_read os fd n k = (Some (take n (drop (offset k) (content k))), k')" "ok k'"
        "content k' = content k" "offset k' = offset k + length (take n (drop (offset k) (content k)))"
      by (rule regular_read)
    moreover have "drop (offset k) (content k) = take n (drop (offset k) (content k))
        @ drop (offset k + length (take n (drop (offset k) (content k)))) (content k)"
      by (rule drop_split)
    ultimately show "\<exists>t k'. sys_read os fd n k = (Some t, k') \<and> ok k'
        \<and> drop (offset k) (content k) = t @ drop (offset k') (content k') \<and> length t \<le> n
        \<and> (t = [] \<longrightarrow> n = 0 \<or> drop (offset k) (content k) = [])"
      by auto
  qed
  show "reads_fully os fd ok (\<lambda>k. drop (offset k) (content k))"
    unfolding reads_fully_def
  proof (intro allI impI)
    fix n k t k'
    assume "ok k" and t: "sys_read os fd n k = (Some t, k')"
    from assms \<open>ok k\<close> obtain k2 where "sys_read os fd n k = (Some (take n (drop (offset k) (content k))), k2)"
      by (rule regular_read)
    then show "length t = min n (length (drop (offset k) (content k)))"
      using t by (auto simp: min.commute)
  qed
qed

lemma regular_reads:
  assumes "system_reads os fd k u k'" "regular os fd ok content offset" "ok k"
  shows "ok k' \<and> content k' = content k \<and> offset k' = offset k + length u"
  using assms
proof (induction rule: system_reads.induct)
  case (none k)
  then show ?case by simp
next
  case (more n k t k' u k'')
  from regular_read [OF more.prems] have "ok k' \<and> content k' = content k \<and> offset k' = offset k + length t"
    using more.hyps(1) by (metis Pair_inject option.inject)
  then show ?case
    using more by simp
qed

section \<open>A file behind a buffer\<close>

fun io_step :: "'k ops \<Rightarrow> int \<Rightarrow> file_op \<Rightarrow> ('k, int \<times> byte list) io" where
  "io_step os fd (Read n) = read_io os fd n"
| "io_step os fd (Seek offset whence) = mbind (lseek os fd offset whence) (\<lambda>r. ret (r, []))"
| "io_step os fd (Write t) = mbind (write_io os fd t) (\<lambda>r. ret (r, []))"

fun io_run :: "'k ops \<Rightarrow> int \<Rightarrow> file_op list \<Rightarrow> ('k, (int \<times> byte list) list) io" where
  "io_run os fd [] = ret []"
| "io_run os fd (op # ops) = mbind (io_step os fd op) (\<lambda>r. mbind (io_run os fd ops) (\<lambda>rs. ret (r # rs)))"

text \<open>The position of the system is ahead of that of the file by what is in the buffer.\<close>

definition file_at :: "int \<Rightarrow> ('k \<Rightarrow> bool) \<Rightarrow> ('k \<Rightarrow> byte list) \<Rightarrow> ('k \<Rightarrow> nat) \<Rightarrow> 'k stdio \<Rightarrow> byte list \<times> nat \<Rightarrow> bool" where
  "file_at fd ok content offset s f \<longleftrightarrow> io_ok s \<and> ok (kernel s) \<and> content (kernel s) = fst f
     \<and> offset (kernel s) = snd f + length (unread fd s)
     \<and> drop (snd f) (fst f) = unread fd s @ drop (offset (kernel s)) (fst f)"

fun op_ok :: "file_op \<Rightarrow> bool" where
  "op_ok (Read n) \<longleftrightarrow> True"
| "op_ok (Seek offset whence) \<longleftrightarrow> is_long (offset - READ_BUFFER_MAX) \<and> is_long offset"
| "op_ok (Write t) \<longleftrightarrow> int (length t) < 2 ^ 31"

lemma file_read_step:
  assumes "regular os fd ok content offset" "valid_fd fd" "file_at fd ok content offset s (c, p)"
  shows "\<exists>s'. io_step os fd (Read n) s = Some (Inr (fst (file_step (Read n) (c, p))), s')
    \<and> file_at fd ok content offset s' (snd (file_step (Read n) (c, p)))"
proof -
  let ?rest = "\<lambda>k. drop (offset k) (content k)"
  have s: "io_ok s" "ok (kernel s)" "content (kernel s) = c" "offset (kernel s) = p + length (unread fd s)"
      "stream fd ?rest s = drop p c"
    using assms(3) by (simp_all add: file_at_def stream_def)
  obtain t s' where r: "buffered_read os fd n s = Some (Inr (int (length t), t), s')" "took os fd t s s'"
      "length t = min n (length (drop p c))"
    using buffered_read_ok [OF regular_stream(1) [OF assms(1)] assms(2) s(1,2), of n]
      regular_stream(2) [OF assms(1)] s(5) by auto
  have str: "drop p c = t @ stream fd ?rest s'"
    using took_stream [OF r(2) regular_stream(1) [OF assms(1)] s(2)] s(5) by simp
  have "t = take (length t) (drop p c)"
    unfolding str by simp
  also have "\<dots> = take n (drop p c)"
    unfolding r(3) by (simp add: min_def)
  finally have t: "t = take n (drop p c)" .
  obtain u where u: "system_reads os fd (kernel s) u (kernel s')" "unread fd s @ u = t @ unread fd s'"
    using r(2) by (auto simp: took_def)
  note k = regular_reads [OF u(1) assms(1) s(2)]
  have "length (unread fd s) + length u = length t + length (unread fd s')"
    using u(2) by (metis length_append)
  then have "offset (kernel s') = p + length t + length (unread fd s')"
    using k s(4) by simp
  moreover have "drop (p + length t) c = stream fd ?rest s'"
    using str by (metis drop_drop append_eq_conv_conj add.commute)
  ultimately have "file_at fd ok content offset s' (c, p + length t)"
    using k s(3) r(2) by (simp add: file_at_def took_def stream_def)
  then show ?thesis
    using r(1) t by (simp add: read_io_def Let_def del: length_take)
qed

lemma clear_ok:
  assumes "io_ok s" "valid_fd fd"
  shows "\<exists>s'. buffered_read_clear fd s = Some (Inr (int (length (unread fd s))), s') \<and> io_ok s'
    \<and> unread fd s' = [] \<and> kernel s' = kernel s \<and> put_back s' = put_back s"
proof -
  let ?s = "started s"
  let ?b = "read_cache ?s fd"
  note st = started_facts [OF assms(1)]
  have b: "buffer_ok (read_buffer_max ?s) (?b\<lparr>left := 0\<rparr>)" "buffered (read_buffer_max ?s) (?b\<lparr>left := 0\<rparr>) = []"
    using st(5) st(7) [of fd] by (auto simp: buffer_ok_def buffered_def)
  note c = with_cache_facts [OF st(1,2) b(1), where fd = fd]
  have "unread fd s = buffered (read_buffer_max ?s) ?b"
    using st(2) st(3) [of fd] by (simp add: unread_def)
  then have "int (length (unread fd s)) = left ?b"
    using length_buffered [OF st(7) [of fd] st(6)] st(7) [of fd] by (simp add: buffer_ok_def)
  moreover have "buffered_read_clear fd s = Some (Inr (left ?b), with_cache ?s fd (?b\<lparr>left := 0\<rparr>))"
    using assms(2) by (simp add: buffered_read_clear_def with_cache_def)
  ultimately show ?thesis
    using c b(2) st by auto
qed

lemma unread_short:
  assumes "io_ok s"
  shows "int (length (unread fd s)) \<le> READ_BUFFER_MAX"
proof (cases "cache_made s")
  case True
  then have "buffer_ok (read_buffer_max s) (read_cache s fd)" "read_buffer_max s \<le> READ_BUFFER_MAX"
    using assms by (simp_all add: io_ok_def)
  moreover from this have "left (read_cache s fd) \<le> READ_BUFFER_MAX" "0 \<le> left (read_cache s fd)"
    by (auto simp: buffer_ok_def)
  ultimately show ?thesis
    using True length_buffered [of "read_buffer_max s" "read_cache s fd"] by (simp add: unread_def)
qed (simp add: unread_def READ_BUFFER_MAX_def)

text \<open>A seek that the system can do; \<open>q\<close> is where the file on its own would be.\<close>

lemma file_lseek_ok:
  assumes "regular os fd ok content offset" "valid_fd fd" "file_at fd ok content offset s (c, p)"
    and "seek_to c p off whence = Some q" "is_long (off - READ_BUFFER_MAX)" "is_long off"
  shows "\<exists>s'. lseek os fd off whence s = Some (Inr (int q), s') \<and> file_at fd ok content offset s' (c, q)
    \<and> put_back s' = put_back s \<and> unread fd s' = []"
proof -
  have s: "io_ok s" "ok (kernel s)" "content (kernel s) = c" "offset (kernel s) = p + length (unread fd s)"
    using assms(3) by (simp_all add: file_at_def)
  have "seek_to (content (kernel s)) (offset (kernel s)) 0 1 = Some (offset (kernel s))"
    by (simp add: seek_to_def)
  from regular_seek [OF assms(1) s(2) this] obtain k where
      k: "sys_lseek os fd 0 1 (kernel s) = (int (offset (kernel s)), k)" "ok k" "content k = c" "offset k = offset (kernel s)"
    using s(3) by metis
  let ?s = "s\<lparr>kernel := k\<rparr>"
  obtain s2 where s2: "buffered_read_clear fd ?s = Some (Inr (int (length (unread fd s))), s2)" "io_ok s2"
      "unread fd s2 = []" "kernel s2 = k" "put_back s2 = put_back s"
    using clear_ok [of ?s fd] assms(2) with_kernel_facts [OF s(1)] by auto
  let ?off = "if whence = 1 then to_long (off - int (length (unread fd s))) else off"
  have "is_long (off - int (length (unread fd s)))"
    using assms(5,6) unread_short [OF s(1), of fd] by (auto simp: is_long_def READ_BUFFER_MAX_def)
  then have "seek_to (content k) (offset k) ?off whence = Some q"
    using assms(4) k(3,4) s(4) by (auto simp: seek_to_def Let_def to_long_id split: if_splits)
  from regular_seek [OF assms(1) k(2) this] obtain k' where
      k': "sys_lseek os fd ?off whence k = (int q, k')" "ok k'" "content k' = c" "offset k' = q"
    using k(3) by metis
  have "lseek os fd off whence s = Some (Inr (int q), s2\<lparr>kernel := k'\<rparr>)"
    using k(1) s2(1,4) k'(1) by (simp add: lseek_def)
  moreover have "file_at fd ok content offset (s2\<lparr>kernel := k'\<rparr>) (c, q)"
    using with_kernel_facts [OF s2(2)] s2(3) k' by (simp add: file_at_def)
  ultimately show ?thesis
    using s2(3,5) with_kernel_facts [OF s2(2)] by auto
qed

lemma file_write_ok:
  assumes "regular os fd ok content offset" "valid_fd fd" "file_at fd ok content offset s (c, p)"
    and "int (length t) < 2 ^ 31"
  shows "\<exists>s'. write_io os fd t s = Some (Inr (int (length t)), s')
    \<and> file_at fd ok content offset s' (overwrite p t c, p + length t)"
proof -
  have s: "io_ok s" "ok (kernel s)" "content (kernel s) = c" "offset (kernel s) = p + length (unread fd s)"
    using assms(3) by (simp_all add: file_at_def)
  let ?skip = "int (length (unread fd s))"
  obtain s2 where s2: "buffered_read_clear fd s = Some (Inr ?skip, s2)" "io_ok s2" "unread fd s2 = []" "kernel s2 = kernel s"
    using clear_ok [OF s(1) assms(2)] by auto
  have f2: "file_at fd ok content offset s2 (c, offset (kernel s))"
    using s s2 by (simp add: file_at_def)
  obtain s3 where s3: "(if ?skip \<noteq> 0 then mseq (lseek os fd (- ?skip) 1) (ret ()) else ret ()) s2 = Some (Inr (), s3)"
      "file_at fd ok content offset s3 (c, p)" "unread fd s3 = []"
  proof (cases "?skip = 0")
    case True
    then show ?thesis
      using that [of s2] f2 s2(3) s(4) by simp
  next
    case False
    have "seek_to c (offset (kernel s)) (- ?skip) 1 = Some p"
      using s(4) by (simp add: seek_to_def)
    moreover have "is_long (- ?skip - READ_BUFFER_MAX)" "is_long (- ?skip)"
      using unread_short [OF s(1), of fd] by (simp_all add: is_long_def READ_BUFFER_MAX_def)
    ultimately obtain s3 where "lseek os fd (- ?skip) 1 s2 = Some (Inr (int p), s3)"
        "file_at fd ok content offset s3 (c, p)" "unread fd s3 = []"
      using file_lseek_ok [OF assms(1,2) f2] by blast
    then show ?thesis
      using that [of s3] False by simp
  qed
  have k3: "io_ok s3" "ok (kernel s3)" "content (kernel s3) = c" "offset (kernel s3) = p"
    using s3(2,3) by (simp_all add: file_at_def)
  obtain k where k: "sys_write os fd t (kernel s3) = (int (length t), k)" "ok k" "content k = overwrite p t c"
      "offset k = p + length t"
    using regular_write [OF assms(1) k3(2) assms(4)] k3(3,4) by metis
  let ?s = "s3\<lparr>kernel := k, error_no := 0\<rparr>"
  have io: "io_ok ?s" "unread fd ?s = unread fd s3"
    using with_kernel_facts [OF k3(1)] by (auto simp: io_ok_def unread_def)
  have "to_int (int (length t)) = int (length t)"
    using assms(4) by (simp add: to_int_id is_int_def)
  moreover have "write_io os fd t s = mbind (system (sys_write os fd t)) (\<lambda>r.
     let r = to_int r in
     if r < 0 then mseq (modify (\<lambda>s. s\<lparr>error_no := - r\<rparr>)) (ret (- 1))
     else mseq (modify (\<lambda>s. s\<lparr>error_no := 0\<rparr>)) (ret r)) s3"
    using s2(1) s3(1) by (simp only: write_io_def mseq_def [of "if _ then _ else _"] mbind_Inr)
  ultimately have "write_io os fd t s = Some (Inr (int (length t)), ?s)"
    using k(1) by (simp add: Let_def)
  moreover have "file_at fd ok content offset ?s (overwrite p t c, p + length t)"
    using io s3(3) k by (simp add: file_at_def)
  ultimately show ?thesis by blast
qed

lemma io_run_ok:
  assumes "regular os fd ok content offset" "valid_fd fd"
  shows "file_at fd ok content offset s f \<Longrightarrow> list_all op_ok ops \<Longrightarrow> - 1 \<notin> fst ` set (file_run ops f)
    \<Longrightarrow> \<exists>s'. io_run os fd ops s = Some (Inr (file_run ops f), s')
      \<and> file_at fd ok content offset s' (file_after ops f)"
proof (induction ops arbitrary: s f)
  case Nil
  then show ?case by simp
next
  case (Cons op ops)
  obtain c p where f: "f = (c, p)" by (cases f)
  have "\<exists>s'. io_step os fd op s = Some (Inr (fst (file_step op (c, p))), s')
      \<and> file_at fd ok content offset s' (snd (file_step op (c, p)))"
  proof (cases op)
    case (Read n)
    then show ?thesis
      using file_read_step [OF assms, of s c p n] Cons.prems(1) f by simp
  next
    case (Seek off whence)
    with Cons.prems obtain q where q: "seek_to c p off whence = Some q"
      by (cases "seek_to c p off whence") (auto simp: f)
    then show ?thesis
      using file_lseek_ok [OF assms, of s c p off whence q] Cons.prems f Seek by auto
  next
    case (Write t)
    then show ?thesis
      using file_write_ok [OF assms, of s c p t] Cons.prems f by auto
  qed
  then obtain s' where "io_step os fd op s = Some (Inr (fst (file_step op f)), s')"
      "file_at fd ok content offset s' (snd (file_step op f))"
    using f by auto
  moreover from this obtain s'' where "io_run os fd ops s' = Some (Inr (file_run ops (snd (file_step op f))), s'')"
      "file_at fd ok content offset s'' (file_after ops (snd (file_step op f)))"
    using Cons.IH Cons.prems(2,3) by fastforce
  ultimately show ?case
    by auto
qed

text \<open>A file in memory, which is what the hypothesis describes.\<close>

definition ram :: "(byte list \<times> nat) ops" where
  "ram = \<lparr>sys_read = (\<lambda>fd n (c, p). (Some (take n (drop p c)), (c, p + length (take n (drop p c))))),
     sys_lseek = (\<lambda>fd off whence (c, p). (case seek_to c p off whence of None \<Rightarrow> (- 1, (c, p)) | Some q \<Rightarrow> (int q, (c, q)))),
     sys_write = (\<lambda>fd t (c, p). (int (length t), (overwrite p t c, p + length t))),
     sys_fd = (\<lambda>_ _ k. (0, k)), sys_open = (\<lambda>_ _ _ k. (3, k)), sys_file = (\<lambda>_ _ _ k. (0, k))\<rparr>"

lemma ram_regular: "regular ram fd (\<lambda>_. True) fst snd"
  unfolding regular_def by (auto simp: ram_def split: option.split)

definition opened :: "byte list \<Rightarrow> (byte list \<times> nat) stdio" where
  "opened c = \<lparr>kernel = (c, 0), read_cache = (\<lambda>_. \<lparr>left = 0, buf_chars = []\<rparr>), cache_made = False, read_buffer_max = 0,
     put_back = (\<lambda>_. - 1), env_strings = [], error_no = 0\<rparr>"

lemma opened_at: "file_at fd (\<lambda>_. True) fst snd (opened c) (c, 0)"
  by (simp add: file_at_def opened_def io_ok_def unread_def)

section \<open>Where the buffer shows\<close>

text \<open>A seek that fails has already emptied the buffer: what was in it is skipped.\<close>

lemma failed_seek_skips:
  assumes "regular os fd ok content offset" "valid_fd fd" "file_at fd ok content offset s (c, p)"
    and "seek_to c p off whence = None" "is_long (off - READ_BUFFER_MAX)" "is_long off"
  shows "\<exists>s'. lseek os fd off whence s = Some (Inr (- 1), s')
    \<and> file_at fd ok content offset s' (c, p + length (unread fd s))"
proof -
  have s: "io_ok s" "ok (kernel s)" "content (kernel s) = c" "offset (kernel s) = p + length (unread fd s)"
    using assms(3) by (simp_all add: file_at_def)
  have "seek_to (content (kernel s)) (offset (kernel s)) 0 1 = Some (offset (kernel s))"
    by (simp add: seek_to_def)
  from regular_seek [OF assms(1) s(2) this] obtain k where
      k: "sys_lseek os fd 0 1 (kernel s) = (int (offset (kernel s)), k)" "ok k" "content k = c" "offset k = offset (kernel s)"
    using s(3) by metis
  let ?s = "s\<lparr>kernel := k\<rparr>"
  obtain s2 where s2: "buffered_read_clear fd ?s = Some (Inr (int (length (unread fd s))), s2)" "io_ok s2"
      "unread fd s2 = []" "kernel s2 = k"
    using clear_ok [of ?s fd] assms(2) with_kernel_facts [OF s(1)] by auto
  let ?off = "if whence = 1 then to_long (off - int (length (unread fd s))) else off"
  have "is_long (off - int (length (unread fd s)))"
    using assms(5,6) unread_short [OF s(1), of fd] by (auto simp: is_long_def READ_BUFFER_MAX_def)
  then have "seek_to (content k) (offset k) ?off whence = None"
    using assms(4) k(3,4) s(4) by (auto simp: seek_to_def Let_def to_long_id split: if_splits)
  from regular_seek_None [OF assms(1) k(2) this] obtain k' where
      k': "sys_lseek os fd ?off whence k = (- 1, k')" "ok k'" "content k' = c" "offset k' = offset k"
    using k(3) by metis
  have "lseek os fd off whence s = Some (Inr (- 1), s2\<lparr>kernel := k'\<rparr>)"
    using k(1) s2(1,4) k'(1) by (simp add: lseek_def)
  moreover have "file_at fd ok content offset (s2\<lparr>kernel := k'\<rparr>) (c, p + length (unread fd s))"
    using with_kernel_facts [OF s2(2)] s2(3) k' k(4) s(4) by (simp add: file_at_def)
  ultimately show ?thesis by blast
qed

text \<open>
  When the system fails behind a part that was in the buffer, the result is one less than the number
  of bytes that were delivered.
\<close>

lemma partial_read_loses_byte:
  assumes "io_ok s" "cache_made s" "valid_fd fd" "unread fd s \<noteq> []"
    and "int (length (unread fd s)) + read_buffer_max s < int n" "\<And>n k. fst (sys_read os fd n k) = None"
  shows "\<exists>s'. buffered_read os fd n s = Some (Inr (int (length (unread fd s)) - 1, unread fd s), s')"
proof -
  let ?b = "read_cache s fd"
  let ?todo = "n - length (unread fd s)"
  have s: "started s = s" "buffer_ok (read_buffer_max s) ?b" "read_buffer_max s \<le> READ_BUFFER_MAX"
      "0 \<le> read_buffer_max s" "unread fd s = buffered (read_buffer_max s) ?b"
    using assms(1,2) by (simp_all add: started_def io_ok_def unread_def)
  have len: "length (unread fd s) = nat (left ?b)" "left ?b \<noteq> 0"
    using length_buffered [OF s(2,3)] assms(4) s(5) by auto
  have all: "take n (unread fd s) = unread fd s"
    using assms(5) s(4) by simp
  obtain k where k: "sys_read os fd ?todo (kernel s) = (None, k)"
    using assms(6) [of ?todo "kernel s"] by (metis prod.collapse)
  have todo: "length (unread fd s) < n" "read_buffer_max s < int n - int (length (unread fd s))"
    using assms(5) s(4) by simp_all
  show ?thesis
    using take_cached_ok [OF s(2,3), of n s] assms(3) len k todo all
    by (subst buffered_read.simps) (simp add: s(1) s(5) [symmetric] of_nat_diff Let_def)
qed

section \<open>Characters\<close>

lemma fgetc_ok:
  assumes "reads_stream os fd ok rest" "valid_fd fd" "io_ok s" "ok (kernel s)" "put_back s fd < 0"
  shows "\<exists>s'. fgetc os fd s = Some (Inr (case stream fd rest s of [] \<Rightarrow> - 1 | b # t \<Rightarrow> uint b), s')
    \<and> io_ok s' \<and> ok (kernel s') \<and> stream fd rest s' = tl (stream fd rest s) \<and> put_back s' = put_back s"
proof -
  obtain t s' where r: "buffered_read os fd 1 s = Some (Inr (int (length t), t), s')" "took os fd t s s'"
      "length t \<le> 1" "t = [] \<Longrightarrow> stream fd rest s = []"
    using buffered_read_ok [OF assms(1-4), of 1] by auto
  have str: "stream fd rest s = t @ stream fd rest s'" "ok (kernel s')"
    using took_stream [OF r(2) assms(1,4)] by simp_all
  have s': "io_ok s'" "put_back s' = put_back s"
    using r(2) by (simp_all add: took_def)
  have get: "ungetc_get fd s = Some (Inr (put_back s fd), s)"
    using assms(2) by (simp add: ungetc_get_def valid_fd_def)
  have byte: "(if sint b < 0 then sint b + 256 else sint b) = uint b" for b :: byte
  proof -
    have "uint b = sint b mod 2 ^ LENGTH(8)"
      by (simp add: uint_sint take_bit_eq_mod)
    moreover have "- 128 \<le> sint b" "sint b < 128"
      using sint_range_size [of b] by (simp_all add: word_size)
    ultimately show ?thesis
      by (auto simp: mod_pos_pos_trivial) (smt (verit) mod_add_self2 mod_pos_pos_trivial)
  qed
  show ?thesis
  proof (cases t)
    case Nil
    then show ?thesis
      using r(1,4) str s' get assms(5) by (simp add: fgetc_def fdgetc_io_def read_io_def)
  next
    case (Cons b u)
    then have "t = [b]"
      using r(3) by simp
    then show ?thesis
      using r(1) str s' get assms(5) byte [of b]
      by (auto simp: fgetc_def fdgetc_io_def read_io_def head_char_def Let_def)
  qed
qed

text \<open>A character that is put back is the next one, and a seek does not take it away.\<close>

lemma ungetc_fgetc:
  assumes "valid_fd fd" "put_back s fd < 0" "0 \<le> c"
  shows "\<exists>s'. ungetc c fd s = Some (Inr c, s') \<and> fgetc os fd s' = Some (Inr c, s'\<lparr>put_back := (put_back s)(fd := - 1)\<rparr>)
    \<and> s' = s\<lparr>put_back := (put_back s)(fd := c)\<rparr>"
  using assms
  by (simp add: ungetc_def fdungetc_io_def ungetc_get_def ungetc_put_def valid_fd_def fgetc_def fdgetc_io_def)

lemma fseek_keeps_character:
  assumes "regular os fd ok content offset" "valid_fd fd" "file_at fd ok content offset s (c, p)"
    and "seek_to c p off whence = Some q" "is_long (off - READ_BUFFER_MAX)" "is_long off" "0 \<le> put_back s fd"
  shows "\<exists>s' s''. fseek os fd off whence s = Some (Inr 0, s') \<and> fgetc os fd s' = Some (Inr (put_back s fd), s'')"
proof -
  obtain s' where "lseek os fd off whence s = Some (Inr (int q), s')" "put_back s' = put_back s"
    using file_lseek_ok [OF assms(1-6)] by blast
  then show ?thesis
    using assms(2,7)
    by (simp add: fseek_def fgetc_def fdgetc_io_def ungetc_get_def ungetc_put_def valid_fd_def)
qed

end
