(* ===== verification/Mes_Getopt.thy ===== *)
theory Mes_Getopt
  imports Mes_Libc
begin

text \<open>
  \<^verbatim>\<open>getopt\<close> of lib/posix/getopt.c. The strings are byte lists without their null byte, and a
  pointer into a string is what is left of it from there. \<^verbatim>\<open>argc\<close> is the length of the vector;
  its null pointer behind the last string faults when it is followed. The variables of the file are
  the fields of the state; messages for stderr and values stored through \<^verbatim>\<open>flag\<close> are collected.
\<close>

section \<open>State and options\<close>

record getopt_state =
  optarg :: "byte list option"
  optind :: int
  nextchar :: "byte list option"
  opterr :: bool
  first_nonopt :: int
  last_nonopt :: int
  longind :: int
  flags_set :: "(nat \<times> int) list"
  messages :: "byte list"

record long_option =
  opt_name :: "byte list"
  has_arg :: int
  opt_flag :: "nat option"
  opt_val :: int

type_synonym 'a gm = "(getopt_state, 'a) m"

definition question :: int where "question = 63"

definition bytes_of :: "string \<Rightarrow> byte list" where
  "bytes_of t = map (\<lambda>c. of_nat (of_char c)) t"

definition say :: "byte list \<Rightarrow> unit gm" where
  "say t = mbind (gets opterr) (\<lambda>e. if e then modify (\<lambda>s. s\<lparr>messages := messages s @ t @ [10]\<rparr>) else ret ())"

definition set_optarg :: "byte list option \<Rightarrow> unit gm" where
  "set_optarg t = modify (\<lambda>s. s\<lparr>optarg := t\<rparr>)"

definition set_nextchar :: "byte list option \<Rightarrow> unit gm" where
  "set_nextchar t = modify (\<lambda>s. s\<lparr>nextchar := t\<rparr>)"

definition next_element :: "unit gm" where
  "next_element = modify (\<lambda>s. s\<lparr>optind := to_int (optind s + 1)\<rparr>)"

definition argument :: "byte list list \<Rightarrow> int \<Rightarrow> byte list gm" where
  "argument argv i = (if 0 \<le> i \<and> i < int (length argv) then ret (argv ! nat i) else fail Segv)"

section \<open>Long options\<close>

text \<open>
  The loop over \<^verbatim>\<open>longopts\<close>: the option that is found with its index, whether it is exact,
  and whether a second one fits.
\<close>

fun find_long ::
    "byte list \<Rightarrow> nat \<Rightarrow> long_option list \<Rightarrow> int \<Rightarrow> (long_option \<times> int) option \<Rightarrow> bool
      \<Rightarrow> (long_option \<times> int) option \<times> bool \<times> bool" where
  "find_long next n [] i found ambig = (found, False, ambig)"
| "find_long next n (p # ps) i found ambig =
     (if strncmp (opt_name p) next n = 0
      then if n = length (opt_name p) then (Some (p, i), True, ambig)
           else if found = None then find_long next n ps (i + 1) (Some (p, i)) ambig
           else find_long next n ps (i + 1) found True
      else find_long next n ps (i + 1) found ambig)"

definition prefix_of :: "byte list \<Rightarrow> byte list list \<Rightarrow> byte list" where
  "prefix_of arg argv = hd argv @ bytes_of '': '' @ arg"

text \<open>An option that was found; \<open>rest\<close> is from the equals sign on.\<close>

definition found_long :: "byte list list \<Rightarrow> byte list \<Rightarrow> long_option \<Rightarrow> int \<Rightarrow> int gm" where
  "found_long argv rest p i =
     mseq next_element
     (let found = mseq (set_nextchar (Some []))
                  (mseq (modify (\<lambda>s. s\<lparr>longind := i\<rparr>))
                  (case opt_flag p of
                     Some f \<Rightarrow> mseq (modify (\<lambda>s. s\<lparr>flags_set := flags_set s @ [(f, opt_val p)]\<rparr>)) (ret 0)
                   | None \<Rightarrow> ret (opt_val p)))
      in if rest \<noteq> []
         then if has_arg p \<noteq> 0 then mseq (set_optarg (Some (tl rest))) found
              else mbind (gets optind) (\<lambda>oi. mbind (argument argv (oi - 1)) (\<lambda>a.
                   mseq (say (prefix_of (bytes_of ''option `''
                                @ (if head_char (tl a) = 45 then [45, 45] else [hd a])
                                @ opt_name p @ [39] @ bytes_of '' doesn't allow an argument'') argv))
                   (mseq (set_nextchar (Some [])) (ret question))))
         else if has_arg p = 1
         then mbind (gets optind) (\<lambda>oi.
              if oi < int (length argv)
              then mbind (argument argv oi) (\<lambda>a. mseq (set_optarg (Some a)) (mseq next_element found))
              else mbind (argument argv (oi - 1)) (\<lambda>a.
                   mseq (say (prefix_of (bytes_of ''option `'' @ a @ [39] @ bytes_of '' requires an argument'') argv))
                   (mseq (set_nextchar (Some [])) (ret question))))
         else found)"

section \<open>Short options\<close>

definition strchr_list :: "byte list \<Rightarrow> int \<Rightarrow> byte list option" where
  "strchr_list t c = (case dropWhile (\<lambda>b. sint b \<noteq> c) t of [] \<Rightarrow> None | t' \<Rightarrow> Some t')"

definition short_option :: "byte list list \<Rightarrow> byte list \<Rightarrow> int gm" where
  "short_option argv optstring =
     mbind (gets nextchar) (\<lambda>next.
     case next of
       None \<Rightarrow> fail Segv
     | Some [] \<Rightarrow> fail Segv
     | Some (b # next) \<Rightarrow>
         let c = sint b; temp = strchr_list optstring c in
         mseq (set_nextchar (Some next))
         (mseq (if next = [] then next_element else ret ())
         (case temp of
            None \<Rightarrow> mseq (say (prefix_of (if c < 32 \<or> c \<ge> 127
                              then bytes_of ''unrecognized option, character code 0'' @ (if c < 0 then 45 # ntoab_digits 8 (- c) [] else ntoab_digits 8 c [])
                              else bytes_of ''unrecognized option `-'' @ [b, 39]) argv)) (ret question)
          | Some temp \<Rightarrow>
              if c = 58
              then mseq (say (prefix_of (bytes_of ''unrecognized option `-'' @ [b, 39]) argv)) (ret question)
              else if head_char (tl temp) = 58
              then if head_char (tl (tl temp)) = 58
                   then mseq (if next \<noteq> [] then mseq (set_optarg (Some next)) next_element else set_optarg None)
                        (mseq (set_nextchar None) (ret c))
                   else if next \<noteq> []
                   then mseq (set_optarg (Some next)) (mseq next_element (mseq (set_nextchar None) (ret c)))
                   else mbind (gets optind) (\<lambda>oi.
                        if oi = int (length argv)
                        then mseq (say (prefix_of (bytes_of ''option `-'' @ [b, 39] @ bytes_of '' requires an argument'') argv))
                             (mseq (set_nextchar None) (ret question))
                        else mbind (argument argv oi) (\<lambda>a.
                             mseq (set_optarg (Some a)) (mseq next_element (mseq (set_nextchar None) (ret c)))))
              else ret c)))"

section \<open>getopt\<close>

text \<open>
  \<^verbatim>\<open>_getopt_internal\<close>; \<open>longopts\<close> is \<open>None\<close> for the null pointer. The result -1 is \<^verbatim>\<open>EOF\<close>.
\<close>

definition start_getopt :: "unit gm" where
  "start_getopt =
     mseq (set_optarg None)
     (modify (\<lambda>s. if optind s = 0 then s\<lparr>optind := 1, first_nonopt := 1, last_nonopt := 1, nextchar := None\<rparr> else s))"

text \<open>A new element is begun when the last one is used up; \<open>False\<close> says that there is no option.\<close>

definition begin_element :: "byte list list \<Rightarrow> bool \<Rightarrow> bool gm" where
  "begin_element argv long_p =
     mbind (gets nextchar) (\<lambda>next.
     if next \<noteq> None \<and> next \<noteq> Some [] then ret True
     else mbind (gets optind) (\<lambda>oi.
          if oi = int (length argv)
          then mseq (modify (\<lambda>s. if first_nonopt s \<noteq> last_nonopt s then s\<lparr>optind := first_nonopt s\<rparr> else s)) (ret False)
          else mbind (argument argv oi) (\<lambda>a.
               if head_char a \<noteq> 45 \<or> tl a = [] then ret False
               else mseq (set_nextchar (Some (drop (if long_p \<and> head_char (tl a) = 45 then 2 else 1) a))) (ret True))))"

text \<open>The option that begins at \<^verbatim>\<open>nextchar\<close>; \<open>a\<close> is the element that it is in.\<close>

definition take_long ::
    "byte list list \<Rightarrow> byte list \<Rightarrow> long_option list \<Rightarrow> bool \<Rightarrow> byte list \<Rightarrow> byte list \<Rightarrow> int gm" where
  "take_long argv optstring opts long_only a next =
     (let name = takeWhile (\<lambda>b. b \<noteq> 61) next;
          (found, exact, ambig) = find_long next (length name) opts 0 None False
      in if ambig \<and> \<not> exact
         then mseq (say (prefix_of (bytes_of ''option `'' @ a @ [39] @ bytes_of '' is ambiguous'') argv))
              (mseq (set_nextchar (Some [])) (mseq next_element (ret question)))
         else case found of
           Some (p, i) \<Rightarrow> found_long argv (drop (length name) next) p i
         | None \<Rightarrow>
             if \<not> long_only \<or> head_char (tl a) = 45 \<or> strchr_list optstring (head_char next) = None
             then mseq (say (prefix_of (bytes_of ''unrecognized option `''
                          @ (if head_char (tl a) = 45 then [45, 45] else [hd a]) @ next @ [39]) argv))
                  (mseq (set_nextchar (Some [])) (mseq next_element (ret question)))
             else short_option argv optstring)"

definition take_option ::
    "byte list list \<Rightarrow> byte list \<Rightarrow> long_option list option \<Rightarrow> bool \<Rightarrow> int gm" where
  "take_option argv optstring longopts long_only =
     (case longopts of
       None \<Rightarrow> short_option argv optstring
     | Some opts \<Rightarrow>
         mbind (gets optind) (\<lambda>oi. mbind (argument argv oi) (\<lambda>a.
         if head_char a = 45 \<and> (head_char (tl a) = 45 \<or> long_only)
         then mbind (gets nextchar) (\<lambda>n.
              take_long argv optstring opts long_only a (case n of None \<Rightarrow> [] | Some t \<Rightarrow> t))
         else short_option argv optstring)))"

definition getopt_internal ::
    "byte list list \<Rightarrow> byte list \<Rightarrow> long_option list option \<Rightarrow> bool \<Rightarrow> int gm" where
  "getopt_internal argv optstring longopts long_only =
     mseq start_getopt
     (mbind (begin_element argv (longopts \<noteq> None)) (\<lambda>go.
     if \<not> go then ret (- 1) else take_option argv optstring longopts long_only))"

definition getopt :: "byte list list \<Rightarrow> byte list \<Rightarrow> int gm" where
  "getopt argv options = getopt_internal argv options None False"

definition getopt_long :: "byte list list \<Rightarrow> byte list \<Rightarrow> long_option list \<Rightarrow> int gm" where
  "getopt_long argv options long_options = getopt_internal argv options (Some long_options) False"

definition getopt_long_only :: "byte list list \<Rightarrow> byte list \<Rightarrow> long_option list \<Rightarrow> int gm" where
  "getopt_long_only argv options long_options = getopt_internal argv options (Some long_options) True"

end
