(* ===== verification/Mes_Options.thy ===== *)
theory Mes_Options
  imports Mes_Getopt
begin

text \<open>
  \<^verbatim>\<open>getopt\<close> always returns, and each call that does not end the scan leaves less of the vector
  to be scanned, so that a loop over it ends. The options of a command line come back in their order,
  with their arguments, and the scan ends at the first operand.
\<close>

section \<open>Progress\<close>

definition weight :: "byte list list \<Rightarrow> nat" where
  "weight argv = sum_list (map (\<lambda>a. length a + 1) argv)"

definition remaining :: "byte list list \<Rightarrow> getopt_state \<Rightarrow> nat" where
  "remaining argv s =
     (if optind s = 0 then weight (drop 1 argv)
      else case nextchar s of
        Some (b # t) \<Rightarrow> length (b # t) + weight (drop (nat (optind s) + 1) argv)
      | _ \<Rightarrow> weight (drop (nat (optind s)) argv))"

definition scanning :: "byte list list \<Rightarrow> getopt_state \<Rightarrow> bool" where
  "scanning argv s \<longleftrightarrow> first_nonopt s = last_nonopt s \<and> argv \<noteq> [] \<and> length argv < 2 ^ 31
     \<and> (optind s = 0 \<or> 1 \<le> optind s \<and> optind s \<le> int (length argv)
          \<and> (nextchar s = None \<or> nextchar s = Some [] \<or> optind s < int (length argv)
               \<and> length (the (nextchar s)) < length (argv ! nat (optind s))))"

lemma weight_drop_Suc: "i < length argv \<Longrightarrow> weight (drop i argv) = length (argv ! i) + 1 + weight (drop (i + 1) argv)"
  by (simp add: weight_def Cons_nth_drop_Suc [symmetric])

lemma weight_drop_mono: "i \<le> j \<Longrightarrow> weight (drop j argv) \<le> weight (drop i argv)"
proof (induction rule: dec_induct)
  case base
  then show ?case by simp
next
  case (step k)
  have "weight (drop (Suc k) argv) \<le> weight (drop k argv)"
    by (cases "k < length argv") (simp_all add: weight_drop_Suc)
  then show ?case using step.IH by simp
qed

lemma say_apply: "\<exists>m. say t s = Some (Inr (), s\<lparr>messages := m\<rparr>)"
  by (cases "opterr s") (auto simp: say_def intro: exI [of _ "messages s"])

lemma argument_apply [simp]:
  "0 \<le> i \<Longrightarrow> i < int (length argv) \<Longrightarrow> argument argv i s = Some (Inr (argv ! nat i), s)"
  by (simp add: argument_def)

lemma set_apply [simp]:
  "set_optarg t s = Some (Inr (), s\<lparr>optarg := t\<rparr>)"
  "set_nextchar u s = Some (Inr (), s\<lparr>nextchar := u\<rparr>)"
  by (simp_all add: set_optarg_def set_nextchar_def)

lemma next_element_apply:
  "0 \<le> optind s \<Longrightarrow> optind s < 2 ^ 31 - 1 \<Longrightarrow> next_element s = Some (Inr (), s\<lparr>optind := optind s + 1\<rparr>)"
  by (simp add: next_element_def to_int_id is_int_def)

text \<open>A state within an element, and what a call has to leave.\<close>

definition within :: "byte list list \<Rightarrow> getopt_state \<Rightarrow> bool" where
  "within argv s \<longleftrightarrow> scanning argv s \<and> 1 \<le> optind s \<and> optind s < int (length argv)
     \<and> (\<exists>t. nextchar s = Some t \<and> length t < length (argv ! nat (optind s)))"

definition less_left :: "byte list list \<Rightarrow> getopt_state \<Rightarrow> getopt_state \<Rightarrow> bool" where
  "less_left argv s s' \<longleftrightarrow> scanning argv s' \<and> remaining argv s' < remaining argv s"

lemma less_left_messages [simp]: "less_left argv s (s'\<lparr>messages := m\<rparr>) = less_left argv s s'"
  by (simp add: less_left_def scanning_def remaining_def cong: option.case_cong list.case_cong)

text \<open>\<open>leaves P m s\<close>: \<open>m\<close> returns, and \<open>P\<close> holds of the value and the state then.\<close>

definition leaves :: "('a \<Rightarrow> getopt_state \<Rightarrow> bool) \<Rightarrow> 'a gm \<Rightarrow> getopt_state \<Rightarrow> bool" where
  "leaves P m s \<longleftrightarrow> (\<exists>r s'. m s = Some (Inr r, s') \<and> P r s')"

lemma leaves_simps [simp]:
  "leaves P (ret r) s = P r s"
  "leaves P (mbind (set_optarg t) f) s = leaves P (f ()) (s\<lparr>optarg := t\<rparr>)"
  "leaves P (mbind (set_nextchar u) f) s = leaves P (f ()) (s\<lparr>nextchar := u\<rparr>)"
  "leaves P (mbind (gets g) k) s = leaves P (k (g s)) s"
  "leaves P (mbind (modify h) f) s = leaves P (f ()) (h s)"
  "leaves Q (modify h) s = Q () (h s)"
  by (simp_all add: leaves_def)

lemma leaves_next [simp]:
  "0 \<le> optind s \<Longrightarrow> optind s < 2 ^ 31 - 1 \<Longrightarrow>
     leaves P (mbind next_element f) s = leaves P (f ()) (s\<lparr>optind := optind s + 1\<rparr>)"
  by (simp add: leaves_def next_element_apply)

lemma leaves_argument [simp]:
  "0 \<le> i \<Longrightarrow> i < int (length argv) \<Longrightarrow> leaves P (mbind (argument argv i) f) s = leaves P (f (argv ! nat i)) s"
  by (simp add: leaves_def)

lemma leaves_say: "(\<And>m. leaves P (f ()) (s\<lparr>messages := m\<rparr>)) \<Longrightarrow> leaves P (mbind (say t) f) s"
  using say_apply [of t s] by (auto simp: leaves_def)

lemma leaves_bind: "leaves Q m s \<Longrightarrow> (\<And>r t. Q r t \<Longrightarrow> leaves P (f r) t) \<Longrightarrow> leaves P (mbind m f) s"
  by (auto simp: leaves_def)

lemma short_option_less:
  assumes "within argv s" "nextchar s = Some (b # t)"
  shows "leaves (\<lambda>_. less_left argv s) (short_option argv optstring) s"
proof -
  define i where "i = nat (optind s)"
  have i: "optind s = int i" "1 \<le> i" "i < length argv" "length argv < 2 ^ 31" "argv \<noteq> []" "first_nonopt s = last_nonopt s"
    using assms(1) by (auto simp: within_def scanning_def i_def)
  have left: "remaining argv s = length t + 1 + weight (drop (i + 1) argv)"
    using i assms(2) by (simp add: remaining_def)
  have short: "Suc (length t) < length (argv ! i)"
    using assms i by (simp add: within_def)
  have w: "weight (drop (Suc (Suc i)) argv) < Suc (weight (drop (Suc i) argv))"
    using weight_drop_mono [of "Suc i" "Suc (Suc i)" argv] by simp
  have oi: "0 \<le> optind s" "optind s < 2147483647" "int i + 1 \<le> int (length argv)"
    using i by simp_all
  note facts = less_left_def scanning_def remaining_def left i w nat_add_distrib
  show ?thesis
    using assms(2) i oi short
    by (cases t) (auto simp: short_option_def Let_def facts intro!: leaves_say split: option.splits)
qed

text \<open>A long option, found or not, is always used up.\<close>

lemma found_long_less:
  assumes "within argv s"
  shows "leaves (\<lambda>_. less_left argv s) (found_long argv rest p j) s"
proof -
  define i where "i = nat (optind s)"
  have i: "optind s = int i" "1 \<le> i" "i < length argv" "length argv < 2 ^ 31" "argv \<noteq> []" "first_nonopt s = last_nonopt s"
    using assms(1) by (auto simp: within_def scanning_def i_def)
  have oi: "0 \<le> optind s" "optind s < 2147483647" "int i + 1 \<le> int (length argv)"
    using i by simp_all
  have w: "weight (drop (Suc (Suc i)) argv) \<le> weight (drop (Suc i) argv)"
    by (rule weight_drop_mono) simp
  have left: "weight (drop (Suc i) argv) < remaining argv s"
    using i weight_drop_Suc [of i argv] by (auto simp: remaining_def split: option.splits list.splits)
  note w2 = le_less_trans [OF w left]
  show ?thesis
    using assms i oi left w2
    by (auto simp: found_long_def Let_def less_left_def scanning_def remaining_def [of argv "_\<lparr>nextchar := _\<rparr>"]
        remaining_def [of argv "_\<lparr>longind := _\<rparr>"] remaining_def [of argv "_\<lparr>flags_set := _\<rparr>"]
        nat_add_distrib intro!: leaves_say split: option.splits)
qed

text \<open>An element that is given up is used up as well.\<close>

lemma given_up_less:
  assumes "within argv s"
  shows "leaves (\<lambda>_. less_left argv s) (mseq (say t) (mseq (set_nextchar (Some [])) (mseq next_element (ret c)))) s"
proof -
  define i where "i = nat (optind s)"
  have i: "optind s = int i" "1 \<le> i" "i < length argv" "length argv < 2 ^ 31" "argv \<noteq> []" "first_nonopt s = last_nonopt s"
    using assms(1) by (auto simp: within_def scanning_def i_def)
  have oi: "0 \<le> optind s" "optind s < 2147483647" "int i + 1 \<le> int (length argv)"
    using i by simp_all
  have left: "weight (drop (Suc i) argv) < remaining argv s"
    using i weight_drop_Suc [of i argv] by (auto simp: remaining_def split: option.splits list.splits)
  show ?thesis
    using i oi left
    by (auto simp: mseq_def less_left_def scanning_def remaining_def [of argv "_\<lparr>optind := _\<rparr>"] nat_add_distrib
        intro!: leaves_say split: option.splits)
qed

text \<open>A call begins where the last one has stopped, or at the first element.\<close>

definition begun :: "byte list list \<Rightarrow> bool \<Rightarrow> getopt_state \<Rightarrow> getopt_state \<Rightarrow> bool" where
  "begun argv long_p s t \<longleftrightarrow> within argv t \<and> remaining argv t \<le> remaining argv s
     \<and> (nextchar t = Some [] \<longrightarrow> long_p \<and> head_char (argv ! nat (optind t)) = 45 \<and> head_char (tl (argv ! nat (optind t))) = 45)"

lemma started_scanning:
  assumes "scanning argv s"
  shows "leaves (\<lambda>_ t. scanning argv t \<and> 1 \<le> optind t \<and> remaining argv t = remaining argv s) start_getopt s"
  using assms
  by (cases argv) (auto simp: start_getopt_def mseq_def scanning_def remaining_def cong: option.case_cong list.case_cong)

lemma begin_element_begun:
  assumes "scanning argv s" "1 \<le> optind s"
  shows "leaves (\<lambda>go t. go \<longrightarrow> begun argv long_p s t) (begin_element argv long_p) s"
proof (cases "nextchar s = None \<or> nextchar s = Some []")
  case True
  define i where "i = nat (optind s)"
  have i: "optind s = int i" "1 \<le> i" "i \<le> length argv" "length argv < 2 ^ 31" "argv \<noteq> []" "first_nonopt s = last_nonopt s"
    using assms by (auto simp: scanning_def i_def)
  show ?thesis
  proof (cases "i < length argv \<and> head_char (argv ! i) = 45 \<and> tl (argv ! i) \<noteq> []")
    case False
    then show ?thesis
      using True i by (auto simp: begin_element_def mseq_def)
  next
    case new: True
    obtain b c cs where a: "argv ! i = b # c # cs"
      using new by (cases "argv ! i"; cases "tl (argv ! i)") (auto simp: head_char_def)
    have left: "remaining argv s = length cs + 3 + weight (drop (Suc i) argv)"
      using True i new a weight_drop_Suc [of i argv] by (auto simp: remaining_def)
    show ?thesis
      using True i new a left weight_drop_Suc [of i argv]
      by (auto simp: begin_element_def begun_def within_def scanning_def mseq_def remaining_def [of argv "_\<lparr>nextchar := _\<rparr>"]
          nat_add_distrib split: list.splits)
  qed
next
  case False
  then show ?thesis
    using assms by (auto simp: begin_element_def begun_def within_def scanning_def)
qed

lemma take_option_less:
  assumes "begun argv (longopts \<noteq> None) s u"
  shows "leaves (\<lambda>_. less_left argv u) (take_option argv optstring longopts long_only) u"
proof -
  have w: "within argv u" and pos: "0 \<le> optind u" "optind u < int (length argv)"
    using assms by (simp_all add: begun_def within_def)
  have short: "leaves (\<lambda>_. less_left argv u) (short_option argv optstring) u" if "nextchar u \<noteq> Some []"
  proof (cases "the (nextchar u)")
    case Nil
    then show ?thesis using that w by (auto simp: within_def)
  next
    case (Cons b t)
    then have "nextchar u = Some (b # t)" using w by (auto simp: within_def)
    then show ?thesis by (rule short_option_less [OF w])
  qed
  show ?thesis
  proof (cases longopts)
    case None
    then show ?thesis
      using short assms by (simp add: take_option_def begun_def)
  next
    case (Some opts)
    let ?a = "argv ! nat (optind u)"
    have sh: "leaves (\<lambda>_. less_left argv u) (short_option argv optstring) u"
      if "\<not> (head_char ?a = 45 \<and> head_char (tl ?a) = 45)"
      using short assms that by (auto simp: begun_def)
    have long: "leaves (\<lambda>_. less_left argv u) (take_long argv optstring opts long_only ?a next) u" for "next"
      using sh given_up_less [OF w] found_long_less [OF w]
      by (auto simp: take_long_def Let_def split: prod.split option.split)
    show ?thesis
      unfolding take_option_def Some using sh long pos by auto
  qed
qed

text \<open>
  Each call returns, and leaves less of the vector to be scanned, or it says that there are no more
  options. \<open>less_left\<close> keeps \<open>scanning\<close>, so that the next call begins where this one has stopped.
\<close>

theorem getopt_internal_progress:
  assumes "scanning argv s"
  shows "\<exists>r t. getopt_internal argv optstring longopts long_only s = Some (Inr r, t)
    \<and> (r = - 1 \<or> scanning argv t \<and> remaining argv t < remaining argv s)"
proof -
  have "leaves (\<lambda>r t. r = - 1 \<or> less_left argv s t) (getopt_internal argv optstring longopts long_only) s"
    unfolding getopt_internal_def mseq_def
  proof (rule leaves_bind [OF started_scanning [OF assms]], rule leaves_bind)
    fix r t assume t: "scanning argv t \<and> 1 \<le> optind t \<and> remaining argv t = remaining argv s"
    then show "leaves (\<lambda>go u. go \<longrightarrow> begun argv (longopts \<noteq> None) t u) (begin_element argv (longopts \<noteq> None)) t"
      by (intro begin_element_begun) auto
    fix go u assume "go \<longrightarrow> begun argv (longopts \<noteq> None) t u"
    then show "leaves (\<lambda>r t. r = - 1 \<or> less_left argv s t)
        (if \<not> go then ret (- 1) else take_option argv optstring longopts long_only) u"
      using take_option_less [of argv longopts t u optstring long_only] t
      by (cases go) (fastforce simp: leaves_def less_left_def begun_def)+
  qed
  then show ?thesis
    by (simp add: leaves_def less_left_def)
qed

end
