(* ===== verification/Spec2Isabelle.thy ===== *)
theory Spec2Isabelle
  imports Mes_Examples Mes_Bench Mes_Page Mes_Div Mes_Qsort Mes_Printf Mes_Buffer Mes_Options
begin

text \<open>
  GNU Mes: the Scheme interpreter of src/src, modelled and verified. The model follows the C code
  of the 64-bit build with gcc (\<^verbatim>\<open>M2_CELL_SIZE\<close> 1, \<^verbatim>\<open>long\<close> and pointers of 64 bits,
  \<^verbatim>\<open>int\<close> of 32 bits, \<^verbatim>\<open>char\<close> signed) with \<^verbatim>\<open>g_debug\<close> 0. It is a shallow embedding:
  each C function, and each label of \<^verbatim>\<open>eval_apply\<close>, is a definition of the same name. A name of
  the C code that ends in an underscore ends in \<open>_c\<close> here, and one that is taken ends in \<open>_proc\<close>.

  The machine. A cell (\<^verbatim>\<open>struct scm\<close> of include/mes/mes.h) is the record \<open>cell\<close> with a type
  and two words; the payload of a bytes object is a list of bytes beside its cell. The memory is a
  partial map from addresses, integers that count cells, to cells; an address outside it faults. The
  globals of mes.h, the arena, the stack \<^verbatim>\<open>g_stack_array\<close> and the registers \<^verbatim>\<open>R0\<close> to
  \<^verbatim>\<open>R3\<close>, \<^verbatim>\<open>M0\<close>, \<^verbatim>\<open>M1\<close> are the fields of the record \<open>mst\<close>. A program of type
  \<open>'a mes\<close> takes a state to \<open>None\<close>, when it does not return, or to a fault or a value with the state
  that it leaves. The faults are \<open>Throw\<close> (a call of \<^verbatim>\<open>error\<close>), \<open>Assert\<close> (a failed
  \<^verbatim>\<open>assert_msg\<close>), \<open>Segv\<close> (memory outside what is allocated) and \<open>Exit\<close>. Loops that need not
  end are \<open>partial_function (option)\<close>; there is no fuel in the model of the C code. Arguments of a
  call are evaluated from left to right. Messages on stderr are left out, but for those of Mes_Boot.

  The theories, each with the C files it models:
    \<^item> Mes_Prelude: faults, the monad and its loops, machine integers (lib/mes/assert_msg.c);
    \<^item> Mes_Cells: cells, state, preallocated cells, allocation (gc.c, mes.h, constants.h, symbol.c);
    \<^item> Mes_Equal, Mes_Hash, Mes_Vector, Mes_Lists, Mes_Strings, Mes_Math, Mes_Module: the data
      (core.c, lib.c, hash.c, vector.c, struct.c, string.c, math.c, variable.c, module.c, stack.c);
    \<^item> Mes_Libc: the C library that these use (lib/ctype, lib/string, lib/stdlib, lib/mes);
    \<^item> Mes_Gc: the garbage collector (gc.c);
    \<^item> Mes_Builtins: the tables of builtins, their calls, the first environment
      (builtins.c, cc.c, symbol.c, mescc-builtins.c, mes.c);
    \<^item> Mes_Eval: the evaluator (eval-apply.c): one definition for each label, a step function over
      the labels, and the run of it. A builtin is called through the record \<open>world\<close>, whose fields
      are the evaluator for nested calls, the C function behind a number, \<^verbatim>\<open>realloc\<close> and the
      memory that it returns; \<open>evaluator\<close> ties the knot for a given depth of nested calls.
    \<^item> Mes_Io: ports, characters and bytes (posix.c, string.c, gc.c, lib/mes); Mes_Posix: files,
      processes and time (posix.c, mescc-posix.c), with the system behind the C library as a
      parameter \<open>os\<close> that is asked by the name of a call;
    \<^item> Mes_Boot: loading a file, the search for the boot file, \<^verbatim>\<open>init\<close> and \<^verbatim>\<open>main\<close>,
      statistics and dumps (mes.c, eval-apply.c, gc.c);
    \<^item> Mes_Link: the C functions behind the primitives, their addresses, and \<open>mes_world\<close>, in which the
      evaluator calls them and they call the evaluator (builtins.c, mescc-builtins.c);
    \<^item> Mes_Reader: the reader (reader.c); Mes_Display: \<^verbatim>\<open>display\<close> and \<^verbatim>\<open>write\<close> with the printers
      of tables, primitives, frames and variables (display.c, hash.c, builtins.c, stack.c, variable.c);
    \<^item> the C library on its own, on a memory of bytes (a partial map from addresses) in the same monad:
      Mes_Memory (lib/string), Mes_Qsort (lib/stdlib/qsort.c); Mes_Div: division for targets without
      an instruction for it (lib/mes/div.c);
    \<^item> the C library for programs that MesCC compiles, each on a state of its own: Mes_Stdio, the read
      buffers of descriptors and the streams over them (lib/mes, lib/linux, lib/posix, lib/stdio), with
      the system as a parameter; Mes_Format, \<^verbatim>\<open>vsnprintf\<close> and \<^verbatim>\<open>vfprintf\<close> (lib/stdio);
      Mes_Getopt, command line options (lib/posix/getopt.c).

  The lemmas:
    \<^item> Mes_Heap: what allocation does, states that extend others, lists in the heap;
    \<^item> Mes_Data: the representation of data (\<open>repr\<close>), and that \<^verbatim>\<open>equal2_p\<close> decides its equality;
      the length of lists and the divergence on circular ones; association lists;
    \<^item> Mes_Vector: the locale \<open>slots\<close>, a contract of indexed access, interpreted for vectors and structs;
    \<^item> Mes_Table: the locale \<open>dictionary\<close>, the contract of a table over symbols, interpreted for the
      operations of hash.c; Mes_Module refines module lookup to a recursive specification over it;
    \<^item> Mes_Copy, Mes_Scan, Mes_Flip, Mes_Collect: the collector, in phases: copying an object, the
      Cheney scan, sliding the copies down, and a whole collection, which renames addresses;
    \<^item> Mes_Machine: runs as reachability, frames, and rules that compose evaluations; Mes_Env:
      environments, lookup, application of closures; Mes_Callcc: continuations;
    \<^item> Mes_Prims: fifteen primitives as functions on data, and that the C functions compute them on
      representations; Mes_Link: the locale \<open>primitives\<close>, what the evaluator asks of the functions
      that it calls, interpreted for the table of functions;
    \<^item> Mes_Core: a definitional interpreter of the core language (constants, quotation, variables,
      conditionals, lambda, calls of closures and primitives, global variables) with its costs, and
      the refinement: the evaluator gives what the interpreter gives. The interpreter takes fuel for its recursion;
      the statement is for any fuel at which it has a value. The bounds of the interpreter, cells and
      frames, are those that the machine keeps; the statement asks for that many cells beyond
      \<^verbatim>\<open>GC_SAFETY\<close>, so that \<^verbatim>\<open>gc_check\<close> does not collect within the evaluation.
    \<^item> Mes_Write: the text of a datum, and that \<^verbatim>\<open>write\<close> puts out that text;
    \<^item> Mes_Intern: the symbol table as a map from names to symbols;
    \<^item> Mes_Port: the locale \<open>input_port\<close>, the contract of reading, peeking and putting back on a
      port, interpreted for file descriptors, for file descriptors with the cells that must not
      change, and for string ports;
    \<^item> Mes_Tokens, Mes_Read: in that locale, what the reader makes of the text of a number, a name,
      a string, a character, and by induction of any datum; lists that are cut off; the round trip of
      writing and reading. The bound on cells is per byte of the text, as a string port copies its rest at each byte.
    \<^item> Mes_Repl: data as programs, and the reader, the evaluator and the writer put together;
    \<^item> Mes_Cstring: strings in memory, and what copying, comparing and searching do with them;
      Mes_Qsort refines the sort in memory to partitions of a list; Mes_Div is related to the division
      of integers;
    \<^item> Mes_Buffer: reading through a buffer refines the stream of the descriptor, and a file behind it
      the file on its own; Mes_Printf: a format as a list of items with what it puts out, the locales
      \<open>sink\<close> and \<open>formatter\<close> that both printing functions meet; Mes_Options: a scan of options ends;
    \<^item> Mes_Sample, Mes_Examples, Mes_Page, Mes_Bench: the concrete states of the witnesses.

  The properties are below, each with a witness where it has hypotheses: an application at a
  concrete state.

  Not modelled: what the system does behind a call (src/lib/linux and its kin, the start code of a
  process), the debug output, formatted input and what else of the C library only programs that
  MesCC compiles use, the casts for M2-Planet (m2.c), the scaffold. The addresses of functions are those of \<open>address\<close>, their places in
  the table; the value that a function without \<^verbatim>\<open>return\<close> leaves to its caller is a parameter.
\<close>

section \<open>Properties\<close>

text \<open>C1. The evaluator refines the definitional interpreter of the core language with its
  primitives and global variables: where \<open>interp\<close> gives a value at a cost of \<open>n\<close> cells and \<open>d\<close>
  frames, the machine of \<^verbatim>\<open>eval_apply\<close>, started at \<^verbatim>\<open>eval\<close> on the representation of the
  expression, returns a representation of the value, within \<open>n\<close> cells, with the environment
  register and the stack below as they were.\<close>

theorem evaluator_refines_interpreter:
  assumes "interp \<gamma> m \<rho> e = Some (v, n, d)" "exp_at s e x" "env_at W s \<rho> (R0 s)" "budget W \<gamma> n (d + 1) s"
  shows "\<exists>t a. run_from W Eval (cc_pushed x p2 (R0 s) cell_unspecified s) = Some (Inr a, t)
     \<and> val_at W t v a \<and> spends n s t \<and> below s t \<and> R0 t = R0 s"
  by (rule evaluator_refines [OF assms])

theorem evaluator_refines_interpreter_witness:
  "\<exists>t a. run_from desk_world Eval (cc_pushed 1000252 cell_nil 1000270 cell_unspecified (desk\<lparr>R0 := 1000270\<rparr>)) = Some (Inr a, t)
     \<and> repr t (DNum 9) a"
proof -
  have "env_at desk_world (desk\<lparr>R0 := 1000270\<rparr>) desk_env (R0 (desk\<lparr>R0 := 1000270\<rparr>))"
    using env_at_extends [OF desk_R0 desk_env_at] by simp
  from evaluator_refines_interpreter [OF desk_value exp_at_extends [OF desk_R0 desk_call_at] this desk_budget_R0, of cell_nil]
  show ?thesis
    by (fastforce elim: val_at_objE simp: datum_at_def)
qed

text \<open>C2. Reading, evaluating and writing together: from a file with the text of a program the reader
  takes the program and leaves what follows, the evaluator evaluates it, and \<^verbatim>\<open>write\<close> puts out
  the text of the value that the interpreter of the core language gives for the program.\<close>

theorem program_text_to_value_text:
  assumes "readable s names d" "delimited rest" "fd_input fd j (ws @ datum_text names d @ rest) s" "set ws \<subseteq> {32, 9, 10, 12}"
    and "exp_of d = Some e" "interp \<gamma> m \<rho> e = Some (Obj v, n, k)" "env_at W s \<rho> (R0 s)"
    and "budget W \<gamma> (cells_of names d + n) (k + 1) s" "keywords_ok s" "portless s"
    and "printable s names v" "heap s 0 = None"
  shows "\<exists>p t a u. read_env s = Some (Inr p, t) \<and> fd_input fd False rest t
     \<and> run_from W Eval (cc_pushed p p2 (R0 t) cell_unspecified t) = Some (Inr a, u)
     \<and> write_c ap a u = Some (Inr cell_unspecified,
         u\<lparr>g_depth := 4, outlog := rev (map (Pair (outfd u)) (datum_text names v)) @ outlog u\<rparr>)"
  by (rule read_eval_write [OF assms])

theorem program_text_to_value_text_witness:
  "\<exists>p t a u w. read_env bench = Some (Inr p, t)
     \<and> run_from bench_world Eval (cc_pushed p cell_nil (R0 t) cell_unspecified t) = Some (Inr a, u)
     \<and> write_c (\<lambda>_ _ _. ret cell_nil) a u = Some (Inr cell_unspecified, w)
     \<and> outlog w = rev (map (Pair (outfd u)) [40, 49, 32, 46, 32, 50, 41]) @ outlog u"
proof -
  have b: "budget bench_world Map.empty (cells_of bench_names bench_datum + 28) (3 + 1) bench"
    using bench_budget bench_cells_of by simp
  show ?thesis
    using program_text_to_value_text [OF bench_readable _ bench_input _ bench_exp bench_value bench_env_at b bench_keywords
        bench_portless, of cell_nil "\<lambda>_ _ _. ret cell_nil"]
    by (auto simp: delimited_def is_long_def number_digit)
qed



text \<open>C4. What \<^verbatim>\<open>push_cc\<close> saves comes back. The call sets the registers to its arguments, leaves
  \<^verbatim>\<open>R3\<close>, the cells and the frames below as they were, and pushes a frame such that from any state
  in which this frame, but for its entry for the procedure, is on top again, \<^verbatim>\<open>vm_return\<close> leads to
  the saved continuation: \<^verbatim>\<open>R0\<close> is that of the caller, \<^verbatim>\<open>R2\<close> the second argument, \<^verbatim>\<open>R1\<close> is the
  value that was returned, the frame is gone, and nothing else has changed.\<close>

theorem frame_comes_back:
  assumes "stack_room s" "map_of continuations c = Some k"
  shows "\<exists>u. push_cc p1 p2 a c s = Some (Inr cell_unspecified, u)
     \<and> R0 u = a \<and> R1 u = p1 \<and> R2 u = p2 \<and> R3 u = R3 s \<and> heap u = heap s \<and> (\<forall>i \<ge> g_stack s. stack u i = stack s i)
     \<and> (\<forall>t :: mst. g_stack t = g_stack u \<and> STACK_SIZE t = STACK_SIZE u
             \<and> (\<forall>i. g_stack u \<le> i \<and> i < g_stack s - 1 \<longrightarrow> stack t i = stack u i)
          \<longrightarrow> eval_steps W Vm_return t k (t\<lparr>R0 := R0 s, R2 := p2, R3 := c, g_stack := g_stack s\<rparr>))"
  by (rule push_cc_returns [OF assms])

theorem frame_comes_back_witness:
  "\<exists>u. push_cc 1000120 1000130 cell_nil cell_vm_evlis2 desk = Some (Inr cell_unspecified, u)
     \<and> eval_steps alone Vm_return (u\<lparr>R0 := 0, R1 := 1000121, R2 := 0\<rparr>) Evlis2
         (u\<lparr>R1 := 1000121, R0 := 1000002, R2 := 1000130, R3 := cell_vm_evlis2, g_stack := 20\<rparr>)"
proof -
  have "stack_room desk" by (simp add: stack_room_def)
  from frame_comes_back [OF this continuation_of(1), of 1000120 1000130 cell_nil alone]
  obtain u where u: "push_cc 1000120 1000130 cell_nil cell_vm_evlis2 desk = Some (Inr cell_unspecified, u)"
    "\<forall>t :: mst. g_stack t = g_stack u \<and> STACK_SIZE t = STACK_SIZE u
       \<and> (\<forall>i. g_stack u \<le> i \<and> i < g_stack desk - 1 \<longrightarrow> stack t i = stack u i)
       \<longrightarrow> eval_steps alone Vm_return t Evlis2 (t\<lparr>R0 := R0 desk, R2 := 1000130, R3 := cell_vm_evlis2, g_stack := g_stack desk\<rparr>)"
    by blast
  then show ?thesis
    using spec [OF u(2), of "u\<lparr>R0 := 0, R1 := 1000121, R2 := 0\<rparr>"] by simp
qed

text \<open>C5. What \<^verbatim>\<open>write\<close> puts out is read back: the reader, given the bytes that the printer wrote
  for a datum, consumes them all and returns an object that \<^verbatim>\<open>equal2_p\<close> finds equal to the one
  that was written. The datum may hold numbers, characters, strings with any bytes, symbols of the
  symbol table, booleans, proper and dotted lists, nested to any depth.\<close>

theorem write_read_roundtrip:
  assumes "heap s 0 = None" "ready (cells_of names d) s" "repr s d x" "printable s names d" "readable s names d" "0 \<le> fd"
  shows "\<exists>t y u. write_c ap x s = Some (Inr cell_unspecified, t) \<and> read_env (reopened fd s t) = Some (Inr y, u)
    \<and> fd_input fd False [] u \<and> equal2_p x y u = Some (Inr cell_t, u)"
proof -
  obtain t y u where t: "write_c ap x s = Some (Inr cell_unspecified, t)" "read_env (reopened fd s t) = Some (Inr y, u)"
    "fd_input fd False [] u" "repr u d x" "repr u d y"
    using write_read_back [OF assms] by blast
  then show ?thesis
    using equal2_p_repr [OF t(4,5)] by auto
qed

theorem write_read_roundtrip_witness:
  "\<exists>t y u. write_c (\<lambda>_ _ _. ret cell_nil) 1000120 page = Some (Inr cell_unspecified, t)
     \<and> read_env (reopened 5 page t) = Some (Inr y, u) \<and> equal2_p 1000120 y u = Some (Inr cell_t, u)"
proof -
  have "ready (cells_of page_names page_datum) page"
    using page_cells by simp
  from write_read_roundtrip [OF _ this page_repr page_printable page_readable, of 5 "\<lambda>_ _ _. ret cell_nil"]
  show ?thesis by auto
qed

text \<open>C6. The C function that the table of src/src/builtins.c gives for each primitive of the core
  language, called at the address that the linker chose, computes the primitive's value on the
  representations of its arguments, in the cells that the interpreter counts for it.\<close>

theorem primitives_compute:
  "implements (call_c h W (address (prim_function p))) p"
  by (rule call_c_implements)

text \<open>C7. An object that \<^verbatim>\<open>make_builtin\<close> makes with the arity and the address of a primitive is
  that primitive to the evaluator of an interpreter in which the functions are linked.\<close>

theorem builtin_is_primitive:
  assumes "ready builtin_cells s" "interned s printer_name pr" "symbol_name s printer_name" "symbol_cell s pr"
    and "lookup s ty = Some c1" "lookup s name = Some c2" "lookup s arity = Some (mk_cell TNUMBER k1 (prim_arity p))"
    and "lookup s fn = Some (mk_cell TNUMBER k2 (address (prim_function p)))" "symbol_cell s cell_symbol_builtin"
  shows "\<exists>b t. make_builtin ty name arity fn s = Some (Inr b, t) \<and> grows builtin_cells s t
     \<and> val_at (mes_world h rea mem (Suc n)) t (Prim p) b"
  by (rule make_builtin_value [OF assms])

theorem builtin_is_primitive_witness:
  "\<exists>b t. make_builtin cell_f 1000148 1000275 1000276 bench = Some (Inr b, t)
     \<and> val_at (mes_world desk_host (\<lambda>a n. a) (\<lambda>a. mk_cell TCHAR 0 0) 1) t (Prim PCons) b"
proof -
  obtain c where "lookup bench cell_f = Some c"
    using specials_okD [OF bench_specials, of cell_f] by (auto simp: cells)
  then show ?thesis
    using builtin_is_primitive [OF bench_ready bench_interned(4) bench_printer_name bench_objects(4) _ bench_objects(3,1,2,5),
        of cell_f c desk_host "\<lambda>a n. a" "\<lambda>a. mk_cell TCHAR 0 0" 0] by auto
qed

text \<open>C8. A continuation brings the stack back: what \<^verbatim>\<open>save_stack\<close> has captured in \<open>s\<close> is the
  stack again after \<^verbatim>\<open>restore_stack\<close> in any later state whose heap still has the cells of then,
  however the stack has changed; an entry is the same object, or an equal number or character.\<close>

theorem continuation_restores_stack:
  assumes "stack_live s" "arena_ok s" "specials_ok s" "room (1 + 3 * depth s) s" "g_stack s < STACK_SIZE s"
  shows "\<exists>v t. save_stack s = Some (Inr v, t) \<and> grows (1 + 3 * depth s) s t
     \<and> (\<forall>u. extends t u \<longrightarrow> arena_ok u \<longrightarrow> room (depth s) u \<longrightarrow> STACK_SIZE u = STACK_SIZE s \<longrightarrow>
        (\<exists>w. restore_stack v u = Some (Inr (), w) \<and> g_stack w = g_stack s
          \<and> (\<forall>i. g_stack s \<le> i \<and> i < STACK_SIZE s \<longrightarrow> same_value s (stack s i) w (stack w i))))"
proof -
  obtain v t where t: "save_stack s = Some (Inr v, t)" "grows (1 + 3 * depth s) s t"
    by (rule save_stack_ok [OF assms(1-4)])
  then show ?thesis
    using continuation_roundtrip [OF t(1) assms] by blast
qed

theorem continuation_restores_stack_witness:
  "\<exists>v t w. save_stack (desk\<lparr>g_stack := 15\<rparr>) = Some (Inr v, t)
     \<and> restore_stack v (t\<lparr>g_stack := 20, stack := \<lambda>_. cell_f\<rparr>) = Some (Inr (), w) \<and> g_stack w = 15"
proof -
  let ?s = "desk\<lparr>g_stack := 15\<rparr>"
  have "ready 16 ?s" by simp
  then have "stack_live ?s" "depth ?s = 5" "arena_ok ?s" "specials_ok ?s" "room (1 + 3 * depth ?s) ?s"
    using desk_nil by (simp_all add: stack_live_def depth_def ready_def del: lookup_Some)
  then obtain v t where t: "save_stack ?s = Some (Inr v, t)" "grows 16 ?s t"
    "\<forall>u. extends t u \<longrightarrow> arena_ok u \<longrightarrow> room 5 u \<longrightarrow> STACK_SIZE u = 20 \<longrightarrow>
        (\<exists>w. restore_stack v u = Some (Inr (), w) \<and> g_stack w = 15)"
    using continuation_restores_stack [of ?s] by simp blast
  let ?u = "t\<lparr>g_stack := 20, stack := \<lambda>_. cell_f\<rparr>"
  have "extends t ?u" "arena_ok ?u" "room 5 ?u" "STACK_SIZE ?u = 20"
    using growsD [OF t(2)] by (simp_all add: extends_def arena_ok_def room_def)
  then show ?thesis
    using t(1,3) by blast
qed

text \<open>C9. When fewer than five entries of the stack are left, \<^verbatim>\<open>push_cc\<close> fails with the message
  \<^verbatim>\<open>STACK FULL\<close>, with nothing written to the stack.\<close>

theorem stack_full:
  assumes "g_stack s < 5"
  shows "push_cc p1 p2 a c s = Some (Inl (Assert ''STACK FULL''), s\<lparr>R3 := c, R2 := p2\<rparr>)"
  by (rule push_cc_full [OF assms])

theorem stack_full_witness:
  "\<exists>t. push_cc 1 2 3 4 (desk\<lparr>g_stack := 4\<rparr>) = Some (Inl (Assert ''STACK FULL''), t)"
  using stack_full [of "desk\<lparr>g_stack := 4\<rparr>" 1 2 3 4] by auto

text \<open>C10. Applying a closure: the machine goes on with the body, in the closure's environment
  extended by each formal bound to its argument and a rest formal to what is left, behind the
  entry \<^verbatim>\<open>*closure*\<close>, within the cells that the bindings take.\<close>

theorem closure_application_binds:
  assumes "pair_at s (R1 s) f args" "closure_at s f formals body aa"
    and "formals_at s formals ks r" "args_at s args vs q" "length vs = length ks"
    and "list_at s args ws" "r = None \<Longrightarrow> q = cell_nil"
    and "frame_at s aa kvs" "stack_room s" "ready (2 * int (length ks) + 4) s"
  shows "\<exists>t e. eval_step W Apply s = Some (Inr (Goto Begin), t) \<and> R1 t = body
     \<and> frame_at t (R0 t) ((cell_closure, e) # bindings ks r vs q @ kvs)
     \<and> below s t \<and> spends (2 * int (length ks) + 4) s t"
  by (rule apply_closure_binds [OF assms]) assumption

theorem closure_application_binds_witness:
  "\<exists>t e. eval_step alone Apply (desk\<lparr>R1 := 1000236\<rparr>) = Some (Inr (Goto Begin), t) \<and> R1 t = 1000225
     \<and> frame_at t (R0 t) [(cell_closure, e), (1000106, 1000122), (1000108, 1000120)]"
proof -
  let ?s = "desk\<lparr>R1 := 1000236\<rparr>"
  have e: "extends desk ?s" by simp
  have "pair_at ?s (R1 ?s) 1000231 1000132" "stack_room ?s" "ready 6 ?s"
    using desk_application by (simp_all add: pair_at_def stack_room_def)
  then show ?thesis
    using closure_application_binds [OF _ closure_at_extends [OF e desk_closure] formals_at_extends [OF e desk_formals]
        args_at_extends [OF e desk_args [folded cell_nil_def]] _ list_at_extends [OF e desk_list(2)] _ frame_at_extends [OF e desk_frame], of alone]
    by (fastforce simp: bindings_def)
qed

text \<open>C11. A procedure without rest formal that is applied to a wrong number of arguments raises
  \<^verbatim>\<open>wrong-number-of-args\<close> with a message and the procedure.\<close>

theorem wrong_number_of_arguments:
  assumes "formals_at s x ks None" "list_at s y vs" "specials_ok s" "length vs \<noteq> length ks"
  shows "check_formals W f x y s
     = mbind (make_string0 (cstring ''apply: wrong number of arguments; expected: ''))
         (\<lambda>e. mbind (cons e f) (error W cell_symbol_wrong_number_of_args)) s"
  by (rule check_formals_wrong [OF assms])

theorem wrong_number_of_arguments_witness:
  "check_formals alone 1000231 1000230 1000130 desk
     = mbind (make_string0 (cstring ''apply: wrong number of arguments; expected: ''))
         (\<lambda>e. mbind (cons e 1000231) (error alone cell_symbol_wrong_number_of_args)) desk"
  using wrong_number_of_arguments [OF desk_formals desk_list(1)] by simp

text \<open>C12. \<^verbatim>\<open>write\<close> puts out the text of a datum, byte for byte, and leaves the heap as it was: strings
  with the escapes that the reader undoes, characters with their names, lists with a dot only where the
  tail is no list.\<close>

theorem write_puts_text:
  assumes "heap s 0 = None" "specials_ok s" "repr s d x" "printable s names d"
  shows "write_c ap x s = Some (Inr cell_unspecified,
    s\<lparr>g_depth := 4, outlog := rev (map (Pair (outfd s)) (datum_text names d)) @ outlog s\<rparr>)"
  using write_datum [OF assms] by (simp add: emit_def)

theorem write_puts_text_witness:
  "\<exists>t. write_c (\<lambda>_ _ _. ret cell_nil) 1000120 page = Some (Inr cell_unspecified, t)
     \<and> outlog t = rev (map (Pair 1) page_text) @ outlog page"
proof -
  have "specials_ok page" using page_ready [of 0] by (simp add: ready_def)
  from write_puts_text [OF _ this page_repr page_printable] show ?thesis
    by (simp add: page_datum_text)
qed

text \<open>C13. From a file the reader takes white space and the text of one datum, leaves what follows,
  changes none of the cells that were there, and allocates at most the cells that the datum needs:
  one for each number, character, pair and dot, those of its strings and of the names of its
  symbols with one more for the lookup, none for the empty list and the booleans.\<close>

theorem read_from_file:
  assumes "readable s names d" "delimited rest" "fd_input fd j (ws @ datum_text names d @ rest) s" "set ws \<subseteq> {32, 9, 10, 12}"
    and "ready (cells_of names d) s"
  shows "\<exists>p t. read_env s = Some (Inr p, t) \<and> repr t d p \<and> fd_input fd False rest t \<and> extends s t
    \<and> g_free t \<le> g_free s + cells_of names d \<and> g_symbols t = g_symbols s"
  by (rule read_file_keeps [OF assms])

theorem read_from_file_witness:
  "\<exists>p t. read_env (page\<lparr>infile := \<lambda>_. 10 # page_text @ [32, 49]\<rparr>) = Some (Inr p, t) \<and> repr t page_datum p
     \<and> fd_input 0 False [32, 49] t"
proof -
  let ?s = "page\<lparr>infile := \<lambda>_. 10 # page_text @ [32, 49]\<rparr>"
  have a: "advances 0 page ?s"
    using page_ready [of 0] by (simp add: advances_def ready_def arena_ok_def)
  have "fd_input 0 False ([10] @ datum_text page_names page_datum @ [32, 49]) ?s"
    by (simp add: fd_input_def page_datum_text)
  moreover have "ready (cells_of page_names page_datum) ?s"
    using advances_ready [OF a] page_cells by simp
  ultimately show ?thesis
    using read_from_file [OF advances_readable [OF page_readable a], of "[32, 49]" 0 False "[10]"]
    by (fastforce simp: delimited_def)
qed

text \<open>C14. The same from a string port, where each character that is read makes a new string: the cells
  that this takes are bounded by the length of the text times the size of the string.\<close>

theorem read_from_string_port:
  assumes "readable s names d" "delimited rest" "string_input N q j (ws @ datum_text names d @ rest) s" "set ws \<subseteq> {32, 9, 10, 12}"
    and "ready (string_cost N * (int (length ws) + 1 + 4 * int (length (datum_text names d))) + cells_of names d) s"
  shows "\<exists>p t. read_env s = Some (Inr p, t) \<and> repr t d p \<and> string_input N q False rest t"
proof -
  have "ready (string_cost N * int (length ws) + string_cost N + input_port.read_cost (string_cost N) names d) s"
    using assms(5) by (simp add: strport.read_cost_def algebra_simps)
  then show ?thesis
    using strport.read_datum [OF assms(1-4)] unfolding strport.reads_def by blast
qed

theorem read_from_string_port_witness:
  "\<exists>p t. read_env (page\<lparr>infd := - 3\<rparr>) = Some (Inr p, t) \<and> repr t page_datum p \<and> string_input 14 1000271 False [] t"
proof -
  let ?s = "page\<lparr>infd := - 3\<rparr>"
  have a: "advances 0 page ?s"
    using page_ready [of 0] by (simp add: advances_def ready_def arena_ok_def)
  have "string_input 14 1000271 False ([] @ datum_text page_names page_datum @ []) ?s"
    using page_port by (simp add: page_datum_text)
  moreover have "ready (string_cost 14 * (int (length ([] :: byte list)) + 1 + 4 * int (length (datum_text page_names page_datum)))
      + cells_of page_names page_datum) ?s"
    using advances_ready [OF a] page_cells by (simp add: page_datum_text page_text_def string_cost_def)
  ultimately show ?thesis
    using read_from_string_port [OF advances_readable [OF page_readable a], of "[]" 14 1000271 False "[]"]
    by (simp add: delimited_def)
qed

text \<open>C15. A list that the end of the file cuts off raises \<^verbatim>\<open>not-a-pair\<close> with the message
  \<^verbatim>\<open>EOF in list\<close>, wherever it is cut: behind the open parenthesis, behind any number of data, behind
  a dot or the datum that follows it, behind blanks, or inside lists that are open in it.\<close>

theorem unclosed_list_raises:
  assumes "cut_off s names p" "fd_input fd j (40 # open_text names p) s" "ready (open_cells names p + 6) s" "24 \<le> MAX_STRING s"
  shows "\<exists>m t. read_env s = Some (Inl (Throw cell_symbol_not_a_pair m), t) \<and> text_at t TSTRING eof_in_list m"
  using fdport.unclosed_list [OF assms(1,2) _ assms(4)] assms(3) by (simp add: fdport.open_cost_def raises_eof_def)

theorem unclosed_list_raises_witness:
  "\<exists>m t. read_env (page\<lparr>infile := \<lambda>_. [40, 32] @ page_text @ [32, 40, 40, 49, 32, 46, 32, 50, 10]\<rparr>)
       = Some (Inl (Throw cell_symbol_not_a_pair m), t)
     \<and> text_at t TSTRING eof_in_list m"
proof -
  let ?s = "page\<lparr>infile := \<lambda>_. [40, 32] @ page_text @ [32, 40, 40, 49, 32, 46, 32, 50, 10]\<rparr>"
  let ?p = "Blank 32 (Item page_datum (Blank 32 (Open (Open (Item (DNum 1) (Blank 32 (Dot (Blank 32
    (Item (DNum 2) (Blank 10 Cut))))))))))"
  have n: "number_text 1 = [49]" "number_text 2 = [50]"
    using ntoab_digits_step [of 10 1] ntoab_digits_step [of 10 2] by (simp_all add: number_text_def digit_byte_def)
  have a: "advances 0 page ?s"
    using page_ready [of 0] by (simp add: advances_def ready_def arena_ok_def)
  have "cut_off ?s page_names ?p"
    using advances_readable [OF page_readable a] by (simp add: delimited_def n is_long_def)
  moreover have "fd_input 0 False (40 # open_text page_names ?p) ?s"
    by (simp add: fd_input_def page_datum_text n)
  moreover have "ready (open_cells page_names ?p + 6) ?s"
    using advances_ready [OF a] page_cells by simp
  ultimately show ?thesis
    using unclosed_list_raises [of ?s page_names ?p 0 False] by simp
qed

text \<open>C16. A symbol is unique: the same name gives the same symbol again, whether or not it was in the
  symbol table before.\<close>

theorem symbols_are_unique:
  assumes "symbols_at s hss" "symbol_name s bs" "ready (2 * string_cells bs + 7) s"
  shows "\<exists>a t u. cstring_to_symbol (bs @ [0]) s = Some (Inr a, t) \<and> cstring_to_symbol (bs @ [0]) t = Some (Inr a, u)"
proof -
  have "ready (string_cells bs + 6 + (string_cells bs + 1)) s"
    using assms(3) by (simp add: algebra_simps)
  then obtain a t where t: "cstring_to_symbol (bs @ [0]) s = Some (Inr a, t)" "interned t bs a" "symbol_name t bs"
    "ready (string_cells bs + 1) t"
    using cstring_to_symbol_interns [OF assms(1,2)] string_cells_nonneg [of bs] by (metis add_nonneg_nonneg zero_le_one)
  then show ?thesis
    using cstring_to_symbol_found [OF t(2-4)] by blast
qed

theorem symbols_are_unique_witness:
  "\<exists>a t u. cstring_to_symbol [98, 0] page = Some (Inr a, t) \<and> cstring_to_symbol [98, 0] t = Some (Inr a, u)"
proof -
  have "symbol_name page [98]"
    by (simp add: symbol_name_def ascii_def)
  from symbols_are_unique [OF page_symbols this] show ?thesis
    by (simp add: string_cells_def bytes_cells_eq)
qed

text \<open>C17. \<^verbatim>\<open>equal2_p\<close> decides structural equality: on the representations of two data, however
  their cells are shared, it answers whether the data are equal, and changes nothing.\<close>

theorem equal2_p_decides:
  assumes "repr s d p" "repr s e q"
  shows "equal2_p p q s = Some (Inr (if d = e then cell_t else cell_f), s)"
  by (rule equal2_p_repr [OF assms])

theorem equal2_p_decides_witness:
  "equal2_p 1000120 1000122 two_lists = Some (Inr cell_t, two_lists)"
proof -
  have "repr two_lists (DPair (DNum 7) (DAtom 1000002)) 1000120"
    "repr two_lists (DPair (DNum 7) (DAtom 1000002)) 1000122"
    by (simp_all add: two_lists_def sample_heap sample_cell_def by_identity_def)
  from equal2_p_decides [OF this] show ?thesis by simp
qed

text \<open>C18. A hash table is a map from symbols: after \<^verbatim>\<open>hashq_set_x\<close> has bound \<open>k\<close>, a lookup of
  any symbol gives what the updated map says, also when it falls in the same bucket.\<close>

theorem hashq_set_then_ref:
  assumes "hash_dict s table names m" "names k = Some bs" "names k' = Some bs'" "ready 8 s"
  shows "\<exists>t u. hashq_set_x table k v s = Some (Inr v, t)
     \<and> hashq_ref_c table k' dflt t = Some (Inr (case (m(k \<mapsto> v)) k' of None \<Rightarrow> dflt | Some w \<Rightarrow> w), u)
     \<and> hash_dict u table names (m(k \<mapsto> v))"
proof -
  have "ready (4 + 4) s"
    using assms(4) by simp
  then obtain t where t: "hashq_set_x table k v s = Some (Inr v, t)"
    "hash_dict t table names (m(k \<mapsto> v))" "ready 4 t"
    using hashq.set_law [OF assms(1,2), of 4 v] by auto
  then show ?thesis
    using hashq.ref_law [OF t(2) assms(3), of 0 dflt] by fastforce
qed

theorem hashq_set_then_ref_witness:
  "\<exists>t u. hashq_set_x 1000120 1000041 cell_t one_bucket = Some (Inr cell_t, t)
     \<and> hashq_ref_c 1000120 1000041 cell_f t = Some (Inr cell_t, u)"
proof -
  have "ready 8 one_bucket"
    unfolding ready_def one_bucket_def
    by (intro conjI sample_arena_ok sample_specials sample_room) simp_all
  then show ?thesis
    using hashq_set_then_ref [OF one_bucket_dict, of 1000041 "[97]" 1000041 "[97]" cell_t cell_f] by auto
qed

text \<open>C19. The garbage collector moves the live objects to the start of the arena and loses
  nothing: there is a renaming \<open>g\<close> of addresses, injective on what is reachable and the identity
  on the predefined symbols, such that every reachable object stands at its new address with all
  its fields renamed, as are the registers, the globals and every entry of the stack; objects are
  packed without a gap, so that exactly the dead cells are free again.\<close>

theorem gc_moves_live_objects:
  assumes "stack_room s" "collectable (frame_pushed s)"
  shows "\<exists>t g. gc rea mem s = Some (Inr cell_unspecified, t)
    \<and> (\<forall>x \<in> reach (frame_pushed s). moved (heap s) (bytes s) g t x)
    \<and> inj_on g (reach (frame_pushed s))
    \<and> (\<forall>x. cell_nil \<le> x \<and> x < g_symbol_max s \<longrightarrow> g x = x)
    \<and> globals t = map g (globals s)
    \<and> R0 t = g (R0 s) \<and> R1 t = g (R1 s) \<and> R2 t = g (R2 s) \<and> R3 t = g (R3 s)
    \<and> g_stack t = g_stack s \<and> (\<forall>i. g_stack s \<le> i \<and> i < STACK_SIZE s \<longrightarrow> stack t i = g (stack s i))
    \<and> g_free t = g_cells s + 1 + live (frame_pushed s)"
  using gc_collects [OF assms, of rea mem] by blast

theorem gc_moves_live_objects_witness:
  "\<exists>t g. gc (\<lambda>a n. a) (\<lambda>a. mk_cell TCHAR 0 0) one_pair = Some (Inr cell_unspecified, t) \<and> R1 t = g 1000115
    \<and> moved (heap one_pair) (bytes one_pair) g t 1000115"
proof -
  have "stack_room one_pair" "R1 one_pair = 1000115"
    by (simp_all add: stack_room_def one_pair_def)
  moreover have "1000115 \<in> reach (frame_pushed one_pair)"
    using one_pair_register .
  ultimately show ?thesis
    using gc_moves_live_objects [of one_pair "\<lambda>a n. a" "\<lambda>a. mk_cell TCHAR 0 0", OF _ one_pair_collectable] by auto
qed

text \<open>C20. The datum that the register \<^verbatim>\<open>R1\<close> represents survives a collection: pairs,
  vectors, strings, numbers and characters are there again, with the addresses of the other
  objects in it renamed.\<close>

theorem gc_keeps_datum:
  assumes "stack_room s" "collectable (frame_pushed s)" "repr s d (R1 s)"
  shows "\<exists>t g. gc rea mem s = Some (Inr cell_unspecified, t) \<and> repr t (map_atoms g d) (R1 t)
    \<and> (\<forall>x. cell_nil \<le> x \<and> x < g_symbol_max s \<longrightarrow> g x = x)"
  by (rule gc_keeps_data [OF assms])

theorem gc_keeps_datum_witness:
  "\<exists>t. gc (\<lambda>a n. a) (\<lambda>a. mk_cell TCHAR 0 0) one_pair = Some (Inr cell_unspecified, t)
     \<and> repr t (DPair (DAtom 1000041) (DAtom 1000002)) (R1 t)"
proof -
  have "stack_room one_pair" "g_symbol_max one_pair = 1000109"
    by (simp_all add: stack_room_def one_pair_def) (simp add: sample_def)
  moreover have "repr one_pair (DPair (DAtom 1000041) (DAtom 1000002)) (R1 one_pair)"
    by (simp add: one_pair_def sample_lookup sample_cell_def by_identity_def sample_heap)
  ultimately show ?thesis
    using gc_keeps_datum [of one_pair "DPair (DAtom 1000041) (DAtom 1000002)" "\<lambda>a n. a" "\<lambda>a. mk_cell TCHAR 0 0",
        OF _ one_pair_collectable]
    by (fastforce simp: cells)
qed

text \<open>C21. A collection never enlarges the arena: whatever \<^verbatim>\<open>realloc\<close> would answer and whatever
  the memory behind the arena holds, \<^verbatim>\<open>gc\<close> does the same, since the test that guards the growth
  compares addresses one byte apart.\<close>

theorem gc_never_grows: "gc rea mem s = gc rea' mem' s"
  using gc_c_fixed_arena [of rea mem rea' mem'] by (simp add: gc_def)

text \<open>C22. A module's variable is found in its own obarray, else in its used modules, depth first
  and in order: \<^verbatim>\<open>module_variable\<close>, which searches with a worklist, refines the recursive
  specification \<open>resolve\<close> on the tree of modules.\<close>

theorem module_variable_refines_resolve:
  assumes "module_at s names x sc" "names k = Some bs" "ready (1 + search_cells [sc]) s"
  shows "\<exists>t. module_variable x k s =
     Some (Inr (case resolve sc k of Some v \<Rightarrow> v | None \<Rightarrow> cell_f), t) \<and> extends s t"
  by (rule module_variable_resolves [OF assms])

theorem module_variable_refines_resolve_witness:
  "\<exists>t. module_variable 1000180 1000106 desk = Some (Inr 1000170, t)"
  using module_variable_refines_resolve [OF desk_module, of 1000106 "[97]"] by auto

text \<open>C23. The program starts from the first of the boot files that opens: \<^verbatim>\<open>MES_BOOT\<close> or
  boot-5.scm in the module directory of \<^verbatim>\<open>MES_PREFIX\<close>, of its share/mes, of \<^verbatim>\<open>srcdest\<close>, or in
  the current directory. If none opens it says so on the error port and exits with 1.\<close>

theorem boot_file_search:
  assumes "answers sys env opens" "boot_fits path_max env" "0 \<notin> set (boot_name env)"
  shows "case find (\<lambda>f. 0 \<le> opens f) (boot_files env) of
     Some f \<Rightarrow> \<exists>d t. open_boot sys path_max s = Some (Inr d, t) \<and> infd t = opens f \<and> outlog t = outlog s
   | None \<Rightarrow> \<exists>t. open_boot sys path_max s = Some (Inl (Exit 1), t)
       \<and> outlog t = rev (map (Pair (errfd s)) (chars ''mes: boot failed: no such file: '' @ boot_name env @ [10])) @ outlog s"
  by (rule open_boot_search [OF assms])

theorem boot_file_search_witness:
  "\<exists>d t. open_boot disk 512 desk = Some (Inr d, t) \<and> infd t = 5 \<and> outlog t = outlog desk"
  using boot_file_search [OF disk_answers disk_fits, of desk] disk_found by (simp add: disk_opens_def)

text \<open>C24. Division for targets without an instruction for it: \<^verbatim>\<open>__mesabi_uldiv\<close> gives quotient and
  remainder of unsigned longs, and the signed operations truncate, with a remainder of the sign of the
  dividend; only the quotient of the least long by -1 wraps.\<close>

theorem long_division:
  assumes "c \<noteq> 0" "is_long a" "is_long b" "b \<noteq> 0" "b \<noteq> LONG_MIN"
  shows "mesabi_uldiv n c = Inr (n div c, n mod c) \<and> mesabi_idiv a b = Some (Inr (to_long (a sdiv b)))
    \<and> mesabi_imod a b = Some (Inr (a smod b))"
  using mesabi_uldiv_ok [OF assms(1)] mesabi_division [OF assms(2-5)] by simp_all

theorem long_division_witness:
  "mesabi_uldiv 1000 7 = Inr (142, 6) \<and> mesabi_idiv (- (2 ^ 63)) 10 = Some (Inr (- 922337203685477580))
     \<and> mesabi_imod (- (2 ^ 63)) 10 = Some (Inr (- 8))"
  using long_division [of 7 "- (2 ^ 63)" 10 1000]
  by (simp_all add: is_long_def LONG_MIN_def sdiv_smod to_long_id)

text \<open>C25. \<^verbatim>\<open>qsort\<close> returns for every consistent comparison, permutes the elements of the array, of any
  size, and leaves the rest of the memory alone; the array comes out in increasing order if no two of its
  elements compare equal.\<close>

theorem qsort_sorts:
  assumes "comparison cmp" "compares compare sz cmp" "0 < sz" "array_at m base sz xs" "int (length xs) < 2 ^ 31"
  shows "\<exists>t ys. qsort base (length xs) sz compare m = Some (Inr (), t) \<and> array_at t base sz ys \<and> mset ys = mset xs
    \<and> same_outside base (length xs * sz) m t \<and> (apart cmp xs \<longrightarrow> sorted_wrt (\<lambda>x y. cmp x y < 0) ys)"
  by (rule qsort_ok [OF assms])

theorem qsort_sorts_witness:
  "\<exists>t ys. qsort 100 3 1 compare_bytes (put Map.empty 100 [7, 9, 2]) = Some (Inr (), t) \<and> array_at t 100 1 ys
     \<and> mset ys = mset [[7], [9], [2]] \<and> sorted_wrt (\<lambda>x y. byte_order x y < 0) ys"
proof -
  have "array_at (put Map.empty 100 [7, 9, 2]) 100 1 [[7], [9], [2]]"
    using put_same [of Map.empty 100 "[7, 9, 2]"] by (simp add: array_at_def)
  moreover have "apart byte_order [[7], [9], [2 :: byte]]"
    by (simp add: apart_def byte_order_def)
  ultimately show ?thesis
    using qsort_sorts [OF compare_bytes(2,1), of "put Map.empty 100 [7, 9, 2]" 100 "[[7], [9], [2]]"]
    by (auto simp: numeral_3_eq_3)
qed

text \<open>C26. Making a vector of \<open>k\<close> elements takes at most \<open>1 + 2 k\<close> cells, leaves every allocated
  cell as it was, and gives a vector whose slots all hold the initial element; it is the first
  object behind the free pointer.\<close>

theorem make_vector_filled:
  assumes "arena_ok s" "room (1 + int k + int k) s" "lookup s e = Some c"
  shows "\<exists>t. make_vector_c (int k) e s = Some (Inr (g_free s), t) \<and> grows (1 + int k + int k) s t
    \<and> slots_at TVECTOR t (g_free s) (g_free s + 1) (replicate k (entry_cell e c))"
  by (rule make_vector_c_ok [OF assms]) blast

theorem make_vector_filled_witness:
  "\<exists>t. make_vector_c 3 cell_t desk = Some (Inr 1000300, t)
    \<and> slots_at TVECTOR t 1000300 1000301 (replicate 3 (mk_cell TREF cell_t 0))"
proof -
  have "lookup desk cell_t = Some (mk_cell TSPECIAL 0 1000109)"
    by (simp add: desk_eval del: lookup_Some)
  then show ?thesis
    using make_vector_filled [of desk 3 cell_t "mk_cell TSPECIAL 0 1000109"]
    by (auto simp: entry_cell_def immediate_def)
qed

text \<open>C27. \<^verbatim>\<open>append2\<close> gives a list of the elements of both lists, in fresh pairs in front of the
  second one, and leaves both lists as they are.\<close>

theorem append2_appends:
  assumes "list_at s x xs" "list_at s y ys" "arena_ok s" "room (int (length xs)) s" "specials_ok s"
  shows "\<exists>t r. append2 x y s = Some (Inr r, t) \<and> grows (int (length xs)) s t
     \<and> list_at t r (xs @ ys) \<and> list_at t x xs \<and> list_at t y ys"
  using append2_ok [OF assms] list_at_extends growsD(1) assms(1,2) by blast

theorem append2_appends_witness:
  "\<exists>t r. append2 1000130 1000132 desk = Some (Inr r, t) \<and> list_at t r [1000120, 1000121, 1000122]"
  using append2_appends [OF desk_list] by auto

text \<open>C28. \<^verbatim>\<open>reverse!\<close> works in place: the very pairs of the list, linked in the opposite order
  in front of the tail, with no other cell touched and no cell's head changed.\<close>

theorem reverse_in_place:
  assumes "spine (heap s) x ps cell_nil"
  shows "\<exists>h r. reverse_x_c x y s = Some (Inr r, s\<lparr>heap := h\<rparr>)
     \<and> spine h r (rev ps) y \<and> cars h (rev ps) = rev (cars (heap s) ps)
     \<and> (\<forall>a. a \<notin> set ps \<longrightarrow> h a = heap s a)
     \<and> (\<forall>a \<in> set ps. \<exists>c d. heap s a = Some c \<and> h a = Some (c\<lparr>ccdr := d\<rparr>))"
  by (rule reverse_x_c_ok [OF assms])

theorem reverse_in_place_witness:
  "\<exists>h. reverse_x_c 1000130 cell_nil desk = Some (Inr 1000131, desk\<lparr>heap := h\<rparr>)
     \<and> cars h [1000131, 1000130] = [1000121, 1000120]"
proof -
  have "spine (heap desk) 1000130 [1000130, 1000131] cell_nil"
    "cars (heap desk) [1000130, 1000131] = [1000120, 1000121]"
    by (simp_all add: desk_eval)
  then show ?thesis
    using reverse_in_place [of desk 1000130 "[1000130, 1000131]" cell_nil] by auto
qed

text \<open>C29. A string exploded into a list of characters and packed again is the same text, a byte
  at a time, in a fresh string; no allocated cell changes.\<close>

theorem string_list_roundtrip:
  assumes "text_at s TSTRING bs p" "arena_ok s" "specials_ok s"
    and "room (2 * int (length bs) + string_cells bs) s"
    and "int (length bs) < MAX_STRING s" "int (length bs) < 2 ^ 62"
  shows "\<exists>t q. mbind (string_to_list p) list_to_string s = Some (Inr q, t) \<and> text_at t TSTRING bs q
     \<and> extends s t"
  by (rule string_list_string [OF assms])

theorem string_list_roundtrip_witness:
  "\<exists>t q. mbind (string_to_list 1000140) list_to_string desk = Some (Inr q, t) \<and> text_at t TSTRING [97, 98] q"
  using string_list_roundtrip [OF desk_texts(1)] by (auto simp: string_cells_def bytes_cells_def to_size_def take_bit_int_eq_self)

text \<open>C30. \<^verbatim>\<open>string_append\<close> gives a string of all the bytes of its arguments in order.\<close>

theorem string_append_concatenates:
  assumes "texts_at s p bss" "arena_ok s" "room (string_cells (concat bss)) s"
    and "int (length (concat bss)) < MAX_STRING s" "int (length (concat bss)) < 2 ^ 62"
  shows "\<exists>t. string_append p s = Some (Inr (g_free s), t) \<and> text_at t TSTRING (concat bss) (g_free s)
     \<and> extends s t"
  by (rule string_append_ok [OF assms])

theorem string_append_concatenates_witness:
  "\<exists>t. string_append 1000150 desk = Some (Inr 1000300, t) \<and> text_at t TSTRING [97, 98, 99] 1000300"
proof -
  have "texts_at desk 1000150 [[97, 98], [99]]"
    unfolding texts_at_def using desk_texts
    by (intro exI [of _ "[1000140, 1000145]"]) (simp add: list_at_Cons desk_eval del: lookup_Some)
  from string_append_concatenates [OF this] show ?thesis
    by (auto simp: string_cells_def bytes_cells_def to_size_def take_bit_int_eq_self)
qed

text \<open>C31. A list of exactly \<^verbatim>\<open>MAX_STRING\<close> characters passes the check of \<^verbatim>\<open>list_to_string\<close>,
  and the terminating byte is then written past the end of the buffer.\<close>

theorem list_to_string_overflows:
  assumes "char_list_at s p bs" "int (length bs) = MAX_STRING s"
  shows "list_to_string p s = Some (Inl Segv, s)"
  by (rule list_to_string_overflow [OF assms])

theorem list_to_string_overflows_witness:
  "list_to_string 1000156 (desk\<lparr>MAX_STRING := 1\<rparr>) = Some (Inl Segv, desk\<lparr>MAX_STRING := 1\<rparr>)"
proof (rule list_to_string_overflows)
  have "lookup (desk\<lparr>MAX_STRING := 1\<rparr>) = lookup desk"
    by (rule ext) (simp add: lookup_def)
  then show "char_list_at (desk\<lparr>MAX_STRING := 1\<rparr>) 1000156 [97]"
    using desk_chars unfolding char_list_at_def list_at_def by simp
qed simp

text \<open>C32. The sum of a list of numbers is the integer sum wrapped to 64 bits, whatever
  intermediate sums wrapped.\<close>

theorem plus_wraps:
  assumes "numbers_at s p vs" "arena_ok s" "room 1 s"
  shows "plus p s = Some (Inr (g_free s), push_cell (mk_cell TNUMBER 0 (to_long (sum_list vs))) s)"
  by (rule plus_ok [OF assms])

theorem plus_wraps_witness:
  "plus 1000130 desk = Some (Inr 1000300, push_cell (mk_cell TNUMBER 0 16) desk)"
  using plus_wraps [OF desk_numbers] by (simp add: to_long_def)

text \<open>C33. The product likewise.\<close>

theorem multiply_wraps:
  assumes "numbers_at s p vs" "arena_ok s" "room 1 s"
  shows "multiply p s = Some (Inr (g_free s), push_cell (mk_cell TNUMBER 0 (to_long (prod_list vs))) s)"
  by (rule multiply_ok [OF assms])

theorem multiply_wraps_witness:
  "multiply 1000130 desk = Some (Inr 1000300, push_cell (mk_cell TNUMBER 0 63) desk)"
  using multiply_wraps [OF desk_numbers] by (simp add: to_long_def)

text \<open>C34. Division by positive divisors, which the code does by unsigned division of the
  magnitude, is division truncated towards zero.\<close>

theorem divide_truncates:
  assumes "numbers_at s p (n # ds)" "\<forall>d \<in> set ds. 0 < d" "arena_ok s" "room 1 s"
  shows "divide p s = Some (Inr (g_free s),
    push_cell (mk_cell TNUMBER 0 (sgn n * (\<bar>n\<bar> div prod_list ds))) s)"
  by (rule divide_ok [OF assms])

theorem divide_truncates_witness:
  "divide 1000130 desk = Some (Inr 1000300, push_cell (mk_cell TNUMBER 0 0) desk)"
  using divide_truncates [OF desk_numbers] by simp

text \<open>C35. \<^verbatim>\<open>modulo\<close> is the mathematical modulo for a positive divisor; for a negative one the
  code subtracts and gives the negated modulo of the magnitude.\<close>

theorem modulo_by_sign:
  assumes "number_at s a n" "number_at s b v" "v \<noteq> 0" "v \<noteq> - (2 ^ 63)" "arena_ok s" "room 1 s"
  shows "modulo a b s = Some (Inr (g_free s),
    push_cell (mk_cell TNUMBER 0 (if 0 < v then n mod v else - (n mod (- v)))) s)"
  by (rule modulo_ok [OF assms])

theorem modulo_by_sign_witness:
  "modulo 1000121 1000120 desk = Some (Inr 1000300, push_cell (mk_cell TNUMBER 0 2) desk)"
proof -
  have "number_at desk 1000121 9" "number_at desk 1000120 7"
    by (simp_all add: number_at_def is_long_def desk_eval del: lookup_Some)
  from modulo_by_sign [OF this] show ?thesis by simp
qed

text \<open>C36. \<^verbatim>\<open>memmove\<close> copies a block byte for byte to any place, in particular to one that overlaps it on
  either side, and changes nothing else.\<close>

theorem memmove_copies:
  assumes "bytes_at m src bs" "mapped_at m dest (length bs)"
  shows "memmove dest src (length bs) m = Some (Inr dest, put m dest bs)"
  by (rule memmove_ok [OF assms])

theorem memmove_copies_witness:
  "memmove 101 100 3 (put Map.empty 100 [1, 2, 3, 4]) = Some (Inr 101, put (put Map.empty 100 [1, 2, 3, 4]) 101 [1, 2, 3])"
proof -
  have "bytes_at (put Map.empty 100 [1, 2, 3, 4]) 100 [1, 2, 3]" "mapped_at (put Map.empty 100 [1, 2, 3, 4]) 101 3"
    using put_same [of Map.empty 100 "[1, 2, 3, 4]"] by (simp_all add: mapped_at_Suc numeral_3_eq_3)
  then show ?thesis
    using memmove_copies [of "put Map.empty 100 [1, 2, 3, 4]" 100 "[1, 2, 3]" 101] by (simp add: numeral_3_eq_3)
qed

text \<open>C37. \<^verbatim>\<open>strstr\<close> returns the first place where a string occurs in another, or null, and an empty
  string occurs at the start.\<close>

theorem strstr_finds_first:
  assumes "string_in m h hs" "string_in m n ns" "int (length hs) < 2 ^ 31" "int (length ns) < 2 ^ 31"
  shows "strstr h n m = Some (Inr (case first_place ns hs of None \<Rightarrow> 0 | Some i \<Rightarrow> h + int i), m)"
  by (rule strstr_ok [OF assms])

theorem strstr_finds_first_witness:
  "strstr 100 200 (put (put Map.empty 100 [97, 98, 97, 98, 99, 0]) 200 [98, 99, 0])
     = Some (Inr 103, put (put Map.empty 100 [97, 98, 97, 98, 99, 0]) 200 [98, 99, 0])"
proof -
  let ?m = "put (put Map.empty 100 [97, 98, 97, 98, 99, 0]) 200 [98, 99, 0]"
  have "string_in ?m 100 [97, 98, 97, 98, 99]" "string_in ?m 200 [98, 99]"
    by (simp_all add: string_in_def put_def)
  from strstr_finds_first [OF this] show ?thesis
    by (simp add: first_place_def)
qed

text \<open>C38. The decimal digits that \<^verbatim>\<open>itoa\<close> writes for an \<^verbatim>\<open>int\<close> are read back by
  \<^verbatim>\<open>atoi\<close> as the same number.\<close>

theorem atoi_of_itoa:
  assumes "is_int x"
  shows "\<exists>p. itoa x s = Some (Inr p, s) \<and> atoi (p @ [0]) = x"
  by (rule atoi_itoa [OF assms])

theorem atoi_of_itoa_witness:
  "\<exists>p. itoa (- 2147483648) desk = Some (Inr p, desk) \<and> atoi (p @ [0]) = - 2147483648"
  using atoi_of_itoa [of "- 2147483648" desk] by (simp add: is_int_def)

text \<open>C39. In every base from 8 on, the digits of a \<^verbatim>\<open>long\<close> with sign and end of string fit
  the static buffer of \<^verbatim>\<open>ntoab\<close>.\<close>

theorem ntoab_fits_buffer:
  assumes "8 \<le> base" "is_long x"
  shows "\<exists>p. ntoab x base signed_p s = Some (Inr p, s) \<and> length p + 1 \<le> 24"
  by (rule ntoab_fits [OF assms])

theorem ntoab_fits_buffer_witness:
  "\<exists>p. ntoab (- (2 ^ 63)) 8 True desk = Some (Inr p, desk) \<and> length p + 1 \<le> 24"
  using ntoab_fits_buffer [of 8 "- (2 ^ 63)" True desk] by (simp add: is_long_def)

text \<open>C40. On a circular list \<^verbatim>\<open>length_c\<close> does not return: from no cell of a cycle does the
  loop come to an end.\<close>

theorem length_of_cycle:
  assumes "\<And>x. x \<in> C \<Longrightarrow> x \<noteq> cell_nil \<and> (\<exists>c. heap s x = Some c \<and> ctype c = TPAIR \<and> ccdr c \<in> C)"
    and "p \<in> C"
  shows "length_c p s = None"
  using length_loop_cycle [OF assms] by (simp add: length_c_def)

theorem length_of_cycle_witness: "length_c 1000245 desk = None"
  by (rule length_of_cycle [of "{1000245}"]) (simp_all add: desk_eval)

section \<open>Further facts\<close>

text \<open>The same for a struct.\<close>

theorem struct_set_then_ref:
  assumes "slots_at TSTRUCT s x v es" "i < length es" "lookup s y = Some c" "arena_ok s" "room 2 s"
    and "y < v \<or> v + int (length es) \<le> y"
  shows "\<exists>t u z d. struct_set_x_c x (int i) y s = Some (Inr cell_unspecified, t)
     \<and> struct_ref_c x (int i) t = Some (Inr z, u)
     \<and> heap u z = Some d \<and> ctype d = ctype c \<and> ccdr d = ccdr c
     \<and> (\<not> immediate (ctype c) \<longrightarrow> z = y \<and> u = t)"
  by (rule struct.set_then_ref [OF assms])

theorem struct_set_then_ref_witness:
  "\<exists>t u z d. struct_set_x_c 1000180 4 1000120 desk = Some (Inr cell_unspecified, t)
     \<and> struct_ref_c 1000180 4 t = Some (Inr z, u) \<and> heap u z = Some d \<and> ccdr d = 7"
proof -
  have "lookup desk 1000120 = Some (mk_cell TNUMBER 0 7)" "4 < length desk_fields"
    by (simp_all add: desk_eval desk_fields_def del: lookup_Some)
  then show ?thesis
    using struct_set_then_ref [OF desk_module_slots, of 4 1000120 "mk_cell TNUMBER 0 7"] by fastforce
qed

text \<open>\<^verbatim>\<open>less_p\<close> answers whether a list of numbers increases strictly.\<close>

theorem less_p_decides:
  assumes "numbers_at s p vs"
  shows "less_p p s = Some (Inr (if sorted_wrt (<) vs then cell_t else cell_f), s)"
  by (rule less_p_ok [OF assms])

theorem less_p_decides_witness: "less_p 1000130 desk = Some (Inr cell_t, desk)"
  using less_p_decides [OF desk_numbers] by simp

text \<open>The length of a proper list is the number of its elements.\<close>

theorem length_of_list:
  assumes "list_at s p xs"
  shows "length_c p s = Some (Inr (int (length xs)), s)"
  by (rule length_c_list [OF assms])

theorem length_of_list_witness: "length_c 1000130 desk = Some (Inr 2, desk)"
  using length_of_list [OF desk_list(1)] by simp

text \<open>While the interpreter boots, before there is a module system, a global is looked up in
  the hash table \<^verbatim>\<open>M0\<close>.\<close>

theorem boot_variable:
  assumes "M1 s = cell_f" "hash_dict s (M0 s) names m" "names k = Some bs" "ready 1 s"
  shows "\<exists>t. current_module_variable ap k cell_f s =
     Some (Inr (case m k of Some v \<Rightarrow> v | None \<Rightarrow> cell_f), t) \<and> grows 1 s t"
  by (rule current_module_variable_booting [OF assms])

theorem boot_variable_witness:
  "\<exists>t. current_module_variable (\<lambda>f a b s. None) 1000106 cell_f (desk\<lparr>M0 := 1000200, M1 := cell_f\<rparr>)
     = Some (Inr 1000170, t)"
proof -
  let ?s = "desk\<lparr>M0 := 1000200, M1 := cell_f\<rparr>"
  have "extends desk ?s"
    by (simp add: extends_def)
  then have "hash_dict ?s (M0 ?s) [1000106 \<mapsto> [97]] [1000106 \<mapsto> 1000170]"
    using hash_dict_extends [OF _ desk_dict] by simp
  then show ?thesis
    using boot_variable [of ?s "[1000106 \<mapsto> [97]]" "[1000106 \<mapsto> 1000170]" 1000106 "[97]" "\<lambda>f a b s. None"]
    by auto
qed

text \<open>What \<^verbatim>\<open>vector_set_x\<close> stored is what \<^verbatim>\<open>vector_ref\<close> reads: an object itself, a number
  or a character a copy of it.\<close>

theorem vector_set_then_ref:
  assumes "slots_at TVECTOR s x v es" "i < length es" "lookup s y = Some c" "arena_ok s" "room 2 s"
    and "y < v \<or> v + int (length es) \<le> y"
  shows "\<exists>t u z d. vector_set_x_c x (int i) y s = Some (Inr cell_unspecified, t)
     \<and> vector_ref_c x (int i) t = Some (Inr z, u)
     \<and> heap u z = Some d \<and> ctype d = ctype c \<and> ccdr d = ccdr c
     \<and> (\<not> immediate (ctype c) \<longrightarrow> z = y \<and> u = t)"
  by (rule vec.set_then_ref [OF assms])

theorem vector_set_then_ref_witness:
  "\<exists>t u z. vector_set_x_c 1000165 0 1000130 desk = Some (Inr cell_unspecified, t)
     \<and> vector_ref_c 1000165 0 t = Some (Inr 1000130, u)"
proof -
  have "lookup desk 1000130 = Some (mk_cell TPAIR 1000120 1000131)"
    by (simp add: desk_eval del: lookup_Some)
  then show ?thesis
    using vector_set_then_ref [OF desk_vector, of 0 1000130 "mk_cell TPAIR 1000120 1000131"]
    by (auto simp: immediate_def)
qed

text \<open>A byte that is stored in a bytevector is read back, the others stay.\<close>

theorem bytevector_set_then_ref:
  assumes "bytevector_at s bv bs" "arena_ok s" "room 1 s"
    and "lookup s k = Some ck" "ctype ck = TNUMBER" "0 \<le> ccdr ck" "ccdr ck < int (length bs)"
    and "lookup s val = Some cv" "ctype cv = TNUMBER" "0 \<le> ccdr cv" "ccdr cv < 256"
  shows "\<exists>t bs'. bytevector_u8_set_x bv k val s = Some (Inr cell_unspecified, t)
     \<and> bytevector_at t bv bs' \<and> length bs' = length bs
     \<and> (\<forall>i. i \<noteq> nat (ccdr ck) \<longrightarrow> i < length bs \<longrightarrow> bs' ! i = bs ! i)
     \<and> bytevector_u8_ref bv k t = Some (Inr (g_free s), push_cell (mk_cell TNUMBER 0 (ccdr cv)) t)"
  by (rule bytevector_u8_set_ref [OF assms])

theorem bytevector_set_then_ref_witness:
  "\<exists>t. bytevector_u8_set_x 1000160 1000247 1000120 desk = Some (Inr cell_unspecified, t)
     \<and> bytevector_u8_ref 1000160 1000247 t = Some (Inr 1000300, push_cell (mk_cell TNUMBER 0 7) t)"
proof -
  have "lookup desk 1000247 = Some (mk_cell TNUMBER 0 1)" "lookup desk 1000120 = Some (mk_cell TNUMBER 0 7)"
    by (simp_all add: desk_eval del: lookup_Some)
  then show ?thesis
    using bytevector_set_then_ref [OF desk_bytevector, of 1000247 "mk_cell TNUMBER 0 1" 1000120 "mk_cell TNUMBER 0 7"]
    by auto
qed

text \<open>A vector that does not fit in the arena is an error, never a write past its end.\<close>

theorem make_vector_out_of_memory:
  assumes "\<not> room (1 + k) s" "0 \<le> k"
  shows "\<exists>t. make_vector_c k e s = Some (Inl (Assert ''alloc: out of memory''), t)"
  by (rule make_vector_c_full [OF assms])

theorem make_vector_out_of_memory_witness:
  "\<exists>t. make_vector_c 1000 cell_t desk = Some (Inl (Assert ''alloc: out of memory''), t)"
  by (rule make_vector_out_of_memory) (simp_all add: room_def)

end
